(* ===== verification/Prelude.thy ===== *)
theory Prelude
  imports Main "HOL-Library.Word" "HOL-Library.Monad_Syntax" "HOL-Library.Multiset"
begin

text \<open>
  Shared vocabulary of the development: the machine types of the C code, the
  option type read as "the call returns" (\<open>None\<close> is an out-of-range access, a failed
  assertion or a loop that never ends), bounds-checked array reads and writes,
  C strings, and the generic lemmas on lists and words that several components use.
\<close>

unbundle bit_operations_syntax

section \<open>Machine types\<close>

type_synonym u8 = "8 word"
type_synonym u32 = "32 word"
type_synonym u64 = "64 word"

text \<open>
  A conversion to the C types \<open>int\<close> and \<open>long long\<close>: the value is kept modulo
  the width and read as two's complement.
\<close>

definition c_int :: "int \<Rightarrow> int" where
  "c_int x = sint (word_of_int x :: 32 word)"

definition c_llong :: "int \<Rightarrow> int" where
  "c_llong x = sint (word_of_int x :: 64 word)"

definition LLONG_MAX :: int where "LLONG_MAX = 9223372036854775807"
definition LLONG_MIN :: int where "LLONG_MIN = - 9223372036854775808"
definition INT_MAX :: int where "INT_MAX = 2147483647"

definition is_llong :: "int \<Rightarrow> bool" where
  "is_llong v \<longleftrightarrow> LLONG_MIN \<le> v \<and> v \<le> LLONG_MAX"

section \<open>Array accesses that may leave the array\<close>

definition arr_get :: "'a list \<Rightarrow> nat \<Rightarrow> 'a option" where
  "arr_get xs i = (if i < length xs then Some (xs ! i) else None)"

definition arr_set :: "'a list \<Rightarrow> nat \<Rightarrow> 'a \<Rightarrow> 'a list option" where
  "arr_set xs i x = (if i < length xs then Some (xs[i := x]) else None)"

text \<open>The same read at a signed index, as C computes it from an \<open>int\<close> or a \<open>long\<close>.\<close>

definition arr_get_int :: "'a list \<Rightarrow> int \<Rightarrow> 'a option" where
  "arr_get_int xs i = (if 0 \<le> i then arr_get xs (nat i) else None)"

definition arr_set_int :: "'a list \<Rightarrow> int \<Rightarrow> 'a \<Rightarrow> 'a list option" where
  "arr_set_int xs i x = (if 0 \<le> i then arr_set xs (nat i) x else None)"

text \<open>\<open>assert\<close>: the process stops when the condition is false.\<close>

definition c_assert :: "bool \<Rightarrow> unit option" where
  "c_assert b = (if b then Some () else None)"

text \<open>Decrementing a counter that must not be zero.\<close>

definition count_dec :: "nat \<Rightarrow> nat option" where
  "count_dec n = (if n = 0 then None else Some (n - 1))"

text \<open>Values kept in an \<open>unsigned int\<close> and in an \<open>unsigned long\<close>.\<close>

definition wrap32 :: "int \<Rightarrow> int" where "wrap32 x = x mod 2 ^ 32"
definition wrap64 :: "int \<Rightarrow> int" where "wrap64 x = x mod 2 ^ 64"

lemma wrap32_id: "0 \<le> x \<Longrightarrow> x < 2 ^ 32 \<Longrightarrow> wrap32 x = x"
  by (simp add: wrap32_def)

lemma wrap64_id: "0 \<le> x \<Longrightarrow> x < 2 ^ 64 \<Longrightarrow> wrap64 x = x"
  by (simp add: wrap64_def)

named_theorems arr_simps \<open>bounds-checked accesses inside the bounds\<close>

lemma arr_get_in [arr_simps]: "i < length xs \<Longrightarrow> arr_get xs i = Some (xs ! i)"
  by (simp add: arr_get_def)

lemma arr_set_in [arr_simps]: "i < length xs \<Longrightarrow> arr_set xs i x = Some (xs[i := x])"
  by (simp add: arr_set_def)

lemma arr_get_int_in [arr_simps]:
  "0 \<le> i \<Longrightarrow> i < int (length xs) \<Longrightarrow> arr_get_int xs i = Some (xs ! nat i)"
  by (simp add: arr_get_int_def arr_get_def nat_less_iff)

lemma arr_set_int_in [arr_simps]:
  "0 \<le> i \<Longrightarrow> i < int (length xs) \<Longrightarrow> arr_set_int xs i x = Some (xs[nat i := x])"
  by (simp add: arr_set_int_def arr_set_def nat_less_iff)

lemma arr_get_SomeD: "arr_get xs i = Some x \<Longrightarrow> i < length xs \<and> x = xs ! i"
  by (simp add: arr_get_def split: if_splits)

lemma arr_set_SomeD: "arr_set xs i x = Some ys \<Longrightarrow> i < length xs \<and> ys = xs[i := x]"
  by (simp add: arr_set_def split: if_splits)

lemma arr_get_int_SomeD:
  "arr_get_int xs i = Some x \<Longrightarrow> 0 \<le> i \<and> nat i < length xs \<and> x = xs ! nat i"
  by (simp add: arr_get_int_def arr_get_def split: if_splits)

lemma c_assert_True [simp]: "c_assert True = Some ()" and c_assert_False [simp]: "c_assert False = None"
  by (simp_all add: c_assert_def)

section \<open>C strings\<close>

text \<open>
  A \<open>char*\<close> into a Redis string is the string's bytes followed by a NUL, so
  \<open>strlen\<close> stops at the first NUL byte of the contents or at their end.
\<close>

definition cstr :: "string \<Rightarrow> string" where
  "cstr s = takeWhile (\<lambda>c. c \<noteq> CHR 0x00) s"

definition strlen :: "string \<Rightarrow> nat" where
  "strlen s = length (cstr s)"

lemma cstr_no_nul: "CHR 0x00 \<notin> set s \<Longrightarrow> cstr s = s"
  by (auto simp: cstr_def intro: takeWhile_eq_all_conv [THEN iffD2])

lemma strlen_le: "strlen s \<le> length s"
  by (simp add: strlen_def cstr_def length_takeWhile_le)

lemma take_strlen: "take (strlen s) s = cstr s"
  by (metis strlen_def cstr_def takeWhile_eq_take)

definition is_upper :: "char \<Rightarrow> bool" where
  "is_upper c \<longleftrightarrow> 65 \<le> (of_char c :: nat) \<and> (of_char c :: nat) \<le> 90"

definition c_tolower :: "char \<Rightarrow> char" where
  "c_tolower c = (if is_upper c then char_of ((of_char c :: nat) + 32) else c)"

definition strcasecmp_eq :: "string \<Rightarrow> string \<Rightarrow> bool" where
  "strcasecmp_eq a b \<longleftrightarrow> map c_tolower (cstr a) = map c_tolower (cstr b)"

definition strcmp_eq :: "string \<Rightarrow> string \<Rightarrow> bool" where
  "strcmp_eq a b \<longleftrightarrow> cstr a = cstr b"

section \<open>Words\<close>

lemma unat_u8_less [simp]: "unat (b :: u8) < 256"
  using unsigned_less [of b] by simp

lemma unat_u64_less: "unat (v :: u64) < 18446744073709551616"
  using unsigned_less [of v, where 'a = nat] by simp

lemma xor_right_cancel [simp]: "(a XOR p = b XOR p) = (a = b)" for a b p :: "'a::len word"
proof
  assume "a XOR p = b XOR p"
  then have "(a XOR p) XOR p = (b XOR p) XOR p" by simp
  then show "a = b" by (simp add: xor.assoc)
qed simp

lemma bit_of_char_word_iff:
  "bit (of_char c :: 'a::len word) n \<longleftrightarrow> n < LENGTH('a) \<and> n < 8 \<and>
     [digit0 c, digit1 c, digit2 c, digit3 c, digit4 c, digit5 c, digit6 c, digit7 c] ! n"
  unfolding of_char_def bit_horner_sum_bit_word_iff by auto

text \<open>A word is its low bits and its high bits, put together.\<close>

lemma word_split_low_high: "take_bit n x XOR push_bit n (drop_bit n x) = x"
  for x :: "'a::len word"
  by (rule bit_word_eqI)
    (auto simp: bit_xor_iff bit_take_bit_iff bit_push_bit_iff bit_drop_bit_eq not_less)

lemma take_bit_push_bit_same: "take_bit n (push_bit n x) = 0" for x :: "'a::len word"
  by (rule bit_word_eqI) (auto simp: bit_take_bit_iff bit_push_bit_iff)

lemma drop_push_drop_bit: "drop_bit n (push_bit n (drop_bit n x)) = drop_bit n x"
  for x :: "'a::len word"
  by (rule bit_word_eqI)
    (auto simp: bit_push_bit_iff bit_drop_bit_eq dest: bit_imp_le_length)

lemma unat_of_char_u32: "unat (of_char c :: u32) = of_char c"
proof -
  have "(of_char c :: nat) < 2 ^ LENGTH(32)"
    using nat_of_char_less_256 [of c] by (rule less_le_trans) simp
  then have "unat (of_nat (of_char c) :: u32) = of_char c"
    by (simp only: unat_of_nat mod_less)
  then show ?thesis by (simp only: of_nat_of_char)
qed

section \<open>Lists of buckets\<close>

lemma mset_concat_update:
  "i < length t \<Longrightarrow> mset (concat (t[i := c])) + mset (t ! i) = mset (concat t) + mset c"
  by (induction t arbitrary: i) (auto simp: nth_Cons' split: nat.splits)

lemma length_concat_update:
  "i < length t \<Longrightarrow> length (concat (t[i := c])) + length (t ! i) = length (concat t) + length c"
  using mset_concat_update [of i t c] by (metis size_mset size_union)

lemma in_set_concat_iff: "x \<in> set (concat t) \<longleftrightarrow> (\<exists>b\<in>set t. x \<in> set b)"
  by simp

lemma set_concat_nth: "x \<in> set (concat t) \<longleftrightarrow> (\<exists>i<length t. x \<in> set (t ! i))"
  by (metis in_set_conv_nth in_set_concat_iff)

lemma nth_le_length_concat: "i < length t \<Longrightarrow> length (t ! i) \<le> length (concat t)"
  using length_concat_update [of i t "[]"] by simp

lemma concat_replicate_Nil [simp]: "concat (replicate n []) = []"
  by (induction n) simp_all

lemma unat_and_low_mask:
  "n \<le> 64 \<Longrightarrow> unat ((w :: u64) AND of_nat (2 ^ n - 1)) = unat w mod 2 ^ n"
proof -
  assume "n \<le> 64"
  have "of_nat (2 ^ n - 1) = (mask n :: u64)"
    by (simp add: mask_eq_exp_minus_1 of_nat_diff)
  then have "w AND of_nat (2 ^ n - 1) = take_bit n w" by (simp add: take_bit_eq_mask)
  then have "unat (w AND of_nat (2 ^ n - 1)) = take_bit n (unat w)"
    by (simp only: unsigned_take_bit_eq)
  then show ?thesis by (simp only: take_bit_eq_mod)
qed

lemma map_of_mset_eq:
  assumes "mset xs = mset ys" and "distinct (map fst xs)"
  shows "map_of xs = map_of ys"
proof -
  have "distinct (map fst ys)"
    using assms by (metis mset_map mset_eq_imp_distinct_iff)
  then show ?thesis using assms by (intro map_of_inject_set [THEN iffD2]) (auto dest: mset_eq_setD)
qed

section \<open>Counting loops\<close>

text \<open>\<open>for (j = i; j < i + n; j++) body\<close>, and the same with a body that can leave the loop.\<close>

fun for_range :: "nat \<Rightarrow> nat \<Rightarrow> (nat \<Rightarrow> 's \<Rightarrow> 's option) \<Rightarrow> 's \<Rightarrow> 's option" where
  "for_range i 0 f s = Some s"
| "for_range i (Suc n) f s = do { s \<leftarrow> f i s; for_range (Suc i) n f s }"

fun for_until :: "nat \<Rightarrow> nat \<Rightarrow> (nat \<Rightarrow> 's \<Rightarrow> (bool \<times> 's) option) \<Rightarrow> 's \<Rightarrow> (bool \<times> 's) option" where
  "for_until i 0 f s = Some (False, s)"
| "for_until i (Suc n) f s = do {
     (leave, s) \<leftarrow> f i s;
     if leave then Some (True, s) else for_until (Suc i) n f s
   }"

lemma for_range_rule:
  assumes "P i s" and "\<And>j s. i \<le> j \<Longrightarrow> j < i + n \<Longrightarrow> P j s \<Longrightarrow> \<exists>s'. f j s = Some s' \<and> P (Suc j) s'"
  shows "\<exists>s'. for_range i n f s = Some s' \<and> P (i + n) s'"
  using assms
proof (induction n arbitrary: i s)
  case 0
  then show ?case by simp
next
  case (Suc n)
  obtain s1 where s1: "f i s = Some s1" "P (Suc i) s1" using Suc.prems(2) [of i s] Suc.prems(1) by auto
  have "\<exists>s'. for_range (Suc i) n f s1 = Some s' \<and> P (Suc i + n) s'"
    by (rule Suc.IH [OF s1(2)]) (use Suc.prems(2) in auto)
  then show ?case using s1(1) by simp
qed

lemma for_until_rule:
  assumes "P i s" and "\<And>j s. i \<le> j \<Longrightarrow> j < i + n \<Longrightarrow> P j s \<Longrightarrow>
      \<exists>b s'. f j s = Some (b, s') \<and> (if b then Q s' else P (Suc j) s')"
  shows "\<exists>b s'. for_until i n f s = Some (b, s') \<and> (if b then Q s' else P (i + n) s')"
  using assms
proof (induction n arbitrary: i s)
  case 0
  then show ?case by (intro exI [of _ False] exI [of _ s]) simp
next
  case (Suc n)
  obtain b s1 where s1: "f i s = Some (b, s1)" "if b then Q s1 else P (Suc i) s1"
    using Suc.prems(2) [of i s] Suc.prems(1) by auto
  show ?case
  proof (cases b)
    case True
    then show ?thesis using s1 by (intro exI [of _ True] exI [of _ s1]) simp
  next
    case False
    then have "P (Suc i) s1" using s1(2) by simp
    then have "\<exists>b s'. for_until (Suc i) n f s1 = Some (b, s') \<and> (if b then Q s' else P (Suc i + n) s')"
      by (rule Suc.IH) (use Suc.prems(2) in auto)
    moreover have "for_until i (Suc n) f s = for_until (Suc i) n f s1" using s1(1) False by simp
    ultimately show ?thesis by (simp only: add_Suc_shift)
  qed
qed

end
