(* ===== verification/Crc32.thy ===== *)
theory Crc32
  imports Prelude
begin

text \<open>
  The CRC-32 of \<open>crc32.c\<close>: the table of \<open>crc32_tabinit\<close>, the byte loop of
  \<open>crc32_update\<close> and \<open>crc32_checksum\<close>. The reference is the bit-serial CRC that
  needs no table; the table-driven loop is proved equal to it.
\<close>

section \<open>The code\<close>

definition IEEE_POLY :: u32 where
  "IEEE_POLY = 0xedb88320"

text \<open>The body of the inner loop of \<open>crc32_tabinit\<close>: one bit is shifted out.\<close>

definition crc32_bit :: "u32 \<Rightarrow> u32 \<Rightarrow> u32" where
  "crc32_bit poly crc =
     (if crc AND 1 \<noteq> 0 then drop_bit 1 crc XOR poly else drop_bit 1 crc)"

definition crc32_tabinit :: "u32 \<Rightarrow> u32 list" where
  "crc32_tabinit poly = map (\<lambda>i. (crc32_bit poly ^^ 8) (of_nat i)) [0..<256]"

text \<open>\<open>crc32_init\<close> fills the static table; before it runs the table is all zero.\<close>

definition crc32tab_static :: "u32 list" where
  "crc32tab_static = replicate 256 0"

definition crc32_init :: "u32 list" where
  "crc32_init = crc32_tabinit IEEE_POLY"

definition crc32_step :: "u32 list \<Rightarrow> u32 \<Rightarrow> char \<Rightarrow> u32" where
  "crc32_step tab crc c = (tab ! unat (ucast crc XOR of_char c :: u8)) XOR drop_bit 8 crc"

fun crc32_loop :: "u32 list \<Rightarrow> u32 \<Rightarrow> string \<Rightarrow> u32" where
  "crc32_loop tab crc [] = crc"
| "crc32_loop tab crc (c # buf) = crc32_loop tab (crc32_step tab crc c) buf"

definition crc32_update :: "u32 list \<Rightarrow> u32 \<Rightarrow> string \<Rightarrow> u32" where
  "crc32_update tab crc buf = NOT (crc32_loop tab (NOT crc) buf)"

definition crc32_checksum :: "u32 list \<Rightarrow> string \<Rightarrow> u32" where
  "crc32_checksum tab buf = crc32_update tab 0 buf"

section \<open>The bit-serial reference\<close>

definition crc32_serial_byte :: "u32 \<Rightarrow> u32 \<Rightarrow> char \<Rightarrow> u32" where
  "crc32_serial_byte poly crc c = (crc32_bit poly ^^ 8) (crc XOR of_char c)"

definition crc32_serial :: "u32 \<Rightarrow> string \<Rightarrow> u32" where
  "crc32_serial poly buf = NOT (foldl (crc32_serial_byte poly) (NOT 0) buf)"

section \<open>One shifted bit is linear and injective\<close>

lemma crc32_bit_odd: "crc32_bit p x = (if odd x then drop_bit 1 x XOR p else drop_bit 1 x)"
  by (simp add: crc32_bit_def and_one_eq mod_2_eq_odd)

lemma crc32_bit_xor: "crc32_bit p (x XOR y) = crc32_bit p x XOR crc32_bit p y"
proof -
  have odd: "odd (x XOR y) = (odd x \<noteq> odd y)"
    by (simp add: even_xor_iff)
  have swap: "(a XOR p) XOR b = (a XOR b) XOR p" and cancel: "(a XOR p) XOR (b XOR p) = a XOR b"
    for a b :: u32
    by (simp_all add: ac_simps)
  show ?thesis
    unfolding crc32_bit_odd odd drop_bit_xor by (auto simp: swap cancel ac_simps)
qed

lemma crc32_bit_funpow_xor:
  "(crc32_bit p ^^ n) (x XOR y) = (crc32_bit p ^^ n) x XOR (crc32_bit p ^^ n) y"
  by (induction n) (simp_all add: crc32_bit_xor)

lemma crc32_bit_funpow_low_zero: "take_bit n x = 0 \<Longrightarrow> (crc32_bit p ^^ n) x = drop_bit n x"
proof (induction n)
  case 0
  then show ?case by simp
next
  case (Suc n)
  from Suc.prems have bits: "\<not> bit x i" if "i < Suc n" for i
    using that by (metis bit_0_eq bit_take_bit_iff bot_apply bot_bool_def)
  have "take_bit n x = 0"
    by (rule bit_eqI) (simp add: bit_take_bit_iff bits)
  then have "(crc32_bit p ^^ n) x = drop_bit n x" by (rule Suc.IH)
  moreover have "even (drop_bit n x)"
    using bits [of n] by (simp add: bit_iff_odd_drop_bit)
  ultimately show ?case
    by (simp only: funpow.simps o_apply crc32_bit_odd [of p "drop_bit n x"]) simp
qed

lemma inj_crc32_bit:
  assumes "bit p 31"
  shows "inj (crc32_bit p)"
proof (rule injI)
  fix x y :: u32
  assume eq: "crc32_bit p x = crc32_bit p y"
  have top: "bit (crc32_bit p z) 31 = odd z" for z :: u32
    using assms bit_imp_le_length [of z 32]
    by (auto simp: crc32_bit_odd bit_xor_iff bit_drop_bit_eq)
  have odd: "odd x = odd y"
    using eq top by metis
  have "drop_bit 1 x = drop_bit 1 y"
    using eq odd by (auto simp: crc32_bit_odd split: if_splits) 
  then have "bit (drop_bit 1 x) n = bit (drop_bit 1 y) n" for n by simp
  then have high: "bit x (Suc n) = bit y (Suc n)" for n
    by (simp add: bit_drop_bit_eq)
  have "bit x n = bit y n" for n
    using high odd by (cases n) (simp_all add: bit_0)
  then show "x = y" by (simp add: bit_eq_iff)
qed

section \<open>The table-driven loop is the bit-serial one\<close>

lemma length_crc32_tabinit [simp]: "length (crc32_tabinit p) = 256"
  by (simp add: crc32_tabinit_def)

lemma crc32_tabinit_nth:
  "crc32_tabinit p ! unat (b :: u8) = (crc32_bit p ^^ 8) (ucast b)"
  by (simp add: crc32_tabinit_def)

lemma crc32_bit_funpow_split:
  "(crc32_bit p ^^ n) x = (crc32_bit p ^^ n) (take_bit n x) XOR drop_bit n x"
proof -
  have "(crc32_bit p ^^ n) (take_bit n x XOR push_bit n (drop_bit n x)) =
      (crc32_bit p ^^ n) (take_bit n x) XOR (crc32_bit p ^^ n) (push_bit n (drop_bit n x))"
    by (rule crc32_bit_funpow_xor)
  also have "\<dots> = (crc32_bit p ^^ n) (take_bit n x) XOR drop_bit n x"
    by (simp only: crc32_bit_funpow_low_zero [OF take_bit_push_bit_same] drop_push_drop_bit)
  finally show ?thesis by (simp only: word_split_low_high)
qed

lemma drop_bit_8_of_char [simp]: "drop_bit 8 (of_char c :: u32) = 0"
  by (rule bit_word_eqI) (simp add: bit_drop_bit_eq bit_of_char_word_iff)

lemma ucast_low_byte: "ucast (ucast crc XOR of_char c :: u8) = take_bit 8 (crc XOR of_char c :: u32)"
  by (rule bit_word_eqI)
    (simp only: bit_ucast_iff bit_xor_iff bit_take_bit_iff bit_of_char_word_iff, auto)

lemma crc32_step_serial: "crc32_step (crc32_tabinit p) crc c = crc32_serial_byte p crc c"
proof -
  have "crc32_serial_byte p crc c =
      (crc32_bit p ^^ 8) (take_bit 8 (crc XOR of_char c)) XOR drop_bit 8 (crc XOR of_char c)"
    unfolding crc32_serial_byte_def by (rule crc32_bit_funpow_split)
  then show ?thesis
    by (simp only: crc32_step_def crc32_tabinit_nth ucast_low_byte drop_bit_xor drop_bit_8_of_char)
      simp
qed

lemma crc32_loop_foldl: "crc32_loop tab crc buf = foldl (crc32_step tab) crc buf"
  by (induction buf arbitrary: crc) simp_all

lemma crc32_loop_serial:
  "crc32_loop (crc32_tabinit p) crc buf = foldl (crc32_serial_byte p) crc buf"
  by (induction buf arbitrary: crc) (simp_all add: crc32_step_serial)

lemma crc32_checksum_tabinit: "crc32_checksum (crc32_tabinit p) buf = crc32_serial p buf"
  by (simp only: crc32_checksum_def crc32_update_def crc32_serial_def crc32_loop_serial)

section \<open>Changing one byte changes the checksum\<close>

lemma inj_crc32_bit_funpow: "bit p 31 \<Longrightarrow> inj (crc32_bit p ^^ n)"
  by (induction n) (auto intro: inj_compose inj_crc32_bit simp: inj_on_id)

lemma IEEE_POLY_top: "bit IEEE_POLY 31"
  by (simp add: IEEE_POLY_def)

lemma crc32_serial_byte_inj_crc:
  assumes "bit p 31" and "crc32_serial_byte p crc c = crc32_serial_byte p crc' c"
  shows "crc = crc'"
proof -
  from inj_crc32_bit_funpow [OF assms(1), of 8] assms(2)
  have "crc XOR of_char c = crc' XOR of_char c"
    unfolding crc32_serial_byte_def by (rule injD)
  then show ?thesis by (simp only: xor_right_cancel)
qed

lemma of_char_u32_inj: "(of_char c :: u32) = of_char d \<Longrightarrow> c = d"
  by (metis unat_of_char_u32 of_char_eq_iff)

lemma crc32_serial_byte_inj_char:
  assumes "bit p 31" and "crc32_serial_byte p crc c = crc32_serial_byte p crc d"
  shows "c = d"
proof -
  from inj_crc32_bit_funpow [OF assms(1), of 8] assms(2)
  have "crc XOR of_char c = crc XOR (of_char d :: u32)"
    unfolding crc32_serial_byte_def by (rule injD)
  then have "of_char c XOR crc = of_char d XOR (crc :: u32)" by (simp only: xor.commute)
  then have "(of_char c :: u32) = of_char d" by (simp only: xor_right_cancel)
  then show ?thesis by (rule of_char_u32_inj)
qed

lemma crc32_serial_inj_crc:
  "bit p 31 \<Longrightarrow> foldl (crc32_serial_byte p) crc buf = foldl (crc32_serial_byte p) crc' buf
    \<Longrightarrow> crc = crc'"
  by (induction buf arbitrary: crc crc') (auto dest: crc32_serial_byte_inj_crc)

section \<open>Properties\<close>

text \<open>C37: The table-driven checksum of \<open>crc32_checksum\<close>, after \<open>crc32_init\<close>, is on every
  buffer the bit-serial CRC-32 with the reflected IEEE polynomial, initial value and
  final complement.
\<close>

theorem crc32_checksum_serial:
  "crc32_checksum crc32_init buf = crc32_serial IEEE_POLY buf"
  unfolding crc32_init_def by (rule crc32_checksum_tabinit)

text \<open>Two buffers of the same length that differ in exactly one byte never have the same
  checksum: keys whose tags differ in one byte are never grouped together by a score.
\<close>

theorem crc32_one_byte_change:
  assumes "c \<noteq> d"
  shows "crc32_checksum crc32_init (pre @ c # post) \<noteq> crc32_checksum crc32_init (pre @ d # post)"
proof
  assume "crc32_checksum crc32_init (pre @ c # post) = crc32_checksum crc32_init (pre @ d # post)"
  then have "crc32_serial IEEE_POLY (pre @ c # post) = crc32_serial IEEE_POLY (pre @ d # post)"
    by (simp only: crc32_init_def crc32_checksum_tabinit)
  then have "foldl (crc32_serial_byte IEEE_POLY) (NOT 0) (pre @ c # post) =
      foldl (crc32_serial_byte IEEE_POLY) (NOT 0) (pre @ d # post)"
    by (simp only: crc32_serial_def bit.compl_eq_compl_iff)
  then have "crc32_serial_byte IEEE_POLY (foldl (crc32_serial_byte IEEE_POLY) (NOT 0) pre) c =
      crc32_serial_byte IEEE_POLY (foldl (crc32_serial_byte IEEE_POLY) (NOT 0) pre) d"
    by (simp only: foldl_append foldl_Cons) (rule crc32_serial_inj_crc [OF IEEE_POLY_top])
  with assms show False
    by (blast dest: crc32_serial_byte_inj_char [OF IEEE_POLY_top])
qed

lemma crc32_one_byte_change_witness:
  "crc32_checksum crc32_init ''ab1'' \<noteq> crc32_checksum crc32_init ''ab2''"
  using crc32_one_byte_change [of "CHR ''1''" "CHR ''2''" "''ab''" "[]"] by simp

section \<open>Evaluation on concrete buffers\<close>

text \<open>Rules with which the simplifier runs the bit-serial CRC on numerals.\<close>

lemma funpow_8: "(f ^^ 8) x = f (f (f (f (f (f (f (f x)))))))"
  by (simp add: numeral_eq_Suc)

lemma crc32_checksum_init_serial: "crc32_checksum crc32_init buf = crc32_serial IEEE_POLY buf"
  unfolding crc32_init_def by (rule crc32_checksum_tabinit)

lemmas crc32_eval = crc32_checksum_init_serial crc32_serial_def crc32_serial_byte_def
  funpow_8 crc32_bit_def IEEE_POLY_def

text \<open>The published check value of CRC-32/ISO-HDLC.\<close>

lemma crc32_check_value: "crc32_checksum crc32_init ''123456789'' = 0xcbf43926"
  by (simp add: crc32_eval)

end
