(* ===== verification/SlotHash.thy ===== *)
theory SlotHash
  imports Crc32
begin

text \<open>
  From a key to its slot: \<open>slots_tag\<close> finds the bytes between the first \<open>{\<close> and the
  first \<open>}\<close> after it, \<open>slots_num\<close> takes the CRC-32 of the tag (or of the whole C string
  when there is none) and masks it with \<open>hash_slots_size - 1\<close>.
\<close>

section \<open>The code\<close>

text \<open>The search loops \<open>for (; i < n && s[i] != c; i++)\<close> of \<open>slots_tag\<close>.\<close>

function index_from :: "string \<Rightarrow> nat \<Rightarrow> char \<Rightarrow> nat \<Rightarrow> nat" where
  "index_from s n c i = (if i < n \<and> s ! i \<noteq> c then index_from s n c (Suc i) else i)"
  by pat_completeness auto
termination
  by (relation "measure (\<lambda>(s, n, c, i). n - i)") auto

declare index_from.simps [simp del]

text \<open>The result is \<open>None\<close> for the NULL pointer, else the tag's offset and length.\<close>

definition slots_tag :: "string \<Rightarrow> (nat \<times> nat) option" where
  "slots_tag s =
     (let n = strlen s; i = index_from s n (CHR ''{'') 0 in
      if i = n then None
      else
        let i = Suc i; j = index_from s n (CHR ''}'') i in
        if j = n then None else Some (i, j - i))"

record slot_num =
  sn_slot :: int
  sn_crc :: u32
  sn_hastag :: bool

definition slots_num :: "u32 list \<Rightarrow> u32 \<Rightarrow> string \<Rightarrow> slot_num" where
  "slots_num tab hash_slots_size s =
     (let (tag, taglen, hastag) =
        (case slots_tag s of
           None \<Rightarrow> (s, strlen s, False)
         | Some (pos, len) \<Rightarrow> (drop pos s, len, True));
        crc = crc32_checksum tab (take taglen tag)
      in \<lparr>sn_slot = uint (crc AND (hash_slots_size - 1)), sn_crc = crc, sn_hastag = hastag\<rparr>)"

section \<open>The search loop\<close>

lemma index_from_takeWhile:
  assumes "i \<le> n" and "n \<le> length s"
  shows "index_from s n c i = i + length (takeWhile (\<lambda>x. x \<noteq> c) (drop i (take n s)))"
  using assms
proof (induction s n c i rule: index_from.induct)
  case (1 s n c i)
  show ?case
  proof (cases "i < n")
    case True
    with "1.prems" have "drop i (take n s) = s ! i # drop (Suc i) (take n s)"
      by (subst Cons_nth_drop_Suc [symmetric]) (simp_all add: min_def)
    with True 1 show ?thesis by (simp add: index_from.simps [of s n c i])
  next
    case False
    then show ?thesis by (simp add: index_from.simps [of s n c i])
  qed
qed

lemma index_from_start:
  "n \<le> length s \<Longrightarrow> index_from s n c 0 = length (takeWhile (\<lambda>x. x \<noteq> c) (take n s))"
  by (simp add: index_from_takeWhile)

section \<open>The tag on the C string\<close>

text \<open>The bytes of the tag, as a function of the C string.\<close>

definition tag_of :: "string \<Rightarrow> string option" where
  "tag_of t =
     (case dropWhile (\<lambda>c. c \<noteq> CHR ''{'') t of
        [] \<Rightarrow> None
      | _ # rest \<Rightarrow>
          if CHR ''}'' \<in> set rest then Some (takeWhile (\<lambda>c. c \<noteq> CHR ''}'') rest) else None)"

lemma length_takeWhile_eq: "length (takeWhile P xs) = length xs \<longleftrightarrow> (\<forall>x\<in>set xs. P x)"
  by (metis takeWhile_eq_all_conv takeWhile_eq_take take_all_iff order_refl)

lemma slots_tag_tag_of:
  "slots_tag s = (case tag_of (cstr s) of None \<Rightarrow> None
     | Some tag \<Rightarrow> Some (Suc (length (takeWhile (\<lambda>c. c \<noteq> CHR ''{'') (cstr s))), length tag))"
proof -
  let ?t = "cstr s"
  let ?pre = "takeWhile (\<lambda>c. c \<noteq> CHR ''{'') ?t"
  have n: "strlen s = length ?t" and t: "take (length ?t) s = ?t"
    by (simp_all add: strlen_def take_strlen [unfolded strlen_def])
  have i: "index_from s (strlen s) (CHR ''{'') 0 = length ?pre"
    by (simp add: index_from_start strlen_le take_strlen)
  show ?thesis
  proof (cases "dropWhile (\<lambda>c. c \<noteq> CHR ''{'') ?t")
    case Nil
    then have "length ?pre = length ?t" by (simp add: length_takeWhile_eq)
    with Nil i n show ?thesis
      by (simp add: slots_tag_def tag_of_def del: dropWhile_eq_Nil_conv)
  next
    case (Cons b rest)
    have split: "?t = ?pre @ b # rest"
      by (metis Cons takeWhile_dropWhile_id)
    then have len: "length ?t = length ?pre + 1 + length rest"
      by (metis length_append length_Cons add_Suc_right add_Suc Suc_eq_plus1)
    have dr: "drop (Suc (length ?pre)) ?t = rest"
      by (subst split) simp
    have le1: "Suc (length ?pre) \<le> length ?t" and le2: "length ?t \<le> length s"
      using len strlen_le [of s] by (simp_all add: n)
    have "index_from s (strlen s) (CHR ''}'') (Suc (length ?pre)) =
        Suc (length ?pre) + length (takeWhile (\<lambda>c. c \<noteq> CHR ''}'') rest)"
      using index_from_takeWhile [OF le1 le2, of "CHR ''}''"] by (simp add: n t dr)
    moreover have "length (takeWhile (\<lambda>c. c \<noteq> CHR ''}'') rest) = length rest \<longleftrightarrow>
        CHR ''}'' \<notin> set rest"
      by (auto simp: length_takeWhile_eq)
    ultimately show ?thesis
      using Cons i n len by (simp add: slots_tag_def tag_of_def Let_def)
  qed
qed

lemma tag_of_iff:
  "tag_of t = Some tag \<longleftrightarrow>
     (\<exists>pre post. t = pre @ ''{'' @ tag @ ''}'' @ post \<and> CHR ''{'' \<notin> set pre \<and> CHR ''}'' \<notin> set tag)"
proof
  define pre where "pre = takeWhile (\<lambda>c. c \<noteq> CHR ''{'') t"
  assume a: "tag_of t = Some tag"
  define r where "r = dropWhile (\<lambda>c. c \<noteq> CHR ''{'') t"
  from a have c: "(case r of [] \<Rightarrow> None | _ # rest \<Rightarrow>
      if CHR ''}'' \<in> set rest then Some (takeWhile (\<lambda>c. c \<noteq> CHR ''}'') rest) else None) = Some tag"
    unfolding tag_of_def r_def .
  then obtain b rest where r: "r = b # rest" by (cases r) simp_all
  from c have m: "CHR ''}'' \<in> set rest" and tag: "tag = takeWhile (\<lambda>c. c \<noteq> CHR ''}'') rest"
    unfolding r by (simp_all split: if_splits)
  have d: "dropWhile (\<lambda>c. c \<noteq> CHR ''{'') t = b # rest" using r r_def by simp
  have b: "b = CHR ''{''" using dropWhile_eq_Cons_conv [THEN iffD1, OF d] by blast
  have t: "t = pre @ b # rest" using dropWhile_eq_Cons_conv [THEN iffD1, OF d] unfolding pre_def by blast
  have "dropWhile (\<lambda>c. c \<noteq> CHR ''}'') rest \<noteq> []" using m by auto
  then obtain e post where e: "dropWhile (\<lambda>c. c \<noteq> CHR ''}'') rest = e # post"
    by (meson neq_Nil_conv)
  have e': "e = CHR ''}''" using dropWhile_eq_Cons_conv [THEN iffD1, OF e] by blast
  have rest: "rest = tag @ e # post" using dropWhile_eq_Cons_conv [THEN iffD1, OF e] tag by blast
  have "CHR ''{'' \<notin> set pre" and "CHR ''}'' \<notin> set tag"
    by (auto simp: tag pre_def dest: set_takeWhileD)
  moreover from t rest b e' have "t = pre @ ''{'' @ tag @ ''}'' @ post" by simp
  ultimately show "\<exists>pre post. t = pre @ ''{'' @ tag @ ''}'' @ post \<and> CHR ''{'' \<notin> set pre \<and> CHR ''}'' \<notin> set tag"
    by blast
next
  assume "\<exists>pre post. t = pre @ ''{'' @ tag @ ''}'' @ post \<and> CHR ''{'' \<notin> set pre \<and> CHR ''}'' \<notin> set tag"
  then obtain pre post where t: "t = pre @ ''{'' @ tag @ ''}'' @ post"
    and pre: "CHR ''{'' \<notin> set pre" and tag: "CHR ''}'' \<notin> set tag" by blast
  have "dropWhile (\<lambda>c. c \<noteq> CHR ''{'') t = ''{'' @ tag @ ''}'' @ post"
    unfolding t by (subst dropWhile_append2) (use pre in auto)
  moreover have "takeWhile (\<lambda>c. c \<noteq> CHR ''}'') (tag @ ''}'' @ post) = tag"
    using tag by (subst takeWhile_append2) auto
  ultimately show "tag_of t = Some tag" by (simp add: tag_of_def)
qed

text \<open>The bytes that are hashed: the tag if there is one, else the whole C string.\<close>

definition hash_bytes :: "string \<Rightarrow> string" where
  "hash_bytes s = (case tag_of (cstr s) of None \<Rightarrow> cstr s | Some tag \<Rightarrow> tag)"

lemma cstr_prefix: "s = cstr s @ drop (strlen s) s"
  by (metis append_take_drop_id take_strlen)

lemma slots_num_eq:
  "slots_num tab sz s =
     \<lparr>sn_slot = uint (crc32_checksum tab (hash_bytes s) AND (sz - 1)),
      sn_crc = crc32_checksum tab (hash_bytes s),
      sn_hastag = tag_of (cstr s) \<noteq> None\<rparr>"
proof (cases "tag_of (cstr s)")
  case None
  then show ?thesis
    by (simp add: slots_num_def slots_tag_tag_of hash_bytes_def take_strlen Let_def)
next
  case (Some tag)
  then obtain pre post where t: "cstr s = pre @ ''{'' @ tag @ ''}'' @ post"
    and pre: "CHR ''{'' \<notin> set pre" by (auto simp: tag_of_iff)
  have "takeWhile (\<lambda>c. c \<noteq> CHR ''{'') (cstr s) = pre"
    unfolding t by (subst takeWhile_append2) (use pre in auto)
  moreover have "take (length tag) (drop (Suc (length pre)) s) = tag"
    by (subst cstr_prefix) (simp add: t)
  ultimately show ?thesis
    using Some by (simp add: slots_num_def slots_tag_tag_of hash_bytes_def Let_def)
qed

lemma word_and_minus_one_less:
  fixes x n :: "'a::len word"
  assumes "n \<noteq> 0"
  shows "uint (x AND (n - 1)) < uint n"
proof -
  have "x AND (n - 1) \<le> n - 1" by (rule word_and_le1)
  then have "unat (x AND (n - 1)) \<le> unat (n - 1)" by (simp add: word_le_nat_alt)
  also have "\<dots> < unat n" by (rule measure_unat [OF assms])
  finally have "x AND (n - 1) < n" by (simp only: word_less_nat_alt)
  then show ?thesis by (simp only: word_less_def)
qed

section \<open>Properties\<close>

text \<open>Whatever the key, the slot lies in the slot tables: it is a non-negative number
  below \<open>hash_slots_size\<close> (which \<open>redisModule_SlotsInit\<close> keeps positive).
\<close>

theorem slots_num_bounds:
  assumes "sz \<noteq> 0"
  shows "0 \<le> sn_slot (slots_num tab sz s) \<and> sn_slot (slots_num tab sz s) < uint sz"
  by (simp add: slots_num_eq word_and_minus_one_less [OF assms])

lemma slots_num_bounds_witness:
  "0 \<le> sn_slot (slots_num crc32_init 1024 ''k{a}'') \<and>
   sn_slot (slots_num crc32_init 1024 ''k{a}'') < 1024"
  using slots_num_bounds [of 1024 crc32_init "''k{a}''"] by simp

text \<open>Two keys with the same tag between the first \<open>{\<close> and the next \<open>}\<close> get the same
  slot, the same CRC and are both flagged as tagged, whatever surrounds the tag.
\<close>

theorem slots_num_same_tag:
  assumes "CHR ''{'' \<notin> set pre" and "CHR ''{'' \<notin> set pre'" and "CHR ''}'' \<notin> set tag"
    and "CHR 0x00 \<notin> set (pre @ tag @ post)" and "CHR 0x00 \<notin> set (pre' @ tag @ post')"
  shows "slots_num tab sz (pre @ ''{'' @ tag @ ''}'' @ post) =
         slots_num tab sz (pre' @ ''{'' @ tag @ ''}'' @ post')
       \<and> sn_hastag (slots_num tab sz (pre @ ''{'' @ tag @ ''}'' @ post))
       \<and> sn_crc (slots_num tab sz (pre @ ''{'' @ tag @ ''}'' @ post)) = crc32_checksum tab tag"
proof -
  have tag: "tag_of (cstr (p @ ''{'' @ tag @ ''}'' @ q)) = Some tag"
    if "CHR ''{'' \<notin> set p" and "CHR 0x00 \<notin> set (p @ tag @ q)" for p q
  proof -
    have "CHR 0x00 \<notin> set (p @ ''{'' @ tag @ ''}'' @ q)" using that(2) by auto
    then have "cstr (p @ ''{'' @ tag @ ''}'' @ q) = p @ ''{'' @ tag @ ''}'' @ q"
      by (rule cstr_no_nul)
    then show ?thesis unfolding tag_of_iff using that(1) assms(3) by blast
  qed
  show ?thesis
    unfolding slots_num_eq hash_bytes_def tag [OF assms(1) assms(4)] tag [OF assms(2) assms(5)]
    by simp
qed

lemma slots_num_same_tag_witness:
  "slots_num crc32_init 1024 ''x{t}1'' = slots_num crc32_init 1024 ''{t}'' \<and>
   sn_hastag (slots_num crc32_init 1024 ''x{t}1'') \<and>
   sn_crc (slots_num crc32_init 1024 ''x{t}1'') = crc32_checksum crc32_init ''t''"
  by (rule slots_num_same_tag [of "''x''" "[]" "''t''" "''1''" "[]" crc32_init 1024, simplified])

text \<open>A key without a tag (no \<open>{\<close>, or no \<open>}\<close> after the first \<open>{\<close>) is hashed as a whole up to
  its first NUL and is not flagged.
\<close>

theorem slots_num_no_tag:
  assumes "\<nexists>pre tag post. cstr s = pre @ ''{'' @ tag @ ''}'' @ post"
  shows "\<not> sn_hastag (slots_num tab sz s) \<and>
         sn_crc (slots_num tab sz s) = crc32_checksum tab (cstr s)"
proof -
  have "tag_of (cstr s) = None"
  proof (rule ccontr)
    assume "tag_of (cstr s) \<noteq> None"
    then obtain tag where "tag_of (cstr s) = Some tag" by blast
    then show False using assms unfolding tag_of_iff by blast
  qed
  then show ?thesis by (simp add: slots_num_eq hash_bytes_def)
qed

lemma slots_num_no_tag_witness:
  "\<not> sn_hastag (slots_num crc32_init 1024 ''a}b'') \<and>
   sn_crc (slots_num crc32_init 1024 ''a}b'') = crc32_checksum crc32_init (cstr ''a}b'')"
proof (rule slots_num_no_tag)
  show "\<nexists>pre tag post. cstr ''a}b'' = pre @ ''{'' @ tag @ ''}'' @ post"
  proof
    assume "\<exists>pre tag post. cstr ''a}b'' = pre @ ''{'' @ tag @ ''}'' @ post"
    then have "CHR ''{'' \<in> set (cstr ''a}b'')" by auto
    then show False by (simp add: cstr_def)
  qed
qed

text \<open>With a power of two as \<open>hash_slots_size\<close> (the default 1024 up to the maximum 65536)
  the slot is the CRC modulo the number of slots.
\<close>

theorem slots_num_power_of_two:
  assumes "k \<le> 16"
  shows "sn_slot (slots_num tab (2 ^ k) s) = uint (sn_crc (slots_num tab (2 ^ k) s)) mod 2 ^ k"
proof -
  let ?c = "crc32_checksum tab (hash_bytes s)"
  have "(2 ^ k :: u32) - 1 = mask k" by (simp add: mask_eq_exp_minus_1)
  moreover have "uint (?c AND mask k) = uint ?c mod 2 ^ k"
    by (metis take_bit_eq_mask unsigned_take_bit_eq take_bit_eq_mod)
  ultimately show ?thesis by (simp only: slots_num_eq slot_num.simps)
qed

lemma slots_num_power_of_two_witness:
  "sn_slot (slots_num crc32_init (2 ^ 10) ''k'') =
     uint (sn_crc (slots_num crc32_init (2 ^ 10) ''k'')) mod 2 ^ 10"
  by (rule slots_num_power_of_two) simp

text \<open>C36: Any \<open>hash_slots_size\<close> up to 65536 is accepted, but with a size that is not a power
  of two the mask leaves slots no key can reach: with 1000 slots, slot 8 is always empty.
\<close>

theorem slots_num_unreachable_slot: "sn_slot (slots_num tab 1000 s) \<noteq> 8"
proof
  assume "sn_slot (slots_num tab 1000 s) = 8"
  then have "uint (crc32_checksum tab (hash_bytes s) AND 999) = 8"
    by (simp add: slots_num_eq)
  then have "crc32_checksum tab (hash_bytes s) AND 999 = 8"
    by (metis word_of_int_uint word_of_int_numeral)
  then have "bit (crc32_checksum tab (hash_bytes s) AND 999) 3 = bit (8 :: u32) 3"
    by simp
  then show False by (simp add: bit_and_iff)
qed

end
