(* ===== verification/Numconv.thy ===== *)
theory Numconv
  imports Prelude
begin

text \<open>
  The number conversions of \<open>dep/util.c\<close> that the module uses to print and parse ttl
  values and cursors: \<open>m_digits10\<close>, \<open>m_sdigits10\<close>, \<open>m_ll2string\<close>, \<open>m_string2ll\<close>
  and \<open>m_string2l\<close>. The destination buffer is a list of bytes and every store into it is
  bounds-checked (\<open>None\<close> is a write outside the buffer). The reference is the usual
  decimal notation \<open>show_int\<close>.
\<close>

section \<open>The code\<close>

function m_digits10 :: "u64 \<Rightarrow> u32" where
  "m_digits10 v =
     (if v < 10 then 1
      else if v < 100 then 2
      else if v < 1000 then 3
      else if v < 1000000000000 then
        (if v < 100000000 then
           (if v < 1000000 then
              (if v < 10000 then 4 else 5 + (if v \<ge> 100000 then 1 else 0))
            else 7 + (if v \<ge> 10000000 then 1 else 0))
         else if v < 10000000000 then 9 + (if v \<ge> 1000000000 then 1 else 0)
         else 11 + (if v \<ge> 100000000000 then 1 else 0))
      else 12 + m_digits10 (v div 1000000000000))"
  by pat_completeness auto
termination
  by (relation "measure unat") (auto simp: unat_div word_less_nat_alt word_le_nat_alt not_less)

declare m_digits10.simps [simp del]

definition m_sdigits10 :: "int \<Rightarrow> u32" where
  "m_sdigits10 v =
     (if v < 0 then
        (let uv = (if v \<noteq> LLONG_MIN then word_of_int (- v) else word_of_int LLONG_MAX + 1 :: u64)
         in m_digits10 uv + 1)
      else m_digits10 (word_of_int v))"

definition digits :: string where
  "digits = ''0001020304050607080910111213141516171819'' @
            ''2021222324252627282930313233343536373839'' @
            ''4041424344454647484950515253545556575859'' @
            ''6061626364656667686970717273747576777879'' @
            ''8081828384858687888990919293949596979899''"

text \<open>The digit loop of \<open>m_ll2string\<close>, then its last one or two digits.\<close>

function ll2string_digits :: "u64 \<Rightarrow> u32 \<Rightarrow> string \<Rightarrow> string option" where
  "ll2string_digits value nxt dst =
     (if value \<ge> 100 then do {
        let i = unat (value mod 100) * 2;
        dst \<leftarrow> arr_set dst (unat nxt) (digits ! (i + 1));
        dst \<leftarrow> arr_set dst (unat (nxt - 1)) (digits ! i);
        ll2string_digits (value div 100) (nxt - 2) dst
      }
      else if value < 10 then arr_set dst (unat nxt) (char_of (48 + unat value))
      else do {
        let i = unat value * 2;
        dst \<leftarrow> arr_set dst (unat nxt) (digits ! (i + 1));
        arr_set dst (unat (nxt - 1)) (digits ! i)
      })"
  by pat_completeness auto
termination
  by (relation "measure (\<lambda>(v, n, d). unat v)") (auto simp: unat_div word_le_nat_alt)

declare ll2string_digits.simps [simp del]

text \<open>The result is the buffer and the returned length.\<close>

definition m_ll2string :: "string \<Rightarrow> int \<Rightarrow> (string \<times> nat) option" where
  "m_ll2string dst svalue = do {
     let dstlen = length dst;
     let value = (if svalue < 0
                  then (if svalue \<noteq> LLONG_MIN then word_of_int (- svalue)
                        else word_of_int LLONG_MAX + 1)
                  else word_of_int svalue :: u64);
     let negative = (if svalue < 0 then 1 else 0 :: u32);
     let len = m_digits10 value + negative;
     if unat len \<ge> dstlen then Some (dst, 0)
     else do {
       dst \<leftarrow> arr_set dst (unat len) (CHR 0x00);
       dst \<leftarrow> ll2string_digits value (len - 1) dst;
       dst \<leftarrow> (if negative \<noteq> 0 then arr_set dst 0 (CHR ''-'') else Some dst);
       Some (dst, unat len)
     }
   }"

definition is_digit :: "char \<Rightarrow> bool" where
  "is_digit c \<longleftrightarrow> 48 \<le> (of_char c :: nat) \<and> (of_char c :: nat) \<le> 57"

definition digit_val :: "char \<Rightarrow> nat" where
  "digit_val c = of_char c - 48"

definition ULLONG_MAX :: u64 where "ULLONG_MAX = - 1"

text \<open>The digit loop of \<open>m_string2ll\<close>; \<open>None\<close> is one of its two overflow returns.\<close>

fun string2ll_digits :: "u64 \<Rightarrow> string \<Rightarrow> (u64 \<times> string) option" where
  "string2ll_digits v [] = Some (v, [])"
| "string2ll_digits v (c # p) =
     (if is_digit c then
        if v > ULLONG_MAX div 10 then None
        else
          let v = v * 10 in
          if v > ULLONG_MAX - of_nat (digit_val c) then None
          else string2ll_digits (v + of_nat (digit_val c)) p
      else Some (v, c # p))"

text \<open>\<open>None\<close> is the return value 0, \<open>Some v\<close> the return value 1 with \<open>*value = v\<close>.\<close>

definition m_string2ll :: "string \<Rightarrow> int option" where
  "m_string2ll s =
     (if s = [] then None
      else if length s = 1 \<and> s ! 0 = CHR ''0'' then Some 0
      else
        let negative = (s ! 0 = CHR ''-''); p = (if negative then drop 1 s else s) in
        if p = [] then None
        else if \<not> (is_digit (p ! 0) \<and> p ! 0 \<noteq> CHR ''0'') then None
        else
          (case string2ll_digits (of_nat (digit_val (p ! 0))) (drop 1 p) of
             None \<Rightarrow> None
           | Some (v, rest) \<Rightarrow>
               if rest \<noteq> [] then None
               else if negative then
                 (if v > word_of_int (- (LLONG_MIN + 1)) + 1 then None else Some (sint (- v)))
               else (if v > word_of_int LLONG_MAX then None else Some (sint v))))"

definition m_string2l :: "string \<Rightarrow> int option" where
  "m_string2l s =
     (case m_string2ll s of
        None \<Rightarrow> None
      | Some llval \<Rightarrow> if llval < LLONG_MIN \<or> llval > LLONG_MAX then None else Some llval)"

section \<open>Decimal notation\<close>

definition digit_char :: "nat \<Rightarrow> char" where
  "digit_char d = char_of (48 + d)"

fun show_nat :: "nat \<Rightarrow> string" where
  "show_nat n = (if n < 10 then [digit_char n] else show_nat (n div 10) @ [digit_char (n mod 10)])"

declare show_nat.simps [simp del]

definition show_int :: "int \<Rightarrow> string" where
  "show_int v = (if v < 0 then CHR ''-'' # show_nat (nat (- v)) else show_nat (nat v))"

lemma show_nat_small: "n < 10 \<Longrightarrow> show_nat n = [digit_char n]"
  by (simp add: show_nat.simps)

lemma show_nat_step: "10 \<le> n \<Longrightarrow> show_nat n = show_nat (n div 10) @ [digit_char (n mod 10)]"
  by (simp add: show_nat.simps)

lemma show_nat_step2:
  assumes "100 \<le> n"
  shows "show_nat n = show_nat (n div 100) @ [digit_char (n div 10 mod 10), digit_char (n mod 10)]"
proof -
  have "show_nat n = show_nat (n div 10) @ [digit_char (n mod 10)]"
    using assms by (simp add: show_nat_step)
  also have "show_nat (n div 10) = show_nat (n div 10 div 10) @ [digit_char (n div 10 mod 10)]"
    using assms by (intro show_nat_step) simp
  finally show ?thesis by (simp add: div_mult2_eq [symmetric])
qed

lemma length_show_nat_pos: "0 < length (show_nat n)"
  by (subst show_nat.simps) simp

lemma length_show_nat_le: "0 < k \<Longrightarrow> length (show_nat n) \<le> k \<longleftrightarrow> n < 10 ^ k"
proof (induction n arbitrary: k rule: show_nat.induct)
  case (1 n)
  show ?case
  proof (cases "n < 10")
    case True
    then have "n < 10 ^ k" using "1.prems" power_increasing [of 1 k "10 :: nat"] by simp
    with True "1.prems" show ?thesis by (simp add: show_nat_small)
  next
    case False
    then have len: "length (show_nat n) = Suc (length (show_nat (n div 10)))"
      by (simp add: show_nat_step)
    show ?thesis
    proof (cases "k = 1")
      case True
      with False len length_show_nat_pos [of "n div 10"] show ?thesis by simp
    next
      case k: False
      then obtain m where m: "k = Suc m" "0 < m" using "1.prems" by (cases k) auto
      have "length (show_nat (n div 10)) \<le> m \<longleftrightarrow> n div 10 < 10 ^ m"
        using "1.IH" [OF False m(2)] .
      also have "\<dots> \<longleftrightarrow> n < 10 ^ k" by (simp add: m div_less_iff_less_mult mult.commute)
      finally show ?thesis by (simp add: len m)
    qed
  qed
qed

lemma length_show_nat_eq:
  assumes "10 ^ k \<le> n" and "n < 10 ^ Suc k" and "0 < k"
  shows "length (show_nat n) = Suc k"
  using length_show_nat_le [of "Suc k" n] length_show_nat_le [of k n] assms by (meson le_antisym not_le zero_less_Suc Suc_leI)

lemma length_show_nat_add:
  assumes "10 ^ k \<le> n"
  shows "length (show_nat n) = k + length (show_nat (n div 10 ^ k))"
  using assms
proof (induction k arbitrary: n)
  case 0
  then show ?case by simp
next
  case (Suc k)
  then have "10 \<le> n" and "10 ^ k \<le> n div 10"
    by (auto simp: less_eq_div_iff_mult_less_eq mult.commute intro: order_trans [rotated])
  then show ?case
    using Suc.IH [of "n div 10"] by (simp add: show_nat_step div_mult2_eq)
qed

section \<open>The digit count\<close>

lemma length_show_nat_u64: "length (show_nat (unat (v :: u64))) \<le> 20"
  using unat_u64_less [of v] by (simp add: length_show_nat_le)

lemma length_show_nat_range:
  "10 ^ k \<le> n \<Longrightarrow> n < 10 ^ Suc k \<Longrightarrow> length (show_nat n) = Suc k"
  by (cases "k = 0") (auto simp: show_nat_small length_show_nat_eq)

lemma m_digits10_small:
  assumes "v < 1000000000000"
  shows "unat (m_digits10 v) = length (show_nat (unat v))"
proof -
  let ?n = "unat v"
  have n: "?n < 1000000000000" using assms by (simp add: word_less_nat_alt)
  have len: "length (show_nat ?n) = Suc k" if "10 ^ k \<le> ?n" "?n < 10 ^ Suc k" for k
    using that by (rule length_show_nat_range)
  note lens = len [of 0] len [of 1] len [of 2] len [of 3] len [of 4] len [of 5] len [of 6]
    len [of 7] len [of 8] len [of 9] len [of 10] len [of 11]
  show ?thesis
    using n lens
    by (auto simp: m_digits10.simps [of v] word_less_nat_alt word_le_nat_alt show_nat_small)
qed

lemma unat_m_digits10: "unat (m_digits10 v) = length (show_nat (unat v))"
proof (cases "v < 1000000000000")
  case True
  then show ?thesis by (rule m_digits10_small)
next
  case False
  let ?q = "v div 1000000000000"
  have n: "10 ^ 12 \<le> unat v" using False by (simp add: word_less_nat_alt)
  have q: "unat ?q = unat v div 10 ^ 12" by (simp add: unat_div)
  have qs: "?q < 1000000000000"
    using unat_u64_less [of v] by (simp add: word_less_nat_alt q div_less_iff_less_mult)
  have "m_digits10 v = 12 + m_digits10 ?q"
    using n by (subst m_digits10.simps) (auto simp: word_less_nat_alt)
  moreover have "unat (m_digits10 ?q) \<le> 20"
    using m_digits10_small [OF qs] length_show_nat_u64 [of ?q] by simp
  ultimately have "unat (m_digits10 v) = 12 + unat (m_digits10 ?q)"
    by (simp add: unat_word_ariths)
  also have "\<dots> = length (show_nat (unat v))"
    using length_show_nat_add [OF n] by (simp add: m_digits10_small [OF qs] q)
  finally show ?thesis .
qed

section \<open>Printing\<close>

lemma digits_table: "i < 100 \<Longrightarrow> digits ! (2 * i) = digit_char (i div 10) \<and>
  digits ! (Suc (2 * i)) = digit_char (i mod 10)"
proof -
  have "list_all (\<lambda>i. digits ! (2 * i) = digit_char (i div 10) \<and>
      digits ! (Suc (2 * i)) = digit_char (i mod 10)) [0..<100]"
    by code_simp
  then show "i < 100 \<Longrightarrow> ?thesis" by (simp add: list_all_iff)
qed

lemma upd_two:
  "0 < k \<Longrightarrow> k < length xs \<Longrightarrow> xs[k := b, k - 1 := a] = take (k - 1) xs @ a # b # drop (Suc k) xs"
  by (cases k) (simp_all add: upd_conv_take_nth_drop take_Suc_conv_app_nth nth_append min_def
    list_update_append)

lemma ll2string_digits_correct:
  assumes "Suc (unat nxt) = off + length (show_nat (unat v))" and "unat nxt < length dst"
  shows "ll2string_digits v nxt dst =
    Some (take off dst @ show_nat (unat v) @ drop (Suc (unat nxt)) dst)"
  using assms
proof (induction v nxt dst rule: ll2string_digits.induct)
  case (1 v nxt dst)
  let ?n = "unat v"
  show ?case
  proof (cases "?n < 10")
    case True
    then have "v < 10" "\<not> v \<ge> 100"
      by (simp_all add: word_less_nat_alt word_le_nat_alt)
    moreover from True "1.prems" have "off = unat nxt" by (simp add: show_nat_small)
    ultimately show ?thesis
      using "1.prems"(2) True
      by (simp add: ll2string_digits.simps [of v nxt dst] arr_simps show_nat_small
        digit_char_def upd_conv_take_nth_drop)
  next
    case ge10: False
    then have nx: "1 \<le> unat nxt"
      using length_show_nat_pos [of "?n div 10"] "1.prems"(1)
      by (simp add: show_nat_step del: length_greater_0_conv)
    then have next1: "unat (nxt - 1) = unat nxt - 1"
      by (simp add: unat_sub word_le_nat_alt)
    show ?thesis
    proof (cases "?n < 100")
      case True
      then have "\<not> v < 10" "\<not> v \<ge> 100"
        using ge10 by (simp_all add: word_less_nat_alt word_le_nat_alt)
      moreover have sh: "show_nat ?n = [digit_char (?n div 10), digit_char (?n mod 10)]"
        using ge10 True by (simp add: show_nat_step show_nat_small)
      moreover have "off = unat nxt - 1" using "1.prems"(1) sh by simp
      ultimately show ?thesis
        using "1.prems"(2) nx digits_table [OF True]
        by (simp add: ll2string_digits.simps [of v nxt dst] arr_simps next1 mult.commute)
          (use upd_two [of "unat nxt" dst "digit_char (?n mod 10)" "digit_char (?n div 10)"] in simp)
    next
      case False
      let ?i = "?n mod 100"
      let ?dst = "dst[unat nxt := digits ! (?i * 2 + 1), unat nxt - 1 := digits ! (?i * 2)]"
      have ge: "v \<ge> 100" using False by (simp add: word_le_nat_alt)
      have sh: "show_nat ?n = show_nat (?n div 100) @ [digit_char (?n div 10 mod 10), digit_char (?n mod 10)]"
        using False by (simp add: show_nat_step2)
      have nx3: "2 \<le> unat nxt"
        using "1.prems"(1) length_show_nat_pos [of "?n div 100"]
        by (simp add: sh del: length_greater_0_conv)
      then have next2: "unat (nxt - 2) = unat nxt - 2"
        by (simp add: unat_sub word_le_nat_alt)
      have q: "unat (v div 100) = ?n div 100" and m: "unat (v mod 100) = ?i"
        by (simp_all add: unat_div unat_mod)
      have dst: "?dst = take (unat nxt - 1) dst @ digit_char (?n div 10 mod 10) #
          digit_char (?n mod 10) # drop (Suc (unat nxt)) dst"
        using nx3 "1.prems"(2) digits_table [of ?i]
          upd_two [of "unat nxt" dst "digit_char (?n mod 10)" "digit_char (?n div 10 mod 10)"]
        by (simp add: mult.commute) (simp add: mod_mult2_eq [of ?n 10 10, simplified])
      have "ll2string_digits v nxt dst = ll2string_digits (v div 100) (nxt - 2) ?dst"
        using ge nx3 "1.prems"(2)
        by (simp add: ll2string_digits.simps [of v nxt dst] arr_simps next1 m Let_def)
      also have "\<dots> = Some (take off ?dst @ show_nat (unat (v div 100)) @ drop (Suc (unat (nxt - 2))) ?dst)"
        proof (rule "1.IH" (1) [OF ge refl])
        show "arr_set dst (unat nxt) (digits ! (unat (v mod 100) * 2 + 1)) = Some (dst[unat nxt := digits ! (?i * 2 + 1)])"
          using "1.prems"(2) by (simp add: arr_simps m)
        show "arr_set (dst[unat nxt := digits ! (?i * 2 + 1)]) (unat (nxt - 1)) (digits ! (unat (v mod 100) * 2)) = Some ?dst"
          using "1.prems"(2) by (simp add: arr_simps m next1)
      qed (use "1.prems" sh nx3 next2 q in simp_all)
      also have "\<dots> = Some (take off dst @ show_nat ?n @ drop (Suc (unat nxt)) dst)"
      proof -
        have off: "off \<le> unat nxt - 1" and k: "Suc (unat (nxt - 2)) = unat nxt - 1"
          using "1.prems"(1) nx3 by (simp_all add: sh next2)
        have len: "length (take (unat nxt - 1) dst) = unat nxt - 1"
          using "1.prems"(2) by simp
        show ?thesis unfolding dst q k sh using off len by simp
      qed
      finally show ?thesis .
    qed
  qed
qed

text \<open>The unsigned magnitude the printer works on.\<close>

definition magnitude :: "int \<Rightarrow> u64" where
  "magnitude v = (if v < 0 then (if v \<noteq> LLONG_MIN then word_of_int (- v)
                                 else word_of_int LLONG_MAX + 1)
                  else word_of_int v)"

lemma unat_word_of_int_u64:
  "0 \<le> v \<Longrightarrow> v < 18446744073709551616 \<Longrightarrow> unat (word_of_int v :: u64) = nat v"
  by (simp add: unat_eq_nat_uint uint_word_of_int)

lemma unat_magnitude:
  assumes "is_llong v"
  shows "unat (magnitude v) = nat \<bar>v\<bar>"
proof (cases "v = LLONG_MIN")
  case True
  then show ?thesis by (simp add: magnitude_def LLONG_MIN_def LLONG_MAX_def)
next
  case nmin: False
  show ?thesis
  proof (cases "v < 0")
    case True
    with assms nmin unat_word_of_int_u64 [of "- v"] show ?thesis
      by (simp add: magnitude_def is_llong_def LLONG_MIN_def LLONG_MAX_def del: of_int_minus word_of_int_minus)
  next
    case False
    with assms unat_word_of_int_u64 [of v] show ?thesis
      by (simp add: magnitude_def is_llong_def LLONG_MAX_def)
  qed
qed

lemma length_show_int: "length (show_int v) = (if v < 0 then 1 else 0) + length (show_nat (nat \<bar>v\<bar>))"
  by (simp add: show_int_def)

lemma take_one_update: "d \<noteq> [] \<Longrightarrow> (take (Suc 0) d @ r)[0 := c] = c # r"
  by (cases d) simp_all

lemma m_ll2string_spec:
  assumes v: "is_llong v"
  shows "m_ll2string dst v =
    (let len = length (show_int v) in
     if len < length dst then Some (show_int v @ CHR 0x00 # drop (Suc len) dst, len)
     else Some (dst, 0))"
proof -
  let ?neg = "if v < 0 then 1 else 0 :: u32"
  let ?n = "nat \<bar>v\<bar>"
  let ?len = "m_digits10 (magnitude v) + ?neg"
  have small: "length (show_nat ?n) \<le> 20"
    using length_show_nat_u64 [of "magnitude v"] by (simp only: unat_magnitude [OF v])
  have d10: "unat (m_digits10 (magnitude v)) = length (show_nat ?n)"
    by (simp only: unat_m_digits10 unat_magnitude [OF v])
  have len: "unat ?len = length (show_int v)"
    using small by (cases "v < 0") (simp_all add: unat_word_ariths d10 length_show_int)
  have pos: "0 < length (show_nat ?n)" by (rule length_show_nat_pos)
  have len1: "Suc (unat (?len - 1)) = (if v < 0 then 1 else 0) + length (show_nat ?n)"
  proof -
    have "unat (?len - 1) = unat ?len - 1"
    proof (rule unat_minus_one)
      have "unat ?len \<noteq> 0"
        unfolding len length_show_int using pos by linarith
      then show "?len \<noteq> 0" by (metis unat_0)
    qed
    with pos len show ?thesis by (simp add: length_show_int del: length_greater_0_conv)
  qed
  show ?thesis
  proof (cases "length (show_int v) < length dst")
    case False
    then show ?thesis
      unfolding m_ll2string_def Let_def magnitude_def [symmetric] len by simp
  next
    case True
    let ?dst = "dst[length (show_int v) := CHR 0x00]"
    have ne: "dst \<noteq> []" using True by auto
    have w: "ll2string_digits (magnitude v) (?len - 1) ?dst =
        Some (take (if v < 0 then 1 else 0) ?dst @ show_nat ?n @ drop (Suc (unat (?len - 1))) ?dst)"
      unfolding unat_magnitude [OF v, symmetric]
      by (rule ll2string_digits_correct)
        (use True len1 in \<open>simp_all add: unat_magnitude [OF v] length_show_int split: if_splits\<close>)
    have dr: "drop (length (show_int v)) ?dst = CHR 0x00 # drop (Suc (length (show_int v))) dst"
      using True by (simp add: upd_conv_take_nth_drop)
    show ?thesis
      using True
      unfolding m_ll2string_def Let_def magnitude_def [symmetric] len
      by (auto simp: arr_simps w len1 dr length_show_int [symmetric])
        (simp_all add: show_int_def ne take_one_update)
  qed
qed

section \<open>Parsing\<close>

text \<open>The value of a digit string read after a prefix of value \<open>n\<close>.\<close>

definition digits_val :: "nat \<Rightarrow> string \<Rightarrow> nat" where
  "digits_val n s = foldl (\<lambda>a c. a * 10 + digit_val c) n s"

lemma digits_val_simps [simp]:
  "digits_val n [] = n"
  "digits_val n (c # s) = digits_val (n * 10 + digit_val c) s"
  "digits_val n (s @ [c]) = digits_val n s * 10 + digit_val c"
  by (simp_all add: digits_val_def)

lemma digits_val_mono: "n \<le> digits_val n s"
proof (induction s rule: rev_induct)
  case (snoc c s)
  then show ?case by simp
qed simp

lemma digit_val_less: "is_digit c \<Longrightarrow> digit_val c < 10"
  unfolding is_digit_def digit_val_def by linarith

lemma digit_char_val [simp]: "d < 10 \<Longrightarrow> digit_val (digit_char d) = d"
  by (simp add: digit_val_def digit_char_def of_char_of)

lemma is_digit_char [simp]: "d < 10 \<Longrightarrow> is_digit (digit_char d)"
  by (simp add: is_digit_def digit_char_def of_char_of)

lemma digit_val_char [simp]: "is_digit c \<Longrightarrow> digit_char (digit_val c) = c"
  by (simp add: is_digit_def digit_val_def digit_char_def)

lemma digit_val_zero: "is_digit c \<Longrightarrow> digit_val c = 0 \<longleftrightarrow> c = CHR ''0''"
proof -
  assume c: "is_digit c"
  have "digit_char 0 = CHR ''0''" by code_simp
  with digit_val_char [OF c] show ?thesis by (auto simp: digit_val_def)
qed

lemma unat_ULLONG_MAX: "unat ULLONG_MAX = 18446744073709551615"
  by (simp add: ULLONG_MAX_def unsigned_minus_1_eq_mask mask_eq_exp_minus_1)

lemma string2ll_digits_all:
  assumes "list_all is_digit s"
  shows "string2ll_digits v s =
    (if digits_val (unat v) s < 18446744073709551616
     then Some (of_nat (digits_val (unat v) s), []) else None)"
  using assms
proof (induction s arbitrary: v)
  case Nil
  then show ?case using unat_u64_less [of v] by simp
next
  case (Cons c s)
  let ?d = "digit_val c"
  have d: "?d < 10" and c: "is_digit c" and s: "list_all is_digit s"
    using Cons.prems digit_val_less by auto
  have ud: "unat (of_nat ?d :: u64) = ?d" using d by (simp add: unat_of_nat)
  have umax: "unat (ULLONG_MAX - of_nat ?d) = 18446744073709551615 - ?d"
    using d ud by (subst unat_sub) (simp_all add: unat_ULLONG_MAX word_le_nat_alt)
  have tenth: "v > ULLONG_MAX div 10 \<longleftrightarrow> unat v > 1844674407370955161"
    by (simp add: unat_ULLONG_MAX word_less_nat_alt unat_div)
  show ?case
  proof (cases "unat v * 10 + ?d < 18446744073709551616")
    case True
    then have u: "unat (v * 10) = unat v * 10" by (simp add: unat_word_ariths)
    then have u2: "unat (v * 10 + of_nat ?d) = unat v * 10 + ?d"
      using True ud by (simp add: unat_word_ariths)
    have "\<not> v > ULLONG_MAX div 10" using True tenth by simp
    moreover have "\<not> v * 10 > ULLONG_MAX - of_nat ?d"
      using True d by (simp add: word_less_nat_alt umax u)
    ultimately show ?thesis
      using c Cons.IH [OF s, of "v * 10 + of_nat ?d"] by (simp add: u2 Let_def)
  next
    case False
    then have big: "\<not> digits_val (unat v * 10 + ?d) s < 18446744073709551616"
      using digits_val_mono [of "unat v * 10 + ?d" s] by simp
    have "string2ll_digits v (c # s) = None"
    proof (cases "v > ULLONG_MAX div 10")
      case True
      then show ?thesis using c by simp
    next
      case le: False
      then have "unat (v * 10) = unat v * 10" using tenth by (simp add: unat_word_ariths)
      then have "v * 10 > ULLONG_MAX - of_nat ?d"
        using False d by (simp add: word_less_nat_alt umax)
      then show ?thesis using c le by (simp add: Let_def)
    qed
    with big show ?thesis by simp
  qed
qed

lemma string2ll_digits_done: "string2ll_digits v s = Some (w, []) \<Longrightarrow> list_all is_digit s"
  by (induction v s rule: string2ll_digits.induct) (auto simp: Let_def split: if_splits)

lemma show_nat_digits_val:
  assumes "0 < n" "list_all is_digit s"
  shows "show_nat (digits_val n s) = show_nat n @ s"
  using assms(2)
proof (induction s rule: rev_induct)
  case (snoc c s)
  let ?m = "digits_val n s"
  have c: "is_digit c" "digit_val c < 10" and s: "list_all is_digit s"
    using snoc.prems digit_val_less by auto
  have "0 < ?m" using digits_val_mono [of n s] assms(1) by simp
  then have "show_nat (?m * 10 + digit_val c) = show_nat ?m @ [c]"
    using c by (subst show_nat_step) simp_all
  then show ?case using snoc.IH [OF s] by simp
qed simp

lemma show_nat_parse:
  "0 < n \<Longrightarrow> \<exists>c s. show_nat n = c # s \<and> is_digit c \<and> 0 < digit_val c \<and> list_all is_digit s \<and>
    digits_val (digit_val c) s = n"
proof (induction n rule: show_nat.induct)
  case (1 n)
  show ?case
  proof (cases "n < 10")
    case True
    with "1.prems" show ?thesis by (simp add: show_nat_small)
  next
    case False
    then have "0 < n div 10" by simp
    from "1.IH" [OF False this] obtain c s where
      "show_nat (n div 10) = c # s" "is_digit c" "0 < digit_val c" "list_all is_digit s"
      "digits_val (digit_val c) s = n div 10" by blast
    moreover from this False have "show_nat n = c # (s @ [digit_char (n mod 10)])"
      by (simp add: show_nat_step)
    ultimately show ?thesis by (intro exI conjI) (assumption | simp)+
  qed
qed

text \<open>The digit part of the parser accepts exactly the notation of a positive u64.\<close>

lemma string2ll_digits_iff:
  "is_digit c \<and> c \<noteq> CHR ''0'' \<and> string2ll_digits (of_nat (digit_val c)) s = Some (w, []) \<longleftrightarrow>
   0 < unat w \<and> c # s = show_nat (unat w)"
proof -
  have ud: "is_digit c \<Longrightarrow> unat (of_nat (digit_val c) :: u64) = digit_val c" for c
    using digit_val_less [of c] by (simp add: unat_of_nat)
  have "0 < unat w \<and> c # s = show_nat (unat w)"
    if c: "is_digit c" "c \<noteq> CHR ''0''" and r: "string2ll_digits (of_nat (digit_val c)) s = Some (w, [])"
  proof -
    have s: "list_all is_digit s" using r by (rule string2ll_digits_done)
    have pos: "0 < digit_val c" using c digit_val_zero [OF c(1)] by blast
    from r have "digits_val (digit_val c) s < 18446744073709551616"
      and "w = of_nat (digits_val (digit_val c) s)"
      by (simp_all add: string2ll_digits_all [OF s] ud [OF c(1)] split: if_splits)
    then have w: "unat w = digits_val (digit_val c) s" by (simp add: unat_of_nat)
    have "show_nat (digit_val c) = [c]"
      using c(1) digit_val_less [OF c(1)] by (simp add: show_nat_small)
    then show ?thesis
      using pos show_nat_digits_val [OF pos s] digits_val_mono [of "digit_val c" s]
      unfolding w by simp
  qed
  moreover have "is_digit c \<and> c \<noteq> CHR ''0'' \<and> string2ll_digits (of_nat (digit_val c)) s = Some (w, [])"
    if pos: "0 < unat w" and eq: "c # s = show_nat (unat w)"
  proof -
    from show_nat_parse [OF pos] eq have c: "is_digit c" "0 < digit_val c"
      and s: "list_all is_digit s" "digits_val (digit_val c) s = unat w" by auto
    then show ?thesis
      using digit_val_zero [OF c(1)] unat_u64_less [of w]
      by (simp add: string2ll_digits_all [OF s(1)] ud [OF c(1)])
  qed
  ultimately show ?thesis by blast
qed


text \<open>The whole parser accepts exactly the canonical notation of the long longs.\<close>

lemma show_nat_head: "0 < n \<Longrightarrow> show_nat n \<noteq> [] \<and> hd (show_nat n) \<noteq> CHR ''-'' \<and> show_nat n \<noteq> ''0''"
proof -
  assume "0 < n"
  from show_nat_parse [OF this] obtain c s where "show_nat n = c # s" "is_digit c" "0 < digit_val c"
    by blast
  moreover have "\<not> is_digit (CHR ''-'')" "digit_val (CHR ''0'') = 0" by code_simp+
  ultimately show ?thesis by auto
qed

lemma unsigned_limits:
  "v > word_of_int LLONG_MAX \<longleftrightarrow> unat v > 9223372036854775807"
  "v > word_of_int (- (LLONG_MIN + 1)) + 1 \<longleftrightarrow> unat v > 9223372036854775808"
  "v > - word_of_int LLONG_MIN \<longleftrightarrow> unat v > 9223372036854775808" for v :: u64
  by (simp_all add: LLONG_MAX_def LLONG_MIN_def word_less_nat_alt)

lemma sint_word_of_int:
  "- 9223372036854775808 \<le> k \<Longrightarrow> k < 9223372036854775808 \<Longrightarrow> sint (word_of_int k :: u64) = k"
  by (simp add: sint_sbintrunc' signed_take_bit_int_eq_self)

lemma sint_small:
  assumes "unat v \<le> 9223372036854775807"
  shows "sint (v :: u64) = int (unat v)"
proof -
  have "word_of_int (int (unat v)) = v" by (simp only: of_nat_unat word_of_int_uint)
  moreover have "- 9223372036854775808 \<le> int (unat v)" "int (unat v) < 9223372036854775808"
    using assms by linarith+
  ultimately show ?thesis using sint_word_of_int [of "int (unat v)"] by simp
qed

lemma sint_neg_small:
  assumes "unat v \<le> 9223372036854775808"
  shows "sint (- v :: u64) = - int (unat v)"
proof -
  have "word_of_int (- int (unat v)) = - v" by simp
  moreover have "- 9223372036854775808 \<le> - int (unat v)" "- int (unat v) < 9223372036854775808"
    using assms by linarith+
  ultimately show ?thesis using sint_word_of_int [of "- int (unat v)"] by simp
qed

text \<open>The positive and the negative form after the sign has been read.\<close>

lemma parse_positive:
  assumes w: "0 < unat (w :: u64)" and s: "s = show_nat (unat w)"
  shows "m_string2ll s = (if unat w \<le> 9223372036854775807 then Some (int (unat w)) else None)"
proof -
  obtain c q where cq: "s = c # q" using show_nat_head [OF w] unfolding s [symmetric] by (cases s) simp_all
  have c: "c \<noteq> CHR ''-''" and s0: "\<not> (length s = 1 \<and> s ! 0 = CHR ''0'')"
    using show_nat_head [OF w] cq unfolding s [symmetric]
    by (simp, cases q) (auto simp: cq)
  have "is_digit c \<and> c \<noteq> CHR ''0'' \<and> string2ll_digits (of_nat (digit_val c)) q = Some (w, [])"
    unfolding string2ll_digits_iff using w s cq by simp
  then show ?thesis
    using c s0 by (auto simp: m_string2ll_def cq unsigned_limits sint_small)
qed

lemma parse_negative:
  assumes w: "0 < unat (w :: u64)" and s: "s = CHR ''-'' # show_nat (unat w)"
  shows "m_string2ll s = (if unat w \<le> 9223372036854775808 then Some (- int (unat w)) else None)"
proof -
  obtain c q where cq: "s = CHR ''-'' # c # q" "c # q = show_nat (unat w)"
    using show_nat_head [OF w] s by (cases "show_nat (unat w)") auto
  have "is_digit c \<and> c \<noteq> CHR ''0'' \<and> string2ll_digits (of_nat (digit_val c)) q = Some (w, [])"
    unfolding string2ll_digits_iff using w cq by simp
  then show ?thesis
    by (auto simp: m_string2ll_def cq(1) unsigned_limits sint_neg_small)
qed

lemma parse_zero: "m_string2ll ''0'' = Some 0"
  by (simp add: m_string2ll_def)

lemma m_string2ll_form:
  assumes "m_string2ll s = Some v"
  shows "s = ''0'' \<or> (\<exists>w :: u64. 0 < unat w \<and> (s = show_nat (unat w) \<or> s = CHR ''-'' # show_nat (unat w)))"
proof (cases "s = ''0''")
  case False
  have "\<exists>c q w. (s = c # q \<or> s = CHR ''-'' # c # q) \<and>
    is_digit c \<and> c \<noteq> CHR ''0'' \<and> string2ll_digits (of_nat (digit_val c)) q = Some (w, [])"
  proof (cases "\<exists>t. s = CHR ''-'' # t")
    case True
    then obtain t where t: "s = CHR ''-'' # t" by blast
    then obtain c q where "t = c # q"
      using assms by (cases t) (simp_all add: m_string2ll_def)
    with t assms have "is_digit c" "c \<noteq> CHR ''0''"
      "\<exists>w. string2ll_digits (of_nat (digit_val c)) q = Some (w, [])"
      by (simp_all add: m_string2ll_def Let_def split: if_splits option.splits prod.splits)
    with t \<open>t = c # q\<close> show ?thesis by blast
  next
    case neg: False
    then obtain c q where cq: "s = c # q" "c \<noteq> CHR ''-''"
      using assms by (cases s) (simp_all add: m_string2ll_def)
    with False assms have "is_digit c" "c \<noteq> CHR ''0''"
      "\<exists>w. string2ll_digits (of_nat (digit_val c)) q = Some (w, [])"
      by (simp_all add: m_string2ll_def Let_def split: if_splits option.splits prod.splits)
    with cq show ?thesis by blast
  qed
  then show ?thesis
    unfolding string2ll_digits_iff
  proof (elim exE conjE)
    fix c q and w :: u64
    assume cq: "s = c # q \<or> s = CHR ''-'' # c # q"
      and pos: "0 < unat w" and eq: "c # q = show_nat (unat w)"
    from cq have "s = show_nat (unat w) \<or> s = CHR ''-'' # show_nat (unat w)"
      unfolding eq .
    with pos show ?thesis by blast
  qed
qed simp

lemma m_string2ll_iff:
  "m_string2ll s = Some v \<longleftrightarrow> is_llong v \<and> s = show_int v"
proof
  assume r: "m_string2ll s = Some v"
  from m_string2ll_form [OF r] consider "s = ''0''"
    | w where "0 < unat (w :: u64)" "s = show_nat (unat w)"
    | w where "0 < unat (w :: u64)" "s = CHR ''-'' # show_nat (unat w)" by blast
  then show "is_llong v \<and> s = show_int v"
  proof cases
    case 1
    have "digit_char 0 = CHR ''0''" by code_simp
    with 1 r show ?thesis
      by (simp add: parse_zero is_llong_def LLONG_MIN_def LLONG_MAX_def show_int_def show_nat_small)
  next
    case 2
    with r parse_positive [OF 2] have "v = int (unat w)" "unat w \<le> 9223372036854775807"
      by (simp_all split: if_splits)
    with 2 show ?thesis
      by (simp add: is_llong_def LLONG_MIN_def LLONG_MAX_def show_int_def del: of_nat_unat)
  next
    case 3
    with r parse_negative [OF 3] have "v = - int (unat w)" "unat w \<le> 9223372036854775808"
      by (simp_all split: if_splits)
    with 3 show ?thesis
      by (simp add: is_llong_def LLONG_MIN_def LLONG_MAX_def show_int_def del: of_nat_unat)
  qed
next
  assume v: "is_llong v \<and> s = show_int v"
  let ?w = "word_of_int \<bar>v\<bar> :: u64"
  have range: "- 9223372036854775808 \<le> v" "v \<le> 9223372036854775807"
    using v by (simp_all add: is_llong_def LLONG_MIN_def LLONG_MAX_def)
  have w: "unat ?w = nat \<bar>v\<bar>"
    using range by (intro unat_word_of_int_u64) linarith+
  consider "v = 0" | "v < 0" | "0 < v" by linarith
  then show "m_string2ll s = Some v"
  proof cases
    case 1
    have "digit_char 0 = CHR ''0''" by code_simp
    with 1 v show ?thesis by (simp add: parse_zero show_int_def show_nat_small)
  next
    case 2
    then have s: "s = CHR ''-'' # show_nat (unat ?w)" and pos: "0 < unat ?w"
      and le: "unat ?w \<le> 9223372036854775808" and val: "- int (unat ?w) = v"
      using v w range by (simp_all add: show_int_def del: of_nat_unat)
    from parse_negative [OF pos s] show ?thesis by (simp only: le val if_True)
  next
    case 3
    then have s: "s = show_nat (unat ?w)" and pos: "0 < unat ?w"
      and le: "unat ?w \<le> 9223372036854775807" and val: "int (unat ?w) = v"
      using v w range by (simp_all add: show_int_def del: of_nat_unat)
    from parse_positive [OF pos s] show ?thesis by (simp only: le val if_True)
  qed
qed

section \<open>Properties\<close>

text \<open>\<open>m_ll2string\<close> writes the decimal notation of its argument and a NUL at the front
  of the buffer and leaves the rest alone when they fit; otherwise it returns 0 with the
  buffer unchanged. It never writes outside the buffer.\<close>

theorem m_ll2string_prints:
  assumes "is_llong v"
  shows "m_ll2string dst v =
    (if length (show_int v) < length dst
     then Some (show_int v @ CHR 0x00 # drop (Suc (length (show_int v))) dst, length (show_int v))
     else Some (dst, 0))"
  by (simp only: m_ll2string_spec [OF assms] Let_def)

lemma m_ll2string_prints_witness:
  "m_ll2string (replicate 6 (CHR ''x'')) (- 120) =
     Some ([CHR ''-'', CHR ''1'', CHR ''2'', CHR ''0'', CHR 0x00, CHR ''x''], 4)"
proof -
  have v: "is_llong (- 120)" by code_simp
  have s: "show_int (- 120) = ''-120''" by code_simp
  show ?thesis
    by (subst m_ll2string_prints [OF v]) (simp add: s numeral_eq_Suc)
qed

text \<open>C39: \<open>m_string2ll\<close> accepts exactly the decimal notations of the long longs and returns
  the number they denote: no spaces, no leading zeroes, no \<open>-0\<close>, no overflow. This is
  the strictness its comment promises.\<close>

theorem m_string2ll_accepts:
  "m_string2ll s = Some v \<longleftrightarrow> is_llong v \<and> s = show_int v"
  by (rule m_string2ll_iff)

text \<open>Parsing what \<open>m_ll2string\<close> printed into a large enough buffer gives the number
  back, also as a \<open>long\<close>.\<close>

theorem ll2string_string2l_roundtrip:
  assumes "is_llong v" and "length (show_int v) < length dst"
    and "m_ll2string dst v = Some (buf, len)"
  shows "m_string2ll (take len buf) = Some v \<and> m_string2l (take len buf) = Some v"
proof -
  have "take len buf = show_int v"
    using assms by (auto simp: m_ll2string_spec Let_def)
  moreover have "m_string2ll (show_int v) = Some v" using assms(1) by (simp add: m_string2ll_iff)
  ultimately show ?thesis using assms(1) by (auto simp: m_string2l_def is_llong_def)
qed

lemma ll2string_string2l_roundtrip_witness:
  "\<exists>buf len. m_ll2string (replicate 21 (CHR 0x00)) LLONG_MIN = Some (buf, len) \<and>
     m_string2ll (take len buf) = Some LLONG_MIN"
proof -
  have v: "is_llong LLONG_MIN" by code_simp
  have s: "length (show_int LLONG_MIN) < length (replicate 21 (CHR 0x00))"
    using length_show_nat_le [of 19 9223372036854775808]
    by (simp add: length_show_int LLONG_MIN_def)
  have "m_ll2string (replicate 21 (CHR 0x00)) LLONG_MIN \<noteq> None"
    by (simp add: m_ll2string_spec [OF v] Let_def)
  then obtain buf len where b: "m_ll2string (replicate 21 (CHR 0x00)) LLONG_MIN = Some (buf, len)"
    by auto
  from ll2string_string2l_roundtrip [OF v s b] b show ?thesis by blast
qed

end
