(* ===== verification/Siphash.thy ===== *)
theory Siphash
  imports Prelude
begin

text \<open>
  The hash function of the dictionaries, \<open>dep/siphash.c\<close>: SipHash 1-2 on byte strings and
  its case-insensitive variant. Inputs are lists of bytes; the \<open>in\<close> pointer is the part of
  the list not yet read, so no step can read past the end.
\<close>

section \<open>The code\<close>

text \<open>\<open>siptlw\<close> takes and returns an \<open>int\<close>; it is called on bytes.\<close>

definition siptlw :: "u8 \<Rightarrow> u8" where
  "siptlw c = (if c \<ge> 65 \<and> c \<le> 90 then c + (97 - 65) else c)"

definition ROTL :: "u64 \<Rightarrow> nat \<Rightarrow> u64" where
  "ROTL x b = (push_bit b x OR drop_bit (64 - b) x)"

definition U8TO64_LE :: "u8 list \<Rightarrow> u64" where
  "U8TO64_LE p =
     (ucast (p ! 0) OR push_bit 8 (ucast (p ! 1)) OR push_bit 16 (ucast (p ! 2)) OR
      push_bit 24 (ucast (p ! 3)) OR push_bit 32 (ucast (p ! 4)) OR push_bit 40 (ucast (p ! 5)) OR
      push_bit 48 (ucast (p ! 6)) OR push_bit 56 (ucast (p ! 7)))"

definition U8TO64_LE_NOCASE :: "u8 list \<Rightarrow> u64" where
  "U8TO64_LE_NOCASE p =
     (ucast (siptlw (p ! 0)) OR push_bit 8 (ucast (siptlw (p ! 1))) OR
      push_bit 16 (ucast (siptlw (p ! 2))) OR push_bit 24 (ucast (siptlw (p ! 3))) OR
      push_bit 32 (ucast (siptlw (p ! 4))) OR push_bit 40 (ucast (siptlw (p ! 5))) OR
      push_bit 48 (ucast (siptlw (p ! 6))) OR push_bit 56 (ucast (siptlw (p ! 7))))"

record sip_state =
  v0 :: u64
  v1 :: u64
  v2 :: u64
  v3 :: u64

definition SIPROUND :: "sip_state \<Rightarrow> sip_state" where
  "SIPROUND s = (
     let s = s\<lparr>v0 := v0 s + v1 s\<rparr>;
         s = s\<lparr>v1 := ROTL (v1 s) 13\<rparr>;
         s = s\<lparr>v1 := v1 s XOR v0 s\<rparr>;
         s = s\<lparr>v0 := ROTL (v0 s) 32\<rparr>;
         s = s\<lparr>v2 := v2 s + v3 s\<rparr>;
         s = s\<lparr>v3 := ROTL (v3 s) 16\<rparr>;
         s = s\<lparr>v3 := v3 s XOR v2 s\<rparr>;
         s = s\<lparr>v0 := v0 s + v3 s\<rparr>;
         s = s\<lparr>v3 := ROTL (v3 s) 21\<rparr>;
         s = s\<lparr>v3 := v3 s XOR v0 s\<rparr>;
         s = s\<lparr>v2 := v2 s + v1 s\<rparr>;
         s = s\<lparr>v1 := ROTL (v1 s) 17\<rparr>;
         s = s\<lparr>v1 := v1 s XOR v2 s\<rparr>
     in s\<lparr>v2 := ROTL (v2 s) 32\<rparr>)"

text \<open>The constants, keyed by the 16 bytes \<open>k\<close>.\<close>

definition sip_init :: "u8 list \<Rightarrow> sip_state" where
  "sip_init k = (
     let k0 = U8TO64_LE k; k1 = U8TO64_LE (drop 8 k)
     in \<lparr>v0 = 0x736f6d6570736575 XOR k0, v1 = 0x646f72616e646f6d XOR k1,
         v2 = 0x6c7967656e657261 XOR k0, v3 = 0x7465646279746573 XOR k1\<rparr>)"

definition sip_absorb :: "u64 \<Rightarrow> sip_state \<Rightarrow> sip_state" where
  "sip_absorb m s = (
     let s = s\<lparr>v3 := v3 s XOR m\<rparr>; s = SIPROUND s in s\<lparr>v0 := v0 s XOR m\<rparr>)"

text \<open>The loop over whole 8-byte words; the result is the state and the bytes left.\<close>

function sip_loop :: "(u8 list \<Rightarrow> u64) \<Rightarrow> u8 list \<Rightarrow> sip_state \<Rightarrow> sip_state \<times> u8 list" where
  "sip_loop rd inp s =
     (if length inp < 8 then (s, inp) else sip_loop rd (drop 8 inp) (sip_absorb (rd inp) s))"
  by pat_completeness auto
termination
  by (relation "measure (\<lambda>(rd, inp, s). length inp)") auto

declare sip_loop.simps [simp del]

text \<open>The fall-through \<open>switch (left)\<close>: bytes 6 down to 0, as far as there are any.\<close>

definition sip_tail :: "(u8 \<Rightarrow> u8) \<Rightarrow> u8 list \<Rightarrow> u64 \<Rightarrow> u64" where
  "sip_tail tr inp b = (
     let left = length inp;
         b = (if left \<ge> 7 then b OR push_bit 48 (ucast (tr (inp ! 6))) else b);
         b = (if left \<ge> 6 then b OR push_bit 40 (ucast (tr (inp ! 5))) else b);
         b = (if left \<ge> 5 then b OR push_bit 32 (ucast (tr (inp ! 4))) else b);
         b = (if left \<ge> 4 then b OR push_bit 24 (ucast (tr (inp ! 3))) else b);
         b = (if left \<ge> 3 then b OR push_bit 16 (ucast (tr (inp ! 2))) else b);
         b = (if left \<ge> 2 then b OR push_bit 8 (ucast (tr (inp ! 1))) else b)
     in if left \<ge> 1 then b OR ucast (tr (inp ! 0)) else b)"

definition sip_finish :: "u64 \<Rightarrow> sip_state \<Rightarrow> u64" where
  "sip_finish b s = (
     let s = sip_absorb b s;
         s = s\<lparr>v2 := v2 s XOR 0xff\<rparr>;
         s = SIPROUND s;
         s = SIPROUND s
     in v0 s XOR v1 s XOR v2 s XOR v3 s)"

definition siphash :: "u8 list \<Rightarrow> u8 list \<Rightarrow> u64" where
  "siphash inp k = (
     let b = push_bit 56 (of_nat (length inp));
         (s, rest) = sip_loop U8TO64_LE inp (sip_init k)
     in sip_finish (sip_tail (\<lambda>c. c) rest b) s)"

definition siphash_nocase :: "u8 list \<Rightarrow> u8 list \<Rightarrow> u64" where
  "siphash_nocase inp k = (
     let b = push_bit 56 (of_nat (length inp));
         (s, rest) = sip_loop U8TO64_LE_NOCASE inp (sip_init k)
     in sip_finish (sip_tail siptlw rest b) s)"

section \<open>The two variants agree\<close>

lemma nth_map_head: "1 \<le> length p \<Longrightarrow> map f p ! 0 = f (p ! 0)"
  by (rule nth_map) linarith

lemma nocase_word: "8 \<le> length p \<Longrightarrow> U8TO64_LE_NOCASE p = U8TO64_LE (map siptlw p)"
  using nth_map_head [of p siptlw] by (simp add: U8TO64_LE_def U8TO64_LE_NOCASE_def)

lemma nocase_loop:
  "sip_loop U8TO64_LE (map siptlw inp) s =
    (let (s', rest) = sip_loop U8TO64_LE_NOCASE inp s in (s', map siptlw rest))"
proof (induction U8TO64_LE_NOCASE inp s rule: sip_loop.induct)
  case (1 inp s)
  show ?case
  proof (cases "length inp < 8")
    case True
    then show ?thesis by (simp add: sip_loop.simps [of _ inp] sip_loop.simps [of _ "map siptlw inp"])
  next
    case False
    then have "sip_loop U8TO64_LE (map siptlw inp) s =
        sip_loop U8TO64_LE (map siptlw (drop 8 inp)) (sip_absorb (U8TO64_LE_NOCASE inp) s)"
      by (subst sip_loop.simps) (simp add: nocase_word drop_map)
    also have "\<dots> = (let (s', rest) = sip_loop U8TO64_LE_NOCASE (drop 8 inp)
        (sip_absorb (U8TO64_LE_NOCASE inp) s) in (s', map siptlw rest))"
      by (rule 1 [OF False])
    finally show ?thesis using False by (simp add: sip_loop.simps [of _ inp])
  qed
qed

lemma nocase_tail: "sip_tail siptlw inp b = sip_tail (\<lambda>c. c) (map siptlw inp) b"
  by (cases "1 \<le> length inp") (simp_all add: sip_tail_def Let_def nth_map_head)

lemma sip_loop_length: "length (snd (sip_loop rd inp s)) = length inp mod 8"
proof (induction rd inp s rule: sip_loop.induct)
  case (1 rd inp s)
  show ?case
  proof (cases "length inp < 8")
    case True
    then show ?thesis by (simp add: sip_loop.simps [of rd inp])
  next
    case False
    then show ?thesis
      using 1 [OF False] by (simp add: sip_loop.simps [of rd inp] le_mod_geq not_less)
  qed
qed

section \<open>The round is a permutation\<close>

definition ROTR :: "u64 \<Rightarrow> nat \<Rightarrow> u64" where
  "ROTR x b = (drop_bit b x OR push_bit (64 - b) x)"

lemma ROTR_ROTL: "0 < b \<Longrightarrow> b < 64 \<Longrightarrow> ROTR (ROTL x b) b = x"
proof (rule bit_word_eqI)
  fix n
  assume b: "0 < b" "b < 64" and n: "n < LENGTH(64)"
  show "bit (ROTR (ROTL x b) b) n = bit x n"
  proof (cases "n + b < 64")
    case True
    then show ?thesis using b n by (auto simp: ROTR_def ROTL_def bit_simps)
  next
    case False
    then have "64 + (n - (64 - b)) - b = n" using b n by simp
    then show ?thesis using False b n by (auto simp: ROTR_def ROTL_def bit_simps)
  qed
qed

definition unround :: "sip_state \<Rightarrow> sip_state" where
  "unround s = (
     let s = s\<lparr>v2 := ROTR (v2 s) 32\<rparr>;
         s = s\<lparr>v1 := v1 s XOR v2 s\<rparr>;
         s = s\<lparr>v1 := ROTR (v1 s) 17\<rparr>;
         s = s\<lparr>v2 := v2 s - v1 s\<rparr>;
         s = s\<lparr>v3 := v3 s XOR v0 s\<rparr>;
         s = s\<lparr>v3 := ROTR (v3 s) 21\<rparr>;
         s = s\<lparr>v0 := v0 s - v3 s\<rparr>;
         s = s\<lparr>v3 := v3 s XOR v2 s\<rparr>;
         s = s\<lparr>v3 := ROTR (v3 s) 16\<rparr>;
         s = s\<lparr>v2 := v2 s - v3 s\<rparr>;
         s = s\<lparr>v0 := ROTR (v0 s) 32\<rparr>;
         s = s\<lparr>v1 := v1 s XOR v0 s\<rparr>;
         s = s\<lparr>v1 := ROTR (v1 s) 13\<rparr>
     in s\<lparr>v0 := v0 s - v1 s\<rparr>)"

lemma xor_right_self [simp]: "(a XOR b) XOR b = (a :: u64)"
  by (rule bit_word_eqI) (auto simp: bit_simps)

lemma unround_SIPROUND: "unround (SIPROUND s) = s"
  by (cases s) (simp add: unround_def SIPROUND_def Let_def ROTR_ROTL)

lemma inj_SIPROUND: "inj SIPROUND"
  by (rule inj_on_inverseI) (rule unround_SIPROUND)

lemma ROTL_inject:
  assumes "0 < b" "b < 64"
  shows "ROTL x b = ROTL y b \<longleftrightarrow> x = y"
proof
  assume "ROTL x b = ROTL y b"
  then have "ROTR (ROTL x b) b = ROTR (ROTL y b) b" by simp
  then show "x = y" by (simp only: ROTR_ROTL [OF assms])
qed simp

lemma xor_left_self: "a XOR (a XOR b) = (b :: u64)"
  by (rule bit_word_eqI) (auto simp: bit_simps)

lemma xor_left_inject: "a XOR b = a XOR c \<longleftrightarrow> b = (c :: u64)"
proof
  assume "a XOR b = a XOR c"
  then have "a XOR (a XOR b) = a XOR (a XOR c)" by simp
  then show "b = c" by (simp only: xor_left_self)
qed simp

definition unabsorb :: "u64 \<Rightarrow> sip_state \<Rightarrow> sip_state" where
  "unabsorb m t = (let s = unround (t\<lparr>v0 := v0 t XOR m\<rparr>) in s\<lparr>v3 := v3 s XOR m\<rparr>)"

lemma unabsorb_absorb: "unabsorb m (sip_absorb m s) = s"
  by (simp add: unabsorb_def sip_absorb_def Let_def unround_SIPROUND)

lemma absorb_state_inject:
  assumes "sip_absorb m s = sip_absorb m s'"
  shows "s = s'"
proof -
  have "unabsorb m (sip_absorb m s) = unabsorb m (sip_absorb m s')" using assms by simp
  then show ?thesis by (simp only: unabsorb_absorb)
qed

lemma absorb_word_inject:
  assumes "sip_absorb m s = sip_absorb m' s"
  shows "m = m'"
proof -
  have "v2 (sip_absorb m s) = v2 (sip_absorb m' s)" using assms by simp
  then have "v3 s XOR m = v3 s XOR m'"
    by (simp add: sip_absorb_def SIPROUND_def Let_def ROTL_inject)
  then show ?thesis by (simp only: xor_left_inject)
qed

section \<open>Properties\<close>

text \<open>The case-insensitive variant is \<open>siphash\<close> of the lower-cased input: strings that
  differ only in the case of ASCII letters get the same hash.\<close>

theorem siphash_nocase_lower: "siphash_nocase inp k = siphash (map siptlw inp) k"
  by (simp add: siphash_nocase_def siphash_def nocase_loop nocase_tail split: prod.split)

text \<open>Absorbing a word loses nothing: it is injective in the state for a fixed word, and
  injective in the word for a fixed state.\<close>

theorem sip_absorb_injective:
  "(sip_absorb m s = sip_absorb m s' \<longleftrightarrow> s = s') \<and> (sip_absorb m s = sip_absorb m' s \<longleftrightarrow> m = m')"
  using absorb_state_inject [of m s s'] absorb_word_inject [of m s m'] by auto

end
