(* ===== verification/SiphashReference.thy ===== *)
theory SiphashReference
  imports Siphash
begin

text \<open>
  SipHash from its published description, on bits: a word is the list of its 64 bits, the lowest
  first, addition goes through a carry, and the numbers of rounds are arguments. With 2-4 rounds
  it gives the 64 test vectors at the end of \<open>dep/siphash.c\<close>, which are for SipHash 2-4; the
  functions of Siphash compute it with the 1-2 rounds of the code. The self-test around the
  vectors is compiled only with \<open>SIPHASH_TEST\<close> and is not modelled: its comment says that the
  code has to be changed before it is run.
\<close>

section \<open>Words as lists of bits\<close>

definition bits64 :: "u64 \<Rightarrow> bool list" where
  "bits64 w = map (bit w) [0..<64]"

definition bits8 :: "u8 \<Rightarrow> bool list" where
  "bits8 w = map (bit w) [0..<8]"

lemma word_of_bits: "horner_sum of_bool 2 (bits64 w) = w"
  unfolding bits64_def horner_sum_bit_eq_take_bit by (rule bit_word_eqI) (simp add: bit_simps)

lemma bits_of_word: "length xs = 64 \<Longrightarrow> bits64 (horner_sum of_bool 2 xs) = xs"
  by (rule nth_equalityI) (simp_all add: bits64_def bit_horner_sum_bit_word_iff)

lemma bits64_inject: "bits64 x = bits64 y \<longleftrightarrow> x = y"
  by (metis word_of_bits)

fun xorb :: "bool list \<Rightarrow> bool list \<Rightarrow> bool list" where
  "xorb (a # as) (b # bs) = (a \<noteq> b) # xorb as bs"
| "xorb as bs = []"

text \<open>Addition with a carry, from the lowest bit.\<close>

fun addb :: "bool \<Rightarrow> bool list \<Rightarrow> bool list \<Rightarrow> bool list" where
  "addb c (a # as) (b # bs) = (c \<noteq> (a \<noteq> b)) # addb (if a = b then a else c) as bs"
| "addb c as bs = []"

definition rotb :: "nat \<Rightarrow> bool list \<Rightarrow> bool list" where
  "rotb n xs = drop n xs @ take n xs"

lemma xorb_map2: "xorb as bs = map2 (\<noteq>) as bs"
  by (induction as bs rule: xorb.induct) auto

lemma bits64_xor: "bits64 (x XOR y) = xorb (bits64 x) (bits64 y)"
  by (rule nth_equalityI) (simp_all add: xorb_map2 bits64_def bit_simps)

lemma bits64_ROTL: "0 < n \<Longrightarrow> n < 64 \<Longrightarrow> bits64 (ROTL x n) = rotb (64 - n) (bits64 x)"
  by (rule nth_equalityI) (auto simp: rotb_def bits64_def ROTL_def bit_simps nth_append dest: bit_imp_le_length)

lemma length_addb: "length (addb c as bs) = min (length as) (length bs)"
  by (induction c as bs rule: addb.induct) auto

lemma addb_sum:
  "length as = length bs \<Longrightarrow>
    \<exists>d. horner_sum of_bool 2 (addb c as bs) + 2 ^ length as * of_bool d =
      horner_sum of_bool 2 as + horner_sum of_bool 2 bs + (of_bool c :: u64)"
proof (induction c as bs rule: addb.induct)
  case (1 c a as b bs)
  then obtain d where d: "horner_sum of_bool 2 (addb (if a = b then a else c) as bs) + 2 ^ length as * of_bool d =
      horner_sum of_bool 2 as + horner_sum of_bool 2 bs + (of_bool (if a = b then a else c) :: u64)" by auto
  have "2 * horner_sum of_bool 2 (addb (if a = b then a else c) as bs) + 2 * 2 ^ length as * of_bool d =
      2 * horner_sum of_bool 2 as + 2 * horner_sum of_bool 2 bs + 2 * (of_bool (if a = b then a else c) :: u64)"
    using arg_cong [OF d, of "\<lambda>x. 2 * x"] by (simp only: distrib_left mult.assoc)
  then show ?case by (intro exI [of _ d]) (auto simp: algebra_simps)
qed auto

lemma bits64_add: "bits64 (x + y) = addb False (bits64 x) (bits64 y)"
proof -
  have l: "length (bits64 x) = 64" for x by (simp add: bits64_def)
  have "(2 :: u64) ^ length (bits64 x) = 0" unfolding l by (rule bit_word_eqI) (simp only: bit_simps, simp)
  moreover obtain d where "horner_sum of_bool 2 (addb False (bits64 x) (bits64 y)) + 2 ^ length (bits64 x) * of_bool d = x + y"
    using addb_sum [of "bits64 x" "bits64 y" False] by (auto simp: l word_of_bits)
  ultimately have "horner_sum of_bool 2 (addb False (bits64 x) (bits64 y)) = x + y" by (simp only: mult_zero_left add_0_right)
  then show ?thesis using bits_of_word [of "addb False (bits64 x) (bits64 y)"] by (simp add: length_addb l)
qed

section \<open>The reference\<close>

type_synonym bits4 = "bool list \<times> bool list \<times> bool list \<times> bool list"

text \<open>The state is made of the text "somepseudorandomlygeneratedbytes" and the two words of the key.
  Eight letters make a word, the first being its highest byte.\<close>

definition magic :: "string \<Rightarrow> bool list" where
  "magic t = concat (map (\<lambda>c. bits8 (of_char c)) (rev t))"

definition binit :: "u8 list \<Rightarrow> bits4" where
  "binit key =
     (let k0 = concat (map bits8 (take 8 key)); k1 = concat (map bits8 (take 8 (drop 8 key)))
      in (xorb (magic ''somepseu'') k0, xorb (magic ''dorandom'') k1, xorb (magic ''lygenera'') k0,
          xorb (magic ''tedbytes'') k1))"

text \<open>A rotation to the left by \<open>n\<close> drops the lowest \<open>64 - n\<close> bits to the end of the list.\<close>

definition bround :: "bits4 \<Rightarrow> bits4" where
  "bround = (\<lambda>(a, b, c, d).
    (let a = addb False a b; b = xorb (rotb 51 b) a; a = rotb 32 a; c = addb False c d; d = xorb (rotb 48 d) c;
        a = addb False a d; d = xorb (rotb 43 d) a; c = addb False c b; b = xorb (rotb 47 b) c in (a, b, rotb 32 c, d)))"

definition babsorb :: "nat \<Rightarrow> bool list \<Rightarrow> bits4 \<Rightarrow> bits4" where
  "babsorb n m = (\<lambda>(a, b, c, d). case (bround ^^ n) (a, b, c, xorb d m) of (a, b, c, d) \<Rightarrow> (xorb a m, b, c, d))"

definition bfinish :: "nat \<Rightarrow> nat \<Rightarrow> bool list \<Rightarrow> bits4 \<Rightarrow> bool list" where
  "bfinish n k m s = (case babsorb n m s of (a, b, c, d) \<Rightarrow>
     (case (bround ^^ k) (a, b, xorb c (bits64 0xff), d) of (a, b, c, d) \<Rightarrow> xorb a (xorb b (xorb c d))))"

text \<open>Bytes 0 to 6 of the last word and the length in byte 7.\<close>

definition zero8 :: "bool list" where
  "zero8 = [False, False, False, False, False, False, False, False]"

definition btail :: "bool list list \<Rightarrow> bool list \<Rightarrow> bool list" where
  "btail r l = concat r @ concat (replicate (7 - length r) zero8) @ l"

fun bloop :: "nat \<Rightarrow> bool list list \<Rightarrow> bits4 \<Rightarrow> bits4 \<times> bool list list" where
  "bloop n (a # b # c # d # e # f # g # h # r) s = bloop n r (babsorb n (a @ b @ c @ d @ e @ f @ g @ h) s)"
| "bloop n r s = (s, r)"

definition bhash :: "nat \<Rightarrow> nat \<Rightarrow> bool list list \<Rightarrow> bits4 \<Rightarrow> bool list \<Rightarrow> bool list" where
  "bhash n k inp s l = (case bloop n inp s of (s, r) \<Rightarrow> bfinish n k (btail r l) s)"

definition sip_reference :: "nat \<Rightarrow> nat \<Rightarrow> u8 list \<Rightarrow> u8 list \<Rightarrow> bool list" where
  "sip_reference n k inp key = bhash n k (map bits8 inp) (binit key) (bits8 (of_nat (length inp)))"

section \<open>The code on bits\<close>

definition bstate :: "sip_state \<Rightarrow> bits4" where
  "bstate s = (bits64 (v0 s), bits64 (v1 s), bits64 (v2 s), bits64 (v3 s))"

lemma bstate_round: "bstate (SIPROUND s) = bround (bstate s)"
  by (simp add: bstate_def bround_def SIPROUND_def Let_def bits64_add bits64_xor bits64_ROTL)

lemma bstate_absorb: "bstate (sip_absorb m s) = babsorb 1 (bits64 m) (bstate s)"
proof -
  let ?t = "s\<lparr>v3 := v3 s XOR m\<rparr>"
  have "bround (bits64 (v0 s), bits64 (v1 s), bits64 (v2 s), xorb (bits64 (v3 s)) (bits64 m)) = bstate (SIPROUND ?t)"
    by (simp add: bstate_round) (simp add: bstate_def bits64_xor)
  then show ?thesis by (simp add: sip_absorb_def babsorb_def Let_def bstate_def bits64_xor)
qed

lemma bits_finish: "bits64 (sip_finish m s) = bfinish 1 2 (bits64 m) (bstate s)"
proof -
  let ?s = "sip_absorb m s"
  let ?t = "?s\<lparr>v2 := v2 ?s XOR 0xff\<rparr>"
  have "babsorb 1 (bits64 m) (bstate s) = bstate ?s" by (rule bstate_absorb [symmetric])
  moreover have "(bround ^^ 2) (bstate ?t) = bstate (SIPROUND (SIPROUND ?t))"
    by (simp add: bstate_round eval_nat_numeral)
  ultimately show ?thesis
    by (simp add: sip_finish_def bfinish_def Let_def bstate_def bits64_xor)
qed

text \<open>The word of some bytes, the lowest first.\<close>

fun wordb :: "u8 list \<Rightarrow> u64" where
  "wordb [] = 0"
| "wordb (b # bs) = ucast b OR push_bit 8 (wordb bs)"

lemma length_bits8 [simp]: "length (bits8 b) = 8"
  by (simp add: bits8_def)

lemma bits_wordb_Cons: "bits64 (wordb (b # bs)) = bits8 b @ take 56 (bits64 (wordb bs))"
  by (rule nth_equalityI) (auto simp: bits64_def bits8_def bit_simps nth_append dest: bit_imp_le_length)

lemma bits_wordb: "length bs = 8 \<Longrightarrow> bits64 (wordb bs) = concat (map bits8 bs)"
  by (auto simp: length_Suc_conv numeral_eq_Suc bits_wordb_Cons simp del: wordb.simps)

lemma bits_load:
  "bits64 (U8TO64_LE (a # b # c # d # e # f # g # h # r)) =
    bits8 a @ bits8 b @ bits8 c @ bits8 d @ bits8 e @ bits8 f @ bits8 g @ bits8 h"
proof -
  have "U8TO64_LE (a # b # c # d # e # f # g # h # r) = wordb [a, b, c, d, e, f, g, h]"
    by (simp add: U8TO64_LE_def push_bit_or push_bit_push_bit or.assoc)
  then show ?thesis using bits_wordb [of "[a, b, c, d, e, f, g, h]"] by simp
qed

lemma short_list:
  assumes "length r < 8"
  obtains "r = []" | a where "r = [a]" | a b where "r = [a, b]" | a b c where "r = [a, b, c]" | a b c d where "r = [a, b, c, d]"
    | a b c d e where "r = [a, b, c, d, e]" | a b c d e f where "r = [a, b, c, d, e, f]"
    | a b c d e f g where "r = [a, b, c, d, e, f, g]"
proof -
  have "length r = 0 \<or> length r = 1 \<or> length r = 2 \<or> length r = 3 \<or> length r = 4 \<or> length r = 5 \<or> length r = 6 \<or> length r = 7"
    using assms by linarith
  then show thesis using that by (auto simp: length_Suc_conv eval_nat_numeral)
qed

lemma bits_tail:
  "length r < 8 \<Longrightarrow>
    bits64 (sip_tail (\<lambda>c. c) r (push_bit 56 (ucast n))) = btail (map bits8 r) (bits8 n)"
proof -
  assume r: "length r < 8"
  let ?b = "r @ replicate (7 - length r) 0 @ [n]"
  have "sip_tail (\<lambda>c. c) r (push_bit 56 (ucast n)) = wordb ?b"
    using r by (elim short_list)
      (simp_all add: sip_tail_def Let_def push_bit_or push_bit_push_bit or.commute or.left_commute eval_nat_numeral)
  moreover have "bits64 (wordb ?b) = concat (map bits8 ?b)" using r by (intro bits_wordb) simp
  moreover have "bits8 0 = zero8" by (simp add: bits8_def zero8_def upt_rec)
  ultimately show ?thesis using r by (elim short_list) (simp_all add: btail_def eval_nat_numeral)
qed

lemma bits_loop:
  "sip_loop U8TO64_LE inp s = (s', rest) \<Longrightarrow>
    bloop 1 (map bits8 inp) (bstate s) = (bstate s', map bits8 rest) \<and> length rest < 8"
proof (induction "U8TO64_LE" inp s arbitrary: s' rest rule: sip_loop.induct)
  case (1 inp s)
  show ?case
  proof (cases "length inp < 8")
    case True
    then have "s' = s" "rest = inp" using "1.prems" by (simp_all add: sip_loop.simps [of _ inp])
    then show ?thesis using True by (elim short_list) simp_all
  next
    case False
    then obtain a b c d e f g h r where inp: "inp = a # b # c # d # e # f # g # h # r"
      by (auto simp: not_less Suc_le_length_iff eval_nat_numeral)
    have "sip_loop U8TO64_LE (drop 8 inp) (sip_absorb (U8TO64_LE inp) s) = (s', rest)"
      using "1.prems" False by (simp add: sip_loop.simps [of _ inp])
    from "1.hyps" [OF False this] show ?thesis by (simp add: inp bstate_absorb bits_load)
  qed
qed

lemma list_16:
  assumes "length key = 16"
  obtains a b c d e f g h i j k l m n p q where "key = [a, b, c, d, e, f, g, h, i, j, k, l, m, n, p, q]"
  using assms that by (auto simp: length_Suc_conv eval_nat_numeral)

lemma magic_words:
  "bits64 0x736f6d6570736575 = magic ''somepseu''" "bits64 0x646f72616e646f6d = magic ''dorandom''"
  "bits64 0x6c7967656e657261 = magic ''lygenera''" "bits64 0x7465646279746573 = magic ''tedbytes''"
  by (simp_all add: bits64_def magic_def bits8_def upt_rec)

lemma bits_init:
  assumes "length key = 16"
  shows "bstate (sip_init key) = binit key"
  using assms
proof (rule list_16)
  fix a b c d e f g h i j k l m n p q
  assume key: "key = [a, b, c, d, e, f, g, h, i, j, k, l, m, n, p, q]"
  show ?thesis unfolding key
    by (simp add: sip_init_def binit_def bstate_def Let_def bits64_xor magic_words bits_load)
qed

lemma bits_siphash:
  assumes "length key = 16"
  shows "bits64 (siphash inp key) = sip_reference 1 2 inp key"
proof -
  obtain s rest where l: "sip_loop U8TO64_LE inp (sip_init key) = (s, rest)" by fastforce
  note b = bits_loop [OF l]
  have "push_bit 56 (of_nat (length inp)) = push_bit 56 (ucast (of_nat (length inp) :: u8) :: u64)"
    by (rule bit_word_eqI) (auto simp: bit_simps)
  then show ?thesis
    using b l bits_tail [OF conjunct2 [OF b], of "of_nat (length inp)"] bits_init [OF assms]
    by (simp add: siphash_def sip_reference_def bhash_def bits_finish)
qed

section \<open>The test vectors\<close>

definition vectors_sip64 :: "u8 list list" where
  "vectors_sip64 = [
   [0x31, 0x0e, 0x0e, 0xdd, 0x47, 0xdb, 0x6f, 0x72],
   [0xfd, 0x67, 0xdc, 0x93, 0xc5, 0x39, 0xf8, 0x74],
   [0x5a, 0x4f, 0xa9, 0xd9, 0x09, 0x80, 0x6c, 0x0d],
   [0x2d, 0x7e, 0xfb, 0xd7, 0x96, 0x66, 0x67, 0x85],
   [0xb7, 0x87, 0x71, 0x27, 0xe0, 0x94, 0x27, 0xcf],
   [0x8d, 0xa6, 0x99, 0xcd, 0x64, 0x55, 0x76, 0x18],
   [0xce, 0xe3, 0xfe, 0x58, 0x6e, 0x46, 0xc9, 0xcb],
   [0x37, 0xd1, 0x01, 0x8b, 0xf5, 0x00, 0x02, 0xab],
   [0x62, 0x24, 0x93, 0x9a, 0x79, 0xf5, 0xf5, 0x93],
   [0xb0, 0xe4, 0xa9, 0x0b, 0xdf, 0x82, 0x00, 0x9e],
   [0xf3, 0xb9, 0xdd, 0x94, 0xc5, 0xbb, 0x5d, 0x7a],
   [0xa7, 0xad, 0x6b, 0x22, 0x46, 0x2f, 0xb3, 0xf4],
   [0xfb, 0xe5, 0x0e, 0x86, 0xbc, 0x8f, 0x1e, 0x75],
   [0x90, 0x3d, 0x84, 0xc0, 0x27, 0x56, 0xea, 0x14],
   [0xee, 0xf2, 0x7a, 0x8e, 0x90, 0xca, 0x23, 0xf7],
   [0xe5, 0x45, 0xbe, 0x49, 0x61, 0xca, 0x29, 0xa1],
   [0xdb, 0x9b, 0xc2, 0x57, 0x7f, 0xcc, 0x2a, 0x3f],
   [0x94, 0x47, 0xbe, 0x2c, 0xf5, 0xe9, 0x9a, 0x69],
   [0x9c, 0xd3, 0x8d, 0x96, 0xf0, 0xb3, 0xc1, 0x4b],
   [0xbd, 0x61, 0x79, 0xa7, 0x1d, 0xc9, 0x6d, 0xbb],
   [0x98, 0xee, 0xa2, 0x1a, 0xf2, 0x5c, 0xd6, 0xbe],
   [0xc7, 0x67, 0x3b, 0x2e, 0xb0, 0xcb, 0xf2, 0xd0],
   [0x88, 0x3e, 0xa3, 0xe3, 0x95, 0x67, 0x53, 0x93],
   [0xc8, 0xce, 0x5c, 0xcd, 0x8c, 0x03, 0x0c, 0xa8],
   [0x94, 0xaf, 0x49, 0xf6, 0xc6, 0x50, 0xad, 0xb8],
   [0xea, 0xb8, 0x85, 0x8a, 0xde, 0x92, 0xe1, 0xbc],
   [0xf3, 0x15, 0xbb, 0x5b, 0xb8, 0x35, 0xd8, 0x17],
   [0xad, 0xcf, 0x6b, 0x07, 0x63, 0x61, 0x2e, 0x2f],
   [0xa5, 0xc9, 0x1d, 0xa7, 0xac, 0xaa, 0x4d, 0xde],
   [0x71, 0x65, 0x95, 0x87, 0x66, 0x50, 0xa2, 0xa6],
   [0x28, 0xef, 0x49, 0x5c, 0x53, 0xa3, 0x87, 0xad],
   [0x42, 0xc3, 0x41, 0xd8, 0xfa, 0x92, 0xd8, 0x32],
   [0xce, 0x7c, 0xf2, 0x72, 0x2f, 0x51, 0x27, 0x71],
   [0xe3, 0x78, 0x59, 0xf9, 0x46, 0x23, 0xf3, 0xa7],
   [0x38, 0x12, 0x05, 0xbb, 0x1a, 0xb0, 0xe0, 0x12],
   [0xae, 0x97, 0xa1, 0x0f, 0xd4, 0x34, 0xe0, 0x15],
   [0xb4, 0xa3, 0x15, 0x08, 0xbe, 0xff, 0x4d, 0x31],
   [0x81, 0x39, 0x62, 0x29, 0xf0, 0x90, 0x79, 0x02],
   [0x4d, 0x0c, 0xf4, 0x9e, 0xe5, 0xd4, 0xdc, 0xca],
   [0x5c, 0x73, 0x33, 0x6a, 0x76, 0xd8, 0xbf, 0x9a],
   [0xd0, 0xa7, 0x04, 0x53, 0x6b, 0xa9, 0x3e, 0x0e],
   [0x92, 0x59, 0x58, 0xfc, 0xd6, 0x42, 0x0c, 0xad],
   [0xa9, 0x15, 0xc2, 0x9b, 0xc8, 0x06, 0x73, 0x18],
   [0x95, 0x2b, 0x79, 0xf3, 0xbc, 0x0a, 0xa6, 0xd4],
   [0xf2, 0x1d, 0xf2, 0xe4, 0x1d, 0x45, 0x35, 0xf9],
   [0x87, 0x57, 0x75, 0x19, 0x04, 0x8f, 0x53, 0xa9],
   [0x10, 0xa5, 0x6c, 0xf5, 0xdf, 0xcd, 0x9a, 0xdb],
   [0xeb, 0x75, 0x09, 0x5c, 0xcd, 0x98, 0x6c, 0xd0],
   [0x51, 0xa9, 0xcb, 0x9e, 0xcb, 0xa3, 0x12, 0xe6],
   [0x96, 0xaf, 0xad, 0xfc, 0x2c, 0xe6, 0x66, 0xc7],
   [0x72, 0xfe, 0x52, 0x97, 0x5a, 0x43, 0x64, 0xee],
   [0x5a, 0x16, 0x45, 0xb2, 0x76, 0xd5, 0x92, 0xa1],
   [0xb2, 0x74, 0xcb, 0x8e, 0xbf, 0x87, 0x87, 0x0a],
   [0x6f, 0x9b, 0xb4, 0x20, 0x3d, 0xe7, 0xb3, 0x81],
   [0xea, 0xec, 0xb2, 0xa3, 0x0b, 0x22, 0xa8, 0x7f],
   [0x99, 0x24, 0xa4, 0x3c, 0xc1, 0x31, 0x57, 0x24],
   [0xbd, 0x83, 0x8d, 0x3a, 0xaf, 0xbf, 0x8d, 0xb7],
   [0x0b, 0x1a, 0x2a, 0x32, 0x65, 0xd5, 0x1a, 0xea],
   [0x13, 0x50, 0x79, 0xa3, 0x23, 0x1c, 0xe6, 0x60],
   [0x93, 0x2b, 0x28, 0x46, 0xe4, 0xd7, 0x06, 0x66],
   [0xe1, 0x91, 0x5f, 0x5c, 0xb1, 0xec, 0xa4, 0x6c],
   [0xf3, 0x25, 0x96, 0x5c, 0xa1, 0x6d, 0x62, 0x9f],
   [0x57, 0x5f, 0xf2, 0x8e, 0x60, 0x38, 0x1b, 0xe5],
   [0x72, 0x45, 0x06, 0xeb, 0x4c, 0x32, 0x8a, 0x95]]"

section \<open>Evaluation\<close>

lemma xorb_eval:
  "xorb (True # as) (True # bs) = False # xorb as bs" "xorb (False # as) (b # bs) = b # xorb as bs"
  "xorb (b # as) (False # bs) = b # xorb as bs" "xorb [] bs = []"
  by auto

lemma addb_eval:
  "addb False (True # as) (True # bs) = False # addb True as bs" "addb False (False # as) (b # bs) = b # addb False as bs"
  "addb False (b # as) (False # bs) = b # addb False as bs" "addb True (True # as) (b # bs) = b # addb True as bs"
  "addb True (False # as) (False # bs) = True # addb False as bs" "addb True (b # as) (True # bs) = b # addb True as bs"
  "addb c [] bs = []"
  by auto

lemma rotb_eval:
  "rotb 51 [x0, x1, x2, x3, x4, x5, x6, x7, x8, x9, x10, x11, x12, x13, x14, x15, x16, x17, x18, x19, x20, x21, x22, x23,
    x24, x25, x26, x27, x28, x29, x30, x31, x32, x33, x34, x35, x36, x37, x38, x39, x40, x41, x42, x43, x44,
    x45, x46, x47, x48, x49, x50, x51, x52, x53, x54, x55, x56, x57, x58, x59, x60, x61, x62, x63] =
    [x51, x52, x53, x54, x55, x56, x57, x58, x59, x60, x61, x62, x63, x0, x1, x2, x3, x4, x5, x6, x7, x8, x9, x10,
    x11, x12, x13, x14, x15, x16, x17, x18, x19, x20, x21, x22, x23, x24, x25, x26, x27, x28, x29, x30, x31,
    x32, x33, x34, x35, x36, x37, x38, x39, x40, x41, x42, x43, x44, x45, x46, x47, x48, x49, x50]"
  "rotb 32 [x0, x1, x2, x3, x4, x5, x6, x7, x8, x9, x10, x11, x12, x13, x14, x15, x16, x17, x18, x19, x20, x21, x22, x23,
    x24, x25, x26, x27, x28, x29, x30, x31, x32, x33, x34, x35, x36, x37, x38, x39, x40, x41, x42, x43, x44,
    x45, x46, x47, x48, x49, x50, x51, x52, x53, x54, x55, x56, x57, x58, x59, x60, x61, x62, x63] =
    [x32, x33, x34, x35, x36, x37, x38, x39, x40, x41, x42, x43, x44, x45, x46, x47, x48, x49, x50, x51, x52, x53,
    x54, x55, x56, x57, x58, x59, x60, x61, x62, x63, x0, x1, x2, x3, x4, x5, x6, x7, x8, x9, x10, x11, x12,
    x13, x14, x15, x16, x17, x18, x19, x20, x21, x22, x23, x24, x25, x26, x27, x28, x29, x30, x31]"
  "rotb 48 [x0, x1, x2, x3, x4, x5, x6, x7, x8, x9, x10, x11, x12, x13, x14, x15, x16, x17, x18, x19, x20, x21, x22, x23,
    x24, x25, x26, x27, x28, x29, x30, x31, x32, x33, x34, x35, x36, x37, x38, x39, x40, x41, x42, x43, x44,
    x45, x46, x47, x48, x49, x50, x51, x52, x53, x54, x55, x56, x57, x58, x59, x60, x61, x62, x63] =
    [x48, x49, x50, x51, x52, x53, x54, x55, x56, x57, x58, x59, x60, x61, x62, x63, x0, x1, x2, x3, x4, x5, x6,
    x7, x8, x9, x10, x11, x12, x13, x14, x15, x16, x17, x18, x19, x20, x21, x22, x23, x24, x25, x26, x27, x28,
    x29, x30, x31, x32, x33, x34, x35, x36, x37, x38, x39, x40, x41, x42, x43, x44, x45, x46, x47]"
  "rotb 43 [x0, x1, x2, x3, x4, x5, x6, x7, x8, x9, x10, x11, x12, x13, x14, x15, x16, x17, x18, x19, x20, x21, x22, x23,
    x24, x25, x26, x27, x28, x29, x30, x31, x32, x33, x34, x35, x36, x37, x38, x39, x40, x41, x42, x43, x44,
    x45, x46, x47, x48, x49, x50, x51, x52, x53, x54, x55, x56, x57, x58, x59, x60, x61, x62, x63] =
    [x43, x44, x45, x46, x47, x48, x49, x50, x51, x52, x53, x54, x55, x56, x57, x58, x59, x60, x61, x62, x63, x0,
    x1, x2, x3, x4, x5, x6, x7, x8, x9, x10, x11, x12, x13, x14, x15, x16, x17, x18, x19, x20, x21, x22, x23,
    x24, x25, x26, x27, x28, x29, x30, x31, x32, x33, x34, x35, x36, x37, x38, x39, x40, x41, x42]"
  "rotb 47 [x0, x1, x2, x3, x4, x5, x6, x7, x8, x9, x10, x11, x12, x13, x14, x15, x16, x17, x18, x19, x20, x21, x22, x23,
    x24, x25, x26, x27, x28, x29, x30, x31, x32, x33, x34, x35, x36, x37, x38, x39, x40, x41, x42, x43, x44,
    x45, x46, x47, x48, x49, x50, x51, x52, x53, x54, x55, x56, x57, x58, x59, x60, x61, x62, x63] =
    [x47, x48, x49, x50, x51, x52, x53, x54, x55, x56, x57, x58, x59, x60, x61, x62, x63, x0, x1, x2, x3, x4, x5,
    x6, x7, x8, x9, x10, x11, x12, x13, x14, x15, x16, x17, x18, x19, x20, x21, x22, x23, x24, x25, x26, x27,
    x28, x29, x30, x31, x32, x33, x34, x35, x36, x37, x38, x39, x40, x41, x42, x43, x44, x45, x46]"
  by (simp_all add: rotb_def)

text \<open>Only bits already computed are substituted.\<close>

lemma bits_let: "Let (x # xs) f = f (x # xs)"
  by simp

lemma bround_eval:
  "bround (a # as, b # bs, c # cs, d # ds) =
    (let a = addb False (a # as) (b # bs); b = xorb (rotb 51 (b # bs)) a; a = rotb 32 a;
         c = addb False (c # cs) (d # ds); d = xorb (rotb 48 (d # ds)) c;
         a = addb False a d; d = xorb (rotb 43 d) a; c = addb False c b; b = xorb (rotb 47 b) c
     in (a, b, rotb 32 c, d))"
  by (simp add: bround_def)

lemma babsorb_eval:
  "babsorb n (m # ms) (a # as, b # bs, c # cs, d # ds) =
    (case (bround ^^ n) (a # as, b # bs, c # cs, xorb (d # ds) (m # ms)) of (a, b, c, d) \<Rightarrow> (xorb a (m # ms), b, c, d))"
  by (simp add: babsorb_def)

lemma rounds_eval: "(bround ^^ Suc 0) s = bround s" "(bround ^^ 2) s = bround (bround s)"
  "(bround ^^ 4) s = bround (bround (bround (bround s)))"
  by (simp_all add: eval_nat_numeral)

lemma bits_ff: "bits64 0xff = [True, True, True, True, True, True, True, True] @ zero8 @ zero8 @ zero8 @ zero8 @ zero8 @ zero8 @ zero8"
  by (simp add: bits64_def zero8_def upt_rec)

lemma btail_eval:
  "btail [] l = zero8 @ zero8 @ zero8 @ zero8 @ zero8 @ zero8 @ zero8 @ l"
  "btail [a] l = a @ zero8 @ zero8 @ zero8 @ zero8 @ zero8 @ zero8 @ l"
  "btail [a, b] l = a @ b @ zero8 @ zero8 @ zero8 @ zero8 @ zero8 @ l"
  "btail [a, b, c] l = a @ b @ c @ zero8 @ zero8 @ zero8 @ zero8 @ l"
  "btail [a, b, c, d] l = a @ b @ c @ d @ zero8 @ zero8 @ zero8 @ l"
  "btail [a, b, c, d, e] l = a @ b @ c @ d @ e @ zero8 @ zero8 @ l"
  "btail [a, b, c, d, e, f] l = a @ b @ c @ d @ e @ f @ zero8 @ l"
  "btail [a, b, c, d, e, f, g] l = a @ b @ c @ d @ e @ f @ g @ l"
  by (simp_all add: btail_def eval_nat_numeral)

lemma bits8_eval: "bits8 w = [bit w 0, bit w 1, bit w 2, bit w 3, bit w 4, bit w 5, bit w 6, bit w 7]"
  by (simp add: bits8_def upt_rec numeral_eq_Suc)

lemmas word_eval = upt_rec binit_def magic_def Let_def bits8_eval

lemmas bits_eval = bhash_def bloop.simps bfinish_def prod.case btail_eval babsorb_eval rounds_eval bround_eval bits_let
  addb_eval xorb_eval rotb_eval bits_ff zero8_def append.simps list.inject simp_thms

text \<open>The hashes of the prefixes of \<open>bs\<close>.\<close>

fun bcheck :: "bool list list \<Rightarrow> bool list list \<Rightarrow> bits4 \<Rightarrow> bool list list \<Rightarrow> bool" where
  "bcheck pre bs s [] = True"
| "bcheck pre [] s (v # vs) = False"
| "bcheck pre (b # bs) s (v # vs) = (bhash 2 4 pre s b = v \<and> bcheck (pre @ [b]) bs s vs)"

lemma bcheck_nth: "bcheck pre bs s vs \<Longrightarrow> i < length vs \<Longrightarrow> i < length bs \<and> bhash 2 4 (pre @ take i bs) s (bs ! i) = vs ! i"
proof (induction pre bs s vs arbitrary: i rule: bcheck.induct)
  case (3 pre b bs s v vs)
  then show ?case by (cases i) auto
qed auto

lemma bcheck_eval:
  "bcheck pre bs (a # as, b # bs', c # cs, d # ds) [] = True"
  "bcheck pre ((x # xs) # bs) (a # as, b # bs', c # cs, d # ds) ((v # vs) # vss) =
    (bhash 2 4 pre (a # as, b # bs', c # cs, d # ds) (x # xs) = v # vs \<and>
     bcheck (pre @ [x # xs]) bs (a # as, b # bs', c # cs, d # ds) vss)"
  by simp_all

lemma test_inputs:
  "bcheck [] (map (\<lambda>i. bits8 (of_nat i)) [0..<64]) (binit (map of_nat [0..<16]))
     (map (\<lambda>v. concat (map bits8 v)) vectors_sip64)"
  by (simp add: word_eval vectors_sip64_def del: bcheck.simps) (simp only: bcheck_eval bits_eval)

section \<open>Properties\<close>

lemma vectors_length: "length vectors_sip64 = 64"
  by (simp add: vectors_sip64_def)

lemma vectors_match:
  assumes "i < 64"
  shows "sip_reference 2 4 (map of_nat [0..<i]) (map of_nat [0..<16]) = concat (map bits8 (vectors_sip64 ! i))"
proof -
  have "take i (map (\<lambda>i. bits8 (of_nat i)) [0..<64]) = map bits8 (map of_nat [0..<i])" using assms by (simp add: take_map)
  then show ?thesis
    using bcheck_nth [OF test_inputs, of i] assms by (simp add: sip_reference_def vectors_length)
qed

text \<open>C38: For every input and every key of 16 bytes \<open>siphash\<close> is SipHash with 1-2 rounds, and
  \<open>siphash_nocase\<close> is SipHash of the input in lower case. The reference is SipHash indeed: with 2-4
  rounds it gives the 64 test vectors of the file, those of the authors of SipHash.\<close>

theorem siphash_is_SipHash:
  assumes "length key = 16"
  shows "bits64 (siphash inp key) = sip_reference 1 2 inp key \<and>
    bits64 (siphash_nocase inp key) = sip_reference 1 2 (map siptlw inp) key \<and>
    (\<forall>i < length vectors_sip64. sip_reference 2 4 (map of_nat [0..<i]) (map of_nat [0..<16]) =
      concat (map bits8 (vectors_sip64 ! i)))"
  using bits_siphash [OF assms] vectors_match
  by (simp add: siphash_nocase_lower vectors_length del: map_map)

lemma siphash_is_SipHash_witness:
  "bits64 (siphash [104, 105] (map of_nat [0..<16])) = sip_reference 1 2 [104, 105] (map of_nat [0..<16]) \<and>
    bits64 (siphash_nocase [72, 105] (map of_nat [0..<16])) = sip_reference 1 2 [104, 105] (map of_nat [0..<16])"
proof -
  have "map siptlw [72, 105] = [104, 105]" by (simp add: siptlw_def)
  moreover have "length (map of_nat [0..<16] :: u8 list) = 16" by simp
  ultimately show ?thesis
    using siphash_is_SipHash [of "map of_nat [0..<16]"] by metis
qed

end
