(* ===== verification/Interfaces.thy ===== *)
theory Interfaces
  imports Prelude
begin

text \<open>
  The contracts between the components, as locales: what a client may rely on, with the
  client's lemmas proved once from it. Every locale is interpreted on the model's own
  definitions in the theory of the component that provides it.
\<close>

section \<open>A keyed table\<close>

text \<open>Requests a client makes, and maintenance work done between them.\<close>

datatype ('k, 'v, 'm) table_op = Put 'k 'v | Drop 'k | Work 'm

text \<open>Running requests on an implementation and on a finite map. The results are the flags
  the requests return.\<close>

fun run_table ::
  "('s \<Rightarrow> 'k \<Rightarrow> 'v \<Rightarrow> (bool \<times> 's) option) \<Rightarrow> ('s \<Rightarrow> 'k \<Rightarrow> (bool \<times> 's) option) \<Rightarrow> ('m \<Rightarrow> 's \<Rightarrow> 's option)
    \<Rightarrow> ('k, 'v, 'm) table_op list \<Rightarrow> 's \<Rightarrow> (bool list \<times> 's) option" where
  "run_table add del work [] s = Some ([], s)"
| "run_table add del work (Put k v # ops) s = do {
     (b, s) \<leftarrow> add s k v;
     (bs, s) \<leftarrow> run_table add del work ops s;
     Some (b # bs, s)
   }"
| "run_table add del work (Drop k # ops) s = do {
     (b, s) \<leftarrow> del s k;
     (bs, s) \<leftarrow> run_table add del work ops s;
     Some (b # bs, s)
   }"
| "run_table add del work (Work m # ops) s = do { s \<leftarrow> work m s; run_table add del work ops s }"

fun spec_table :: "('v \<Rightarrow> 'w) \<Rightarrow> ('k, 'v, 'm) table_op list \<Rightarrow> ('k \<Rightarrow> 'w option) \<Rightarrow> bool list \<times> ('k \<Rightarrow> 'w option)" where
  "spec_table val [] m = ([], m)"
| "spec_table val (Put k v # ops) m =
     (if m k = None
      then (let (bs, m') = spec_table val ops (m(k \<mapsto> val v)) in (True # bs, m'))
      else (let (bs, m') = spec_table val ops m in (False # bs, m')))"
| "spec_table val (Drop k # ops) m =
     (let (bs, m') = spec_table val ops (m(k := None)) in ((m k \<noteq> None) # bs, m'))"
| "spec_table val (Work w # ops) m = spec_table val ops m"

locale keyed_table =
  fixes ok :: "'s \<Rightarrow> bool"
    and room :: "'s \<Rightarrow> nat \<Rightarrow> bool"
    and content :: "'s \<Rightarrow> 'k \<Rightarrow> 'w option"
    and val :: "'v \<Rightarrow> 'w"
    and add :: "'s \<Rightarrow> 'k \<Rightarrow> 'v \<Rightarrow> (bool \<times> 's) option"
    and del :: "'s \<Rightarrow> 'k \<Rightarrow> (bool \<times> 's) option"
    and work :: "'m \<Rightarrow> 's \<Rightarrow> 's option"
  assumes add_law: "ok s \<Longrightarrow> room s (Suc n) \<Longrightarrow> \<exists>s'. add s k v = Some (content s k = None, s') \<and>
      ok s' \<and> room s' n \<and> content s' = (if content s k = None then (content s)(k \<mapsto> val v) else content s)"
    and del_law: "ok s \<Longrightarrow> \<exists>s'. del s k = Some (content s k \<noteq> None, s') \<and>
      ok s' \<and> (\<forall>n. room s n \<longrightarrow> room s' n) \<and> content s' = (content s)(k := None)"
    and work_law: "ok s \<Longrightarrow> \<exists>s'. work m s = Some s' \<and>
      ok s' \<and> (\<forall>n. room s n \<longrightarrow> room s' n) \<and> content s' = content s"
    and room_le: "room s (Suc n) \<Longrightarrow> room s n"
begin

lemma add_fresh:
  assumes "ok s" "room s (Suc n)" "content s k = None"
  obtains s' where "add s k v = Some (True, s')" "ok s'" "room s' n" "content s' = (content s)(k \<mapsto> val v)"
  using add_law [OF assms(1,2), of k v] assms(3) by auto

lemma add_again:
  assumes "ok s" "room s (Suc n)" "content s k \<noteq> None"
  obtains s' where "add s k v = Some (False, s')" "ok s'" "room s' n" "content s' = content s"
  using add_law [OF assms(1,2), of k v] assms(3) by auto

lemma del_result:
  assumes "ok s"
  obtains s' where "del s k = Some (content s k \<noteq> None, s')" "ok s'" "\<forall>n. room s n \<longrightarrow> room s' n"
    "content s' = (content s)(k := None)"
  using del_law [OF assms, of k] by auto

text \<open>Adding a fresh key and deleting it again leaves the content as it was.\<close>

lemma add_del_fresh:
  assumes "ok s" "room s (Suc n)" "content s k = None"
  shows "\<exists>s1 s2. add s k v = Some (True, s1) \<and> del s1 k = Some (True, s2) \<and> ok s2 \<and>
    content s2 = content s"
proof -
  obtain s1 where s1: "add s k v = Some (True, s1)" "ok s1" "content s1 = (content s)(k \<mapsto> val v)"
    using add_fresh [OF assms] by metis
  obtain s2 where "del s1 k = Some (content s1 k \<noteq> None, s2)" "ok s2" "content s2 = (content s1)(k := None)"
    using del_result [OF s1(2)] by metis
  moreover have "(content s)(k := None) = content s" using assms(3) by (rule fun_upd_idem)
  ultimately show ?thesis using s1 by auto
qed

text \<open>Every sequence of requests and work is answered as the finite map answers it.\<close>

theorem run_refines:
  assumes "ok s" "room s (length ops)"
  shows "\<exists>s'. run_table add del work ops s = Some (fst (spec_table val ops (content s)), s') \<and>
    ok s' \<and> content s' = snd (spec_table val ops (content s))"
  using assms
proof (induction ops arbitrary: s)
  case Nil
  then show ?case by simp
next
  case (Cons op ops)
  have room: "room s (Suc (length ops))" using Cons.prems(2) by simp
  show ?case
  proof (cases op)
    case (Put k v)
    show ?thesis
    proof (cases "content s k = None")
      case True
      from add_fresh [OF Cons.prems(1) room True, of v] obtain s1 where
        "add s k v = Some (True, s1)" "ok s1" "room s1 (length ops)" "content s1 = (content s)(k \<mapsto> val v)" .
      with Put True Cons.IH [of s1] show ?thesis by (auto simp: split_beta simp del: fun_upd_apply)
    next
      case False
      from add_again [OF Cons.prems(1) room False, of v] obtain s1 where
        "add s k v = Some (False, s1)" "ok s1" "room s1 (length ops)" "content s1 = content s" .
      with Put False Cons.IH [of s1] show ?thesis by (auto simp: split_beta)
    qed
  next
    case (Drop k)
    obtain s1 where s1: "del s k = Some (content s k \<noteq> None, s1)" "ok s1" "room s1 (length ops)"
      "content s1 = (content s)(k := None)"
      using del_law [OF Cons.prems(1), of k] room_le [OF room] by blast
    with Drop Cons.IH [OF s1(2,3)] show ?thesis by (auto simp: split_beta simp del: fun_upd_apply)
  next
    case (Work m)
    obtain s1 where s1: "work m s = Some s1" "ok s1" "room s1 (length ops)" "content s1 = content s"
      using work_law [OF Cons.prems(1), of m] room_le [OF room] by blast
    with Work Cons.IH [OF s1(2,3)] show ?thesis by auto
  qed
qed

end

section \<open>An ordered collection of entries\<close>

text \<open>The requests of a client that keeps a set of entries in order; \<open>Insert\<close> carries the
  random draws the implementation uses up.\<close>

datatype ('e, 'd) order_op = Insert 'd 'e | Remove 'e

fun run_order ::
  "('d \<Rightarrow> 's \<Rightarrow> 'e \<Rightarrow> 's option) \<Rightarrow> ('s \<Rightarrow> 'e \<Rightarrow> (bool \<times> 's) option) \<Rightarrow> ('e, 'd) order_op list \<Rightarrow> 's
    \<Rightarrow> (bool list \<times> 's) option" where
  "run_order ins rem [] s = Some ([], s)"
| "run_order ins rem (Insert d e # ops) s = do { s \<leftarrow> ins d s e; run_order ins rem ops s }"
| "run_order ins rem (Remove e # ops) s = do {
     (b, s) \<leftarrow> rem s e;
     (bs, s) \<leftarrow> run_order ins rem ops s;
     Some (b # bs, s)
   }"

fun spec_order :: "('e, 'd) order_op list \<Rightarrow> 'e set \<Rightarrow> bool list \<times> 'e set" where
  "spec_order [] E = ([], E)"
| "spec_order (Insert d e # ops) E = spec_order ops (insert e E)"
| "spec_order (Remove e # ops) E = (let (bs, E') = spec_order ops (E - {e}) in ((e \<in> E) # bs, E'))"

text \<open>A client may insert only entries that are not there, and only usable draws.\<close>

fun legal_ops :: "('d \<Rightarrow> bool) \<Rightarrow> ('e, 'd) order_op list \<Rightarrow> 'e set \<Rightarrow> bool" where
  "legal_ops usable [] E \<longleftrightarrow> True"
| "legal_ops usable (Insert d e # ops) E \<longleftrightarrow> usable d \<and> e \<notin> E \<and> legal_ops usable ops (insert e E)"
| "legal_ops usable (Remove e # ops) E \<longleftrightarrow> legal_ops usable ops (E - {e})"

locale ordered_entries =
  fixes holds :: "'s \<Rightarrow> 'e list \<Rightarrow> bool"
    and capacity :: nat
    and usable :: "'d \<Rightarrow> bool"
    and ins :: "'d \<Rightarrow> 's \<Rightarrow> 'e \<Rightarrow> 's option"
    and rem :: "'s \<Rightarrow> 'e \<Rightarrow> (bool \<times> 's) option"
  assumes holds_distinct: "holds s es \<Longrightarrow> distinct es"
    and ins_law: "holds s es \<Longrightarrow> e \<notin> set es \<Longrightarrow> length es < capacity \<Longrightarrow> usable d \<Longrightarrow>
      \<exists>s' es'. ins d s e = Some s' \<and> holds s' es' \<and> set es' = insert e (set es)"
    and rem_law: "holds s es \<Longrightarrow> length es < capacity \<Longrightarrow>
      \<exists>s' es'. rem s e = Some (e \<in> set es, s') \<and> holds s' es' \<and> set es' = set es - {e}"
begin

lemma holds_length: "holds s es \<Longrightarrow> length es = card (set es)"
  by (simp add: distinct_card holds_distinct)

lemma ins_length:
  assumes "holds s es" "holds s' es'" "set es' = insert e (set es)" "e \<notin> set es"
  shows "length es' = Suc (length es)"
  using holds_length [OF assms(1)] holds_length [OF assms(2)] assms(3,4) by simp

lemma rem_length:
  assumes "holds s es" "holds s' es'" "set es' = set es - {e}"
  shows "length es' \<le> length es"
  using holds_length [OF assms(1)] holds_length [OF assms(2)] assms(3)
  by (metis Diff_subset List.finite_set card_mono)

text \<open>Every legal sequence of requests is answered as the set answers it.\<close>

theorem run_order_refines:
  assumes "holds s es" "length es + length ops \<le> capacity" "legal_ops usable ops (set es)"
  shows "\<exists>s' es'. run_order ins rem ops s = Some (fst (spec_order ops (set es)), s') \<and> holds s' es' \<and>
    set es' = snd (spec_order ops (set es))"
  using assms
proof (induction ops arbitrary: s es)
  case Nil
  then show ?case by auto
next
  case (Cons op ops)
  show ?case
  proof (cases op)
    case (Insert d e)
    then have e: "e \<notin> set es" "usable d" "legal_ops usable ops (insert e (set es))" "length es < capacity"
      using Cons.prems by auto
    obtain s1 es1 where 1: "ins d s e = Some s1" "holds s1 es1" "set es1 = insert e (set es)"
      using ins_law [OF Cons.prems(1) e(1,4,2)] by blast
    have "length es1 + length ops \<le> capacity" using ins_length [OF Cons.prems(1) 1(2,3) e(1)] Cons.prems(2) by simp
    moreover have "legal_ops usable ops (set es1)" using e(3) 1(3) by simp
    ultimately show ?thesis using Cons.IH [OF 1(2)] Insert 1(1,3) by auto
  next
    case (Remove e)
    have l: "length es < capacity" using Cons.prems(2) by simp
    obtain s1 es1 where 1: "rem s e = Some (e \<in> set es, s1)" "holds s1 es1" "set es1 = set es - {e}"
      using rem_law [OF Cons.prems(1) l, of e] by blast
    have "length es1 + length ops \<le> capacity" using rem_length [OF Cons.prems(1) 1(2,3)] Cons.prems(2) by simp
    moreover have "legal_ops usable ops (set es1)" using Cons.prems(3) Remove 1(3) by simp
    ultimately show ?thesis using Cons.IH [OF 1(2)] Remove 1(1,3) by (auto simp: split_beta)
  qed
qed

end

section \<open>A queue\<close>

text \<open>The commands that work on many keys collect them in a list and take them out again in the
  same order.\<close>

datatype 'v fifo_op = Enq 'v | Deq

fun run_fifo ::
  "('v \<Rightarrow> 's \<Rightarrow> 's option) \<Rightarrow> ('s \<Rightarrow> ('v option \<times> 's) option) \<Rightarrow> 'v fifo_op list \<Rightarrow> 's
    \<Rightarrow> ('v option list \<times> 's) option" where
  "run_fifo enq deq [] s = Some ([], s)"
| "run_fifo enq deq (Enq v # ops) s = do { s \<leftarrow> enq v s; run_fifo enq deq ops s }"
| "run_fifo enq deq (Deq # ops) s = do {
     (r, s) \<leftarrow> deq s;
     (rs, s) \<leftarrow> run_fifo enq deq ops s;
     Some (r # rs, s)
   }"

fun spec_fifo :: "'v fifo_op list \<Rightarrow> 'v list \<Rightarrow> 'v option list \<times> 'v list" where
  "spec_fifo [] vs = ([], vs)"
| "spec_fifo (Enq v # ops) vs = spec_fifo ops (vs @ [v])"
| "spec_fifo (Deq # ops) [] = (let (rs, vs') = spec_fifo ops [] in (None # rs, vs'))"
| "spec_fifo (Deq # ops) (v # vs) = (let (rs, vs') = spec_fifo ops vs in (Some v # rs, vs'))"

lemma spec_fifo_fill: "spec_fifo (map Enq ws @ ops) vs = spec_fifo ops (vs @ ws)"
  by (induction ws arbitrary: vs) simp_all

lemma spec_fifo_drain: "spec_fifo (replicate (length vs) Deq) vs = (map Some vs, [])"
  by (induction vs) simp_all

locale fifo =
  fixes contents :: "'s \<Rightarrow> 'v list \<Rightarrow> bool"
    and enq :: "'v \<Rightarrow> 's \<Rightarrow> 's option"
    and deq :: "'s \<Rightarrow> ('v option \<times> 's) option"
  assumes enq_law: "contents s vs \<Longrightarrow> \<exists>s'. enq v s = Some s' \<and> contents s' (vs @ [v])"
    and deq_empty: "contents s [] \<Longrightarrow> deq s = Some (None, s)"
    and deq_law: "contents s (v # vs) \<Longrightarrow> \<exists>s'. deq s = Some (Some v, s') \<and> contents s' vs"
begin

theorem run_fifo_refines:
  assumes "contents s vs"
  shows "\<exists>s'. run_fifo enq deq ops s = Some (fst (spec_fifo ops vs), s') \<and> contents s' (snd (spec_fifo ops vs))"
  using assms
proof (induction ops vs arbitrary: s rule: spec_fifo.induct)
  case (1 vs)
  then show ?case by auto
next
  case (2 v ops vs)
  obtain s1 where "enq v s = Some s1" "contents s1 (vs @ [v])" using enq_law [OF 2(2)] by blast
  then show ?case using "2.IH" by auto
next
  case (3 ops)
  obtain s1 where "run_fifo enq deq ops s = Some (fst (spec_fifo ops []), s1)"
    "contents s1 (snd (spec_fifo ops []))" using "3.IH" [OF 3(2)] by blast
  then show ?case using deq_empty [OF 3(2)] by (simp add: split_beta)
next
  case (4 ops v vs)
  obtain s1 where "deq s = Some (Some v, s1)" "contents s1 vs" using deq_law [OF 4(2)] by blast
  then show ?case using "4.IH" by (fastforce simp: split_beta)
qed

text \<open>Everything that is put in comes out in the same order.\<close>

lemma fill_and_drain:
  assumes "contents s []"
  shows "\<exists>s'. run_fifo enq deq (map Enq vs @ replicate (length vs) Deq) s = Some (map Some vs, s') \<and> contents s' []"
  using run_fifo_refines [OF assms, of "map Enq vs @ replicate (length vs) Deq"]
  by (simp add: spec_fifo_fill spec_fifo_drain)

end

end
