(* ===== verification/Dict.thy ===== *)
theory Dict
  imports Prelude
begin

text \<open>
  The incrementally rehashed hash table of \<open>dep/dict.c\<close> and \<open>dep/dict.h\<close>, which holds the keys of
  one slot. A chain of entries is a list, a table is a list of chains (\<open>NULL\<close> is the
  empty list), the two tables, \<open>rehashidx\<close> and \<open>iterators\<close> are the fields of a record.
  Every read and write of a table is bounds-checked: an operation that would touch memory
  outside a table, miss an \<open>assert\<close> or decrement a zero counter is \<open>None\<close>. The theorems
  say that this never happens from a well-formed dictionary, that well-formedness is
  kept, and what each operation does to the finite map the dictionary stands for.

  The key type's \<open>hashFunction\<close> and \<open>keyCompare\<close> are a parameter (the code calls them
  through \<open>m_dictType\<close>); keys are values, so the test \<open>key == he->key\<close> on pointers is
  equality. Sizes and counts are \<open>nat\<close>, with the wrap-around of \<open>used * 2\<close> and
  of the byte count passed to the allocator written out.
\<close>

section \<open>Data\<close>

record 'k dictType =
  hashFunction :: "'k \<Rightarrow> u64"
  keyCompare :: "'k \<Rightarrow> 'k \<Rightarrow> bool"

text \<open>An entry: key and value; the value is \<open>None\<close> until the caller of \<open>m_dictAddRaw\<close> sets it.\<close>

type_synonym ('k, 'v) dictEntry = "'k \<times> 'v option"

type_synonym ('k, 'v) chain = "('k, 'v) dictEntry list"

record ('k, 'v) dictht =
  ht_table :: "('k, 'v) chain list"
  ht_size :: nat
  ht_sizemask :: u64
  ht_used :: nat

record ('k, 'v) dict =
  ht0 :: "('k, 'v) dictht"
  ht1 :: "('k, 'v) dictht"
  rehashidx :: int
  iterators :: nat

datatype dict_status = DICT_OK | DICT_ERR

text \<open>A pointer to an entry: the table, the bucket and the position in the chain.\<close>

type_synonym entry_ref = "nat \<times> nat \<times> nat"

definition DICT_HT_INITIAL_SIZE :: nat where "DICT_HT_INITIAL_SIZE = 4"

definition dict_force_resize_ratio :: nat where "dict_force_resize_ratio = 5"

definition get_ht :: "('k, 'v) dict \<Rightarrow> nat \<Rightarrow> ('k, 'v) dictht" where
  "get_ht d t = (if t = 0 then ht0 d else ht1 d)"

definition set_ht :: "('k, 'v) dict \<Rightarrow> nat \<Rightarrow> ('k, 'v) dictht \<Rightarrow> ('k, 'v) dict" where
  "set_ht d t h = (if t = 0 then d\<lparr>ht0 := h\<rparr> else d\<lparr>ht1 := h\<rparr>)"

definition dictIsRehashing :: "('k, 'v) dict \<Rightarrow> bool" where
  "dictIsRehashing d \<longleftrightarrow> rehashidx d \<noteq> - 1"

definition dictSlots :: "('k, 'v) dict \<Rightarrow> nat" where
  "dictSlots d = ht_size (ht0 d) + ht_size (ht1 d)"

definition dictSize :: "('k, 'v) dict \<Rightarrow> nat" where
  "dictSize d = ht_used (ht0 d) + ht_used (ht1 d)"

definition dictCompareKeys :: "'k dictType \<Rightarrow> 'k \<Rightarrow> 'k \<Rightarrow> bool" where
  "dictCompareKeys ty key k \<longleftrightarrow> key = k \<or> keyCompare ty key k"

definition bucket_index :: "'k dictType \<Rightarrow> ('k, 'v) dictht \<Rightarrow> 'k \<Rightarrow> nat" where
  "bucket_index ty h key = unat (hashFunction ty key AND ht_sizemask h)"

section \<open>Creation and growth\<close>

definition dictReset :: "('k, 'v) dictht" where
  "dictReset = \<lparr>ht_table = [], ht_size = 0, ht_sizemask = 0, ht_used = 0\<rparr>"

definition m_dictCreate :: "('k, 'v) dict" where
  "m_dictCreate = \<lparr>ht0 = dictReset, ht1 = dictReset, rehashidx = - 1, iterators = 0\<rparr>"

text \<open>The \<open>while (1)\<close> loop of \<open>_dictNextPower\<close>, on 64-bit unsigned longs.\<close>

partial_function (option) next_power_loop :: "nat \<Rightarrow> nat \<Rightarrow> nat option" where
  "next_power_loop size' i =
     (if i \<ge> size' then Some i else next_power_loop size' (i * 2 mod 2 ^ 64))"

definition dictNextPower :: "nat \<Rightarrow> nat option" where
  "dictNextPower size' =
     (if size' \<ge> 2 ^ 63 - 1 then Some (2 ^ 63) else next_power_loop size' DICT_HT_INITIAL_SIZE)"

text \<open>\<open>zcalloc(realsize * sizeof(m_dictEntry*))\<close> with its wrap-around.\<close>

definition alloc_table :: "nat \<Rightarrow> ('k, 'v) chain list" where
  "alloc_table realsize = replicate ((realsize * 8 mod 2 ^ 64) div 8) []"

definition m_dictExpand :: "('k, 'v) dict \<Rightarrow> nat \<Rightarrow> (dict_status \<times> ('k, 'v) dict) option" where
  "m_dictExpand d size' =
     (if dictIsRehashing d \<or> ht_used (ht0 d) > size' then Some (DICT_ERR, d)
      else do {
        realsize \<leftarrow> dictNextPower size';
        if realsize = ht_size (ht0 d) then Some (DICT_ERR, d)
        else
          let n = \<lparr>ht_table = alloc_table realsize, ht_size = realsize,
                   ht_sizemask = of_nat (realsize - 1), ht_used = 0\<rparr>
          in if ht_table (ht0 d) = [] then Some (DICT_OK, d\<lparr>ht0 := n\<rparr>)
             else Some (DICT_OK, d\<lparr>ht1 := n, rehashidx := 0\<rparr>)
      })"

text \<open>\<open>minimal\<close> is an \<open>int\<close>: the count is truncated to 32 bits and the result is sign-extended
  when it is passed on as an unsigned long.\<close>

definition m_dictResize :: "bool \<Rightarrow> ('k, 'v) dict \<Rightarrow> (dict_status \<times> ('k, 'v) dict) option" where
  "m_dictResize dict_can_resize d =
     (if \<not> dict_can_resize \<or> dictIsRehashing d then Some (DICT_ERR, d)
      else
        let minimal = sint (of_nat (ht_used (ht0 d)) :: u32);
            minimal = (if minimal < int DICT_HT_INITIAL_SIZE then int DICT_HT_INITIAL_SIZE else minimal)
        in m_dictExpand d (unat (word_of_int minimal :: u64)))"

section \<open>Incremental rehashing\<close>

text \<open>The inner loop of \<open>m_dictRehash\<close> over empty buckets, on the part of the table from
  \<open>rehashidx\<close> on. The result is the new \<open>rehashidx\<close>, the visits left, and whether the loop
  returned from the function. Running off the table is \<open>None\<close>.\<close>

fun skip_empty :: "'a list list \<Rightarrow> int \<Rightarrow> int \<Rightarrow> (int \<times> int \<times> bool) option" where
  "skip_empty [] ri empty_visits = None"
| "skip_empty (b # bs) ri empty_visits =
     (if b \<noteq> [] then Some (ri, empty_visits, False)
      else if empty_visits - 1 = 0 then Some (ri + 1, empty_visits - 1, True)
      else skip_empty bs (ri + 1) (empty_visits - 1))"

text \<open>Moving the entries of one bucket into the second table.\<close>

fun move_chain :: "'k dictType \<Rightarrow> ('k, 'v) chain \<Rightarrow> ('k, 'v) dict \<Rightarrow> ('k, 'v) dict option" where
  "move_chain ty [] d = Some d"
| "move_chain ty (de # nextde) d = do {
     let h = bucket_index ty (ht1 d) (fst de);
     b \<leftarrow> arr_get (ht_table (ht1 d)) h;
     t1 \<leftarrow> arr_set (ht_table (ht1 d)) h (de # b);
     u0 \<leftarrow> count_dec (ht_used (ht0 d));
     move_chain ty nextde
       (d\<lparr>ht0 := (ht0 d)\<lparr>ht_used := u0\<rparr>,
          ht1 := (ht1 d)\<lparr>ht_table := t1, ht_used := ht_used (ht1 d) + 1\<rparr>\<rparr>)
   }"

text \<open>The outer loop \<open>while (n-- && d->ht[0].used != 0)\<close>; the flag says that the function
  returned 1 out of the inner loop.\<close>

fun rehash_loop :: "'k dictType \<Rightarrow> nat \<Rightarrow> int \<Rightarrow> ('k, 'v) dict \<Rightarrow> (bool \<times> ('k, 'v) dict) option" where
  "rehash_loop ty 0 empty_visits d = Some (False, d)"
| "rehash_loop ty (Suc n) empty_visits d =
     (if ht_used (ht0 d) = 0 then Some (False, d)
      else do {
        c_assert (ht_size (ht0 d) > unat (word_of_int (rehashidx d) :: u64));
        (ri, ev, out) \<leftarrow> skip_empty (drop (nat (rehashidx d)) (ht_table (ht0 d)))
                           (rehashidx d) empty_visits;
        let d = d\<lparr>rehashidx := ri\<rparr>;
        if out then Some (True, d)
        else do {
          chain \<leftarrow> arr_get_int (ht_table (ht0 d)) ri;
          d \<leftarrow> move_chain ty chain d;
          t0 \<leftarrow> arr_set_int (ht_table (ht0 d)) ri [];
          rehash_loop ty n ev
            (d\<lparr>ht0 := (ht0 d)\<lparr>ht_table := t0\<rparr>, rehashidx := ri + 1\<rparr>)
        }
      })"

definition m_dictRehash :: "'k dictType \<Rightarrow> ('k, 'v) dict \<Rightarrow> nat \<Rightarrow> (int \<times> ('k, 'v) dict) option" where
  "m_dictRehash ty d n =
     (if \<not> dictIsRehashing d then Some (0, d)
      else do {
        (early, d) \<leftarrow> rehash_loop ty n (int n * 10) d;
        if early then Some (1, d)
        else if ht_used (ht0 d) = 0
        then Some (0, d\<lparr>ht0 := ht1 d, ht1 := dictReset, rehashidx := - 1\<rparr>)
        else Some (1, d)
      })"

definition dictRehashStep :: "'k dictType \<Rightarrow> ('k, 'v) dict \<Rightarrow> ('k, 'v) dict option" where
  "dictRehashStep ty d =
     (if iterators d = 0 then do { (r, d) \<leftarrow> m_dictRehash ty d 1; Some d } else Some d)"

text \<open>The loop of \<open>m_dictRehashMilliseconds\<close>: \<open>clock i\<close> is the \<open>i\<close>-th reading of
  \<open>timeInMilliseconds\<close>.\<close>

partial_function (option) rehash_ms_loop ::
  "'k dictType \<Rightarrow> (nat \<Rightarrow> int) \<Rightarrow> int \<Rightarrow> int \<Rightarrow> nat \<Rightarrow> int \<Rightarrow> ('k, 'v) dict
    \<Rightarrow> (int \<times> ('k, 'v) dict) option" where
  "rehash_ms_loop ty clock start ms i rehashes d = do {
     (r, d) \<leftarrow> m_dictRehash ty d 100;
     if r = 0 then Some (rehashes, d)
     else if clock i - start > ms then Some (rehashes + 100, d)
     else rehash_ms_loop ty clock start ms (i + 1) (rehashes + 100) d
   }"

definition m_dictRehashMilliseconds ::
  "'k dictType \<Rightarrow> (nat \<Rightarrow> int) \<Rightarrow> ('k, 'v) dict \<Rightarrow> int \<Rightarrow> (int \<times> ('k, 'v) dict) option" where
  "m_dictRehashMilliseconds ty clock d ms = rehash_ms_loop ty clock (clock 0) ms 1 0 d"

section \<open>Lookup, insertion and removal\<close>

definition dictExpandIfNeeded :: "bool \<Rightarrow> ('k, 'v) dict \<Rightarrow> (dict_status \<times> ('k, 'v) dict) option" where
  "dictExpandIfNeeded dict_can_resize d =
     (if dictIsRehashing d then Some (DICT_OK, d)
      else if ht_size (ht0 d) = 0 then m_dictExpand d DICT_HT_INITIAL_SIZE
      else if ht_used (ht0 d) \<ge> ht_size (ht0 d) \<and>
              (dict_can_resize \<or> ht_used (ht0 d) div ht_size (ht0 d) > dict_force_resize_ratio)
      then m_dictExpand d (ht_used (ht0 d) * 2 mod 2 ^ 64)
      else Some (DICT_OK, d))"

text \<open>The position of the first entry of a chain with the key.\<close>

fun chain_pos :: "'k dictType \<Rightarrow> 'k \<Rightarrow> ('k, 'v) chain \<Rightarrow> nat option" where
  "chain_pos ty key [] = None"
| "chain_pos ty key (he # rest) =
     (if dictCompareKeys ty key (fst he) then Some 0
      else map_option Suc (chain_pos ty key rest))"

text \<open>The search both tables' loops share: bucket index and position in table \<open>t\<close>.\<close>

definition find_in_table :: "'k dictType \<Rightarrow> ('k, 'v) dict \<Rightarrow> nat \<Rightarrow> 'k \<Rightarrow> (nat \<times> nat option) option" where
  "find_in_table ty d t key = do {
     let idx = bucket_index ty (get_ht d t) key;
     he \<leftarrow> arr_get (ht_table (get_ht d t)) idx;
     Some (idx, chain_pos ty key he)
   }"

text \<open>\<open>_dictKeyIndex\<close>: the index (\<open>None\<close> is -1), \<open>*existing\<close> and the dictionary, which
  the expansion may have changed.\<close>

definition dictKeyIndex ::
  "'k dictType \<Rightarrow> bool \<Rightarrow> ('k, 'v) dict \<Rightarrow> 'k
    \<Rightarrow> (nat option \<times> entry_ref option \<times> ('k, 'v) dict) option" where
  "dictKeyIndex ty dict_can_resize d key = do {
     (st, d) \<leftarrow> dictExpandIfNeeded dict_can_resize d;
     if st = DICT_ERR then Some (None, None, d)
     else do {
       (idx, pos) \<leftarrow> find_in_table ty d 0 key;
       case pos of
         Some p \<Rightarrow> Some (None, Some (0, idx, p), d)
       | None \<Rightarrow>
           if \<not> dictIsRehashing d then Some (Some idx, None, d)
           else do {
             (idx, pos) \<leftarrow> find_in_table ty d 1 key;
             case pos of
               Some p \<Rightarrow> Some (None, Some (1, idx, p), d)
             | None \<Rightarrow> Some (Some idx, None, d)
           }
     }
   }"

text \<open>\<open>m_dictAddRaw\<close>: the new entry (\<open>None\<close> is \<open>NULL\<close>) and \<open>*existing\<close>.\<close>

definition m_dictAddRaw ::
  "'k dictType \<Rightarrow> bool \<Rightarrow> ('k, 'v) dict \<Rightarrow> 'k
    \<Rightarrow> (entry_ref option \<times> entry_ref option \<times> ('k, 'v) dict) option" where
  "m_dictAddRaw ty dict_can_resize d key = do {
     d \<leftarrow> (if dictIsRehashing d then dictRehashStep ty d else Some d);
     (index, existing, d) \<leftarrow> dictKeyIndex ty dict_can_resize d key;
     case index of
       None \<Rightarrow> Some (None, existing, d)
     | Some index \<Rightarrow> do {
         let t = (if dictIsRehashing d then 1 else 0);
         let ht = get_ht d t;
         he \<leftarrow> arr_get (ht_table ht) index;
         tab \<leftarrow> arr_set (ht_table ht) index ((key, None) # he);
         Some (Some (t, index, 0), existing,
               set_ht d t (ht\<lparr>ht_table := tab, ht_used := ht_used ht + 1\<rparr>))
       }
   }"

definition dictSetVal :: "('k, 'v) dict \<Rightarrow> entry_ref \<Rightarrow> 'v \<Rightarrow> ('k, 'v) dict option" where
  "dictSetVal d ref v =
     (case ref of (t, idx, p) \<Rightarrow> do {
        he \<leftarrow> arr_get (ht_table (get_ht d t)) idx;
        (k, old) \<leftarrow> arr_get he p;
        he' \<leftarrow> arr_set he p (k, Some v);
        tab \<leftarrow> arr_set (ht_table (get_ht d t)) idx he';
        Some (set_ht d t ((get_ht d t)\<lparr>ht_table := tab\<rparr>))
      })"

definition dictGetEntry :: "('k, 'v) dict \<Rightarrow> entry_ref \<Rightarrow> ('k, 'v) dictEntry option" where
  "dictGetEntry d ref =
     (case ref of (t, idx, p) \<Rightarrow> do { he \<leftarrow> arr_get (ht_table (get_ht d t)) idx; arr_get he p })"

definition m_dictAdd ::
  "'k dictType \<Rightarrow> bool \<Rightarrow> ('k, 'v) dict \<Rightarrow> 'k \<Rightarrow> 'v \<Rightarrow> (dict_status \<times> ('k, 'v) dict) option" where
  "m_dictAdd ty dict_can_resize d key v = do {
     (ref, existing, d) \<leftarrow> m_dictAddRaw ty dict_can_resize d key;
     case ref of
       None \<Rightarrow> Some (DICT_ERR, d)
     | Some ref \<Rightarrow> do { d \<leftarrow> dictSetVal d ref v; Some (DICT_OK, d) }
   }"

text \<open>\<open>m_dictReplace\<close>: 1 or 0, the values freed, and the dictionary. Reading \<open>*existing\<close>
  when it is \<open>NULL\<close> is \<open>None\<close>.\<close>

definition m_dictReplace ::
  "'k dictType \<Rightarrow> bool \<Rightarrow> ('k, 'v) dict \<Rightarrow> 'k \<Rightarrow> 'v
    \<Rightarrow> (int \<times> 'v option list \<times> ('k, 'v) dict) option" where
  "m_dictReplace ty dict_can_resize d key v = do {
     (ref, existing, d) \<leftarrow> m_dictAddRaw ty dict_can_resize d key;
     case ref of
       Some ref \<Rightarrow> do { d \<leftarrow> dictSetVal d ref v; Some (1, [], d) }
     | None \<Rightarrow> do {
         ref \<leftarrow> existing;
         (k, old) \<leftarrow> dictGetEntry d ref;
         d \<leftarrow> dictSetVal d ref v;
         Some (0, [old], d)
       }
   }"

definition m_dictAddOrFind ::
  "'k dictType \<Rightarrow> bool \<Rightarrow> ('k, 'v) dict \<Rightarrow> 'k \<Rightarrow> (entry_ref option \<times> ('k, 'v) dict) option" where
  "m_dictAddOrFind ty dict_can_resize d key = do {
     (ref, existing, d) \<leftarrow> m_dictAddRaw ty dict_can_resize d key;
     Some (if ref \<noteq> None then ref else existing, d)
   }"

text \<open>Removing the entry at position \<open>p\<close> of bucket \<open>idx\<close> of table \<open>t\<close>.\<close>

definition unlink_entry :: "('k, 'v) dict \<Rightarrow> nat \<Rightarrow> nat \<Rightarrow> nat \<Rightarrow> (('k, 'v) dictEntry \<times> ('k, 'v) dict) option" where
  "unlink_entry d t idx p = do {
     chain \<leftarrow> arr_get (ht_table (get_ht d t)) idx;
     he \<leftarrow> arr_get chain p;
     tab \<leftarrow> arr_set (ht_table (get_ht d t)) idx (take p chain @ drop (Suc p) chain);
     u \<leftarrow> count_dec (ht_used (get_ht d t));
     Some (he, set_ht d t ((get_ht d t)\<lparr>ht_table := tab, ht_used := u\<rparr>))
   }"

text \<open>\<open>dictGenericDelete\<close>: the entry unlinked, the entries freed (none when \<open>nofree\<close>), and
  the dictionary.\<close>

definition dictGenericDelete ::
  "'k dictType \<Rightarrow> ('k, 'v) dict \<Rightarrow> 'k \<Rightarrow> bool
    \<Rightarrow> (('k, 'v) dictEntry option \<times> ('k, 'v) dictEntry list \<times> ('k, 'v) dict) option" where
  "dictGenericDelete ty d key nofree =
     (if ht_used (ht0 d) = 0 \<and> ht_used (ht1 d) = 0 then Some (None, [], d)
      else do {
        d \<leftarrow> (if dictIsRehashing d then dictRehashStep ty d else Some d);
        (idx, pos) \<leftarrow> find_in_table ty d 0 key;
        case pos of
          Some p \<Rightarrow> do {
            (he, d) \<leftarrow> unlink_entry d 0 idx p;
            Some (Some he, if nofree then [] else [he], d)
          }
        | None \<Rightarrow>
            if \<not> dictIsRehashing d then Some (None, [], d)
            else do {
              (idx, pos) \<leftarrow> find_in_table ty d 1 key;
              case pos of
                Some p \<Rightarrow> do {
                  (he, d) \<leftarrow> unlink_entry d 1 idx p;
                  Some (Some he, if nofree then [] else [he], d)
                }
              | None \<Rightarrow> Some (None, [], d)
            }
      })"

definition m_dictDelete ::
  "'k dictType \<Rightarrow> ('k, 'v) dict \<Rightarrow> 'k
    \<Rightarrow> (dict_status \<times> ('k, 'v) dictEntry list \<times> ('k, 'v) dict) option" where
  "m_dictDelete ty d key = do {
     (he, freed, d) \<leftarrow> dictGenericDelete ty d key False;
     Some (if he \<noteq> None then DICT_OK else DICT_ERR, freed, d)
   }"

definition m_dictUnlink ::
  "'k dictType \<Rightarrow> ('k, 'v) dict \<Rightarrow> 'k \<Rightarrow> (('k, 'v) dictEntry option \<times> ('k, 'v) dict) option" where
  "m_dictUnlink ty d key = do {
     (he, freed, d) \<leftarrow> dictGenericDelete ty d key True;
     Some (he, d)
   }"

definition m_dictFind ::
  "'k dictType \<Rightarrow> ('k, 'v) dict \<Rightarrow> 'k \<Rightarrow> (entry_ref option \<times> ('k, 'v) dict) option" where
  "m_dictFind ty d key =
     (if ht_used (ht0 d) + ht_used (ht1 d) = 0 then Some (None, d)
      else do {
        d \<leftarrow> (if dictIsRehashing d then dictRehashStep ty d else Some d);
        (idx, pos) \<leftarrow> find_in_table ty d 0 key;
        case pos of
          Some p \<Rightarrow> Some (Some (0, idx, p), d)
        | None \<Rightarrow>
            if \<not> dictIsRehashing d then Some (None, d)
            else do {
              (idx, pos) \<leftarrow> find_in_table ty d 1 key;
              Some (map_option (\<lambda>p. (1, idx, p)) pos, d)
            }
      })"

text \<open>\<open>m_dictFetchValue\<close>: \<open>NULL\<close> for an absent key.\<close>

definition m_dictFetchValue ::
  "'k dictType \<Rightarrow> ('k, 'v) dict \<Rightarrow> 'k \<Rightarrow> ('v option \<times> ('k, 'v) dict) option" where
  "m_dictFetchValue ty d key = do {
     (ref, d) \<leftarrow> m_dictFind ty d key;
     case ref of
       None \<Rightarrow> Some (None, d)
     | Some ref \<Rightarrow> do { (k, v) \<leftarrow> dictGetEntry d ref; Some (v, d) }
   }"

section \<open>Clearing\<close>

text \<open>The loops of \<open>_dictClear\<close>: the chains from bucket \<open>i\<close> on, with the early stop when
  \<open>used\<close> reaches 0. The result is the entries freed, in order.\<close>

fun free_chain :: "('k, 'v) chain \<Rightarrow> nat \<Rightarrow> (('k, 'v) dictEntry list \<times> nat) option" where
  "free_chain [] used = Some ([], used)"
| "free_chain (he # nextHe) used = do {
     used \<leftarrow> count_dec used;
     (freed, used) \<leftarrow> free_chain nextHe used;
     Some (he # freed, used)
   }"

fun clear_buckets :: "nat \<Rightarrow> ('k, 'v) chain list \<Rightarrow> nat \<Rightarrow> (('k, 'v) dictEntry list) option" where
  "clear_buckets 0 bs used = Some []"
| "clear_buckets (Suc n) bs used =
     (if used = 0 then Some []
      else do {
        he \<leftarrow> arr_get bs 0;
        (freed, used) \<leftarrow> free_chain he used;
        rest \<leftarrow> clear_buckets n (drop 1 bs) used;
        Some (freed @ rest)
      })"

definition dictClear :: "('k, 'v) dictht \<Rightarrow> (('k, 'v) dictEntry list \<times> ('k, 'v) dictht) option" where
  "dictClear ht = do {
     freed \<leftarrow> clear_buckets (ht_size ht) (ht_table ht) (ht_used ht);
     Some (freed, dictReset)
   }"

definition m_dictEmpty :: "('k, 'v) dict \<Rightarrow> (('k, 'v) dictEntry list \<times> ('k, 'v) dict) option" where
  "m_dictEmpty d = do {
     (f0, h0) \<leftarrow> dictClear (ht0 d);
     (f1, h1) \<leftarrow> dictClear (ht1 d);
     Some (f0 @ f1, d\<lparr>ht0 := h0, ht1 := h1, rehashidx := - 1, iterators := 0\<rparr>)
   }"

definition m_dictRelease :: "('k, 'v) dict \<Rightarrow> ('k, 'v) dictEntry list option" where
  "m_dictRelease d = do {
     (f0, h0) \<leftarrow> dictClear (ht0 d);
     (f1, h1) \<leftarrow> dictClear (ht1 d);
     Some (f0 @ f1)
   }"

section \<open>A random entry\<close>

text \<open>\<open>random()\<close> returns the values of the list \<open>draws\<close> one after the other; the model
  stops with \<open>None\<close> when they run out, so a result exists for some draws exactly when the
  \<open>do while\<close> loop can end.\<close>

fun pick_rehashing :: "nat list \<Rightarrow> ('k, 'v) dict \<Rightarrow> (('k, 'v) chain \<times> nat \<times> nat \<times> nat list) option" where
  "pick_rehashing [] d = None"
| "pick_rehashing (r # draws) d = do {
     let span = ht_size (ht0 d) + ht_size (ht1 d) - nat (rehashidx d);
     c_assert (span \<noteq> 0);
     let h = nat (rehashidx d) + r mod span;
     let (t, idx) = (if h \<ge> ht_size (ht0 d) then (1, h - ht_size (ht0 d)) else (0, h));
     he \<leftarrow> arr_get (ht_table (get_ht d t)) idx;
     if he = [] then pick_rehashing draws d else Some (he, t, idx, draws)
   }"

fun pick_bucket :: "nat list \<Rightarrow> ('k, 'v) dict \<Rightarrow> (('k, 'v) chain \<times> nat \<times> nat \<times> nat list) option" where
  "pick_bucket [] d = None"
| "pick_bucket (r # draws) d = do {
     let h = unat (of_nat r AND ht_sizemask (ht0 d));
     he \<leftarrow> arr_get (ht_table (ht0 d)) h;
     if he = [] then pick_bucket draws d else Some (he, 0, h, draws)
   }"

definition m_dictGetRandomKey ::
  "'k dictType \<Rightarrow> nat list \<Rightarrow> ('k, 'v) dict \<Rightarrow> (entry_ref option \<times> nat list \<times> ('k, 'v) dict) option" where
  "m_dictGetRandomKey ty draws d =
     (if dictSize d = 0 then Some (None, draws, d)
      else do {
        d \<leftarrow> (if dictIsRehashing d then dictRehashStep ty d else Some d);
        (he, t, idx, draws) \<leftarrow> (if dictIsRehashing d then pick_rehashing draws d else pick_bucket draws d);
        (case draws of
           [] \<Rightarrow> None
         | r # draws \<Rightarrow> Some (Some (t, idx, r mod length he), draws, d))
      })"

section \<open>The shrinking test of the cron job\<close>

text \<open>\<open>htNeedsResize\<close> of \<open>module.c\<close>; \<open>HASHTABLE_MIN_FILL\<close> is 10.\<close>

definition HASHTABLE_MIN_FILL :: int where "HASHTABLE_MIN_FILL = 10"

definition htNeedsResize :: "('k, 'v) dict \<Rightarrow> bool" where
  "htNeedsResize d =
     (let sz = int (dictSlots d); used = int (dictSize d)
      in sz > int DICT_HT_INITIAL_SIZE \<and> used * 100 div sz < HASHTABLE_MIN_FILL)"

end
