(* ===== verification/DictInv.thy ===== *)
theory DictInv
  imports Dict
begin

text \<open>
  The invariant of the dictionary of \<open>Dict\<close>, the finite map it stands for, and the proofs
  that every operation returns, keeps the invariant and does to the map what its name says.
\<close>

section \<open>The invariant\<close>

definition ht_entries :: "('k, 'v) dictht \<Rightarrow> ('k, 'v) dictEntry list" where
  "ht_entries h = concat (ht_table h)"

definition dict_entries :: "('k, 'v) dict \<Rightarrow> ('k, 'v) dictEntry list" where
  "dict_entries d = ht_entries (ht0 d) @ ht_entries (ht1 d)"

text \<open>The sizes the code produces: powers of two from the initial size on; the upper end is
  where the allocation size would wrap around.\<close>

definition table_size :: "nat \<Rightarrow> bool" where
  "table_size n \<longleftrightarrow> n \<in> (\<lambda>k. 2 ^ k) ` {2..60}"

definition ht_valid :: "'k dictType \<Rightarrow> ('k, 'v) dictht \<Rightarrow> bool" where
  "ht_valid ty h \<longleftrightarrow>
     length (ht_table h) = ht_size h \<and>
     ht_used h = length (ht_entries h) \<and>
     (if ht_size h = 0 then ht_sizemask h = 0
      else table_size (ht_size h) \<and> ht_sizemask h = of_nat (ht_size h - 1)) \<and>
     (\<forall>i<ht_size h. \<forall>e\<in>set (ht_table h ! i). unat (hashFunction ty (fst e)) mod ht_size h = i)"

definition dict_inv :: "'k dictType \<Rightarrow> ('k, 'v) dict \<Rightarrow> bool" where
  "dict_inv ty d \<longleftrightarrow>
     ht_valid ty (ht0 d) \<and> ht_valid ty (ht1 d) \<and> distinct (map fst (dict_entries d)) \<and>
     (if dictIsRehashing d
      then 0 \<le> rehashidx d \<and> rehashidx d \<le> int (ht_size (ht0 d)) \<and>
           ht_size (ht0 d) \<noteq> 0 \<and> ht_size (ht1 d) \<noteq> 0 \<and>
           (\<forall>i<nat (rehashidx d). ht_table (ht0 d) ! i = [])
      else ht1 d = dictReset)"

text \<open>The finite map: the value is \<open>None\<close> while it has not been set.\<close>

definition dict_map :: "('k, 'v) dict \<Rightarrow> 'k \<rightharpoonup> 'v option" where
  "dict_map d = map_of (dict_entries d)"

definition type_ok :: "'k dictType \<Rightarrow> bool" where
  "type_ok ty \<longleftrightarrow> (\<forall>a b. keyCompare ty a b \<longleftrightarrow> a = b)"

text \<open>A dictionary this large cannot be allocated: each entry takes 24 bytes of a 64-bit
  address space. It keeps the table's byte count below the wrap-around.\<close>

definition dict_room :: "('k, 'v) dict \<Rightarrow> bool" where
  "dict_room d \<longleftrightarrow> dictSize d < 2 ^ 59"

lemma dictCompareKeys_eq: "type_ok ty \<Longrightarrow> dictCompareKeys ty a b \<longleftrightarrow> a = b"
  by (auto simp: type_ok_def dictCompareKeys_def)

lemma table_sizeE:
  assumes "table_size n"
  obtains k where "2 \<le> k" "k \<le> 60" "n = 2 ^ k"
  using assms by (auto simp: table_size_def)

lemma table_size_bounds: "table_size n \<Longrightarrow> 4 \<le> n \<and> n \<le> 2 ^ 60"
proof (erule table_sizeE)
  fix k :: nat assume k: "2 \<le> k" "k \<le> 60" "n = 2 ^ k"
  have "(2 :: nat) ^ 2 \<le> 2 ^ k" "(2 :: nat) ^ k \<le> 2 ^ 60"
    using k by (simp_all only: power_increasing one_le_numeral)
  with k show "4 \<le> n \<and> n \<le> 2 ^ 60" by simp
qed

lemma ht_validD:
  assumes "ht_valid ty h"
  shows "length (ht_table h) = ht_size h" and "ht_used h = length (ht_entries h)"
    and "ht_size h \<noteq> 0 \<Longrightarrow> table_size (ht_size h)"
    and "i < ht_size h \<Longrightarrow> e \<in> set (ht_table h ! i) \<Longrightarrow> unat (hashFunction ty (fst e)) mod ht_size h = i"
  using assms by (auto simp: ht_valid_def split: if_splits)

lemma bucket_index_eq:
  assumes "ht_valid ty h" and "ht_size h \<noteq> 0"
  shows "bucket_index ty h key = unat (hashFunction ty key) mod ht_size h"
proof -
  from assms obtain k where k: "k \<le> 60" "ht_size h = 2 ^ k"
    by (auto dest!: ht_validD(3) elim: table_sizeE)
  moreover have "ht_sizemask h = of_nat (ht_size h - 1)"
    using assms by (simp add: ht_valid_def)
  ultimately show ?thesis
    using unat_and_low_mask [of k "hashFunction ty key"] by (simp add: bucket_index_def)
qed

lemma bucket_index_less:
  "ht_valid ty h \<Longrightarrow> ht_size h \<noteq> 0 \<Longrightarrow> bucket_index ty h key < ht_size h"
  by (simp add: bucket_index_eq)

lemma ht_valid_reset [simp]: "ht_valid ty dictReset"
  by (simp add: ht_valid_def dictReset_def ht_entries_def)

lemma ht_entries_reset [simp]: "ht_entries dictReset = []"
  by (simp add: ht_entries_def dictReset_def)

lemma dict_size_entries:
  "dict_inv ty d \<Longrightarrow> dictSize d = length (dict_entries d)"
  unfolding dict_inv_def dictSize_def dict_entries_def length_append by (metis ht_validD(2))

section \<open>Changing one bucket\<close>

lemma ht_valid_set_bucket:
  assumes h: "ht_valid ty h" and i: "i < ht_size h"
    and c: "\<And>e. e \<in> set c \<Longrightarrow> unat (hashFunction ty (fst e)) mod ht_size h = i"
    and u: "u + length (ht_table h ! i) = ht_used h + length c"
  shows "ht_valid ty (h\<lparr>ht_table := (ht_table h)[i := c], ht_used := u\<rparr>)"
proof -
  have "u = length (concat ((ht_table h)[i := c]))"
    using length_concat_update [of i "ht_table h" c] u i h
    by (simp add: ht_valid_def ht_entries_def)
  then show ?thesis
    using h i c by (auto simp: ht_valid_def ht_entries_def nth_list_update)
qed

lemma ht_insert_entry:
  assumes h: "ht_valid ty h" and s: "ht_size h \<noteq> 0"
    and i: "i = bucket_index ty h (fst e)"
  defines "h' \<equiv> h\<lparr>ht_table := (ht_table h)[i := e # ht_table h ! i], ht_used := ht_used h + 1\<rparr>"
  shows "ht_valid ty h'" and "mset (ht_entries h') = add_mset e (mset (ht_entries h))"
proof -
  have il: "i < ht_size h" using bucket_index_less [OF h s] i by simp
  show "ht_valid ty h'"
    unfolding h'_def
    by (rule ht_valid_set_bucket [OF h il])
      (use ht_validD(4) [OF h il] bucket_index_eq [OF h s] i in auto)
  show "mset (ht_entries h') = add_mset e (mset (ht_entries h))"
    using mset_concat_update [of i "ht_table h" "e # ht_table h ! i"] il ht_validD(1) [OF h]
    by (simp add: h'_def ht_entries_def)
qed

lemma ht_remove_entry:
  assumes h: "ht_valid ty h" and i: "i < ht_size h" and p: "p < length (ht_table h ! i)"
  defines "c \<equiv> take p (ht_table h ! i) @ drop (Suc p) (ht_table h ! i)"
  defines "h' \<equiv> h\<lparr>ht_table := (ht_table h)[i := c], ht_used := ht_used h - 1\<rparr>"
  shows "ht_valid ty h'"
    and "mset (ht_entries h) = add_mset (ht_table h ! i ! p) (mset (ht_entries h'))"
    and "ht_used h \<noteq> 0"
proof -
  let ?b = "ht_table h ! i"
  have b: "?b = take p ?b @ ?b ! p # drop (Suc p) ?b" using p by (rule id_take_nth_drop)
  have mb: "mset ?b = add_mset (?b ! p) (mset c)"
    by (subst b) (simp add: c_def)
  have lb: "length ?b = Suc (length c)" using mb by (metis size_mset size_add_mset)
  have len: "i < length (ht_table h)" using i ht_validD(1) [OF h] by simp
  have "length ?b \<le> ht_used h"
    using nth_le_length_concat [OF len] ht_validD(2) [OF h] by (simp add: ht_entries_def)
  then show u: "ht_used h \<noteq> 0" using lb by simp
  have "set c \<subseteq> set ?b" using set_take_subset set_drop_subset by (fastforce simp: c_def)
  then show "ht_valid ty h'"
    unfolding h'_def
    by (intro ht_valid_set_bucket [OF h i]) (use u lb ht_validD(4) [OF h i] in auto)
  show "mset (ht_entries h) = add_mset (?b ! p) (mset (ht_entries h'))"
    using mset_concat_update [OF len, of c] mb by (simp add: h'_def ht_entries_def)
qed

section \<open>Rehashing\<close>

lemma skip_empty_spec:
  assumes "concat bs \<noteq> []"
  shows "\<exists>j ev' out. skip_empty bs ri ev = Some (ri + int j, ev', out) \<and> j < length bs \<and>
    (\<forall>i<j. bs ! i = []) \<and> (if out then 0 < j else bs ! j \<noteq> [])"
  using assms
proof (induction bs ri ev rule: skip_empty.induct)
  case (2 b bs ri ev)
  show ?case
  proof (cases "b = []")
    case False
    then show ?thesis by (intro exI [of _ 0] exI [of _ ev] exI [of _ False]) simp
  next
    case True
    with "2.prems" have ne: "concat bs \<noteq> []" by simp
    then have "bs \<noteq> []" by auto
    show ?thesis
    proof (cases "ev - 1 = 0")
      case True
      with \<open>b = []\<close> \<open>bs \<noteq> []\<close> show ?thesis
        by (intro exI [of _ 1] exI [of _ 0] exI [of _ True]) simp
    next
      case False
      from "2.IH" [OF _ this ne] \<open>b = []\<close> obtain j ev' out where
        "skip_empty bs (ri + 1) (ev - 1) = Some (ri + 1 + int j, ev', out)" "j < length bs"
        "\<forall>i<j. bs ! i = []" "if out then 0 < j else bs ! j \<noteq> []" by auto
      with False \<open>b = []\<close> show ?thesis
        by (intro exI [of _ "Suc j"] exI [of _ ev'] exI [of _ out])
          (auto simp: nth_Cons' algebra_simps split: if_splits)
    qed
  qed
qed simp

text \<open>Moving a chain changes only the second table and the two counters.\<close>

lemma move_chain_spec:
  assumes "ht_valid ty (ht1 d)" and "ht_size (ht1 d) \<noteq> 0" and "length chain \<le> ht_used (ht0 d)"
  shows "\<exists>h1. move_chain ty chain d =
      Some (d\<lparr>ht0 := (ht0 d)\<lparr>ht_used := ht_used (ht0 d) - length chain\<rparr>, ht1 := h1\<rparr>) \<and>
    ht_valid ty h1 \<and> ht_size h1 = ht_size (ht1 d) \<and>
    mset (ht_entries h1) = mset chain + mset (ht_entries (ht1 d))"
  using assms
proof (induction chain arbitrary: d)
  case Nil
  then show ?case by (intro exI [of _ "ht1 d"]) simp
next
  case (Cons e chain)
  let ?h = "ht1 d"
  let ?i = "bucket_index ty ?h (fst e)"
  let ?h' = "?h\<lparr>ht_table := (ht_table ?h)[?i := e # ht_table ?h ! ?i], ht_used := ht_used ?h + 1\<rparr>"
  let ?d = "d\<lparr>ht0 := (ht0 d)\<lparr>ht_used := ht_used (ht0 d) - 1\<rparr>, ht1 := ?h'\<rparr>"
  have il: "?i < length (ht_table ?h)"
    using bucket_index_less [OF Cons.prems(1,2)] ht_validD(1) [OF Cons.prems(1)] by simp
  have used: "ht_used (ht0 d) \<noteq> 0" using Cons.prems(3) by simp
  note ins = ht_insert_entry [OF Cons.prems(1,2) refl, of e]
  have "move_chain ty (e # chain) d = move_chain ty chain ?d"
    using il used by (simp add: arr_simps count_dec_def Let_def)
  moreover have "\<exists>h1. move_chain ty chain ?d =
      Some (?d\<lparr>ht0 := (ht0 ?d)\<lparr>ht_used := ht_used (ht0 ?d) - length chain\<rparr>, ht1 := h1\<rparr>) \<and>
    ht_valid ty h1 \<and> ht_size h1 = ht_size (ht1 ?d) \<and>
    mset (ht_entries h1) = mset chain + mset (ht_entries (ht1 ?d))"
    by (rule Cons.IH) (use ins(1) Cons.prems in \<open>simp_all\<close>)
  ultimately show ?case using ins(2) by auto
qed

text \<open>One round of the loop: what holds of the dictionary before and after.\<close>

definition rehash_ok :: "'k dictType \<Rightarrow> ('k, 'v) dict \<Rightarrow> ('k, 'v) dict \<Rightarrow> bool" where
  "rehash_ok ty d d' \<longleftrightarrow>
     dict_inv ty d' \<and> dictIsRehashing d' \<and> mset (dict_entries d') = mset (dict_entries d) \<and>
     iterators d' = iterators d \<and> ht_size (ht0 d') = ht_size (ht0 d) \<and> rehashidx d \<le> rehashidx d'"

lemma rehash_okI_entries:
  assumes "mset (dict_entries d') = mset (dict_entries d)"
  shows "distinct (map fst (dict_entries d')) \<longleftrightarrow> distinct (map fst (dict_entries d))"
  using assms by (metis mset_map mset_eq_imp_distinct_iff)

lemma dict_inv_rehashingD:
  assumes "dict_inv ty d" and "dictIsRehashing d"
  shows "ht_valid ty (ht0 d)" "ht_valid ty (ht1 d)" "distinct (map fst (dict_entries d))"
    "0 \<le> rehashidx d" "rehashidx d \<le> int (ht_size (ht0 d))" "ht_size (ht0 d) \<noteq> 0"
    "ht_size (ht1 d) \<noteq> 0" "\<And>i. i < nat (rehashidx d) \<Longrightarrow> ht_table (ht0 d) ! i = []"
  using assms by (auto simp: dict_inv_def)

lemma concat_drop_empty:
  "\<forall>i<n. t ! i = [] \<Longrightarrow> n \<le> length t \<Longrightarrow> concat (drop n t) = concat t"
proof (induction n arbitrary: t)
  case (Suc n)
  then obtain b t' where "t = b # t'" by (cases t) auto
  with Suc.prems Suc.IH [of t'] show ?case by fastforce
qed simp

lemma rehash_skip:
  assumes d: "dict_inv ty d" "dictIsRehashing d" and used: "ht_used (ht0 d) \<noteq> 0"
  shows "\<exists>ri ev' out. skip_empty (drop (nat (rehashidx d)) (ht_table (ht0 d))) (rehashidx d) ev =
      Some (ri, ev', out) \<and> rehashidx d \<le> ri \<and> ri < int (ht_size (ht0 d)) \<and>
    (\<forall>i<nat ri. ht_table (ht0 d) ! i = []) \<and> (if out then rehashidx d < ri else True) \<and>
    dict_inv ty (d\<lparr>rehashidx := ri\<rparr>)"
proof -
  let ?t = "ht_table (ht0 d)" and ?r = "nat (rehashidx d)"
  note inv = dict_inv_rehashingD [OF d]
  have len: "length ?t = ht_size (ht0 d)" using ht_validD(1) [OF inv(1)] .
  have "concat (drop ?r ?t) = concat ?t"
    by (rule concat_drop_empty) (use inv len in auto)
  then have "concat (drop ?r ?t) \<noteq> []"
    using used ht_validD(2) [OF inv(1)] by (auto simp: ht_entries_def)
  from skip_empty_spec [OF this, of "rehashidx d" ev] obtain j ev' out where
    j: "skip_empty (drop ?r ?t) (rehashidx d) ev = Some (rehashidx d + int j, ev', out)"
      "j < length (drop ?r ?t)" "\<forall>i<j. drop ?r ?t ! i = []" "if out then 0 < j else drop ?r ?t ! j \<noteq> []"
    by blast
  have emp: "?t ! i = []" if "i < nat (rehashidx d + int j)" for i
  proof (cases "i < ?r")
    case True
    then show ?thesis by (rule inv(8))
  next
    case False
    then obtain k where k: "i = ?r + k" by (metis add_diff_inverse_nat)
    then have "k < j" using that inv(4) by linarith
    with j(2,3) have "drop ?r ?t ! k = []" by blast
    with k \<open>k < j\<close> j(2) show ?thesis by simp
  qed
  have lt: "rehashidx d + int j < int (ht_size (ht0 d))" using j(2) len inv(4) by auto
  have "dict_inv ty (d\<lparr>rehashidx := rehashidx d + int j\<rparr>)"
    using inv emp lt unfolding dict_inv_def dictIsRehashing_def dict_entries_def by auto
  with j emp lt show ?thesis 
    by (intro exI [of _ "rehashidx d + int j"] exI [of _ ev'] exI [of _ out]) auto
qed

lemma rehash_move:
  assumes d: "dict_inv ty d" "dictIsRehashing d" and ri: "rehashidx d < int (ht_size (ht0 d))"
  defines "r \<equiv> nat (rehashidx d)"
  shows "\<exists>d1 d2. arr_get_int (ht_table (ht0 d)) (rehashidx d) = Some (ht_table (ht0 d) ! r) \<and>
    move_chain ty (ht_table (ht0 d) ! r) d = Some d1 \<and>
    arr_set_int (ht_table (ht0 d1)) (rehashidx d) [] = Some ((ht_table (ht0 d1))[r := []]) \<and>
    d2 = d1\<lparr>ht0 := (ht0 d1)\<lparr>ht_table := (ht_table (ht0 d1))[r := []]\<rparr>, rehashidx := rehashidx d + 1\<rparr> \<and>
    rehash_ok ty d d2 \<and> rehashidx d2 = rehashidx d + 1"
proof -
  note inv = dict_inv_rehashingD [OF d]
  let ?c = "ht_table (ht0 d) ! r"
  have len: "length (ht_table (ht0 d)) = ht_size (ht0 d)" using ht_validD(1) [OF inv(1)] .
  have r: "r < ht_size (ht0 d)" "int r = rehashidx d" using inv(4) ri by (simp_all add: r_def)
  have "length ?c \<le> ht_used (ht0 d)"
    using nth_le_length_concat [of r "ht_table (ht0 d)"] len r(1) ht_validD(2) [OF inv(1)]
    by (simp add: ht_entries_def)
  then obtain h1 where h1: "move_chain ty ?c d =
      Some (d\<lparr>ht0 := (ht0 d)\<lparr>ht_used := ht_used (ht0 d) - length ?c\<rparr>, ht1 := h1\<rparr>)"
    "ht_valid ty h1" "ht_size h1 = ht_size (ht1 d)"
    "mset (ht_entries h1) = mset ?c + mset (ht_entries (ht1 d))"
    using move_chain_spec [OF inv(2,7)] by blast
  let ?h0 = "(ht0 d)\<lparr>ht_table := (ht_table (ht0 d))[r := []], ht_used := ht_used (ht0 d) - length ?c\<rparr>"
  let ?d2 = "d\<lparr>ht0 := ?h0, ht1 := h1, rehashidx := rehashidx d + 1\<rparr>"
  have h0: "ht_valid ty ?h0"
    using \<open>length ?c \<le> ht_used (ht0 d)\<close> by (intro ht_valid_set_bucket [OF inv(1) r(1)]) simp_all
  have ms: "mset (dict_entries ?d2) = mset (dict_entries d)"
    using mset_concat_update [of r "ht_table (ht0 d)" "[]"] len r(1) h1(4)
    by (simp add: dict_entries_def ht_entries_def ac_simps)
  have "dict_inv ty ?d2"
    unfolding dict_inv_def
    using h0 h1(2,3) inv ri rehash_okI_entries [OF ms] len r(1)
    by (auto simp: dictIsRehashing_def nth_list_update r_def less_Suc_eq nat_add_distrib)
  with ms inv(4) have ok: "rehash_ok ty d ?d2" by (simp add: rehash_ok_def dictIsRehashing_def)
  show ?thesis
    by (rule exI [of _ "d\<lparr>ht0 := (ht0 d)\<lparr>ht_used := ht_used (ht0 d) - length ?c\<rparr>, ht1 := h1\<rparr>"],
        rule exI [of _ ?d2])
      (use h1(1) ok r len inv(4) in \<open>simp add: arr_simps r_def\<close>)
qed

lemma rehash_ok_refl: "dict_inv ty d \<Longrightarrow> dictIsRehashing d \<Longrightarrow> rehash_ok ty d d"
  by (simp add: rehash_ok_def)

lemma rehash_ok_trans: "rehash_ok ty d d' \<Longrightarrow> rehash_ok ty d' d'' \<Longrightarrow> rehash_ok ty d d''"
  by (auto simp: rehash_ok_def)

lemma rehash_ok_skip:
  assumes "dict_inv ty d" "dictIsRehashing d" "dict_inv ty (d\<lparr>rehashidx := ri\<rparr>)" "rehashidx d \<le> ri"
  shows "rehash_ok ty d (d\<lparr>rehashidx := ri\<rparr>)"
  using assms dict_inv_rehashingD(4) [OF assms(1,2)]
  by (auto simp: rehash_ok_def dictIsRehashing_def dict_entries_def)

text \<open>The assertion of the loop holds while there is something left to move.\<close>

lemma rehash_assert:
  assumes d: "dict_inv ty d" "dictIsRehashing d" and used: "ht_used (ht0 d) \<noteq> 0"
  shows "c_assert (ht_size (ht0 d) > unat (word_of_int (rehashidx d) :: u64)) = Some ()"
proof -
  note inv = dict_inv_rehashingD [OF d]
  obtain ri ev' out where "rehashidx d \<le> ri" "ri < int (ht_size (ht0 d))"
    using rehash_skip [OF d used, of 1] by blast
  moreover have "ht_size (ht0 d) \<le> 2 ^ 60"
    using table_size_bounds ht_validD(3) [OF inv(1) inv(6)] by blast
  ultimately have "unat (word_of_int (rehashidx d) :: u64) = nat (rehashidx d)"
    using inv(4) by (simp add: unat_eq_nat_uint uint_word_of_int)
  moreover have "nat (rehashidx d) < ht_size (ht0 d)"
    using \<open>rehashidx d \<le> ri\<close> \<open>ri < int (ht_size (ht0 d))\<close> inv(4) by linarith
  ultimately show ?thesis by simp
qed

lemma rehash_loop_spec:
  assumes "dict_inv ty d" "dictIsRehashing d"
  shows "\<exists>early d'. rehash_loop ty n ev d = Some (early, d') \<and> rehash_ok ty d d' \<and>
    (0 < n \<and> ht_used (ht0 d) \<noteq> 0 \<longrightarrow> rehashidx d < rehashidx d')"
  using assms
proof (induction n arbitrary: d ev)
  case 0
  then show ?case by (intro exI [of _ False] exI [of _ d]) (simp add: rehash_ok_refl)
next
  case (Suc n)
  show ?case
  proof (cases "ht_used (ht0 d) = 0")
    case True
    then show ?thesis
      using Suc.prems by (intro exI [of _ False] exI [of _ d]) (simp add: rehash_ok_refl)
  next
    case used: False
    note assert = rehash_assert [OF Suc.prems used]
    obtain ri ev' out where sk:
      "skip_empty (drop (nat (rehashidx d)) (ht_table (ht0 d))) (rehashidx d) ev = Some (ri, ev', out)"
      "rehashidx d \<le> ri" "ri < int (ht_size (ht0 d))" "out \<Longrightarrow> rehashidx d < ri"
      "dict_inv ty (d\<lparr>rehashidx := ri\<rparr>)"
      using rehash_skip [OF Suc.prems used, of ev] by (auto split: if_splits)
    let ?d = "d\<lparr>rehashidx := ri\<rparr>"
    have ok: "rehash_ok ty d ?d" using rehash_ok_skip [OF Suc.prems sk(5,2)] .
    show ?thesis
    proof (cases out)
      case True
      then show ?thesis
        using used assert sk ok by (intro exI [of _ True] exI [of _ ?d]) simp
    next
      case False
      have r: "dictIsRehashing ?d" using ok by (simp add: rehash_ok_def)
      have "rehashidx ?d < int (ht_size (ht0 ?d))" using sk(3) by simp
      from rehash_move [OF sk(5) r this] obtain d1 d2 where mv:
        "arr_get_int (ht_table (ht0 ?d)) ri = Some (ht_table (ht0 ?d) ! nat ri)"
        "move_chain ty (ht_table (ht0 ?d) ! nat ri) ?d = Some d1"
        "arr_set_int (ht_table (ht0 d1)) ri [] = Some ((ht_table (ht0 d1))[nat ri := []])"
        "d2 = d1\<lparr>ht0 := (ht0 d1)\<lparr>ht_table := (ht_table (ht0 d1))[nat ri := []]\<rparr>, rehashidx := ri + 1\<rparr>"
        "rehash_ok ty ?d d2" "rehashidx d2 = ri + 1"
        by auto
      have "dict_inv ty d2" "dictIsRehashing d2" using mv(5) by (simp_all add: rehash_ok_def)
      from Suc.IH [OF this, of ev'] obtain early d' where
        l: "rehash_loop ty n ev' d2 = Some (early, d')" "rehash_ok ty d2 d'" by blast
      have "rehash_loop ty (Suc n) ev d = rehash_loop ty n ev' d2"
        using used assert sk(1) mv(1-3) False by (simp add: mv(4))
      moreover have "rehash_ok ty d d'" using ok mv(5) l(2) rehash_ok_trans by blast
      moreover have "rehashidx d < rehashidx d'" using l(2) mv(6) sk(2) by (simp add: rehash_ok_def)
      ultimately show ?thesis using l(1) by auto
    qed
  qed
qed

text \<open>The whole function: it returns, keeps the invariant and the entries; 0 means that no
  rehashing is in progress any more, 1 that one is.\<close>

lemma m_dictRehash_spec:
  assumes "dict_inv ty d"
  shows "\<exists>r d'. m_dictRehash ty d n = Some (r, d') \<and> dict_inv ty d' \<and>
    mset (dict_entries d') = mset (dict_entries d) \<and> iterators d' = iterators d \<and>
    (r = 0 \<or> r = 1) \<and> (r = 0 \<longleftrightarrow> \<not> dictIsRehashing d') \<and>
    (r = 1 \<and> 0 < n \<longrightarrow> dictIsRehashing d \<and> ht_size (ht0 d') = ht_size (ht0 d) \<and>
      rehashidx d < rehashidx d')"
proof (cases "dictIsRehashing d")
  case False
  then show ?thesis using assms by (simp add: m_dictRehash_def)
next
  case True
  obtain early d' where l: "rehash_loop ty n (int n * 10) d = Some (early, d')"
    "rehash_ok ty d d'" "0 < n \<and> ht_used (ht0 d) \<noteq> 0 \<longrightarrow> rehashidx d < rehashidx d'"
    using rehash_loop_spec [OF assms True] by blast
  have inv': "dict_inv ty d'" and r': "dictIsRehashing d'" using l(2) by (simp_all add: rehash_ok_def)
  note inv = dict_inv_rehashingD [OF inv' r']
  have early_used: "ht_used (ht0 d) \<noteq> 0" if early
    using l(1) that by (cases n) (auto split: if_splits)
  have used_mono: "ht_used (ht0 d) = 0 \<Longrightarrow> ht_used (ht0 d') = 0"
    using l(1) by (cases n) auto
  show ?thesis
  proof (cases "\<not> early \<and> ht_used (ht0 d') = 0")
    case True
    let ?d = "d'\<lparr>ht0 := ht1 d', ht1 := dictReset, rehashidx := - 1\<rparr>"
    have "ht_entries (ht0 d') = []" using True ht_validD(2) [OF inv(1)] by simp
    then have "dict_entries ?d = dict_entries d'" by (simp add: dict_entries_def)
    then have "dict_inv ty ?d"
      using inv by (simp add: dict_inv_def dictIsRehashing_def)
    then show ?thesis
      using True l(1,2) \<open>dictIsRehashing d\<close> \<open>dict_entries ?d = dict_entries d'\<close>
      by (simp add: m_dictRehash_def rehash_ok_def dictIsRehashing_def)
  next
    case False
    then have "m_dictRehash ty d n = Some (1, d')"
      using l(1) \<open>dictIsRehashing d\<close> by (auto simp: m_dictRehash_def)
    moreover have "ht_used (ht0 d) \<noteq> 0" using False early_used used_mono by blast
    ultimately show ?thesis
      using l(2,3) \<open>dictIsRehashing d\<close> by (auto simp: rehash_ok_def)
  qed
qed

lemma dictRehashStep_spec:
  assumes "dict_inv ty d"
  shows "\<exists>d'. dictRehashStep ty d = Some d' \<and> dict_inv ty d' \<and>
    mset (dict_entries d') = mset (dict_entries d) \<and> iterators d' = iterators d"
  using m_dictRehash_spec [OF assms, of 1] assms by (auto simp: dictRehashStep_def)

text \<open>The step the lookups make when a rehashing is in progress.\<close>

lemma maybe_step_spec:
  assumes "dict_inv ty d"
  obtains d' where "(if dictIsRehashing d then dictRehashStep ty d else Some d) = Some d'"
    and "dict_inv ty d'" and "mset (dict_entries d') = mset (dict_entries d)"
    and "iterators d' = iterators d"
  using dictRehashStep_spec [OF assms] assms by (cases "dictIsRehashing d") auto

text \<open>Each call that returns 1 advances \<open>rehashidx\<close>, so the timed loop ends for every clock.\<close>

lemma rehash_ms_loop_spec:
  assumes "dict_inv ty d"
  shows "\<exists>r d'. rehash_ms_loop ty clock start ms i k d = Some (r, d') \<and> dict_inv ty d' \<and>
    mset (dict_entries d') = mset (dict_entries d) \<and> iterators d' = iterators d"
  using assms
proof (induction "nat (int (ht_size (ht0 d)) - rehashidx d)" arbitrary: d i k rule: less_induct)
  case less
  obtain r d1 where r: "m_dictRehash ty d 100 = Some (r, d1)" "dict_inv ty d1"
    "mset (dict_entries d1) = mset (dict_entries d)" "iterators d1 = iterators d"
    "r = 1 \<longrightarrow> dictIsRehashing d \<and> ht_size (ht0 d1) = ht_size (ht0 d) \<and> rehashidx d < rehashidx d1"
    "r = 0 \<or> r = 1" "r = 0 \<longleftrightarrow> \<not> dictIsRehashing d1"
    using m_dictRehash_spec [OF less.prems, of 100] by fastforce
  show ?case
  proof (cases "r = 0 \<or> clock i - start > ms")
    case True
    then show ?thesis using r by (subst rehash_ms_loop.simps) auto
  next
    case False
    then have r1: "r = 1" "dictIsRehashing d1" using r(6,7) by auto
    have "nat (int (ht_size (ht0 d1)) - rehashidx d1) < nat (int (ht_size (ht0 d)) - rehashidx d)"
      using r(5) r1 dict_inv_rehashingD(5) [OF r(2) r1(2)] by auto
    from less.hyps [OF this r(2), of "i + 1" "k + 100"] False r
    show ?thesis by (subst rehash_ms_loop.simps) auto
  qed
qed

section \<open>Growing\<close>

text \<open>The loop of \<open>_dictNextPower\<close> ends at the first power of two that is large enough.\<close>

lemma next_power_loop_spec:
  assumes "s \<le> 2 ^ 63" and "k \<le> 63"
  shows "\<exists>j. next_power_loop s (2 ^ k) = Some (2 ^ j) \<and> k \<le> j \<and> j \<le> 63 \<and> s \<le> 2 ^ j \<and>
    (j = k \<or> 2 ^ (j - 1) < s)"
  using assms(2)
proof (induction "63 - k" arbitrary: k)
  case 0
  then show ?case using assms(1) by (intro exI [of _ k]) (subst next_power_loop.simps, simp)
next
  case (Suc n)
  show ?case
  proof (cases "s \<le> 2 ^ k")
    case True
    then show ?thesis using Suc.prems by (intro exI [of _ k]) (subst next_power_loop.simps, simp)
  next
    case False
    have k: "Suc k \<le> 63" "n = 63 - Suc k" using Suc.hyps(2) by simp_all
    then have "(2 :: nat) ^ Suc k \<le> 2 ^ 63" by (simp only: power_increasing one_le_numeral)
    then have "(2 :: nat) ^ k * 2 mod 2 ^ 64 = 2 ^ Suc k" by simp
    then have "next_power_loop s (2 ^ k) = next_power_loop s (2 ^ Suc k)"
      using False by (subst next_power_loop.simps) simp
    moreover obtain j where "next_power_loop s (2 ^ Suc k) = Some (2 ^ j)" "Suc k \<le> j" "j \<le> 63"
      "s \<le> 2 ^ j" "j = Suc k \<or> 2 ^ (j - 1) < s"
      using Suc.hyps(1) [OF k(2) k(1)] by blast
    ultimately show ?thesis using False by (intro exI [of _ j]) auto
  qed
qed

lemma dictNextPower_spec:
  assumes "s < 2 ^ 64"
  shows "\<exists>j. dictNextPower s = Some (2 ^ j) \<and> 2 \<le> j \<and> j \<le> 63 \<and> (s \<le> 2 ^ 63 \<longrightarrow> s \<le> 2 ^ j) \<and>
    (j = 2 \<or> 2 ^ (j - 1) < s)"
proof (cases "s \<ge> 2 ^ 63 - 1")
  case True
  then show ?thesis by (intro exI [of _ 63]) (simp add: dictNextPower_def)
next
  case False
  then obtain j where "next_power_loop s (2 ^ 2) = Some (2 ^ j)" "2 \<le> j" "j \<le> 63" "s \<le> 2 ^ j"
    "j = 2 \<or> 2 ^ (j - 1) < s"
    using next_power_loop_spec [of s 2] by auto
  then show ?thesis
    using False by (intro exI [of _ j]) (simp add: dictNextPower_def DICT_HT_INITIAL_SIZE_def)
qed

lemma dictNextPower_table_size:
  assumes "s \<le> 2 ^ 60"
  obtains r where "dictNextPower s = Some r" "table_size r" "s \<le> r" "r = 4 \<or> r < 2 * s"
proof -
  obtain j where j: "dictNextPower s = Some (2 ^ j)" "2 \<le> j" "s \<le> 2 ^ j" "j = 2 \<or> 2 ^ (j - 1) < s"
    using dictNextPower_spec [of s] assms by auto
  have "j \<le> 60"
  proof (rule ccontr)
    assume "\<not> j \<le> 60"
    then have "(2 :: nat) ^ 60 \<le> 2 ^ (j - 1)" by (intro power_increasing) auto
    with j(4) assms \<open>\<not> j \<le> 60\<close> show False by auto
  qed
  then have "table_size (2 ^ j)" using j(2) by (auto simp only: table_size_def atLeastAtMost_iff)
  moreover have "2 ^ j = 2 * (2 :: nat) ^ (j - 1)" using j(2) by (cases j) auto
  then have "2 ^ j = (4 :: nat) \<or> (2 :: nat) ^ j < 2 * s" using j(4) by auto
  ultimately show ?thesis by (intro that [of "2 ^ j"] j(1,3))
qed

lemma length_alloc_table: "table_size r \<Longrightarrow> length (alloc_table r) = r"
  using table_size_bounds [of r] by (simp add: alloc_table_def)

lemma ht_valid_fresh:
  assumes "table_size r"
  shows "ht_valid ty \<lparr>ht_table = alloc_table r, ht_size = r, ht_sizemask = of_nat (r - 1), ht_used = 0\<rparr>"
proof -
  have "(r * 8 mod 2 ^ 64) div 8 = r" using table_size_bounds [OF assms] by simp
  then show ?thesis
    using assms table_size_bounds [OF assms]
    by (simp add: ht_valid_def ht_entries_def alloc_table_def)
qed

lemma ht_table_Nil: "ht_valid ty h \<Longrightarrow> ht_table h = [] \<longleftrightarrow> ht_size h = 0"
  using ht_validD(1) by fastforce

lemma dict_inv_plainD:
  assumes "dict_inv ty d" and "\<not> dictIsRehashing d"
  shows "ht_valid ty (ht0 d)" "ht1 d = dictReset" "dict_entries d = ht_entries (ht0 d)"
    "dictSize d = ht_used (ht0 d)"
  using assms by (simp_all add: dict_inv_def dict_entries_def dictSize_def dictReset_def ht_entries_def)

lemma m_dictExpand_spec:
  assumes d: "dict_inv ty d" and s: "s \<le> 2 ^ 60"
  shows "\<exists>st d'. m_dictExpand d s = Some (st, d') \<and> dict_inv ty d' \<and>
    dict_entries d' = dict_entries d \<and> iterators d' = iterators d \<and>
    (st = DICT_ERR \<longrightarrow> d' = d) \<and>
    (st = DICT_OK \<longrightarrow> ht_size (ht0 d') \<noteq> 0) \<and>
    (\<not> dictIsRehashing d \<and> ht_used (ht0 d) \<le> s \<and> \<not> (4 \<le> ht_size (ht0 d) \<and> s \<le> ht_size (ht0 d))
      \<longrightarrow> st = DICT_OK)"
proof (cases "dictIsRehashing d \<or> ht_used (ht0 d) > s")
  case True
  then show ?thesis using d by (auto simp: m_dictExpand_def)
next
  case False
  then have plain: "\<not> dictIsRehashing d" by simp
  note inv = dict_inv_plainD [OF d plain]
  obtain r where r: "dictNextPower s = Some r" "table_size r" "s \<le> r" "r = 4 \<or> r < 2 * s"
    using dictNextPower_table_size [OF s] .
  have r4: "4 \<le> r" using table_size_bounds [OF r(2)] by simp
  let ?n = "\<lparr>ht_table = alloc_table r, ht_size = r, ht_sizemask = of_nat (r - 1), ht_used = 0\<rparr>"
  have n: "ht_valid ty ?n" and ne: "ht_entries ?n = []"
    using ht_valid_fresh [OF r(2)] by (simp_all add: ht_entries_def alloc_table_def)
  consider "r = ht_size (ht0 d)" | "r \<noteq> ht_size (ht0 d)" "ht_size (ht0 d) = 0"
    | "r \<noteq> ht_size (ht0 d)" "ht_size (ht0 d) \<noteq> 0" by blast
  then show ?thesis
  proof cases
    case 1
    then show ?thesis using False r d r4 by (auto simp: m_dictExpand_def)
  next
    case 2
    let ?d = "d\<lparr>ht0 := ?n\<rparr>"
    have t: "ht_table (ht0 d) = []" using ht_table_Nil [OF inv(1)] 2 by simp
    have e: "dict_entries ?d = dict_entries d"
      using t inv ne by (simp add: dict_entries_def ht_entries_def)
    have "dict_inv ty ?d"
      using d n plain e inv(2) by (simp add: dict_inv_def dictIsRehashing_def)
    then show ?thesis
      using False 2 r(1) t e r4 by (simp add: m_dictExpand_def Let_def)
  next
    case 3
    let ?d = "d\<lparr>ht1 := ?n, rehashidx := 0\<rparr>"
    have t: "ht_table (ht0 d) \<noteq> []" using ht_table_Nil [OF inv(1)] 3 by simp
    have e: "dict_entries ?d = dict_entries d"
      using inv ne by (simp add: dict_entries_def)
    have "dict_inv ty ?d"
      using d n e 3 r4 by (simp add: dict_inv_def dictIsRehashing_def)
    then show ?thesis
      using False 3 r(1) t e by (simp add: m_dictExpand_def Let_def)
  qed
qed

lemma dictExpandIfNeeded_spec:
  assumes d: "dict_inv ty d" and room: "dict_room d"
  shows "\<exists>d'. dictExpandIfNeeded can d = Some (DICT_OK, d') \<and> dict_inv ty d' \<and>
    dict_entries d' = dict_entries d \<and> iterators d' = iterators d \<and> ht_size (ht0 d') \<noteq> 0"
proof (cases "dictIsRehashing d")
  case True
  then show ?thesis using d dict_inv_rehashingD(6) [OF d True] by (simp add: dictExpandIfNeeded_def)
next
  case False
  note inv = dict_inv_plainD [OF d False]
  have used: "ht_used (ht0 d) < 2 ^ 59" using room inv(4) by (simp add: dict_room_def)
  have expand: "\<exists>d'. m_dictExpand d s = Some (DICT_OK, d') \<and> dict_inv ty d' \<and>
      dict_entries d' = dict_entries d \<and> iterators d' = iterators d \<and> ht_size (ht0 d') \<noteq> 0"
    if "s \<le> 2 ^ 60" "ht_used (ht0 d) \<le> s" "\<not> (4 \<le> ht_size (ht0 d) \<and> s \<le> ht_size (ht0 d))" for s
  proof -
    from m_dictExpand_spec [OF d that(1)] obtain st d' where
      e: "m_dictExpand d s = Some (st, d')" "dict_inv ty d'" "dict_entries d' = dict_entries d"
        "iterators d' = iterators d" "st = DICT_OK \<longrightarrow> ht_size (ht0 d') \<noteq> 0"
        "\<not> dictIsRehashing d \<and> ht_used (ht0 d) \<le> s \<and> \<not> (4 \<le> ht_size (ht0 d) \<and> s \<le> ht_size (ht0 d))
          \<longrightarrow> st = DICT_OK" by blast
    from e(6) False that have "st = DICT_OK" by blast
    with e show ?thesis by blast
  qed
  show ?thesis
  proof (cases "ht_size (ht0 d) = 0")
    case True
    then have "ht_used (ht0 d) = 0"
      using ht_validD(1,2) [OF inv(1)] by (simp add: ht_entries_def)
    with True False expand [of 4] show ?thesis
      by (simp add: dictExpandIfNeeded_def DICT_HT_INITIAL_SIZE_def)
  next
    case s: False
    show ?thesis
    proof (cases "ht_used (ht0 d) \<ge> ht_size (ht0 d)")
      case True
      with s used expand [of "ht_used (ht0 d) * 2"] False d show ?thesis
        by (auto simp: dictExpandIfNeeded_def)
    next
      case small: False
      with s d False show ?thesis by (simp add: dictExpandIfNeeded_def)
    qed
  qed
qed

section \<open>Searching\<close>

lemma chain_pos_SomeD:
  "type_ok ty \<Longrightarrow> chain_pos ty key c = Some p \<Longrightarrow> p < length c \<and> fst (c ! p) = key"
  by (induction c arbitrary: p) (auto simp: dictCompareKeys_eq split: if_splits)

lemma chain_pos_None:
  "type_ok ty \<Longrightarrow> chain_pos ty key c = None \<longleftrightarrow> key \<notin> fst ` set c"
  by (induction c) (auto simp: dictCompareKeys_eq)

lemma key_in_bucket:
  assumes h: "ht_valid ty h" and s: "ht_size h \<noteq> 0"
  shows "key \<in> fst ` set (ht_entries h) \<longleftrightarrow> key \<in> fst ` set (ht_table h ! bucket_index ty h key)"
proof -
  have len: "length (ht_table h) = ht_size h" using ht_validD(1) [OF h] .
  have "unat (hashFunction ty k) mod ht_size h < ht_size h" for k using s by simp
  moreover have "unat (hashFunction ty k) mod ht_size h = i"
    if "i < ht_size h" "(k, v) \<in> set (ht_table h ! i)" for i k v
    using ht_validD(4) [OF h that] by simp
  ultimately have "(k, v) \<in> set (ht_entries h) \<longleftrightarrow> (k, v) \<in> set (ht_table h ! bucket_index ty h k)" for k v
    unfolding ht_entries_def set_concat_nth len bucket_index_eq [OF h s] by blast
  then show ?thesis by force
qed

lemma find_in_table_spec:
  assumes h: "ht_valid ty (get_ht d t)" and s: "ht_size (get_ht d t) \<noteq> 0" and ty: "type_ok ty"
  obtains pos where "find_in_table ty d t key = Some (bucket_index ty (get_ht d t) key, pos)"
    and "pos = None \<longleftrightarrow> key \<notin> fst ` set (ht_entries (get_ht d t))"
    and "\<And>p. pos = Some p \<Longrightarrow> p < length (ht_table (get_ht d t) ! bucket_index ty (get_ht d t) key) \<and>
      fst (ht_table (get_ht d t) ! bucket_index ty (get_ht d t) key ! p) = key"
proof -
  let ?i = "bucket_index ty (get_ht d t) key"
  let ?c = "ht_table (get_ht d t) ! ?i"
  have "?i < length (ht_table (get_ht d t))"
    using bucket_index_less [OF h s] ht_validD(1) [OF h] by simp
  then have "find_in_table ty d t key = Some (?i, chain_pos ty key ?c)"
    by (simp add: find_in_table_def arr_simps Let_def)
  moreover have "chain_pos ty key ?c = None \<longleftrightarrow> key \<notin> fst ` set (ht_entries (get_ht d t))"
    unfolding chain_pos_None [OF ty] key_in_bucket [OF h s] by (rule refl)
  ultimately show ?thesis using chain_pos_SomeD [OF ty, of key ?c] by (rule that)
qed

section \<open>Entries and the two tables\<close>

lemma get_ht_simps [simp]: "get_ht d 0 = ht0 d" "get_ht d (Suc n) = ht1 d"
  by (simp_all add: get_ht_def)

lemma dict_entries_get:
  "mset (dict_entries d) = mset (ht_entries (get_ht d t)) + mset (ht_entries (get_ht d (1 - t)))"
  by (cases t) (simp_all add: dict_entries_def)

text \<open>Replacing one bucket of one table, the general form of every update below.\<close>

lemma set_bucket_spec:
  fixes d :: "('k, 'v) dict"
  defines "d' \<equiv> \<lambda>t i c u. set_ht d t ((get_ht d t)\<lparr>ht_table := (ht_table (get_ht d t))[i := c], ht_used := u\<rparr>)"
  assumes d: "dict_inv ty d" and i: "i < ht_size (get_ht d t)"
    and below: "t = 0 \<Longrightarrow> dictIsRehashing d \<Longrightarrow> ht_table (ht0 d) ! i = [] \<Longrightarrow> c = []"
    and valid: "ht_valid ty ((get_ht d t)\<lparr>ht_table := (ht_table (get_ht d t))[i := c], ht_used := u\<rparr>)"
    and keys: "distinct (map fst (dict_entries (d' t i c u)))"
  shows "dict_inv ty (d' t i c u)"
    and "mset (dict_entries (d' t i c u)) + mset (ht_table (get_ht d t) ! i) = mset (dict_entries d) + mset c"
    and "iterators (d' t i c u) = iterators d" and "dictIsRehashing (d' t i c u) = dictIsRehashing d"
proof -
  show "dictIsRehashing (d' t i c u) = dictIsRehashing d"
    by (simp add: d'_def set_ht_def dictIsRehashing_def)
  show "iterators (d' t i c u) = iterators d" by (simp add: d'_def set_ht_def)
  have v: "ht_valid ty (get_ht d t)" using d by (simp add: dict_inv_def get_ht_def)
  then have len: "i < length (ht_table (get_ht d t))" using i ht_validD(1) [OF v] by simp
  show "mset (dict_entries (d' t i c u)) + mset (ht_table (get_ht d t) ! i) = mset (dict_entries d) + mset c"
    using mset_concat_update [OF len, of c]
    by (auto simp: d'_def dict_entries_def set_ht_def get_ht_def ht_entries_def)
  show "dict_inv ty (d' t i c u)"
  proof (cases "dictIsRehashing d")
    case True
    note inv = dict_inv_rehashingD [OF d True]
    have emp: "(ht_table (ht0 d))[i := c] ! j = []" if "t = 0" "j < nat (rehashidx d)" for j
      using inv(8) [OF that(2)] below [OF that(1) True] by (cases "j = i"; cases "i < length (ht_table (ht0 d))")
          (auto simp: not_less list_update_beyond)
    show ?thesis
      using keys inv emp valid True
      unfolding dict_inv_def d'_def dictIsRehashing_def get_ht_def set_ht_def
      by (cases "t = 0") auto
  next
    case False
    note inv = dict_inv_plainD [OF d False]
    have "t = 0" using i inv(2) by (cases t) (simp_all add: dictReset_def)
    then show ?thesis
      using keys inv(2) valid False
      unfolding dict_inv_def d'_def dictIsRehashing_def get_ht_def set_ht_def by simp
  qed
qed

text \<open>The entry a reference points to.\<close>

lemma dictGetEntry_SomeD:
  assumes "dictGetEntry d (t, i, p) = Some e"
  shows "i < length (ht_table (get_ht d t))" "p < length (ht_table (get_ht d t) ! i)"
    "ht_table (get_ht d t) ! i ! p = e"
  using assms unfolding dictGetEntry_def
  by (auto simp: bind_eq_Some_conv dest!: arr_get_SomeD)

lemma dict_entries_member:
  assumes "i < length (ht_table (get_ht d t))" "e \<in> set (ht_table (get_ht d t) ! i)"
  shows "e \<in> set (dict_entries d)"
proof -
  have "e \<in> set (ht_entries (get_ht d t))"
    unfolding ht_entries_def set_concat_nth using assms by blast
  then show ?thesis by (auto simp: dict_entries_def get_ht_def split: if_splits)
qed

lemma dictGetEntry_map:
  assumes "dict_inv ty d" and "dictGetEntry d ref = Some (k, v)"
  shows "dict_map d k = Some v"
proof -
  obtain t i p where "ref = (t, i, p)" by (cases ref)
  with assms(2) have g: "dictGetEntry d (t, i, p) = Some (k, v)" by simp
  have "(k, v) \<in> set (ht_table (get_ht d t) ! i)"
    using dictGetEntry_SomeD(2,3) [OF g] by (metis nth_mem)
  then have "(k, v) \<in> set (dict_entries d)"
    by (rule dict_entries_member [OF dictGetEntry_SomeD(1) [OF g]])
  then show ?thesis using assms(1) by (simp add: dict_map_def dict_inv_def)
qed

lemma dict_map_dom: "k \<in> dom (dict_map d) \<longleftrightarrow> k \<in> fst ` set (dict_entries d)"
  by (simp add: dict_map_def dom_map_of_conv_image_fst)

lemma dict_map_mset:
  "mset (dict_entries d') = mset (dict_entries d) \<Longrightarrow> dict_inv ty d \<Longrightarrow> dict_map d' = dict_map d"
  using map_of_mset_eq [of "dict_entries d" "dict_entries d'"] by (simp add: dict_map_def dict_inv_def)

lemma dict_map_add:
  assumes "mset (dict_entries d') = add_mset (k, v) (mset (dict_entries d))" and "dict_inv ty d'"
  shows "dict_map d' = (dict_map d)(k \<mapsto> v)" and "k \<notin> dom (dict_map d)"
proof -
  have e: "mset (dict_entries d') = mset ((k, v) # dict_entries d)" using assms(1) by simp
  then have "map_of (dict_entries d') = map_of ((k, v) # dict_entries d)"
    using assms(2) by (intro map_of_mset_eq) (auto simp: dict_inv_def)
  then show "dict_map d' = (dict_map d)(k \<mapsto> v)" by (simp add: dict_map_def)
  have "distinct (map fst ((k, v) # dict_entries d))"
    using assms(2) mset_eq_imp_distinct_iff [of "map fst (dict_entries d')" "map fst ((k, v) # dict_entries d)"]
      arg_cong [OF e, of "image_mset fst"] by (simp add: dict_inv_def)
  then show "k \<notin> dom (dict_map d)" by (simp add: dict_map_dom)
qed

lemma dict_map_remove:
  assumes "mset (dict_entries d) = add_mset (k, v) (mset (dict_entries d'))" and "dict_inv ty d"
  shows "dict_map d' = (dict_map d)(k := None)"
proof -
  have "dict_map d = (dict_map d')(k \<mapsto> v)" and "k \<notin> dom (dict_map d')"
    using dict_map_add [OF assms(1)] assms(2) by blast+
  then show ?thesis by auto
qed

section \<open>Updates through a reference\<close>

lemma get_ht_valid: "dict_inv ty d \<Longrightarrow> ht_valid ty (get_ht d t)"
  by (simp add: dict_inv_def get_ht_def)

lemma get_ht_length: "dict_inv ty d \<Longrightarrow> length (ht_table (get_ht d t)) = ht_size (get_ht d t)"
  using ht_validD(1) get_ht_valid by blast

lemma distinct_keys_cong:
  assumes "image_mset fst (mset xs) = image_mset fst (mset ys)" and "distinct (map fst ys)"
  shows "distinct (map fst xs)"
  using assms by (metis mset_map mset_eq_imp_distinct_iff)

lemma dictSetVal_spec:
  assumes d: "dict_inv ty d" and g: "dictGetEntry d ref = Some (k, old)"
  shows "\<exists>d'. dictSetVal d ref v = Some d' \<and> dict_inv ty d' \<and> iterators d' = iterators d \<and>
    dict_map d' = (dict_map d)(k \<mapsto> Some v) \<and> dictSize d' = dictSize d"
proof -
  obtain t i p where ref: "ref = (t, i, p)" by (cases ref)
  let ?h = "get_ht d t"
  let ?b = "ht_table ?h ! i"
  let ?c = "?b[p := (k, Some v)]"
  note e = dictGetEntry_SomeD [OF g [unfolded ref]]
  have i: "i < ht_size ?h" using e(1) get_ht_length [OF d, of t] by simp
  have mem: "(k, old) \<in> set ?b" using nth_mem [OF e(2)] e(3) by simp
  define R where "R = mset ?b - {#(k, old)#}"
  have mb: "mset ?b = add_mset (k, old) R" using mem by (simp add: R_def)
  have mc: "mset ?c = add_mset (k, Some v) R" using e(2,3) by (simp add: R_def mset_update)
  define d' where "d' = set_ht d t (?h\<lparr>ht_table := (ht_table ?h)[i := ?c], ht_used := ht_used ?h\<rparr>)"
  have keys_c: "fst ` set ?c = fst ` set ?b"
    using arg_cong [OF mb, of set_mset] arg_cong [OF mc, of set_mset] by auto
  have "unat (hashFunction ty (fst x)) mod ht_size ?h = i" if "x \<in> set ?c" for x
  proof -
    have "fst x \<in> fst ` set ?b" using that keys_c by blast
    then show ?thesis using ht_validD(4) [OF get_ht_valid [OF d] i] by auto
  qed
  then have valid: "ht_valid ty (?h\<lparr>ht_table := (ht_table ?h)[i := ?c], ht_used := ht_used ?h\<rparr>)"
    using i by (intro ht_valid_set_bucket [OF get_ht_valid [OF d]]) simp_all
  have m: "mset (dict_entries d') + mset ?b = mset (dict_entries d) + mset ?c"
    using mset_concat_update [OF e(1), of ?c]
    by (auto simp: d'_def dict_entries_def set_ht_def get_ht_def ht_entries_def)
  have "(k, old) \<in># mset (dict_entries d)"
    using dict_entries_member [OF e(1) mem] by simp
  then obtain S where S: "mset (dict_entries d) = add_mset (k, old) S" by (rule mset_add)
  have S': "mset (dict_entries d') = add_mset (k, Some v) S"
    using m unfolding mb mc S by simp
  have keys: "distinct (map fst (dict_entries d'))"
    using d by (intro distinct_keys_cong [of "dict_entries d'" "dict_entries d"])
      (simp_all add: S S' dict_inv_def)
  have below: "t = 0 \<Longrightarrow> dictIsRehashing d \<Longrightarrow> ht_table (ht0 d) ! i = [] \<Longrightarrow> ?c = []"
    using e(2) by simp
  have inv: "dict_inv ty d'" and it: "iterators d' = iterators d"
    unfolding d'_def
    by (rule set_bucket_spec(1) [OF d i below valid keys [unfolded d'_def]], assumption+,
        rule set_bucket_spec(3) [OF d i below valid keys [unfolded d'_def]], assumption+)
  have "dict_map d' = (dict_map d)(k \<mapsto> Some v)"
  proof -
    obtain es where es: "mset es = S" using ex_mset by blast
    have "dict_map d' = map_of ((k, Some v) # es)"
      unfolding dict_map_def using S' keys by (intro map_of_mset_eq) (simp_all add: es)
    moreover have "dict_map d = map_of ((k, old) # es)"
      unfolding dict_map_def using S d by (intro map_of_mset_eq) (simp_all add: es dict_inv_def)
    ultimately show ?thesis by simp
  qed
  moreover have "dictSize d' = dictSize d"
    using arg_cong [OF S, of size] arg_cong [OF S', of size]
    by (simp add: dict_size_entries [OF inv] dict_size_entries [OF d])
  moreover have "dictSetVal d ref v = Some d'"
    using e by (simp add: dictSetVal_def ref arr_simps d'_def)
  ultimately show ?thesis using inv it by blast
qed

lemma unlink_entry_spec:
  assumes d: "dict_inv ty d" and i: "i < ht_size (get_ht d t)"
    and p: "p < length (ht_table (get_ht d t) ! i)" and k: "fst (ht_table (get_ht d t) ! i ! p) = key"
  shows "\<exists>v d'. unlink_entry d t i p = Some ((key, v), d') \<and> dict_inv ty d' \<and>
    iterators d' = iterators d \<and> mset (dict_entries d) = add_mset (key, v) (mset (dict_entries d'))"
proof -
  let ?h = "get_ht d t"
  let ?b = "ht_table ?h ! i"
  let ?c = "take p ?b @ drop (Suc p) ?b"
  let ?d = "set_ht d t (?h\<lparr>ht_table := (ht_table ?h)[i := ?c], ht_used := ht_used ?h - 1\<rparr>)"
  have len: "i < length (ht_table ?h)" using i get_ht_length [OF d, of t] by simp
  note rem = ht_remove_entry [OF get_ht_valid [OF d] i p]
  have m: "mset (dict_entries d) = add_mset (?b ! p) (mset (dict_entries ?d))"
    using rem(2) by (auto simp: dict_entries_def set_ht_def get_ht_def)
  have "distinct (map fst (dict_entries d))" using d by (simp add: dict_inv_def)
  then have keys: "distinct (map fst (dict_entries ?d))"
    using mset_eq_imp_distinct_iff [of "map fst (dict_entries d)" "map fst (?b ! p # dict_entries ?d)"]
      arg_cong [OF m, of "image_mset fst"] by simp
  have below: "t = 0 \<Longrightarrow> dictIsRehashing d \<Longrightarrow> ht_table (ht0 d) ! i = [] \<Longrightarrow> ?c = []"
    using p by simp
  have "dict_inv ty ?d" "iterators ?d = iterators d"
    by (rule set_bucket_spec(1) [OF d i below rem(1) keys], assumption+,
        rule set_bucket_spec(3) [OF d i below rem(1) keys], assumption+)
  moreover have "unlink_entry d t i p = Some (?b ! p, ?d)"
    unfolding unlink_entry_def arr_get_in [OF len] arr_set_in [OF len] count_dec_def
    by (simp only: Option.bind.simps arr_get_in [OF p] rem(3) if_False)
  moreover have "?b ! p = (key, snd (?b ! p))" using k by (simp add: prod_eq_iff)
  ultimately show ?thesis using m by (intro exI [of _ "snd (?b ! p)"] exI [of _ ?d]) simp
qed

section \<open>Insertion\<close>

lemma entries_fst_cong:
  "mset (dict_entries d') = mset (dict_entries d) \<Longrightarrow> set (dict_entries d') = set (dict_entries d)"
  by (rule mset_eq_setD)

text \<open>What the search of \<open>_dictKeyIndex\<close> finds, in either table.\<close>

lemma found_entry:
  assumes d: "dict_inv ty d" and s: "ht_size (get_ht d t) \<noteq> 0"
    and p: "p < length (ht_table (get_ht d t) ! bucket_index ty (get_ht d t) key)"
    and k: "fst (ht_table (get_ht d t) ! bucket_index ty (get_ht d t) key ! p) = key"
  shows "\<exists>v. dictGetEntry d (t, bucket_index ty (get_ht d t) key, p) = Some (key, v)"
proof -
  have "bucket_index ty (get_ht d t) key < length (ht_table (get_ht d t))"
    using bucket_index_less [OF get_ht_valid [OF d] s] get_ht_length [OF d, of t] by simp
  then show ?thesis
    using p k by (auto simp: dictGetEntry_def arr_simps prod_eq_iff)
qed

lemma dictKeyIndex_spec:
  assumes d: "dict_inv ty d" and room: "dict_room d" and ty: "type_ok ty"
  shows "\<exists>ix ex d'. dictKeyIndex ty can d key = Some (ix, ex, d') \<and> dict_inv ty d' \<and>
    dict_entries d' = dict_entries d \<and> iterators d' = iterators d \<and>
    (if key \<in> dom (dict_map d)
     then ix = None \<and> (\<exists>ref v. ex = Some ref \<and> dictGetEntry d' ref = Some (key, v))
     else ex = None \<and>
       ix = Some (bucket_index ty (get_ht d' (if dictIsRehashing d' then 1 else 0)) key) \<and>
       ht_size (get_ht d' (if dictIsRehashing d' then 1 else 0)) \<noteq> 0)"
proof -
  obtain d' where d': "dictExpandIfNeeded can d = Some (DICT_OK, d')" "dict_inv ty d'"
    "dict_entries d' = dict_entries d" "iterators d' = iterators d" "ht_size (ht0 d') \<noteq> 0"
    using dictExpandIfNeeded_spec [OF d room] by blast
  have s0: "ht_size (get_ht d' 0) \<noteq> 0" using d'(5) by simp
  obtain pos0 where f0: "find_in_table ty d' 0 key = Some (bucket_index ty (get_ht d' 0) key, pos0)"
    "pos0 = None \<longleftrightarrow> key \<notin> fst ` set (ht_entries (get_ht d' 0))"
    "\<And>p. pos0 = Some p \<Longrightarrow> p < length (ht_table (get_ht d' 0) ! bucket_index ty (get_ht d' 0) key) \<and>
      fst (ht_table (get_ht d' 0) ! bucket_index ty (get_ht d' 0) key ! p) = key"
    using find_in_table_spec [OF get_ht_valid [OF d'(2)] s0 ty, of key] by blast
  have dom: "key \<in> dom (dict_map d) \<longleftrightarrow>
      key \<in> fst ` set (ht_entries (ht0 d')) \<or> key \<in> fst ` set (ht_entries (ht1 d'))"
    unfolding dict_map_dom d'(3) [symmetric] by (auto simp: dict_entries_def)
  show ?thesis
  proof (cases pos0)
    case (Some p)
    then have "key \<in> dom (dict_map d)" using f0(2) dom by simp
    moreover obtain v where "dictGetEntry d' (0, bucket_index ty (get_ht d' 0) key, p) = Some (key, v)"
      using found_entry [OF d'(2) s0] f0(3) [OF Some] by blast
    ultimately show ?thesis using d' f0(1) Some by (simp add: dictKeyIndex_def)
  next
    case None
    show ?thesis
    proof (cases "dictIsRehashing d'")
      case False
      have "ht_entries (ht1 d') = []" using dict_inv_plainD(2) [OF d'(2) False] by simp
      then have "key \<notin> dom (dict_map d)" using None f0(2) dom by simp
      then show ?thesis using d' f0(1) None False by (simp add: dictKeyIndex_def)
    next
      case True
      have s1: "ht_size (get_ht d' 1) \<noteq> 0" using dict_inv_rehashingD(7) [OF d'(2) True] by simp
      obtain pos1 where f1: "find_in_table ty d' 1 key = Some (bucket_index ty (get_ht d' 1) key, pos1)"
        "pos1 = None \<longleftrightarrow> key \<notin> fst ` set (ht_entries (get_ht d' 1))"
        "\<And>p. pos1 = Some p \<Longrightarrow> p < length (ht_table (get_ht d' 1) ! bucket_index ty (get_ht d' 1) key) \<and>
          fst (ht_table (get_ht d' 1) ! bucket_index ty (get_ht d' 1) key ! p) = key"
        using find_in_table_spec [OF get_ht_valid [OF d'(2)] s1 ty, of key] by blast
      show ?thesis
      proof (cases pos1)
        case (Some p)
        then have "key \<in> dom (dict_map d)" using f1(2) dom by simp
        moreover obtain v where "dictGetEntry d' (1, bucket_index ty (get_ht d' 1) key, p) = Some (key, v)"
          using found_entry [OF d'(2) s1] f1(3) [OF Some] by blast
        ultimately show ?thesis using d' f0(1) f1(1) None Some True by (simp add: dictKeyIndex_def)
      next
        case N1: None
        then have "key \<notin> dom (dict_map d)" using None f0(2) f1(2) dom by simp
        then show ?thesis using d' f0(1) f1(1) None N1 True s1 by (simp add: dictKeyIndex_def)
      qed
    qed
  qed
qed

lemma m_dictAddRaw_spec:
  assumes d: "dict_inv ty d" and room: "dict_room d" and ty: "type_ok ty"
  shows "\<exists>ref ex d'. m_dictAddRaw ty can d key = Some (ref, ex, d') \<and> dict_inv ty d' \<and>
    iterators d' = iterators d \<and>
    (if key \<in> dom (dict_map d)
     then ref = None \<and> dict_map d' = dict_map d \<and> dictSize d' = dictSize d \<and>
       (\<exists>r v. ex = Some r \<and> dictGetEntry d' r = Some (key, v))
     else ex = None \<and> dict_map d' = (dict_map d)(key \<mapsto> None) \<and> dictSize d' = Suc (dictSize d) \<and>
       (\<exists>r. ref = Some r \<and> dictGetEntry d' r = Some (key, None)))"
proof -
  obtain d1 where d1: "(if dictIsRehashing d then dictRehashStep ty d else Some d) = Some d1"
    "dict_inv ty d1" "mset (dict_entries d1) = mset (dict_entries d)" "iterators d1 = iterators d"
    by (rule maybe_step_spec [OF d])
  have map1: "dict_map d1 = dict_map d" by (rule dict_map_mset [OF d1(3) d])
  have size1: "dictSize d1 = dictSize d"
    using arg_cong [OF d1(3), of size] by (simp add: dict_size_entries [OF d1(2)] dict_size_entries [OF d])
  have room1: "dict_room d1" using room by (simp add: dict_room_def size1)
  obtain ix ex d2 where d2: "dictKeyIndex ty can d1 key = Some (ix, ex, d2)" "dict_inv ty d2"
    "dict_entries d2 = dict_entries d1" "iterators d2 = iterators d1"
    "if key \<in> dom (dict_map d1)
     then ix = None \<and> (\<exists>ref v. ex = Some ref \<and> dictGetEntry d2 ref = Some (key, v))
     else ex = None \<and>
       ix = Some (bucket_index ty (get_ht d2 (if dictIsRehashing d2 then 1 else 0)) key) \<and>
       ht_size (get_ht d2 (if dictIsRehashing d2 then 1 else 0)) \<noteq> 0"
    using dictKeyIndex_spec [OF d1(2) room1 ty] by blast
  have map2: "dict_map d2 = dict_map d" using map1 d2(3) by (simp add: dict_map_def)
  have size2: "dictSize d2 = dictSize d"
    using size1 d2(3) by (simp add: dict_size_entries [OF d2(2)] dict_size_entries [OF d1(2)])
  show ?thesis
  proof (cases "key \<in> dom (dict_map d)")
    case True
    then show ?thesis using d1 d2 map1 map2 size2 by (simp add: m_dictAddRaw_def)
  next
    case False
    define t where "t = (if dictIsRehashing d2 then 1 else 0 :: nat)"
    let ?h = "get_ht d2 t"
    let ?i = "bucket_index ty ?h key"
    let ?c = "(key, None) # ht_table ?h ! ?i"
    let ?d = "set_ht d2 t (?h\<lparr>ht_table := (ht_table ?h)[?i := ?c], ht_used := ht_used ?h + 1\<rparr>)"
    have ix: "ex = None" "ix = Some ?i" "ht_size ?h \<noteq> 0"
      using d2(5) False map1 by (simp_all add: t_def)
    have i: "?i < ht_size ?h" using bucket_index_less [OF get_ht_valid [OF d2(2)] ix(3)] .
    then have len: "?i < length (ht_table ?h)" using get_ht_length [OF d2(2), of t] by simp
    note ins = ht_insert_entry [OF get_ht_valid [OF d2(2)] ix(3), of ?i "(key, None)", simplified fst_conv, OF refl]
    have m: "mset (dict_entries ?d) = add_mset (key, None) (mset (dict_entries d2))"
      using ins(2) by (auto simp: dict_entries_def set_ht_def get_ht_def)
    have "key \<notin> fst ` set (dict_entries d2)" using False map2 dict_map_dom by metis
    then have "distinct (map fst ((key, None) # dict_entries d2))"
      using d2(2) by (simp add: dict_inv_def)
    then have keys: "distinct (map fst (dict_entries ?d))"
      by (rule distinct_keys_cong [rotated]) (simp only: m mset.simps image_mset_add_mset)
    have below: "t = 0 \<Longrightarrow> dictIsRehashing d2 \<Longrightarrow> ht_table (ht0 d2) ! ?i = [] \<Longrightarrow> ?c = []"
      by (simp add: t_def)
    have inv: "dict_inv ty ?d" and it: "iterators ?d = iterators d2"
      by (rule set_bucket_spec(1) [OF d2(2) i below ins(1) keys], assumption+,
          rule set_bucket_spec(3) [OF d2(2) i below ins(1) keys], assumption+)
    have "dict_map ?d = (dict_map d)(key \<mapsto> None)"
      using dict_map_add(1) [OF m inv] map2 by simp
    moreover have "dictSize ?d = Suc (dictSize d)"
      using arg_cong [OF m, of size] size2
      unfolding dict_size_entries [OF inv] dict_size_entries [OF d2(2)]
      by (simp only: size_mset size_add_mset)
    moreover have "dictGetEntry ?d (t, ?i, 0) = Some (key, None)"
      using len by (cases "t = 0") (simp_all add: dictGetEntry_def get_ht_def set_ht_def arr_simps)
    moreover have "m_dictAddRaw ty can d key = Some (Some (t, ?i, 0), None, ?d)"
      using d1(1) d2(1) ix len by (simp add: m_dictAddRaw_def arr_simps t_def [symmetric] Let_def)
    ultimately show ?thesis using False inv it d2(4) d1(4) by simp
  qed
qed

lemma m_dictAdd_spec:
  assumes d: "dict_inv ty d" and room: "dict_room d" and ty: "type_ok ty"
  shows "\<exists>st d'. m_dictAdd ty can d key v = Some (st, d') \<and> dict_inv ty d' \<and> iterators d' = iterators d \<and>
    (if key \<in> dom (dict_map d)
     then st = DICT_ERR \<and> dict_map d' = dict_map d \<and> dictSize d' = dictSize d
     else st = DICT_OK \<and> dict_map d' = (dict_map d)(key \<mapsto> Some v) \<and> dictSize d' = Suc (dictSize d))"
proof -
  obtain ref ex d1 where d1: "m_dictAddRaw ty can d key = Some (ref, ex, d1)" "dict_inv ty d1"
    "iterators d1 = iterators d"
    "if key \<in> dom (dict_map d)
     then ref = None \<and> dict_map d1 = dict_map d \<and> dictSize d1 = dictSize d \<and>
       (\<exists>r v. ex = Some r \<and> dictGetEntry d1 r = Some (key, v))
     else ex = None \<and> dict_map d1 = (dict_map d)(key \<mapsto> None) \<and> dictSize d1 = Suc (dictSize d) \<and>
       (\<exists>r. ref = Some r \<and> dictGetEntry d1 r = Some (key, None))"
    using m_dictAddRaw_spec [OF assms] by blast
  show ?thesis
  proof (cases "key \<in> dom (dict_map d)")
    case True
    then show ?thesis using d1 by (simp add: m_dictAdd_def)
  next
    case False
    then obtain r where r: "ref = Some r" "dictGetEntry d1 r = Some (key, None)"
      "dict_map d1 = (dict_map d)(key \<mapsto> None)" "dictSize d1 = Suc (dictSize d)"
      using d1(4) by auto
    from dictSetVal_spec [OF d1(2) r(2), of v] obtain d' where
      "dictSetVal d1 r v = Some d'" "dict_inv ty d'" "iterators d' = iterators d1"
      "dict_map d' = (dict_map d1)(key \<mapsto> Some v)" "dictSize d' = dictSize d1" by blast
    then show ?thesis using d1(1,3) r False by (simp add: m_dictAdd_def)
  qed
qed

lemma m_dictReplace_spec:
  assumes d: "dict_inv ty d" and room: "dict_room d" and ty: "type_ok ty"
  shows "\<exists>r freed d'. m_dictReplace ty can d key v = Some (r, freed, d') \<and> dict_inv ty d' \<and>
    iterators d' = iterators d \<and> dict_map d' = (dict_map d)(key \<mapsto> Some v) \<and>
    (case dict_map d key of None \<Rightarrow> r = 1 \<and> freed = [] \<and> dictSize d' = Suc (dictSize d)
     | Some old \<Rightarrow> r = 0 \<and> freed = [old] \<and> dictSize d' = dictSize d)"
proof -
  obtain ref ex d1 where d1: "m_dictAddRaw ty can d key = Some (ref, ex, d1)" "dict_inv ty d1"
    "iterators d1 = iterators d"
    "if key \<in> dom (dict_map d)
     then ref = None \<and> dict_map d1 = dict_map d \<and> dictSize d1 = dictSize d \<and>
       (\<exists>r v. ex = Some r \<and> dictGetEntry d1 r = Some (key, v))
     else ex = None \<and> dict_map d1 = (dict_map d)(key \<mapsto> None) \<and> dictSize d1 = Suc (dictSize d) \<and>
       (\<exists>r. ref = Some r \<and> dictGetEntry d1 r = Some (key, None))"
    using m_dictAddRaw_spec [OF assms] by blast
  show ?thesis
  proof (cases "dict_map d key")
    case (Some old)
    then have "key \<in> dom (dict_map d)" by blast
    with d1(4) obtain r w where r: "ref = None" "ex = Some r" "dictGetEntry d1 r = Some (key, w)"
      "dict_map d1 = dict_map d" "dictSize d1 = dictSize d" by auto
    have w: "w = old" using dictGetEntry_map [OF d1(2) r(3)] r(4) Some by simp
    from dictSetVal_spec [OF d1(2) r(3), of v] obtain d' where
      "dictSetVal d1 r v = Some d'" "dict_inv ty d'" "iterators d' = iterators d1"
      "dict_map d' = (dict_map d1)(key \<mapsto> Some v)" "dictSize d' = dictSize d1" by blast
    then show ?thesis using d1(1,3) r w Some by (simp add: m_dictReplace_def)
  next
    case None
    then have "key \<notin> dom (dict_map d)" by blast
    with d1(4) obtain r where r: "ref = Some r" "dictGetEntry d1 r = Some (key, None)"
      "dict_map d1 = (dict_map d)(key \<mapsto> None)" "dictSize d1 = Suc (dictSize d)" by auto
    from dictSetVal_spec [OF d1(2) r(2), of v] obtain d' where
      "dictSetVal d1 r v = Some d'" "dict_inv ty d'" "iterators d' = iterators d1"
      "dict_map d' = (dict_map d1)(key \<mapsto> Some v)" "dictSize d' = dictSize d1" by blast
    then show ?thesis using d1(1,3) r None by (simp add: m_dictReplace_def)
  qed
qed

section \<open>Lookup and removal\<close>

text \<open>The search \<open>m_dictFind\<close> and \<open>dictGenericDelete\<close> make after their rehashing step.\<close>

lemma table0_exists:
  assumes d: "dict_inv ty d" and ne: "dict_entries d \<noteq> []"
  shows "ht_size (get_ht d 0) \<noteq> 0"
proof (cases "dictIsRehashing d")
  case True
  then show ?thesis using dict_inv_rehashingD(6) [OF d] by simp
next
  case False
  have "ht_table (ht0 d) \<noteq> []"
    using ne dict_inv_plainD(3) [OF d False] by (auto simp: ht_entries_def)
  then show ?thesis using ht_table_Nil [OF get_ht_valid [OF d, of 0]] by simp
qed

lemma search_tables:
  fixes d :: "('k, 'v) dict" and key :: 'k
  assumes d: "dict_inv ty d" and ne: "dict_entries d \<noteq> []" and ty: "type_ok ty"
  defines "b \<equiv> \<lambda>t. bucket_index ty (get_ht d t) key"
  obtains (first) p where "find_in_table ty d 0 key = Some (b 0, Some p)" "b 0 < ht_size (get_ht d 0)"
      "p < length (ht_table (get_ht d 0) ! b 0)" "fst (ht_table (get_ht d 0) ! b 0 ! p) = key"
  | (second) p where "find_in_table ty d 0 key = Some (b 0, None)" "dictIsRehashing d"
      "find_in_table ty d 1 key = Some (b 1, Some p)" "b 1 < ht_size (get_ht d 1)"
      "p < length (ht_table (get_ht d 1) ! b 1)" "fst (ht_table (get_ht d 1) ! b 1 ! p) = key"
  | (miss_plain) "find_in_table ty d 0 key = Some (b 0, None)" "\<not> dictIsRehashing d"
      "key \<notin> dom (dict_map d)"
  | (miss) "find_in_table ty d 0 key = Some (b 0, None)" "dictIsRehashing d"
      "find_in_table ty d 1 key = Some (b 1, None)" "key \<notin> dom (dict_map d)"
proof -
  have s0: "ht_size (get_ht d 0) \<noteq> 0" by (rule table0_exists [OF d ne])
  obtain pos0 where f0: "find_in_table ty d 0 key = Some (b 0, pos0)"
    "pos0 = None \<longleftrightarrow> key \<notin> fst ` set (ht_entries (get_ht d 0))"
    "\<And>p. pos0 = Some p \<Longrightarrow> p < length (ht_table (get_ht d 0) ! b 0) \<and>
      fst (ht_table (get_ht d 0) ! b 0 ! p) = key"
    unfolding b_def using find_in_table_spec [OF get_ht_valid [OF d] s0 ty, of key] by blast
  have lt0: "b 0 < ht_size (get_ht d 0)"
    unfolding b_def by (rule bucket_index_less [OF get_ht_valid [OF d] s0])
  have dom: "key \<in> dom (dict_map d) \<longleftrightarrow>
      key \<in> fst ` set (ht_entries (ht0 d)) \<or> key \<in> fst ` set (ht_entries (ht1 d))"
    unfolding dict_map_dom by (auto simp: dict_entries_def)
  show thesis
  proof (cases pos0)
    case (Some p)
    then show thesis using f0 lt0 by (intro first) auto
  next
    case None
    show thesis
    proof (cases "dictIsRehashing d")
      case False
      have "ht_entries (ht1 d) = []" using dict_inv_plainD(2) [OF d False] by simp
      then show thesis using None f0 dom False by (intro miss_plain) simp_all
    next
      case True
      have s1: "ht_size (get_ht d 1) \<noteq> 0" using dict_inv_rehashingD(7) [OF d True] by simp
      obtain pos1 where f1: "find_in_table ty d 1 key = Some (b 1, pos1)"
        "pos1 = None \<longleftrightarrow> key \<notin> fst ` set (ht_entries (get_ht d 1))"
        "\<And>p. pos1 = Some p \<Longrightarrow> p < length (ht_table (get_ht d 1) ! b 1) \<and>
          fst (ht_table (get_ht d 1) ! b 1 ! p) = key"
        unfolding b_def using find_in_table_spec [OF get_ht_valid [OF d] s1 ty, of key] by blast
      have lt1: "b 1 < ht_size (get_ht d 1)"
        unfolding b_def by (rule bucket_index_less [OF get_ht_valid [OF d] s1])
      show thesis
      proof (cases pos1)
        case (Some p)
        then show thesis using f0(1) f1 lt1 None True by (intro second) auto
      next
        case N1: None
        then show thesis using f0 f1 dom None True by (intro miss) simp_all
      qed
    qed
  qed
qed

lemma m_dictFind_spec:
  assumes d: "dict_inv ty d" and ty: "type_ok ty"
  shows "\<exists>ref d'. m_dictFind ty d key = Some (ref, d') \<and> dict_inv ty d' \<and>
    mset (dict_entries d') = mset (dict_entries d) \<and> iterators d' = iterators d \<and>
    (case dict_map d key of None \<Rightarrow> ref = None
     | Some v \<Rightarrow> \<exists>r. ref = Some r \<and> dictGetEntry d' r = Some (key, v))"
proof (cases "ht_used (ht0 d) + ht_used (ht1 d) = 0")
  case True
  then have "dict_entries d = []" using dict_size_entries [OF d] by (simp add: dictSize_def)
  then show ?thesis using True d by (simp add: m_dictFind_def dict_map_def)
next
  case nonempty: False
  obtain d1 where d1: "(if dictIsRehashing d then dictRehashStep ty d else Some d) = Some d1"
    "dict_inv ty d1" "mset (dict_entries d1) = mset (dict_entries d)" "iterators d1 = iterators d"
    by (rule maybe_step_spec [OF d])
  have map1: "dict_map d1 = dict_map d" by (rule dict_map_mset [OF d1(3) d])
  have ne: "dict_entries d1 \<noteq> []"
    using nonempty dict_size_entries [OF d] d1(3) by (auto simp: dictSize_def)
  have hit: ?thesis
    if r: "m_dictFind ty d key = Some (Some r, d1)" "\<exists>v. dictGetEntry d1 r = Some (key, v)" for r
    using r dictGetEntry_map [OF d1(2)] map1 d1 by (cases r) fastforce
  have none: ?thesis
    if "m_dictFind ty d key = Some (None, d1)" "key \<notin> dom (dict_map d1)"
    using that d1 map1 by (simp add: domIff)
  show ?thesis
    using d1(2) ne ty
  proof (cases rule: search_tables [of ty d1 key])
    case (first p)
    have e: "\<exists>v. dictGetEntry d1 (0, bucket_index ty (get_ht d1 0) key, p) = Some (key, v)"
      by (rule found_entry [OF d1(2) _ first(3,4)]) (use first(2) in simp)
    show ?thesis
      by (rule hit [OF _ e]) (use d1(1) first nonempty in \<open>auto simp: m_dictFind_def\<close>)
  next
    case (second p)
    have e: "\<exists>v. dictGetEntry d1 (1, bucket_index ty (get_ht d1 1) key, p) = Some (key, v)"
      by (rule found_entry [OF d1(2) _ second(5,6)]) (use second(4) in simp)
    show ?thesis
      by (rule hit [OF _ e]) (use d1(1) second nonempty in \<open>auto simp: m_dictFind_def\<close>)
  next
    case miss_plain
    show ?thesis
      by (rule none [OF _ miss_plain(3)])
        (use d1(1) miss_plain nonempty in \<open>auto simp: m_dictFind_def\<close>)
  next
    case miss
    show ?thesis
      by (rule none [OF _ miss(4)]) (use d1(1) miss nonempty in \<open>auto simp: m_dictFind_def\<close>)
  qed
qed

lemma dictGenericDelete_spec:
  assumes d: "dict_inv ty d" and ty: "type_ok ty"
  shows "\<exists>he freed d'. dictGenericDelete ty d key nofree = Some (he, freed, d') \<and> dict_inv ty d' \<and>
    iterators d' = iterators d \<and> dict_map d' = (dict_map d)(key := None) \<and>
    he = map_option (\<lambda>v. (key, v)) (dict_map d key) \<and>
    freed = (if nofree then [] else (case he of None \<Rightarrow> [] | Some e \<Rightarrow> [e])) \<and>
    dictSize d' = (if dict_map d key = None then dictSize d else dictSize d - 1)"
proof (cases "ht_used (ht0 d) = 0 \<and> ht_used (ht1 d) = 0")
  case True
  then have "dict_entries d = []" using dict_size_entries [OF d] by (simp add: dictSize_def)
  then have "dict_map d = Map.empty" by (simp add: dict_map_def)
  then show ?thesis using True d by (simp add: dictGenericDelete_def)
next
  case nonempty: False
  obtain d1 where d1: "(if dictIsRehashing d then dictRehashStep ty d else Some d) = Some d1"
    "dict_inv ty d1" "mset (dict_entries d1) = mset (dict_entries d)" "iterators d1 = iterators d"
    by (rule maybe_step_spec [OF d])
  have map1: "dict_map d1 = dict_map d" by (rule dict_map_mset [OF d1(3) d])
  have size1: "dictSize d1 = dictSize d"
    using arg_cong [OF d1(3), of size] by (simp add: dict_size_entries [OF d1(2)] dict_size_entries [OF d])
  have ne: "dict_entries d1 \<noteq> []"
    using nonempty dict_size_entries [OF d] d1(3) by (auto simp: dictSize_def)
  have del: ?thesis
    if u: "\<exists>v d'. unlink_entry d1 t i p = Some ((key, v), d') \<and> dict_inv ty d' \<and>
        iterators d' = iterators d1 \<and> mset (dict_entries d1) = add_mset (key, v) (mset (dict_entries d'))"
      and g: "\<And>v d'. unlink_entry d1 t i p = Some ((key, v), d') \<Longrightarrow>
        dictGenericDelete ty d key nofree = Some (Some (key, v), if nofree then [] else [(key, v)], d')"
    for t i p
  proof -
    obtain v d' where u': "unlink_entry d1 t i p = Some ((key, v), d')" "dict_inv ty d'"
      "iterators d' = iterators d1" "mset (dict_entries d1) = add_mset (key, v) (mset (dict_entries d'))"
      using u by blast
    have "dict_map d' = (dict_map d)(key := None)" using dict_map_remove [OF u'(4) d1(2)] map1 by simp
    moreover have "dict_map d key = Some v" using dict_map_add(1) [OF u'(4) d1(2)] map1 by simp
    moreover have "dictSize d' = dictSize d - 1"
      using arg_cong [OF u'(4), of size] size1
      by (simp add: dict_size_entries [OF u'(2)] dict_size_entries [OF d1(2)])
    ultimately show ?thesis using g [OF u'(1)] u'(2,3) d1(4) by auto
  qed
  have keep: ?thesis
    if "dictGenericDelete ty d key nofree = Some (None, [], d1)" "key \<notin> dom (dict_map d1)"
    using that d1(2,4) map1 size1 by (auto simp: domIff)
  show ?thesis
    using d1(2) ne ty
  proof (cases rule: search_tables [of ty d1 key])
    case (first p)
    show ?thesis
      by (rule del [OF unlink_entry_spec [OF d1(2) first(2-4)]])
        (use d1(1) first(1) nonempty in \<open>auto simp: dictGenericDelete_def\<close>)
  next
    case (second p)
    show ?thesis
      by (rule del [OF unlink_entry_spec [OF d1(2) second(4-6)]])
        (use d1(1) second(1-3) nonempty in \<open>auto simp: dictGenericDelete_def\<close>)
  next
    case miss_plain
    show ?thesis
      by (rule keep [OF _ miss_plain(3)])
        (use d1(1) miss_plain nonempty in \<open>auto simp: dictGenericDelete_def\<close>)
  next
    case miss
    show ?thesis
      by (rule keep [OF _ miss(4)])
        (use d1(1) miss nonempty in \<open>auto simp: dictGenericDelete_def\<close>)
  qed
qed

lemma m_dictFetchValue_spec:
  assumes d: "dict_inv ty d" and ty: "type_ok ty"
  shows "\<exists>d'. m_dictFetchValue ty d key = Some (Option.bind (dict_map d key) id, d') \<and> dict_inv ty d' \<and>
    dict_map d' = dict_map d \<and> iterators d' = iterators d"
proof -
  obtain ref d' where f: "m_dictFind ty d key = Some (ref, d')" "dict_inv ty d'"
    "mset (dict_entries d') = mset (dict_entries d)" "iterators d' = iterators d"
    "case dict_map d key of None \<Rightarrow> ref = None
     | Some v \<Rightarrow> \<exists>r. ref = Some r \<and> dictGetEntry d' r = Some (key, v)"
    using m_dictFind_spec [OF assms] by blast
  have "dict_map d' = dict_map d" by (rule dict_map_mset [OF f(3) d])
  then show ?thesis
    using f by (cases "dict_map d key") (auto simp: m_dictFetchValue_def)
qed

section \<open>Clearing\<close>

lemma free_chain_spec: "length c \<le> u \<Longrightarrow> free_chain c u = Some (c, u - length c)"
  by (induction c arbitrary: u) (auto simp: count_dec_def)

lemma clear_buckets_spec:
  "n = length bs \<Longrightarrow> u = length (concat bs) \<Longrightarrow> clear_buckets n bs u = Some (concat bs)"
proof (induction n arbitrary: bs u)
  case 0
  then show ?case by simp
next
  case (Suc n)
  then obtain b bs' where bs: "bs = b # bs'" by (cases bs) auto
  show ?case
  proof (cases "u = 0")
    case True
    with Suc.prems(2) have "concat bs = []" by (metis length_0_conv)
    then show ?thesis using True by simp
  next
    case False
    have "clear_buckets n bs' (u - length b) = Some (concat bs')"
      using Suc.prems bs by (intro Suc.IH) simp_all
    then show ?thesis using False bs Suc.prems(2) by (simp add: arr_simps free_chain_spec)
  qed
qed

lemma dictClear_spec: "ht_valid ty h \<Longrightarrow> dictClear h = Some (ht_entries h, dictReset)"
  using clear_buckets_spec [of "ht_size h" "ht_table h" "ht_used h"]
  by (simp add: dictClear_def ht_validD ht_entries_def)

lemma m_dictEmpty_spec:
  assumes "dict_inv ty d"
  shows "m_dictEmpty d = Some (dict_entries d, m_dictCreate)"
proof -
  have "ht_valid ty (ht0 d)" "ht_valid ty (ht1 d)" using assms by (simp_all add: dict_inv_def)
  then show ?thesis
    by (cases d) (simp add: dictClear_spec m_dictEmpty_def m_dictCreate_def dict_entries_def)
qed

lemma m_dictRelease_spec:
  assumes "dict_inv ty d"
  shows "m_dictRelease d = Some (dict_entries d)"
proof -
  have "ht_valid ty (ht0 d)" "ht_valid ty (ht1 d)" using assms by (simp_all add: dict_inv_def)
  then show ?thesis by (simp add: dictClear_spec m_dictRelease_def dict_entries_def)
qed

lemma dict_inv_create [simp]: "dict_inv ty m_dictCreate"
  by (simp add: dict_inv_def m_dictCreate_def dictIsRehashing_def dict_entries_def)

lemma dict_map_create [simp]: "dict_map m_dictCreate = Map.empty"
  by (simp add: dict_map_def m_dictCreate_def dict_entries_def)

section \<open>A random entry\<close>

lemma random_index_eq:
  assumes h: "ht_valid ty h" and s: "ht_size h \<noteq> 0"
  shows "unat ((of_nat r :: u64) AND ht_sizemask h) = r mod ht_size h"
proof -
  from ht_validD(3) [OF h s] obtain k where k: "k \<le> 60" "ht_size h = 2 ^ k" by (rule table_sizeE)
  have mask: "ht_sizemask h = of_nat (2 ^ k - 1)" using h s k by (simp add: ht_valid_def)
  have "unat ((of_nat r :: u64) AND ht_sizemask h) = unat (of_nat r :: u64) mod 2 ^ k"
    unfolding mask by (rule unat_and_low_mask) (use k in simp)
  also have "\<dots> = take_bit k (take_bit 64 r)" by (simp add: unsigned_of_nat take_bit_eq_mod)
  also have "\<dots> = r mod 2 ^ k" using k(1) by (simp add: min_def take_bit_eq_mod [symmetric])
  finally show ?thesis by (simp add: k)
qed

text \<open>The \<open>do while\<close> loops stay inside the tables: they fail only when the draws run out.\<close>

definition span :: "('k, 'v) dict \<Rightarrow> nat" where
  "span d = ht_size (ht0 d) + ht_size (ht1 d) - nat (rehashidx d)"

definition bucket_at :: "('k, 'v) dict \<Rightarrow> nat \<Rightarrow> nat \<times> nat" where
  "bucket_at d h = (if h \<ge> ht_size (ht0 d) then (1, h - ht_size (ht0 d)) else (0, h))"

lemma pick_bucket_sound:
  assumes d: "dict_inv ty d" "\<not> dictIsRehashing d" "dict_entries d \<noteq> []"
    and p: "pick_bucket draws d = Some (he, t, idx, rest)"
  shows "idx < length (ht_table (get_ht d t)) \<and> he = ht_table (get_ht d t) ! idx \<and> he \<noteq> []"
  using p
proof (induction draws)
  case (Cons r draws)
  show ?case using Cons by (auto simp: bind_eq_Some_conv Let_def dest!: arr_get_SomeD split: if_splits)
qed simp

lemma pick_bucket_ends:
  assumes d: "dict_inv ty d" "\<not> dictIsRehashing d" "dict_entries d \<noteq> []"
  shows "pick_bucket draws d \<noteq> None \<longleftrightarrow> (\<exists>r\<in>set draws. ht_table (ht0 d) ! (r mod ht_size (ht0 d)) \<noteq> [])"
proof (induction draws)
  case (Cons r draws)
  have s: "ht_size (ht0 d) \<noteq> 0" using table0_exists [OF d(1,3)] by simp
  have "r mod ht_size (ht0 d) < length (ht_table (ht0 d))"
    using s get_ht_length [OF d(1), of 0] by simp
  with Cons random_index_eq [OF get_ht_valid [OF d(1), of 0]] s show ?case
    by (simp add: arr_simps Let_def)
qed simp

lemma pick_rehashing_sound:
  assumes p: "pick_rehashing draws d = Some (he, t, idx, rest)"
  shows "idx < length (ht_table (get_ht d t)) \<and> he = ht_table (get_ht d t) ! idx \<and> he \<noteq> []"
  using p
proof (induction draws)
  case (Cons r draws)
  show ?case using Cons by (auto simp: bind_eq_Some_conv Let_def dest!: arr_get_SomeD split: if_splits)
qed simp

lemma bucket_at_less:
  assumes "dict_inv ty d" "h < ht_size (ht0 d) + ht_size (ht1 d)" "bucket_at d h = (t, i)"
  shows "i < length (ht_table (get_ht d t))"
  using assms get_ht_length [OF assms(1), of 0] get_ht_length [OF assms(1), of 1]
  by (auto simp: bucket_at_def split: if_splits)

lemma pick_rehashing_ends:
  assumes d: "dict_inv ty d" "dictIsRehashing d"
  shows "pick_rehashing draws d \<noteq> None \<longleftrightarrow>
    (\<exists>r\<in>set draws. case bucket_at d (nat (rehashidx d) + r mod span d) of
       (t, i) \<Rightarrow> ht_table (get_ht d t) ! i \<noteq> [])"
proof (induction draws)
  case (Cons r draws)
  note inv = dict_inv_rehashingD [OF d]
  have sp: "span d \<noteq> 0" using inv(5,7) by (auto simp: span_def)
  obtain t i where ti: "bucket_at d (nat (rehashidx d) + r mod span d) = (t, i)" by fastforce
  have "r mod span d < span d" using sp by simp
  then have "nat (rehashidx d) + r mod span d < ht_size (ht0 d) + ht_size (ht1 d)"
    unfolding span_def by linarith
  then have "i < length (ht_table (get_ht d t))" using bucket_at_less [OF d(1) _ ti] by blast
  with Cons sp ti show ?case
    by (simp add: arr_simps Let_def span_def [symmetric] bucket_at_def [symmetric])
qed simp

lemma m_dictGetRandomKey_sound:
  assumes d: "dict_inv ty d" and r: "m_dictGetRandomKey ty draws d = Some (ref, rest, d')"
  shows "dict_inv ty d' \<and> dict_map d' = dict_map d \<and> iterators d' = iterators d \<and>
    (if dict_map d = Map.empty then ref = None
     else \<exists>x k v. ref = Some x \<and> dictGetEntry d' x = Some (k, v))"
proof (cases "dictSize d = 0")
  case True
  then have "dict_map d = Map.empty" using dict_size_entries [OF d] by (simp add: dict_map_def)
  then show ?thesis using True r d by (simp add: m_dictGetRandomKey_def)
next
  case False
  obtain d1 where d1: "(if dictIsRehashing d then dictRehashStep ty d else Some d) = Some d1"
    "dict_inv ty d1" "mset (dict_entries d1) = mset (dict_entries d)" "iterators d1 = iterators d"
    by (rule maybe_step_spec [OF d])
  have map1: "dict_map d1 = dict_map d" by (rule dict_map_mset [OF d1(3) d])
  have ne: "dict_entries d1 \<noteq> []" using False dict_size_entries [OF d] d1(3) by auto
  then have "dict_map d1 \<noteq> Map.empty" by (simp add: dict_map_def)
  then have nonempty: "dict_map d \<noteq> Map.empty" by (simp only: map1 not_False_eq_True)
  let ?pick = "if dictIsRehashing d1 then pick_rehashing draws d1 else pick_bucket draws d1"
  obtain he t idx ds where p: "?pick = Some (he, t, idx, ds)"
    using r False d1(1) by (cases ?pick) (auto simp: m_dictGetRandomKey_def)
  then have ds: "ds \<noteq> []" "ref = Some (t, idx, hd ds mod length he)" "d' = d1"
    using r False d1(1) by (cases ds; simp add: m_dictGetRandomKey_def)+
  have b: "idx < length (ht_table (get_ht d1 t))" "he = ht_table (get_ht d1 t) ! idx" "he \<noteq> []"
    using p pick_rehashing_sound [of draws d1 he t idx ds]
      pick_bucket_sound [OF d1(2) _ ne, of draws he t idx ds] by (auto split: if_splits)
  have "dictGetEntry d1 (t, idx, hd ds mod length he) = Some (he ! (hd ds mod length he))"
    using b by (simp add: dictGetEntry_def arr_simps)
  then show ?thesis using ds nonempty d1 map1 by (simp add: prod_eq_iff)
qed

text \<open>Every key can be drawn.\<close>

lemma m_dictGetRandomKey_complete:
  assumes d: "dict_inv ty d" and key: "key \<in> dom (dict_map d)"
  shows "\<exists>draws ref v d'. m_dictGetRandomKey ty draws d = Some (Some ref, [], d') \<and>
    dictGetEntry d' ref = Some (key, v)"
proof -
  have size: "dictSize d \<noteq> 0"
    using key dict_size_entries [OF d] by (auto simp: dict_map_dom)
  obtain d1 where d1: "(if dictIsRehashing d then dictRehashStep ty d else Some d) = Some d1"
    "dict_inv ty d1" "mset (dict_entries d1) = mset (dict_entries d)"
    by (rule maybe_step_spec [OF d])
  have "key \<in> fst ` set (dict_entries d1)"
    using key d1(3) by (simp add: dict_map_dom mset_eq_setD [OF d1(3)])
  then obtain t v where "(key, v) \<in> set (ht_entries (get_ht d1 t))" and t: "t = 0 \<or> t = 1"
  proof -
    assume *: "\<And>v t. (key, v) \<in> set (ht_entries (get_ht d1 t)) \<Longrightarrow> t = 0 \<or> t = 1 \<Longrightarrow> thesis"
    assume "key \<in> fst ` set (dict_entries d1)"
    then obtain e where "e \<in> set (dict_entries d1)" "key = fst e" by blast
    then have "(key, snd e) \<in> set (ht_entries (ht0 d1)) \<or> (key, snd e) \<in> set (ht_entries (ht1 d1))"
      by (simp add: dict_entries_def)
    then show thesis using * [of "snd e" 0] * [of "snd e" 1] by auto
  qed
  then obtain i where i: "i < length (ht_table (get_ht d1 t))" "(key, v) \<in> set (ht_table (get_ht d1 t) ! i)"
    unfolding ht_entries_def set_concat_nth by blast
  let ?b = "ht_table (get_ht d1 t) ! i"
  obtain p where p: "p < length ?b" "?b ! p = (key, v)"
    using i(2) by (auto simp: in_set_conv_nth)
  have isz: "i < ht_size (get_ht d1 t)" using i(1) get_ht_length [OF d1(2), of t] by simp
  have entry: "dictGetEntry d1 (t, i, p mod length ?b) = Some (key, v)"
    using i(1) p by (simp add: dictGetEntry_def arr_simps)
  have bne: "?b \<noteq> []" using p(1) by auto
  have "\<exists>r. (if dictIsRehashing d1 then pick_rehashing [r, p] d1 else pick_bucket [r, p] d1)
      = Some (?b, t, i, [p])"
  proof (cases "dictIsRehashing d1")
    case False
    then have t0: "t = 0"
      using isz t dict_inv_plainD(2) [OF d1(2) False] by (auto simp: dictReset_def)
    have "unat ((of_nat i :: u64) AND ht_sizemask (ht0 d1)) = i"
      using random_index_eq [OF get_ht_valid [OF d1(2), of 0]] isz t0 by simp
    with False i(1) bne t0 show ?thesis
      by (intro exI [of _ i]) (simp add: arr_simps Let_def)
  next
    case True
    note inv = dict_inv_rehashingD [OF d1(2) True]
    define h where "h = (if t = 0 then i else ht_size (ht0 d1) + i)"
    have ge: "nat (rehashidx d1) \<le> h"
    proof (cases "t = 0")
      case True
      then show ?thesis using inv(8) [of i] bne by (auto simp: h_def not_less [symmetric])
    next
      case False
      then show ?thesis using inv(5) by (simp add: h_def)
    qed
    have "h - nat (rehashidx d1) < span d1"
      using ge isz t inv(5) by (auto simp: span_def h_def)
    then have "nat (rehashidx d1) + (h - nat (rehashidx d1)) mod span d1 = h" "span d1 \<noteq> 0"
      using ge by simp_all
    moreover have "bucket_at d1 h = (t, i)" using t isz by (auto simp: bucket_at_def h_def)
    ultimately show ?thesis
      using True i(1) bne
      by (intro exI [of _ "h - nat (rehashidx d1)"])
        (simp add: arr_simps Let_def span_def [symmetric] bucket_at_def [symmetric])
  qed
  then obtain r where "(if dictIsRehashing d1 then pick_rehashing [r, p] d1 else pick_bucket [r, p] d1)
      = Some (?b, t, i, [p])" by blast
  then have "m_dictGetRandomKey ty [r, p] d = Some (Some (t, i, p mod length ?b), [], d1)"
    using size d1(1) by (simp add: m_dictGetRandomKey_def)
  with entry show ?thesis by blast
qed

text \<open>However the draws begin, they can go on so that a key is drawn: the loops never leave the
  tables.\<close>

lemma pick_bucket_append:
  assumes "pick_bucket ds d = Some (he, t, i, rest)" "rest \<noteq> []"
  shows "pick_bucket (draws @ ds) d = Some (he', t', i', rest') \<Longrightarrow> rest' \<noteq> []"
proof (induction draws)
  case (Cons r draws)
  have "ds \<noteq> []" using assms(1) by auto
  then show ?case using Cons by (auto simp: Let_def bind_eq_Some_conv split: if_splits)
qed (use assms in simp)

lemma pick_rehashing_append:
  assumes "pick_rehashing ds d = Some (he, t, i, rest)" "rest \<noteq> []"
  shows "pick_rehashing (draws @ ds) d = Some (he', t', i', rest') \<Longrightarrow> rest' \<noteq> []"
proof (induction draws)
  case (Cons r draws)
  have "ds \<noteq> []" using assms(1) by auto
  then show ?case using Cons by (auto simp: Let_def bind_eq_Some_conv split: if_splits)
qed (use assms in simp)

lemma m_dictGetRandomKey_returns:
  assumes d: "dict_inv ty d"
  shows "\<exists>ds. m_dictGetRandomKey ty (draws @ ds) d \<noteq> None"
proof (cases "dictSize d = 0")
  case True
  then show ?thesis by (simp add: m_dictGetRandomKey_def)
next
  case False
  have "dict_entries d \<noteq> []" using False dict_size_entries [OF d] by auto
  then have "hd (dict_entries d) \<in> set (dict_entries d)" by simp
  then obtain key where "key \<in> dom (dict_map d)" by (metis dict_map_dom imageI)
  from m_dictGetRandomKey_complete [OF d this] obtain ds ref v d' where
    m: "m_dictGetRandomKey ty ds d = Some (Some ref, [], d')" by blast
  obtain d1 where d1: "(if dictIsRehashing d then dictRehashStep ty d else Some d) = Some d1"
    "dict_inv ty d1" "mset (dict_entries d1) = mset (dict_entries d)"
    by (rule maybe_step_spec [OF d])
  have ne: "dict_entries d1 \<noteq> []" using False dict_size_entries [OF d] d1(3) by auto
  let ?pick = "\<lambda>rs. if dictIsRehashing d1 then pick_rehashing rs d1 else pick_bucket rs d1"
  obtain he t i rest where p: "?pick ds = Some (he, t, i, rest)" "rest \<noteq> []"
    using m False d1(1) by (cases "?pick ds") (auto simp: m_dictGetRandomKey_def split: list.splits)
  have "?pick (draws @ ds) \<noteq> None"
  proof (cases "dictIsRehashing d1")
    case True
    then have "pick_rehashing ds d1 \<noteq> None" using p(1) by simp
    then show ?thesis unfolding if_P [OF True] pick_rehashing_ends [OF d1(2) True] by (simp only: set_append bex_Un simp_thms)
  next
    case False
    then have "pick_bucket ds d1 \<noteq> None" using p(1) by simp
    then show ?thesis unfolding if_not_P [OF False] pick_bucket_ends [OF d1(2) False ne] by (simp only: set_append bex_Un simp_thms)
  qed
  then obtain he' t' i' rest' where q: "?pick (draws @ ds) = Some (he', t', i', rest')" by auto
  have "rest' \<noteq> []"
    using p q pick_bucket_append [of ds d1 he t i rest draws he' t' i' rest']
      pick_rehashing_append [of ds d1 he t i rest draws he' t' i' rest'] by (cases "dictIsRehashing d1") auto
  then have "m_dictGetRandomKey ty (draws @ ds) d \<noteq> None"
    using False d1(1) q by (cases rest') (simp_all add: m_dictGetRandomKey_def)
  then show ?thesis by blast
qed

end
