(* ===== verification/SlotTable.thy ===== *)
theory SlotTable
  imports DictInv Siphash Interfaces
begin

text \<open>
  The dictionary type of the slots' key tables, \<open>hashSlotDictType\<close> of \<open>redisxslot.c\<close>: keys
  are Redis strings (their bytes), hashed with SipHash under the seed of \<open>dict.c\<close>, which
  nothing in the module sets. The dictionary with this type provides the keyed-table
  contract of \<open>Interfaces\<close>.
\<close>

section \<open>The code\<close>

text \<open>A static array that is never written: 16 zero bytes.\<close>

definition dict_hash_function_seed :: "u8 list" where
  "dict_hash_function_seed = replicate 16 0"

definition m_dictGenHashFunction :: "u8 list \<Rightarrow> u64" where
  "m_dictGenHashFunction key = siphash key dict_hash_function_seed"

definition m_dictGenCaseHashFunction :: "u8 list \<Rightarrow> u64" where
  "m_dictGenCaseHashFunction buf = siphash_nocase buf dict_hash_function_seed"

text \<open>The length is passed on as an \<open>int\<close>; Redis strings are shorter than 2 GB.\<close>

definition dictModuleStrHash :: "string \<Rightarrow> u64" where
  "dictModuleStrHash key = m_dictGenHashFunction (map of_char key)"

fun memcmp :: "string \<Rightarrow> string \<Rightarrow> nat \<Rightarrow> int" where
  "memcmp (a # s) (b # t) (Suc n) =
     (if a = b then memcmp s t n else of_char a - of_char b)"
| "memcmp s t n = 0"

definition dictModuleStrKeyCompare :: "string \<Rightarrow> string \<Rightarrow> bool" where
  "dictModuleStrKeyCompare key1 key2 =
     (let l1 = length key1; l2 = length key2
      in if l1 \<noteq> l2 then False else memcmp key1 key2 l1 = 0)"

definition hashSlotDictType :: "string dictType" where
  "hashSlotDictType = \<lparr>hashFunction = dictModuleStrHash, keyCompare = dictModuleStrKeyCompare\<rparr>"

lemma memcmp_zero: "length s = n \<Longrightarrow> length t = n \<Longrightarrow> memcmp s t n = 0 \<longleftrightarrow> s = t"
  by (induction s t n rule: memcmp.induct) (auto simp: of_char_eq_iff)

lemma type_ok_hashSlotDictType: "type_ok hashSlotDictType"
  by (simp add: type_ok_def hashSlotDictType_def dictModuleStrKeyCompare_def memcmp_zero Let_def)
    (metis memcmp_zero)

section \<open>The dictionary as a keyed table\<close>

text \<open>Work done on a table between requests: a bounded or a timed rehashing, the shrinking
  of the cron job, and lookups, which rehash one step on the way.\<close>

datatype dict_work = Rehash nat | RehashMs "nat \<Rightarrow> int" int | Resize bool | Find string

definition dict_put :: "bool \<Rightarrow> (string, 'v) dict \<Rightarrow> string \<Rightarrow> 'v \<Rightarrow> (bool \<times> (string, 'v) dict) option" where
  "dict_put can d k v = do { (st, d) \<leftarrow> m_dictAdd hashSlotDictType can d k v; Some (st = DICT_OK, d) }"

definition dict_drop :: "(string, 'v) dict \<Rightarrow> string \<Rightarrow> (bool \<times> (string, 'v) dict) option" where
  "dict_drop d k = do { (st, freed, d) \<leftarrow> m_dictDelete hashSlotDictType d k; Some (st = DICT_OK, d) }"

fun dict_maintain :: "dict_work \<Rightarrow> (string, 'v) dict \<Rightarrow> (string, 'v) dict option" where
  "dict_maintain (Rehash n) d = do { (r, d) \<leftarrow> m_dictRehash hashSlotDictType d n; Some d }"
| "dict_maintain (RehashMs clock ms) d =
     do { (r, d) \<leftarrow> m_dictRehashMilliseconds hashSlotDictType clock d ms; Some d }"
| "dict_maintain (Resize can) d = do { (st, d) \<leftarrow> m_dictResize can d; Some d }"
| "dict_maintain (Find k) d = do { (ref, d) \<leftarrow> m_dictFind hashSlotDictType d k; Some d }"

definition dict_room_for :: "('k, 'v) dict \<Rightarrow> nat \<Rightarrow> bool" where
  "dict_room_for d n \<longleftrightarrow> dictSize d + n \<le> 2 ^ 59"

lemma dict_same_entries:
  assumes "dict_inv ty d" "dict_inv ty d'" "mset (dict_entries d') = mset (dict_entries d)"
  shows "dict_map d' = dict_map d" "dictSize d' = dictSize d"
  using dict_map_mset [OF assms(3,1)] arg_cong [OF assms(3), of size]
  by (auto simp: dict_size_entries [OF assms(1)] dict_size_entries [OF assms(2)])

lemma m_dictResize_keeps:
  assumes d: "dict_inv ty d"
  shows "\<exists>st d'. m_dictResize can d = Some (st, d') \<and> dict_inv ty d' \<and>
    dict_entries d' = dict_entries d \<and> iterators d' = iterators d"
proof (cases "\<not> can \<or> dictIsRehashing d")
  case True
  then show ?thesis using d by (auto simp: m_dictResize_def)
next
  case False
  let ?m = "sint (of_nat (ht_used (ht0 d)) :: u32)"
  let ?n = "if ?m < int DICT_HT_INITIAL_SIZE then int DICT_HT_INITIAL_SIZE else ?m"
  have m: "?m < 2 ^ 31" using sint_less [of "of_nat (ht_used (ht0 d)) :: u32"] by simp
  have n: "0 \<le> ?n" "?n < 2 ^ 31" using m by (auto simp: DICT_HT_INITIAL_SIZE_def)
  then have "unat (word_of_int ?n :: u64) = nat ?n"
    by (simp add: unat_eq_nat_uint uint_word_of_int)
  then have "unat (word_of_int ?n :: u64) \<le> 2 ^ 60" using n by simp
  from m_dictExpand_spec [OF d this] False show ?thesis
    by (auto simp: m_dictResize_def Let_def)
qed

lemma dict_maintain_keeps:
  assumes d: "dict_inv hashSlotDictType d"
  shows "\<exists>d'. dict_maintain m d = Some d' \<and> dict_inv hashSlotDictType d' \<and>
    mset (dict_entries d') = mset (dict_entries d)"
proof (cases m)
  case (Rehash n)
  then show ?thesis using m_dictRehash_spec [OF d, of n] by auto
next
  case (RehashMs clock ms)
  then show ?thesis
    using rehash_ms_loop_spec [OF d, of clock "clock 0" ms 1 0]
    by (auto simp: m_dictRehashMilliseconds_def)
next
  case (Resize can)
  then show ?thesis using m_dictResize_keeps [OF d, of can] by auto
next
  case (Find k)
  then show ?thesis using m_dictFind_spec [OF d type_ok_hashSlotDictType, of k] by auto
qed

interpretation slot_table: keyed_table "dict_inv hashSlotDictType" dict_room_for dict_map Some
  "dict_put can" dict_drop dict_maintain for can
proof
  fix d :: "(string, 'v) dict" and n k v
  assume d: "dict_inv hashSlotDictType d" and r: "dict_room_for d (Suc n)"
  then have "dict_room d" by (simp add: dict_room_for_def dict_room_def)
  from m_dictAdd_spec [OF d this type_ok_hashSlotDictType, of can k v] r
  show "\<exists>d'. dict_put can d k v = Some (dict_map d k = None, d') \<and> dict_inv hashSlotDictType d' \<and>
      dict_room_for d' n \<and> dict_map d' = (if dict_map d k = None then (dict_map d)(k \<mapsto> Some v) else dict_map d)"
    by (auto simp: dict_put_def dict_room_for_def domIff split: if_splits)
next
  fix d :: "(string, 'v) dict" and k
  assume d: "dict_inv hashSlotDictType d"
  from dictGenericDelete_spec [OF d type_ok_hashSlotDictType, of k False]
  show "\<exists>d'. dict_drop d k = Some (dict_map d k \<noteq> None, d') \<and> dict_inv hashSlotDictType d' \<and>
      (\<forall>n. dict_room_for d n \<longrightarrow> dict_room_for d' n) \<and> dict_map d' = (dict_map d)(k := None)"
    by (auto simp: dict_drop_def m_dictDelete_def dict_room_for_def split: if_splits)
next
  fix d :: "(string, 'v) dict" and m
  assume d: "dict_inv hashSlotDictType d"
  from dict_maintain_keeps [OF d, of m] obtain d' where
    "dict_maintain m d = Some d'" "dict_inv hashSlotDictType d'" "mset (dict_entries d') = mset (dict_entries d)"
    by blast
  then show "\<exists>d'. dict_maintain m d = Some d' \<and> dict_inv hashSlotDictType d' \<and>
      (\<forall>n. dict_room_for d n \<longrightarrow> dict_room_for d' n) \<and> dict_map d' = dict_map d"
    using dict_same_entries [OF d] by (auto simp: dict_room_for_def)
next
  fix d :: "(string, 'v) dict" and n
  assume "dict_room_for d (Suc n)"
  then show "dict_room_for d n" by (simp add: dict_room_for_def)
qed

end
