(* ===== verification/DictProps.thy ===== *)
theory DictProps
  imports SlotTable
begin

text \<open>
  What the dictionary promises its callers: the properties of the operations of \<open>Dict\<close>,
  each for every key type whose comparison is equality, with a dictionary in the middle of a
  rehashing as the concrete input.
\<close>

section \<open>A dictionary in the middle of a rehashing\<close>

definition demo_type :: "nat dictType" where
  "demo_type = \<lparr>hashFunction = of_nat, keyCompare = (\<lambda>a b. a = b)\<rparr>"

definition demo_dict :: "(nat, nat) dict" where
  "demo_dict =
     \<lparr>ht0 = \<lparr>ht_table = [[], [(5, Some 50), (1, Some 10)], [], [(3, Some 30)]],
             ht_size = 4, ht_sizemask = 3, ht_used = 3\<rparr>,
      ht1 = \<lparr>ht_table = [[(8, Some 80)], [], [], [], [(4, Some 40)], [], [], []],
             ht_size = 8, ht_sizemask = 7, ht_used = 2\<rparr>,
      rehashidx = 1, iterators = 0\<rparr>"

lemma demo_type_ok: "type_ok demo_type"
  by (simp add: type_ok_def demo_type_def)

lemma demo_table_sizes: "table_size 4" "table_size 8"
proof -
  have "(4 :: nat) = 2 ^ 2" and "(8 :: nat) = 2 ^ 3" by simp_all
  then show "table_size 4" and "table_size 8"
    unfolding table_size_def
    by (auto intro: image_eqI [where x = 2], auto intro: image_eqI [where x = 3])
qed

lemma demo_tables: "ht_valid demo_type (ht0 demo_dict)" "ht_valid demo_type (ht1 demo_dict)"
proof -
  have all: "(\<forall>i<n. P i) \<longleftrightarrow> list_all P [0..<n]" for P and n :: nat
    by (auto simp: list_all_iff)
  show "ht_valid demo_type (ht0 demo_dict)" "ht_valid demo_type (ht1 demo_dict)"
    unfolding ht_valid_def all
    by (simp_all add: demo_dict_def demo_type_def ht_entries_def demo_table_sizes upt_rec)
qed

lemma demo_dict_inv: "dict_inv demo_type demo_dict"
  using demo_tables
  by (simp add: dict_inv_def demo_dict_def ht_entries_def dict_entries_def dictIsRehashing_def)

lemma demo_dict_room: "dict_room demo_dict"
  by (simp add: dict_room_def dictSize_def demo_dict_def)

lemma demo_dict_map:
  "dict_map demo_dict 5 = Some (Some 50)" "dict_map demo_dict 4 = Some (Some 40)"
  "dict_map demo_dict 7 = None"
  by (simp_all add: dict_map_def dict_entries_def ht_entries_def demo_dict_def)

lemmas demo = demo_dict_inv demo_dict_room demo_type_ok

section \<open>Single operations\<close>

text \<open>\<open>m_dictAdd\<close> on a well-formed dictionary returns, keeps it well-formed, and adds the
  pair exactly when the key is new; for a present key it reports \<open>DICT_ERR\<close> and the map is
  as before.\<close>

theorem m_dictAdd_correct:
  assumes "dict_inv ty d" and "dict_room d" and "type_ok ty"
  shows "\<exists>st d'. m_dictAdd ty can d key v = Some (st, d') \<and> dict_inv ty d' \<and>
    (if dict_map d key = None
     then st = DICT_OK \<and> dict_map d' = (dict_map d)(key \<mapsto> Some v) \<and> dictSize d' = dictSize d + 1
     else st = DICT_ERR \<and> dict_map d' = dict_map d \<and> dictSize d' = dictSize d)"
  using m_dictAdd_spec [OF assms, of can key v] by (auto simp: domIff split: if_splits)

lemma m_dictAdd_correct_witness:
  "\<exists>d'. m_dictAdd demo_type True demo_dict 7 70 = Some (DICT_OK, d') \<and> dict_map d' 7 = Some (Some 70) \<and>
     dict_map d' 5 = Some (Some 50)"
  using m_dictAdd_correct [OF demo, of True 7 70] demo_dict_map by auto

text \<open>\<open>m_dictReplace\<close> binds the key to the value in every case; it returns 1 for a new key
  and otherwise 0, having freed exactly the old value.\<close>

theorem m_dictReplace_correct:
  assumes "dict_inv ty d" and "dict_room d" and "type_ok ty"
  shows "\<exists>r freed d'. m_dictReplace ty can d key v = Some (r, freed, d') \<and> dict_inv ty d' \<and>
    dict_map d' = (dict_map d)(key \<mapsto> Some v) \<and>
    (case dict_map d key of None \<Rightarrow> r = 1 \<and> freed = [] | Some old \<Rightarrow> r = 0 \<and> freed = [old])"
  using m_dictReplace_spec [OF assms, of can key v] by (auto split: option.splits)

lemma m_dictReplace_correct_witness:
  "\<exists>d'. m_dictReplace demo_type True demo_dict 4 44 = Some (0, [Some 40], d') \<and>
     dict_map d' 4 = Some (Some 44)"
  using m_dictReplace_correct [OF demo, of True 4 44] demo_dict_map by auto

text \<open>Deletion removes exactly the key. It returns and frees exactly the entry the key
  had (\<open>m_dictUnlink\<close>, with \<open>nofree\<close>, frees nothing), nothing for an absent key.\<close>

theorem dictGenericDelete_correct:
  assumes "dict_inv ty d" and "type_ok ty"
  shows "\<exists>freed d'. dictGenericDelete ty d key nofree =
      Some (map_option (\<lambda>v. (key, v)) (dict_map d key), freed, d') \<and>
    dict_inv ty d' \<and> dict_map d' = (dict_map d)(key := None) \<and>
    freed = (if nofree then [] else case dict_map d key of None \<Rightarrow> [] | Some v \<Rightarrow> [(key, v)])"
  using dictGenericDelete_spec [OF assms, of key nofree] by (auto split: option.splits if_splits)

lemma dictGenericDelete_correct_witness:
  "\<exists>d'. dictGenericDelete demo_type demo_dict 5 False = Some (Some (5, Some 50), [(5, Some 50)], d') \<and>
     dict_map d' 5 = None \<and> dict_map d' 4 = Some (Some 40)"
  using dictGenericDelete_correct [OF demo_dict_inv demo_type_ok, of 5 False] demo_dict_map by auto

text \<open>\<open>m_dictFetchValue\<close> returns the value of the key in either table, \<open>NULL\<close> for an absent
  key, and its rehashing step does not change the map.\<close>

theorem m_dictFetchValue_correct:
  assumes "dict_inv ty d" and "type_ok ty"
  shows "\<exists>d'. m_dictFetchValue ty d key =
      Some (case dict_map d key of None \<Rightarrow> None | Some v \<Rightarrow> v, d') \<and>
    dict_inv ty d' \<and> dict_map d' = dict_map d"
  using m_dictFetchValue_spec [OF assms, of key] by (auto split: option.splits)

lemma m_dictFetchValue_correct_witness:
  "\<exists>d'. m_dictFetchValue demo_type demo_dict 4 = Some (Some 40, d') \<and> dict_map d' 5 = Some (Some 50)"
  using m_dictFetchValue_correct [OF demo_dict_inv demo_type_ok, of 4] demo_dict_map by auto

section \<open>Rehashing\<close>

text \<open>\<open>m_dictRehash\<close> never leaves the tables or fails its assertion, keeps the entries, and
  tells the truth: 0 means that no rehashing is in progress afterwards, 1 that it is and, when
  asked for at least one step, that \<open>rehashidx\<close> has advanced.\<close>

theorem m_dictRehash_correct:
  assumes "dict_inv ty d"
  shows "\<exists>r d'. m_dictRehash ty d n = Some (r, d') \<and> dict_inv ty d' \<and>
    mset (dict_entries d') = mset (dict_entries d) \<and>
    (if dictIsRehashing d' then r = 1 \<and> (0 < n \<longrightarrow> rehashidx d < rehashidx d') else r = 0)"
  using m_dictRehash_spec [OF assms, of n] by fastforce

lemma m_dictRehash_correct_witness:
  "\<exists>r d'. m_dictRehash demo_type demo_dict 1 = Some (r, d') \<and>
     mset (dict_entries d') = mset (dict_entries demo_dict)"
  using m_dictRehash_correct [OF demo_dict_inv, of 1] by blast

text \<open>\<open>m_dictRehashMilliseconds\<close> returns for every behaviour of the clock, even one that
  stands still, with the same entries.\<close>

theorem m_dictRehashMilliseconds_returns:
  assumes "dict_inv ty d"
  shows "\<exists>r d'. m_dictRehashMilliseconds ty clock d ms = Some (r, d') \<and> dict_inv ty d' \<and>
    mset (dict_entries d') = mset (dict_entries d)"
  using rehash_ms_loop_spec [OF assms, of clock "clock 0" ms 1 0]
  by (auto simp: m_dictRehashMilliseconds_def)

lemma m_dictRehashMilliseconds_returns_witness:
  "\<exists>r d'. m_dictRehashMilliseconds demo_type (\<lambda>_. 0) demo_dict 1 = Some (r, d') \<and> dict_inv demo_type d'"
  using m_dictRehashMilliseconds_returns [OF demo_dict_inv, of "\<lambda>_. 0" 1] by blast

text \<open>\<open>_dictNextPower\<close> ends for every unsigned long and returns the smallest power of two,
  at least 4, that is not below its argument, except that it stays at \<open>2 ^ 63\<close> for
  arguments beyond.\<close>

theorem dictNextPower_least:
  assumes "s < 2 ^ 64"
  shows "\<exists>j. dictNextPower s = Some (2 ^ j) \<and> 2 \<le> j \<and> j \<le> 63 \<and> (s \<le> 2 ^ 63 \<longrightarrow> s \<le> 2 ^ j) \<and>
    (j = 2 \<or> 2 ^ (j - 1) < s)"
  by (rule dictNextPower_spec [OF assms])

lemma dictNextPower_least_witness: "\<exists>j. dictNextPower 100 = Some (2 ^ j) \<and> 100 \<le> (2 :: nat) ^ j"
  using dictNextPower_least [of 100] by auto

lemma sparse_resize:
  assumes d: "dict_inv ty d" and need: "htNeedsResize d" and idle: "\<not> dictIsRehashing d"
    and small: "dictSize d < 2 ^ 31"
  shows "\<exists>d'. m_dictResize True d = Some (DICT_OK, d') \<and> dict_inv ty d' \<and> dictIsRehashing d' \<and>
    dict_entries d' = dict_entries d \<and> ht_size (ht1 d') < ht_size (ht0 d') \<and>
    dictSize d' \<le> ht_size (ht1 d')"
proof -
  note inv = dict_inv_plainD [OF d idle]
  let ?u = "ht_used (ht0 d)" and ?z = "ht_size (ht0 d)"
  have u: "?u < 2 ^ 31" using small inv(4) by simp
  have z: "4 < ?z" "?u * 10 < ?z"
  proof -
    have slots: "dictSlots d = ?z" using inv(2) by (simp add: dictSlots_def dictReset_def)
    show "4 < ?z" using need by (simp add: htNeedsResize_def slots DICT_HT_INITIAL_SIZE_def)
    have "int ?u * 100 div int ?z < 10"
      using need by (simp add: htNeedsResize_def slots inv(4) HASHTABLE_MIN_FILL_def)
    then have "int (?u * 100 div ?z) < int 10" by (simp add: zdiv_int)
    then have "?u * 100 div ?z < 10" by (simp only: of_nat_less_iff)
    then have "?u * 100 < 10 * ?z" using \<open>4 < ?z\<close> by (subst (asm) div_less_iff_less_mult) simp_all
    then show "?u * 10 < ?z" by linarith
  qed
  let ?m = "max ?u 4"
  have su: "sint (of_nat ?u :: u32) = int ?u"
  proof -
    have "- (2 ^ 31) \<le> int ?u" "int ?u < 2 ^ 31" using u by simp_all
    then show ?thesis by (simp add: signed_of_nat signed_take_bit_int_eq_self)
  qed
  have call: "m_dictResize True d = m_dictExpand d ?m"
    using idle u
    by (simp add: m_dictResize_def Let_def su DICT_HT_INITIAL_SIZE_def max_def unat_eq_nat_uint
      uint_word_of_int)
  obtain r where r: "dictNextPower ?m = Some r" "table_size r" "?m \<le> r" "r = 4 \<or> r < 2 * ?m"
    using dictNextPower_table_size [of ?m] u by auto
  have "table_size ?z" using ht_validD(3) [OF inv(1)] z by simp
  then obtain k where k: "?z = 2 ^ k" by (rule table_sizeE)
  have "2 < k" using z(1) k power_increasing [of k 2 "2 :: nat"] by (cases "2 < k") auto
  then have "(2 :: nat) ^ 3 \<le> 2 ^ k" by (intro power_increasing) auto
  then have z8: "8 \<le> ?z" using k by simp
  have rz: "r < ?z" using r(4) z z8 by (auto simp: max_def split: if_splits)
  have t: "ht_table (ht0 d) \<noteq> []" using ht_table_Nil [OF inv(1)] z by simp
  let ?n = "\<lparr>ht_table = alloc_table r, ht_size = r, ht_sizemask = of_nat (r - 1), ht_used = 0\<rparr>"
  have x: "m_dictExpand d ?m = Some (DICT_OK, d\<lparr>ht1 := ?n, rehashidx := 0\<rparr>)"
    using idle r(1) rz t by (simp add: m_dictExpand_def Let_def)
  have "?m \<le> 2 ^ 60" using u by simp
  from m_dictExpand_spec [OF d this] x have
    "dict_inv ty (d\<lparr>ht1 := ?n, rehashidx := 0\<rparr>)"
    "dict_entries (d\<lparr>ht1 := ?n, rehashidx := 0\<rparr>) = dict_entries d" by auto
  then show ?thesis
    using call x rz r(3) by (simp add: dictIsRehashing_def dictSize_def)
qed

text \<open>When the cron job finds a table sparse (\<open>htNeedsResize\<close>) and it is not already
  rehashing, \<open>m_dictResize\<close> starts a rehashing into a smaller table that still holds every
  entry in at most one per bucket on average.\<close>

theorem m_dictResize_shrinks:
  assumes "dict_inv ty d" and "htNeedsResize d" and "\<not> dictIsRehashing d" and "dictSize d < 2 ^ 31"
  shows "\<exists>d'. m_dictResize True d = Some (DICT_OK, d') \<and> dict_inv ty d' \<and> dictIsRehashing d' \<and>
    dict_entries d' = dict_entries d \<and> ht_size (ht1 d') < ht_size (ht0 d') \<and>
    dictSize d' \<le> ht_size (ht1 d')"
  by (rule sparse_resize [OF assms])

definition demo_sparse :: "(nat, nat) dict" where
  "demo_sparse =
     \<lparr>ht0 = \<lparr>ht_table = replicate 8 [], ht_size = 8, ht_sizemask = 7, ht_used = 0\<rparr>,
      ht1 = dictReset, rehashidx = - 1, iterators = 0\<rparr>"

lemma m_dictResize_shrinks_witness:
  "\<exists>d'. m_dictResize True demo_sparse = Some (DICT_OK, d') \<and> ht_size (ht1 d') < 8"
proof -
  have "ht_valid demo_type (ht0 demo_sparse)"
    by (simp add: ht_valid_def demo_sparse_def ht_entries_def demo_table_sizes)
  then have "dict_inv demo_type demo_sparse"
    by (simp add: dict_inv_def demo_sparse_def ht_entries_def dict_entries_def dictIsRehashing_def
      dictReset_def ht_valid_def)
  moreover have "htNeedsResize demo_sparse"
    by (simp add: htNeedsResize_def demo_sparse_def dictSlots_def dictSize_def dictReset_def
      DICT_HT_INITIAL_SIZE_def HASHTABLE_MIN_FILL_def)
  moreover have "\<not> dictIsRehashing demo_sparse" "dictSize demo_sparse < 2 ^ 31"
    by (simp_all add: dictIsRehashing_def dictSize_def demo_sparse_def dictReset_def)
  ultimately obtain d' where "m_dictResize True demo_sparse = Some (DICT_OK, d')"
    "ht_size (ht1 d') < ht_size (ht0 d')" "dictIsRehashing d'" "dict_inv demo_type d'"
    using m_dictResize_shrinks [of demo_type demo_sparse] by blast
  moreover from this(1) have "ht0 d' = ht0 demo_sparse"
    by (auto simp: m_dictResize_def m_dictExpand_def Let_def bind_eq_Some_conv demo_sparse_def
      dictIsRehashing_def split: if_splits)
  ultimately show ?thesis by (simp add: demo_sparse_def)
qed

section \<open>Clearing and sampling\<close>

text \<open>\<open>m_dictEmpty\<close> frees every entry exactly once and leaves a new dictionary, and
  \<open>m_dictRelease\<close> frees the same entries.\<close>

theorem m_dictEmpty_frees_all:
  assumes "dict_inv ty d"
  shows "m_dictEmpty d = Some (dict_entries d, m_dictCreate) \<and> m_dictRelease d = Some (dict_entries d)"
  using m_dictEmpty_spec [OF assms] m_dictRelease_spec [OF assms] by simp

lemma m_dictEmpty_frees_all_witness:
  "m_dictEmpty demo_dict = Some (dict_entries demo_dict, m_dictCreate) \<and> length (dict_entries demo_dict) = 5"
  using m_dictEmpty_frees_all [OF demo_dict_inv]
  by (simp add: demo_dict_def dict_entries_def ht_entries_def)

text \<open>A random entry is an entry of the dictionary, \<open>NULL\<close> only when it is empty, and every
  key is returned for some values of \<open>random()\<close>, also in the middle of a rehashing.\<close>

theorem m_dictGetRandomKey_fair:
  assumes "dict_inv ty d"
  shows "(\<forall>draws ref rest d'. m_dictGetRandomKey ty draws d = Some (ref, rest, d') \<longrightarrow>
      dict_inv ty d' \<and> dict_map d' = dict_map d \<and>
      (if dict_map d = Map.empty then ref = None
       else \<exists>x k v. ref = Some x \<and> dictGetEntry d' x = Some (k, v))) \<and>
    (\<forall>key\<in>dom (dict_map d). \<exists>draws ref v d'.
      m_dictGetRandomKey ty draws d = Some (Some ref, [], d') \<and> dictGetEntry d' ref = Some (key, v))"
  using m_dictGetRandomKey_sound [OF assms] m_dictGetRandomKey_complete [OF assms] by blast

lemma m_dictGetRandomKey_fair_witness:
  "\<exists>draws ref v d'. m_dictGetRandomKey demo_type draws demo_dict = Some (Some ref, [], d') \<and>
     dictGetEntry d' ref = Some (4, v)"
proof -
  have "4 \<in> dom (dict_map demo_dict)" using demo_dict_map by blast
  then show ?thesis using m_dictGetRandomKey_fair [OF demo_dict_inv] by blast
qed

section \<open>Sequences of requests\<close>

text \<open>C29: From a new dictionary of a slot, every sequence of insertions, deletions, lookups,
  rehashings and resizes is answered like the finite map: the operations all return, report
  the same successes, and the entries afterwards are the bindings of the map.\<close>

theorem slot_table_refines_map:
  assumes "length ops \<le> 2 ^ 59"
  shows "\<exists>d'. run_table (dict_put can) dict_drop dict_maintain ops m_dictCreate =
      Some (fst (spec_table Some ops Map.empty), d') \<and>
    dict_inv hashSlotDictType d' \<and> dict_map d' = snd (spec_table Some ops Map.empty)"
proof -
  have "dict_room_for m_dictCreate (length ops)"
    using assms by (simp add: dict_room_for_def m_dictCreate_def dictSize_def dictReset_def)
  from slot_table.run_refines [OF dict_inv_create this, of can] show ?thesis by simp
qed

lemma slot_table_refines_map_witness:
  "\<exists>d'. run_table (dict_put True) dict_drop dict_maintain
      [Put ''a'' (1 :: nat), Put ''b'' 2, Put ''a'' 3, Work (Rehash 1), Drop ''b'', Drop ''c''] m_dictCreate =
      Some ([True, True, False, True, False], d') \<and>
    dict_map d' ''a'' = Some (Some 1) \<and> dict_map d' ''b'' = None"
  using slot_table_refines_map
    [of "[Put ''a'' (1 :: nat), Put ''b'' 2, Put ''a'' 3, Work (Rehash 1), Drop ''b'', Drop ''c'']" True]
  by auto

end
