(* ===== verification/Skiplist.thy ===== *)
theory Skiplist
  imports Prelude
begin

text \<open>
  The skip list of \<open>dep/skiplist.c\<close> that keeps the tagged keys of a database ordered by the
  checksum of their tag. The nodes live in a heap from addresses to records with their
  forward pointers and spans per level, as in the code, and all pointer reads go through the
  heap: following a dangling pointer, reading a level a node does not have, or a loop that
  never ends is \<open>None\<close>. Spans are \<open>unsigned long\<close> and the ranks of \<open>m_zslInsert\<close> are
  \<open>unsigned int\<close>; both wrap around explicitly.

  \<open>RedisModule_StringCompare\<close> is code of the server and a parameter \<open>cmp\<close>; \<open>malloc\<close> returns
  the next unused address, and freeing a node removes it from the heap.
\<close>

section \<open>Data\<close>

type_synonym addr = nat

record zlevel =
  forward :: "addr option"
  span :: int

record 'm znode =
  member :: "'m option"
  score :: int
  backward :: "addr option"
  level :: "zlevel list"

type_synonym 'm zheap = "addr \<Rightarrow> 'm znode option"

record 'm zskiplist =
  zs_heap :: "'m zheap"
  zs_next :: addr
  zs_header :: addr
  zs_tail :: "addr option"
  zs_length :: nat
  zs_level :: nat

definition ZSKIPLIST_MAXLEVEL :: nat where "ZSKIPLIST_MAXLEVEL = 64"

definition level_of :: "'m zheap \<Rightarrow> addr \<Rightarrow> nat \<Rightarrow> zlevel option" where
  "level_of hp a i = do { n \<leftarrow> hp a; arr_get (level n) i }"

definition set_level :: "'m zheap \<Rightarrow> addr \<Rightarrow> nat \<Rightarrow> zlevel \<Rightarrow> 'm zheap option" where
  "set_level hp a i lv = do {
     n \<leftarrow> hp a;
     ls \<leftarrow> arr_set (level n) i lv;
     Some (hp(a \<mapsto> n\<lparr>level := ls\<rparr>))
   }"

definition set_backward :: "'m zheap \<Rightarrow> addr \<Rightarrow> addr option \<Rightarrow> 'm zheap option" where
  "set_backward hp a b = do { n \<leftarrow> hp a; Some (hp(a \<mapsto> n\<lparr>backward := b\<rparr>)) }"

section \<open>Creation and destruction\<close>

text \<open>The fields the allocation leaves undefined are written before they are read.\<close>

definition m_zslCreateNode :: "nat \<Rightarrow> int \<Rightarrow> 'm option \<Rightarrow> 'm znode" where
  "m_zslCreateNode lev sc m =
     \<lparr>member = m, score = sc, backward = None, level = replicate lev \<lparr>forward = None, span = 0\<rparr>\<rparr>"

definition m_zslCreate :: "'m zskiplist" where
  "m_zslCreate =
     \<lparr>zs_heap = Map.empty(0 \<mapsto> m_zslCreateNode ZSKIPLIST_MAXLEVEL 0 None), zs_next = 1,
      zs_header = 0, zs_tail = None, zs_length = 0, zs_level = 1\<rparr>"

text \<open>Freeing a node returns the members whose reference is dropped.\<close>

definition m_zslFreeNode :: "'m zheap \<Rightarrow> addr \<Rightarrow> ('m list \<times> 'm zheap) option" where
  "m_zslFreeNode hp a = do {
     n \<leftarrow> hp a;
     Some (case member n of None \<Rightarrow> [] | Some m \<Rightarrow> [m], hp(a := None))
   }"

partial_function (option) free_nodes :: "'m zheap \<Rightarrow> addr option \<Rightarrow> ('m list \<times> 'm zheap) option" where
  "free_nodes hp node =
     (case node of
        None \<Rightarrow> Some ([], hp)
      | Some a \<Rightarrow> do {
          lv \<leftarrow> level_of hp a 0;
          (ms, hp) \<leftarrow> m_zslFreeNode hp a;
          (rest, hp) \<leftarrow> free_nodes hp (forward lv);
          Some (ms @ rest, hp)
        })"

text \<open>The header's first pointer is read before the header is freed.\<close>

definition m_zslFree :: "'m zskiplist \<Rightarrow> ('m list \<times> 'm zheap) option" where
  "m_zslFree z = do {
     lv \<leftarrow> level_of (zs_heap z) (zs_header z) 0;
     free_nodes ((zs_heap z)(zs_header z := None)) (forward lv)
   }"

section \<open>Descending through the levels\<close>

text \<open>The loop \<open>while (x->level[i].forward && ...) x = x->level[i].forward\<close> on one level, with the
  spans added up modulo \<open>m\<close>. The condition sees the sum, the level entry and the next node.\<close>

partial_function (option) walk_level ::
  "'m zheap \<Rightarrow> (int \<Rightarrow> zlevel \<Rightarrow> 'm znode \<Rightarrow> bool) \<Rightarrow> int \<Rightarrow> nat \<Rightarrow> addr \<Rightarrow> int \<Rightarrow> (addr \<times> int) option" where
  "walk_level hp cond m i x r = do {
     lv \<leftarrow> level_of hp x i;
     case forward lv of
       None \<Rightarrow> Some (x, r)
     | Some f \<Rightarrow> do {
         n \<leftarrow> hp f;
         if cond r lv n then walk_level hp cond m i f ((r + span lv) mod m) else Some (x, r)
       }
   }"

text \<open>The loop \<open>for (i = zsl->level - 1; i >= 0; i--)\<close>; the result is the array of pairs
  \<open>update[i]\<close>, \<open>rank[i]\<close> and the last node reached.\<close>

fun descend ::
  "'m zheap \<Rightarrow> (int \<Rightarrow> zlevel \<Rightarrow> 'm znode \<Rightarrow> bool) \<Rightarrow> int \<Rightarrow> nat \<Rightarrow> addr \<Rightarrow> int
    \<Rightarrow> ((addr \<times> int) list \<times> addr \<times> int) option" where
  "descend hp cond m 0 x r = Some ([], x, r)"
| "descend hp cond m (Suc i) x r = do {
     (x, r) \<leftarrow> walk_level hp cond m i x r;
     (ups, y, s) \<leftarrow> descend hp cond m i x r;
     Some (ups @ [(x, r)], y, s)
   }"

text \<open>The order of the list: by score, then by member.\<close>

definition entry_before :: "('m \<Rightarrow> 'm \<Rightarrow> int) \<Rightarrow> int \<Rightarrow> 'm \<Rightarrow> 'm znode \<Rightarrow> bool" where
  "entry_before cmp sc m n \<longleftrightarrow>
     score n < sc \<or> (score n = sc \<and> (case member n of None \<Rightarrow> False | Some m' \<Rightarrow> cmp m' m < 0))"

section \<open>Insertion\<close>

text \<open>\<open>rand()\<close> returns the values of \<open>draws\<close>; the model stops when they run out.
  \<open>ZSKIPLIST_P * 0xFFFF\<close> is 16383.75.\<close>

fun random_level_loop :: "nat \<Rightarrow> nat list \<Rightarrow> (nat \<times> nat list) option" where
  "random_level_loop lev [] = None"
| "random_level_loop lev (r # draws) =
     (if 4 * (r mod 65536) < 65535 then random_level_loop (lev + 1) draws else Some (lev, draws))"

definition m_zslRandomLevel :: "nat list \<Rightarrow> (nat \<times> nat list) option" where
  "m_zslRandomLevel draws = do {
     (lev, draws) \<leftarrow> random_level_loop 1 draws;
     Some (if lev < ZSKIPLIST_MAXLEVEL then lev else ZSKIPLIST_MAXLEVEL, draws)
   }"

text \<open>The levels from \<open>zsl->level\<close> up to the new node's are given to the header.\<close>

fun grow_levels ::
  "'m zheap \<Rightarrow> addr \<Rightarrow> int \<Rightarrow> nat \<Rightarrow> nat \<Rightarrow> ('m zheap \<times> (addr \<times> int) list) option" where
  "grow_levels hp h len i 0 = Some (hp, [])"
| "grow_levels hp h len i (Suc k) = do {
     lv \<leftarrow> level_of hp h i;
     hp \<leftarrow> set_level hp h i (lv\<lparr>span := len\<rparr>);
     (hp, ups) \<leftarrow> grow_levels hp h len (i + 1) k;
     Some (hp, (h, 0) # ups)
   }"

fun link_levels :: "'m zheap \<Rightarrow> addr \<Rightarrow> int \<Rightarrow> nat \<Rightarrow> (addr \<times> int) list \<Rightarrow> 'm zheap option" where
  "link_levels hp x rank0 i [] = Some hp"
| "link_levels hp x rank0 i ((u, ri) # ups) = do {
     lu \<leftarrow> level_of hp u i;
     hp \<leftarrow> set_level hp x i
             \<lparr>forward = forward lu, span = wrap64 (span lu - wrap32 (rank0 - ri))\<rparr>;
     hp \<leftarrow> set_level hp u i \<lparr>forward = Some x, span = wrap32 (wrap32 (rank0 - ri) + 1)\<rparr>;
     link_levels hp x rank0 (i + 1) ups
   }"

fun bump_levels :: "'m zheap \<Rightarrow> nat \<Rightarrow> (addr \<times> int) list \<Rightarrow> 'm zheap option" where
  "bump_levels hp i [] = Some hp"
| "bump_levels hp i ((u, ri) # ups) = do {
     lu \<leftarrow> level_of hp u i;
     hp \<leftarrow> set_level hp u i (lu\<lparr>span := wrap64 (span lu + 1)\<rparr>);
     bump_levels hp (i + 1) ups
   }"

definition m_zslInsert ::
  "('m \<Rightarrow> 'm \<Rightarrow> int) \<Rightarrow> nat list \<Rightarrow> 'm zskiplist \<Rightarrow> int \<Rightarrow> 'm \<Rightarrow> (addr \<times> nat list \<times> 'm zskiplist) option" where
  "m_zslInsert cmp draws z sc m = do {
     let h = zs_header z;
     (ups, y, r) \<leftarrow> descend (zs_heap z) (\<lambda>r lv n. entry_before cmp sc m n) (2 ^ 32) (zs_level z) h 0;
     (lev, draws) \<leftarrow> m_zslRandomLevel draws;
     (hp, more) \<leftarrow> grow_levels (zs_heap z) h (int (zs_length z)) (zs_level z) (lev - zs_level z);
     let ups = ups @ more;
     let x = zs_next z;
     let hp = hp(x \<mapsto> m_zslCreateNode lev sc (Some m));
     (u0, rank0) \<leftarrow> arr_get ups 0;
     hp \<leftarrow> link_levels hp x rank0 0 (take lev ups);
     hp \<leftarrow> bump_levels hp lev (drop lev ups);
     hp \<leftarrow> set_backward hp x (if u0 = h then None else Some u0);
     lx \<leftarrow> level_of hp x 0;
     (hp, tail) \<leftarrow>
       (case forward lx of
          Some f \<Rightarrow> do { hp \<leftarrow> set_backward hp f (Some x); Some (hp, zs_tail z) }
        | None \<Rightarrow> Some (hp, Some x));
     Some (x, draws,
       z\<lparr>zs_heap := hp, zs_next := x + 1, zs_tail := tail, zs_length := zs_length z + 1,
         zs_level := max lev (zs_level z)\<rparr>)
   }"

section \<open>Deletion\<close>

fun unlink_levels :: "'m zheap \<Rightarrow> addr \<Rightarrow> nat \<Rightarrow> addr list \<Rightarrow> 'm zheap option" where
  "unlink_levels hp x i [] = Some hp"
| "unlink_levels hp x i (u # ups) = do {
     lu \<leftarrow> level_of hp u i;
     hp \<leftarrow> (if forward lu = Some x then do {
                lx \<leftarrow> level_of hp x i;
                set_level hp u i
                  \<lparr>forward = forward lx, span = wrap64 (span lu + wrap64 (span lx - 1))\<rparr>
              }
            else set_level hp u i (lu\<lparr>span := wrap64 (span lu - 1)\<rparr>));
     unlink_levels hp x (i + 1) ups
   }"

text \<open>\<open>while (zsl->level > 1 && zsl->header->level[zsl->level - 1].forward == NULL) zsl->level--\<close>\<close>

fun drop_levels :: "'m zheap \<Rightarrow> addr \<Rightarrow> nat \<Rightarrow> nat option" where
  "drop_levels hp h lev =
     (if lev > 1 then do {
        lv \<leftarrow> level_of hp h (lev - 1);
        if forward lv = None then drop_levels hp h (lev - 1) else Some lev
      } else Some lev)"

declare drop_levels.simps [simp del]

definition m_zslDeleteNode :: "'m zskiplist \<Rightarrow> addr \<Rightarrow> addr list \<Rightarrow> 'm zskiplist option" where
  "m_zslDeleteNode z x ups = do {
     c_assert (zs_level z \<le> length ups);
     hp \<leftarrow> unlink_levels (zs_heap z) x 0 (take (zs_level z) ups);
     n \<leftarrow> hp x;
     lx \<leftarrow> arr_get (level n) 0;
     (hp, tail) \<leftarrow>
       (case forward lx of
          Some f \<Rightarrow> do { hp \<leftarrow> set_backward hp f (backward n); Some (hp, zs_tail z) }
        | None \<Rightarrow> Some (hp, backward n));
     lev \<leftarrow> drop_levels hp (zs_header z) (zs_level z);
     len \<leftarrow> count_dec (zs_length z);
     Some (z\<lparr>zs_heap := hp, zs_tail := tail, zs_level := lev, zs_length := len\<rparr>)
   }"

text \<open>\<open>m_zslDelete\<close> with \<open>node = NULL\<close>: whether the node was found, and the members freed.\<close>

definition m_zslDelete ::
  "('m \<Rightarrow> 'm \<Rightarrow> int) \<Rightarrow> 'm zskiplist \<Rightarrow> int \<Rightarrow> 'm \<Rightarrow> (bool \<times> 'm list \<times> 'm zskiplist) option" where
  "m_zslDelete cmp z sc m = do {
     (ups, y, r) \<leftarrow> descend (zs_heap z) (\<lambda>r lv n. entry_before cmp sc m n) (2 ^ 32)
                       (zs_level z) (zs_header z) 0;
     ly \<leftarrow> level_of (zs_heap z) y 0;
     case forward ly of
       None \<Rightarrow> Some (False, [], z)
     | Some x \<Rightarrow> do {
         n \<leftarrow> zs_heap z x;
         if sc = score n \<and> (case member n of None \<Rightarrow> False | Some m' \<Rightarrow> cmp m' m = 0)
         then do {
           z \<leftarrow> m_zslDeleteNode z x (map fst ups);
           (ms, hp) \<leftarrow> m_zslFreeNode (zs_heap z) x;
           Some (True, ms, z\<lparr>zs_heap := hp\<rparr>)
         }
         else Some (False, [], z)
       }
   }"

section \<open>Changing a score\<close>

text \<open>\<open>m_zslUpdateScore\<close> writes the new score in place when the neighbours allow it; otherwise the
  node is unlinked, a new one takes over its member, and the old one is freed without it.\<close>

definition set_score :: "'m zheap \<Rightarrow> addr \<Rightarrow> int \<Rightarrow> 'm zheap option" where
  "set_score hp a sc = do { n \<leftarrow> hp a; Some (hp(a \<mapsto> n\<lparr>score := sc\<rparr>)) }"

definition score_fits :: "'m zheap \<Rightarrow> 'm znode \<Rightarrow> int \<Rightarrow> bool option" where
  "score_fits hp n newscore = do {
     lo \<leftarrow> (case backward n of None \<Rightarrow> Some True
             | Some b \<Rightarrow> do { nb \<leftarrow> hp b; Some (score nb < newscore) });
     if \<not> lo then Some False
     else do {
       lx \<leftarrow> arr_get (level n) 0;
       case forward lx of None \<Rightarrow> Some True
       | Some f \<Rightarrow> do { nf \<leftarrow> hp f; Some (newscore < score nf) }
     }
   }"

definition m_zslUpdateScore ::
  "('m \<Rightarrow> 'm \<Rightarrow> int) \<Rightarrow> nat list \<Rightarrow> 'm zskiplist \<Rightarrow> int \<Rightarrow> 'm \<Rightarrow> int
    \<Rightarrow> (addr \<times> nat list \<times> 'm zskiplist) option" where
  "m_zslUpdateScore cmp draws z curscore m newscore = do {
     (ups, y, r) \<leftarrow> descend (zs_heap z) (\<lambda>r lv n. entry_before cmp curscore m n) (2 ^ 32)
                       (zs_level z) (zs_header z) 0;
     ly \<leftarrow> level_of (zs_heap z) y 0;
     x \<leftarrow> forward ly;
     n \<leftarrow> zs_heap z x;
     m' \<leftarrow> member n;
     c_assert (curscore = score n \<and> cmp m' m = 0);
     fits \<leftarrow> score_fits (zs_heap z) n newscore;
     if fits then do {
       hp \<leftarrow> set_score (zs_heap z) x newscore;
       Some (x, draws, z\<lparr>zs_heap := hp\<rparr>)
     }
     else do {
       z \<leftarrow> m_zslDeleteNode z x (map fst ups);
       (a, draws, z) \<leftarrow> m_zslInsert cmp draws z newscore m';
       Some (a, draws, z\<lparr>zs_heap := (zs_heap z)(x := None)\<rparr>)
     }
   }"

section \<open>Ranges of scores and ranks\<close>

record zrangespec =
  rmin :: int
  rmax :: int
  rminex :: bool
  rmaxex :: bool

definition m_zslValueGteMin :: "int \<Rightarrow> zrangespec \<Rightarrow> bool" where
  "m_zslValueGteMin v spec = (if rminex spec then v > rmin spec else v \<ge> rmin spec)"

definition m_zslValueLteMax :: "int \<Rightarrow> zrangespec \<Rightarrow> bool" where
  "m_zslValueLteMax v spec = (if rmaxex spec then v < rmax spec else v \<le> rmax spec)"

definition zslIsInRange :: "'m zskiplist \<Rightarrow> zrangespec \<Rightarrow> bool option" where
  "zslIsInRange z rg =
     (if rmin rg > rmax rg \<or> (rmin rg = rmax rg \<and> (rminex rg \<or> rmaxex rg)) then Some False
      else case zs_tail z of None \<Rightarrow> Some False
      | Some t \<Rightarrow> do {
          nt \<leftarrow> zs_heap z t;
          if \<not> m_zslValueGteMin (score nt) rg then Some False
          else do {
            lh \<leftarrow> level_of (zs_heap z) (zs_header z) 0;
            case forward lh of None \<Rightarrow> Some False
            | Some f \<Rightarrow> do { nf \<leftarrow> zs_heap z f; Some (m_zslValueLteMax (score nf) rg) }
          }
        })"

definition m_zslFirstInRange :: "'m zskiplist \<Rightarrow> zrangespec \<Rightarrow> addr option option" where
  "m_zslFirstInRange z rg = do {
     inr \<leftarrow> zslIsInRange z rg;
     if \<not> inr then Some None
     else do {
       (ups, y, r) \<leftarrow> descend (zs_heap z) (\<lambda>r lv n. \<not> m_zslValueGteMin (score n) rg) (2 ^ 64)
                         (zs_level z) (zs_header z) 0;
       ly \<leftarrow> level_of (zs_heap z) y 0;
       x \<leftarrow> forward ly;
       n \<leftarrow> zs_heap z x;
       Some (if m_zslValueLteMax (score n) rg then Some x else None)
     }
   }"

definition m_zslLastInRange :: "'m zskiplist \<Rightarrow> zrangespec \<Rightarrow> addr option option" where
  "m_zslLastInRange z rg = do {
     inr \<leftarrow> zslIsInRange z rg;
     if \<not> inr then Some None
     else do {
       (ups, y, r) \<leftarrow> descend (zs_heap z) (\<lambda>r lv n. m_zslValueLteMax (score n) rg) (2 ^ 64)
                         (zs_level z) (zs_header z) 0;
       n \<leftarrow> zs_heap z y;
       Some (if m_zslValueGteMin (score n) rg then Some y else None)
     }
   }"

text \<open>The loop \<open>while (x && ...)\<close> of the two rg deletions: the number of nodes removed, the
  members freed, and the list.\<close>

partial_function (option) delete_while ::
  "(int \<Rightarrow> 'm znode \<Rightarrow> bool) \<Rightarrow> addr list \<Rightarrow> int \<Rightarrow> int \<Rightarrow> addr option \<Rightarrow> 'm zskiplist
    \<Rightarrow> (int \<times> 'm list \<times> 'm zskiplist) option" where
  "delete_while cond ups traversed removed x z =
     (case x of
        None \<Rightarrow> Some (removed, [], z)
      | Some a \<Rightarrow> do {
          n \<leftarrow> zs_heap z a;
          if cond traversed n then do {
            lx \<leftarrow> arr_get (level n) 0;
            z \<leftarrow> m_zslDeleteNode z a ups;
            (ms, hp) \<leftarrow> m_zslFreeNode (zs_heap z) a;
            (removed, rest, z) \<leftarrow> delete_while cond ups (wrap64 (traversed + 1)) (wrap64 (removed + 1))
                                    (forward lx) (z\<lparr>zs_heap := hp\<rparr>);
            Some (removed, ms @ rest, z)
          }
          else Some (removed, [], z)
        })"

definition m_zslDeleteRangeByScore ::
  "'m zskiplist \<Rightarrow> zrangespec \<Rightarrow> (int \<times> 'm list \<times> 'm zskiplist) option" where
  "m_zslDeleteRangeByScore z rg = do {
     (ups, y, r) \<leftarrow> descend (zs_heap z)
         (\<lambda>r lv n. if rminex rg then score n \<le> rmin rg else score n < rmin rg) (2 ^ 64)
         (zs_level z) (zs_header z) 0;
     ly \<leftarrow> level_of (zs_heap z) y 0;
     delete_while (\<lambda>t n. if rmaxex rg then score n < rmax rg else score n \<le> rmax rg)
       (map fst ups) 0 0 (forward ly) z
   }"

text \<open>\<open>start\<close> and \<open>end\<close> are of type \<open>unsigned int\<close>, the ranks \<open>unsigned long\<close>.\<close>

definition m_zslDeleteRangeByRank ::
  "'m zskiplist \<Rightarrow> int \<Rightarrow> int \<Rightarrow> (int \<times> 'm list \<times> 'm zskiplist) option" where
  "m_zslDeleteRangeByRank z rstart rend = do {
     (ups, y, r) \<leftarrow> descend (zs_heap z) (\<lambda>r lv n. wrap64 (r + span lv) < rstart) (2 ^ 64)
         (zs_level z) (zs_header z) 0;
     ly \<leftarrow> level_of (zs_heap z) y 0;
     delete_while (\<lambda>t n. t \<le> rend) (map fst ups) (wrap64 (r + 1)) 0 (forward ly) z
   }"

fun rank_descend :: "'m zheap \<Rightarrow> int \<Rightarrow> nat \<Rightarrow> addr \<Rightarrow> int \<Rightarrow> addr option option" where
  "rank_descend hp rank 0 x r = Some None"
| "rank_descend hp rank (Suc i) x r = do {
     (x, r) \<leftarrow> walk_level hp (\<lambda>r lv n. wrap64 (r + span lv) \<le> rank) (2 ^ 64) i x r;
     if r = rank then Some (Some x) else rank_descend hp rank i x r
   }"

definition m_zslGetElementByRank :: "'m zskiplist \<Rightarrow> int \<Rightarrow> addr option option" where
  "m_zslGetElementByRank z rank = rank_descend (zs_heap z) rank (zs_level z) (zs_header z) 0"

end
