(* ===== verification/SkiplistInv.thy ===== *)
theory SkiplistInv
  imports Skiplist
begin

text \<open>
  The invariant of the skip list: the addresses of the nodes in order, where every level of
  a node points to the next node that is high enough and its span is the distance to it.
  With it, what the descents find, and what the loops over the levels do to the links; the
  theories SkiplistInsert and SkiplistDel put them together for the two operations.
\<close>

section \<open>Views of the heap\<close>

definition hgt :: "'m zheap \<Rightarrow> addr \<Rightarrow> nat" where
  "hgt hp a = (case hp a of None \<Rightarrow> 0 | Some n \<Rightarrow> length (level n))"

definition info :: "'m zheap \<Rightarrow> addr \<Rightarrow> ('m option \<times> int \<times> addr option) option" where
  "info hp a = map_option (\<lambda>n. (member n, score n, backward n)) (hp a)"

lemma level_of_None: "level_of hp a i = None \<longleftrightarrow> hgt hp a \<le> i"
  by (auto simp: level_of_def hgt_def arr_get_def split: option.splits)

lemma level_of_Some: "i < hgt hp a \<Longrightarrow> \<exists>lv. level_of hp a i = Some lv"
  using level_of_None [of hp a i] by auto

lemma set_level_spec:
  assumes "i < hgt hp a"
  shows "\<exists>hp'. set_level hp a i lv = Some hp' \<and> hgt hp' = hgt hp \<and> info hp' = info hp \<and>
    dom hp' = dom hp \<and>
    (\<forall>b j. level_of hp' b j = (if b = a \<and> j = i then Some lv else level_of hp b j))"
proof -
  obtain n where n: "hp a = Some n" "i < length (level n)"
    using assms by (auto simp: hgt_def split: option.splits)
  let ?hp = "hp(a \<mapsto> n\<lparr>level := (level n)[i := lv]\<rparr>)"
  have "set_level hp a i lv = Some ?hp" using n by (simp add: set_level_def arr_simps)
  moreover have "hgt ?hp = hgt hp" using n by (auto simp: hgt_def fun_eq_iff)
  moreover have "info ?hp = info hp" using n by (auto simp: info_def fun_eq_iff)
  moreover have "dom ?hp = dom hp" using n by auto
  moreover have "level_of ?hp b j = (if b = a \<and> j = i then Some lv else level_of hp b j)" for b j
    using n by (auto simp: level_of_def arr_get_def)
  ultimately show ?thesis by blast
qed

lemma set_backward_spec:
  assumes "a \<in> dom hp"
  shows "\<exists>hp'. set_backward hp a bw = Some hp' \<and> hgt hp' = hgt hp \<and> level_of hp' = level_of hp \<and>
    dom hp' = dom hp \<and>
    (\<forall>b. info hp' b = (if b = a then map_option (\<lambda>(m, s, w). (m, s, bw)) (info hp a) else info hp b))"
proof -
  obtain n where n: "hp a = Some n" using assms by blast
  let ?hp = "hp(a \<mapsto> n\<lparr>backward := bw\<rparr>)"
  have "set_backward hp a bw = Some ?hp" using n by (simp add: set_backward_def)
  moreover have "hgt ?hp = hgt hp" using n by (auto simp: hgt_def fun_eq_iff)
  moreover have "level_of ?hp = level_of hp" using n by (auto simp: level_of_def fun_eq_iff)
  moreover have "dom ?hp = dom hp" using n by auto
  moreover have "info ?hp b = (if b = a then map_option (\<lambda>(m, s, w). (m, s, bw)) (info hp a) else info hp b)"
    for b using n by (auto simp: info_def)
  ultimately show ?thesis by blast
qed

lemma dom_hgt: "0 < hgt hp a \<Longrightarrow> a \<in> dom hp"
  by (auto simp: hgt_def split: option.splits)

section \<open>The next node of a level\<close>

fun nxt :: "(addr \<Rightarrow> nat) \<Rightarrow> nat \<Rightarrow> addr list \<Rightarrow> addr option" where
  "nxt H i [] = None"
| "nxt H i (b # bs) = (if i < H b then Some b else nxt H i bs)"

fun dist :: "(addr \<Rightarrow> nat) \<Rightarrow> nat \<Rightarrow> addr list \<Rightarrow> nat" where
  "dist H i [] = 0"
| "dist H i (b # bs) = (if i < H b then 1 else Suc (dist H i bs))"

definition lvl :: "(addr \<Rightarrow> nat) \<Rightarrow> nat \<Rightarrow> addr list \<Rightarrow> zlevel" where
  "lvl H i rest = \<lparr>forward = nxt H i rest, span = int (dist H i rest)\<rparr>"

lemma nxt_append_low: "\<forall>b\<in>set xs. H b \<le> i \<Longrightarrow> nxt H i (xs @ ys) = nxt H i ys"
  by (induction xs) auto

lemma dist_append_low: "\<forall>b\<in>set xs. H b \<le> i \<Longrightarrow> dist H i (xs @ ys) = length xs + dist H i ys"
  by (induction xs) auto

lemma nxt_append_high: "\<exists>b\<in>set xs. i < H b \<Longrightarrow> nxt H i (xs @ ys) = nxt H i xs"
  by (induction xs) auto

lemma dist_append_high: "\<exists>b\<in>set xs. i < H b \<Longrightarrow> dist H i (xs @ ys) = dist H i xs"
  by (induction xs) auto

lemma nxt_None: "nxt H i xs = None \<longleftrightarrow> (\<forall>b\<in>set xs. H b \<le> i)"
  by (induction xs) auto

lemma dist_none: "\<forall>b\<in>set xs. H b \<le> i \<Longrightarrow> dist H i xs = length xs"
  by (induction xs) auto

lemma dist_le: "dist H i xs \<le> length xs"
  by (induction xs) auto

lemma nxt_cong: "\<forall>b\<in>set xs. H b = H' b \<Longrightarrow> nxt H i xs = nxt H' i xs"
  by (induction xs) auto

lemma dist_cong: "\<forall>b\<in>set xs. H b = H' b \<Longrightarrow> dist H i xs = dist H' i xs"
  by (induction xs) auto

lemma nxt_SomeE:
  assumes "nxt H i xs = Some b"
  obtains u v where "xs = u @ b # v" "\<forall>c\<in>set u. H c \<le> i" "i < H b" "dist H i xs = Suc (length u)"
proof -
  have "\<exists>u v. xs = u @ b # v \<and> (\<forall>c\<in>set u. H c \<le> i) \<and> i < H b \<and> dist H i xs = Suc (length u)"
    using assms
  proof (induction xs)
    case (Cons x xs)
    show ?case
    proof (cases "i < H x")
      case True
      with Cons.prems show ?thesis by (intro exI [of _ "[]"] exI [of _ xs]) auto
    next
      case False
      with Cons obtain u v where "xs = u @ b # v" "\<forall>c\<in>set u. H c \<le> i" "i < H b" "dist H i xs = Suc (length u)"
        by auto
      with False show ?thesis by (intro exI [of _ "x # u"] exI [of _ v]) auto
    qed
  qed simp
  then show thesis using that by blast
qed

text \<open>The last node of \<open>P\<close> that has level \<open>i\<close>, and its index.\<close>

definition is_last :: "(addr \<Rightarrow> nat) \<Rightarrow> nat \<Rightarrow> addr list \<Rightarrow> addr \<Rightarrow> nat \<Rightarrow> bool" where
  "is_last H i P c n \<longleftrightarrow>
     n < length P \<and> P ! n = c \<and> i < H c \<and> (\<forall>k. n < k \<and> k < length P \<longrightarrow> H (P ! k) \<le> i)"

lemma is_last_unique:
  assumes "is_last H i P c n" "is_last H i P c' n'"
  shows "c = c' \<and> n = n'"
proof -
  have "n = n'"
    using assms unfolding is_last_def by (metis linorder_neqE_nat not_less)
  then show ?thesis using assms unfolding is_last_def by blast
qed

lemma is_last_mem: "is_last H i P c n \<Longrightarrow> c \<in> set P"
  unfolding is_last_def by (metis nth_mem)

lemma is_lastI:
  assumes "P = u @ c # v" "i < H c" "\<forall>b\<in>set v. H b \<le> i"
  shows "is_last H i P c (length u)"
proof -
  have "H (P ! k) \<le> i" if "length u < k" "k < length P" for k
  proof -
    have "P ! k = v ! (k - Suc (length u))"
      using that by (simp add: assms(1) nth_append nth_Cons')
    moreover have "k - Suc (length u) < length v" using that by (simp add: assms(1))
    ultimately show ?thesis using assms(3) by (metis nth_mem)
  qed
  with assms(1,2) show ?thesis by (simp add: is_last_def)
qed

lemma is_lastE:
  assumes "is_last H i P c n"
  obtains u v where "P = u @ c # v" "n = length u" "i < H c" "\<forall>b\<in>set v. H b \<le> i"
proof -
  have n: "n < length P" "P ! n = c" "i < H c" and hi: "\<forall>k. n < k \<and> k < length P \<longrightarrow> H (P ! k) \<le> i"
    using assms by (auto simp: is_last_def)
  have "P = take n P @ c # drop (Suc n) P" using id_take_nth_drop [OF n(1)] n(2) by simp
  moreover have "\<forall>b\<in>set (drop (Suc n) P). H b \<le> i"
  proof
    fix b assume "b \<in> set (drop (Suc n) P)"
    then obtain k where "k < length P - Suc n" "b = P ! (Suc n + k)"
      by (auto simp: in_set_conv_nth)
    then show "H b \<le> i" using hi by simp
  qed
  ultimately show thesis using n that [of "take n P" "drop (Suc n) P"] by simp
qed

text \<open>Whether the next node of a member of \<open>P\<close> lies in \<open>P\<close> is whether it is not the last one.\<close>

lemma last_or_next:
  assumes "P = u @ a # v" "i < H a" "distinct P"
  obtains (final) "is_last H i P a (length u)" "\<forall>b\<in>set v. H b \<le> i"
  | (later) "\<nexists>n. is_last H i P a n" "\<exists>b\<in>set v. i < H b"
proof (cases "\<forall>b\<in>set v. H b \<le> i")
  case True
  then show thesis using is_lastI [OF assms(1), of i H] assms(2) final by blast
next
  case False
  have "\<not> is_last H i P a n" for n
  proof
    assume l: "is_last H i P a n"
    then obtain u' v' where s: "P = u' @ a # v'" "\<forall>b\<in>set v'. H b \<le> i" by (rule is_lastE)
    have "u @ a # v = u' @ a # v'" using s(1) assms(1) by simp
    moreover have "a \<notin> set u" "a \<notin> set v" using assms(1,3) by auto
    ultimately have "v = v'" by (simp add: append_Cons_eq_iff)
    with s(2) False show False by blast
  qed
  with False show thesis using later by (auto simp: not_le)
qed

section \<open>The invariant\<close>

text \<open>The levels below \<open>lv\<close> of the nodes of the sequence point where they should.\<close>

definition linked :: "'m zheap \<Rightarrow> nat \<Rightarrow> addr list \<Rightarrow> bool" where
  "linked hp lv s \<longleftrightarrow> (\<forall>pre a rest i. s = pre @ a # rest \<longrightarrow> i < lv \<longrightarrow> i < hgt hp a \<longrightarrow>
     level_of hp a i = Some (lvl (hgt hp) i rest))"

definition back_linked :: "'m zheap \<Rightarrow> addr \<Rightarrow> addr list \<Rightarrow> bool" where
  "back_linked hp h s \<longleftrightarrow>
     successively (\<lambda>a b. \<exists>m sc. info hp b = Some (Some m, sc, if a = h then None else Some a)) s"

text \<open>\<open>zsl_rep z as\<close>: the nodes of \<open>z\<close> after the header are those at the addresses \<open>as\<close>.\<close>

definition zsl_rep :: "'m zskiplist \<Rightarrow> addr list \<Rightarrow> bool" where
  "zsl_rep z as \<longleftrightarrow>
     distinct (zs_header z # as) \<and>
     (\<forall>a\<in>dom (zs_heap z). a < zs_next z) \<and>
     hgt (zs_heap z) (zs_header z) = ZSKIPLIST_MAXLEVEL \<and>
     1 \<le> zs_level z \<and> zs_level z \<le> ZSKIPLIST_MAXLEVEL \<and>
     (\<forall>a\<in>set as. 1 \<le> hgt (zs_heap z) a \<and> hgt (zs_heap z) a \<le> zs_level z) \<and>
     linked (zs_heap z) (zs_level z) (zs_header z # as) \<and>
     (\<forall>i. zs_level z \<le> i \<longrightarrow> i < ZSKIPLIST_MAXLEVEL \<longrightarrow>
        (\<exists>s. level_of (zs_heap z) (zs_header z) i = Some \<lparr>forward = None, span = s\<rparr>)) \<and>
     back_linked (zs_heap z) (zs_header z) (zs_header z # as) \<and>
     zs_tail z = (if as = [] then None else Some (last as)) \<and>
     zs_length z = length as"

lemma linkedD:
  "linked hp lv s \<Longrightarrow> s = pre @ a # rest \<Longrightarrow> i < lv \<Longrightarrow> i < hgt hp a \<Longrightarrow>
    level_of hp a i = Some (lvl (hgt hp) i rest)"
  unfolding linked_def by blast

section \<open>Descents\<close>

text \<open>A condition that tells the nodes of the front part \<open>P\<close> of the sequence from the others.\<close>

definition splits :: "'m zheap \<Rightarrow> (int \<Rightarrow> zlevel \<Rightarrow> 'm znode \<Rightarrow> bool) \<Rightarrow> nat \<Rightarrow> addr list \<Rightarrow> bool" where
  "splits hp cond k s \<longleftrightarrow> (\<forall>pre c u b v lv n. s = pre @ c # u @ b # v \<longrightarrow> hp b = Some n \<longrightarrow>
     span lv = int (Suc (length u)) \<longrightarrow>
     (cond (int (length pre)) lv n \<longleftrightarrow> length pre + Suc (length u) < k))"

lemma splitsD:
  "splits hp cond k s \<Longrightarrow> s = pre @ c # u @ b # v \<Longrightarrow> hp b = Some n \<Longrightarrow>
    span lv = int (Suc (length u)) \<Longrightarrow>
    cond (int (length pre)) lv n \<longleftrightarrow> length pre + Suc (length u) < k"
  unfolding splits_def by blast

lemma walk_level_spec:
  assumes L: "linked hp lv s" and i: "i < lv" and a: "i < hgt hp a"
    and c: "splits hp cond (length (pre @ a # rest1)) s"
    and s: "s = (pre @ a # rest1) @ R" and big: "int (length s) < M"
    and nodes: "set s \<subseteq> dom hp"
  shows "\<exists>b n. walk_level hp cond M i a (int (length pre)) = Some (b, int n) \<and>
    is_last (hgt hp) i (pre @ a # rest1) b n"
  using a c s
proof (induction "length rest1" arbitrary: pre a rest1 rule: less_induct)
  case less
  have lv: "level_of hp a i = Some (lvl (hgt hp) i (rest1 @ R))"
    using linkedD [OF L _ i less.prems(1), of pre "rest1 @ R"] less.prems(3) by simp
  show ?case
  proof (cases "nxt (hgt hp) i rest1")
    case None
    then have low: "\<forall>b\<in>set rest1. hgt hp b \<le> i" by (simp add: nxt_None)
    have "walk_level hp cond M i a (int (length pre)) = Some (a, int (length pre))"
    proof (cases "nxt (hgt hp) i R")
      case None
      then show ?thesis
        using lv by (subst walk_level.simps) (simp add: lvl_def nxt_append_low [OF low])
    next
      case (Some f)
      then obtain u v where f: "R = u @ f # v" "dist (hgt hp) i R = Suc (length u)" by (rule nxt_SomeE)
      obtain n where n: "hp f = Some n" using nodes less.prems(3) f(1) by auto
      have sf: "s = pre @ a # (rest1 @ u) @ f # v" using less.prems(3) f(1) by simp
      have sp: "span (lvl (hgt hp) i (rest1 @ R)) = int (Suc (length (rest1 @ u)))"
        using f(2) by (simp add: lvl_def dist_append_low [OF low])
      have "\<not> cond (int (length pre)) (lvl (hgt hp) i (rest1 @ R)) n"
        using splitsD [OF less.prems(2) sf n sp] by simp
      then show ?thesis
        using lv n Some by (subst walk_level.simps) (simp add: lvl_def nxt_append_low [OF low])
    qed
    then show ?thesis
      using is_lastI [of "pre @ a # rest1" pre a rest1 i "hgt hp"] low less.prems(1) by auto
  next
    case (Some b)
    then obtain u v where b: "rest1 = u @ b # v" "i < hgt hp b" "dist (hgt hp) i rest1 = Suc (length u)"
      by (rule nxt_SomeE)
    then have high: "\<exists>c\<in>set rest1. i < hgt hp c" by auto
    obtain n where n: "hp b = Some n" using nodes less.prems(3) b(1) by auto
    have sb: "s = pre @ a # u @ b # (v @ R)" using less.prems(3) b(1) by simp
    have sp: "span (lvl (hgt hp) i (rest1 @ R)) = int (Suc (length u))"
      using b(3) by (simp add: lvl_def dist_append_high [OF high])
    have "cond (int (length pre)) (lvl (hgt hp) i (rest1 @ R)) n"
      using splitsD [OF less.prems(2) sb n sp] b(1) by simp
    then have "walk_level hp cond M i a (int (length pre)) =
        walk_level hp cond M i b ((int (length pre) + int (Suc (length u))) mod M)"
      using lv n Some b(3)
      by (subst walk_level.simps) (simp add: lvl_def nxt_append_high [OF high] dist_append_high [OF high])
    also have "(int (length pre) + int (Suc (length u))) mod M = int (length (pre @ a # u))"
      using big sb by simp
    finally have step: "walk_level hp cond M i a (int (length pre)) =
        walk_level hp cond M i b (int (length (pre @ a # u)))" .
    have eq: "pre @ a # rest1 = (pre @ a # u) @ b # v" using b(1) by simp
    have "\<exists>c n. walk_level hp cond M i b (int (length (pre @ a # u))) = Some (c, int n) \<and>
        is_last (hgt hp) i ((pre @ a # u) @ b # v) c n"
      by (rule less.hyps) (use b less.prems(2,3) eq in simp_all)
    then show ?thesis using step eq by simp
  qed
qed

lemma descend_spec:
  assumes L: "linked hp lv s" and k: "k \<le> lv" and s: "s = P @ R"
    and c: "splits hp cond (length P) s" and big: "int (length s) < M" and nodes: "set s \<subseteq> dom hp"
    and P: "P = pre @ a # rest1" and a: "k \<le> hgt hp a"
  shows "\<exists>ups y r. descend hp cond M k a (int (length pre)) = Some (ups, y, r) \<and> length ups = k \<and>
    (\<forall>i<k. \<exists>b n. ups ! i = (b, int n) \<and> is_last (hgt hp) i P b n) \<and>
    (0 < k \<longrightarrow> ups ! 0 = (y, r))"
  using k P a
proof (induction k arbitrary: pre a rest1)
  case 0
  then show ?case by simp
next
  case (Suc k)
  have w: "\<exists>b n. walk_level hp cond M k a (int (length pre)) = Some (b, int n) \<and>
      is_last (hgt hp) k (pre @ a # rest1) b n"
    by (rule walk_level_spec [OF L _ _ _ _ big nodes, of _ _ _ _ _ R]) (use Suc.prems s c in simp_all)
  then obtain b n where b: "walk_level hp cond M k a (int (length pre)) = Some (b, int n)"
    "is_last (hgt hp) k P b n" using Suc.prems(2) by auto
  from b(2) obtain u v where uv: "P = u @ b # v" "n = length u" "k < hgt hp b" by (rule is_lastE)
  have "\<exists>ups y r. descend hp cond M k b (int (length u)) = Some (ups, y, r) \<and> length ups = k \<and>
    (\<forall>i<k. \<exists>b n. ups ! i = (b, int n) \<and> is_last (hgt hp) i P b n) \<and> (0 < k \<longrightarrow> ups ! 0 = (y, r))"
    by (rule Suc.IH [of u b v]) (use Suc.prems uv in simp_all)
  then obtain ups y r where r: "descend hp cond M k b (int n) = Some (ups, y, r)" "length ups = k"
    "\<forall>i<k. \<exists>b n. ups ! i = (b, int n) \<and> is_last (hgt hp) i P b n" "0 < k \<longrightarrow> ups ! 0 = (y, r)"
    using uv(2) by auto
  have r0: "k = 0 \<Longrightarrow> y = b \<and> r = int n" using r(1) by auto
  have "descend hp cond M (Suc k) a (int (length pre)) = Some (ups @ [(b, int n)], y, r)"
    using b(1) r(1) by simp
  moreover have "\<exists>b' n'. (ups @ [(b, int n)]) ! i = (b', int n') \<and> is_last (hgt hp) i P b' n'" if "i < Suc k" for i
    using that r(2,3) b(2) by (cases "i = k") (auto simp: nth_append)
  moreover have "(ups @ [(b, int n)]) ! 0 = (y, r)"
    using r(2,4) r0 by (cases "k = 0") (auto simp: nth_append)
  ultimately show ?case using r(2) by auto
qed

section \<open>The loops over the update array\<close>

text \<open>All loops change level entries only; \<open>hp'\<close> agrees with \<open>hp\<close> on everything else.\<close>

definition same_shape :: "'m zheap \<Rightarrow> 'm zheap \<Rightarrow> bool" where
  "same_shape hp hp' \<longleftrightarrow> hgt hp' = hgt hp \<and> info hp' = info hp \<and> dom hp' = dom hp"

lemma same_shape_trans: "same_shape a b \<Longrightarrow> same_shape b c \<Longrightarrow> same_shape a c"
  by (simp add: same_shape_def)

lemma grow_levels_spec:
  assumes "i + k \<le> hgt hp h"
  shows "\<exists>hp'. grow_levels hp h len i k = Some (hp', replicate k (h, 0)) \<and> same_shape hp hp' \<and>
    (\<forall>b j. level_of hp' b j =
      (if b = h \<and> i \<le> j \<and> j < i + k then map_option (\<lambda>lv. lv\<lparr>span := len\<rparr>) (level_of hp b j)
       else level_of hp b j))"
  using assms
proof (induction k arbitrary: hp i)
  case 0
  then show ?case by (auto simp: same_shape_def)
next
  case (Suc k)
  then have i: "i < hgt hp h" by simp
  obtain lv where lv: "level_of hp h i = Some lv" using level_of_Some [OF i] by blast
  obtain hp1 where 1: "set_level hp h i (lv\<lparr>span := len\<rparr>) = Some hp1" "hgt hp1 = hgt hp"
    "info hp1 = info hp" "dom hp1 = dom hp"
    "\<forall>b j. level_of hp1 b j = (if b = h \<and> j = i then Some (lv\<lparr>span := len\<rparr>) else level_of hp b j)"
    using set_level_spec [OF i] by blast
  have "Suc i + k \<le> hgt hp1 h" using Suc.prems 1(2) by simp
  from Suc.IH [OF this] obtain hp2 where 2: "grow_levels hp1 h len (Suc i) k = Some (hp2, replicate k (h, 0))"
    "same_shape hp1 hp2"
    "\<forall>b j. level_of hp2 b j =
      (if b = h \<and> Suc i \<le> j \<and> j < Suc i + k then map_option (\<lambda>lv. lv\<lparr>span := len\<rparr>) (level_of hp1 b j)
       else level_of hp1 b j)" by blast
  have "grow_levels hp h len i (Suc k) = Some (hp2, replicate (Suc k) (h, 0))"
    using lv 1(1) 2(1) by simp
  moreover have "same_shape hp hp2" using 1 2(2) by (simp add: same_shape_def)
  moreover have "level_of hp2 b j =
      (if b = h \<and> i \<le> j \<and> j < i + Suc k then map_option (\<lambda>lv. lv\<lparr>span := len\<rparr>) (level_of hp b j)
       else level_of hp b j)" for b j
    using 1(5) 2(3) lv by (auto simp: less_Suc_eq_le le_less)
  ultimately show ?case by blast
qed

text \<open>The conditions under which a loop from level \<open>i\<close> over the entries \<open>us\<close> stays inside.\<close>

definition levels_in :: "'m zheap \<Rightarrow> addr \<Rightarrow> nat \<Rightarrow> addr list \<Rightarrow> bool" where
  "levels_in hp x i us \<longleftrightarrow> (\<forall>j<length us. us ! j \<noteq> x \<and> i + j < hgt hp (us ! j))"

lemma levels_in_Cons:
  "levels_in hp x i (u # us) \<longleftrightarrow> u \<noteq> x \<and> i < hgt hp u \<and> levels_in hp x (Suc i) us"
  by (auto simp: levels_in_def less_Suc_eq_0_disj)

definition in_range :: "nat \<Rightarrow> 'a list \<Rightarrow> nat \<Rightarrow> bool" where
  "in_range i us j \<longleftrightarrow> i \<le> j \<and> j < i + length us"

lemma in_range_Cons: "in_range i (u # us) j \<longleftrightarrow> j = i \<or> in_range (Suc i) us j"
  by (auto simp: in_range_def)

lemma in_range_Nil [simp]: "\<not> in_range i [] j"
  by (simp add: in_range_def)

lemma in_range_start: "\<not> in_range (Suc i) us i"
  by (simp add: in_range_def)

lemma nth_range: "in_range (Suc i) us j \<Longrightarrow> (u # us) ! (j - i) = us ! (j - Suc i)"
  by (auto simp: in_range_def nth_Cons')

lemma link_levels_spec:
  assumes "levels_in hp x i (map fst ups)" and "i + length ups \<le> hgt hp x"
  shows "\<exists>hp'. link_levels hp x r0 i ups = Some hp' \<and> same_shape hp hp' \<and>
    (\<forall>b j. level_of hp' b j =
      (if in_range i ups j \<and> b = x then
         map_option (\<lambda>lu. \<lparr>forward = forward lu, span = wrap64 (span lu - wrap32 (r0 - snd (ups ! (j - i))))\<rparr>)
           (level_of hp (fst (ups ! (j - i))) j)
       else if in_range i ups j \<and> b = fst (ups ! (j - i)) then
         Some \<lparr>forward = Some x, span = wrap32 (wrap32 (r0 - snd (ups ! (j - i))) + 1)\<rparr>
       else level_of hp b j))"
  using assms
proof (induction ups arbitrary: hp i)
  case Nil
  then show ?case by (simp add: same_shape_def)
next
  case (Cons ur ups)
  obtain u r where ur: "ur = (u, r)" by fastforce
  have u: "u \<noteq> x" "i < hgt hp u" "levels_in hp x (Suc i) (map fst ups)" and xi: "i < hgt hp x"
    using Cons.prems by (simp_all add: levels_in_Cons ur)
  obtain lu where lu: "level_of hp u i = Some lu" using level_of_Some [OF u(2)] by blast
  let ?lx = "\<lparr>forward = forward lu, span = wrap64 (span lu - wrap32 (r0 - r))\<rparr>"
  let ?lu = "\<lparr>forward = Some x, span = wrap32 (wrap32 (r0 - r) + 1)\<rparr>"
  obtain hp1 where 1: "set_level hp x i ?lx = Some hp1" "hgt hp1 = hgt hp" "info hp1 = info hp"
    "dom hp1 = dom hp" "\<forall>b j. level_of hp1 b j = (if b = x \<and> j = i then Some ?lx else level_of hp b j)"
    using set_level_spec [OF xi] by blast
  have u1: "i < hgt hp1 u" using u(2) 1(2) by simp
  obtain hp2 where 2: "set_level hp1 u i ?lu = Some hp2" "hgt hp2 = hgt hp1" "info hp2 = info hp1"
    "dom hp2 = dom hp1" "\<forall>b j. level_of hp2 b j = (if b = u \<and> j = i then Some ?lu else level_of hp1 b j)"
    using set_level_spec [OF u1] by blast
  have "levels_in hp2 x (Suc i) (map fst ups)" "Suc i + length ups \<le> hgt hp2 x"
    using u(3) Cons.prems(2) 1(2) 2(2) by (simp_all add: levels_in_def)
  from Cons.IH [OF this] obtain hp3 where 3: "link_levels hp2 x r0 (Suc i) ups = Some hp3"
    "same_shape hp2 hp3"
    "\<forall>b j. level_of hp3 b j =
      (if in_range (Suc i) ups j \<and> b = x then
         map_option (\<lambda>lu. \<lparr>forward = forward lu, span = wrap64 (span lu - wrap32 (r0 - snd (ups ! (j - Suc i))))\<rparr>)
           (level_of hp2 (fst (ups ! (j - Suc i))) j)
       else if in_range (Suc i) ups j \<and> b = fst (ups ! (j - Suc i)) then
         Some \<lparr>forward = Some x, span = wrap32 (wrap32 (r0 - snd (ups ! (j - Suc i))) + 1)\<rparr>
       else level_of hp2 b j)" by blast
  have "link_levels hp x r0 i (ur # ups) = Some hp3"
    using lu 1(1) 2(1) 3(1) by (simp add: ur)
  moreover have "same_shape hp hp3" using 1 2 3(2) by (simp add: same_shape_def)
  moreover have "level_of hp3 b j =
      (if in_range i (ur # ups) j \<and> b = x then
         map_option (\<lambda>lu. \<lparr>forward = forward lu, span = wrap64 (span lu - wrap32 (r0 - snd ((ur # ups) ! (j - i))))\<rparr>)
           (level_of hp (fst ((ur # ups) ! (j - i))) j)
       else if in_range i (ur # ups) j \<and> b = fst ((ur # ups) ! (j - i)) then
         Some \<lparr>forward = Some x, span = wrap32 (wrap32 (r0 - snd ((ur # ups) ! (j - i))) + 1)\<rparr>
       else level_of hp b j)" for b j
  proof (cases "in_range (Suc i) ups j")
    case True
    then have "j \<noteq> i" using in_range_start by metis
    then have l2: "level_of hp2 c j = level_of hp c j" for c using 1(5) 2(5) by simp
    show ?thesis
      using 3(3) True by (simp only: nth_range [OF True] in_range_Cons l2 simp_thms)
  next
    case False
    then show ?thesis
      using 3(3) 1(5) 2(5) u(1) lu by (cases "j = i") (auto simp: in_range_Cons ur)
  qed
  ultimately show ?case by blast
qed

lemma bump_levels_spec:
  assumes "\<forall>j<length ups. i + j < hgt hp (fst (ups ! j))"
  shows "\<exists>hp'. bump_levels hp i ups = Some hp' \<and> same_shape hp hp' \<and>
    (\<forall>b j. level_of hp' b j =
      (if in_range i ups j \<and> b = fst (ups ! (j - i))
       then map_option (\<lambda>lu. lu\<lparr>span := wrap64 (span lu + 1)\<rparr>) (level_of hp b j)
       else level_of hp b j))"
  using assms
proof (induction ups arbitrary: hp i)
  case Nil
  then show ?case by (simp add: same_shape_def)
next
  case (Cons ur ups)
  obtain u r where ur: "ur = (u, r)" by fastforce
  have u: "i < hgt hp u" using Cons.prems by (auto simp: ur)
  obtain lu where lu: "level_of hp u i = Some lu" using level_of_Some [OF u] by blast
  let ?lu = "lu\<lparr>span := wrap64 (span lu + 1)\<rparr>"
  obtain hp1 where 1: "set_level hp u i ?lu = Some hp1" "hgt hp1 = hgt hp" "info hp1 = info hp"
    "dom hp1 = dom hp" "\<forall>b j. level_of hp1 b j = (if b = u \<and> j = i then Some ?lu else level_of hp b j)"
    using set_level_spec [OF u] by blast
  have "\<forall>j<length ups. Suc i + j < hgt hp1 (fst (ups ! j))" using Cons.prems 1(2) by fastforce
  from Cons.IH [OF this] obtain hp2 where 2: "bump_levels hp1 (Suc i) ups = Some hp2" "same_shape hp1 hp2"
    "\<forall>b j. level_of hp2 b j =
      (if in_range (Suc i) ups j \<and> b = fst (ups ! (j - Suc i))
       then map_option (\<lambda>lu. lu\<lparr>span := wrap64 (span lu + 1)\<rparr>) (level_of hp1 b j)
       else level_of hp1 b j)" by blast
  have "bump_levels hp i (ur # ups) = Some hp2" using lu 1(1) 2(1) by (simp add: ur)
  moreover have "same_shape hp hp2" using 1 2(2) by (simp add: same_shape_def)
  moreover have "level_of hp2 b j =
      (if in_range i (ur # ups) j \<and> b = fst ((ur # ups) ! (j - i))
       then map_option (\<lambda>lu. lu\<lparr>span := wrap64 (span lu + 1)\<rparr>) (level_of hp b j)
       else level_of hp b j)" for b j
  proof (cases "in_range (Suc i) ups j")
    case True
    then have "j \<noteq> i" using in_range_start by metis
    then have "level_of hp1 c j = level_of hp c j" for c using 1(5) by simp
    then show ?thesis using 2(3) True by (simp only: nth_range [OF True] in_range_Cons simp_thms)
  next
    case False
    then show ?thesis using 2(3) 1(5) lu by (cases "j = i") (auto simp: in_range_Cons ur)
  qed
  ultimately show ?case by blast
qed

lemma unlink_levels_spec:
  assumes "levels_in hp x i us" and "\<forall>j<length us. \<forall>lu. level_of hp (us ! j) (i + j) = Some lu \<longrightarrow>
      forward lu = Some x \<longrightarrow> i + j < hgt hp x"
  shows "\<exists>hp'. unlink_levels hp x i us = Some hp' \<and> same_shape hp hp' \<and>
    (\<forall>b j. level_of hp' b j =
      (if in_range i us j \<and> b = us ! (j - i) then
         map_option (\<lambda>lu. if forward lu = Some x
             then \<lparr>forward = forward (the (level_of hp x j)),
                   span = wrap64 (span lu + wrap64 (span (the (level_of hp x j)) - 1))\<rparr>
             else lu\<lparr>span := wrap64 (span lu - 1)\<rparr>) (level_of hp b j)
       else level_of hp b j))"
  using assms
proof (induction us arbitrary: hp i)
  case Nil
  then show ?case by (simp add: same_shape_def)
next
  case (Cons u us)
  have u: "u \<noteq> x" "i < hgt hp u" "levels_in hp x (Suc i) us"
    using Cons.prems(1) by (simp_all add: levels_in_Cons)
  obtain lu where lu: "level_of hp u i = Some lu" using level_of_Some [OF u(2)] by blast
  have xi: "forward lu = Some x \<Longrightarrow> i < hgt hp x" using Cons.prems(2) lu by auto
  define lv where "lv = (if forward lu = Some x
             then \<lparr>forward = forward (the (level_of hp x i)),
                   span = wrap64 (span lu + wrap64 (span (the (level_of hp x i)) - 1))\<rparr>
             else lu\<lparr>span := wrap64 (span lu - 1)\<rparr>)"
  obtain hp1 where 1: "set_level hp u i lv = Some hp1" "hgt hp1 = hgt hp" "info hp1 = info hp"
    "dom hp1 = dom hp" "\<forall>b j. level_of hp1 b j = (if b = u \<and> j = i then Some lv else level_of hp b j)"
    using set_level_spec [OF u(2)] by blast
  have in1: "levels_in hp1 x (Suc i) us" using u(3) 1(2) by (simp add: levels_in_def)
  have fw1: "\<forall>j<length us. \<forall>lu. level_of hp1 (us ! j) (Suc i + j) = Some lu \<longrightarrow>
      forward lu = Some x \<longrightarrow> Suc i + j < hgt hp1 x"
  proof (intro allI impI)
    fix j lu' assume "j < length us" "level_of hp1 (us ! j) (Suc i + j) = Some lu'" "forward lu' = Some x"
    then show "Suc i + j < hgt hp1 x"
      using Cons.prems(2) [rule_format, of "Suc j" lu'] 1(2,5) by simp
  qed
  from Cons.IH [OF in1 fw1] obtain hp2 where 2: "unlink_levels hp1 x (Suc i) us = Some hp2" "same_shape hp1 hp2"
    "\<forall>b j. level_of hp2 b j =
      (if in_range (Suc i) us j \<and> b = us ! (j - Suc i) then
         map_option (\<lambda>lu. if forward lu = Some x
             then \<lparr>forward = forward (the (level_of hp1 x j)),
                   span = wrap64 (span lu + wrap64 (span (the (level_of hp1 x j)) - 1))\<rparr>
             else lu\<lparr>span := wrap64 (span lu - 1)\<rparr>) (level_of hp1 b j)
       else level_of hp1 b j)" by blast
  have "unlink_levels hp x i (u # us) = Some hp2"
  proof (cases "forward lu = Some x")
    case True
    obtain lx where "level_of hp x i = Some lx" using level_of_Some [OF xi [OF True]] by blast
    then show ?thesis using lu 1(1) 2(1) True by (simp add: lv_def)
  next
    case False
    then show ?thesis using lu 1(1) 2(1) by (simp add: lv_def)
  qed
  moreover have "same_shape hp hp2" using 1 2(2) by (simp add: same_shape_def)
  moreover have "level_of hp2 b j =
      (if in_range i (u # us) j \<and> b = (u # us) ! (j - i) then
         map_option (\<lambda>lu. if forward lu = Some x
             then \<lparr>forward = forward (the (level_of hp x j)),
                   span = wrap64 (span lu + wrap64 (span (the (level_of hp x j)) - 1))\<rparr>
             else lu\<lparr>span := wrap64 (span lu - 1)\<rparr>) (level_of hp b j)
       else level_of hp b j)" for b j
  proof (cases "in_range (Suc i) us j")
    case True
    then have "j \<noteq> i" using in_range_start by metis
    then have l1: "level_of hp1 c j = level_of hp c j" for c using 1(5) by simp
    show ?thesis using 2(3) True by (simp only: nth_range [OF True] in_range_Cons l1 simp_thms)
  next
    case False
    then show ?thesis using 2(3) 1(5) lu by (cases "j = i") (auto simp: in_range_Cons lv_def)
  qed
  ultimately show ?case by blast
qed

section \<open>Insertion into the sequence\<close>

lemma linked_insert:
  fixes hp hp' :: "'m zheap"
  assumes L: "linked hp lv (P @ R)" and d: "distinct (P @ R)" and x: "x \<notin> set (P @ R)"
    and H': "hgt hp' = (hgt hp)(x := lev)"
    and last: "\<And>i. i < lv \<Longrightarrow> is_last (hgt hp) i P (u i) (n i)"
    and new: "\<And>b j. level_of hp' b j =
      (if b = x then (if j < lev then Some (lvl (hgt hp) j R) else None)
       else if j < lv \<and> b = u j then
         (if j < lev then Some \<lparr>forward = Some x, span = int (length P - n j)\<rparr>
          else map_option (\<lambda>l. l\<lparr>span := span l + 1\<rparr>) (level_of hp b j))
       else level_of hp b j)"
  shows "linked hp' lv (P @ x # R)"
  unfolding linked_def
proof (intro allI impI)
  fix pre a rest i
  assume s: "P @ x # R = pre @ a # rest" and i: "i < lv" and a: "i < hgt hp' a"
  let ?H = "hgt hp" and ?H' = "hgt hp'"
  have same: "nxt ?H' i ys = nxt ?H i ys" "dist ?H' i ys = dist ?H i ys" if "x \<notin> set ys" for ys
    using that by (auto simp: H' intro!: nxt_cong dist_cong)
  have xP: "x \<notin> set P" and xR: "x \<notin> set R" using x by auto
  have hx: "?H' x = lev" by (simp add: H')
  consider (P) v where "P = pre @ a # v" "rest = v @ x # R" | (x) "a = x" "rest = R"
    | (R) w where "R = w @ a # rest" "pre = P @ x # w"
    using s by (auto simp: append_eq_append_conv2 Cons_eq_append_conv append_eq_Cons_conv)
  then show "level_of hp' a i = Some (lvl ?H' i rest)"
  proof cases
    case x
    then show ?thesis using new [of a i] a same [OF xR] by (simp add: H' lvl_def)
  next
    case (R w)
    have ne: "a \<noteq> x" using R xR by auto
    have "a \<notin> set P" using R d by auto
    moreover have "u i \<in> set P" using is_last_mem [OF last [OF i]] .
    ultimately have "level_of hp' a i = level_of hp a i" using new [of a i] ne by auto
    also have "\<dots> = Some (lvl ?H i rest)"
      by (rule linkedD [OF L _ i, of "P @ w"]) (use R a ne in \<open>simp_all add: H'\<close>)
    finally show ?thesis using same [of rest] R xR by (simp add: lvl_def)
  next
    case (P v)
    have ne: "a \<noteq> x" using P xP by auto
    have ai: "i < ?H a" using a ne by (simp add: H')
    have old: "level_of hp a i = Some (lvl ?H i (v @ R))"
      by (rule linkedD [OF L _ i ai, of pre]) (simp add: P)
    have xv: "x \<notin> set v" using P xP by auto
    have dP: "distinct P" using d by simp
    show ?thesis
      using P(1) ai dP
    proof (cases rule: last_or_next [of P pre a v i ?H])
      case later
      then have "a \<noteq> u i" using last [OF i] by blast
      then have "level_of hp' a i = Some (lvl ?H i (v @ R))" using new [of a i] ne old by simp
      moreover have "\<exists>b\<in>set v. i < ?H' b" using later(2) xv by (auto simp: H')
      ultimately show ?thesis
        using later(2) P(2) same [OF xv]
        by (simp add: lvl_def nxt_append_high dist_append_high)
    next
      case final
      then have ui: "u i = a" "n i = length pre" using last [OF i] is_last_unique by metis+
      have low: "\<forall>b\<in>set v. ?H b \<le> i" using final(2) .
      have low': "\<forall>b\<in>set v. ?H' b \<le> i" using final(2) xv by (auto simp: H')
      have len: "length P - n i = Suc (length v)" using P(1) ui by simp
      show ?thesis
      proof (cases "i < lev")
        case True
        then have "level_of hp' a i = Some \<lparr>forward = Some x, span = int (Suc (length v))\<rparr>"
          using new [of a i] ne i ui len by simp
        then show ?thesis
          using True P(2) by (simp add: lvl_def nxt_append_low [OF low'] dist_append_low [OF low'] hx)
      next
        case False
        then have "level_of hp' a i = Some \<lparr>forward = nxt ?H i R, span = int (length v + dist ?H i R) + 1\<rparr>"
          using new [of a i] ne i ui old by (simp add: lvl_def nxt_append_low [OF low] dist_append_low [OF low])
        then show ?thesis
          using False P(2) same [OF xR]
          by (simp add: lvl_def nxt_append_low [OF low'] dist_append_low [OF low'] hx)
      qed
    qed
  qed
qed

lemma linked_remove:
  fixes hp hp' :: "'m zheap"
  assumes L: "linked hp lv (P @ x # R)" and d: "distinct (P @ x # R)"
    and H': "\<And>b. b \<noteq> x \<Longrightarrow> hgt hp' b = hgt hp b"
    and last: "\<And>i. i < lv \<Longrightarrow> is_last (hgt hp) i P (u i) (n i)"
    and new: "\<And>b j. b \<noteq> x \<Longrightarrow> level_of hp' b j =
      (if j < lv \<and> b = u j then
         map_option (\<lambda>l. if j < hgt hp x then \<lparr>forward = nxt (hgt hp) j R, span = span l + int (dist (hgt hp) j R) - 1\<rparr>
           else l\<lparr>span := span l - 1\<rparr>) (level_of hp b j)
       else level_of hp b j)"
  shows "linked hp' lv (P @ R)"
  unfolding linked_def
proof (intro allI impI)
  fix pre a rest i
  assume s: "P @ R = pre @ a # rest" and i: "i < lv" and a: "i < hgt hp' a"
  let ?H = "hgt hp" and ?H' = "hgt hp'"
  have xP: "x \<notin> set P" and xR: "x \<notin> set R" using d by auto
  have same: "nxt ?H' i ys = nxt ?H i ys" "dist ?H' i ys = dist ?H i ys" if "x \<notin> set ys" for ys
    using that H' by (metis nxt_cong, metis dist_cong)
  consider (P) v where "P = pre @ a # v" "rest = v @ R" | (R) w where "R = w @ a # rest" "pre = P @ w"
    using s by (auto simp: append_eq_append_conv2 Cons_eq_append_conv append_eq_Cons_conv)
  then show "level_of hp' a i = Some (lvl ?H' i rest)"
  proof cases
    case (R w)
    have ne: "a \<noteq> x" using R xR by auto
    have "a \<notin> set P" using R d by auto
    moreover have "u i \<in> set P" using is_last_mem [OF last [OF i]] .
    ultimately have "level_of hp' a i = level_of hp a i" using new [OF ne, of i] by auto
    also have "\<dots> = Some (lvl ?H i rest)"
      by (rule linkedD [OF L _ i, of "P @ x # w"]) (use R a H' [OF ne] in simp_all)
    finally show ?thesis using same [of rest] R xR by (simp add: lvl_def)
  next
    case (P v)
    have ne: "a \<noteq> x" using P xP by auto
    have ai: "i < ?H a" using a H' [OF ne] by simp
    have old: "level_of hp a i = Some (lvl ?H i (v @ x # R))"
      by (rule linkedD [OF L _ i ai, of pre]) (simp add: P)
    have xv: "x \<notin> set v" using P xP by auto
    have dP: "distinct P" using d by simp
    have same_vR: "lvl ?H' i (v @ R) = lvl ?H i (v @ R)" using same [of "v @ R"] xv xR by (simp add: lvl_def)
    show ?thesis
      using P(1) ai dP
    proof (cases rule: last_or_next [of P pre a v i ?H])
      case later
      then have "a \<noteq> u i" using last [OF i] by blast
      then have "level_of hp' a i = Some (lvl ?H i (v @ x # R))" using new [OF ne, of i] old by simp
      then show ?thesis
        using later(2) P(2) same_vR by (simp add: lvl_def nxt_append_high dist_append_high)
    next
      case final
      then have ui: "u i = a" using last [OF i] is_last_unique by metis
      have low: "\<forall>b\<in>set v. ?H b \<le> i" using final(2) .
      show ?thesis
        using new [OF ne, of i] i ui old P(2) same_vR
        by (auto simp: lvl_def nxt_append_low [OF low] dist_append_low [OF low])
    qed
  qed
qed

section \<open>m_zslInsert\<close>

lemma random_level_loop_ge: "random_level_loop l draws = Some (lev, rest) \<Longrightarrow> l \<le> lev"
  by (induction draws arbitrary: l) (fastforce split: if_splits)+

lemma m_zslRandomLevel_bounds:
  "m_zslRandomLevel draws = Some (lev, rest) \<Longrightarrow> 1 \<le> lev \<and> lev \<le> ZSKIPLIST_MAXLEVEL"
  using random_level_loop_ge [of 1 draws]
  by (auto simp: m_zslRandomLevel_def bind_eq_Some_conv ZSKIPLIST_MAXLEVEL_def split: if_splits)

lemma zsl_repD:
  assumes "zsl_rep z as"
  shows "distinct (zs_header z # as)" "\<And>a. a \<in> dom (zs_heap z) \<Longrightarrow> a < zs_next z"
    "hgt (zs_heap z) (zs_header z) = ZSKIPLIST_MAXLEVEL" "1 \<le> zs_level z"
    "zs_level z \<le> ZSKIPLIST_MAXLEVEL"
    "\<And>a. a \<in> set as \<Longrightarrow> 1 \<le> hgt (zs_heap z) a \<and> hgt (zs_heap z) a \<le> zs_level z"
    "linked (zs_heap z) (zs_level z) (zs_header z # as)"
    "\<And>i. zs_level z \<le> i \<Longrightarrow> i < ZSKIPLIST_MAXLEVEL \<Longrightarrow>
        \<exists>s. level_of (zs_heap z) (zs_header z) i = Some \<lparr>forward = None, span = s\<rparr>"
    "back_linked (zs_heap z) (zs_header z) (zs_header z # as)"
    "zs_tail z = (if as = [] then None else Some (last as))" "zs_length z = length as"
  using assms unfolding zsl_rep_def by (blast, blast, blast, blast, blast, blast, blast, blast, blast, blast, blast)

lemma zsl_rep_nodes:
  assumes "zsl_rep z as"
  shows "set (zs_header z # as) \<subseteq> dom (zs_heap z)"
  using zsl_repD(3,6) [OF assms] by (auto simp: ZSKIPLIST_MAXLEVEL_def intro!: dom_hgt dest!: zsl_repD(6) [OF assms])

text \<open>The score and the member of a node.\<close>

definition zentry :: "'m zheap \<Rightarrow> addr \<Rightarrow> ('m option \<times> int) option" where
  "zentry hp a = map_option (\<lambda>n. (member n, score n)) (hp a)"

lemma zentry_info: "zentry hp a = map_option (\<lambda>(m, s, b). (m, s)) (info hp a)"
  by (cases "hp a") (simp_all add: zentry_def info_def)

definition before :: "('m \<Rightarrow> 'm \<Rightarrow> int) \<Rightarrow> int \<Rightarrow> 'm \<Rightarrow> 'm zheap \<Rightarrow> addr \<Rightarrow> bool" where
  "before cmp sc m hp a \<longleftrightarrow> (\<exists>n. hp a = Some n \<and> entry_before cmp sc m n)"

lemma splits_pred:
  assumes P: "P = h # as1" and b: "\<forall>a\<in>set as1. \<exists>n. hp a = Some n \<and> p n"
    and nb: "\<forall>a\<in>set R. \<forall>n. hp a = Some n \<longrightarrow> \<not> p n"
  shows "splits hp (\<lambda>r lv n. p n) (length P) (P @ R)"
  unfolding splits_def
proof (intro allI impI)
  fix pre c u a v lv n
  assume s: "P @ R = pre @ c # u @ a # v" and n: "hp a = Some n"
  let ?k = "length pre + Suc (length u)"
  have at: "(P @ R) ! ?k = a" unfolding s by (simp add: nth_append)
  have k: "?k < length (P @ R)" unfolding s by simp
  show "p n \<longleftrightarrow> ?k < length P"
  proof (cases "?k < length P")
    case True
    then have "a = as1 ! (?k - 1)" "?k - 1 < length as1" using at P by (simp_all add: nth_append)
    then have "a \<in> set as1" by simp
    then show ?thesis using True n b by fastforce
  next
    case False
    then have "a = R ! (?k - length P)" "?k - length P < length R"
      using at k by (simp_all add: nth_append)
    then have "a \<in> set R" by simp
    then show ?thesis using False n nb by blast
  qed
qed

lemma splits_before:
  assumes "P = h # as1" and "\<forall>a\<in>set as1. before cmp sc m hp a" and "\<forall>a\<in>set R. \<not> before cmp sc m hp a"
  shows "splits hp (\<lambda>r lv n. entry_before cmp sc m n) (length P) (P @ R)"
  by (rule splits_pred [OF assms(1)]) (use assms(2,3) in \<open>auto simp: before_def\<close>)

text \<open>What a descent over the whole list finds: the last node of the front part on each level.\<close>

lemma zsl_descend_gen:
  assumes z: "zsl_rep z as" and as: "as = as1 @ R"
    and sp: "splits (zs_heap z) cond (Suc (length as1)) (zs_header z # as)"
    and len: "int (Suc (length as)) < M"
  shows "\<exists>ups. descend (zs_heap z) cond M (zs_level z) (zs_header z) 0 =
      Some (ups, last (zs_header z # as1), int (length as1)) \<and> length ups = zs_level z \<and>
    (\<forall>i<zs_level z. \<exists>b n. ups ! i = (b, int n) \<and> is_last (hgt (zs_heap z)) i (zs_header z # as1) b n) \<and>
    ups ! 0 = (last (zs_header z # as1), int (length as1))"
proof -
  let ?h = "zs_header z" and ?hp = "zs_heap z"
  let ?P = "?h # as1"
  note r = zsl_repD [OF z]
  have sp': "splits ?hp cond (length ?P) (?h # as)" using sp by simp
  have "\<exists>ups y r. descend ?hp cond M (zs_level z) ?h (int (length ([] :: addr list))) =
      Some (ups, y, r) \<and> length ups = zs_level z \<and>
    (\<forall>i<zs_level z. \<exists>b n. ups ! i = (b, int n) \<and> is_last (hgt ?hp) i ?P b n) \<and>
    (0 < zs_level z \<longrightarrow> ups ! 0 = (y, r))"
    by (rule descend_spec [OF r(7) order.refl _ sp', where R = R and pre = "[]" and ?rest1.0 = as1])
      (use as len r zsl_rep_nodes [OF z] in simp_all)
  then obtain ups y rr where d: "descend ?hp cond M (zs_level z) ?h 0 =
      Some (ups, y, rr)" "length ups = zs_level z"
    "\<forall>i<zs_level z. \<exists>b n. ups ! i = (b, int n) \<and> is_last (hgt ?hp) i ?P b n"
    "ups ! 0 = (y, rr)" using r(4) by auto
  have "0 < zs_level z" using r(4) by simp
  with d(3) obtain b n where b: "ups ! 0 = (b, int n)" "is_last (hgt ?hp) 0 ?P b n" by blast
  have "is_last (hgt ?hp) 0 ?P (last ?P) (length as1)"
    unfolding is_last_def
  proof (intro conjI allI impI)
    show "0 < hgt ?hp (last ?P)"
    proof (cases "as1 = []")
      case True
      then show ?thesis using r(3) by (simp add: ZSKIPLIST_MAXLEVEL_def)
    next
      case False
      then have "last as1 \<in> set as" using as by simp
      then show ?thesis using r(6) [of "last as1"] False by simp
    qed
    show "?P ! length as1 = last ?P" by (simp add: last_conv_nth)
  qed auto
  with b(2) have "b = last ?P" "n = length as1" using is_last_unique by metis+
  with b(1) d show ?thesis by auto
qed

lemma zsl_descend:
  assumes z: "zsl_rep z as" and as: "as = as1 @ R" and b: "\<forall>a\<in>set as1. before cmp sc m (zs_heap z) a"
    and nb: "\<forall>a\<in>set R. \<not> before cmp sc m (zs_heap z) a" and len: "length as < 2 ^ 32 - 1"
  shows "\<exists>ups. descend (zs_heap z) (\<lambda>r lv n. entry_before cmp sc m n) (2 ^ 32) (zs_level z) (zs_header z) 0 =
      Some (ups, last (zs_header z # as1), int (length as1)) \<and> length ups = zs_level z \<and>
    (\<forall>i<zs_level z. \<exists>b n. ups ! i = (b, int n) \<and> is_last (hgt (zs_heap z)) i (zs_header z # as1) b n) \<and>
    ups ! 0 = (last (zs_header z # as1), int (length as1))"
  by (rule zsl_descend_gen [OF z as])
    (use splits_before [OF refl b nb, of "zs_header z"] as len in simp_all)

lemma nxt_0: "\<forall>a\<in>set R. 1 \<le> H a \<Longrightarrow> nxt H 0 R = (case R of [] \<Rightarrow> None | f # R' \<Rightarrow> Some f)"
  by (cases R) auto

end
