(* ===== verification/SkiplistInsert.thy ===== *)
theory SkiplistInsert
  imports SkiplistInv
begin

text \<open>
  Insertion into the skip list: the header's levels grow, the new node is linked into the levels it
  has, the spans above it grow by one, and the backward pointers are set.
\<close>

section \<open>Backward pointers\<close>

lemma back_linked_cong:
  "(\<And>b. b \<in> set s \<Longrightarrow> b \<noteq> hd s \<Longrightarrow> info hp' b = info hp b) \<Longrightarrow> distinct s \<Longrightarrow>
    back_linked hp' h s \<longleftrightarrow> back_linked hp h s"
proof (induction s)
  case (Cons a s)
  show ?case
  proof (cases s)
    case (Cons b t)
    have "info hp' b = info hp b" using Cons.prems local.Cons by auto
    moreover have "back_linked hp' h s \<longleftrightarrow> back_linked hp h s"
      by (rule Cons.IH) (use Cons.prems in auto)
    ultimately show ?thesis using local.Cons by (simp add: back_linked_def)
  qed (simp add: back_linked_def)
qed (simp add: back_linked_def)

lemma back_linked_append:
  "back_linked hp h (P @ R) \<longleftrightarrow> back_linked hp h P \<and> back_linked hp h R \<and>
    (P = [] \<or> R = [] \<or> (\<exists>m sc. info hp (hd R) = Some (Some m, sc, if last P = h then None else Some (last P))))"
  by (simp add: back_linked_def successively_append_iff)

lemma back_linked_insert:
  assumes bl: "back_linked hp h (P @ R)" and P: "P \<noteq> []" and d: "distinct (P @ R)" and x: "x \<notin> set (P @ R)" "x \<noteq> h"
    and info: "\<And>b. info hp' b = (if b = x then Some (Some m, sc, if last P = h then None else Some (last P))
      else if R \<noteq> [] \<and> b = hd R then map_option (\<lambda>(m, s, w). (m, s, Some x)) (info hp b) else info hp b)"
  shows "back_linked hp' h (P @ x # R)"
proof -
  have old: "back_linked hp h P" "back_linked hp h R" using bl by (simp_all add: back_linked_append)
  have "info hp' b = info hp b" if "b \<in> set P" for b using that x(1) d by (auto simp: info dest: hd_in_set)
  then have "back_linked hp' h P" using old(1) back_linked_cong [of P hp' hp h] d by auto
  moreover have "back_linked hp' h R"
  proof -
    have "info hp' b = info hp b" if "b \<in> set R" "b \<noteq> hd R" for b using that x(1) by (auto simp: info)
    then show ?thesis using old(2) back_linked_cong [of R hp' hp h] d by auto
  qed
  moreover have "\<exists>m' sc'. info hp' (hd R) = Some (Some m', sc', Some x)" if "R \<noteq> []"
  proof -
    have "hd R \<noteq> x" using x(1) that by (auto dest: hd_in_set)
    moreover have "\<exists>m' sc' w. info hp (hd R) = Some (Some m', sc', w)" using bl P that by (auto simp: back_linked_append)
    ultimately show ?thesis using that by (auto simp: info)
  qed
  ultimately show ?thesis
    using x(2) info [of x] back_linked_append [of hp' h P "x # R"] back_linked_append [of hp' h "[x]" R]
    by (auto simp: back_linked_def)
qed

section \<open>New levels of the header\<close>

text \<open>The array \<open>update\<close> with the ranks: at every level the last node of \<open>P\<close> that has it, and its position.\<close>

definition lasts :: "(addr \<Rightarrow> nat) \<Rightarrow> addr list \<Rightarrow> nat \<Rightarrow> (addr \<times> int) list \<Rightarrow> bool" where
  "lasts H P k ups \<longleftrightarrow> length ups = k \<and> (\<forall>i<k. is_last H i P (fst (ups ! i)) (nat (snd (ups ! i))) \<and> 0 \<le> snd (ups ! i))"

lemma lastsD:
  "lasts H P k ups \<Longrightarrow> i < k \<Longrightarrow> is_last H i P (fst (ups ! i)) (nat (snd (ups ! i))) \<and> int (nat (snd (ups ! i))) = snd (ups ! i)"
  by (simp add: lasts_def)

lemma lasts_grow:
  assumes "lasts H (h # as1) k ups" and "k + n \<le> H h" and "\<forall>b\<in>set as1. H b \<le> k"
  shows "lasts H (h # as1) (k + n) (ups @ replicate n (h, 0))"
proof -
  have "is_last H i (h # as1) h 0" if "k \<le> i" "i < k + n" for i
    using is_lastI [of "h # as1" "[]" h as1 i H] assms(2,3) that by fastforce
  then show ?thesis using assms(1) by (auto simp: lasts_def nth_append)
qed

lemma grow_linked:
  assumes z: "zsl_rep z as" and k: "zs_level z + k \<le> ZSKIPLIST_MAXLEVEL"
  shows "\<exists>hp. grow_levels (zs_heap z) (zs_header z) (int (zs_length z)) (zs_level z) k =
      Some (hp, replicate k (zs_header z, 0)) \<and> same_shape (zs_heap z) hp \<and> linked hp (zs_level z + k) (zs_header z # as) \<and>
    (\<forall>b j. zs_level z + k \<le> j \<longrightarrow> level_of hp b j = level_of (zs_heap z) b j)"
proof -
  let ?h = "zs_header z" and ?L = "zs_level z"
  note r = zsl_repD [OF z]
  have "?L + k \<le> hgt (zs_heap z) ?h" using k r(3) by simp
  from grow_levels_spec [OF this, of "int (zs_length z)"] obtain hp where
    g: "grow_levels (zs_heap z) ?h (int (zs_length z)) ?L k = Some (hp, replicate k (?h, 0))" "same_shape (zs_heap z) hp"
    "\<forall>b j. level_of hp b j = (if b = ?h \<and> ?L \<le> j \<and> j < ?L + k
       then map_option (\<lambda>lv. lv\<lparr>span := int (zs_length z)\<rparr>) (level_of (zs_heap z) b j) else level_of (zs_heap z) b j)" by blast
  have H: "hgt hp = hgt (zs_heap z)" using g(2) by (simp add: same_shape_def)
  have "linked hp (?L + k) (?h # as)"
    unfolding linked_def
  proof (intro allI impI)
    fix pre a rest i assume s: "?h # as = pre @ a # rest" and i: "i < ?L + k" and a: "i < hgt hp a"
    show "level_of hp a i = Some (lvl (hgt hp) i rest)"
    proof (cases "i < ?L")
      case True
      have "level_of (zs_heap z) a i = Some (lvl (hgt (zs_heap z)) i rest)"
        by (rule linkedD [OF r(7) s True]) (use a H in simp)
      then show ?thesis using g(3) True H by simp
    next
      case False
      have "a = ?h"
      proof (rule ccontr)
        assume "a \<noteq> ?h"
        then have "a \<in> set as" using s by (cases pre) auto
        then show False using r(6) [of a] a False H by simp
      qed
      moreover have "rest = as" using s \<open>a = ?h\<close> r(1) by (cases pre) auto
      moreover obtain sp where "level_of (zs_heap z) ?h i = Some \<lparr>forward = None, span = sp\<rparr>" using r(8) [of i] False i k by auto
      moreover have "\<forall>b\<in>set as. hgt hp b \<le> i" using r(6) H False by fastforce
      ultimately show ?thesis using g(3) False i r(11) by (simp add: lvl_def nxt_None [THEN iffD2] dist_none)
    qed
  qed
  then show ?thesis using g by auto
qed
section \<open>Linking the new node\<close>

lemma last_level:
  assumes L: "linked hp k (P @ R)" and u: "lasts (hgt hp) P k ups" and i: "i < k"
  shows "level_of hp (fst (ups ! i)) i = Some \<lparr>forward = nxt (hgt hp) i R,
      span = int (length P - 1) - snd (ups ! i) + int (dist (hgt hp) i R)\<rparr>"
    and "snd (ups ! i) \<le> int (length P - 1)" "0 \<le> snd (ups ! i)" "fst (ups ! i) \<in> set P" "i < hgt hp (fst (ups ! i))"
proof -
  have l: "is_last (hgt hp) i P (fst (ups ! i)) (nat (snd (ups ! i)))" "0 \<le> snd (ups ! i)"
    using u i by (simp_all add: lasts_def)
  obtain u' v where P: "P = u' @ fst (ups ! i) # v" "nat (snd (ups ! i)) = length u'" "\<forall>b\<in>set v. hgt hp b \<le> i"
    using l(1) by (rule is_lastE)
  have len: "int (length P - 1) - snd (ups ! i) = int (length v)"
    using P(2) l(2) arg_cong [OF P(1), of length] by simp
  show "0 \<le> snd (ups ! i)" "fst (ups ! i) \<in> set P" "i < hgt hp (fst (ups ! i))" "snd (ups ! i) \<le> int (length P - 1)"
    using l is_last_mem [OF l(1)] len by (auto simp: is_last_def)
  have "level_of hp (fst (ups ! i)) i = Some (lvl (hgt hp) i (v @ R))"
    by (rule linkedD [OF L _ i, of u']) (use P(1) l(1) in \<open>auto simp: is_last_def\<close>)
  then show "level_of hp (fst (ups ! i)) i = Some \<lparr>forward = nxt (hgt hp) i R,
      span = int (length P - 1) - snd (ups ! i) + int (dist (hgt hp) i R)\<rparr>"
    using len by (simp add: lvl_def nxt_append_low [OF P(3)] dist_append_low [OF P(3)])
qed

definition with_node :: "'m zheap \<Rightarrow> addr \<Rightarrow> nat \<Rightarrow> int \<Rightarrow> 'm \<Rightarrow> 'm zheap" where
  "with_node hp x lev sc m = hp(x \<mapsto> m_zslCreateNode lev sc (Some m))"

lemma with_node_simps:
  "hgt (with_node hp x lev sc m) = (hgt hp)(x := lev)"
  "info (with_node hp x lev sc m) = (info hp)(x \<mapsto> (Some m, sc, None))"
  "dom (with_node hp x lev sc m) = insert x (dom hp)"
  "b \<noteq> x \<Longrightarrow> level_of (with_node hp x lev sc m) b j = level_of hp b j"
  "lev \<le> j \<Longrightarrow> level_of (with_node hp x lev sc m) x j = None"
  by (auto simp: with_node_def hgt_def info_def level_of_def m_zslCreateNode_def arr_get_def fun_eq_iff)

lemma link_new:
  assumes L: "linked hp k (P @ R)" and u: "lasts (hgt hp) P k ups" and x: "x \<notin> set P" and lev: "lev \<le> k"
    and small: "length P + length R < 2 ^ 32"
  shows "\<exists>hp'. link_levels (with_node hp x lev sc m) x (int (length P - 1)) 0 (take lev ups) = Some hp' \<and>
    same_shape (with_node hp x lev sc m) hp' \<and>
    (\<forall>b j. level_of hp' b j =
      (if b = x then (if j < lev then Some (lvl (hgt hp) j R) else None)
       else if j < lev \<and> b = fst (ups ! j) then Some \<lparr>forward = Some x, span = int (length P) - snd (ups ! j)\<rparr>
       else level_of hp b j))"
proof -
  let ?hp = "with_node hp x lev sc m"
  note old = last_level [OF L u]
  have lu: "length ups = k" using u by (simp add: lasts_def)
  have "levels_in ?hp x 0 (map fst (take lev ups))" "0 + length (take lev ups) \<le> hgt ?hp x"
    using old(4,5) lu lev x by (auto simp: levels_in_def with_node_simps)
  from link_levels_spec [OF this, of "int (length P - 1)"] obtain hp' where
    l: "link_levels ?hp x (int (length P - 1)) 0 (take lev ups) = Some hp'" "same_shape ?hp hp'"
    "\<forall>b j. level_of hp' b j =
      (if in_range 0 (take lev ups) j \<and> b = x then
         map_option (\<lambda>lu. \<lparr>forward = forward lu,
             span = wrap64 (span lu - wrap32 (int (length P - 1) - snd (take lev ups ! (j - 0))))\<rparr>)
           (level_of ?hp (fst (take lev ups ! (j - 0))) j)
       else if in_range 0 (take lev ups) j \<and> b = fst (take lev ups ! (j - 0)) then
         Some \<lparr>forward = Some x, span = wrap32 (wrap32 (int (length P - 1) - snd (take lev ups ! (j - 0))) + 1)\<rparr>
       else level_of ?hp b j)" by blast
  have "level_of hp' b j = (if b = x then (if j < lev then Some (lvl (hgt hp) j R) else None)
       else if j < lev \<and> b = fst (ups ! j) then Some \<lparr>forward = Some x, span = int (length P) - snd (ups ! j)\<rparr>
       else level_of hp b j)" for b j
  proof (cases "j < lev")
    case True
    then have j: "in_range 0 (take lev ups) j" "take lev ups ! (j - 0) = ups ! j" "j < k" using lu lev by (auto simp: in_range_def)
    have P: "0 < length P" using old(4) [OF j(3)] by (cases P) auto
    have w: "wrap32 (int (length P - 1) - snd (ups ! j)) = int (length P - 1) - snd (ups ! j)"
      "wrap32 (int (length P - 1) - snd (ups ! j) + 1) = int (length P) - snd (ups ! j)"
      using old(2,3) [OF j(3)] small P by (simp_all add: wrap32_id of_nat_diff)
    have d: "wrap64 (int (dist (hgt hp) j R)) = int (dist (hgt hp) j R)"
      using dist_le [of "hgt hp" j R] small by (intro wrap64_id) auto
    have "fst (ups ! j) \<noteq> x" using old(4) [OF j(3)] x by auto
    then show ?thesis using l(3) True j(1,2) old(1) [OF j(3)] w d by (simp add: with_node_simps lvl_def)
  next
    case False
    then have "\<not> in_range 0 (take lev ups) j" by (simp add: in_range_def)
    then show ?thesis using l(3) False by (simp add: with_node_simps not_less)
  qed
  then show ?thesis using l(1,2) by blast
qed


lemma insert_linked:
  assumes L: "linked hp k (P @ R)" and u: "lasts (hgt hp) P k ups" and d: "distinct (P @ R)" and x: "x \<notin> set (P @ R)"
    and lev: "lev \<le> k" and small: "length P + length R < 2 ^ 32"
  shows "\<exists>hp3 hp4. link_levels (with_node hp x lev sc m) x (int (length P - 1)) 0 (take lev ups) = Some hp3 \<and>
    bump_levels hp3 lev (drop lev ups) = Some hp4 \<and> same_shape (with_node hp x lev sc m) hp4 \<and>
    linked hp4 k (P @ x # R) \<and> (\<forall>j<lev. level_of hp4 x j = Some (lvl (hgt hp) j R)) \<and>
    (\<forall>b j. k \<le> j \<longrightarrow> b \<noteq> x \<longrightarrow> level_of hp4 b j = level_of hp b j)"
proof -
  note old = last_level [OF L u]
  have lu: "length ups = k" using u by (simp add: lasts_def)
  have xP: "x \<notin> set P" using x by simp
  from link_new [OF L u xP lev small, of sc m] obtain hp3 where
    3: "link_levels (with_node hp x lev sc m) x (int (length P - 1)) 0 (take lev ups) = Some hp3"
    "same_shape (with_node hp x lev sc m) hp3"
    and l3: "\<And>b j. level_of hp3 b j =
      (if b = x then (if j < lev then Some (lvl (hgt hp) j R) else None)
       else if j < lev \<and> b = fst (ups ! j) then Some \<lparr>forward = Some x, span = int (length P) - snd (ups ! j)\<rparr>
       else level_of hp b j)" by blast
  have H3: "hgt hp3 = (hgt hp)(x := lev)" using 3(2) by (simp add: same_shape_def with_node_simps)
  have bin: "\<forall>j<length (drop lev ups). lev + j < hgt hp3 (fst (drop lev ups ! j))"
    using old(4,5) lu x by (auto simp: H3)
  from bump_levels_spec [OF bin] obtain hp4 where 4: "bump_levels hp3 lev (drop lev ups) = Some hp4" "same_shape hp3 hp4"
    "\<And>b j. level_of hp4 b j =
      (if in_range lev (drop lev ups) j \<and> b = fst (drop lev ups ! (j - lev))
       then map_option (\<lambda>lu. lu\<lparr>span := wrap64 (span lu + 1)\<rparr>) (level_of hp3 b j)
       else level_of hp3 b j)" by blast
  have l4: "level_of hp4 b j =
      (if b = x then (if j < lev then Some (lvl (hgt hp) j R) else None)
       else if j < k \<and> b = fst (ups ! j) then
         (if j < lev then Some \<lparr>forward = Some x, span = int (length P - nat (snd (ups ! j)))\<rparr>
          else map_option (\<lambda>l. l\<lparr>span := span l + 1\<rparr>) (level_of hp b j))
       else level_of hp b j)" for b j
  proof (cases "lev \<le> j \<and> j < k")
    case True
    then have j: "in_range lev (drop lev ups) j" "drop lev ups ! (j - lev) = ups ! j" using lu by (simp_all add: in_range_def)
    have "wrap64 (span l + 1) = span l + 1" if "level_of hp (fst (ups ! j)) j = Some l" for l
      using old(1-3) [of j] True small that dist_le [of "hgt hp" j R] by (intro wrap64_id) auto
    then show ?thesis using 4(3) l3 True j old(4) [of j] xP by (auto simp: map_option_case split: option.splits)
  next
    case False
    then have "\<not> in_range lev (drop lev ups) j" using lu by (auto simp: in_range_def)
    moreover have "int (length P - nat (snd (ups ! j))) = int (length P) - snd (ups ! j)" if "j < k"
      using old(2,3) [OF that] by (auto simp: of_nat_diff)
    ultimately show ?thesis using 4(3) l3 False lev by auto
  qed
  have "linked hp4 k (P @ x # R)"
    by (rule linked_insert [OF L d x _ _ l4]) (use 4(2) H3 lastsD [OF u] in \<open>simp_all add: same_shape_def\<close>)
  then show ?thesis using 3 4(1,2) same_shape_trans l4 by fastforce
qed

section \<open>The two backward pointers\<close>

text \<open>The last step of the insertion, from the heap in which the levels are linked.\<close>

definition backward_step :: "'m zheap \<Rightarrow> addr \<Rightarrow> addr \<Rightarrow> addr \<Rightarrow> addr option \<Rightarrow> ('m zheap \<times> addr option) option" where
  "backward_step hp h u0 x tail = do {
     hp \<leftarrow> set_backward hp x (if u0 = h then None else Some u0);
     lx \<leftarrow> level_of hp x 0;
     (case forward lx of
        Some f \<Rightarrow> do { hp \<leftarrow> set_backward hp f (Some x); Some (hp, tail) }
      | None \<Rightarrow> Some (hp, Some x))
   }"

lemma backward_step_spec:
  assumes bl: "back_linked hp h (P @ R)" and P: "P \<noteq> []" and d: "distinct (P @ R)" and x: "x \<notin> set (P @ R)" "x \<noteq> h"
    and dom: "set (x # R) \<subseteq> dom hp" and lx: "\<exists>lx. level_of hp x 0 = Some lx \<and> forward lx = (if R = [] then None else Some (hd R))"
    and ix: "info hp x = Some (Some m, sc, w)" and tl: "R \<noteq> [] \<longrightarrow> tail = Some (last R)"
  shows "\<exists>hp'. backward_step hp h (last P) x tail = Some (hp', Some (last (x # R))) \<and> hgt hp' = hgt hp \<and>
    level_of hp' = level_of hp \<and> dom hp' = dom hp \<and> back_linked hp' h (P @ x # R) \<and> zentry hp' = zentry hp"
proof -
  let ?b = "if last P = h then None else Some (last P)"
  obtain hp5 where 5: "set_backward hp x ?b = Some hp5" "hgt hp5 = hgt hp" "level_of hp5 = level_of hp" "dom hp5 = dom hp"
    "\<And>b. info hp5 b = (if b = x then map_option (\<lambda>(m, s, w). (m, s, ?b)) (info hp x) else info hp b)"
    using set_backward_spec [of x hp ?b] dom by auto
  obtain hp6 where 6: "backward_step hp h (last P) x tail = Some (hp6, Some (last (x # R)))" "hgt hp6 = hgt hp"
    "level_of hp6 = level_of hp" "dom hp6 = dom hp"
    "\<And>b. info hp6 b = (if R \<noteq> [] \<and> b = hd R then map_option (\<lambda>(m, s, w). (m, s, Some x)) (info hp5 b) else info hp5 b)"
  proof (cases R)
    case Nil
    then show ?thesis using that [of hp5] 5 lx by (auto simp: backward_step_def)
  next
    case (Cons f R')
    obtain hp6 where "set_backward hp5 f (Some x) = Some hp6" "hgt hp6 = hgt hp5" "level_of hp6 = level_of hp5"
      "dom hp6 = dom hp5"
      "\<And>b. info hp6 b = (if b = f then map_option (\<lambda>(m, s, w). (m, s, Some x)) (info hp5 f) else info hp5 b)"
      using set_backward_spec [of f hp5 "Some x"] 5(4) dom Cons by auto
    then show ?thesis using that [of hp6] 5(1-4) lx tl Cons by (auto simp: backward_step_def)
  qed
  have "R \<noteq> [] \<Longrightarrow> hd R \<noteq> x" using x(1) by (auto dest: hd_in_set)
  then have info: "info hp6 b = (if b = x then Some (Some m, sc, ?b)
      else if R \<noteq> [] \<and> b = hd R then map_option (\<lambda>(m, s, w). (m, s, Some x)) (info hp b) else info hp b)" for b
    using 6(5) [of b] 5(5) [of b] ix by auto
  have "back_linked hp6 h (P @ x # R)" by (rule back_linked_insert [OF bl P d x info])
  moreover have "zentry hp6 = zentry hp"
  proof
    fix b show "zentry hp6 b = zentry hp b"
      using info [of b] ix by (cases "info hp b") (auto simp: zentry_info split: if_splits)
  qed
  ultimately show ?thesis using 6(1-4) by blast
qed


section \<open>The insertion\<close>

lemma zsl_rep_insert:
  assumes z: "zsl_rep z (as1 @ R)" and x: "x = zs_next z" and lev: "1 \<le> lev" "lev \<le> ZSKIPLIST_MAXLEVEL"
    and H: "hgt hp = (hgt (zs_heap z))(x := lev)" and D: "dom hp = insert x (dom (zs_heap z))"
    and L: "linked hp (max lev (zs_level z)) (zs_header z # as1 @ x # R)"
    and up: "\<forall>j\<ge>max lev (zs_level z). level_of hp (zs_header z) j = level_of (zs_heap z) (zs_header z) j"
    and bl: "back_linked hp (zs_header z) (zs_header z # as1 @ x # R)"
  shows "zsl_rep (z\<lparr>zs_heap := hp, zs_next := x + 1, zs_tail := Some (last (x # R)), zs_length := zs_length z + 1,
      zs_level := max lev (zs_level z)\<rparr>) (as1 @ x # R)"
proof -
  note r = zsl_repD [OF z]
  have xs: "x \<notin> set (zs_header z # as1 @ R)" using zsl_rep_nodes [OF z] r(2) x by blast
  have "\<forall>a\<in>set (as1 @ x # R). 1 \<le> hgt hp a \<and> hgt hp a \<le> max lev (zs_level z)"
    using r(6) lev xs by (fastforce simp: H)
  moreover have "\<exists>s. level_of hp (zs_header z) i = Some \<lparr>forward = None, span = s\<rparr>"
    if "max lev (zs_level z) \<le> i" "i < ZSKIPLIST_MAXLEVEL" for i
    using r(8) [of i] up that by simp
  moreover have "distinct (zs_header z # as1 @ x # R)" using r(1) xs by auto
  moreover have "\<forall>a\<in>dom hp. a < x + 1" using r(2) x by (auto simp: D less_Suc_eq)
  moreover have "hgt hp (zs_header z) = ZSKIPLIST_MAXLEVEL" using r(3) xs by (auto simp: H)
  ultimately show ?thesis
    unfolding zsl_rep_def using L bl lev r(4,5,11) by simp
qed

lemma m_zslInsert_run:
  assumes "descend (zs_heap z) (\<lambda>r lv n. entry_before cmp sc m n) (2 ^ 32) (zs_level z) (zs_header z) 0 = Some (ups, y, r)"
    and "m_zslRandomLevel draws = Some (lev, draws')"
    and "grow_levels (zs_heap z) (zs_header z) (int (zs_length z)) (zs_level z) (lev - zs_level z) = Some (hp1, ext)"
    and "arr_get (ups @ ext) 0 = Some (u0, rank0)"
    and "link_levels (with_node hp1 (zs_next z) lev sc m) (zs_next z) rank0 0 (take lev (ups @ ext)) = Some hp3"
    and "bump_levels hp3 lev (drop lev (ups @ ext)) = Some hp4"
    and "backward_step hp4 (zs_header z) u0 (zs_next z) (zs_tail z) = Some (hp6, tail)"
  shows "m_zslInsert cmp draws z sc m = Some (zs_next z, draws',
    z\<lparr>zs_heap := hp6, zs_next := zs_next z + 1, zs_tail := tail, zs_length := zs_length z + 1,
      zs_level := max lev (zs_level z)\<rparr>)"
  using assms by (simp add: m_zslInsert_def backward_step_def with_node_def Let_def del: take_append drop_append)
    (auto simp: bind_eq_Some_conv simp del: take_append drop_append)

lemma zsl_descend_lasts:
  assumes z: "zsl_rep z (as1 @ R)" and b: "\<forall>a\<in>set as1. before cmp sc m (zs_heap z) a"
    and nb: "\<forall>a\<in>set R. \<not> before cmp sc m (zs_heap z) a" and len: "length (as1 @ R) < 2 ^ 32 - 1"
  obtains ups where "descend (zs_heap z) (\<lambda>r lv n. entry_before cmp sc m n) (2 ^ 32) (zs_level z) (zs_header z) 0 =
      Some (ups, last (zs_header z # as1), int (length as1))"
    and "lasts (hgt (zs_heap z)) (zs_header z # as1) (zs_level z) ups"
    and "\<And>ext. arr_get (ups @ ext) 0 = Some (last (zs_header z # as1), int (length as1))"
proof -
  obtain ups where d: "descend (zs_heap z) (\<lambda>r lv n. entry_before cmp sc m n) (2 ^ 32) (zs_level z) (zs_header z) 0 =
      Some (ups, last (zs_header z # as1), int (length as1))" "length ups = zs_level z"
    "\<forall>i<zs_level z. \<exists>b n. ups ! i = (b, int n) \<and> is_last (hgt (zs_heap z)) i (zs_header z # as1) b n"
    "ups ! 0 = (last (zs_header z # as1), int (length as1))"
    using zsl_descend [OF z refl b nb len] by blast
  have "lasts (hgt (zs_heap z)) (zs_header z # as1) (zs_level z) ups" using d(2,3) by (fastforce simp: lasts_def)
  moreover have "arr_get (ups @ ext) 0 = Some (last (zs_header z # as1), int (length as1))" for ext
    using d(2,4) zsl_repD(4) [OF z] by (auto simp: arr_get_def nth_append)
  ultimately show ?thesis using that d(1) by blast
qed

lemma m_zslInsert_spec:
  fixes z :: "'m zskiplist"
  assumes z: "zsl_rep z as" and as: "as = as1 @ R" and b: "\<forall>a\<in>set as1. before cmp sc m (zs_heap z) a"
    and nb: "\<forall>a\<in>set R. \<not> before cmp sc m (zs_heap z) a" and len: "length as < 2 ^ 32 - 1"
    and lev: "m_zslRandomLevel draws = Some (lev, draws')"
  shows "\<exists>z'. m_zslInsert cmp draws z sc m = Some (zs_next z, draws', z') \<and>
    zsl_rep z' (as1 @ zs_next z # R) \<and> zs_header z' = zs_header z \<and>
    dom (zs_heap z') = insert (zs_next z) (dom (zs_heap z)) \<and>
    (\<forall>a. zentry (zs_heap z') a = (if a = zs_next z then Some (Some m, sc) else zentry (zs_heap z) a))"
proof -
  let ?h = "zs_header z" and ?x = "zs_next z"
  let ?P = "?h # as1" and ?k = "lev - zs_level z"
  let ?L = "zs_level z + ?k"
  note z' = z [unfolded as] and r = zsl_repD [OF z]
  have lev': "1 \<le> lev" "lev \<le> ZSKIPLIST_MAXLEVEL" using m_zslRandomLevel_bounds [OF lev] by auto
  have L: "?L = max lev (zs_level z)" "lev \<le> ?L" "?L \<le> ZSKIPLIST_MAXLEVEL" using lev' r(5) by auto
  have dist: "distinct (?P @ R)" using r(1) as by simp
  have nodes: "set (?P @ R) \<subseteq> dom (zs_heap z)" using zsl_rep_nodes [OF z] as by simp
  have x: "?x \<notin> dom (zs_heap z)" using r(2) by blast
  then have xs: "?x \<notin> set (?P @ R)" using nodes by blast
  obtain ups where d: "descend (zs_heap z) (\<lambda>r lv n. entry_before cmp sc m n) (2 ^ 32) (zs_level z) ?h 0 =
      Some (ups, last ?P, int (length as1))" "lasts (hgt (zs_heap z)) ?P (zs_level z) ups"
    "\<And>ext. arr_get (ups @ ext) 0 = Some (last ?P, int (length as1))"
    using zsl_descend_lasts [OF z' b nb] len as by blast
  obtain hp1 where g: "grow_levels (zs_heap z) ?h (int (zs_length z)) (zs_level z) ?k = Some (hp1, replicate ?k (?h, 0))"
    "same_shape (zs_heap z) hp1" "linked hp1 ?L (?P @ R)"
    "\<forall>b j. ?L \<le> j \<longrightarrow> level_of hp1 b j = level_of (zs_heap z) b j"
    using grow_linked [OF z L(3)] as by auto
  have s1: "hgt hp1 = hgt (zs_heap z)" "info hp1 = info (zs_heap z)" "dom hp1 = dom (zs_heap z)"
    using g(2) by (simp_all add: same_shape_def)
  let ?ups = "ups @ replicate ?k (?h, 0)"
  have u: "lasts (hgt hp1) ?P ?L ?ups" unfolding s1(1)
    by (rule lasts_grow [OF d(2)]) (use L(3) r(3,6) as in auto)
  obtain hp3 hp4 where l: "link_levels (with_node hp1 ?x lev sc m) ?x (int (length as1)) 0 (take lev ?ups) = Some hp3"
    "bump_levels hp3 lev (drop lev ?ups) = Some hp4" "same_shape (with_node hp1 ?x lev sc m) hp4"
    "linked hp4 ?L (?P @ ?x # R)" "\<forall>j<lev. level_of hp4 ?x j = Some (lvl (hgt hp1) j R)"
    "\<forall>b j. ?L \<le> j \<longrightarrow> b \<noteq> ?x \<longrightarrow> level_of hp4 b j = level_of hp1 b j"
    using insert_linked [OF g(3) u dist xs L(2), of sc m] len as by auto
  have s4: "hgt hp4 = (hgt (zs_heap z))(?x := lev)" "info hp4 = (info (zs_heap z))(?x \<mapsto> (Some m, sc, None))"
    "dom hp4 = insert ?x (dom (zs_heap z))"
    using l(3) s1 by (simp_all add: same_shape_def with_node_simps)
  have bl: "back_linked hp4 ?h (?P @ R)"
    by (subst back_linked_cong [of _ hp4 "zs_heap z"]) (use dist xs r(9) as in \<open>auto simp: s4(2)\<close>)
  have lx: "level_of hp4 ?x 0 = Some (lvl (hgt hp1) 0 R)" using l(5) lev' by simp
  have fx: "forward (lvl (hgt hp1) 0 R) = (if R = [] then None else Some (hd R))"
    using nxt_0 [of R "hgt hp1"] r(6) as s1(1) by (auto simp: lvl_def split: list.splits)
  have dm: "set (?x # R) \<subseteq> dom hp4" using nodes by (auto simp: s4(3))
  have xh: "?P \<noteq> []" "?x \<noteq> ?h" and ix: "info hp4 ?x = Some (Some m, sc, None)" using xs by (auto simp: s4(2))
  have tl: "R \<noteq> [] \<longrightarrow> zs_tail z = Some (last R)" using r(10) as by simp
  obtain hp6 where b6: "backward_step hp4 ?h (last ?P) ?x (zs_tail z) = Some (hp6, Some (last (?x # R)))"
    "hgt hp6 = hgt hp4" "level_of hp6 = level_of hp4" "dom hp6 = dom hp4" "back_linked hp6 ?h (?P @ ?x # R)"
    "zentry hp6 = zentry hp4"
    using backward_step_spec [OF bl xh(1) dist xs xh(2) dm _ ix tl] lx fx by blast
  have "linked hp6 ?L (?P @ ?x # R)" using l(4) b6(2,3) by (simp add: linked_def)
  moreover have "\<forall>j\<ge>?L. level_of hp6 ?h j = level_of (zs_heap z) ?h j" using b6(3) l(6) g(4) xs by auto
  ultimately have "zsl_rep (z\<lparr>zs_heap := hp6, zs_next := ?x + 1, zs_tail := Some (last (?x # R)),
      zs_length := zs_length z + 1, zs_level := max lev (zs_level z)\<rparr>) (as1 @ ?x # R)"
    using zsl_rep_insert [OF z' refl lev', of hp6] b6(2,4,5) s4 L(1) by simp
  moreover have "zentry hp6 a = (if a = ?x then Some (Some m, sc) else zentry (zs_heap z) a)" for a
    by (simp add: b6(6) zentry_info s4(2))
  ultimately show ?thesis
    using m_zslInsert_run [OF d(1) lev g(1) d(3) l(1,2) b6(1)] b6(4) s4(3) by auto
qed

end
