(* ===== verification/SkiplistDel.thy ===== *)
theory SkiplistDel
  imports SkiplistInsert
begin

text \<open>
  Deletion from the skip list keeps the invariant: unlinking a node with the update array of
  a descent, freeing nodes, and the loops of the range deletions and of \<open>m_zslFree\<close>.
\<close>

section \<open>Freeing a node that is no longer linked\<close>

lemma hgt_upd: "b \<noteq> x \<Longrightarrow> hgt (hp(x := v)) b = hgt hp b"
  by (simp add: hgt_def)

lemma level_of_upd: "b \<noteq> x \<Longrightarrow> level_of (hp(x := v)) b = level_of hp b"
  by (simp add: level_of_def fun_eq_iff)

lemma info_upd: "b \<noteq> x \<Longrightarrow> info (hp(x := v)) b = info hp b"
  by (simp add: info_def)

lemma lvl_cong: "\<forall>b\<in>set xs. H b = H' b \<Longrightarrow> lvl H i xs = lvl H' i xs"
  using nxt_cong [of xs H H' i] dist_cong [of xs H H' i] by (simp add: lvl_def)

lemma linked_free:
  assumes L: "linked hp lv s" and x: "x \<notin> set s"
  shows "linked (hp(x := None)) lv s"
  unfolding linked_def
proof (intro allI impI)
  fix pre a rest i
  assume s: "s = pre @ a # rest" and i: "i < lv" and a: "i < hgt (hp(x := None)) a"
  have ne: "a \<noteq> x" and rest: "x \<notin> set rest" using x s by auto
  have "\<forall>b\<in>set rest. hgt hp b = hgt (hp(x := None)) b" using rest by (auto simp: hgt_def)
  then have "lvl (hgt hp) i rest = lvl (hgt (hp(x := None))) i rest" by (rule lvl_cong)
  moreover have "level_of hp a i = Some (lvl (hgt hp) i rest)"
    using linkedD [OF L s i] a ne by (simp add: hgt_upd)
  ultimately show "level_of (hp(x := None)) a i = Some (lvl (hgt (hp(x := None))) i rest)"
    using ne by (simp add: level_of_upd)
qed

lemma zsl_rep_free:
  assumes z: "zsl_rep z as" and x: "x \<notin> set (zs_header z # as)"
  shows "zsl_rep (z\<lparr>zs_heap := (zs_heap z)(x := None)\<rparr>) as"
proof -
  note r = zsl_repD [OF z]
  have h: "zs_header z \<noteq> x" using x by auto
  have "back_linked ((zs_heap z)(x := None)) (zs_header z) (zs_header z # as) \<longleftrightarrow>
      back_linked (zs_heap z) (zs_header z) (zs_header z # as)"
    by (rule back_linked_cong) (use x r(1) in \<open>auto intro!: info_upd\<close>)
  moreover have "\<forall>a\<in>set as. hgt ((zs_heap z)(x := None)) a = hgt (zs_heap z) a"
    using x by (auto simp: hgt_def)
  ultimately show ?thesis
    using r h linked_free [OF r(7) x] by (auto simp: zsl_rep_def hgt_upd level_of_upd)
qed

section \<open>Lowering the level\<close>

lemma drop_levels_spec:
  assumes "1 \<le> lev" and "lev \<le> hgt hp h"
  shows "\<exists>lev'. drop_levels hp h lev = Some lev' \<and> 1 \<le> lev' \<and> lev' \<le> lev \<and>
    (\<forall>i. lev' \<le> i \<and> i < lev \<longrightarrow> (\<exists>s. level_of hp h i = Some \<lparr>forward = None, span = s\<rparr>))"
  using assms
proof (induction lev rule: less_induct)
  case (less lev)
  show ?case
  proof (cases "lev > 1")
    case False
    then show ?thesis using less.prems by (subst drop_levels.simps) auto
  next
    case True
    have "lev - 1 < hgt hp h" using less.prems by linarith
    then obtain lv where lv: "level_of hp h (lev - 1) = Some lv" using level_of_Some by blast
    show ?thesis
    proof (cases "forward lv")
      case (Some f)
      then show ?thesis using True lv by (subst drop_levels.simps) auto
    next
      case None
      obtain lev' where l: "drop_levels hp h (lev - 1) = Some lev'" "1 \<le> lev'" "lev' \<le> lev - 1"
        "\<forall>i. lev' \<le> i \<and> i < lev - 1 \<longrightarrow> (\<exists>s. level_of hp h i = Some \<lparr>forward = None, span = s\<rparr>)"
      proof -
        have "lev - 1 < lev" "1 \<le> lev - 1" "lev - 1 \<le> hgt hp h" using True less.prems by linarith+
        from less.IH [OF this] show thesis using that by blast
      qed
      have "drop_levels hp h lev = Some lev'"
        using True lv None l(1) by (subst drop_levels.simps) simp
      moreover have "\<exists>s. level_of hp h i = Some \<lparr>forward = None, span = s\<rparr>" if i: "lev' \<le> i" "i < lev" for i
      proof (cases "i = lev - 1")
        case True
        then show ?thesis using lv None by (cases lv) simp
      next
        case False
        then show ?thesis using l(4) i by auto
      qed
      moreover have "lev' \<le> lev" using l(3) by simp
      ultimately show ?thesis using l(2) by blast
    qed
  qed
qed

lemma linked_mono: "linked hp lv s \<Longrightarrow> lv' \<le> lv \<Longrightarrow> linked hp lv' s"
  by (simp add: linked_def)

lemma wrap64_add: "wrap64 (a + wrap64 b) = wrap64 (a + b)"
  by (simp add: wrap64_def mod_add_right_eq)

section \<open>m_zslDeleteNode\<close>

text \<open>The update array of a descent to the position after \<open>P\<close>.\<close>

definition update_for :: "'m zskiplist \<Rightarrow> addr list \<Rightarrow> addr list \<Rightarrow> bool" where
  "update_for z P us \<longleftrightarrow> zs_level z \<le> length us \<and>
     (\<forall>i<zs_level z. \<exists>n. is_last (hgt (zs_heap z)) i P (us ! i) n)"

lemma front_level:
  assumes L: "linked hp lv (P @ x # R)" and d: "distinct (P @ x # R)" and i: "i < lv"
    and l: "is_last (hgt hp) i P u n"
  shows "\<exists>k. level_of hp u i = Some (if i < hgt hp x then \<lparr>forward = Some x, span = int (Suc k)\<rparr>
      else \<lparr>forward = nxt (hgt hp) i R, span = int (Suc (k + dist (hgt hp) i R))\<rparr>) \<and> k \<le> length P"
proof -
  obtain u' v where P: "P = u' @ u # v" "i < hgt hp u" "\<forall>b\<in>set v. hgt hp b \<le> i"
    using l by (rule is_lastE)
  have "level_of hp u i = Some (lvl (hgt hp) i (v @ x # R))"
    by (rule linkedD [OF L _ i P(2), of u']) (simp add: P(1))
  moreover have "length v \<le> length P" using P(1) by simp
  ultimately show ?thesis
    by (intro exI [of _ "length v"])
      (simp add: lvl_def nxt_append_low [OF P(3)] dist_append_low [OF P(3)])
qed

lemma nxt_mem: "nxt H i R = Some b \<Longrightarrow> b \<in> set R"
  by (induction R) (auto split: if_splits)

text \<open>What the loop does to the entry of one level.\<close>

lemma unlinked_level:
  assumes L: "linked hp lv (P @ x # R)" and d: "distinct (P @ x # R)" and i: "i < lv"
    and l: "is_last (hgt hp) i P u n" and len: "length (P @ R) < 2 ^ 64 - 1" and lu: "level_of hp u i = Some lu"
  shows "forward lu = Some x \<longleftrightarrow> i < hgt hp x"
    and "(if forward lu = Some x
          then \<lparr>forward = forward (the (level_of hp x i)),
                span = wrap64 (span lu + wrap64 (span (the (level_of hp x i)) - 1))\<rparr>
          else lu\<lparr>span := wrap64 (span lu - 1)\<rparr>) =
      (if i < hgt hp x then \<lparr>forward = nxt (hgt hp) i R, span = span lu + int (dist (hgt hp) i R) - 1\<rparr>
       else lu\<lparr>span := span lu - 1\<rparr>)"
proof -
  obtain k where k: "lu = (if i < hgt hp x then \<lparr>forward = Some x, span = int (Suc k)\<rparr>
      else \<lparr>forward = nxt (hgt hp) i R, span = int (Suc (k + dist (hgt hp) i R))\<rparr>)" "k \<le> length P"
    using front_level [OF L d i l] lu by auto
  have "nxt (hgt hp) i R \<noteq> Some x" using nxt_mem [of "hgt hp" i R x] d by auto
  then show f: "forward lu = Some x \<longleftrightarrow> i < hgt hp x" using k(1) by simp
  have big: "int (k + dist (hgt hp) i R) < 2 ^ 64" using k(2) dist_le [of "hgt hp" i R] len by simp
  have "level_of hp x i = Some (lvl (hgt hp) i R)" if "i < hgt hp x"
    by (rule linkedD [OF L _ i that, of P]) simp
  then show "(if forward lu = Some x
          then \<lparr>forward = forward (the (level_of hp x i)),
                span = wrap64 (span lu + wrap64 (span (the (level_of hp x i)) - 1))\<rparr>
          else lu\<lparr>span := wrap64 (span lu - 1)\<rparr>) =
      (if i < hgt hp x then \<lparr>forward = nxt (hgt hp) i R, span = span lu + int (dist (hgt hp) i R) - 1\<rparr>
       else lu\<lparr>span := span lu - 1\<rparr>)"
    unfolding f using k(1) big by (simp add: lvl_def wrap64_add wrap64_id)
qed

text \<open>The loop over the levels leaves the nodes linked without \<open>x\<close>.\<close>

lemma unlink_spec:
  assumes z: "zsl_rep z (as1 @ x # R)" and us: "update_for z (zs_header z # as1) us"
    and len: "length (as1 @ x # R) < 2 ^ 64 - 1"
  shows "\<exists>hp1. unlink_levels (zs_heap z) x 0 (take (zs_level z) us) = Some hp1 \<and>
    same_shape (zs_heap z) hp1 \<and> linked hp1 (zs_level z) (zs_header z # as1 @ R) \<and>
    (\<forall>j. level_of hp1 x j = level_of (zs_heap z) x j) \<and>
    (\<forall>b j. zs_level z \<le> j \<longrightarrow> level_of hp1 b j = level_of (zs_heap z) b j)"
proof -
  let ?h = "zs_header z" and ?hp = "zs_heap z"
  let ?P = "?h # as1" and ?us = "take (zs_level z) us"
  have d: "distinct (?P @ x # R)" using zsl_repD(1) [OF z] by simp
  have L: "linked ?hp (zs_level z) (?P @ x # R)" using zsl_repD(7) [OF z] by simp
  have lus: "length ?us = zs_level z" using us by (simp add: update_for_def)
  define n where "n i = (SOME n. is_last (hgt ?hp) i ?P (us ! i) n)" for i
  have il: "is_last (hgt ?hp) i ?P (us ! i) (n i)" if "i < zs_level z" for i
    using us that unfolding n_def update_for_def by (blast intro: someI)
  have ux: "us ! i \<noteq> x" "i < hgt ?hp (us ! i)" if "i < zs_level z" for i
    using is_last_mem [OF il [OF that]] d il [OF that] by (auto simp: is_last_def)
  have len': "length (?P @ R) < 2 ^ 64 - 1" using len by simp
  note entry = unlinked_level [OF L d _ il len']
  have lin: "levels_in ?hp x 0 ?us" using ux lus by (auto simp: levels_in_def)
  have fw: "\<forall>j<length ?us. \<forall>lu. level_of ?hp (?us ! j) (0 + j) = Some lu \<longrightarrow>
      forward lu = Some x \<longrightarrow> 0 + j < hgt ?hp x"
    using entry(1) lus by simp
  obtain hp1 where u: "unlink_levels ?hp x 0 ?us = Some hp1" "same_shape ?hp hp1"
    "\<forall>b j. level_of hp1 b j =
      (if in_range 0 ?us j \<and> b = ?us ! (j - 0) then
         map_option (\<lambda>lu. if forward lu = Some x
             then \<lparr>forward = forward (the (level_of ?hp x j)),
                   span = wrap64 (span lu + wrap64 (span (the (level_of ?hp x j)) - 1))\<rparr>
             else lu\<lparr>span := wrap64 (span lu - 1)\<rparr>) (level_of ?hp b j)
       else level_of ?hp b j)"
    using unlink_levels_spec [OF lin fw] by blast
  have rng: "in_range 0 ?us j \<longleftrightarrow> j < zs_level z" for j using lus by (simp add: in_range_def)
  have new: "level_of hp1 b j =
      (if j < zs_level z \<and> b = us ! j then
         map_option (\<lambda>l. if j < hgt ?hp x then \<lparr>forward = nxt (hgt ?hp) j R, span = span l + int (dist (hgt ?hp) j R) - 1\<rparr>
           else l\<lparr>span := span l - 1\<rparr>) (level_of ?hp b j)
       else level_of ?hp b j)" for b j
    using u(3) rng entry(2) by (cases "level_of ?hp b j") auto
  have H1: "hgt hp1 = hgt ?hp" using u(2) by (simp add: same_shape_def)
  have "linked hp1 (zs_level z) (?P @ R)"
    by (rule linked_remove [OF L d _ il new]) (simp_all add: H1)
  moreover have "level_of hp1 x j = level_of ?hp x j" for j using new [of x j] ux(1) [of j] by auto
  moreover have "level_of hp1 b j = level_of ?hp b j" if "zs_level z \<le> j" for b j
    using new [of b j] that by simp
  ultimately show ?thesis using u(1,2) by auto
qed

lemma back_linked_remove:
  assumes bl: "back_linked hp h (P @ x # R)" and d: "distinct (P @ x # R)"
    and new: "\<And>b. info hp' b = (if R \<noteq> [] \<and> b = hd R
        then map_option (\<lambda>(m, s, w). (m, s, if last P = h then None else Some (last P))) (info hp b)
        else info hp b)"
  shows "back_linked hp' h (P @ R)"
proof -
  have old: "back_linked hp h P" "back_linked hp h (x # R)" using bl by (simp_all add: back_linked_append)
  then have old': "back_linked hp h R" "R \<noteq> [] \<Longrightarrow> \<exists>m sc w. info hp (hd R) = Some (Some m, sc, w)"
    using back_linked_append [of hp h "[x]" R] by auto
  have "back_linked hp' h P \<longleftrightarrow> back_linked hp h P"
    by (rule back_linked_cong) (use d new in \<open>auto dest: hd_in_set\<close>)
  moreover have "back_linked hp' h R \<longleftrightarrow> back_linked hp h R"
    by (rule back_linked_cong) (use d new in auto)
  moreover have "\<exists>m sc. info hp' (hd R) = Some (Some m, sc, if last P = h then None else Some (last P))" if "R \<noteq> []"
    using old'(2) [OF that] new [of "hd R"] that by auto
  ultimately show ?thesis using old(1) old'(1) unfolding back_linked_append by blast
qed

text \<open>Taking \<open>x\<close> out of the backward chain: its successor, or the tail, gets its predecessor.\<close>

lemma unlink_backward:
  assumes bl: "back_linked hp h (h # as1 @ x # R)" and d: "distinct (h # as1 @ x # R)"
    and R: "set R \<subseteq> dom hp" and lx: "level_of hp x 0 = Some lx" "forward lx = (if R = [] then None else Some (hd R))"
    and tl: "R \<noteq> [] \<longrightarrow> tail = Some (last R)"
  shows "\<exists>n hp2. hp x = Some n \<and> arr_get (level n) 0 = Some lx \<and>
    (case forward lx of
       Some f \<Rightarrow> do { hp \<leftarrow> set_backward hp f (backward n); Some (hp, tail) }
     | None \<Rightarrow> Some (hp, backward n)) = Some (hp2, if as1 @ R = [] then None else Some (last (as1 @ R))) \<and>
    hgt hp2 = hgt hp \<and> level_of hp2 = level_of hp \<and> dom hp2 = dom hp \<and>
    back_linked hp2 h (h # as1 @ R) \<and> zentry hp2 = zentry hp"
proof -
  let ?P = "h # as1"
  let ?bx = "if last ?P = h then None else Some (last ?P)"
  have bl': "back_linked hp h (?P @ x # R)" and d': "distinct (?P @ x # R)" using bl d by simp_all
  have bx: "?bx = (if as1 = [] then None else Some (last as1))" using d by (cases as1 rule: rev_cases) auto
  obtain n where n: "hp x = Some n" "arr_get (level n) 0 = Some lx"
    using lx(1) by (auto simp: level_of_def bind_eq_Some_conv)
  have "\<exists>m sc. info hp x = Some (Some m, sc, ?bx)"
    using bl' unfolding back_linked_append by (simp only: list.sel list.distinct simp_thms)
  then have bn: "backward n = ?bx" using n(1) by (auto simp: info_def simp del: last.simps)
  obtain hp2 where 2: "(case forward lx of
       Some f \<Rightarrow> do { hp \<leftarrow> set_backward hp f (backward n); Some (hp, tail) }
     | None \<Rightarrow> Some (hp, backward n)) = Some (hp2, if as1 @ R = [] then None else Some (last (as1 @ R)))"
    "hgt hp2 = hgt hp" "level_of hp2 = level_of hp" "dom hp2 = dom hp"
    "\<And>b. info hp2 b = (if R \<noteq> [] \<and> b = hd R then map_option (\<lambda>(m, s, w). (m, s, ?bx)) (info hp b) else info hp b)"
  proof (cases R)
    case Nil
    then show ?thesis using that [of hp] lx(2) bn bx by auto
  next
    case (Cons f R')
    then obtain hp2 where "set_backward hp f (backward n) = Some hp2" "hgt hp2 = hgt hp" "level_of hp2 = level_of hp"
      "dom hp2 = dom hp"
      "\<And>b. info hp2 b = (if b = f then map_option (\<lambda>(m, s, w). (m, s, backward n)) (info hp f) else info hp b)"
      using set_backward_spec [of f hp "backward n"] R by auto
    then show ?thesis using that [of hp2] lx(2) tl bn Cons by auto
  qed
  have "back_linked hp2 h (?P @ R)" by (rule back_linked_remove [OF bl' d' 2(5)])
  moreover have "zentry hp2 = zentry hp"
  proof
    fix b show "zentry hp2 b = zentry hp b"
      using 2(5) [of b] by (cases "info hp b") (auto simp: zentry_info split: if_splits)
  qed
  ultimately show ?thesis using n 2(1-4) by auto
qed

lemma zsl_rep_remove:
  assumes z: "zsl_rep z (as1 @ x # R)" and H: "hgt hp = hgt (zs_heap z)" and D: "dom hp = dom (zs_heap z)"
    and L: "linked hp (zs_level z) (zs_header z # as1 @ R)"
    and up: "\<forall>j\<ge>zs_level z. level_of hp (zs_header z) j = level_of (zs_heap z) (zs_header z) j"
    and bl: "back_linked hp (zs_header z) (zs_header z # as1 @ R)" and lev: "1 \<le> lev" "lev \<le> zs_level z"
    and free: "\<forall>i. lev \<le> i \<and> i < zs_level z \<longrightarrow> (\<exists>s. level_of hp (zs_header z) i = Some \<lparr>forward = None, span = s\<rparr>)"
  shows "zsl_rep (z\<lparr>zs_heap := hp, zs_tail := if as1 @ R = [] then None else Some (last (as1 @ R)), zs_level := lev,
      zs_length := length (as1 @ R)\<rparr>) (as1 @ R)"
proof -
  note r = zsl_repD [OF z]
  have low: "hgt hp a \<le> lev" if a: "a \<in> set (as1 @ R)" for a
  proof (rule ccontr)
    assume "\<not> hgt hp a \<le> lev"
    then have lt: "lev < zs_level z" "lev < hgt hp a" using r(6) [of a] a H by auto
    then obtain s where "level_of hp (zs_header z) lev = Some \<lparr>forward = None, span = s\<rparr>" using free by auto
    moreover have "level_of hp (zs_header z) lev = Some (lvl (hgt hp) lev (as1 @ R))"
      by (rule linkedD [OF L _ lt(1), of "[]"]) (use lt r(3,5) H in simp_all)
    ultimately have "nxt (hgt hp) lev (as1 @ R) = None" by (simp add: lvl_def)
    then show False using a lt(2) by (fastforce simp only: nxt_None)
  qed
  have "\<exists>s. level_of hp (zs_header z) i = Some \<lparr>forward = None, span = s\<rparr>" if "lev \<le> i" "i < ZSKIPLIST_MAXLEVEL" for i
    using free up r(8) [of i] that by (cases "i < zs_level z") auto
  moreover have "\<forall>a\<in>set (as1 @ R). 1 \<le> hgt hp a \<and> hgt hp a \<le> lev" using low r(6) H by simp
  ultimately show ?thesis
    using r(1,2,3,5) H D lev linked_mono [OF L lev(2)] bl by (auto simp: zsl_rep_def)
qed

lemma m_zslDeleteNode_spec:
  assumes z: "zsl_rep z (as1 @ x # R)" and us: "update_for z (zs_header z # as1) us"
    and len: "length (as1 @ x # R) < 2 ^ 64 - 1"
  shows "\<exists>z'. m_zslDeleteNode z x us = Some z' \<and> zsl_rep z' (as1 @ R) \<and>
    zs_header z' = zs_header z \<and> zs_next z' = zs_next z \<and> zs_level z' \<le> zs_level z \<and>
    hgt (zs_heap z') = hgt (zs_heap z) \<and> dom (zs_heap z') = dom (zs_heap z) \<and>
    zentry (zs_heap z') = zentry (zs_heap z)"
proof -
  let ?h = "zs_header z" and ?hp = "zs_heap z"
  note r = zsl_repD [OF z]
  obtain hp1 where u: "unlink_levels ?hp x 0 (take (zs_level z) us) = Some hp1" "same_shape ?hp hp1"
    "linked hp1 (zs_level z) (?h # as1 @ R)" "\<forall>j. level_of hp1 x j = level_of ?hp x j"
    "\<forall>b j. zs_level z \<le> j \<longrightarrow> level_of hp1 b j = level_of ?hp b j"
    using unlink_spec [OF z us len] by blast
  have s1: "hgt hp1 = hgt ?hp" "info hp1 = info ?hp" "dom hp1 = dom ?hp"
    using u(2) by (simp_all add: same_shape_def)
  let ?lx = "lvl (hgt ?hp) 0 R"
  have "level_of ?hp x 0 = Some ?lx"
    by (rule linkedD [OF r(7) _ _, of "?h # as1"]) (use r(4) r(6) [of x] in simp_all)
  then have lx: "level_of hp1 x 0 = Some ?lx" using u(4) by simp
  have fx: "forward ?lx = (if R = [] then None else Some (hd R))"
    using nxt_0 [of R "hgt ?hp"] r(6) by (auto simp: lvl_def split: list.splits)
  have bl: "back_linked hp1 ?h (?h # as1 @ x # R)"
    using back_linked_cong [of _ hp1 ?hp, OF _ r(1)] r(9) s1(2) by simp
  have R: "set R \<subseteq> dom hp1" and tl: "R \<noteq> [] \<longrightarrow> zs_tail z = Some (last R)"
    using zsl_rep_nodes [OF z] s1(3) r(10) by auto
  obtain n hp2 where n: "hp1 x = Some n" "arr_get (level n) 0 = Some ?lx" and
    2: "(case forward ?lx of
       Some f \<Rightarrow> do { hp \<leftarrow> set_backward hp1 f (backward n); Some (hp, zs_tail z) }
     | None \<Rightarrow> Some (hp1, backward n)) = Some (hp2, if as1 @ R = [] then None else Some (last (as1 @ R)))"
    "hgt hp2 = hgt hp1" "level_of hp2 = level_of hp1" "dom hp2 = dom hp1" "back_linked hp2 ?h (?h # as1 @ R)"
    "zentry hp2 = zentry hp1"
    using unlink_backward [OF bl r(1) R lx fx tl] by blast
  obtain lev where l: "drop_levels hp2 ?h (zs_level z) = Some lev" "1 \<le> lev" "lev \<le> zs_level z"
    "\<forall>i. lev \<le> i \<and> i < zs_level z \<longrightarrow> (\<exists>s. level_of hp2 ?h i = Some \<lparr>forward = None, span = s\<rparr>)"
    using drop_levels_spec [OF r(4), of hp2 ?h] 2(2) s1(1) r(3,5) by auto
  let ?z = "z\<lparr>zs_heap := hp2, zs_tail := if as1 @ R = [] then None else Some (last (as1 @ R)), zs_level := lev,
      zs_length := length (as1 @ R)\<rparr>"
  have "zs_level z \<le> length us" using us by (simp add: update_for_def)
  moreover have "count_dec (zs_length z) = Some (length (as1 @ R))" using r(11) by (simp add: count_dec_def)
  ultimately have run: "m_zslDeleteNode z x us = Some ?z"
    by (simp only: m_zslDeleteNode_def u(1) n 2(1) l(1) c_assert_True Option.bind.bind_lunit prod.case)
  have "linked hp2 (zs_level z) (?h # as1 @ R)" using u(3) by (simp add: linked_def 2(2,3))
  then have "zsl_rep ?z (as1 @ R)"
    using zsl_rep_remove [OF z _ _ _ _ 2(5) l(2-4)] 2(2-4) u(5) s1 by simp
  moreover have "zentry hp2 = zentry ?hp" by (simp add: fun_eq_iff 2(6) zentry_info s1(2))
  ultimately show ?thesis using run l(3) 2(2,4) s1 by auto
qed

lemma update_for_descend:
  assumes "length ups = zs_level z"
    and "\<forall>i<zs_level z. \<exists>b n. ups ! i = (b, int n) \<and> is_last (hgt (zs_heap z)) i P b n"
  shows "update_for z P (map fst ups)"
  unfolding update_for_def
proof (intro conjI allI impI)
  show "zs_level z \<le> length (map fst ups)" using assms(1) by simp
  fix i assume i: "i < zs_level z"
  with assms(2) obtain b n where "ups ! i = (b, int n)" "is_last (hgt (zs_heap z)) i P b n" by blast
  then show "\<exists>n. is_last (hgt (zs_heap z)) i P (map fst ups ! i) n" using i assms(1) by auto
qed

lemma is_last_cong: "\<forall>a\<in>set P. H a = H' a \<Longrightarrow> is_last H i P c n \<longleftrightarrow> is_last H' i P c n"
  unfolding is_last_def by (metis nth_mem)

lemma update_for_mono:
  "update_for z P us \<Longrightarrow> zs_level z' \<le> zs_level z \<Longrightarrow>
    \<forall>a\<in>set P. hgt (zs_heap z') a = hgt (zs_heap z) a \<Longrightarrow> update_for z' P us"
  unfolding update_for_def using is_last_cong [of P "hgt (zs_heap z')" "hgt (zs_heap z)"] by (meson le_trans order_less_le_trans)

text \<open>Unlinking a node and freeing it.\<close>

lemma delete_free_spec:
  assumes z: "zsl_rep z (as1 @ x # R)" and us: "update_for z (zs_header z # as1) us"
    and len: "length (as1 @ x # R) < 2 ^ 64 - 1"
    and e: "zentry (zs_heap z) x = Some (Some m, sc)"
  shows "\<exists>z1 hp. m_zslDeleteNode z x us = Some z1 \<and> m_zslFreeNode (zs_heap z1) x = Some ([m], hp) \<and>
    zsl_rep (z1\<lparr>zs_heap := hp\<rparr>) (as1 @ R) \<and>
    update_for (z1\<lparr>zs_heap := hp\<rparr>) (zs_header z # as1) us \<and>
    zs_header z1 = zs_header z \<and> zs_next z1 = zs_next z \<and> dom hp = dom (zs_heap z) - {x} \<and>
    zentry hp = (zentry (zs_heap z))(x := None)"
proof -
  obtain z1 where 1: "m_zslDeleteNode z x us = Some z1" "zsl_rep z1 (as1 @ R)" "zs_header z1 = zs_header z"
    "zs_next z1 = zs_next z" "zs_level z1 \<le> zs_level z" "hgt (zs_heap z1) = hgt (zs_heap z)"
    "dom (zs_heap z1) = dom (zs_heap z)" "zentry (zs_heap z1) = zentry (zs_heap z)"
    using m_zslDeleteNode_spec [OF z us len] by blast
  have xs: "x \<notin> set (zs_header z1 # as1 @ R)" using zsl_repD(1) [OF z] 1(3) by auto
  have "zentry (zs_heap z1) x = Some (Some m, sc)" using 1(8) e by simp
  then obtain n where n: "zs_heap z1 x = Some n" "member n = Some m" by (auto simp: zentry_def)
  let ?hp = "(zs_heap z1)(x := None)"
  have "m_zslFreeNode (zs_heap z1) x = Some ([m], ?hp)" using n by (simp add: m_zslFreeNode_def)
  moreover have "zsl_rep (z1\<lparr>zs_heap := ?hp\<rparr>) (as1 @ R)" by (rule zsl_rep_free [OF 1(2) xs])
  moreover have "update_for (z1\<lparr>zs_heap := ?hp\<rparr>) (zs_header z # as1) us"
    by (rule update_for_mono [OF us]) (use 1(3,5,6) xs in \<open>auto simp: hgt_def fun_eq_iff\<close>)
  moreover have "dom ?hp = dom (zs_heap z) - {x}" using 1(7) by auto
  moreover have "zentry ?hp = (zentry (zs_heap z))(x := None)"
    using 1(8) by (auto simp: zentry_def fun_eq_iff)
  ultimately show ?thesis using 1(1,3,4) by blast
qed

section \<open>m_zslDelete\<close>

lemma level_0:
  assumes "zsl_rep z (as1 @ R)"
  shows "level_of (zs_heap z) (last (zs_header z # as1)) 0 = Some (lvl (hgt (zs_heap z)) 0 R)"
    and "forward (lvl (hgt (zs_heap z)) 0 R) = (case R of [] \<Rightarrow> None | f # R' \<Rightarrow> Some f)"
proof -
  note r = zsl_repD [OF assms]
  let ?P = "zs_header z # as1"
  have s: "zs_header z # as1 @ R = butlast ?P @ last ?P # R"
    using append_butlast_last_id [of ?P] by (metis append.assoc append_Cons append_Nil list.discI)
  have "last ?P \<in> set ?P" by (rule last_in_set) simp
  then have h: "0 < hgt (zs_heap z) (last ?P)"
    using r(3) r(6) by (auto simp: ZSKIPLIST_MAXLEVEL_def less_eq_Suc_le)
  show "level_of (zs_heap z) (last ?P) 0 = Some (lvl (hgt (zs_heap z)) 0 R)"
    by (rule linkedD [OF r(7) s _ h]) (use r(4) in simp)
  have "\<forall>a\<in>set R. 1 \<le> hgt (zs_heap z) a" using r(6) by simp
  from nxt_0 [OF this]
  show "forward (lvl (hgt (zs_heap z)) 0 R) = (case R of [] \<Rightarrow> None | f # R' \<Rightarrow> Some f)" by (simp add: lvl_def)
qed

lemma m_zslDelete_found:
  assumes z: "zsl_rep z (as1 @ x # R)" and b: "\<forall>a\<in>set as1. before cmp sc m (zs_heap z) a"
    and nb: "\<forall>a\<in>set (x # R). \<not> before cmp sc m (zs_heap z) a" and len: "length (as1 @ x # R) < 2 ^ 32 - 1"
    and e: "zentry (zs_heap z) x = Some (Some m', sc)" and c: "cmp m' m = 0"
  shows "\<exists>z'. m_zslDelete cmp z sc m = Some (True, [m'], z') \<and> zsl_rep z' (as1 @ R) \<and>
    zs_header z' = zs_header z \<and> dom (zs_heap z') = dom (zs_heap z) - {x} \<and>
    zentry (zs_heap z') = (zentry (zs_heap z))(x := None)"
proof -
  let ?h = "zs_header z"
  obtain ups where d: "descend (zs_heap z) (\<lambda>r lv n. entry_before cmp sc m n) (2 ^ 32) (zs_level z) ?h 0 =
      Some (ups, last (?h # as1), int (length as1))" "length ups = zs_level z"
    "\<forall>i<zs_level z. \<exists>b n. ups ! i = (b, int n) \<and> is_last (hgt (zs_heap z)) i (?h # as1) b n"
    using zsl_descend [OF z refl b nb len] by blast
  have us: "update_for z (?h # as1) (map fst ups)" by (rule update_for_descend [OF d(2,3)])
  have len': "length (as1 @ x # R) < 2 ^ 64 - 1" using len by simp
  obtain z1 hp where 1: "m_zslDeleteNode z x (map fst ups) = Some z1" "m_zslFreeNode (zs_heap z1) x = Some ([m'], hp)"
    "zsl_rep (z1\<lparr>zs_heap := hp\<rparr>) (as1 @ R)" "zs_header z1 = ?h" "dom hp = dom (zs_heap z) - {x}"
    "zentry hp = (zentry (zs_heap z))(x := None)"
    using delete_free_spec [OF z us len' e] by blast
  have fx: "forward (lvl (hgt (zs_heap z)) 0 (x # R)) = Some x" using level_0(2) [OF z] by simp
  obtain n where n: "zs_heap z x = Some n" "member n = Some m'" "score n = sc"
    using e by (auto simp: zentry_def)
  have "m_zslDelete cmp z sc m = Some (True, [m'], z1\<lparr>zs_heap := hp\<rparr>)"
    unfolding m_zslDelete_def
    by (simp only: d(1) level_0(1) [OF z] fx n c 1(1,2) Option.bind.bind_lunit prod.case option.case
        simp_thms if_True)
  then show ?thesis using 1(3-6) by auto
qed

lemma m_zslDelete_absent:
  assumes z: "zsl_rep z (as1 @ R)" and b: "\<forall>a\<in>set as1. before cmp sc m (zs_heap z) a"
    and nb: "\<forall>a\<in>set R. \<not> before cmp sc m (zs_heap z) a" and len: "length (as1 @ R) < 2 ^ 32 - 1"
    and no: "\<forall>x R' m'. R = x # R' \<longrightarrow> zentry (zs_heap z) x = Some (Some m', sc) \<longrightarrow> cmp m' m \<noteq> 0"
  shows "m_zslDelete cmp z sc m = Some (False, [], z)"
proof -
  let ?h = "zs_header z"
  obtain ups where d: "descend (zs_heap z) (\<lambda>r lv n. entry_before cmp sc m n) (2 ^ 32) (zs_level z) ?h 0 =
      Some (ups, last (?h # as1), int (length as1))"
    using zsl_descend [OF z refl b nb len] by blast
  show ?thesis
  proof (cases R)
    case Nil
    have "forward (lvl (hgt (zs_heap z)) 0 R) = None" using level_0(2) [OF z] Nil by simp
    then show ?thesis
      by (simp only: m_zslDelete_def d level_0(1) [OF z] Option.bind.bind_lunit prod.case option.case)
  next
    case (Cons x R')
    obtain n where n: "zs_heap z x = Some n" using zsl_rep_nodes [OF z] Cons by auto
    have "\<not> (sc = score n \<and> (case member n of None \<Rightarrow> False | Some m' \<Rightarrow> cmp m' m = 0))"
      using no Cons n by (auto simp: zentry_def split: option.splits)
    moreover have "forward (lvl (hgt (zs_heap z)) 0 R) = Some x" using level_0(2) [OF z] Cons by simp
    ultimately show ?thesis
      by (simp only: m_zslDelete_def d level_0(1) [OF z] n Option.bind.bind_lunit prod.case option.case if_False)
  qed
qed

section \<open>m_zslFree\<close>

lemma free_nodes_spec:
  assumes "linked hp lv (pre @ as)" and "1 \<le> lv" and "distinct as" and "\<forall>a\<in>set as. 1 \<le> hgt hp a"
    and "map (zentry hp) as = map (\<lambda>e. Some (Some (snd e), fst e)) es"
  shows "free_nodes hp (case as of [] \<Rightarrow> None | a # _ \<Rightarrow> Some a) = Some (map snd es, hp |` (- set as))"
  using assms
proof (induction as arbitrary: hp pre es)
  case Nil
  then show ?case by (subst free_nodes.simps) (simp add: restrict_map_def)
next
  case (Cons a as)
  obtain e es' where es: "es = e # es'" using Cons.prems(5) by (cases es) auto
  have ea: "zentry hp a = Some (Some (snd e), fst e)" using Cons.prems(5) es by simp
  have "level_of hp a 0 = Some (lvl (hgt hp) 0 as)"
    by (rule linkedD [OF Cons.prems(1)]) (use Cons.prems in auto)
  moreover have "\<forall>a\<in>set as. 1 \<le> hgt hp a" using Cons.prems by simp
  then have "forward (lvl (hgt hp) 0 as) = (case as of [] \<Rightarrow> None | a # _ \<Rightarrow> Some a)"
    using nxt_0 [of as "hgt hp"] by (simp add: lvl_def)
  moreover obtain n where n: "hp a = Some n" "member n = Some (snd e)" using ea by (auto simp: zentry_def)
  then have "m_zslFreeNode hp a = Some ([snd e], hp(a := None))" by (simp add: m_zslFreeNode_def)
  moreover have "free_nodes (hp(a := None)) (case as of [] \<Rightarrow> None | a # _ \<Rightarrow> Some a) =
      Some (map snd es', (hp(a := None)) |` (- set as))"
  proof (rule Cons.IH [of _ "[]"])
    have "linked hp lv as"
      using Cons.prems(1) unfolding linked_def
      by (metis append.assoc append_Cons)
    then show "linked (hp(a := None)) lv ([] @ as)" using linked_free Cons.prems(3) by fastforce
    show "\<forall>b\<in>set as. 1 \<le> hgt (hp(a := None)) b" using Cons.prems(3,4) by (auto simp: hgt_def)
    show "map (zentry (hp(a := None))) as = map (\<lambda>e. Some (Some (snd e), fst e)) es'"
    proof -
      have "map (zentry (hp(a := None))) as = map (zentry hp) as"
        using Cons.prems(3) by (auto simp: zentry_def)
      also have "\<dots> = map (\<lambda>e. Some (Some (snd e), fst e)) es'" using Cons.prems(5) es by simp
      finally show ?thesis .
    qed
  qed (use Cons.prems in auto)
  moreover have "(hp(a := None)) |` (- set as) = hp |` (- set (a # as))"
    by (auto simp: restrict_map_def fun_eq_iff)
  ultimately show ?case by (subst free_nodes.simps) (simp add: es)
qed

end
