(* ===== verification/SkiplistList.thy ===== *)
theory SkiplistList
  imports SkiplistDel
begin

text \<open>
  The skip list as the sorted list of its entries: a contract for every operation in terms of
  that list, which names no node and no level. \<open>zsl_list cmp z es\<close> also says that the heap
  holds the header and the nodes of the list and nothing else, so an operation that keeps it
  neither leaks a node nor leaves one dangling.
\<close>

section \<open>The order of entries\<close>

type_synonym 'm entry = "int \<times> 'm"

definition cmp_ok :: "('m \<Rightarrow> 'm \<Rightarrow> int) \<Rightarrow> bool" where
  "cmp_ok cmp \<longleftrightarrow> (\<forall>a b. cmp a b = 0 \<longleftrightarrow> a = b) \<and> (\<forall>a b. cmp a b < 0 \<longleftrightarrow> 0 < cmp b a) \<and>
     (\<forall>a b c. cmp a b < 0 \<longrightarrow> cmp b c < 0 \<longrightarrow> cmp a c < 0)"

definition entry_less :: "('m \<Rightarrow> 'm \<Rightarrow> int) \<Rightarrow> 'm entry \<Rightarrow> 'm entry \<Rightarrow> bool" where
  "entry_less cmp e f \<longleftrightarrow> fst e < fst f \<or> (fst e = fst f \<and> cmp (snd e) (snd f) < 0)"

lemma entry_less_irrefl: "cmp_ok cmp \<Longrightarrow> \<not> entry_less cmp e e"
  unfolding cmp_ok_def entry_less_def by (metis less_irrefl)

lemma entry_less_trans:
  assumes "cmp_ok cmp" "entry_less cmp e f" "entry_less cmp f g"
  shows "entry_less cmp e g"
  using assms unfolding cmp_ok_def entry_less_def by (metis dual_order.strict_trans)

lemma entry_less_total:
  assumes "cmp_ok cmp" "e \<noteq> f"
  shows "entry_less cmp e f \<or> entry_less cmp f e"
  using assms unfolding cmp_ok_def entry_less_def by (metis linorder_less_linear prod_eq_iff)

text \<open>Insertion into and deletion from a sorted list of entries.\<close>

fun zins :: "('m \<Rightarrow> 'm \<Rightarrow> int) \<Rightarrow> 'm entry \<Rightarrow> 'm entry list \<Rightarrow> 'm entry list" where
  "zins cmp e [] = [e]"
| "zins cmp e (x # xs) = (if entry_less cmp x e then x # zins cmp e xs else e # x # xs)"

lemma set_zins [simp]: "set (zins cmp e es) = insert e (set es)"
  by (induction es) auto

lemma length_zins [simp]: "length (zins cmp e es) = Suc (length es)"
  by (induction es) auto

lemma sorted_zins:
  assumes "cmp_ok cmp" "sorted_wrt (entry_less cmp) es" "e \<notin> set es"
  shows "sorted_wrt (entry_less cmp) (zins cmp e es)"
  using assms(2,3)
proof (induction es)
  case (Cons x xs)
  show ?case
  proof (cases "entry_less cmp x e")
    case True
    with Cons show ?thesis by auto
  next
    case False
    then have "entry_less cmp e x" using entry_less_total [OF assms(1), of x e] Cons.prems(2) by auto
    then show ?thesis using False Cons.prems entry_less_trans [OF assms(1)] by auto
  qed
qed simp

lemma zins_eq:
  "\<forall>x\<in>set es1. entry_less cmp x e \<Longrightarrow> (es2 \<noteq> [] \<Longrightarrow> \<not> entry_less cmp (hd es2) e) \<Longrightarrow>
    zins cmp e (es1 @ es2) = es1 @ e # es2"
  by (induction es1) (auto simp: neq_Nil_conv dest: list.set_sel, cases es2, auto)

lemma sorted_distinct:
  "cmp_ok cmp \<Longrightarrow> sorted_wrt (entry_less cmp) es \<Longrightarrow> distinct es"
  by (induction es) (auto dest: entry_less_irrefl)

text \<open>A sorted list splits at every downward closed predicate.\<close>

lemma sorted_split:
  assumes "sorted_wrt Q es" and "\<And>x y. Q x y \<Longrightarrow> p y \<Longrightarrow> p x"
  shows "es = filter p es @ filter (\<lambda>x. \<not> p x) es"
  using assms(1)
proof (induction es)
  case (Cons x xs)
  show ?case
  proof (cases "p x")
    case True
    with Cons show ?thesis by simp
  next
    case False
    have "\<forall>y\<in>set xs. \<not> p y" using Cons.prems False assms(2) by auto
    then show ?thesis using False by (simp add: filter_empty_conv filter_id_conv)
  qed
qed simp

lemma sorted_wrt_scores: "sorted_wrt (entry_less cmp) es \<Longrightarrow> sorted_wrt (\<lambda>e f. fst e \<le> fst f) es"
  by (erule sorted_wrt_mono_rel [rotated]) (auto simp: entry_less_def)

section \<open>The abstraction\<close>

definition node_entry :: "'m entry \<Rightarrow> ('m option \<times> int) option" where
  "node_entry e = Some (Some (snd e), fst e)"

lemma node_entry_inject [simp]: "node_entry e = node_entry f \<longleftrightarrow> e = f"
  by (auto simp: node_entry_def prod_eq_iff)

definition holds_at :: "'m zskiplist \<Rightarrow> addr list \<Rightarrow> 'm entry list \<Rightarrow> bool" where
  "holds_at z as es \<longleftrightarrow> zsl_rep z as \<and> dom (zs_heap z) = set (zs_header z # as) \<and>
     map (zentry (zs_heap z)) as = map node_entry es"

definition zsl_list :: "('m \<Rightarrow> 'm \<Rightarrow> int) \<Rightarrow> 'm zskiplist \<Rightarrow> 'm entry list \<Rightarrow> bool" where
  "zsl_list cmp z es \<longleftrightarrow> (\<exists>as. holds_at z as es) \<and> sorted_wrt (entry_less cmp) es"

lemma zsl_listE:
  assumes "zsl_list cmp z (es1 @ es2)"
  obtains as1 as2 where "holds_at z (as1 @ as2) (es1 @ es2)" "length as1 = length es1" "length as2 = length es2"
    "map (zentry (zs_heap z)) as1 = map node_entry es1" "map (zentry (zs_heap z)) as2 = map node_entry es2"
proof -
  from assms obtain as where h: "holds_at z as (es1 @ es2)" by (auto simp: zsl_list_def)
  then have m: "map (zentry (zs_heap z)) as = map node_entry es1 @ map node_entry es2" by (simp add: holds_at_def)
  then have l: "length as = length es1 + length es2" by (metis length_append length_map)
  let ?as1 = "take (length es1) as" and ?as2 = "drop (length es1) as"
  have "map (zentry (zs_heap z)) ?as1 = map node_entry es1" "map (zentry (zs_heap z)) ?as2 = map node_entry es2"
    using arg_cong [OF m, of "take (length es1)"] arg_cong [OF m, of "drop (length es1)"]
    by (simp_all add: take_map drop_map)
  with h l show thesis using that [of ?as1 ?as2] by simp
qed

lemma zsl_list_length: "zsl_list cmp z es \<Longrightarrow> zs_length z = length es"
  by (auto simp: zsl_list_def holds_at_def zsl_rep_def) (metis length_map)

lemma before_entry:
  "zentry hp a = node_entry e \<Longrightarrow> before cmp sc m hp a \<longleftrightarrow> entry_less cmp e (sc, m)"
  by (auto simp: zentry_def node_entry_def before_def entry_before_def entry_less_def)

lemma map_eq_all:
  assumes "map f xs = map g ys" and "\<forall>y\<in>set ys. Q (g y)"
  shows "\<forall>x\<in>set xs. Q (f x)"
proof
  fix x assume "x \<in> set xs"
  then have "f x \<in> set (map g ys)" using assms(1) by (metis image_eqI set_map)
  then show "Q (f x)" using assms(2) by auto
qed

lemma entries_all:
  assumes "map (zentry hp) as = map node_entry es" and "\<forall>e\<in>set es. Q e"
  shows "\<forall>a\<in>set as. \<exists>e\<in>set es. zentry hp a = node_entry e \<and> Q e"
  by (rule map_eq_all [OF assms(1), of "\<lambda>y. \<exists>e\<in>set es. y = node_entry e \<and> Q e"]) (use assms(2) in auto)

text \<open>The position of an entry, as the descents of insertion and deletion find it.\<close>

lemma zsl_position_rep:
  assumes c: "cmp_ok cmp" and srt: "sorted_wrt (entry_less cmp) es" and mp: "map (zentry hp) as = map node_entry es"
  obtains as1 as2 es1 es2 where "es = es1 @ es2" "as = as1 @ as2" "\<forall>e\<in>set es1. entry_less cmp e (sc, m)"
    "\<forall>e\<in>set es2. \<not> entry_less cmp e (sc, m)"
    "map (zentry hp) as1 = map node_entry es1" "map (zentry hp) as2 = map node_entry es2"
    "\<forall>a\<in>set as1. before cmp sc m hp a" "\<forall>a\<in>set as2. \<not> before cmp sc m hp a"
    "length (as1 @ as2) = length es"
proof -
  let ?p = "\<lambda>e. entry_less cmp e (sc, m)"
  let ?es1 = "filter ?p es" and ?es2 = "filter (\<lambda>e. \<not> ?p e) es"
  have es: "es = ?es1 @ ?es2" by (rule sorted_split [OF srt]) (use entry_less_trans [OF c] in blast)
  let ?as1 = "take (length ?es1) as" and ?as2 = "drop (length ?es1) as"
  have m: "map (zentry hp) as = map node_entry ?es1 @ map node_entry ?es2" using mp es by (metis map_append)
  have 1: "map (zentry hp) ?as1 = map node_entry ?es1" and 2: "map (zentry hp) ?as2 = map node_entry ?es2"
    using arg_cong [OF m, of "take (length ?es1)"] arg_cong [OF m, of "drop (length ?es1)"]
    by (simp_all add: take_map drop_map)
  show thesis
  proof (rule that [OF es _ _ _ 1 2])
    have "\<forall>a\<in>set ?as1. \<exists>e\<in>set ?es1. zentry hp a = node_entry e \<and> ?p e"
      by (rule entries_all [OF 1]) simp
    then show "\<forall>a\<in>set ?as1. before cmp sc m hp a" using before_entry by metis
    have "\<forall>a\<in>set ?as2. \<exists>e\<in>set ?es2. zentry hp a = node_entry e \<and> \<not> ?p e"
      by (rule entries_all [OF 2]) simp
    then show "\<forall>a\<in>set ?as2. \<not> before cmp sc m hp a" using before_entry by metis
    show "length (?as1 @ ?as2) = length es" using mp by (metis append_take_drop_id length_map)
  qed simp_all
qed

lemma zsl_position:
  assumes c: "cmp_ok cmp" and z: "zsl_list cmp z es"
  obtains as1 as2 es1 es2 where "es = es1 @ es2" "\<forall>e\<in>set es1. entry_less cmp e (sc, m)"
    "\<forall>e\<in>set es2. \<not> entry_less cmp e (sc, m)"
    "zsl_rep z (as1 @ as2)" "dom (zs_heap z) = set (zs_header z # as1 @ as2)"
    "map (zentry (zs_heap z)) as1 = map node_entry es1" "map (zentry (zs_heap z)) as2 = map node_entry es2"
    "\<forall>a\<in>set as1. before cmp sc m (zs_heap z) a" "\<forall>a\<in>set as2. \<not> before cmp sc m (zs_heap z) a"
    "length (as1 @ as2) = length es"
proof -
  obtain as where h: "zsl_rep z as" "dom (zs_heap z) = set (zs_header z # as)"
    "map (zentry (zs_heap z)) as = map node_entry es" and srt: "sorted_wrt (entry_less cmp) es"
    using z by (auto simp: zsl_list_def holds_at_def)
  obtain as1 as2 es1 es2 where p: "es = es1 @ es2" "as = as1 @ as2" "\<forall>e\<in>set es1. entry_less cmp e (sc, m)"
    "\<forall>e\<in>set es2. \<not> entry_less cmp e (sc, m)"
    "map (zentry (zs_heap z)) as1 = map node_entry es1" "map (zentry (zs_heap z)) as2 = map node_entry es2"
    "\<forall>a\<in>set as1. before cmp sc m (zs_heap z) a" "\<forall>a\<in>set as2. \<not> before cmp sc m (zs_heap z) a"
    "length (as1 @ as2) = length es" by (rule zsl_position_rep [OF c srt h(3), of sc m])
  show thesis by (rule that [OF p(1,3,4) h(1,2) [unfolded p(2)] p(5-9)])
qed

section \<open>Creation, insertion and deletion\<close>

lemma zsl_list_create: "zsl_list cmp m_zslCreate []"
proof -
  have "zsl_rep (m_zslCreate :: 'a zskiplist) []"
    by (auto simp: zsl_rep_def m_zslCreate_def m_zslCreateNode_def hgt_def ZSKIPLIST_MAXLEVEL_def
        linked_def Cons_eq_append_conv level_of_def arr_get_def lvl_def back_linked_def)
  then show ?thesis by (auto simp: zsl_list_def holds_at_def m_zslCreate_def)
qed

lemma zsl_list_insert:
  assumes c: "cmp_ok cmp" and z: "zsl_list cmp z es" and new: "(sc, m) \<notin> set es"
    and len: "length es < 2 ^ 32 - 1" and lev: "m_zslRandomLevel draws = Some (lev, rest)"
  shows "\<exists>a z'. m_zslInsert cmp draws z sc m = Some (a, rest, z') \<and> zsl_list cmp z' (zins cmp (sc, m) es) \<and>
    zentry (zs_heap z') a = node_entry (sc, m)"
proof -
  obtain as1 as2 es1 es2 where p: "es = es1 @ es2" "\<forall>e\<in>set es1. entry_less cmp e (sc, m)"
    "\<forall>e\<in>set es2. \<not> entry_less cmp e (sc, m)"
    "zsl_rep z (as1 @ as2)" "dom (zs_heap z) = set (zs_header z # as1 @ as2)"
    "map (zentry (zs_heap z)) as1 = map node_entry es1" "map (zentry (zs_heap z)) as2 = map node_entry es2"
    "\<forall>a\<in>set as1. before cmp sc m (zs_heap z) a" "\<forall>a\<in>set as2. \<not> before cmp sc m (zs_heap z) a"
    "length (as1 @ as2) = length es"
    by (rule zsl_position [OF c z, of sc m])
  let ?x = "zs_next z"
  have len': "length (as1 @ as2) < 2 ^ 32 - 1" using p(10) len by simp
  obtain z' where z': "m_zslInsert cmp draws z sc m = Some (?x, rest, z')" "zsl_rep z' (as1 @ ?x # as2)"
    "zs_header z' = zs_header z" "dom (zs_heap z') = insert ?x (dom (zs_heap z))"
    "\<forall>a. zentry (zs_heap z') a = (if a = ?x then Some (Some m, sc) else zentry (zs_heap z) a)"
    using m_zslInsert_spec [OF p(4) refl p(8,9) len' lev] by blast
  have "?x \<notin> dom (zs_heap z)" using zsl_repD(2) [OF p(4)] by blast
  then have nx: "?x \<notin> set as1" "?x \<notin> set as2" using p(5) by auto
  have zi: "zins cmp (sc, m) es = es1 @ (sc, m) # es2"
    unfolding p(1) by (rule zins_eq [OF p(2)]) (use p(3) in \<open>auto dest: hd_in_set\<close>)
  have "map (zentry (zs_heap z')) (as1 @ ?x # as2) = map node_entry (es1 @ (sc, m) # es2)"
  proof -
    have "map (zentry (zs_heap z')) as1 = map (zentry (zs_heap z)) as1"
      "map (zentry (zs_heap z')) as2 = map (zentry (zs_heap z)) as2" using z'(5) nx by auto
    then show ?thesis using p(6,7) z'(5) by (simp add: node_entry_def)
  qed
  then have "holds_at z' (as1 @ ?x # as2) (zins cmp (sc, m) es)"
    using z'(2,3,4) p(5) zi by (auto simp: holds_at_def)
  moreover have "sorted_wrt (entry_less cmp) (zins cmp (sc, m) es)"
    by (rule sorted_zins [OF c _ new]) (use z in \<open>simp add: zsl_list_def\<close>)
  ultimately show ?thesis using z'(1,5) by (auto simp: zsl_list_def node_entry_def)
qed

lemma zsl_list_delete:
  assumes c: "cmp_ok cmp" and z: "zsl_list cmp z es" and len: "length es < 2 ^ 32 - 1"
  shows "\<exists>z'. m_zslDelete cmp z sc m =
      Some ((sc, m) \<in> set es, if (sc, m) \<in> set es then [m] else [], z') \<and>
    zsl_list cmp z' (remove1 (sc, m) es)"
proof -
  obtain as1 as2 es1 es2 where p: "es = es1 @ es2" "\<forall>e\<in>set es1. entry_less cmp e (sc, m)"
    "\<forall>e\<in>set es2. \<not> entry_less cmp e (sc, m)"
    "zsl_rep z (as1 @ as2)" "dom (zs_heap z) = set (zs_header z # as1 @ as2)"
    "map (zentry (zs_heap z)) as1 = map node_entry es1" "map (zentry (zs_heap z)) as2 = map node_entry es2"
    "\<forall>a\<in>set as1. before cmp sc m (zs_heap z) a" "\<forall>a\<in>set as2. \<not> before cmp sc m (zs_heap z) a"
    "length (as1 @ as2) = length es"
    by (rule zsl_position [OF c z, of sc m])
  have len': "length (as1 @ as2) < 2 ^ 32 - 1" using p(10) len by simp
  have sorted: "sorted_wrt (entry_less cmp) es" using z by (simp add: zsl_list_def)
  have no1: "(sc, m) \<notin> set es1" using p(2) entry_less_irrefl [OF c] by blast
  have in2: "(sc, m) \<in> set es \<Longrightarrow> es2 = (sc, m) # tl es2"
  proof (cases es2)
    case (Cons e es')
    assume "(sc, m) \<in> set es"
    then have "e = (sc, m) \<or> (sc, m) \<in> set es'" using p(1) no1 Cons by auto
    moreover have "\<forall>f\<in>set es'. entry_less cmp e f" using sorted p(1) Cons by (simp add: sorted_wrt_append)
    ultimately show ?thesis using p(3) Cons by auto
  qed (use p(1) no1 in simp)
  show ?thesis
  proof (cases "(sc, m) \<in> set es")
    case True
    then have e2: "es2 = (sc, m) # tl es2" by (rule in2)
    then obtain x R where R: "as2 = x # R" using p(7) by (cases as2) auto
    have ex: "zentry (zs_heap z) x = Some (Some m, sc)" and eR: "map (zentry (zs_heap z)) R = map node_entry (tl es2)"
      using p(7) R e2 by (metis list.map(2) list.inject node_entry_def fst_conv snd_conv)+
    have cm: "cmp m m = 0" using c by (simp add: cmp_ok_def)
    obtain z' where z': "m_zslDelete cmp z sc m = Some (True, [m], z')" "zsl_rep z' (as1 @ R)"
      "zs_header z' = zs_header z" "dom (zs_heap z') = dom (zs_heap z) - {x}"
      "zentry (zs_heap z') = (zentry (zs_heap z))(x := None)"
      using m_zslDelete_found [OF p(4) [unfolded R] p(8) p(9) [unfolded R] len' [unfolded R] ex cm] by blast
    have x: "x \<notin> set (zs_header z # as1 @ R)" using zsl_repD(1) [OF p(4)] R by auto
    have rm: "remove1 (sc, m) es = es1 @ tl es2" using p(1) no1 e2 by (metis remove1_append remove1.simps(2))
    have "map (zentry (zs_heap z')) (as1 @ R) = map node_entry (es1 @ tl es2)"
    proof -
      have "map (zentry (zs_heap z')) as1 = map (zentry (zs_heap z)) as1"
        "map (zentry (zs_heap z')) R = map (zentry (zs_heap z)) R" using z'(5) x by auto
      then show ?thesis using p(6) eR by simp
    qed
    then have "holds_at z' (as1 @ R) (remove1 (sc, m) es)"
      using z'(2,3,4) p(5) R x rm by (auto simp: holds_at_def)
    moreover have "sorted_wrt (entry_less cmp) (remove1 (sc, m) es)"
      using sorted p(1) e2 rm by (metis sorted_wrt.simps(2) sorted_wrt_append list.set_intros(2))
    ultimately show ?thesis using z'(1) True by (auto simp: zsl_list_def)
  next
    case False
    have "m_zslDelete cmp z sc m = Some (False, [], z)"
    proof (rule m_zslDelete_absent [OF p(4,8,9) len'], intro allI impI notI)
      fix x R' m' assume x: "as2 = x # R'" "zentry (zs_heap z) x = Some (Some m', sc)" and "cmp m' m = 0"
      then have "m' = m" using c by (simp add: cmp_ok_def)
      moreover have "node_entry (hd es2) = Some (Some m', sc)" "es2 \<noteq> []" using p(7) x by (cases es2, auto)+
      ultimately have "(sc, m) \<in> set es2" by (cases es2) (auto simp: node_entry_def prod_eq_iff)
      with False p(1) show False by simp
    qed
    then show ?thesis using z False by (simp add: remove1_idem)
  qed
qed

lemma zsl_list_free:
  assumes z: "zsl_list cmp z es"
  shows "m_zslFree z = Some (map snd es, Map.empty)"
proof -
  obtain as where h: "zsl_rep z as" "dom (zs_heap z) = set (zs_header z # as)"
    "map (zentry (zs_heap z)) as = map node_entry es"
    using z by (auto simp: zsl_list_def holds_at_def)
  note r = zsl_repD [OF h(1)]
  let ?hp = "(zs_heap z)(zs_header z := None)"
  have nh: "zs_header z \<notin> set as" using r(1) by simp
  have "linked (zs_heap z) (zs_level z) as"
    using r(7) unfolding linked_def by (metis append_Cons)
  then have L: "linked ?hp (zs_level z) ([] @ as)" using linked_free nh by fastforce
  have "free_nodes ?hp (case as of [] \<Rightarrow> None | a # _ \<Rightarrow> Some a) = Some (map snd es, ?hp |` (- set as))"
  proof (rule free_nodes_spec [OF L r(4)])
    show "distinct as" using r(1) by simp
    show "\<forall>a\<in>set as. 1 \<le> hgt ?hp a" using r(6) nh by (auto simp: hgt_def)
    have "map (zentry ?hp) as = map (zentry (zs_heap z)) as" using nh by (auto simp: zentry_def)
    also have "\<dots> = map (\<lambda>e. Some (Some (snd e), fst e)) es" using h(3) by (simp add: node_entry_def)
    finally show "map (zentry ?hp) as = map (\<lambda>e. Some (Some (snd e), fst e)) es" .
  qed
  moreover have "?hp |` (- set as) = Map.empty"
    using h(2) by (auto simp: restrict_map_def fun_eq_iff dom_def)
  moreover have "level_of (zs_heap z) (zs_header z) 0 = Some (lvl (hgt (zs_heap z)) 0 as)"
    "forward (lvl (hgt (zs_heap z)) 0 as) = (case as of [] \<Rightarrow> None | a # _ \<Rightarrow> Some a)"
    using level_0 [of z "[]" as] h(1) by simp_all
  ultimately show ?thesis by (simp add: m_zslFree_def)
qed

end
