(* ===== verification/SkiplistRange.thy ===== *)
theory SkiplistRange
  imports SkiplistList
begin

text \<open>
  The range and rank operations of the skip list against the sorted list of its entries:
  what \<open>m_zslFirstInRange\<close> and \<open>m_zslLastInRange\<close> find, what the range deletions remove, and
  the element at a rank.
\<close>

section \<open>Cutting the list at a score\<close>

lemma holds_at_length: "holds_at z as es \<Longrightarrow> length as = length es"
  unfolding holds_at_def by (metis length_map)

lemma head_forward:
  assumes "zsl_rep z (as1 @ as2)"
  shows "level_of (zs_heap z) (last (zs_header z # as1)) 0 = Some (lvl (hgt (zs_heap z)) 0 as2)"
    "forward (lvl (hgt (zs_heap z)) 0 as2) = (if as2 = [] then None else Some (hd as2))"
  using level_0 [OF assms] by (auto split: list.splits)

lemma zentry_node:
  assumes "zentry hp a = node_entry e"
  obtains n where "hp a = Some n" "member n = Some (snd e)" "score n = fst e"
  using assms by (auto simp: zentry_def node_entry_def)

lemma zsl_cut:
  assumes z: "zsl_list cmp z es" and p: "\<And>s s'. s \<le> s' \<Longrightarrow> p s' \<Longrightarrow> p s" and len: "length es < 2 ^ 64 - 1"
  obtains es1 es2 as1 as2 ups where "es = es1 @ es2" "\<forall>e\<in>set es1. p (fst e)" "\<forall>e\<in>set es2. \<not> p (fst e)"
    "holds_at z (as1 @ as2) (es1 @ es2)" "map (zentry (zs_heap z)) as1 = map node_entry es1"
    "map (zentry (zs_heap z)) as2 = map node_entry es2"
    "descend (zs_heap z) (\<lambda>r lv n. p (score n)) (2 ^ 64) (zs_level z) (zs_header z) 0 =
       Some (ups, last (zs_header z # as1), int (length as1))"
    "update_for z (zs_header z # as1) (map fst ups)"
proof -
  let ?es1 = "filter (\<lambda>e. p (fst e)) es" and ?es2 = "filter (\<lambda>e. \<not> p (fst e)) es"
  have es: "es = ?es1 @ ?es2"
    by (rule sorted_split [of "\<lambda>e f. fst e \<le> fst f"])
      (use z p in \<open>auto simp: zsl_list_def intro: sorted_wrt_scores\<close>)
  have "zsl_list cmp z (?es1 @ ?es2)" using z es by metis
  then obtain as1 as2 where a: "holds_at z (as1 @ as2) (?es1 @ ?es2)" "length as1 = length ?es1"
    "length as2 = length ?es2" "map (zentry (zs_heap z)) as1 = map node_entry ?es1"
    "map (zentry (zs_heap z)) as2 = map node_entry ?es2" by (rule zsl_listE)
  have rep: "zsl_rep z (as1 @ as2)" using a(1) by (simp add: holds_at_def)
  have l: "length (as1 @ as2) = length es" using a(2,3) es by (metis length_append)
  have 1: "\<forall>a\<in>set as1. \<exists>n. zs_heap z a = Some n \<and> p (score n)"
  proof -
    have "\<forall>a\<in>set as1. \<exists>e\<in>set ?es1. zentry (zs_heap z) a = node_entry e \<and> p (fst e)"
      by (rule entries_all [OF a(4)]) simp
    then show ?thesis by (metis zentry_node)
  qed
  have 2: "\<forall>a\<in>set as2. \<forall>n. zs_heap z a = Some n \<longrightarrow> \<not> p (score n)"
  proof -
    have "\<forall>a\<in>set as2. \<exists>e\<in>set ?es2. zentry (zs_heap z) a = node_entry e \<and> \<not> p (fst e)"
      by (rule entries_all [OF a(5)]) simp
    then show ?thesis by (metis zentry_node option.inject)
  qed
  have sp: "splits (zs_heap z) (\<lambda>r lv n. p (score n)) (Suc (length as1)) (zs_header z # as1 @ as2)"
    using splits_pred [OF refl 1 2, of "zs_header z"] by simp
  have M: "int (Suc (length (as1 @ as2))) < 2 ^ 64" using l len by simp
  obtain ups where d: "descend (zs_heap z) (\<lambda>r lv n. p (score n)) (2 ^ 64) (zs_level z) (zs_header z) 0 =
      Some (ups, last (zs_header z # as1), int (length as1))" "length ups = zs_level z"
    "\<forall>i<zs_level z. \<exists>b n. ups ! i = (b, int n) \<and> is_last (hgt (zs_heap z)) i (zs_header z # as1) b n"
    using zsl_descend_gen [OF rep refl sp M] by blast
  show thesis
    by (rule that [OF es _ _ a(1,4,5) d(1) update_for_descend [OF d(2,3)]]) simp_all
qed

section \<open>The first and the last entry in a range\<close>

definition score_in :: "zrangespec \<Rightarrow> int \<Rightarrow> bool" where
  "score_in rg s \<longleftrightarrow> m_zslValueGteMin s rg \<and> m_zslValueLteMax s rg"

lemma GteMin_mono: "s \<le> s' \<Longrightarrow> m_zslValueGteMin s rg \<Longrightarrow> m_zslValueGteMin s' rg"
  by (auto simp: m_zslValueGteMin_def split: if_splits)

lemma LteMax_mono: "s \<le> s' \<Longrightarrow> m_zslValueLteMax s' rg \<Longrightarrow> m_zslValueLteMax s rg"
  by (auto simp: m_zslValueLteMax_def split: if_splits)

lemma zslIsInRange_spec:
  assumes z: "zsl_list cmp z es"
  shows "\<exists>b. zslIsInRange z rg = Some b \<and>
    (if b then es \<noteq> [] \<and> m_zslValueGteMin (fst (last es)) rg \<and> m_zslValueLteMax (fst (hd es)) rg
     else \<forall>e\<in>set es. \<not> score_in rg (fst e))"
proof -
  obtain as where h: "zsl_rep z as" "map (zentry (zs_heap z)) as = map node_entry es"
    using z by (auto simp: zsl_list_def holds_at_def)
  have srt: "sorted_wrt (\<lambda>e f. fst e \<le> fst f) es"
    using z by (auto simp: zsl_list_def intro: sorted_wrt_scores)
  show ?thesis
  proof (cases "rmin rg > rmax rg \<or> (rmin rg = rmax rg \<and> (rminex rg \<or> rmaxex rg)) \<or> es = []")
    case True
    then have "zslIsInRange z rg = Some False" "\<forall>e\<in>set es. \<not> score_in rg (fst e)"
      using h zsl_repD(10) [OF h(1)]
      by (auto simp: zslIsInRange_def score_in_def m_zslValueGteMin_def m_zslValueLteMax_def split: if_splits)
    then show ?thesis by auto
  next
    case False
    then have ne: "es \<noteq> []" by blast
    then have as: "as \<noteq> []" using h(2) by auto
    have tl: "zs_tail z = Some (last as)" using zsl_repD(10) [OF h(1)] as by simp
    have "zentry (zs_heap z) (last as) = node_entry (last es)" "zentry (zs_heap z) (hd as) = node_entry (hd es)"
      using h(2) as ne by (metis last_map, metis hd_map)
    then obtain nl nh where nl: "zs_heap z (last as) = Some nl" "score nl = fst (last es)"
      and nh: "zs_heap z (hd as) = Some nh" "score nh = fst (hd es)" by (metis zentry_node)
    have hf: "level_of (zs_heap z) (zs_header z) 0 = Some (lvl (hgt (zs_heap z)) 0 as)"
      "forward (lvl (hgt (zs_heap z)) 0 as) = Some (hd as)"
      using head_forward [of z "[]" as] h(1) as by simp_all
    have "zslIsInRange z rg = Some (m_zslValueGteMin (fst (last es)) rg \<and> m_zslValueLteMax (fst (hd es)) rg)"
      using False tl nl nh hf by (auto simp: zslIsInRange_def)
    moreover have "fst e \<le> fst (last es)" "fst (hd es) \<le> fst e" if "e \<in> set es" for e
    proof -
      obtain es' where "es = hd es # es'" using ne by (cases es) auto
      then show "fst (hd es) \<le> fst e" using srt that
        by (metis order_refl set_ConsD sorted_wrt.simps(2))
      obtain es'' where "es = es'' @ [last es]" using ne by (metis append_butlast_last_id)
      then show "fst e \<le> fst (last es)" using srt that
        by (metis Un_iff empty_iff empty_set order_refl set_ConsD set_append sorted_wrt_append list.set_intros(1))
    qed
    then have "(m_zslValueGteMin (fst (last es)) rg \<and> m_zslValueLteMax (fst (hd es)) rg) \<or>
        (\<forall>e\<in>set es. \<not> score_in rg (fst e))"
      using GteMin_mono LteMax_mono unfolding score_in_def by blast
    ultimately show ?thesis using ne by auto
  qed
qed

lemma find_append: "find P (xs @ ys) = (case find P xs of None \<Rightarrow> find P ys | Some x \<Rightarrow> Some x)"
  by (induction xs) auto

text \<open>The two results as a node that carries the entry.\<close>

definition node_for :: "'m zskiplist \<Rightarrow> addr option \<Rightarrow> 'm entry option \<Rightarrow> bool" where
  "node_for z r e \<longleftrightarrow> (case (r, e) of (None, None) \<Rightarrow> True
     | (Some a, Some e) \<Rightarrow> zentry (zs_heap z) a = node_entry e | _ \<Rightarrow> False)"

text \<open>The search returns the node of the first entry in the range, if there is one.\<close>

lemma m_zslFirstInRange_at:
  assumes z: "zsl_list cmp z es" and len: "length es < 2 ^ 64 - 1"
  obtains (none) "m_zslFirstInRange z rg = Some None" "\<forall>e\<in>set es. \<not> score_in rg (fst e)"
  | (some) es1 e es2 as1 x as2 where "m_zslFirstInRange z rg = Some (Some x)" "es = es1 @ e # es2"
    "\<forall>e\<in>set es1. \<not> score_in rg (fst e)" "score_in rg (fst e)"
    "holds_at z (as1 @ x # as2) (es1 @ e # es2)" "length as1 = length es1"
proof -
  obtain b where b: "zslIsInRange z rg = Some b"
    "if b then es \<noteq> [] \<and> m_zslValueGteMin (fst (last es)) rg \<and> m_zslValueLteMax (fst (hd es)) rg
     else \<forall>e\<in>set es. \<not> score_in rg (fst e)" using zslIsInRange_spec [OF z] by blast
  show thesis
  proof (cases b)
    case False
    then have "\<forall>e\<in>set es. \<not> score_in rg (fst e)" using b(2) by auto
    then show ?thesis using b(1) False by (intro none) (simp_all add: m_zslFirstInRange_def)
  next
    case True
    let ?p = "\<lambda>s. \<not> m_zslValueGteMin s rg"
    have mono: "s \<le> s' \<Longrightarrow> ?p s' \<Longrightarrow> ?p s" for s s' using GteMin_mono by blast
    obtain es1 es2 as1 as2 ups where c: "es = es1 @ es2" "\<forall>e\<in>set es1. ?p (fst e)"
      "\<forall>e\<in>set es2. \<not> ?p (fst e)" "holds_at z (as1 @ as2) (es1 @ es2)"
      "map (zentry (zs_heap z)) as1 = map node_entry es1" "map (zentry (zs_heap z)) as2 = map node_entry es2"
      "descend (zs_heap z) (\<lambda>r lv n. ?p (score n)) (2 ^ 64) (zs_level z) (zs_header z) 0 =
         Some (ups, last (zs_header z # as1), int (length as1))"
      by (rule zsl_cut [where p = ?p, OF z mono len])
    have "es2 \<noteq> []"
    proof
      assume "es2 = []"
      then have "last es \<in> set es1" using b(2) True c(1) by simp
      then show False using c(2) b(2) True by auto
    qed
    then obtain e es' where e: "es2 = e # es'" by (cases es2) auto
    then obtain x R where x: "as2 = x # R" using c(6) by (cases as2) auto
    have ex: "zentry (zs_heap z) x = node_entry e" using c(6) e x by simp
    obtain n where n: "zs_heap z x = Some n" "score n = fst e" using ex by (rule zentry_node)
    have rep: "zsl_rep z (as1 @ as2)" using c(4) by (simp add: holds_at_def)
    have fx: "forward (lvl (hgt (zs_heap z)) 0 as2) = Some x" using head_forward(2) [OF rep] x by simp
    have run: "m_zslFirstInRange z rg = Some (if m_zslValueLteMax (fst e) rg then Some x else None)"
      using b(1) True by (simp only: m_zslFirstInRange_def c(7) head_forward(1) [OF rep] fx n
        Option.bind.bind_lunit prod.case simp_thms if_False)
    have f1: "\<forall>e\<in>set es1. \<not> score_in rg (fst e)" using c(2) by (auto simp: score_in_def)
    show ?thesis
    proof (cases "m_zslValueLteMax (fst e) rg")
      case True
      moreover have "length as1 = length es1" using c(5) by (metis length_map)
      ultimately show ?thesis using run c(1,3,4) e x f1 by (intro some [of x es1 e es' as1 R]) (auto simp: score_in_def)
    next
      case False
      have "sorted_wrt (\<lambda>e f. fst e \<le> fst f) es" using z by (auto simp: zsl_list_def intro: sorted_wrt_scores)
      then have "\<forall>f\<in>set es'. fst e \<le> fst f" using c(1) e by (simp add: sorted_wrt_append)
      then have "\<forall>f\<in>set es2. \<not> score_in rg (fst f)"
        using e False LteMax_mono by (auto simp: score_in_def)
      then show ?thesis using run False c(1) f1 by (intro none) auto
    qed
  qed
qed

lemma m_zslFirstInRange_find:
  assumes z: "zsl_list cmp z es" and len: "length es < 2 ^ 64 - 1"
  shows "\<exists>r. m_zslFirstInRange z rg = Some r \<and> node_for z r (find (\<lambda>e. score_in rg (fst e)) es)"
proof (cases rule: m_zslFirstInRange_at [OF assms, of rg, case_names none some])
  case none
  then have "find (\<lambda>e. score_in rg (fst e)) es = None" by (auto simp: find_None_iff)
  then show ?thesis using none by (simp add: node_for_def)
next
  case (some es1 e es2 as1 x as2)
  have "find (\<lambda>e. score_in rg (fst e)) es1 = None" using some(3) by (auto simp: find_None_iff)
  then have "find (\<lambda>e. score_in rg (fst e)) es = Some e" using some(2,4) by (simp add: find_append)
  moreover have "zentry (zs_heap z) x = node_entry e"
    using some(5,6) by (auto simp: holds_at_def dest: map_eq_append_conv [THEN iffD1])
  ultimately show ?thesis using some(1) by (simp add: node_for_def)
qed

lemma m_zslLastInRange_find:
  assumes z: "zsl_list cmp z es" and len: "length es < 2 ^ 64 - 1"
  shows "\<exists>r. m_zslLastInRange z rg = Some r \<and> node_for z r (find (\<lambda>e. score_in rg (fst e)) (rev es))"
proof -
  obtain b where b: "zslIsInRange z rg = Some b"
    "if b then es \<noteq> [] \<and> m_zslValueGteMin (fst (last es)) rg \<and> m_zslValueLteMax (fst (hd es)) rg
     else \<forall>e\<in>set es. \<not> score_in rg (fst e)" using zslIsInRange_spec [OF z] by blast
  show ?thesis
  proof (cases b)
    case False
    then have "find (\<lambda>e. score_in rg (fst e)) (rev es) = None" using b(2) by (auto simp: find_None_iff)
    then show ?thesis using b(1) False by (simp add: m_zslLastInRange_def node_for_def)
  next
    case True
    let ?p = "\<lambda>s. m_zslValueLteMax s rg"
    have mono: "s \<le> s' \<Longrightarrow> ?p s' \<Longrightarrow> ?p s" for s s' using LteMax_mono by blast
    obtain es1 es2 as1 as2 ups where c: "es = es1 @ es2" "\<forall>e\<in>set es1. ?p (fst e)"
      "\<forall>e\<in>set es2. \<not> ?p (fst e)" "holds_at z (as1 @ as2) (es1 @ es2)"
      "map (zentry (zs_heap z)) as1 = map node_entry es1" "map (zentry (zs_heap z)) as2 = map node_entry es2"
      "descend (zs_heap z) (\<lambda>r lv n. ?p (score n)) (2 ^ 64) (zs_level z) (zs_header z) 0 =
         Some (ups, last (zs_header z # as1), int (length as1))"
      by (rule zsl_cut [where p = ?p, OF z mono len])
    have "es1 \<noteq> []"
    proof
      assume "es1 = []"
      then have "hd es \<in> set es2" using b(2) True c(1) by simp
      then show False using c(3) b(2) True by auto
    qed
    then obtain e es' where e: "es1 = es' @ [e]" by (cases es1 rule: rev_cases) auto
    then obtain x R where x: "as1 = R @ [x]" using c(5) by (cases as1 rule: rev_cases) auto
    have ex: "zentry (zs_heap z) x = node_entry e" using c(5) e x by simp
    obtain n where n: "zs_heap z x = Some n" "score n = fst e" using ex by (rule zentry_node)
    have lx: "last (zs_header z # as1) = x" using x by simp
    have run: "m_zslLastInRange z rg = Some (if m_zslValueGteMin (fst e) rg then Some x else None)"
      using b(1) True by (simp only: m_zslLastInRange_def c(7) lx n
        Option.bind.bind_lunit prod.case simp_thms if_False)
    have f2: "find (\<lambda>e. score_in rg (fst e)) (rev es2) = None" using c(3) by (auto simp: find_None_iff score_in_def)
    have le: "m_zslValueLteMax (fst e) rg" using c(2) e by simp
    show ?thesis
    proof (cases "m_zslValueGteMin (fst e) rg")
      case True
      then have "find (\<lambda>e. score_in rg (fst e)) (rev es) = Some e"
        using c(1) e f2 le by (simp add: find_append score_in_def)
      then show ?thesis using run True ex by (simp add: node_for_def)
    next
      case False
      have "sorted_wrt (\<lambda>e f. fst e \<le> fst f) es" using z by (auto simp: zsl_list_def intro: sorted_wrt_scores)
      then have "\<forall>f\<in>set es'. fst f \<le> fst e" using c(1) e by (simp add: sorted_wrt_append)
      then have "\<forall>f\<in>set es1. \<not> score_in rg (fst f)"
        using e False GteMin_mono by (auto simp: score_in_def)
      then have "find (\<lambda>e. score_in rg (fst e)) (rev es1) = None" by (auto simp: find_None_iff)
      then show ?thesis using run False c(1) f2 by (simp add: node_for_def find_append)
    qed
  qed
qed

section \<open>The deletion loops\<close>

text \<open>The entries at the front that the loop condition holds for, with its counter.\<close>

fun take_cond :: "(int \<Rightarrow> int \<Rightarrow> bool) \<Rightarrow> int \<Rightarrow> 'm entry list \<Rightarrow> 'm entry list" where
  "take_cond c t [] = []"
| "take_cond c t (e # es) = (if c t (fst e) then e # take_cond c (t + 1) es else [])"

lemma take_cond_prefix: "take_cond c t es = take (length (take_cond c t es)) es"
  by (induction es arbitrary: t) auto

lemma delete_while_spec:
  assumes "holds_at z (as1 @ as2) (es1 @ es2)" and "length as1 = length es1"
    and "update_for z (zs_header z # as1) us" and "length (as1 @ as2) < 2 ^ 64 - 1"
    and "0 \<le> t" "t + int (length es2) < 2 ^ 64" and "0 \<le> r" "r + int (length es2) < 2 ^ 64"
  shows "\<exists>z' as2'. delete_while (\<lambda>t n. c t (score n)) us t r (if as2 = [] then None else Some (hd as2)) z =
      Some (r + int (length (take_cond c t es2)), map snd (take_cond c t es2), z') \<and>
    holds_at z' (as1 @ as2') (es1 @ drop (length (take_cond c t es2)) es2)"
  using assms
proof (induction es2 arbitrary: as2 z t r)
  case Nil
  have "as2 = []" using holds_at_length [OF Nil.prems(1)] Nil.prems(2) by simp
  then show ?case using Nil.prems(1) by (subst delete_while.simps) (auto intro!: exI [of _ "[]"])
next
  case (Cons e es2)
  have len: "length (as1 @ as2) = length (es1 @ e # es2)"
    by (rule holds_at_length [OF Cons.prems(1)])
  then obtain x R where x: "as2 = x # R" using Cons.prems(2) by (cases as2) auto
  have rep: "zsl_rep z (as1 @ x # R)" and dm: "dom (zs_heap z) = set (zs_header z # as1 @ x # R)"
    and mp: "map (zentry (zs_heap z)) (as1 @ x # R) = map node_entry (es1 @ e # es2)"
    using Cons.prems(1) x by (simp_all add: holds_at_def)
  have mp': "map (zentry (zs_heap z)) as1 = map node_entry es1" "zentry (zs_heap z) x = node_entry e"
    "map (zentry (zs_heap z)) R = map node_entry es2"
    using mp Cons.prems(2) by simp_all
  obtain n where n: "zs_heap z x = Some n" "score n = fst e" using mp'(2) by (rule zentry_node)
  show ?case
  proof (cases "c t (fst e)")
    case False
    then show ?thesis using n x Cons.prems(1) by (subst delete_while.simps) auto
  next
    case True
    have len64: "length (as1 @ x # R) < 2 ^ 64 - 1" using Cons.prems(4) x by simp
    have ex: "zentry (zs_heap z) x = Some (Some (snd e), fst e)" using mp'(2) by (simp add: node_entry_def)
    obtain z1 hp where d: "m_zslDeleteNode z x us = Some z1" "m_zslFreeNode (zs_heap z1) x = Some ([snd e], hp)"
      "zsl_rep (z1\<lparr>zs_heap := hp\<rparr>) (as1 @ R)" "update_for (z1\<lparr>zs_heap := hp\<rparr>) (zs_header z # as1) us"
      "zs_header z1 = zs_header z" "dom hp = dom (zs_heap z) - {x}" "zentry hp = (zentry (zs_heap z))(x := None)"
      using delete_free_spec [OF rep Cons.prems(3) len64 ex] by blast
    let ?z = "z1\<lparr>zs_heap := hp\<rparr>"
    have xs: "x \<notin> set (zs_header z # as1 @ R)" using zsl_repD(1) [OF rep] by auto
    have "map (zentry hp) (as1 @ R) = map (zentry (zs_heap z)) (as1 @ R)" using d(7) xs by auto
    then have h1: "holds_at ?z (as1 @ R) (es1 @ es2)"
      using d(3,5,6) dm xs mp' by (auto simp: holds_at_def)
    have lx: "level_of (zs_heap z) x 0 = Some (lvl (hgt (zs_heap z)) 0 R)"
      "forward (lvl (hgt (zs_heap z)) 0 R) = (if R = [] then None else Some (hd R))"
      using head_forward [of z "as1 @ [x]" R] rep by simp_all
    then have lx': "arr_get (level n) 0 = Some (lvl (hgt (zs_heap z)) 0 R)" using n(1) by (simp add: level_of_def)
    have w: "wrap64 (t + 1) = t + 1" "wrap64 (r + 1) = r + 1"
      using Cons.prems(5-8) by (auto intro!: wrap64_id)
    obtain z' as2' where z': "delete_while (\<lambda>t n. c t (score n)) us (t + 1) (r + 1) (if R = [] then None else Some (hd R)) ?z =
        Some (r + 1 + int (length (take_cond c (t + 1) es2)), map snd (take_cond c (t + 1) es2), z')"
      "holds_at z' (as1 @ as2') (es1 @ drop (length (take_cond c (t + 1) es2)) es2)"
    proof -
      have "update_for ?z (zs_header ?z # as1) us" using d(4,5) by simp
      moreover have "length (as1 @ R) < 2 ^ 64 - 1" using len64 by simp
      moreover have "t + 1 + int (length es2) < 2 ^ 64" "r + 1 + int (length es2) < 2 ^ 64"
        "0 \<le> t + 1" "0 \<le> r + 1" using Cons.prems(5-8) by simp_all
      ultimately show thesis using Cons.IH [OF h1 Cons.prems(2), of "t + 1" "r + 1"] that by blast
    qed
    have "delete_while (\<lambda>t n. c t (score n)) us t r (Some x) z =
        Some (r + 1 + int (length (take_cond c (t + 1) es2)), [snd e] @ map snd (take_cond c (t + 1) es2), z')"
      by (subst delete_while.simps)
        (simp only: option.case n True if_True lx' lx(2) d(1,2) w z'(1) Option.bind.bind_lunit prod.case)
    then show ?thesis using True x z'(2) by (auto simp: algebra_simps)
  qed
qed

lemma drop_front: "xs = a @ b \<Longrightarrow> drop (length a) xs = b"
  by simp

lemma find_mem: "find P xs = Some u \<Longrightarrow> u \<in> set xs \<and> P u"
  by (induction xs) (auto split: if_splits)

lemma sorted_wrt_sublist:
  "sorted_wrt Q (a @ b @ c) \<Longrightarrow> sorted_wrt Q (a @ c)"
  by (auto simp: sorted_wrt_append)

lemma zsl_list_drop:
  assumes z: "zsl_list cmp z (es1 @ es2)" and h: "holds_at z' as (es1 @ drop k es2)"
  shows "zsl_list cmp z' (es1 @ drop k es2)"
proof -
  have "sorted_wrt (entry_less cmp) (es1 @ take k es2 @ drop k es2)" using z by (simp add: zsl_list_def)
  then have "sorted_wrt (entry_less cmp) (es1 @ drop k es2)" by (rule sorted_wrt_sublist)
  with h show ?thesis by (auto simp: zsl_list_def)
qed

lemma take_cond_scores:
  "sorted_wrt (\<lambda>e f. fst e \<le> fst f) es \<Longrightarrow> (\<And>s s'. s \<le> s' \<Longrightarrow> p s' \<Longrightarrow> p s) \<Longrightarrow>
    take_cond (\<lambda>t. p) t es = filter (\<lambda>e. p (fst e)) es"
proof (induction es arbitrary: t)
  case (Cons e es)
  have "\<not> p (fst e) \<Longrightarrow> \<forall>f\<in>set es. \<not> p (fst f)" using Cons.prems by auto
  then show ?case using Cons by (auto simp: filter_empty_conv)
qed simp

lemma take_cond_rank: "take_cond (\<lambda>t s. t \<le> b) t es = take (nat (b - t + 1)) es"
proof (induction es arbitrary: t)
  case (Cons e es)
  show ?case
  proof (cases "t \<le> b")
    case True
    then have "nat (b - t + 1) = Suc (nat (b - (t + 1) + 1))" by linarith
    then show ?thesis using True Cons [of "t + 1"] by simp
  qed simp
qed simp

lemma m_zslDeleteRangeByScore_filter:
  assumes z: "zsl_list cmp z es" and len: "length es < 2 ^ 64 - 1"
  shows "\<exists>z'. m_zslDeleteRangeByScore z rg =
      Some (int (length (filter (\<lambda>e. score_in rg (fst e)) es)),
        map snd (filter (\<lambda>e. score_in rg (fst e)) es), z') \<and>
    zsl_list cmp z' (filter (\<lambda>e. \<not> score_in rg (fst e)) es)"
proof -
  let ?p = "\<lambda>s. if rminex rg then s \<le> rmin rg else s < rmin rg"
  let ?q = "\<lambda>s. if rmaxex rg then s < rmax rg else s \<le> rmax rg"
  have mono: "s \<le> s' \<Longrightarrow> ?p s' \<Longrightarrow> ?p s" for s s' by (auto split: if_splits)
  have monoq: "s \<le> s' \<Longrightarrow> ?q s' \<Longrightarrow> ?q s" for s s' by (auto split: if_splits)
  obtain es1 es2 as1 as2 ups where c: "es = es1 @ es2" "\<forall>e\<in>set es1. ?p (fst e)"
    "\<forall>e\<in>set es2. \<not> ?p (fst e)" "holds_at z (as1 @ as2) (es1 @ es2)"
    "map (zentry (zs_heap z)) as1 = map node_entry es1" "map (zentry (zs_heap z)) as2 = map node_entry es2"
    "descend (zs_heap z) (\<lambda>r lv n. ?p (score n)) (2 ^ 64) (zs_level z) (zs_header z) 0 =
       Some (ups, last (zs_header z # as1), int (length as1))"
    "update_for z (zs_header z # as1) (map fst ups)"
    by (rule zsl_cut [where p = ?p, OF z mono len])
  have rep: "zsl_rep z (as1 @ as2)" using c(4) by (simp add: holds_at_def)
  have l1: "length as1 = length es1" using c(5) by (metis length_map)
  have l: "length (as1 @ as2) < 2 ^ 64 - 1" using holds_at_length [OF c(4)] c(1) len by simp
  let ?d = "take_cond (\<lambda>t. ?q) 0 es2"
  have l2: "int (length es2) < 2 ^ 64" using c(1) len by simp
  obtain z' as2' where w: "delete_while (\<lambda>t n. ?q (score n)) (map fst ups) 0 0
      (if as2 = [] then None else Some (hd as2)) z = Some (0 + int (length ?d), map snd ?d, z')"
    "holds_at z' (as1 @ as2') (es1 @ drop (length ?d) es2)"
    using delete_while_spec [OF c(4) l1 c(8) l, of 0 0 "\<lambda>t. ?q"] l2 by auto
  have run: "m_zslDeleteRangeByScore z rg = Some (int (length ?d), map snd ?d, z')"
    by (simp only: m_zslDeleteRangeByScore_def c(7) head_forward [OF rep] w(1) Option.bind.bind_lunit prod.case add_0)
  have "sorted_wrt (\<lambda>e f. fst e \<le> fst f) (es1 @ es2)"
    using z c(1) by (auto simp: zsl_list_def intro: sorted_wrt_scores)
  then have s2: "sorted_wrt (\<lambda>e f. fst e \<le> fst f) es2" by (simp add: sorted_wrt_append)
  have d: "?d = filter (\<lambda>e. ?q (fst e)) es2" by (rule take_cond_scores [OF s2 monoq])
  have in1: "\<forall>e\<in>set es1. \<not> score_in rg (fst e)"
    using c(2) by (auto simp: score_in_def m_zslValueGteMin_def split: if_splits)
  have in2: "\<forall>e\<in>set es2. score_in rg (fst e) \<longleftrightarrow> ?q (fst e)"
    using c(3) by (auto simp: score_in_def m_zslValueGteMin_def m_zslValueLteMax_def)
  have f: "filter (\<lambda>e. score_in rg (fst e)) es = ?d"
  proof -
    have "filter (\<lambda>e. score_in rg (fst e)) es1 = []" using in1 by (simp only: filter_empty_conv)
    moreover have "filter (\<lambda>e. score_in rg (fst e)) es2 = filter (\<lambda>e. ?q (fst e)) es2"
      by (rule filter_cong [OF refl]) (use in2 in blast)
    ultimately show ?thesis by (simp only: c(1) filter_append d append_Nil)
  qed
  have g: "filter (\<lambda>e. \<not> score_in rg (fst e)) es = es1 @ drop (length ?d) es2"
  proof -
    have "filter (\<lambda>e. \<not> score_in rg (fst e)) es1 = es1" using in1 by (simp only: filter_id_conv)
    moreover have "filter (\<lambda>e. \<not> score_in rg (fst e)) es2 = filter (\<lambda>e. \<not> ?q (fst e)) es2"
      by (rule filter_cong [OF refl]) (use in2 in blast)
    moreover have "es2 = ?d @ filter (\<lambda>e. \<not> ?q (fst e)) es2"
      unfolding d by (rule sorted_split [OF s2]) (rule monoq)
    then have "drop (length ?d) es2 = filter (\<lambda>e. \<not> ?q (fst e)) es2" by (rule drop_front)
    ultimately show ?thesis by (simp only: c(1) filter_append)
  qed
  have "zsl_list cmp z' (es1 @ drop (length ?d) es2)" by (rule zsl_list_drop [OF z [unfolded c(1)] w(2)])
  then show ?thesis using run unfolding f g by blast
qed

section \<open>Ranks\<close>

text \<open>On the spans of a list the rank conditions of the two operations cut it at a position.\<close>

lemma splits_rank:
  assumes len: "length as < 2 ^ 64 - 1"
    and P: "\<And>i. 1 \<le> i \<Longrightarrow> i \<le> length as \<Longrightarrow> p (int i) \<longleftrightarrow> i < k"
  shows "splits hp (\<lambda>r lv n. p (wrap64 (r + span lv))) k (h # as)"
  unfolding splits_def
proof (intro allI impI)
  fix pre c u b v lv n
  assume s: "h # as = pre @ c # u @ b # v" and sp: "span lv = int (Suc (length u))"
  let ?i = "length pre + Suc (length u)"
  have "length (h # as) = length (pre @ c # u @ b # v)" using s by simp
  then have i: "?i \<le> length as" by simp
  then have "wrap64 (int (length pre) + span lv) = int ?i" using sp len by (simp add: wrap64_id)
  then show "p (wrap64 (int (length pre) + span lv)) \<longleftrightarrow> ?i < k" using P [of ?i] i by simp
qed

lemma m_zslDeleteRangeByRank_drop:
  assumes z: "zsl_list cmp z es" and len: "length es < 2 ^ 64 - 1"
  shows "\<exists>z'. let removed = take (Suc b - Suc (a - 1)) (drop (a - 1) es) in
    m_zslDeleteRangeByRank z (int a) (int b) = Some (int (length removed), map snd removed, z') \<and>
    zsl_list cmp z' (take (a - 1) es @ drop (length removed) (drop (a - 1) es))"
proof -
  let ?es1 = "take (a - 1) es" and ?es2 = "drop (a - 1) es"
  have "zsl_list cmp z (?es1 @ ?es2)" using z by simp
  then obtain as1 as2 where h: "holds_at z (as1 @ as2) (?es1 @ ?es2)" "length as1 = length ?es1"
    "length as2 = length ?es2" by (rule zsl_listE)
  have rep: "zsl_rep z (as1 @ as2)" using h(1) by (simp add: holds_at_def)
  have l: "length (as1 @ as2) = length es" using h(2,3) by simp
  have l64: "length (as1 @ as2) < 2 ^ 64 - 1" using l len by simp
  have "splits (zs_heap z) (\<lambda>r lv n. wrap64 (r + span lv) < int a) (Suc (length as1)) (zs_header z # as1 @ as2)"
    by (rule splits_rank [OF l64]) (use h(2) l in auto)
  from zsl_descend_gen [OF rep refl this, of "2 ^ 64"] obtain ups where
    d: "descend (zs_heap z) (\<lambda>r lv n. wrap64 (r + span lv) < int a) (2 ^ 64) (zs_level z) (zs_header z) 0 =
      Some (ups, last (zs_header z # as1), int (length as1))" "length ups = zs_level z"
    "\<forall>i<zs_level z. \<exists>b n. ups ! i = (b, int n) \<and> is_last (hgt (zs_heap z)) i (zs_header z # as1) b n"
    using l64 by auto
  have us: "update_for z (zs_header z # as1) (map fst ups)" by (rule update_for_descend [OF d(2,3)])
  let ?t = "int (length as1) + 1"
  have w: "wrap64 ?t = ?t" using l64 by (simp add: wrap64_id)
  let ?d = "take_cond (\<lambda>t s. t \<le> int b) ?t ?es2"
  obtain z' as2' where x: "delete_while (\<lambda>t n. t \<le> int b) (map fst ups) ?t 0
      (if as2 = [] then None else Some (hd as2)) z = Some (0 + int (length ?d), map snd ?d, z')"
    "holds_at z' (as1 @ as2') (?es1 @ drop (length ?d) ?es2)"
  proof -
    have "0 \<le> ?t" "?t + int (length ?es2) < 2 ^ 64" "(0::int) \<le> 0" "0 + int (length ?es2) < 2 ^ 64"
      using h(2,3) l64 by simp_all
    from delete_while_spec [OF h(1,2) us l64 this, of "\<lambda>t s. t \<le> int b"] show thesis
      using that by blast
  qed
  have run: "m_zslDeleteRangeByRank z (int a) (int b) = Some (int (length ?d), map snd ?d, z')"
    by (simp only: m_zslDeleteRangeByRank_def d(1) head_forward [OF rep] w x(1)
        Option.bind.bind_lunit prod.case add_0)
  have removed: "?d = take (Suc b - Suc (a - 1)) ?es2"
  proof (cases "a - 1 \<le> length es")
    case True
    then have "nat (int b - ?t + 1) = Suc b - Suc (a - 1)" using h(2) by auto
    then show ?thesis by (simp add: take_cond_rank)
  qed (simp add: take_cond_rank)
  have "zsl_list cmp z (?es1 @ ?es2)" using z by simp
  then have "zsl_list cmp z' (?es1 @ drop (length ?d) ?es2)" by (rule zsl_list_drop [OF _ x(2)])
  then show ?thesis using run unfolding Let_def removed by blast
qed

lemma rank_descend_find:
  "descend hp (\<lambda>r lv n. wrap64 (r + span lv) \<le> rank) (2 ^ 64) k x r = Some (ups, y, s) \<Longrightarrow>
    rank_descend hp rank k x r = Some (map_option fst (find (\<lambda>u. snd u = rank) (rev ups)))"
proof (induction k arbitrary: x r ups)
  case (Suc k)
  let ?cond = "\<lambda>r lv (n :: 'a znode). wrap64 (r + span lv) \<le> rank"
  obtain x' r' where w: "walk_level hp ?cond (2 ^ 64) k x r = Some (x', r')"
    using Suc.prems by (cases "walk_level hp ?cond (2 ^ 64) k x r") auto
  obtain ups' where d: "descend hp ?cond (2 ^ 64) k x' r' = Some (ups', y, s)" "ups = ups' @ [(x', r')]"
    using Suc.prems w by (auto simp: bind_eq_Some_conv)
  show ?case using w d(2) Suc.IH [OF d(1)] by simp
qed simp

lemma m_zslGetElementByRank_nth:
  assumes z: "zsl_list cmp z es" and len: "length es < 2 ^ 64 - 1"
  shows "\<exists>r. m_zslGetElementByRank z (int k) = Some r \<and>
    (if k = 0 then r = Some (zs_header z)
     else node_for z r (if k \<le> length es then Some (es ! (k - 1)) else None))"
proof -
  obtain as where h: "holds_at z as es" using z by (auto simp: zsl_list_def)
  then have rep: "zsl_rep z as" and mp: "map (zentry (zs_heap z)) as = map node_entry es" by (simp_all add: holds_at_def)
  have l: "length as = length es" by (rule holds_at_length [OF h])
  let ?as1 = "take k as"
  let ?P = "zs_header z # ?as1"
  have as: "as = ?as1 @ drop k as" by simp
  have l64: "length as < 2 ^ 64 - 1" using l len by simp
  have "splits (zs_heap z) (\<lambda>r lv n. wrap64 (r + span lv) \<le> int k) (Suc (length ?as1)) (zs_header z # as)"
    by (rule splits_rank [OF l64]) auto
  from zsl_descend_gen [OF rep as this, of "2 ^ 64"] obtain ups where
    d: "descend (zs_heap z) (\<lambda>r lv n. wrap64 (r + span lv) \<le> int k) (2 ^ 64) (zs_level z) (zs_header z) 0 =
      Some (ups, last ?P, int (length ?as1))" "length ups = zs_level z"
    "\<forall>i<zs_level z. \<exists>b n. ups ! i = (b, int n) \<and> is_last (hgt (zs_heap z)) i ?P b n"
    "ups ! 0 = (last ?P, int (length ?as1))" using l64 by auto
  have run: "m_zslGetElementByRank z (int k) = Some (map_option fst (find (\<lambda>u. snd u = int k) (rev ups)))"
    unfolding m_zslGetElementByRank_def by (rule rank_descend_find [OF d(1)])
  have bound: "\<exists>n. snd u = int n \<and> n < length ?P \<and> fst u = ?P ! n" if u: "u \<in> set ups" for u
  proof -
    obtain i where "i < zs_level z" "u = ups ! i" using u d(2) by (metis in_set_conv_nth)
    then obtain b n where "u = (b, int n)" "is_last (hgt (zs_heap z)) i ?P b n" using d(3) by metis
    then show ?thesis by (auto simp: is_last_def)
  qed
  show ?thesis
  proof (cases "k \<le> length es")
    case False
    have "find (\<lambda>u. snd u = int k) (rev ups) = None"
      unfolding find_None_iff using bound False l by fastforce
    then show ?thesis using run False by (auto simp: node_for_def)
  next
    case True
    have "ups ! 0 \<in> set (rev ups)" using d(2) zsl_repD(4) [OF rep] by simp
    moreover have "snd (ups ! 0) = int k" using d(4) True l by simp
    ultimately have "find (\<lambda>u. snd u = int k) (rev ups) \<noteq> None" unfolding find_None_iff by blast
    then obtain u where u: "find (\<lambda>u. snd u = int k) (rev ups) = Some u" by blast
    have "u \<in> set (rev ups)" "snd u = int k" using find_mem [OF u] by simp_all
    then have "u \<in> set ups" "snd u = int k" by simp_all
    then have fu: "fst u = ?P ! k" using bound by fastforce
    have r: "m_zslGetElementByRank z (int k) = Some (Some (?P ! k))" using run u fu by simp
    show ?thesis
    proof (cases "k = 0")
      case True
      then show ?thesis using r by simp
    next
      case False
      have "?P ! k = as ! (k - 1)" using False True l by (simp add: nth_Cons')
      moreover have "zentry (zs_heap z) (as ! (k - 1)) = node_entry (es ! (k - 1))"
        using arg_cong [OF mp, of "\<lambda>xs. xs ! (k - 1)"] True False l by simp
      ultimately show ?thesis using r True False by (simp add: node_for_def)
    qed
  qed
qed

section \<open>Changing a score\<close>

lemma map_ends:
  assumes "map f xs = map g ys" "xs \<noteq> []"
  shows "ys \<noteq> [] \<and> f (last xs) = g (last ys) \<and> f (hd xs) = g (hd ys)"
  using assms by (metis Nil_is_map_conv hd_map last_map)

lemma zentry_set_score:
  assumes "zentry hp x = node_entry e"
  shows "\<exists>hp'. set_score hp x sc = Some hp' \<and> dom hp' = dom hp \<and> hgt hp' = hgt hp \<and>
    level_of hp' = level_of hp \<and> zentry hp' = (zentry hp)(x := node_entry (sc, snd e)) \<and>
    (\<forall>b. info hp' b = (if b = x then map_option (\<lambda>(m, s, w). (m, sc, w)) (info hp x) else info hp b))"
proof -
  obtain n where n: "hp x = Some n" "member n = Some (snd e)" "score n = fst e" using assms by (rule zentry_node)
  let ?hp = "hp(x \<mapsto> n\<lparr>score := sc\<rparr>)"
  have "set_score hp x sc = Some ?hp" using n by (simp add: set_score_def)
  moreover have "dom ?hp = dom hp" "hgt ?hp = hgt hp" "level_of ?hp = level_of hp"
    using n by (auto simp: hgt_def level_of_def fun_eq_iff)
  moreover have "zentry ?hp = (zentry hp)(x := node_entry (sc, snd e))"
    using n by (auto simp: zentry_def node_entry_def fun_eq_iff)
  moreover have "info ?hp b = (if b = x then map_option (\<lambda>(m, s, w). (m, sc, w)) (info hp x) else info hp b)" for b
    using n by (auto simp: info_def)
  ultimately show ?thesis by blast
qed

lemma back_linked_score:
  assumes "\<forall>b. info hp' b = (if b = x then map_option (\<lambda>(m, s, w). (m, sc, w)) (info hp x) else info hp b)"
  shows "back_linked hp h s \<Longrightarrow> back_linked hp' h s"
  unfolding back_linked_def by (erule successively_mono) (use assms in auto)

lemma zsl_rep_score:
  assumes z: "zsl_rep z as" and hp: "dom hp' = dom (zs_heap z)" "hgt hp' = hgt (zs_heap z)"
    "level_of hp' = level_of (zs_heap z)"
    "\<forall>b. info hp' b = (if b = x then map_option (\<lambda>(m, s, w). (m, sc, w)) (info (zs_heap z) x) else info (zs_heap z) b)"
  shows "zsl_rep (z\<lparr>zs_heap := hp'\<rparr>) as"
  using z back_linked_score [OF hp(4), of "zs_header z" "zs_header z # as"] hp(1-3)
  by (simp add: zsl_rep_def linked_def)

text \<open>The test of the neighbours, read off the list.\<close>

lemma score_fits_spec:
  assumes h: "zsl_rep z (as1 @ x # R)" and n: "zs_heap z x = Some n"
    and 1: "map (zentry (zs_heap z)) as1 = map node_entry es1"
    and 2: "map (zentry (zs_heap z)) R = map node_entry es2"
  shows "score_fits (zs_heap z) n sc' =
    Some ((es1 = [] \<or> fst (last es1) < sc') \<and> (es2 = [] \<or> sc' < fst (hd es2)))"
proof -
  have bl: "back_linked (zs_heap z) (zs_header z) ((zs_header z # as1) @ x # R)" using zsl_repD(9) [OF h] by simp
  then have "\<exists>m sc. info (zs_heap z) x =
      Some (Some m, sc, if last (zs_header z # as1) = zs_header z then None else Some (last (zs_header z # as1)))"
    unfolding back_linked_append by (simp only: list.sel list.distinct simp_thms)
  then have b: "backward n = (if last (zs_header z # as1) = zs_header z then None else Some (last (zs_header z # as1)))"
    using n by (auto simp: info_def)
  have "zs_header z \<notin> set as1" using zsl_repD(1) [OF h] by simp
  then have b': "backward n = (if as1 = [] then None else Some (last as1))"
    using b by (auto dest: last_in_set split: if_splits)
  have lo: "(case backward n of None \<Rightarrow> Some True
             | Some b \<Rightarrow> do { nb \<leftarrow> zs_heap z b; Some (score nb < sc') }) = Some (es1 = [] \<or> fst (last es1) < sc')"
  proof (cases "as1 = []")
    case False
    then have "es1 \<noteq> []" "zentry (zs_heap z) (last as1) = node_entry (last es1)"
      using map_ends [OF 1 False] by simp_all
    then show ?thesis using b' False by (auto elim: zentry_node)
  qed (use 1 b' in auto)
  have lx: "arr_get (level n) 0 = Some (lvl (hgt (zs_heap z)) 0 R)"
    "forward (lvl (hgt (zs_heap z)) 0 R) = (if R = [] then None else Some (hd R))"
    using head_forward [of z "as1 @ [x]" R] h n by (simp_all add: level_of_def)
  have hi: "(case forward (lvl (hgt (zs_heap z)) 0 R) of None \<Rightarrow> Some True
       | Some f \<Rightarrow> do { nf \<leftarrow> zs_heap z f; Some (sc' < score nf) }) = Some (es2 = [] \<or> sc' < fst (hd es2))"
  proof (cases "R = []")
    case False
    then have "es2 \<noteq> []" "zentry (zs_heap z) (hd R) = node_entry (hd es2)"
      using map_ends [OF 2 False] by simp_all
    then show ?thesis using lx(2) False by (auto elim: zentry_node)
  qed (use 2 lx in auto)
  show ?thesis by (simp add: score_fits_def lo lx(1) hi)
qed

lemma sorted_last:
  fixes es :: "'m entry list"
  shows "sorted_wrt (\<lambda>e f. fst e \<le> fst f) es \<Longrightarrow> e \<in> set es \<Longrightarrow> fst e \<le> fst (last es)"
  by (induction es) (auto split: if_splits)

text \<open>Taking the node out and inserting a new one with its member.\<close>

lemma move_node:
  assumes c: "cmp_ok cmp" and h: "zsl_rep z (as1 @ x # R)" "dom (zs_heap z) = set (zs_header z # as1 @ x # R)"
    and us: "update_for z (zs_header z # as1) us" and len: "length (as1 @ x # R) < 2 ^ 32 - 1"
    and mp: "map (zentry (zs_heap z)) (as1 @ R) = map node_entry es'"
    and srt: "sorted_wrt (entry_less cmp) es'" and new: "(sc, m) \<notin> set es'"
    and lev: "m_zslRandomLevel draws = Some (lev, rest)"
  shows "\<exists>z1 a z2. m_zslDeleteNode z x us = Some z1 \<and> m_zslInsert cmp draws z1 sc m = Some (a, rest, z2) \<and>
    zsl_list cmp (z2\<lparr>zs_heap := (zs_heap z2)(x := None)\<rparr>) (zins cmp (sc, m) es') \<and>
    zentry ((zs_heap z2)(x := None)) a = node_entry (sc, m)"
proof -
  have len64: "length (as1 @ x # R) < 2 ^ 64 - 1" using len by simp
  obtain z1 where 1: "m_zslDeleteNode z x us = Some z1" "zsl_rep z1 (as1 @ R)" "zs_header z1 = zs_header z"
    "zs_next z1 = zs_next z" "dom (zs_heap z1) = dom (zs_heap z)" "zentry (zs_heap z1) = zentry (zs_heap z)"
    using m_zslDeleteNode_spec [OF h(1) us len64] by blast
  have mp1: "map (zentry (zs_heap z1)) (as1 @ R) = map node_entry es'" using mp 1(6) by simp
  obtain bs1 bs2 es1 es2 where p: "es' = es1 @ es2" "as1 @ R = bs1 @ bs2"
    "\<forall>e\<in>set es1. entry_less cmp e (sc, m)" "\<forall>e\<in>set es2. \<not> entry_less cmp e (sc, m)"
    "map (zentry (zs_heap z1)) bs1 = map node_entry es1" "map (zentry (zs_heap z1)) bs2 = map node_entry es2"
    "\<forall>a\<in>set bs1. before cmp sc m (zs_heap z1) a" "\<forall>a\<in>set bs2. \<not> before cmp sc m (zs_heap z1) a"
    "length (bs1 @ bs2) = length es'" by (rule zsl_position_rep [OF c srt mp1, of sc m])
  have len': "length (bs1 @ bs2) < 2 ^ 32 - 1" using len p(2) by (metis add_Suc_right length_Cons length_append less_Suc_eq less_trans)
  let ?a = "zs_next z1"
  obtain z2 where 2: "m_zslInsert cmp draws z1 sc m = Some (?a, rest, z2)" "zsl_rep z2 (bs1 @ ?a # bs2)"
    "zs_header z2 = zs_header z1" "dom (zs_heap z2) = insert ?a (dom (zs_heap z1))"
    "\<forall>a. zentry (zs_heap z2) a = (if a = ?a then Some (Some m, sc) else zentry (zs_heap z1) a)"
    using m_zslInsert_spec [OF 1(2) [unfolded p(2)] refl p(7,8) len' lev] by blast
  have afresh: "?a \<notin> dom (zs_heap z1)" using zsl_repD(2) [OF 1(2)] by blast
  have bs: "set bs1 \<union> set bs2 = set as1 \<union> set R" using arg_cong [OF p(2), of set] by simp
  have xin: "x \<in> dom (zs_heap z1)" "x \<notin> set bs1 \<union> set bs2" "x \<noteq> zs_header z"
    using zsl_repD(1) [OF h(1)] h(2) 1(5) bs by auto
  have xa: "x \<noteq> ?a" using afresh xin by auto
  have anot: "?a \<notin> set bs1 \<union> set bs2" using afresh 1(5) h(2) bs by auto
  let ?hp = "(zs_heap z2)(x := None)"
  let ?z = "z2\<lparr>zs_heap := ?hp\<rparr>"
  have rep: "zsl_rep ?z (bs1 @ ?a # bs2)"
    by (rule zsl_rep_free [OF 2(2)]) (use xin xa 2(3) 1(3) in auto)
  have dm: "dom ?hp = set (zs_header ?z # bs1 @ ?a # bs2)"
    using 2(3,4) 1(3,5) h(2) bs xin xa zsl_repD(1) [OF h(1)] by auto
  have zi: "zins cmp (sc, m) es' = es1 @ (sc, m) # es2"
    unfolding p(1) by (rule zins_eq [OF p(3)]) (use p(4) in \<open>auto dest: hd_in_set\<close>)
  have ze: "zentry ?hp b = (if b = ?a then node_entry (sc, m) else zentry (zs_heap z1) b)" if "b \<noteq> x" for b
    using 2(5) that by (simp add: zentry_def node_entry_def)
  have "map (zentry ?hp) (bs1 @ ?a # bs2) = map node_entry (zins cmp (sc, m) es')"
  proof -
    have same: "zentry ?hp b = zentry (zs_heap z1) b" if "b \<in> set bs1 \<union> set bs2" for b
    proof -
      have "b \<noteq> x" "b \<noteq> ?a" using that xin(2) anot by blast+
      then show ?thesis using ze by simp
    qed
    then have "map (zentry ?hp) bs1 = map (zentry (zs_heap z1)) bs1" "map (zentry ?hp) bs2 = map (zentry (zs_heap z1)) bs2"
      by simp_all
    then show ?thesis using p(5,6) ze [of ?a] xa zi by simp
  qed
  then have "holds_at ?z (bs1 @ ?a # bs2) (zins cmp (sc, m) es')"
    using rep dm by (simp add: holds_at_def)
  then have "zsl_list cmp ?z (zins cmp (sc, m) es')" using sorted_zins [OF c srt new] by (auto simp: zsl_list_def)
  then show ?thesis using 1(1) 2(1) ze [of ?a] xa by auto
qed

lemma m_zslUpdateScore_list:
  assumes c: "cmp_ok cmp" and z: "zsl_list cmp z es" and old: "(sc, m) \<in> set es"
    and new: "(sc', m) \<notin> set (remove1 (sc, m) es)" and len: "length es < 2 ^ 32 - 1"
    and lev: "m_zslRandomLevel draws = Some (lev, rest)"
  shows "\<exists>a draws' z'. m_zslUpdateScore cmp draws z sc m sc' = Some (a, draws', z') \<and>
    zsl_list cmp z' (zins cmp (sc', m) (remove1 (sc, m) es)) \<and> zentry (zs_heap z') a = node_entry (sc', m)"
proof -
  obtain as1 as2 es1 es2 where p: "es = es1 @ es2" "\<forall>e\<in>set es1. entry_less cmp e (sc, m)"
    "\<forall>e\<in>set es2. \<not> entry_less cmp e (sc, m)"
    "zsl_rep z (as1 @ as2)" "dom (zs_heap z) = set (zs_header z # as1 @ as2)"
    "map (zentry (zs_heap z)) as1 = map node_entry es1" "map (zentry (zs_heap z)) as2 = map node_entry es2"
    "\<forall>a\<in>set as1. before cmp sc m (zs_heap z) a" "\<forall>a\<in>set as2. \<not> before cmp sc m (zs_heap z) a"
    "length (as1 @ as2) = length es"
    by (rule zsl_position [OF c z, of sc m])
  have sorted: "sorted_wrt (entry_less cmp) es" using z by (simp add: zsl_list_def)
  have no1: "(sc, m) \<notin> set es1" using p(2) entry_less_irrefl [OF c] by blast
  obtain f es3 where f: "es2 = f # es3" using old p(1) no1 by (cases es2) auto
  have "f = (sc, m) \<or> (sc, m) \<in> set es3" using old p(1) no1 f by auto
  moreover have "\<forall>g\<in>set es3. entry_less cmp f g" using sorted p(1) f by (simp add: sorted_wrt_append)
  ultimately have f': "es2 = (sc, m) # es3" using p(3) f by auto
  obtain x R where R: "as2 = x # R" using p(7) f by (cases as2) auto
  have ex: "zentry (zs_heap z) x = node_entry (sc, m)" and eR: "map (zentry (zs_heap z)) R = map node_entry es3"
    using p(7) R f' by simp_all
  obtain n where n: "zs_heap z x = Some n" "member n = Some m" "score n = sc" using ex by (auto elim: zentry_node)
  have rm: "remove1 (sc, m) es = es1 @ es3" using p(1) no1 f' by (simp add: remove1_append)
  have sorted': "sorted_wrt (entry_less cmp) (es1 @ es3)"
    using sorted p(1) f' by (auto simp: sorted_wrt_append)
  have rep: "zsl_rep z (as1 @ x # R)" and dm: "dom (zs_heap z) = set (zs_header z # as1 @ x # R)"
    using p(4,5) R by simp_all
  have len': "length (as1 @ x # R) < 2 ^ 32 - 1" using p(10) len R by simp
  obtain ups where d: "descend (zs_heap z) (\<lambda>r lv n. entry_before cmp sc m n) (2 ^ 32) (zs_level z) (zs_header z) 0 =
      Some (ups, last (zs_header z # as1), int (length as1))" "length ups = zs_level z"
    "\<forall>i<zs_level z. \<exists>b n. ups ! i = (b, int n) \<and> is_last (hgt (zs_heap z)) i (zs_header z # as1) b n"
    using zsl_descend [OF rep refl p(8) p(9) [unfolded R] len'] by blast
  have us: "update_for z (zs_header z # as1) (map fst ups)" by (rule update_for_descend [OF d(2,3)])
  have fx: "forward (lvl (hgt (zs_heap z)) 0 (x # R)) = Some x" using level_0(2) [OF rep] by simp
  have cm: "cmp m m = 0" using c by (simp add: cmp_ok_def)
  note fits = score_fits_spec [OF rep n(1) p(6) eR, of sc']
  show ?thesis
  proof (cases "(es1 = [] \<or> fst (last es1) < sc') \<and> (es3 = [] \<or> sc' < fst (hd es3))")
    case True
    obtain hp' where s: "set_score (zs_heap z) x sc' = Some hp'" "dom hp' = dom (zs_heap z)"
      "hgt hp' = hgt (zs_heap z)" "level_of hp' = level_of (zs_heap z)"
      "zentry hp' = (zentry (zs_heap z))(x := node_entry (sc', snd (sc, m)))"
      "\<forall>b. info hp' b = (if b = x then map_option (\<lambda>(m, s, w). (m, sc', w)) (info (zs_heap z) x) else info (zs_heap z) b)"
      using zentry_set_score [OF ex] by blast
    have fits': "score_fits (zs_heap z) n sc' = Some True" unfolding fits using True by blast
    have run: "m_zslUpdateScore cmp draws z sc m sc' = Some (x, draws, z\<lparr>zs_heap := hp'\<rparr>)"
      by (simp only: m_zslUpdateScore_def d(1) level_0(1) [OF rep] fx n cm fits' s(1) c_assert_True
          Option.bind.bind_lunit prod.case if_True simp_thms)
    have l1: "\<forall>e\<in>set es1. entry_less cmp e (sc', m)"
    proof
      fix e assume e: "e \<in> set es1"
      have "sorted_wrt (\<lambda>e f. fst e \<le> fst f) es1"
        using sorted' by (intro sorted_wrt_scores [of cmp]) (simp add: sorted_wrt_append)
      then have "fst e \<le> fst (last es1)" using e by (rule sorted_last)
      then show "entry_less cmp e (sc', m)" using True e by (auto simp: entry_less_def)
    qed
    have "zins cmp (sc', m) (es1 @ es3) = es1 @ (sc', m) # es3"
      by (rule zins_eq [OF l1]) (use True in \<open>auto simp: entry_less_def\<close>)
    moreover have "x \<notin> set as1" "x \<notin> set R" using zsl_repD(1) [OF rep] by auto
    then have "map (zentry hp') (as1 @ x # R) = map node_entry (es1 @ (sc', m) # es3)"
      using s(5) p(6) eR by simp
    ultimately have "holds_at (z\<lparr>zs_heap := hp'\<rparr>) (as1 @ x # R) (zins cmp (sc', m) (remove1 (sc, m) es))"
      using zsl_rep_score [OF rep s(2,3,4,6)] s(2) dm rm by (simp add: holds_at_def)
    moreover have "sorted_wrt (entry_less cmp) (zins cmp (sc', m) (remove1 (sc, m) es))"
      by (rule sorted_zins [OF c _ new]) (simp add: rm sorted')
    ultimately show ?thesis using run s(5) by (auto simp: zsl_list_def)
  next
    case False
    have mp: "map (zentry (zs_heap z)) (as1 @ R) = map node_entry (es1 @ es3)" using p(6) eR by simp
    obtain z1 a z2 where m: "m_zslDeleteNode z x (map fst ups) = Some z1"
      "m_zslInsert cmp draws z1 sc' m = Some (a, rest, z2)"
      "zsl_list cmp (z2\<lparr>zs_heap := (zs_heap z2)(x := None)\<rparr>) (zins cmp (sc', m) (es1 @ es3))"
      "zentry ((zs_heap z2)(x := None)) a = node_entry (sc', m)"
      using move_node [OF c rep dm us len' mp sorted' new [unfolded rm] lev] by blast
    have fits': "score_fits (zs_heap z) n sc' = Some False" unfolding fits using False by blast
    have "m_zslUpdateScore cmp draws z sc m sc' = Some (a, rest, z2\<lparr>zs_heap := (zs_heap z2)(x := None)\<rparr>)"
      by (simp only: m_zslUpdateScore_def d(1) level_0(1) [OF rep] fx n cm fits' m(1,2) c_assert_True
          Option.bind.bind_lunit prod.case if_False simp_thms)
    then show ?thesis using m(3,4) rm by auto
  qed
qed

end
