(* ===== verification/SkiplistProps.thy ===== *)
theory SkiplistProps
  imports SkiplistRange Interfaces
begin

text \<open>
  The skip list provides the contract of an ordered collection of entries, and the
  properties of its operations: every one is stated over the sorted list of entries.
\<close>

section \<open>The contract\<close>

definition zsl_put :: "('m \<Rightarrow> 'm \<Rightarrow> int) \<Rightarrow> nat list \<Rightarrow> 'm zskiplist \<Rightarrow> 'm entry \<Rightarrow> 'm zskiplist option" where
  "zsl_put cmp draws z e = do { (a, rest, z) \<leftarrow> m_zslInsert cmp draws z (fst e) (snd e); Some z }"

definition zsl_drop :: "('m \<Rightarrow> 'm \<Rightarrow> int) \<Rightarrow> 'm zskiplist \<Rightarrow> 'm entry \<Rightarrow> (bool \<times> 'm zskiplist) option" where
  "zsl_drop cmp z e = do { (found, freed, z) \<leftarrow> m_zslDelete cmp z (fst e) (snd e); Some (found, z) }"

definition usable_draws :: "nat list \<Rightarrow> bool" where
  "usable_draws draws \<longleftrightarrow> m_zslRandomLevel draws \<noteq> None"

text \<open>The contract holds for every comparison that is a strict order on members; other
  comparisons hold no list at all.\<close>

definition zsl_holds :: "('m \<Rightarrow> 'm \<Rightarrow> int) \<Rightarrow> 'm zskiplist \<Rightarrow> 'm entry list \<Rightarrow> bool" where
  "zsl_holds cmp z es \<longleftrightarrow> cmp_ok cmp \<and> zsl_list cmp z es"

interpretation tagged_keys: ordered_entries "zsl_holds cmp" "2 ^ 32 - 1" usable_draws "zsl_put cmp" "zsl_drop cmp"
  for cmp :: "'m \<Rightarrow> 'm \<Rightarrow> int"
proof
  fix z :: "'m zskiplist" and es
  show "zsl_holds cmp z es \<Longrightarrow> distinct es"
    by (auto simp: zsl_holds_def zsl_list_def intro: sorted_distinct)
next
  fix z :: "'m zskiplist" and es e d
  assume "zsl_holds cmp z es" "e \<notin> set es" "length es < 2 ^ 32 - 1" "usable_draws d"
  then obtain lev rest where a: "cmp_ok cmp" "zsl_list cmp z es" "(fst e, snd e) \<notin> set es"
    "length es < 2 ^ 32 - 1" "m_zslRandomLevel d = Some (lev, rest)"
    by (auto simp: zsl_holds_def usable_draws_def)
  from zsl_list_insert [OF this]
  show "\<exists>s' es'. zsl_put cmp d z e = Some s' \<and> zsl_holds cmp s' es' \<and> set es' = insert e (set es)"
    using a(1) by (auto simp: zsl_put_def zsl_holds_def intro!: exI [of _ "zins cmp e es"])
next
  fix z :: "'m zskiplist" and es e
  assume h: "zsl_holds cmp z es" and l: "length es < 2 ^ 32 - 1"
  then have c: "cmp_ok cmp" and z: "zsl_list cmp z es" by (auto simp: zsl_holds_def)
  have "distinct es" using z c by (auto simp: zsl_list_def intro: sorted_distinct)
  with zsl_list_delete [OF c z l, of "fst e" "snd e"]
  show "\<exists>s' es'. zsl_drop cmp z e = Some (e \<in> set es, s') \<and> zsl_holds cmp s' es' \<and> set es' = set es - {e}"
    using c by (auto simp: zsl_drop_def zsl_holds_def intro!: exI [of _ "remove1 e es"])
qed

section \<open>A concrete list\<close>

text \<open>A comparison of numbers as members, and a list with three entries, one of them two
  levels high.\<close>

definition nat_cmp :: "nat \<Rightarrow> nat \<Rightarrow> int" where
  "nat_cmp a b = int a - int b"

lemma nat_cmp_ok: "cmp_ok nat_cmp"
  by (auto simp: cmp_ok_def nat_cmp_def)

lemma draws_1: "m_zslRandomLevel [65535] = Some (1, [])"
  by (simp add: m_zslRandomLevel_def ZSKIPLIST_MAXLEVEL_def)

lemma draws_2: "m_zslRandomLevel [0, 65535] = Some (2, [])"
  by (simp add: m_zslRandomLevel_def ZSKIPLIST_MAXLEVEL_def)

definition demo_zsl :: "nat zskiplist" where
  "demo_zsl = snd (snd (the (m_zslInsert nat_cmp [65535]
     (snd (snd (the (m_zslInsert nat_cmp [0, 65535]
       (snd (snd (the (m_zslInsert nat_cmp [65535] m_zslCreate 5 1)))) 9 2)))) 7 3)))"

lemma insert_step:
  assumes "zsl_list nat_cmp z es" "(sc, m) \<notin> set es" "length es < 2 ^ 32 - 1" "m_zslRandomLevel draws = Some (lev, rest)"
  shows "zsl_list nat_cmp (snd (snd (the (m_zslInsert nat_cmp draws z sc m)))) (zins nat_cmp (sc, m) es)"
  using zsl_list_insert [OF nat_cmp_ok assms] by auto

lemma demo_list: "zsl_list nat_cmp demo_zsl [(5, 1), (7, 3), (9, 2)]"
proof -
  let ?z1 = "snd (snd (the (m_zslInsert nat_cmp [65535] m_zslCreate 5 1)))"
  let ?z2 = "snd (snd (the (m_zslInsert nat_cmp [0, 65535] ?z1 9 2)))"
  have 1: "zsl_list nat_cmp ?z1 (zins nat_cmp (5, 1) [])"
    by (rule insert_step [OF zsl_list_create _ _ draws_1]) simp_all
  have 2: "zsl_list nat_cmp ?z2 (zins nat_cmp (9, 2) (zins nat_cmp (5, 1) []))"
    by (rule insert_step [OF 1 _ _ draws_2]) simp_all
  have "zsl_list nat_cmp demo_zsl (zins nat_cmp (7, 3) (zins nat_cmp (9, 2) (zins nat_cmp (5, 1) [])))"
    unfolding demo_zsl_def by (rule insert_step [OF 2 _ _ draws_1]) simp_all
  then show ?thesis by (simp add: entry_less_def)
qed

section \<open>Properties\<close>

text \<open>C32: Inserting an entry that is not in the list returns its node and yields the sorted
  list with the entry in its place, for every random level, as long as there are fewer than
  \<open>2^32 - 1\<close> entries (the ranks of \<open>m_zslInsert\<close> are \<open>unsigned int\<close>).
\<close>

theorem m_zslInsert_sorted:
  assumes "cmp_ok cmp" and "zsl_list cmp z es" and "(sc, m) \<notin> set es"
    and "length es < 2 ^ 32 - 1" and "m_zslRandomLevel draws = Some (lev, rest)"
  shows "\<exists>a z'. m_zslInsert cmp draws z sc m = Some (a, rest, z') \<and>
    zsl_list cmp z' (zins cmp (sc, m) es) \<and> zentry (zs_heap z') a = Some (Some m, sc)"
  using zsl_list_insert [OF assms] by (simp add: node_entry_def)

lemma m_zslInsert_sorted_witness:
  "\<exists>a z'. m_zslInsert nat_cmp [65535] demo_zsl 7 2 = Some (a, [], z') \<and>
    zsl_list nat_cmp z' [(5, 1), (7, 2), (7, 3), (9, 2)] \<and> zentry (zs_heap z') a = Some (Some 2, 7)"
  using m_zslInsert_sorted [OF nat_cmp_ok demo_list _ _ draws_1, of 7 2]
  by (simp add: entry_less_def nat_cmp_def)

text \<open>C33: Deleting an entry says whether it was there, frees its member exactly once and yields
  the list without it; an absent entry changes nothing.
\<close>

theorem m_zslDelete_removes:
  assumes "cmp_ok cmp" and "zsl_list cmp z es" and "length es < 2 ^ 32 - 1"
  shows "\<exists>z'. m_zslDelete cmp z sc m =
      Some ((sc, m) \<in> set es, if (sc, m) \<in> set es then [m] else [], z') \<and>
    zsl_list cmp z' (remove1 (sc, m) es)"
  by (rule zsl_list_delete [OF assms])

lemma m_zslDelete_removes_witness:
  "\<exists>z'. m_zslDelete nat_cmp demo_zsl 9 2 = Some (True, [2], z') \<and> zsl_list nat_cmp z' [(5, 1), (7, 3)]"
  using m_zslDelete_removes [OF nat_cmp_ok demo_list, of 9 2] by simp

text \<open>Freeing a list returns, releases every member exactly once in order and leaves no node
  of it allocated.
\<close>

theorem m_zslFree_releases_all:
  assumes "zsl_list cmp z es"
  shows "m_zslFree z = Some (map snd es, Map.empty)"
  by (rule zsl_list_free [OF assms])

lemma m_zslFree_releases_all_witness: "m_zslFree demo_zsl = Some ([1, 3, 2], Map.empty)"
  using m_zslFree_releases_all [OF demo_list] by simp

text \<open>\<open>m_zslFirstInRange\<close> returns the node of the first entry whose score lies in the range,
  and \<open>NULL\<close> exactly when there is none.
\<close>

theorem m_zslFirstInRange_first:
  assumes "zsl_list cmp z es" and "length es < 2 ^ 64 - 1"
  shows "\<exists>r. m_zslFirstInRange z rg = Some r \<and> node_for z r (find (\<lambda>e. score_in rg (fst e)) es)"
  by (rule m_zslFirstInRange_find [OF assms])

lemma m_zslFirstInRange_first_witness:
  "\<exists>r. m_zslFirstInRange demo_zsl \<lparr>rmin = 6, rmax = 9, rminex = False, rmaxex = False\<rparr> = Some r \<and>
    node_for demo_zsl r (Some (7, 3))"
  using m_zslFirstInRange_first [OF demo_list, of "\<lparr>rmin = 6, rmax = 9, rminex = False, rmaxex = False\<rparr>"]
  by (simp add: score_in_def m_zslValueGteMin_def m_zslValueLteMax_def)

text \<open>\<open>m_zslLastInRange\<close> returns the node of the last entry whose score lies in the range.
\<close>

theorem m_zslLastInRange_last:
  assumes "zsl_list cmp z es" and "length es < 2 ^ 64 - 1"
  shows "\<exists>r. m_zslLastInRange z rg = Some r \<and> node_for z r (find (\<lambda>e. score_in rg (fst e)) (rev es))"
  by (rule m_zslLastInRange_find [OF assms])

lemma m_zslLastInRange_last_witness:
  "\<exists>r. m_zslLastInRange demo_zsl \<lparr>rmin = 6, rmax = 9, rminex = False, rmaxex = True\<rparr> = Some r \<and>
    node_for demo_zsl r (Some (7, 3))"
  using m_zslLastInRange_last [OF demo_list, of "\<lparr>rmin = 6, rmax = 9, rminex = False, rmaxex = True\<rparr>"]
  by (simp add: score_in_def m_zslValueGteMin_def m_zslValueLteMax_def)

text \<open>\<open>m_zslDeleteRangeByScore\<close> removes exactly the entries whose score lies in the range,
  releases their members in order and returns their number.
\<close>

theorem m_zslDeleteRangeByScore_range:
  assumes "zsl_list cmp z es" and "length es < 2 ^ 64 - 1"
  shows "\<exists>z'. m_zslDeleteRangeByScore z rg =
      Some (int (length (filter (\<lambda>e. score_in rg (fst e)) es)),
        map snd (filter (\<lambda>e. score_in rg (fst e)) es), z') \<and>
    zsl_list cmp z' (filter (\<lambda>e. \<not> score_in rg (fst e)) es)"
  by (rule m_zslDeleteRangeByScore_filter [OF assms])

lemma m_zslDeleteRangeByScore_range_witness:
  "\<exists>z'. m_zslDeleteRangeByScore demo_zsl \<lparr>rmin = 5, rmax = 7, rminex = True, rmaxex = False\<rparr> =
      Some (1, [3], z') \<and> zsl_list nat_cmp z' [(5, 1), (9, 2)]"
  using m_zslDeleteRangeByScore_range [OF demo_list, of "\<lparr>rmin = 5, rmax = 7, rminex = True, rmaxex = False\<rparr>"]
  by (simp add: score_in_def m_zslValueGteMin_def m_zslValueLteMax_def)

text \<open>\<open>m_zslDeleteRangeByRank\<close> removes exactly the entries at the 1-based ranks from \<open>start\<close> to
  \<open>end\<close>, clipped to the list; 0 as a start counts as 1.
\<close>

theorem m_zslDeleteRangeByRank_range:
  assumes "zsl_list cmp z es" and "length es < 2 ^ 64 - 1"
  shows "\<exists>z'. let removed = take (Suc b - Suc (a - 1)) (drop (a - 1) es) in
    m_zslDeleteRangeByRank z (int a) (int b) = Some (int (length removed), map snd removed, z') \<and>
    zsl_list cmp z' (take (a - 1) es @ drop (length removed) (drop (a - 1) es))"
  by (rule m_zslDeleteRangeByRank_drop [OF assms])

lemma m_zslDeleteRangeByRank_range_witness:
  "\<exists>z'. m_zslDeleteRangeByRank demo_zsl 2 9 = Some (2, [3, 2], z') \<and> zsl_list nat_cmp z' [(5, 1)]"
  using m_zslDeleteRangeByRank_range [OF demo_list, of 9 2] by (simp add: Let_def)

text \<open>\<open>m_zslGetElementByRank\<close> returns the node at the 1-based rank, \<open>NULL\<close> past the end, and
  the header for rank 0.
\<close>

theorem m_zslGetElementByRank_rank:
  assumes "zsl_list cmp z es" and "length es < 2 ^ 64 - 1"
  shows "\<exists>r. m_zslGetElementByRank z (int k) = Some r \<and>
    (if k = 0 then r = Some (zs_header z)
     else node_for z r (if k \<le> length es then Some (es ! (k - 1)) else None))"
  by (rule m_zslGetElementByRank_nth [OF assms])

lemma m_zslGetElementByRank_rank_witness:
  "\<exists>r. m_zslGetElementByRank demo_zsl 3 = Some r \<and> node_for demo_zsl r (Some (9, 2))"
  using m_zslGetElementByRank_rank [OF demo_list, of 3] by simp

text \<open>\<open>m_zslUpdateScore\<close> moves an entry of the list to its place under the new score, in place or
  through a new node, and returns the node that carries it; the old node does not leak.
\<close>

theorem m_zslUpdateScore_moves:
  assumes "cmp_ok cmp" and "zsl_list cmp z es" and "(sc, m) \<in> set es"
    and "(sc', m) \<notin> set (remove1 (sc, m) es)" and "length es < 2 ^ 32 - 1"
    and "m_zslRandomLevel draws = Some (lev, rest)"
  shows "\<exists>a draws' z'. m_zslUpdateScore cmp draws z sc m sc' = Some (a, draws', z') \<and>
    zsl_list cmp z' (zins cmp (sc', m) (remove1 (sc, m) es)) \<and> zentry (zs_heap z') a = Some (Some m, sc')"
  using m_zslUpdateScore_list [OF assms] by (simp add: node_entry_def)

lemma m_zslUpdateScore_moves_witness:
  "\<exists>a draws' z'. m_zslUpdateScore nat_cmp [65535] demo_zsl 5 1 8 = Some (a, draws', z') \<and>
    zsl_list nat_cmp z' [(7, 3), (8, 1), (9, 2)] \<and> zentry (zs_heap z') a = Some (Some 1, 8)"
  using m_zslUpdateScore_moves [OF nat_cmp_ok demo_list _ _ _ draws_1, of 5 1 8]
  by (simp add: entry_less_def nat_cmp_def)

text \<open>C31: Every sequence of insertions of new entries and of removals, started on an empty list, is
  answered as the set of entries answers it, and the list ends up with that set in order.
\<close>

theorem zsl_refines_set:
  assumes "cmp_ok cmp" and "length ops < 2 ^ 32" and "legal_ops usable_draws ops {}"
  shows "\<exists>z es. run_order (zsl_put cmp) (zsl_drop cmp) ops m_zslCreate = Some (fst (spec_order ops {}), z) \<and>
    zsl_list cmp z es \<and> set es = snd (spec_order ops {})"
proof -
  have "zsl_holds cmp m_zslCreate []" using assms(1) zsl_list_create by (simp add: zsl_holds_def)
  from tagged_keys.run_order_refines [OF this, of ops] show ?thesis
    using assms(2,3) by (auto simp: zsl_holds_def)
qed

lemma zsl_refines_set_witness:
  "\<exists>z es. run_order (zsl_put nat_cmp) (zsl_drop nat_cmp)
       [Insert [65535] (4, 7), Insert [0, 65535] (2, 9), Remove (4, 7), Remove (1, 1)] m_zslCreate =
     Some ([True, False], z) \<and> zsl_list nat_cmp z es \<and> set es = {(2, 9), (4, 7)} - {(4, 7)}"
  using zsl_refines_set [OF nat_cmp_ok,
    of "[Insert [65535] (4, 7), Insert [0, 65535] (2, 9), Remove (4, 7), Remove (1, 1)]"]
  by (simp add: usable_draws_def draws_1 draws_2)

end
