(* ===== verification/SlotIndex.thy ===== *)
theory SlotIndex
  imports SlotTable SkiplistProps SlotHash
begin

text \<open>
  The slot index of \<open>redisxslot.c\<close> and the event handlers of \<open>module.c\<close> that maintain it: for
  every database a table of keys per slot and a skip list of the tagged keys, scored by the
  checksum of their tag. The global variables and the static variables of the handlers are
  the fields of one record. The read-write locks around the accesses are not modelled: the
  steps are those of one thread, and each locked section is part of one step.

  What the server provides is a parameter: the comparison \<open>RedisModule_StringCompare\<close> (\<open>cmp\<close>),
  the values of \<open>rand()\<close> (\<open>draws\<close>), the clock, the context flags and the period of the cron
  loop. Strings are values; the references the module takes with \<open>takeAndRef\<close> and gives back
  with \<open>RedisModule_FreeString\<close> are counted in \<open>held\<close>. \<open>held_vals\<close> is the number of value strings
  made by \<open>Slots_Add\<close> less the number of times one was given back, by a destructor of a table or
  by the automatic memory of the context it was made in; it counts on below zero, where the
  program has freed strings twice.
\<close>

section \<open>State\<close>

record slots_meta_info =
  hash_slots_size :: u32
  databases :: int
  activerehashing :: bool
  async :: bool
  async_cpulist :: "string option"
  cronloops :: int
  slots_dump_threads :: int
  slots_mgrt_threads :: int
  slots_restore_threads :: int

text \<open>A value of a table is the number its string is made from.\<close>

record db_slot_info =
  slotkey_table_rehashing :: int
  slotkey_tables :: "(string, int) dict list"
  tagged_key_list :: "string zskiplist"

datatype cmd_flag = CMD_NONE | CMD_RENAME | CMD_MOVE

text \<open>\<open>slotsmgrt_cached_ctx_connects\<close> says that the dictionary of the connections exists; what
  it holds is modelled with the functions that use it.\<close>

record slots_state =
  crc32tab :: "u32 list"
  g_slots_meta_info :: slots_meta_info
  db_slot_infos :: "db_slot_info list option"
  resize_db :: nat
  resize_db_slot :: nat
  rehash_db :: nat
  from_key :: "string option"
  to_key :: "string option"
  from_dbid :: int
  to_dbid :: int
  cmd_flag :: cmd_flag
  held :: "string multiset"
  held_vals :: int
  slotsmgrt_cached_ctx_connects :: bool

text \<open>The state of the loaded library: the static arrays are zero.\<close>

definition slots_boot :: slots_state where
  "slots_boot = \<lparr>crc32tab = crc32tab_static,
     g_slots_meta_info = \<lparr>hash_slots_size = 0, databases = 0, activerehashing = False, async = False,
       async_cpulist = None, cronloops = 0, slots_dump_threads = 0, slots_mgrt_threads = 0,
       slots_restore_threads = 0\<rparr>,
     db_slot_infos = None, resize_db = 0, resize_db_slot = 0, rehash_db = 0,
     from_key = None, to_key = None, from_dbid = 0, to_dbid = 0, cmd_flag = CMD_NONE,
     held = {#}, held_vals = 0, slotsmgrt_cached_ctx_connects = False\<rparr>"

text \<open>\<open>dict_can_resize\<close> is 1 and nothing in the module changes it.\<close>

definition dict_can_resize :: bool where "dict_can_resize = True"

abbreviation slots_size :: "slots_state \<Rightarrow> nat" where
  "slots_size s \<equiv> unat (hash_slots_size (g_slots_meta_info s))"

abbreviation num_dbs :: "slots_state \<Rightarrow> int" where
  "num_dbs s \<equiv> databases (g_slots_meta_info s)"

text \<open>Access to the arrays, with the C index of type \<open>int\<close>.\<close>

definition get_db :: "slots_state \<Rightarrow> int \<Rightarrow> db_slot_info option" where
  "get_db s db = do { dbs \<leftarrow> db_slot_infos s; arr_get_int dbs db }"

definition set_db :: "slots_state \<Rightarrow> int \<Rightarrow> db_slot_info \<Rightarrow> slots_state option" where
  "set_db s db dbi = do {
     dbs \<leftarrow> db_slot_infos s;
     dbs \<leftarrow> arr_set_int dbs db dbi;
     Some (s\<lparr>db_slot_infos := Some dbs\<rparr>)
   }"

definition get_table :: "slots_state \<Rightarrow> int \<Rightarrow> int \<Rightarrow> (string, int) dict option" where
  "get_table s db slot = do { dbi \<leftarrow> get_db s db; arr_get_int (slotkey_tables dbi) slot }"

definition set_table :: "slots_state \<Rightarrow> int \<Rightarrow> int \<Rightarrow> (string, int) dict \<Rightarrow> slots_state option" where
  "set_table s db slot t = do {
     dbi \<leftarrow> get_db s db;
     ts \<leftarrow> arr_set_int (slotkey_tables dbi) slot t;
     set_db s db (dbi\<lparr>slotkey_tables := ts\<rparr>)
   }"

definition set_tagged :: "slots_state \<Rightarrow> int \<Rightarrow> string zskiplist \<Rightarrow> slots_state option" where
  "set_tagged s db z = do { dbi \<leftarrow> get_db s db; set_db s db (dbi\<lparr>tagged_key_list := z\<rparr>) }"

section \<open>References\<close>

definition takeAndRef :: "slots_state \<Rightarrow> string \<Rightarrow> slots_state" where
  "takeAndRef s key = s\<lparr>held := held s + {#key#}\<rparr>"

definition free_strings :: "slots_state \<Rightarrow> string list \<Rightarrow> slots_state" where
  "free_strings s ks = s\<lparr>held := held s - mset ks\<rparr>"

definition dictModuleKeyDestructor :: "slots_state \<Rightarrow> (string, int) dictEntry \<Rightarrow> slots_state" where
  "dictModuleKeyDestructor s e = free_strings s [fst e]"

definition dictModuleValueDestructor :: "slots_state \<Rightarrow> (string, int) dictEntry \<Rightarrow> slots_state" where
  "dictModuleValueDestructor s e = (if snd e \<noteq> None then s\<lparr>held_vals := held_vals s - 1\<rparr> else s)"

text \<open>\<open>dictFreeKey\<close> and \<open>dictFreeVal\<close> on every entry an operation frees.\<close>

definition free_entries :: "slots_state \<Rightarrow> (string, int) dictEntry list \<Rightarrow> slots_state" where
  "free_entries s es =
     fold (\<lambda>e s. dictModuleValueDestructor (dictModuleKeyDestructor s e) e) es s"

section \<open>Slots_Init and Slots_Free\<close>

text \<open>Only the pool of the sending threads is configured; the two others keep their size 0.\<close>

definition new_db :: "nat \<Rightarrow> db_slot_info" where
  "new_db sz = \<lparr>slotkey_table_rehashing = 0, slotkey_tables = replicate sz m_dictCreate,
     tagged_key_list = m_zslCreate\<rparr>"

definition Slots_Init ::
  "slots_state \<Rightarrow> u32 \<Rightarrow> int \<Rightarrow> int \<Rightarrow> bool \<Rightarrow> bool \<Rightarrow> string option \<Rightarrow> slots_state" where
  "Slots_Init s sz dbs num_threads rehashing asynchronous cpulist =
     s\<lparr>crc32tab := crc32_init,
       g_slots_meta_info := (g_slots_meta_info s)\<lparr>hash_slots_size := sz, databases := dbs,
         async := asynchronous, async_cpulist := cpulist, activerehashing := rehashing, cronloops := 0,
         slots_mgrt_threads := num_threads\<rparr>,
       db_slot_infos := Some (replicate (nat dbs) (new_db (unat sz))),
       slotsmgrt_cached_ctx_connects := True\<rparr>"

text \<open>The inner loop releases one table after the other; the pointers inside a database are
  not null as long as the array of databases exists.\<close>

definition free_slot :: "nat \<Rightarrow> nat \<Rightarrow> slots_state \<Rightarrow> slots_state option" where
  "free_slot db slot s = do {
     t \<leftarrow> get_table s (int db) (int slot);
     freed \<leftarrow> m_dictRelease t;
     Some (free_entries s freed)
   }"

definition free_db :: "nat \<Rightarrow> slots_state \<Rightarrow> slots_state option" where
  "free_db db s = do {
     s \<leftarrow> for_range 0 (slots_size s) (free_slot db) s;
     dbi \<leftarrow> get_db s (int db);
     (ms, hp) \<leftarrow> m_zslFree (tagged_key_list dbi);
     Some (free_strings s ms)
   }"

definition Slots_Free :: "slots_state \<Rightarrow> slots_state option" where
  "Slots_Free s = do {
     s \<leftarrow> (if db_slot_infos s = None then Some s
          else do {
            s \<leftarrow> for_range 0 (nat (num_dbs s)) free_db s;
            Some (s\<lparr>db_slot_infos := None\<rparr>)
          });
     Some (if slotsmgrt_cached_ctx_connects s then s\<lparr>slotsmgrt_cached_ctx_connects := False\<rparr> else s)
   }"

section \<open>Slots_Add and Slots_Del\<close>

definition Slots_Add ::
  "(string \<Rightarrow> string \<Rightarrow> int) \<Rightarrow> nat list \<Rightarrow> slots_state \<Rightarrow> int \<Rightarrow> string \<Rightarrow> slots_state option" where
  "Slots_Add cmp draws s db key = do {
     let n = slots_num (crc32tab s) (hash_slots_size (g_slots_meta_info s)) key;
     let s = s\<lparr>held_vals := held_vals s + 1\<rparr>;
     let s = takeAndRef s key;
     t \<leftarrow> get_table s db (sn_slot n);
     (r, t) \<leftarrow> m_dictAdd hashSlotDictType dict_can_resize t key (uint (sn_crc n));
     s \<leftarrow> set_table s db (sn_slot n) t;
     if r \<noteq> DICT_OK then Some s
     else if sn_hastag n then do {
       dbi \<leftarrow> get_db s db;
       (a, draws, z) \<leftarrow> m_zslInsert cmp draws (tagged_key_list dbi) (uint (sn_crc n)) key;
       set_tagged (takeAndRef s key) db z
     }
     else Some s
   }"

definition Slots_Del ::
  "(string \<Rightarrow> string \<Rightarrow> int) \<Rightarrow> slots_state \<Rightarrow> int \<Rightarrow> string \<Rightarrow> slots_state option" where
  "Slots_Del cmp s db key = do {
     let n = slots_num (crc32tab s) (hash_slots_size (g_slots_meta_info s)) key;
     t \<leftarrow> get_table s db (sn_slot n);
     (r, freed, t) \<leftarrow> m_dictDelete hashSlotDictType t key;
     s \<leftarrow> set_table s db (sn_slot n) t;
     let s = free_entries s freed;
     if r \<noteq> DICT_OK then Some s
     else if sn_hastag n then do {
       dbi \<leftarrow> get_db s db;
       (found, ms, z) \<leftarrow> m_zslDelete cmp (tagged_key_list dbi) (uint (sn_crc n)) key;
       set_tagged (free_strings s ms) db z
     }
     else Some s
   }"

section \<open>The keyspace notifications\<close>

definition NotifyTypeChangeCallback ::
  "(string \<Rightarrow> string \<Rightarrow> int) \<Rightarrow> nat list \<Rightarrow> slots_state \<Rightarrow> int \<Rightarrow> string \<Rightarrow> slots_state option" where
  "NotifyTypeChangeCallback cmp draws s db key = Slots_Add cmp draws s db key"

text \<open>\<open>NotifyGenericCallback\<close> asks for automatic memory: when it returns, its context gives back
  the strings that were made in it, which is the value string of the one call of \<open>Slots_Add\<close>.\<close>

definition auto_release :: "nat \<Rightarrow> slots_state \<Rightarrow> slots_state" where
  "auto_release made s = s\<lparr>held_vals := held_vals s - int made\<rparr>"

text \<open>The chain of tests on the event name; the copies made of the keys are freed at the end
  and are not counted in \<open>held\<close>.\<close>

definition save_event :: "slots_state \<Rightarrow> int \<Rightarrow> string \<Rightarrow> string \<Rightarrow> slots_state" where
  "save_event s dbid event key =
     (if event = ''rename_from'' then s\<lparr>from_key := Some key\<rparr>
      else if event = ''rename_to'' then s\<lparr>to_key := Some key, cmd_flag := CMD_RENAME\<rparr>
      else if event = ''move_from'' then s\<lparr>from_dbid := dbid\<rparr>
      else if event = ''move_to'' then s\<lparr>to_dbid := dbid, cmd_flag := CMD_MOVE\<rparr>
      else s)"

definition NotifyGenericCallback ::
  "(string \<Rightarrow> string \<Rightarrow> int) \<Rightarrow> nat list \<Rightarrow> slots_state \<Rightarrow> int \<Rightarrow> string \<Rightarrow> string \<Rightarrow> slots_state option" where
  "NotifyGenericCallback cmp draws s dbid event key =
     (if event = ''del'' \<or> event = ''expired'' then Slots_Del cmp s dbid key
      else
        let s = save_event s dbid event key in
        if cmd_flag s = CMD_NONE then Some s
        else do {
          let (local_from_key, local_to_key, local_from_dbid, local_to_dbid) =
            (if cmd_flag s = CMD_RENAME then (from_key s, to_key s, dbid, dbid)
             else (Some key, Some key, from_dbid s, to_dbid s));
          from_k \<leftarrow> local_from_key;
          s \<leftarrow> Slots_Del cmp s local_from_dbid from_k;
          to_k \<leftarrow> local_to_key;
          s \<leftarrow> Slots_Add cmp draws s local_to_dbid to_k;
          let s = (if cmd_flag s = CMD_RENAME then s\<lparr>to_key := None, from_key := None\<rparr> else s);
          Some (auto_release 1 (s\<lparr>cmd_flag := CMD_NONE\<rparr>))
        })"

section \<open>Flushing\<close>

definition flush_slot :: "int \<Rightarrow> nat \<Rightarrow> slots_state \<Rightarrow> slots_state option" where
  "flush_slot db slot s = do {
     t \<leftarrow> get_table s db (int slot);
     if dictSize t = 0 then Some s
     else do {
       (freed, t) \<leftarrow> m_dictEmpty t;
       set_table (free_entries s freed) db (int slot) t
     }
   }"

definition flush_db :: "int \<Rightarrow> slots_state \<Rightarrow> slots_state option" where
  "flush_db db s = do {
     s \<leftarrow> for_range 0 (slots_size s) (flush_slot db) s;
     dbi \<leftarrow> get_db s db;
     if zs_length (tagged_key_list dbi) \<noteq> 0
     then do {
       (ms, hp) \<leftarrow> m_zslFree (tagged_key_list dbi);
       set_tagged (free_strings s ms) db m_zslCreate
     }
     else Some s
   }"

text \<open>\<open>start\<close> says that the sub-event is \<open>REDISMODULE_SUBEVENT_FLUSHDB_START\<close>.\<close>

definition FlushdbCallback :: "slots_state \<Rightarrow> bool \<Rightarrow> int \<Rightarrow> slots_state option" where
  "FlushdbCallback s start dbnum =
     (if \<not> start then Some s
      else if dbnum \<noteq> - 1 then flush_db dbnum s
      else for_range 0 (nat (num_dbs s)) (\<lambda>db. flush_db (int db)) s)"

definition ShutdownCallback :: "slots_state \<Rightarrow> slots_state option" where
  "ShutdownCallback s = Slots_Free s"

section \<open>The cron job\<close>

definition CRON_DBS_PER_CALL :: int where "CRON_DBS_PER_CALL = 16"

definition CRON_DB_SLOTS_PER_CALL :: int where "CRON_DB_SLOTS_PER_CALL = 1024"

definition tryResizeDbSlotHashTables :: "slots_state \<Rightarrow> int \<Rightarrow> int \<Rightarrow> slots_state option" where
  "tryResizeDbSlotHashTables s dbid slot = do {
     t \<leftarrow> get_table s dbid slot;
     if htNeedsResize t
     then do { (st, t) \<leftarrow> m_dictResize dict_can_resize t; set_table s dbid slot t }
     else Some s
   }"

definition incrementallyDbSlotRehash ::
  "(nat \<Rightarrow> int) \<Rightarrow> slots_state \<Rightarrow> int \<Rightarrow> int \<Rightarrow> (bool \<times> slots_state) option" where
  "incrementallyDbSlotRehash clock s dbid slot = do {
     t \<leftarrow> get_table s dbid slot;
     if dictIsRehashing t
     then do {
       (r, t) \<leftarrow> m_dictRehashMilliseconds hashSlotDictType clock t 1;
       s \<leftarrow> set_table s dbid slot t;
       Some (True, s)
     }
     else Some (False, s)
   }"

text \<open>The static counters are \<open>unsigned int\<close>.\<close>

definition next_counter :: "nat \<Rightarrow> nat \<Rightarrow> nat" where
  "next_counter x n = ((x + 1) mod 2 ^ 32) mod n"

definition resize_slot_step :: "nat \<Rightarrow> slots_state \<Rightarrow> slots_state option" where
  "resize_slot_step slot s = do {
     s \<leftarrow> tryResizeDbSlotHashTables s (int (resize_db s)) (int (resize_db_slot s));
     Some (s\<lparr>resize_db_slot := next_counter (resize_db_slot s) (slots_size s)\<rparr>)
   }"

definition resize_db_step :: "nat \<Rightarrow> nat \<Rightarrow> slots_state \<Rightarrow> slots_state option" where
  "resize_db_step db_slots_per_call db s = do {
     s \<leftarrow> for_range 0 db_slots_per_call resize_slot_step s;
     Some (s\<lparr>resize_db := next_counter (resize_db s) (nat (num_dbs s))\<rparr>)
   }"

definition rehash_slot_step :: "(nat \<Rightarrow> int) \<Rightarrow> nat \<Rightarrow> slots_state \<Rightarrow> (bool \<times> slots_state) option" where
  "rehash_slot_step clock slot s = do {
     (work_done, s) \<leftarrow> incrementallyDbSlotRehash clock s (int (rehash_db s)) (int slot);
     if work_done then Some (True, s)
     else Some (False, s\<lparr>rehash_db := next_counter (rehash_db s) (nat (num_dbs s))\<rparr>)
   }"

definition dbSlotCron :: "(nat \<Rightarrow> int) \<Rightarrow> bool \<Rightarrow> slots_state \<Rightarrow> slots_state option" where
  "dbSlotCron clock active_child s = do {
     let dbs_per_call = (if CRON_DBS_PER_CALL > num_dbs s then num_dbs s else CRON_DBS_PER_CALL);
     let db_slots_per_call =
       (if CRON_DB_SLOTS_PER_CALL > int (slots_size s) then int (slots_size s) else CRON_DB_SLOTS_PER_CALL);
     s \<leftarrow> for_range 0 (nat dbs_per_call) (resize_db_step (nat db_slots_per_call)) s;
     if \<not> activerehashing (g_slots_meta_info s) \<or> active_child then Some s
     else do {
       (left, s) \<leftarrow> for_until 0 (nat (num_dbs s))
         (\<lambda>db. for_until 0 (slots_size s) (rehash_slot_step clock)) s;
       Some s
     }
   }"

text \<open>\<open>run_with_period(ms, hz)\<close>; a division by zero is \<open>None\<close>.\<close>

definition run_with_period :: "slots_state \<Rightarrow> int \<Rightarrow> int \<Rightarrow> bool option" where
  "run_with_period s ms hz = do {
     c_assert (hz \<noteq> 0);
     let tick = 1000 div hz;
     if ms \<le> tick then Some True
     else do {
       c_assert (tick \<noteq> 0 \<and> ms div tick \<noteq> 0);
       Some (cronloops (g_slots_meta_info s) mod (ms div tick) = 0)
     }
   }"

text \<open>The result also says whether the timed-out connections are closed in this call. The
  counter is an \<open>int\<close>.\<close>

definition CronLoopCallback ::
  "(nat \<Rightarrow> int) \<Rightarrow> bool \<Rightarrow> int \<Rightarrow> slots_state \<Rightarrow> (bool \<times> slots_state) option" where
  "CronLoopCallback clock active_child hz s = do {
     s \<leftarrow> dbSlotCron clock active_child s;
     close \<leftarrow> run_with_period s 1000 hz;
     c_assert (cronloops (g_slots_meta_info s) < INT_MAX);
     Some (close, s\<lparr>g_slots_meta_info :=
       (g_slots_meta_info s)\<lparr>cronloops := cronloops (g_slots_meta_info s) + 1\<rparr>\<rparr>)
   }"

end
