(* ===== verification/SlotIndexInv.thy ===== *)
theory SlotIndexInv
  imports SlotIndex
begin

text \<open>
  The invariant of the slot index and the set of keys it stands for: every key of a database
  is in the table of its slot, with its checksum as value, and the skip list holds exactly the
  tagged keys. Every handler keeps it and changes the set of keys as its event asks.
\<close>

section \<open>One database\<close>

definition db_keys :: "db_slot_info \<Rightarrow> string set" where
  "db_keys dbi = (\<Union>t\<in>set (slotkey_tables dbi). dom (dict_map t))"

definition table_content_ok :: "(string \<Rightarrow> slot_num) \<Rightarrow> nat \<Rightarrow> (string, int) dict \<Rightarrow> bool" where
  "table_content_ok num i t \<longleftrightarrow> dict_inv hashSlotDictType t \<and>
     (\<forall>k v. dict_map t k = Some v \<longrightarrow> sn_slot (num k) = int i \<and> v = Some (uint (sn_crc (num k))))"

definition db_tables_ok :: "(string \<Rightarrow> slot_num) \<Rightarrow> nat \<Rightarrow> db_slot_info \<Rightarrow> bool" where
  "db_tables_ok num sz dbi \<longleftrightarrow> length (slotkey_tables dbi) = sz \<and>
     (\<forall>i < sz. table_content_ok num i (slotkey_tables dbi ! i))"

definition tag_entry :: "(string \<Rightarrow> slot_num) \<Rightarrow> string \<Rightarrow> string entry" where
  "tag_entry num k = (uint (sn_crc (num k)), k)"

definition tagged_entries :: "(string \<Rightarrow> slot_num) \<Rightarrow> string set \<Rightarrow> string entry set" where
  "tagged_entries num K = tag_entry num ` {k \<in> K. sn_hastag (num k)}"

definition db_list_ok :: "(string \<Rightarrow> string \<Rightarrow> int) \<Rightarrow> (string \<Rightarrow> slot_num) \<Rightarrow> db_slot_info \<Rightarrow> bool" where
  "db_list_ok cmp num dbi \<longleftrightarrow>
     (\<exists>es. zsl_list cmp (tagged_key_list dbi) es \<and> set es = tagged_entries num (db_keys dbi))"

definition db_ok :: "(string \<Rightarrow> string \<Rightarrow> int) \<Rightarrow> (string \<Rightarrow> slot_num) \<Rightarrow> nat \<Rightarrow> db_slot_info \<Rightarrow> bool" where
  "db_ok cmp num sz dbi \<longleftrightarrow> db_tables_ok num sz dbi \<and> db_list_ok cmp num dbi"

lemma finite_dict_map: "finite (dom (dict_map d))"
  by (simp add: dict_map_def finite_dom_map_of)

lemma finite_db_keys: "finite (db_keys dbi)"
  by (simp add: db_keys_def finite_dict_map)

lemma dictSize_card:
  assumes "dict_inv ty d"
  shows "dictSize d = card (dom (dict_map d))"
proof -
  have "distinct (map fst (dict_entries d))" using assms by (simp add: dict_inv_def)
  then have "card (fst ` set (dict_entries d)) = length (dict_entries d)"
    by (metis distinct_card length_map set_map)
  then show ?thesis by (simp add: dict_size_entries [OF assms] dict_map_def dom_map_of_conv_image_fst)
qed

lemma db_keysE:
  assumes "k \<in> db_keys dbi" "length (slotkey_tables dbi) = sz"
  obtains j where "j < sz" "k \<in> dom (dict_map (slotkey_tables dbi ! j))"
proof -
  obtain t where "t \<in> set (slotkey_tables dbi)" "k \<in> dom (dict_map t)" using assms(1) unfolding db_keys_def by blast
  with assms(2) show thesis using that by (metis in_set_conv_nth)
qed

lemma table_keys:
  assumes "db_tables_ok num sz dbi" "i < sz"
  shows "dom (dict_map (slotkey_tables dbi ! i)) = {k \<in> db_keys dbi. sn_slot (num k) = int i}"
proof (intro equalityI subsetI)
  fix k assume k: "k \<in> dom (dict_map (slotkey_tables dbi ! i))"
  have "slotkey_tables dbi ! i \<in> set (slotkey_tables dbi)" using assms by (simp add: db_tables_ok_def)
  then show "k \<in> {k \<in> db_keys dbi. sn_slot (num k) = int i}"
    using k assms by (auto simp: db_keys_def db_tables_ok_def table_content_ok_def)
next
  fix k assume k: "k \<in> {k \<in> db_keys dbi. sn_slot (num k) = int i}"
  then have kk: "k \<in> db_keys dbi" "sn_slot (num k) = int i" by simp_all
  have len: "length (slotkey_tables dbi) = sz" using assms(1) by (simp add: db_tables_ok_def)
  obtain j where j: "j < sz" "k \<in> dom (dict_map (slotkey_tables dbi ! j))" using kk(1) len by (rule db_keysE)
  then have "sn_slot (num k) = int j" using assms(1) by (auto simp: db_tables_ok_def table_content_ok_def)
  with j kk(2) show "k \<in> dom (dict_map (slotkey_tables dbi ! i))" by simp
qed

lemma table_size_le:
  assumes "db_tables_ok num sz dbi" "i < sz"
  shows "dictSize (slotkey_tables dbi ! i) \<le> card (db_keys dbi)"
proof -
  have "dict_inv hashSlotDictType (slotkey_tables dbi ! i)"
    using assms by (simp add: db_tables_ok_def table_content_ok_def)
  then have "dictSize (slotkey_tables dbi ! i) = card {k \<in> db_keys dbi. sn_slot (num k) = int i}"
    by (simp add: dictSize_card table_keys [OF assms])
  also have "\<dots> \<le> card (db_keys dbi)" by (rule card_mono) (auto simp: finite_db_keys)
  finally show ?thesis .
qed

text \<open>Replacing the table of one slot.\<close>

lemma db_keys_update:
  assumes t: "db_tables_ok num sz dbi" and i: "i < sz"
  shows "db_keys (dbi\<lparr>slotkey_tables := (slotkey_tables dbi)[i := t']\<rparr>) =
    {k \<in> db_keys dbi. sn_slot (num k) \<noteq> int i} \<union> dom (dict_map t')"
proof -
  let ?ts = "slotkey_tables dbi"
  have len: "length ?ts = sz" using t by (simp add: db_tables_ok_def)
  have "{k \<in> db_keys dbi. sn_slot (num k) \<noteq> int i} = (\<Union>j\<in>{..<sz} - {i}. dom (dict_map (?ts ! j)))"
  proof (intro equalityI subsetI)
    fix k assume "k \<in> {k \<in> db_keys dbi. sn_slot (num k) \<noteq> int i}"
    then have kk: "k \<in> db_keys dbi" "sn_slot (num k) \<noteq> int i" by simp_all
    obtain j where "j < sz" "k \<in> dom (dict_map (?ts ! j))" using kk(1) len by (rule db_keysE)
    moreover from this have "sn_slot (num k) = int j" using table_keys [OF t] by blast
    ultimately show "k \<in> (\<Union>j\<in>{..<sz} - {i}. dom (dict_map (?ts ! j)))" using kk(2) by auto
  next
    fix k assume "k \<in> (\<Union>j\<in>{..<sz} - {i}. dom (dict_map (?ts ! j)))"
    then obtain j where j: "j < sz" "j \<noteq> i" "k \<in> dom (dict_map (?ts ! j))" by auto
    then have "k \<in> db_keys dbi \<and> sn_slot (num k) = int j" using table_keys [OF t j(1)] by blast
    with j show "k \<in> {k \<in> db_keys dbi. sn_slot (num k) \<noteq> int i}" by simp
  qed
  moreover have "db_keys (dbi\<lparr>slotkey_tables := ?ts[i := t']\<rparr>) =
      (\<Union>j\<in>{..<sz} - {i}. dom (dict_map (?ts ! j))) \<union> dom (dict_map t')"
  proof -
    have "set (?ts[i := t']) = insert t' ((!) ?ts ` ({..<sz} - {i}))"
    proof (intro equalityI subsetI)
      fix x assume "x \<in> set (?ts[i := t'])"
      then obtain j where "j < sz" "x = ?ts[i := t'] ! j" using len by (auto simp: in_set_conv_nth)
      then show "x \<in> insert t' ((!) ?ts ` ({..<sz} - {i}))" by (cases "j = i") (auto simp: len i)
    next
      fix x assume "x \<in> insert t' ((!) ?ts ` ({..<sz} - {i}))"
      then show "x \<in> set (?ts[i := t'])"
      proof
        assume "x = t'"
        then show ?thesis using i len by (simp add: set_update_memI)
      next
        assume "x \<in> (!) ?ts ` ({..<sz} - {i})"
        then obtain j where "j < sz" "j \<noteq> i" "x = ?ts ! j" by auto
        then have "x = ?ts[i := t'] ! j" "j < length (?ts[i := t'])" using len by simp_all
        then show ?thesis by (metis nth_mem)
      qed
    qed
    then show ?thesis by (auto simp: db_keys_def)
  qed
  ultimately show ?thesis by simp
qed

lemma db_tables_update:
  assumes t: "db_tables_ok num sz dbi" and i: "i < sz" and c: "table_content_ok num i t'"
  shows "db_tables_ok num sz (dbi\<lparr>slotkey_tables := (slotkey_tables dbi)[i := t']\<rparr>)"
  using assms by (auto simp: db_tables_ok_def nth_list_update)

text \<open>A table whose content stays the same, after a rehashing step or a resize.\<close>

lemma db_ok_same_table:
  assumes d: "db_ok cmp num sz dbi" and i: "i < sz" and inv: "dict_inv hashSlotDictType t'"
    and same: "dict_map t' = dict_map (slotkey_tables dbi ! i)"
  shows "db_ok cmp num sz (dbi\<lparr>slotkey_tables := (slotkey_tables dbi)[i := t']\<rparr>)"
    and "db_keys (dbi\<lparr>slotkey_tables := (slotkey_tables dbi)[i := t']\<rparr>) = db_keys dbi"
proof -
  have t: "db_tables_ok num sz dbi" using d by (simp add: db_ok_def)
  have c: "table_content_ok num i t'"
    using t i inv same by (simp add: table_content_ok_def db_tables_ok_def)
  show keys: "db_keys (dbi\<lparr>slotkey_tables := (slotkey_tables dbi)[i := t']\<rparr>) = db_keys dbi"
    using db_keys_update [OF t i, of t'] table_keys [OF t i] same by auto
  show "db_ok cmp num sz (dbi\<lparr>slotkey_tables := (slotkey_tables dbi)[i := t']\<rparr>)"
    using db_tables_update [OF t i c] d keys by (simp add: db_ok_def db_list_ok_def)
qed

lemma tag_entry_inj: "tag_entry num k = tag_entry num k' \<longleftrightarrow> k = k'"
  by (auto simp: tag_entry_def)

lemma card_tagged: "finite K \<Longrightarrow> card (tagged_entries num K) \<le> card K"
  unfolding tagged_entries_def
  by (rule order_trans [OF card_image_le]) (auto intro: card_mono)

section \<open>The whole index\<close>

abbreviation key_num :: "slots_state \<Rightarrow> string \<Rightarrow> slot_num" where
  "key_num s \<equiv> slots_num (crc32tab s) (hash_slots_size (g_slots_meta_info s))"

definition slots_inv :: "(string \<Rightarrow> string \<Rightarrow> int) \<Rightarrow> slots_state \<Rightarrow> bool" where
  "slots_inv cmp s \<longleftrightarrow> slots_size s \<noteq> 0 \<and>
     (\<exists>dbs. db_slot_infos s = Some dbs \<and> int (length dbs) = num_dbs s \<and>
        (\<forall>dbi\<in>set dbs. db_ok cmp (key_num s) (slots_size s) dbi)) \<and>
     resize_db_slot s < slots_size s \<and>
     (num_dbs s = 0 \<or> int (resize_db s) < num_dbs s \<and> int (rehash_db s) < num_dbs s)"

definition index :: "slots_state \<Rightarrow> int \<Rightarrow> string set" where
  "index s db = (case get_db s db of None \<Rightarrow> {} | Some dbi \<Rightarrow> db_keys dbi)"

text \<open>What the operations on keys leave alone.\<close>

definition same_frame :: "slots_state \<Rightarrow> slots_state \<Rightarrow> bool" where
  "same_frame s s' \<longleftrightarrow>
     crc32tab s' = crc32tab s \<and> g_slots_meta_info s' = g_slots_meta_info s \<and>
     from_key s' = from_key s \<and> to_key s' = to_key s \<and> from_dbid s' = from_dbid s \<and> to_dbid s' = to_dbid s \<and>
     cmd_flag s' = cmd_flag s \<and> resize_db s' = resize_db s \<and> resize_db_slot s' = resize_db_slot s \<and>
     rehash_db s' = rehash_db s \<and> slotsmgrt_cached_ctx_connects s' = slotsmgrt_cached_ctx_connects s"

lemma same_frame_refl: "same_frame s s"
  by (simp add: same_frame_def)

lemma same_frame_trans: "same_frame s s' \<Longrightarrow> same_frame s' s'' \<Longrightarrow> same_frame s s''"
  by (simp add: same_frame_def)

lemma db_range:
  assumes "slots_inv cmp s" "0 \<le> db" "db < num_dbs s"
  obtains dbs dbi where "db_slot_infos s = Some dbs" "nat db < length dbs" "dbs ! nat db = dbi"
    "get_db s db = Some dbi" "db_ok cmp (key_num s) (slots_size s) dbi"
proof -
  obtain dbs where dbs: "db_slot_infos s = Some dbs" "int (length dbs) = num_dbs s"
    "\<forall>dbi\<in>set dbs. db_ok cmp (key_num s) (slots_size s) dbi"
    using assms(1) by (auto simp: slots_inv_def)
  have l: "nat db < length dbs" using dbs(2) assms(2,3) by linarith
  then have "get_db s db = Some (dbs ! nat db)" using dbs(1) assms(2) by (simp add: get_db_def arr_simps)
  with dbs l show thesis using that by simp
qed

text \<open>Writing a database back.\<close>

lemma set_db_eq:
  assumes "db_slot_infos s = Some dbs" "0 \<le> db" "nat db < length dbs"
  shows "set_db s db dbi = Some (s\<lparr>db_slot_infos := Some (dbs[nat db := dbi])\<rparr>)"
  using assms by (simp add: set_db_def arr_set_int_def arr_simps)

lemma write_db:
  assumes s: "slots_inv cmp s" and dbs: "db_slot_infos s = Some dbs" "0 \<le> db" "nat db < length dbs"
    and ok: "db_ok cmp (key_num s) (slots_size s) dbi"
  shows "slots_inv cmp (s\<lparr>db_slot_infos := Some (dbs[nat db := dbi])\<rparr>)"
    and "index (s\<lparr>db_slot_infos := Some (dbs[nat db := dbi])\<rparr>) = (index s)(db := db_keys dbi)"
proof -
  show "slots_inv cmp (s\<lparr>db_slot_infos := Some (dbs[nat db := dbi])\<rparr>)"
    using s dbs ok by (auto simp: slots_inv_def dest: set_update_subset_insert [THEN subsetD])
  show "index (s\<lparr>db_slot_infos := Some (dbs[nat db := dbi])\<rparr>) = (index s)(db := db_keys dbi)"
    using dbs by (auto simp: index_def get_db_def arr_get_int_def arr_get_def fun_eq_iff)
qed

lemma held_irrelevant [simp]:
  "slots_inv cmp (s\<lparr>held := h\<rparr>) = slots_inv cmp s" "slots_inv cmp (s\<lparr>held_vals := v\<rparr>) = slots_inv cmp s"
  "slots_inv cmp (s\<lparr>slotsmgrt_cached_ctx_connects := b\<rparr>) = slots_inv cmp s"
  "index (s\<lparr>held := h\<rparr>) = index s" "index (s\<lparr>held_vals := v\<rparr>) = index s"
  "index (s\<lparr>slotsmgrt_cached_ctx_connects := b\<rparr>) = index s"
  by (simp_all add: slots_inv_def index_def get_db_def fun_eq_iff)

lemma free_entries_eq:
  "free_entries s es = s\<lparr>held := held s - mset (map fst es),
     held_vals := held_vals s - int (length (filter (\<lambda>e. snd e \<noteq> None) es))\<rparr>"
proof (induction es arbitrary: s)
  case Nil
  show ?case by (simp add: free_entries_def)
next
  case (Cons e es)
  have "free_entries s (e # es) =
      free_entries (dictModuleValueDestructor (dictModuleKeyDestructor s e) e) es"
    by (simp add: free_entries_def)
  then show ?case
    by (simp add: Cons.IH dictModuleValueDestructor_def dictModuleKeyDestructor_def free_strings_def)
qed

lemma free_entries_frame: "\<exists>h v. free_entries s es = s\<lparr>held := h, held_vals := v\<rparr>"
  using free_entries_eq by blast

lemma slot_in_range:
  assumes "slots_inv cmp s"
  shows "0 \<le> sn_slot (key_num s k)" "nat (sn_slot (key_num s k)) < slots_size s"
    "sn_slot (key_num s k) = int (nat (sn_slot (key_num s k)))"
proof -
  let ?sz = "hash_slots_size (g_slots_meta_info s)"
  have sz: "?sz \<noteq> 0" using assms by (auto simp: slots_inv_def)
  have e: "sn_slot (key_num s k) = uint (crc32_checksum (crc32tab s) (hash_bytes k) AND (?sz - 1))"
    by (simp add: slots_num_eq)
  then show 1: "0 \<le> sn_slot (key_num s k)" by simp
  have "sn_slot (key_num s k) < uint ?sz" unfolding e by (rule word_and_minus_one_less [OF sz])
  then show "nat (sn_slot (key_num s k)) < slots_size s" using 1 by (simp add: unat_eq_nat_uint nat_less_eq_zless del: nat_uint_eq)
  show "sn_slot (key_num s k) = int (nat (sn_slot (key_num s k)))" using 1 by simp
qed

section \<open>Adding and removing a key in one database\<close>

lemma db_keys_member:
  assumes t: "db_tables_ok num sz dbi" and i: "i < sz" "sn_slot (num key) = int i"
  shows "key \<in> db_keys dbi \<longleftrightarrow> dict_map (slotkey_tables dbi ! i) key \<noteq> None"
  using table_keys [OF t i(1)] i(2) by blast

lemma db_keys_tagged [simp]: "db_keys (dbi\<lparr>tagged_key_list := z\<rparr>) = db_keys dbi"
  by (simp add: db_keys_def)

lemma db_tables_tagged [simp]: "db_tables_ok num sz (dbi\<lparr>tagged_key_list := z\<rparr>) = db_tables_ok num sz dbi"
  by (simp add: db_tables_ok_def)

lemma db_add:
  assumes d: "db_ok cmp num sz dbi" and i: "i < sz" "sn_slot (num key) = int i"
    and t': "dict_inv hashSlotDictType t'"
      "dict_map t' = (dict_map (slotkey_tables dbi ! i))(key \<mapsto> Some (uint (sn_crc (num key))))"
  shows "db_tables_ok num sz (dbi\<lparr>slotkey_tables := (slotkey_tables dbi)[i := t']\<rparr>)"
    and "db_keys (dbi\<lparr>slotkey_tables := (slotkey_tables dbi)[i := t']\<rparr>) = insert key (db_keys dbi)"
proof -
  have t: "db_tables_ok num sz dbi" using d by (simp add: db_ok_def)
  then have "table_content_ok num i (slotkey_tables dbi ! i)" using i by (simp add: db_tables_ok_def)
  then have "table_content_ok num i t'" using t' i by (auto simp: table_content_ok_def)
  then show "db_tables_ok num sz (dbi\<lparr>slotkey_tables := (slotkey_tables dbi)[i := t']\<rparr>)"
    by (rule db_tables_update [OF t i(1)])
  have "dom (dict_map t') = insert key (dom (dict_map (slotkey_tables dbi ! i)))" using t'(2) by simp
  then show "db_keys (dbi\<lparr>slotkey_tables := (slotkey_tables dbi)[i := t']\<rparr>) = insert key (db_keys dbi)"
    using db_keys_update [OF t i(1), of t'] table_keys [OF t i(1)] by auto
qed

lemma db_del:
  assumes d: "db_ok cmp num sz dbi" and i: "i < sz" "sn_slot (num key) = int i"
    and t': "dict_inv hashSlotDictType t'"
      "dict_map t' = (dict_map (slotkey_tables dbi ! i))(key := None)"
  shows "db_tables_ok num sz (dbi\<lparr>slotkey_tables := (slotkey_tables dbi)[i := t']\<rparr>)"
    and "db_keys (dbi\<lparr>slotkey_tables := (slotkey_tables dbi)[i := t']\<rparr>) = db_keys dbi - {key}"
proof -
  have t: "db_tables_ok num sz dbi" using d by (simp add: db_ok_def)
  then have "table_content_ok num i (slotkey_tables dbi ! i)" using i by (simp add: db_tables_ok_def)
  then have "table_content_ok num i t'" using t' by (auto simp: table_content_ok_def)
  then show "db_tables_ok num sz (dbi\<lparr>slotkey_tables := (slotkey_tables dbi)[i := t']\<rparr>)"
    by (rule db_tables_update [OF t i(1)])
  have "dom (dict_map t') = dom (dict_map (slotkey_tables dbi ! i)) - {key}" using t'(2) by simp
  then show "db_keys (dbi\<lparr>slotkey_tables := (slotkey_tables dbi)[i := t']\<rparr>) = db_keys dbi - {key}"
    using db_keys_update [OF t i(1), of t'] table_keys [OF t i(1)] i(2) by auto
qed

lemma tagged_insert:
  "tagged_entries num (insert key K) =
    (if sn_hastag (num key) then insert (tag_entry num key) (tagged_entries num K) else tagged_entries num K)"
  by (auto simp: tagged_entries_def)

lemma tagged_remove:
  "tagged_entries num (K - {key}) = tagged_entries num K - {tag_entry num key}"
  by (auto simp: tagged_entries_def tag_entry_inj)

lemma tagged_member: "tag_entry num key \<in> tagged_entries num K \<longleftrightarrow> key \<in> K \<and> sn_hastag (num key)"
  by (auto simp: tagged_entries_def tag_entry_inj)

text \<open>The skip list of a database, through the contract of ordered entries.\<close>

lemma db_list_add:
  assumes c: "cmp_ok cmp" and l: "db_list_ok cmp num dbi" and new: "key \<notin> db_keys dbi"
    and tag: "sn_hastag (num key)" and len: "card (db_keys dbi) < 2 ^ 32 - 1" and u: "usable_draws draws"
  shows "\<exists>a rest z es. m_zslInsert cmp draws (tagged_key_list dbi) (uint (sn_crc (num key))) key = Some (a, rest, z) \<and>
    zsl_list cmp z es \<and> set es = tagged_entries num (insert key (db_keys dbi))"
proof -
  obtain es where es: "zsl_list cmp (tagged_key_list dbi) es" "set es = tagged_entries num (db_keys dbi)"
    using l by (auto simp: db_list_ok_def)
  then have h: "zsl_holds cmp (tagged_key_list dbi) es" using c by (simp add: zsl_holds_def)
  have "length es \<le> card (db_keys dbi)"
    using tagged_keys.holds_length [OF h] es(2) card_tagged [OF finite_db_keys] by simp
  then have "length es < 2 ^ 32 - 1" using len by simp
  moreover have "tag_entry num key \<notin> set es" using es(2) new by (simp add: tagged_member)
  ultimately obtain z es' where "zsl_put cmp draws (tagged_key_list dbi) (tag_entry num key) = Some z"
    "zsl_holds cmp z es'" "set es' = insert (tag_entry num key) (set es)"
    using tagged_keys.ins_law [OF h _ _ u] by blast
  then show ?thesis using es(2) tag
    by (fastforce simp: zsl_put_def tag_entry_def zsl_holds_def tagged_insert bind_eq_Some_conv)
qed

lemma db_list_del:
  assumes c: "cmp_ok cmp" and l: "db_list_ok cmp num dbi" and old: "key \<in> db_keys dbi"
    and tag: "sn_hastag (num key)" and len: "card (db_keys dbi) < 2 ^ 32 - 1"
  shows "\<exists>z es. m_zslDelete cmp (tagged_key_list dbi) (uint (sn_crc (num key))) key = Some (True, [key], z) \<and>
    zsl_list cmp z es \<and> set es = tagged_entries num (db_keys dbi - {key})"
proof -
  obtain es where es: "zsl_list cmp (tagged_key_list dbi) es" "set es = tagged_entries num (db_keys dbi)"
    using l by (auto simp: db_list_ok_def)
  then have h: "zsl_holds cmp (tagged_key_list dbi) es" using c by (simp add: zsl_holds_def)
  have "length es \<le> card (db_keys dbi)"
    using tagged_keys.holds_length [OF h] es(2) card_tagged [OF finite_db_keys] by simp
  then have len': "length es < 2 ^ 32 - 1" using len by simp
  have m: "tag_entry num key \<in> set es" using es(2) old tag by (simp add: tagged_member)
  have "distinct es" by (rule tagged_keys.holds_distinct [OF h])
  then have rm: "set (remove1 (tag_entry num key) es) = tagged_entries num (db_keys dbi - {key})"
    using es(2) by (simp add: tagged_remove)
  show ?thesis
    using zsl_list_delete [OF c es(1) len', of "uint (sn_crc (num key))" key] m rm
    unfolding tag_entry_def by auto
qed

section \<open>Slots_Add and Slots_Del\<close>

lemma get_table_eq:
  assumes "get_db s db = Some dbi" "i < length (slotkey_tables dbi)"
  shows "get_table s db (int i) = Some (slotkey_tables dbi ! i)"
  using assms by (simp add: get_table_def arr_get_int_def arr_simps)

lemma set_table_eq:
  assumes "db_slot_infos s = Some dbs" "0 \<le> db" "nat db < length dbs" "i < length (slotkey_tables (dbs ! nat db))"
  shows "set_table s db (int i) t = Some (s\<lparr>db_slot_infos :=
    Some (dbs[nat db := (dbs ! nat db)\<lparr>slotkey_tables := (slotkey_tables (dbs ! nat db))[i := t]\<rparr>])\<rparr>)"
  using assms by (simp add: set_table_def get_db_def set_db_def arr_get_int_def arr_set_int_def arr_simps)

lemma set_tagged_eq:
  assumes "db_slot_infos s = Some dbs" "0 \<le> db" "nat db < length dbs"
  shows "set_tagged s db z =
    Some (s\<lparr>db_slot_infos := Some (dbs[nat db := (dbs ! nat db)\<lparr>tagged_key_list := z\<rparr>])\<rparr>)"
  using assms by (simp add: set_tagged_def get_db_def set_db_def arr_get_int_def arr_set_int_def arr_simps)

lemma db_room:
  assumes "db_tables_ok num sz dbi" "i < sz" "card (db_keys dbi) < 2 ^ 32 - 1"
  shows "dict_room (slotkey_tables dbi ! i)"
  using table_size_le [OF assms(1,2)] assms(3) by (simp add: dict_room_def)

text \<open>The record of a database, the slot of a key and the table that holds the key.\<close>

lemma key_table:
  assumes s: "slots_inv cmp s" and db: "0 \<le> db" "db < num_dbs s"
  obtains dbs dbi i where "db_slot_infos s = Some dbs" "nat db < length dbs" "dbs ! nat db = dbi"
    "get_db s db = Some dbi" "db_ok cmp (key_num s) (slots_size s) dbi" "index s db = db_keys dbi"
    "i < slots_size s" "sn_slot (key_num s key) = int i" "i < length (slotkey_tables dbi)"
    "table_content_ok (key_num s) i (slotkey_tables dbi ! i)"
    "key \<in> index s db \<longleftrightarrow> dict_map (slotkey_tables dbi ! i) key \<noteq> None"
proof -
  obtain dbs dbi where d: "db_slot_infos s = Some dbs" "nat db < length dbs" "dbs ! nat db = dbi"
    "get_db s db = Some dbi" "db_ok cmp (key_num s) (slots_size s) dbi" by (rule db_range [OF s db])
  define i where "i = nat (sn_slot (key_num s key))"
  have i: "i < slots_size s" "sn_slot (key_num s key) = int i" using slot_in_range [OF s, of key] by (simp_all add: i_def)
  have t: "db_tables_ok (key_num s) (slots_size s) dbi" using d(5) by (simp add: db_ok_def)
  then have "i < length (slotkey_tables dbi)" "table_content_ok (key_num s) i (slotkey_tables dbi ! i)"
    using i(1) by (simp_all add: db_tables_ok_def)
  moreover have "index s db = db_keys dbi" using d(4) by (simp add: index_def)
  moreover have "key \<in> index s db \<longleftrightarrow> dict_map (slotkey_tables dbi ! i) key \<noteq> None"
    using db_keys_member [OF t i] \<open>index s db = db_keys dbi\<close> by simp
  ultimately show thesis using that d i by blast
qed

text \<open>What is left to show once an operation has stored the record of the database.\<close>

lemma db_stored:
  assumes s: "slots_inv cmp s" and d: "db_slot_infos s = Some dbs" "0 \<le> db" "nat db < length dbs"
    and ok: "db_ok cmp (key_num s) (slots_size s) dbi"
    and s': "s' = s\<lparr>db_slot_infos := Some (dbs[nat db := dbi]), held := h, held_vals := v\<rparr>"
  shows "slots_inv cmp s'" "same_frame s s'" "index s' = (index s)(db := db_keys dbi)" "held s' = h" "held_vals s' = v"
  using write_db [OF s d ok] unfolding s'
  by (simp_all add: slots_inv_def same_frame_def index_def get_db_def fun_eq_iff)

lemma Slots_Add_spec:
  assumes c: "cmp_ok cmp" and s: "slots_inv cmp s" and db: "0 \<le> db" "db < num_dbs s"
    and u: "usable_draws draws" and len: "card (index s db) < 2 ^ 32 - 1"
  shows "\<exists>s'. Slots_Add cmp draws s db key = Some s' \<and> slots_inv cmp s' \<and> same_frame s s' \<and>
    index s' = (index s)(db := insert key (index s db)) \<and>
    held s' = held s + (if key \<notin> index s db \<and> sn_hastag (key_num s key) then {#key, key#} else {#key#}) \<and>
    held_vals s' = held_vals s + 1"
proof -
  let ?n = "key_num s key"
  obtain dbs dbi i where d: "db_slot_infos s = Some dbs" "nat db < length dbs" "dbs ! nat db = dbi"
    "get_db s db = Some dbi" "db_ok cmp (key_num s) (slots_size s) dbi" and ix: "index s db = db_keys dbi"
    and i: "i < slots_size s" "sn_slot ?n = int i" and lt: "i < length (slotkey_tables dbi)"
    and tc: "table_content_ok (key_num s) i (slotkey_tables dbi ! i)"
    and mem0: "key \<in> index s db \<longleftrightarrow> dict_map (slotkey_tables dbi ! i) key \<noteq> None"
    by (rule key_table [OF s db])
  let ?t = "slotkey_tables dbi ! i"
  have inv: "dict_inv hashSlotDictType ?t" using tc by (simp add: table_content_ok_def)
  have room: "dict_room ?t" by (rule db_room [where num = "key_num s", OF _ i(1)]) (use d(5) len ix in \<open>simp_all add: db_ok_def\<close>)
  obtain st t' where a: "m_dictAdd hashSlotDictType dict_can_resize ?t key (uint (sn_crc ?n)) = Some (st, t')"
    "dict_inv hashSlotDictType t'"
    "if key \<in> dom (dict_map ?t) then st = DICT_ERR \<and> dict_map t' = dict_map ?t \<and> dictSize t' = dictSize ?t
     else st = DICT_OK \<and> dict_map t' = (dict_map ?t)(key \<mapsto> Some (uint (sn_crc ?n))) \<and>
       dictSize t' = Suc (dictSize ?t)"
    using m_dictAdd_spec [OF inv room type_ok_hashSlotDictType, of dict_can_resize key "uint (sn_crc ?n)"]
    by blast
  have mem: "key \<in> index s db \<longleftrightarrow> key \<in> dom (dict_map ?t)" using mem0 by (simp add: domIff)
  let ?dbi1 = "dbi\<lparr>slotkey_tables := (slotkey_tables dbi)[i := t']\<rparr>"
  let ?s1 = "takeAndRef (s\<lparr>held_vals := held_vals s + 1\<rparr>) key"
  let ?s2 = "?s1\<lparr>db_slot_infos := Some (dbs[nat db := ?dbi1])\<rparr>"
  have gt: "get_table ?s1 db (int i) = Some ?t"
    using get_table_eq [OF d(4) lt] by (simp add: takeAndRef_def get_table_def get_db_def)
  have st: "set_table ?s1 db (int i) t' = Some ?s2"
    using set_table_eq [of ?s1 dbs db i t'] d lt db by (simp add: takeAndRef_def)
  have s2: "?s2 = s\<lparr>db_slot_infos := Some (dbs[nat db := ?dbi1]), held := held s + {#key#}, held_vals := held_vals s + 1\<rparr>"
    by (simp add: takeAndRef_def)
  note stored = db_stored [OF s d(1) db(1) d(2)]
  show ?thesis
  proof (cases "key \<in> index s db")
    case True
    then have e: "st = DICT_ERR" "dict_map t' = dict_map ?t" using a(3) mem by auto
    note ok = db_ok_same_table [OF d(5) i(1) a(2) e(2)]
    have "Slots_Add cmp draws s db key = Some ?s2"
      using gt st a(1) e(1) i(2) by (simp add: Slots_Add_def Let_def takeAndRef_def)
    then show ?thesis using stored [OF ok(1) s2] ok(2) ix True by (simp add: insert_absorb)
  next
    case False
    then have e: "st = DICT_OK" "dict_map t' = (dict_map ?t)(key \<mapsto> Some (uint (sn_crc ?n)))"
      using a(3) mem by auto
    note ok = db_add [OF d(5) i a(2) e(2)]
    show ?thesis
    proof (cases "sn_hastag ?n")
      case untagged: False
      have "Slots_Add cmp draws s db key = Some ?s2"
        using gt st a(1) e(1) i(2) untagged by (simp add: Slots_Add_def Let_def takeAndRef_def)
      moreover have "db_ok cmp (key_num s) (slots_size s) ?dbi1"
        using ok d(5) untagged by (auto simp: db_ok_def db_list_ok_def tagged_insert)
      ultimately show ?thesis using stored [OF _ s2] ok(2) ix untagged by simp
    next
      case tagged: True
      have "db_list_ok cmp (key_num s) dbi" "key \<notin> db_keys dbi" "card (db_keys dbi) < 2 ^ 32 - 1"
        using d(5) False ix len by (simp_all add: db_ok_def)
      then obtain a' rest z es where z: "m_zslInsert cmp draws (tagged_key_list dbi) (uint (sn_crc ?n)) key = Some (a', rest, z)"
        "zsl_list cmp z es" "set es = tagged_entries (key_num s) (insert key (db_keys dbi))"
        using db_list_add [where num = "key_num s", OF c _ _ tagged _ u] by blast
      let ?dbi2 = "?dbi1\<lparr>tagged_key_list := z\<rparr>"
      let ?s3 = "(takeAndRef ?s1 key)\<lparr>db_slot_infos := Some (dbs[nat db := ?dbi2])\<rparr>"
      have "set_tagged (takeAndRef ?s2 key) db z = Some ?s3"
        using set_tagged_eq [of "takeAndRef ?s2 key" "dbs[nat db := ?dbi1]" db z] d(2) db(1)
        by (simp add: takeAndRef_def)
      moreover have "get_db ?s2 db = Some ?dbi1" using d(2) db(1) by (simp add: get_db_def arr_get_int_def arr_simps)
      ultimately have "Slots_Add cmp draws s db key = Some ?s3"
        using gt st a(1) e(1) i(2) tagged z(1) by (simp add: Slots_Add_def Let_def takeAndRef_def)
      moreover have "db_ok cmp (key_num s) (slots_size s) ?dbi2"
        using ok z(2,3) by (auto simp: db_ok_def db_list_ok_def)
      moreover have s3: "?s3 = s\<lparr>db_slot_infos := Some (dbs[nat db := ?dbi2]), held := held s + {#key, key#},
          held_vals := held_vals s + 1\<rparr>" by (simp add: takeAndRef_def)
      ultimately show ?thesis using stored [OF _ s3] ok(2) ix tagged False by simp
    qed
  qed
qed

lemma Slots_Del_spec:
  assumes c: "cmp_ok cmp" and s: "slots_inv cmp s" and db: "0 \<le> db" "db < num_dbs s"
    and len: "card (index s db) < 2 ^ 32 - 1"
  shows "\<exists>s'. Slots_Del cmp s db key = Some s' \<and> slots_inv cmp s' \<and> same_frame s s' \<and>
    index s' = (index s)(db := index s db - {key}) \<and>
    held s' = held s - (if key \<notin> index s db then {#} else if sn_hastag (key_num s key) then {#key, key#} else {#key#}) \<and>
    held_vals s' = held_vals s - (if key \<in> index s db then 1 else 0)"
proof -
  let ?n = "key_num s key"
  obtain dbs dbi i where d: "db_slot_infos s = Some dbs" "nat db < length dbs" "dbs ! nat db = dbi"
    "get_db s db = Some dbi" "db_ok cmp (key_num s) (slots_size s) dbi" and ix: "index s db = db_keys dbi"
    and i: "i < slots_size s" "sn_slot ?n = int i" and lt: "i < length (slotkey_tables dbi)"
    and tc: "table_content_ok (key_num s) i (slotkey_tables dbi ! i)"
    and mem: "key \<in> index s db \<longleftrightarrow> dict_map (slotkey_tables dbi ! i) key \<noteq> None"
    by (rule key_table [OF s db])
  let ?t = "slotkey_tables dbi ! i"
  let ?he = "map_option (\<lambda>v. (key, v)) (dict_map ?t key)"
  have inv: "dict_inv hashSlotDictType ?t" using tc by (simp add: table_content_ok_def)
  obtain t' where g: "dictGenericDelete hashSlotDictType ?t key False =
      Some (?he, case ?he of None \<Rightarrow> [] | Some e \<Rightarrow> [e], t')"
    "dict_inv hashSlotDictType t'" "dict_map t' = (dict_map ?t)(key := None)"
    using dictGenericDelete_spec [OF inv type_ok_hashSlotDictType, of key False] by auto
  let ?dbi1 = "dbi\<lparr>slotkey_tables := (slotkey_tables dbi)[i := t']\<rparr>"
  let ?s1 = "s\<lparr>db_slot_infos := Some (dbs[nat db := ?dbi1])\<rparr>"
  have gt: "get_table s db (int i) = Some ?t" by (rule get_table_eq [OF d(4) lt])
  have st: "set_table s db (int i) t' = Some ?s1"
    using set_table_eq [of s dbs db i t'] d lt db by simp
  note ok = db_del [OF d(5) i g(2,3)]
  note stored = db_stored [OF s d(1) db(1) d(2)]
  show ?thesis
  proof (cases "key \<in> index s db")
    case False
    then have none: "dict_map ?t key = None" using mem by simp
    have same: "db_keys dbi - {key} = db_keys dbi" using False ix by simp
    have "Slots_Del cmp s db key = Some ?s1"
      using gt st g(1) i(2) none by (simp add: Slots_Del_def m_dictDelete_def Let_def free_entries_eq)
    moreover have "db_ok cmp (key_num s) (slots_size s) ?dbi1"
      using ok d(5) same by (auto simp: db_ok_def db_list_ok_def)
    moreover have s1: "?s1 = s\<lparr>db_slot_infos := Some (dbs[nat db := ?dbi1]), held := held s, held_vals := held_vals s\<rparr>" by simp
    ultimately show ?thesis using stored [OF _ s1] ok(2) ix False by simp
  next
    case True
    then obtain v where v: "dict_map ?t key = Some v" using mem by auto
    then have vv: "v = Some (uint (sn_crc ?n))" using tc by (simp add: table_content_ok_def)
    let ?s2 = "free_entries ?s1 [(key, v)]"
    have s2: "?s2 = s\<lparr>db_slot_infos := Some (dbs[nat db := ?dbi1]), held := held s - {#key#}, held_vals := held_vals s - 1\<rparr>"
      by (simp add: free_entries_eq vv)
    show ?thesis
    proof (cases "sn_hastag ?n")
      case untagged: False
      have "Slots_Del cmp s db key = Some ?s2"
        using gt st g(1) i(2) v untagged by (simp add: Slots_Del_def m_dictDelete_def Let_def)
      moreover have "db_ok cmp (key_num s) (slots_size s) ?dbi1"
        using ok d(5) untagged by (simp add: db_ok_def db_list_ok_def tagged_remove tagged_member)
      ultimately show ?thesis using stored [OF _ s2] ok(2) ix untagged True by simp
    next
      case tagged: True
      have kd: "db_list_ok cmp (key_num s) dbi" "key \<in> db_keys dbi" "card (db_keys dbi) < 2 ^ 32 - 1"
        using d(5) True ix len by (simp_all add: db_ok_def)
      obtain z es where z: "m_zslDelete cmp (tagged_key_list dbi) (uint (sn_crc ?n)) key = Some (True, [key], z)"
        "zsl_list cmp z es" "set es = tagged_entries (key_num s) (db_keys dbi - {key})"
        using db_list_del [where num = "key_num s", OF c kd(1,2) tagged kd(3)] by blast
      let ?dbi2 = "?dbi1\<lparr>tagged_key_list := z\<rparr>"
      let ?s3 = "(free_strings ?s2 [key])\<lparr>db_slot_infos := Some (dbs[nat db := ?dbi2])\<rparr>"
      have g2: "get_db ?s2 db = Some ?dbi1"
        using d(2) db(1) unfolding s2 by (simp add: get_db_def arr_get_int_def arr_simps)
      have sz: "set_tagged (free_strings ?s2 [key]) db z = Some ?s3"
        using set_tagged_eq [of "free_strings ?s2 [key]" "dbs[nat db := ?dbi1]" db z] d(2) db(1)
        unfolding s2 by (simp add: free_strings_def)
      have "Slots_Del cmp s db key = Some ?s3"
        using gt st g(1) i(2) v tagged g2 z(1) sz by (simp add: Slots_Del_def m_dictDelete_def Let_def)
      moreover have "db_ok cmp (key_num s) (slots_size s) ?dbi2"
        using ok z(2,3) by (auto simp: db_ok_def db_list_ok_def)
      moreover have s3: "?s3 = s\<lparr>db_slot_infos := Some (dbs[nat db := ?dbi2]), held := held s - {#key, key#},
          held_vals := held_vals s - 1\<rparr>"
        unfolding s2 by (simp add: free_strings_def)
      ultimately show ?thesis using stored [OF _ s3] ok(2) ix tagged True by simp
    qed
  qed
qed

section \<open>Initialisation\<close>

lemma Slots_Init_spec:
  assumes "sz \<noteq> 0" "0 \<le> dbs"
    and "resize_db_slot s = 0" "resize_db s = 0" "rehash_db s = 0"
  shows "slots_inv cmp (Slots_Init s sz dbs num_threads rehashing asynchronous cpulist) \<and>
    index (Slots_Init s sz dbs num_threads rehashing asynchronous cpulist) = (\<lambda>db. {})"
proof -
  have keys: "db_keys (new_db (unat sz)) = {}" by (simp add: db_keys_def new_db_def)
  have "db_ok cmp num (unat sz) (new_db (unat sz))" for num
    using keys zsl_list_create
    by (auto simp: db_ok_def db_tables_ok_def table_content_ok_def db_list_ok_def tagged_entries_def)
      (auto simp: new_db_def intro: zsl_list_create exI [of _ "[]"])
  moreover have "0 < unat sz" using assms(1) by (simp add: unat_gt_0)
  ultimately show ?thesis
    using assms keys by (auto simp: slots_inv_def Slots_Init_def index_def get_db_def arr_get_int_def arr_get_def
      unat_eq_zero split: option.splits if_splits)
qed

section \<open>Flushing\<close>

lemma empty_table:
  assumes "dict_inv ty d" "dictSize d = 0"
  shows "dict_map d = Map.empty"
  using dictSize_card [OF assms(1)] assms(2) finite_dict_map [of d] by simp

text \<open>The references the index holds on the keys of one database.\<close>

definition db_refs :: "(string \<Rightarrow> slot_num) \<Rightarrow> string set \<Rightarrow> string multiset" where
  "db_refs num K = mset_set K + mset_set {k \<in> K. sn_hastag (num k)}"

lemma entry_keys_mset:
  assumes "dict_inv ty d"
  shows "mset (map fst (dict_entries d)) = mset_set (dom (dict_map d))"
proof -
  have "distinct (map fst (dict_entries d))" using assms by (simp add: dict_inv_def)
  then have "mset (map fst (dict_entries d)) = mset_set (set (map fst (dict_entries d)))"
    by (simp only: mset_set_set)
  then show ?thesis by (simp add: dict_map_def dom_map_of_conv_image_fst)
qed

lemma entry_values:
  assumes inv: "dict_inv ty d" and val: "\<And>k v. dict_map d k = Some v \<Longrightarrow> v \<noteq> None"
  shows "length (filter (\<lambda>e. snd e \<noteq> None) (dict_entries d)) = card (dom (dict_map d))"
proof -
  have "distinct (map fst (dict_entries d))" using inv by (simp add: dict_inv_def)
  then have "snd e \<noteq> None" if "e \<in> set (dict_entries d)" for e
    using that by (intro val [of "fst e"]) (simp add: dict_map_def)
  then have "filter (\<lambda>e. snd e \<noteq> None) (dict_entries d) = dict_entries d"
    by (intro filter_True) blast
  then show ?thesis by (simp add: dict_size_entries [OF inv] flip: dictSize_card [OF inv])
qed

text \<open>What freeing the entries of the table of one slot gives back.\<close>

lemma free_table_entries:
  assumes t: "db_tables_ok num sz dbi" and i: "i < sz"
  shows "free_entries s (dict_entries (slotkey_tables dbi ! i)) =
    s\<lparr>held := held s - mset_set {k \<in> db_keys dbi. sn_slot (num k) = int i},
      held_vals := held_vals s - int (card {k \<in> db_keys dbi. sn_slot (num k) = int i})\<rparr>"
proof -
  let ?t = "slotkey_tables dbi ! i"
  have inv: "dict_inv hashSlotDictType ?t" and val: "\<And>k v. dict_map ?t k = Some v \<Longrightarrow> v \<noteq> None"
    using t i by (auto simp: db_tables_ok_def table_content_ok_def)
  have "length (filter (\<lambda>e. snd e \<noteq> None) (dict_entries ?t)) = card (dom (dict_map ?t))"
    by (rule entry_values [OF inv]) (rule val)
  then show ?thesis
    by (simp only: free_entries_eq entry_keys_mset [OF inv] table_keys [OF t i])
qed

text \<open>The keys of the slots before \<open>j\<close>.\<close>

definition keys_below :: "(string \<Rightarrow> slot_num) \<Rightarrow> string set \<Rightarrow> nat \<Rightarrow> string set" where
  "keys_below num K j = {k \<in> K. sn_slot (num k) < int j}"

lemma keys_below_Suc:
  "keys_below num K (Suc j) = keys_below num K j \<union> {k \<in> K. sn_slot (num k) = int j}"
  by (auto simp: keys_below_def)

lemma give_back_Suc:
  assumes "finite K"
  shows "h - mset_set (keys_below num K j) - mset_set {k \<in> K. sn_slot (num k) = int j} =
      h - mset_set (keys_below num K (Suc j))"
    and "v - int (card (keys_below num K j)) - int (card {k \<in> K. sn_slot (num k) = int j}) =
      v - int (card (keys_below num K (Suc j)))"
proof -
  have f: "finite (keys_below num K j)" "finite {k \<in> K. sn_slot (num k) = int j}"
    "keys_below num K j \<inter> {k \<in> K. sn_slot (num k) = int j} = {}"
    using assms by (auto simp: keys_below_def)
  show "h - mset_set (keys_below num K j) - mset_set {k \<in> K. sn_slot (num k) = int j} =
      h - mset_set (keys_below num K (Suc j))"
    unfolding keys_below_Suc mset_set_Union [OF f] by (simp add: diff_diff_add_mset)
  show "v - int (card (keys_below num K j)) - int (card {k \<in> K. sn_slot (num k) = int j}) =
      v - int (card (keys_below num K (Suc j)))"
    unfolding keys_below_Suc card_Un_disjoint [OF f] by simp
qed

lemma keys_below_0:
  assumes "slots_inv cmp s"
  shows "keys_below (key_num s) K 0 = {}"
  using slot_in_range(1) [OF assms] by (auto simp: keys_below_def not_less)

lemma keys_below_all:
  assumes "slots_inv cmp s"
  shows "keys_below (key_num s) K (slots_size s) = K"
proof -
  have "sn_slot (key_num s k) < int (slots_size s)" for k
    using slot_in_range(1,2) [OF assms, of k] by linarith
  then show ?thesis by (auto simp: keys_below_def)
qed

text \<open>The strings of the skip list.\<close>

lemma tagged_strings_mset:
  assumes z: "zsl_list cmp z es" and c: "cmp_ok cmp" and es: "set es = tagged_entries num K" and f: "finite K"
  shows "mset (map snd es) = mset_set {k \<in> K. sn_hastag (num k)}"
proof -
  let ?T = "{k \<in> K. sn_hastag (num k)}"
  have "distinct es" using z c by (intro tagged_keys.holds_distinct [of cmp z]) (simp add: zsl_holds_def)
  then have "mset es = mset_set (tag_entry num ` ?T)" using es by (simp add: mset_set_set tagged_entries_def flip: mset_set_set)
  also have "\<dots> = image_mset (tag_entry num) (mset_set ?T)"
    by (rule image_mset_mset_set [symmetric]) (simp add: inj_on_def tag_entry_inj)
  finally have "mset es = image_mset (tag_entry num) (mset_set ?T)" .
  then have "mset (map snd es) = image_mset snd (image_mset (tag_entry num) (mset_set ?T))" by (simp only: mset_map)
  then show ?thesis by (simp add: image_mset.compositionality comp_def tag_entry_def)
qed

text \<open>The states inside the loop over the tables of one database.\<close>

definition flushing :: "slots_state \<Rightarrow> int \<Rightarrow> db_slot_info list \<Rightarrow> nat \<Rightarrow> slots_state \<Rightarrow> bool" where
  "flushing s db dbs j s' \<longleftrightarrow> (\<exists>ts. s' = s\<lparr>db_slot_infos :=
       Some (dbs[nat db := (dbs ! nat db)\<lparr>slotkey_tables := ts\<rparr>]),
       held := held s - mset_set (keys_below (key_num s) (db_keys (dbs ! nat db)) j),
       held_vals := held_vals s - int (card (keys_below (key_num s) (db_keys (dbs ! nat db)) j))\<rparr> \<and>
     length ts = slots_size s \<and> (\<forall>i < slots_size s. table_content_ok (key_num s) i (ts ! i)) \<and>
     (\<forall>i < j. dict_map (ts ! i) = Map.empty) \<and>
     (\<forall>i. j \<le> i \<longrightarrow> ts ! i = slotkey_tables (dbs ! nat db) ! i))"

lemma flush_slot_step:
  assumes db: "0 \<le> db" "nat db < length dbs" and j: "j < slots_size s" and f: "flushing s db dbs j s'"
    and d: "db_tables_ok (key_num s) (slots_size s) (dbs ! nat db)"
  shows "\<exists>s''. flush_slot db j s' = Some s'' \<and> flushing s db dbs (Suc j) s''"
proof -
  let ?K = "db_keys (dbs ! nat db)"
  let ?h = "\<lambda>j. held s - mset_set (keys_below (key_num s) ?K j)"
  let ?v = "\<lambda>j. held_vals s - int (card (keys_below (key_num s) ?K j))"
  obtain ts where s': "s' = s\<lparr>db_slot_infos :=
       Some (dbs[nat db := (dbs ! nat db)\<lparr>slotkey_tables := ts\<rparr>]), held := ?h j, held_vals := ?v j\<rparr>"
    and ts: "length ts = slots_size s" "\<forall>i < slots_size s. table_content_ok (key_num s) i (ts ! i)"
    "\<forall>i < j. dict_map (ts ! i) = Map.empty" "\<forall>i. j \<le> i \<longrightarrow> ts ! i = slotkey_tables (dbs ! nat db) ! i"
    using f unfolding flushing_def by blast
  let ?dbi = "(dbs ! nat db)\<lparr>slotkey_tables := ts\<rparr>"
  have g: "get_db s' db = Some ?dbi" using db unfolding s' by (simp add: get_db_def arr_get_int_def arr_simps)
  have gt: "get_table s' db (int j) = Some (ts ! j)" using get_table_eq [OF g] j ts(1) by simp
  have inv: "dict_inv hashSlotDictType (ts ! j)" using ts(2) j by (simp add: table_content_ok_def)
  have tj: "ts ! j = slotkey_tables (dbs ! nat db) ! j" using ts(4) by simp
  note K = table_keys [OF d j, folded tj]
  show ?thesis
  proof (cases "dictSize (ts ! j) = 0")
    case True
    then have e: "dict_map (ts ! j) = Map.empty" using empty_table [OF inv] by simp
    then have "{k \<in> ?K. sn_slot (key_num s k) = int j} = {}" using K by simp
    then have k: "keys_below (key_num s) ?K (Suc j) = keys_below (key_num s) ?K j" by (simp only: keys_below_Suc Un_empty_right)
    have "\<forall>i < Suc j. dict_map (ts ! i) = Map.empty" using ts(3) e by (auto simp: less_Suc_eq)
    moreover have "\<forall>i. Suc j \<le> i \<longrightarrow> ts ! i = slotkey_tables (dbs ! nat db) ! i" using ts(4) by simp
    ultimately have "flushing s db dbs (Suc j) s'"
      unfolding flushing_def k by (intro exI [of _ ts] conjI s' ts)
    then show ?thesis using gt True by (simp add: flush_slot_def)
  next
    case False
    let ?s1 = "free_entries s' (dict_entries (ts ! j))"
    let ?ts = "ts[j := m_dictCreate]"
    have s1: "?s1 = s'\<lparr>held := ?h (Suc j), held_vals := ?v (Suc j)\<rparr>"
      unfolding tj free_table_entries [OF d j] unfolding s' using give_back_Suc [OF finite_db_keys, of _ "key_num s" _ j] by simp
    let ?s2 = "s\<lparr>db_slot_infos :=
       Some (dbs[nat db := (dbs ! nat db)\<lparr>slotkey_tables := ?ts\<rparr>]), held := ?h (Suc j), held_vals := ?v (Suc j)\<rparr>"
    have "set_table ?s1 db (int j) m_dictCreate = Some ?s2"
      unfolding s1 unfolding s' using set_table_eq [where dbs = "dbs[nat db := ?dbi]" and db = db and i = j] db j ts(1) by simp
    then have "flush_slot db j s' = Some ?s2"
      using gt False m_dictEmpty_spec [OF inv] by (simp add: flush_slot_def)
    moreover have "flushing s db dbs (Suc j) ?s2"
      unfolding flushing_def
    proof (intro exI [of _ ?ts] conjI allI impI)
      show "table_content_ok (key_num s) i (?ts ! i)" if "i < slots_size s" for i
        using ts that by (cases "i = j") (simp_all add: table_content_ok_def)
      show "dict_map (?ts ! i) = Map.empty" if "i < Suc j" for i
        using ts j that by (cases "i = j") simp_all
      show "?ts ! i = slotkey_tables (dbs ! nat db) ! i" if "Suc j \<le> i" for i using ts that by simp
    qed (simp_all add: ts)
    ultimately show ?thesis by blast
  qed
qed

lemma flush_db_spec:
  assumes c: "cmp_ok cmp" and s: "slots_inv cmp s" and db: "0 \<le> db" "db < num_dbs s"
  shows "\<exists>s'. flush_db db s = Some s' \<and> slots_inv cmp s' \<and> same_frame s s' \<and> index s' = (index s)(db := {}) \<and>
    held s' = held s - db_refs (key_num s) (index s db) \<and> held_vals s' = held_vals s - int (card (index s db))"
proof -
  obtain dbs dbi where d: "db_slot_infos s = Some dbs" "nat db < length dbs" "dbs ! nat db = dbi"
    "get_db s db = Some dbi" "db_ok cmp (key_num s) (slots_size s) dbi" by (rule db_range [OF s db])
  have t: "db_tables_ok (key_num s) (slots_size s) (dbs ! nat db)" using d(3,5) by (simp add: db_ok_def)
  have ix: "index s db = db_keys dbi" using d(4) by (simp add: index_def)
  have f0: "flushing s db dbs 0 s"
    unfolding flushing_def
    by (rule exI [of _ "slotkey_tables dbi"])
      (use d t in \<open>auto simp: db_tables_ok_def list_update_id keys_below_0 [OF s]\<close>)
  have "\<exists>s1. for_range 0 (slots_size s) (flush_slot db) s = Some s1 \<and> flushing s db dbs (0 + slots_size s) s1"
    by (rule for_range_rule [where P = "flushing s db dbs", OF f0]) (use flush_slot_step [OF db(1) d(2) _ _ t] in simp)
  then obtain s1 ts where run1: "for_range 0 (slots_size s) (flush_slot db) s = Some s1"
    and s1: "s1 = s\<lparr>db_slot_infos :=
       Some (dbs[nat db := dbi\<lparr>slotkey_tables := ts\<rparr>]), held := held s - mset_set (index s db),
       held_vals := held_vals s - int (card (index s db))\<rparr>"
    and ts: "length ts = slots_size s" "\<forall>i < slots_size s. table_content_ok (key_num s) i (ts ! i)"
    "\<forall>i < slots_size s. dict_map (ts ! i) = Map.empty"
    unfolding flushing_def d(3) add_0 keys_below_all [OF s] ix by blast
  let ?dbi1 = "dbi\<lparr>slotkey_tables := ts\<rparr>"
  have tabs: "db_tables_ok (key_num s) (slots_size s) ?dbi1" using ts by (simp add: db_tables_ok_def)
  have "dict_map t = Map.empty" if "t \<in> set ts" for t using that ts by (auto simp: in_set_conv_nth)
  then have keys: "db_keys ?dbi1 = {}" by (auto simp: db_keys_def)
  have g1: "get_db s1 db = Some ?dbi1" unfolding s1 using d(2) db by (simp add: get_db_def arr_get_int_def arr_simps)
  obtain es where es: "zsl_list cmp (tagged_key_list dbi) es" "set es = tagged_entries (key_num s) (index s db)"
    using d(5) ix by (auto simp: db_ok_def db_list_ok_def)
  have ms: "mset (map snd es) = mset_set {k \<in> index s db. sn_hastag (key_num s k)}"
    using tagged_strings_mset [OF es(1) c es(2)] ix finite_db_keys by simp
  show ?thesis
  proof (cases "zs_length (tagged_key_list dbi) = 0")
    case True
    then have "es = []" using zsl_list_length [OF es(1)] by simp
    then have ok: "db_ok cmp (key_num s) (slots_size s) ?dbi1" and none: "{k \<in> index s db. sn_hastag (key_num s k)} = {}"
      using tabs keys es by (auto simp: db_ok_def db_list_ok_def tagged_entries_def)
    note w = write_db [OF s d(1) db(1) d(2) ok]
    have "slots_inv cmp s1" "index s1 = (index s)(db := {})"
      using w keys unfolding s1 by (simp_all add: slots_inv_def index_def get_db_def fun_eq_iff)
    moreover have "flush_db db s = Some s1" using run1 g1 True by (simp add: flush_db_def)
    moreover have "same_frame s s1" unfolding s1 by (simp add: same_frame_def)
    moreover have "held s1 = held s - db_refs (key_num s) (index s db)" "held_vals s1 = held_vals s - int (card (index s db))"
      unfolding db_refs_def none s1 by simp_all
    ultimately show ?thesis by blast
  next
    case False
    let ?dbi2 = "?dbi1\<lparr>tagged_key_list := m_zslCreate\<rparr>"
    let ?s2 = "(free_strings s1 (map snd es))\<lparr>db_slot_infos := Some (dbs[nat db := ?dbi2])\<rparr>"
    have st: "set_tagged (free_strings s1 (map snd es)) db m_zslCreate = Some ?s2"
      using set_tagged_eq [of "free_strings s1 (map snd es)" "dbs[nat db := ?dbi1]" db m_zslCreate] d(2) db(1)
      unfolding s1 by (simp add: free_strings_def)
    have run: "flush_db db s = Some ?s2"
      using run1 g1 False zsl_list_free [OF es(1)] st by (simp add: flush_db_def)
    have ok: "db_ok cmp (key_num s) (slots_size s) ?dbi2"
      using tabs keys zsl_list_create [of cmp] by (auto simp: db_ok_def db_list_ok_def tagged_entries_def intro: exI [of _ "[]"])
    note w = write_db [OF s d(1) db(1) d(2) ok]
    have s2: "?s2 = s\<lparr>db_slot_infos := Some (dbs[nat db := ?dbi2]),
        held := held s - mset_set (index s db) - mset (map snd es), held_vals := held_vals s - int (card (index s db))\<rparr>"
      unfolding s1 by (simp add: free_strings_def)
    have "slots_inv cmp ?s2" "index ?s2 = (index s)(db := {})"
      using w keys unfolding s2 by (simp_all add: slots_inv_def index_def get_db_def fun_eq_iff)
    moreover have "same_frame s ?s2" unfolding s2 by (simp add: same_frame_def)
    moreover have "held ?s2 = held s - db_refs (key_num s) (index s db)" "held_vals ?s2 = held_vals s - int (card (index s db))"
      unfolding db_refs_def s2 ms by (simp_all add: diff_diff_add_mset)
    ultimately show ?thesis using run by blast
  qed
qed

lemma index_outside:
  assumes "slots_inv cmp s" "\<not> (0 \<le> db \<and> db < num_dbs s)"
  shows "index s db = {}"
proof -
  obtain dbs where "db_slot_infos s = Some dbs" "int (length dbs) = num_dbs s"
    using assms(1) by (auto simp: slots_inv_def)
  then have "get_db s db = None" using assms(2) by (auto simp: get_db_def arr_get_int_def arr_get_def)
  then show ?thesis by (simp add: index_def)
qed

lemma finite_index: "finite (index s db)"
  by (simp add: index_def finite_db_keys split: option.split)

text \<open>The references the whole index holds.\<close>

definition index_refs :: "slots_state \<Rightarrow> string multiset" where
  "index_refs s = (\<Sum>db<nat (num_dbs s). db_refs (key_num s) (index s (int db)))"

definition index_size :: "slots_state \<Rightarrow> nat" where
  "index_size s = (\<Sum>db<nat (num_dbs s). card (index s (int db)))"

lemma FlushdbCallback_spec:
  assumes c: "cmp_ok cmp" and s: "slots_inv cmp s" and db: "dbnum = - 1 \<or> (0 \<le> dbnum \<and> dbnum < num_dbs s)"
  shows "\<exists>s'. FlushdbCallback s start dbnum = Some s' \<and> slots_inv cmp s' \<and> same_frame s s' \<and>
    index s' = (if \<not> start then index s else if dbnum = - 1 then (\<lambda>db. {}) else (index s)(dbnum := {})) \<and>
    held s' = held s - (if \<not> start then {#} else if dbnum = - 1 then index_refs s
      else db_refs (key_num s) (index s dbnum)) \<and>
    held_vals s' = held_vals s - int (if \<not> start then 0 else if dbnum = - 1 then index_size s else card (index s dbnum))"
proof (cases "start \<and> dbnum = - 1")
  case False
  then show ?thesis
    using s db flush_db_spec [OF c s, of dbnum] by (auto simp: FlushdbCallback_def same_frame_refl)
next
  case True
  let ?P = "\<lambda>j s'. slots_inv cmp s' \<and> same_frame s s' \<and>
    index s' = (\<lambda>d. if 0 \<le> d \<and> d < int j then {} else index s d) \<and>
    held s' = held s - (\<Sum>db<j. db_refs (key_num s) (index s (int db))) \<and>
    held_vals s' = held_vals s - int (\<Sum>db<j. card (index s (int db)))"
  have "\<exists>s'. for_range 0 (nat (num_dbs s)) (\<lambda>db. flush_db (int db)) s = Some s' \<and> ?P (0 + nat (num_dbs s)) s'"
  proof (rule for_range_rule [where P = ?P])
    show "?P 0 s" using s by (auto simp: same_frame_refl fun_eq_iff)
    fix j s1 assume j: "j < 0 + nat (num_dbs s)" and P: "?P j s1"
    then have fr: "same_frame s s1" by blast
    then have "int j < num_dbs s1" "index s1 (int j) = index s (int j)" using j P by (simp_all add: same_frame_def)
    moreover have "key_num s1 = key_num s" using fr by (simp add: same_frame_def)
    ultimately obtain s2 where s2: "flush_db (int j) s1 = Some s2" "slots_inv cmp s2" "same_frame s1 s2"
      "index s2 = (index s1)(int j := {})" "held s2 = held s1 - db_refs (key_num s) (index s (int j))"
      "held_vals s2 = held_vals s1 - int (card (index s (int j)))"
      using flush_db_spec [OF c, of s1 "int j"] P by auto
    moreover have "held s2 = held s - (\<Sum>db<Suc j. db_refs (key_num s) (index s (int db)))"
      "held_vals s2 = held_vals s - int (\<Sum>db<Suc j. card (index s (int db)))"
      using s2(5,6) P by (simp_all add: diff_diff_add_mset add.commute)
    moreover have "index s2 = (\<lambda>d. if 0 \<le> d \<and> d < int (Suc j) then {} else index s d)"
      using s2(4) P by (auto simp: fun_eq_iff)
    ultimately show "\<exists>s2. flush_db (int j) s1 = Some s2 \<and> ?P (Suc j) s2"
      using same_frame_trans [OF fr s2(3)] by blast
  qed
  then obtain s' where s': "for_range 0 (nat (num_dbs s)) (\<lambda>db. flush_db (int db)) s = Some s'"
    "slots_inv cmp s'" "same_frame s s'" "index s' = (\<lambda>d. if 0 \<le> d \<and> d < int (nat (num_dbs s)) then {} else index s d)"
    "held s' = held s - index_refs s" "held_vals s' = held_vals s - int (index_size s)"
    unfolding index_refs_def index_size_def by auto
  have "index s' = (\<lambda>db. {})" using s'(4) index_outside [OF s] by (auto simp: fun_eq_iff)
  then show ?thesis using True s' by (simp add: FlushdbCallback_def)
qed

end
