(* ===== verification/SlotCron.thy ===== *)
theory SlotCron
  imports SlotIndexInv
begin

text \<open>
  The cron job and the release of the slot index: every call of \<open>CronLoopCallback\<close> returns, keeps
  the invariant and the keys, and \<open>Slots_Free\<close> gives back every reference the index holds.
\<close>

section \<open>Maintenance of one table\<close>

text \<open>What the cron job leaves alone: everything but the tables and its own counters.\<close>

definition cron_frame :: "slots_state \<Rightarrow> slots_state \<Rightarrow> bool" where
  "cron_frame s s' \<longleftrightarrow> index s' = index s \<and>
     crc32tab s' = crc32tab s \<and> g_slots_meta_info s' = g_slots_meta_info s \<and>
     from_key s' = from_key s \<and> to_key s' = to_key s \<and> from_dbid s' = from_dbid s \<and> to_dbid s' = to_dbid s \<and>
     cmd_flag s' = cmd_flag s \<and> held s' = held s \<and> held_vals s' = held_vals s \<and>
     slotsmgrt_cached_ctx_connects s' = slotsmgrt_cached_ctx_connects s"

lemma cron_frame_refl: "cron_frame s s"
  by (simp add: cron_frame_def)

lemma cron_frame_trans: "cron_frame s s' \<Longrightarrow> cron_frame s' s'' \<Longrightarrow> cron_frame s s''"
  by (simp add: cron_frame_def)

lemma table_in_range:
  assumes s: "slots_inv cmp s" and db: "0 \<le> db" "db < num_dbs s" and i: "i < slots_size s"
  obtains t where "get_table s db (int i) = Some t" "dict_inv hashSlotDictType t"
    "\<And>t'. dict_inv hashSlotDictType t' \<Longrightarrow> dict_map t' = dict_map t \<Longrightarrow>
      \<exists>dbs'. set_table s db (int i) t' = Some (s\<lparr>db_slot_infos := Some dbs'\<rparr>) \<and>
        slots_inv cmp (s\<lparr>db_slot_infos := Some dbs'\<rparr>) \<and> cron_frame s (s\<lparr>db_slot_infos := Some dbs'\<rparr>)"
proof -
  obtain dbs dbi where d: "db_slot_infos s = Some dbs" "nat db < length dbs" "dbs ! nat db = dbi"
    "get_db s db = Some dbi" "db_ok cmp (key_num s) (slots_size s) dbi" by (rule db_range [OF s db])
  have lt: "i < length (slotkey_tables dbi)" using d(5) i by (simp add: db_ok_def db_tables_ok_def)
  let ?t = "slotkey_tables dbi ! i"
  have inv: "dict_inv hashSlotDictType ?t"
    using d(5) i by (simp add: db_ok_def db_tables_ok_def table_content_ok_def)
  show thesis
  proof (rule that [OF get_table_eq [OF d(4) lt] inv])
    fix t' :: "(string, int) dict"
    assume t': "dict_inv hashSlotDictType t'" "dict_map t' = dict_map ?t"
    note ok = db_ok_same_table [OF d(5) i t']
    note w = write_db [OF s d(1) db(1) d(2) ok(1)]
    have "set_table s db (int i) t' = Some (s\<lparr>db_slot_infos :=
        Some (dbs[nat db := dbi\<lparr>slotkey_tables := (slotkey_tables dbi)[i := t']\<rparr>])\<rparr>)"
      using set_table_eq [OF d(1) db(1) d(2)] d(3) lt by simp
    moreover have "index s db = db_keys dbi" using d(4) by (simp add: index_def)
    then have "(index s)(db := db_keys dbi) = index s" by (rule fun_upd_idem)
    then have "index (s\<lparr>db_slot_infos :=
        Some (dbs[nat db := dbi\<lparr>slotkey_tables := (slotkey_tables dbi)[i := t']\<rparr>])\<rparr>) = index s"
      using w(2) ok(2) by (simp only:)
    ultimately show "\<exists>dbs'. set_table s db (int i) t' = Some (s\<lparr>db_slot_infos := Some dbs'\<rparr>) \<and>
        slots_inv cmp (s\<lparr>db_slot_infos := Some dbs'\<rparr>) \<and> cron_frame s (s\<lparr>db_slot_infos := Some dbs'\<rparr>)"
      using w(1) by (intro exI [of _ "dbs[nat db := dbi\<lparr>slotkey_tables := (slotkey_tables dbi)[i := t']\<rparr>]"])
        (simp add: cron_frame_def)
  qed
qed

lemma tryResize_spec:
  assumes s: "slots_inv cmp s" and db: "0 \<le> db" "db < num_dbs s" and i: "i < slots_size s"
  shows "\<exists>dbs'. tryResizeDbSlotHashTables s db (int i) = Some (s\<lparr>db_slot_infos := dbs'\<rparr>) \<and>
    slots_inv cmp (s\<lparr>db_slot_infos := dbs'\<rparr>) \<and> cron_frame s (s\<lparr>db_slot_infos := dbs'\<rparr>)"
proof -
  obtain t where t: "get_table s db (int i) = Some t" "dict_inv hashSlotDictType t"
    "\<And>t'. dict_inv hashSlotDictType t' \<Longrightarrow> dict_map t' = dict_map t \<Longrightarrow>
      \<exists>dbs'. set_table s db (int i) t' = Some (s\<lparr>db_slot_infos := Some dbs'\<rparr>) \<and>
        slots_inv cmp (s\<lparr>db_slot_infos := Some dbs'\<rparr>) \<and> cron_frame s (s\<lparr>db_slot_infos := Some dbs'\<rparr>)"
    using table_in_range [OF s db i] by metis
  show ?thesis
  proof (cases "htNeedsResize t")
    case False
    have "s\<lparr>db_slot_infos := db_slot_infos s\<rparr> = s" by simp
    then show ?thesis using False t(1) s cron_frame_refl [of s]
      by (intro exI [of _ "db_slot_infos s"]) (simp add: tryResizeDbSlotHashTables_def)
  next
    case True
    obtain st t' where r: "m_dictResize dict_can_resize t = Some (st, t')" "dict_inv hashSlotDictType t'"
      "dict_entries t' = dict_entries t" using m_dictResize_keeps [OF t(2)] by blast
    have "dict_map t' = dict_map t" using r(3) by (simp add: dict_map_def)
    from t(3) [OF r(2) this] show ?thesis
      using True t(1) r(1) by (auto simp: tryResizeDbSlotHashTables_def)
  qed
qed

lemma incrementallyRehash_spec:
  assumes s: "slots_inv cmp s" and db: "0 \<le> db" "db < num_dbs s" and i: "i < slots_size s"
  shows "\<exists>b dbs'. incrementallyDbSlotRehash clock s db (int i) = Some (b, s\<lparr>db_slot_infos := dbs'\<rparr>) \<and>
    slots_inv cmp (s\<lparr>db_slot_infos := dbs'\<rparr>) \<and> cron_frame s (s\<lparr>db_slot_infos := dbs'\<rparr>)"
proof -
  obtain t where t: "get_table s db (int i) = Some t" "dict_inv hashSlotDictType t"
    "\<And>t'. dict_inv hashSlotDictType t' \<Longrightarrow> dict_map t' = dict_map t \<Longrightarrow>
      \<exists>dbs'. set_table s db (int i) t' = Some (s\<lparr>db_slot_infos := Some dbs'\<rparr>) \<and>
        slots_inv cmp (s\<lparr>db_slot_infos := Some dbs'\<rparr>) \<and> cron_frame s (s\<lparr>db_slot_infos := Some dbs'\<rparr>)"
    using table_in_range [OF s db i] by metis
  show ?thesis
  proof (cases "dictIsRehashing t")
    case False
    have "s\<lparr>db_slot_infos := db_slot_infos s\<rparr> = s" by simp
    then have "incrementallyDbSlotRehash clock s db (int i) = Some (False, s\<lparr>db_slot_infos := db_slot_infos s\<rparr>)"
      using False t(1) by (simp add: incrementallyDbSlotRehash_def)
    then show ?thesis using s cron_frame_refl [of s]
      by (intro exI [of _ False] exI [of _ "db_slot_infos s"]) simp
  next
    case True
    obtain r t' where r: "m_dictRehashMilliseconds hashSlotDictType clock t 1 = Some (r, t')"
      "dict_inv hashSlotDictType t'" "mset (dict_entries t') = mset (dict_entries t)"
      using rehash_ms_loop_spec [OF t(2), of clock "clock 0" 1 1 0]
      by (auto simp: m_dictRehashMilliseconds_def)
    have "dict_map t' = dict_map t" by (rule dict_same_entries(1) [OF t(2) r(2,3)])
    from t(3) [OF r(2) this] obtain dbs' where
      "set_table s db (int i) t' = Some (s\<lparr>db_slot_infos := Some dbs'\<rparr>)"
      "slots_inv cmp (s\<lparr>db_slot_infos := Some dbs'\<rparr>)" "cron_frame s (s\<lparr>db_slot_infos := Some dbs'\<rparr>)" by blast
    then show ?thesis using True t(1) r(1)
      by (intro exI [of _ True] exI [of _ "Some dbs'"]) (simp add: incrementallyDbSlotRehash_def)
  qed
qed

section \<open>The loops of dbSlotCron\<close>

lemma next_counter_less: "0 < n \<Longrightarrow> next_counter x n < n"
  by (simp add: next_counter_def)

lemma resize_slot_step_spec:
  assumes s: "slots_inv cmp s" and n: "0 < num_dbs s"
  shows "\<exists>s'. resize_slot_step j s = Some s' \<and> slots_inv cmp s' \<and> cron_frame s s'"
proof -
  have r: "int (resize_db s) < num_dbs s" "resize_db_slot s < slots_size s" "0 < slots_size s"
    using s n by (auto simp: slots_inv_def)
  obtain dbs' where t: "tryResizeDbSlotHashTables s (int (resize_db s)) (int (resize_db_slot s)) =
      Some (s\<lparr>db_slot_infos := dbs'\<rparr>)" "slots_inv cmp (s\<lparr>db_slot_infos := dbs'\<rparr>)"
    "cron_frame s (s\<lparr>db_slot_infos := dbs'\<rparr>)"
    using tryResize_spec [OF s _ r(1,2)] by auto
  let ?s = "s\<lparr>db_slot_infos := dbs', resize_db_slot := next_counter (resize_db_slot s) (slots_size s)\<rparr>"
  have "resize_slot_step j s = Some ?s" using t(1) by (simp add: resize_slot_step_def)
  moreover have "slots_inv cmp ?s" using t(2) next_counter_less [OF r(3)] by (auto simp: slots_inv_def)
  moreover have "cron_frame s ?s" using t(3) by (simp add: cron_frame_def index_def get_db_def fun_eq_iff)
  ultimately show ?thesis by blast
qed

lemma resize_db_step_spec:
  assumes s: "slots_inv cmp s" and n: "0 < num_dbs s"
  shows "\<exists>s'. resize_db_step k j s = Some s' \<and> slots_inv cmp s' \<and> cron_frame s s'"
proof -
  let ?P = "\<lambda>j s'. slots_inv cmp s' \<and> cron_frame s s'"
  have "\<exists>s'. for_range 0 k resize_slot_step s = Some s' \<and> ?P (0 + k) s'"
  proof (rule for_range_rule [where P = ?P])
    fix i s1 assume "?P i s1"
    then show "\<exists>s2. resize_slot_step i s1 = Some s2 \<and> ?P (Suc i) s2"
      using resize_slot_step_spec [of cmp s1 i] n by (auto simp: cron_frame_def)
  qed (use s cron_frame_refl in blast)
  then obtain s1 where s1: "for_range 0 k resize_slot_step s = Some s1" "slots_inv cmp s1" "cron_frame s s1" by blast
  let ?s = "s1\<lparr>resize_db := next_counter (resize_db s1) (nat (num_dbs s1))\<rparr>"
  have n1: "0 < num_dbs s1" using s1(3) n by (simp add: cron_frame_def)
  then have "next_counter (resize_db s1) (nat (num_dbs s1)) < nat (num_dbs s1)" by (intro next_counter_less) simp
  then have "slots_inv cmp ?s" using s1(2) n1 by (auto simp: slots_inv_def)
  moreover have "cron_frame s ?s" using s1(3) by (simp add: cron_frame_def index_def get_db_def fun_eq_iff)
  ultimately show ?thesis using s1(1) by (simp add: resize_db_step_def)
qed

lemma rehash_slot_step_spec:
  assumes s: "slots_inv cmp s" and n: "0 < num_dbs s" and j: "j < slots_size s"
  shows "\<exists>b s'. rehash_slot_step clock j s = Some (b, s') \<and> slots_inv cmp s' \<and> cron_frame s s'"
proof -
  have r: "int (rehash_db s) < num_dbs s" using s n by (auto simp: slots_inv_def)
  obtain b dbs' where t: "incrementallyDbSlotRehash clock s (int (rehash_db s)) (int j) =
      Some (b, s\<lparr>db_slot_infos := dbs'\<rparr>)" "slots_inv cmp (s\<lparr>db_slot_infos := dbs'\<rparr>)"
    "cron_frame s (s\<lparr>db_slot_infos := dbs'\<rparr>)"
    using incrementallyRehash_spec [OF s _ r j, of clock] by auto
  show ?thesis
  proof (cases b)
    case True
    then show ?thesis using t by (auto simp: rehash_slot_step_def)
  next
    case False
    let ?s = "s\<lparr>db_slot_infos := dbs', rehash_db := next_counter (rehash_db s) (nat (num_dbs s))\<rparr>"
    have "rehash_slot_step clock j s = Some (False, ?s)" using t(1) False by (simp add: rehash_slot_step_def)
    moreover have "next_counter (rehash_db s) (nat (num_dbs s)) < nat (num_dbs s)"
      using n by (intro next_counter_less) simp
    then have "slots_inv cmp ?s" using t(2) n by (auto simp: slots_inv_def)
    moreover have "cron_frame s ?s" using t(3) by (simp add: cron_frame_def index_def get_db_def fun_eq_iff)
    ultimately show ?thesis by blast
  qed
qed

lemma dbSlotCron_spec:
  assumes s: "slots_inv cmp s"
  shows "\<exists>s'. dbSlotCron clock child s = Some s' \<and> slots_inv cmp s' \<and> cron_frame s s'"
proof -
  let ?P = "\<lambda>j s'. slots_inv cmp s' \<and> cron_frame s s'"
  let ?n = "if CRON_DBS_PER_CALL > num_dbs s then num_dbs s else CRON_DBS_PER_CALL"
  let ?k = "nat (if CRON_DB_SLOTS_PER_CALL > int (slots_size s) then int (slots_size s) else CRON_DB_SLOTS_PER_CALL)"
  have "\<exists>s'. for_range 0 (nat ?n) (resize_db_step ?k) s = Some s' \<and> ?P (0 + nat ?n) s'"
  proof (rule for_range_rule [where P = ?P])
    fix i s1 assume "i < 0 + nat ?n" and "?P i s1"
    moreover from this have "0 < num_dbs s1"
      by (auto simp: cron_frame_def CRON_DBS_PER_CALL_def split: if_splits)
    ultimately show "\<exists>s2. resize_db_step ?k i s1 = Some s2 \<and> ?P (Suc i) s2"
      using resize_db_step_spec [of cmp s1 ?k i] cron_frame_trans by blast
  qed (use s cron_frame_refl in blast)
  then obtain s1 where s1: "for_range 0 (nat ?n) (resize_db_step ?k) s = Some s1" "slots_inv cmp s1" "cron_frame s s1"
    by blast
  have inner: "\<exists>b s3. for_until 0 (slots_size s1) (rehash_slot_step clock) s2 = Some (b, s3) \<and>
      (if b then ?P 0 s3 else ?P (0 + slots_size s1) s3)" if P: "?P 0 s2" "0 < num_dbs s2" for s2
  proof (rule for_until_rule [where P = ?P])
    fix i s3 assume "i < 0 + slots_size s1" and "?P i s3"
    moreover from this have "0 < num_dbs s3" "i < slots_size s3" using P s1(3) by (auto simp: cron_frame_def)
    ultimately show "\<exists>b s4. rehash_slot_step clock i s3 = Some (b, s4) \<and> (if b then ?P 0 s4 else ?P (Suc i) s4)"
      using rehash_slot_step_spec [of cmp s3 i clock] cron_frame_trans by (metis (no_types, lifting))
  qed (use P in blast)
  have outer: "\<exists>b s2. for_until 0 (nat (num_dbs s1)) (\<lambda>db. for_until 0 (slots_size s1) (rehash_slot_step clock)) s1 =
      Some (b, s2) \<and> (if b then ?P 0 s2 else ?P (0 + nat (num_dbs s1)) s2)"
  proof (rule for_until_rule [where P = ?P])
    fix i s2 assume "i < 0 + nat (num_dbs s1)" and "?P i s2"
    moreover from this have "0 < num_dbs s2" using s1(3) by (auto simp: cron_frame_def)
    ultimately show "\<exists>b s3. for_until 0 (slots_size s1) (rehash_slot_step clock) s2 = Some (b, s3) \<and>
        (if b then ?P 0 s3 else ?P (Suc i) s3)" using inner by blast
  qed (use s1 in blast)
  show ?thesis
  proof (cases "\<not> activerehashing (g_slots_meta_info s1) \<or> child")
    case True
    then have "dbSlotCron clock child s = Some s1" using s1(1) by (simp add: dbSlotCron_def Let_def)
    then show ?thesis using s1 by blast
  next
    case False
    obtain b s2 where "for_until 0 (nat (num_dbs s1)) (\<lambda>db. for_until 0 (slots_size s1) (rehash_slot_step clock)) s1 =
      Some (b, s2)" "?P 0 s2" using outer by (metis (no_types, lifting))
    then show ?thesis using s1(1) False by (simp add: dbSlotCron_def Let_def)
  qed
qed

lemma CronLoopCallback_spec:
  assumes s: "slots_inv cmp s" and hz: "1 \<le> hz" "hz \<le> 1000" and c: "cronloops (g_slots_meta_info s) < INT_MAX"
  shows "\<exists>close s'. CronLoopCallback clock child hz s = Some (close, s') \<and> slots_inv cmp s' \<and> index s' = index s \<and>
    g_slots_meta_info s' = (g_slots_meta_info s)\<lparr>cronloops := cronloops (g_slots_meta_info s) + 1\<rparr> \<and>
    (close \<longleftrightarrow> cronloops (g_slots_meta_info s) mod (1000 div (1000 div hz)) = 0) \<and>
    crc32tab s' = crc32tab s \<and> held s' = held s \<and> held_vals s' = held_vals s \<and>
    from_key s' = from_key s \<and> to_key s' = to_key s \<and> cmd_flag s' = cmd_flag s"
proof -
  obtain s1 where s1: "dbSlotCron clock child s = Some s1" "slots_inv cmp s1" "cron_frame s s1"
    using dbSlotCron_spec [OF s] by blast
  have t: "1 \<le> 1000 div hz" "1000 div hz \<le> 1000"
    using pos_imp_zdiv_pos_iff [of hz 1000] zdiv_mono2 [of 1000 1 hz] hz by simp_all
  then have t2: "1 \<le> 1000 div (1000 div hz)" using pos_imp_zdiv_pos_iff [of "1000 div hz" 1000] by linarith
  let ?s = "s1\<lparr>g_slots_meta_info := (g_slots_meta_info s)\<lparr>cronloops := cronloops (g_slots_meta_info s) + 1\<rparr>\<rparr>"
  have m: "g_slots_meta_info s1 = g_slots_meta_info s" using s1(3) by (simp add: cron_frame_def)
  have "run_with_period s1 1000 hz = Some (cronloops (g_slots_meta_info s) mod (1000 div (1000 div hz)) = 0)"
  proof (cases "1000 div hz = 1000")
    case True
    then show ?thesis using hz by (simp add: run_with_period_def Let_def)
  next
    case False
    then show ?thesis using hz t t2 m by (simp add: run_with_period_def Let_def)
  qed
  then have "CronLoopCallback clock child hz s =
      Some (cronloops (g_slots_meta_info s) mod (1000 div (1000 div hz)) = 0, ?s)"
    using s1(1) c m by (simp add: CronLoopCallback_def)
  moreover have "slots_inv cmp ?s" using s1(2) m by (simp add: slots_inv_def)
  moreover have "index ?s = index s" using s1(3) by (simp add: cron_frame_def index_def get_db_def fun_eq_iff)
  ultimately show ?thesis using s1(3) by (auto simp: cron_frame_def)
qed

section \<open>Releasing the index\<close>

definition dropped :: "slots_state \<Rightarrow> string multiset \<Rightarrow> nat \<Rightarrow> slots_state" where
  "dropped s M n = s\<lparr>held := held s - M, held_vals := held_vals s - int n\<rparr>"

lemma dropped_simps [simp]:
  "db_slot_infos (dropped s M n) = db_slot_infos s" "g_slots_meta_info (dropped s M n) = g_slots_meta_info s"
  "get_db (dropped s M n) db = get_db s db" "get_table (dropped s M n) db i = get_table s db i"
  "slotsmgrt_cached_ctx_connects (dropped s M n) = slotsmgrt_cached_ctx_connects s"
  "dropped (dropped s M n) M' n' = dropped s (M + M') (n + n')" "dropped s {#} 0 = s"
  by (simp_all add: dropped_def get_db_def get_table_def diff_diff_add_mset)

lemma dropped_strings: "free_strings (dropped s M n) ks = dropped s (M + mset ks) n"
  by (simp add: free_strings_def dropped_def diff_diff_add_mset)

lemma free_slot_step:
  assumes s: "slots_inv cmp s" and db: "0 \<le> db" "db < num_dbs s" and j: "j < slots_size s"
  shows "free_slot (nat db) j (dropped s M n) =
    Some (dropped s (M + mset_set {k \<in> index s db. sn_slot (key_num s k) = int j})
      (n + card {k \<in> index s db. sn_slot (key_num s k) = int j}))"
proof -
  obtain dbs dbi where d: "db_slot_infos s = Some dbs" "nat db < length dbs" "dbs ! nat db = dbi"
    "get_db s db = Some dbi" "db_ok cmp (key_num s) (slots_size s) dbi" by (rule db_range [OF s db])
  have t: "db_tables_ok (key_num s) (slots_size s) dbi" using d(5) by (simp add: db_ok_def)
  have "j < length (slotkey_tables dbi)" using t j by (simp add: db_tables_ok_def)
  note g = get_table_eq [OF d(4) this]
  have "dict_inv hashSlotDictType (slotkey_tables dbi ! j)"
    using t j by (simp add: db_tables_ok_def table_content_ok_def)
  note r = m_dictRelease_spec [OF this]
  have ix: "index s db = db_keys dbi" using d(4) by (simp add: index_def)
  have "free_slot (nat db) j (dropped s M n) = Some (free_entries (dropped s M n) (dict_entries (slotkey_tables dbi ! j)))"
    using g r db(1) by (simp add: free_slot_def)
  also have "\<dots> = Some (dropped (dropped s M n) (mset_set {k \<in> index s db. sn_slot (key_num s k) = int j})
      (card {k \<in> index s db. sn_slot (key_num s k) = int j}))"
    unfolding free_table_entries [OF t j] dropped_def [of "dropped s M n"] ix by (rule refl)
  finally show ?thesis by simp
qed

lemma free_db_step:
  assumes c: "cmp_ok cmp" and s: "slots_inv cmp s" and db: "int db < num_dbs s"
  shows "free_db db (dropped s M n) =
    Some (dropped s (M + db_refs (key_num s) (index s (int db))) (n + card (index s (int db))))"
proof -
  let ?K = "index s (int db)"
  obtain dbs dbi where d: "db_slot_infos s = Some dbs" "nat (int db) < length dbs" "dbs ! nat (int db) = dbi"
    "get_db s (int db) = Some dbi" "db_ok cmp (key_num s) (slots_size s) dbi"
    by (rule db_range [OF s _ db]) simp_all
  have ix: "?K = db_keys dbi" using d(4) by (simp add: index_def)
  have fin: "finite ?K" unfolding ix by (rule finite_db_keys)
  let ?P = "\<lambda>j s'. s' = dropped s (M + mset_set (keys_below (key_num s) ?K j)) (n + card (keys_below (key_num s) ?K j))"
  have "\<exists>s'. for_range 0 (slots_size s) (free_slot db) (dropped s M n) = Some s' \<and> ?P (0 + slots_size s) s'"
  proof (rule for_range_rule [where P = ?P])
    show "?P 0 (dropped s M n)" by (simp add: keys_below_0 [OF s])
    fix j s1 assume j: "j < 0 + slots_size s" and P: "?P j s1"
    have f: "finite (keys_below (key_num s) ?K j)" "finite {k \<in> ?K. sn_slot (key_num s k) = int j}"
      "keys_below (key_num s) ?K j \<inter> {k \<in> ?K. sn_slot (key_num s k) = int j} = {}"
      using fin by (auto simp: keys_below_def)
    have "free_slot db j s1 = Some (dropped s (M + mset_set (keys_below (key_num s) ?K j) +
        mset_set {k \<in> ?K. sn_slot (key_num s k) = int j})
        (n + card (keys_below (key_num s) ?K j) + card {k \<in> ?K. sn_slot (key_num s k) = int j}))"
      unfolding P using free_slot_step [OF s _ db, of j] j by simp
    moreover have "?P (Suc j) (dropped s (M + mset_set (keys_below (key_num s) ?K j) +
        mset_set {k \<in> ?K. sn_slot (key_num s k) = int j})
        (n + card (keys_below (key_num s) ?K j) + card {k \<in> ?K. sn_slot (key_num s k) = int j}))"
      unfolding keys_below_Suc mset_set_Union [OF f] card_Un_disjoint [OF f] by (simp only: add.assoc)
    ultimately show "\<exists>s2. free_slot db j s1 = Some s2 \<and> ?P (Suc j) s2" by blast
  qed
  then have run: "for_range 0 (slots_size s) (free_slot db) (dropped s M n) = Some (dropped s (M + mset_set ?K) (n + card ?K))"
    unfolding add_0 keys_below_all [OF s] by blast
  obtain es where es: "zsl_list cmp (tagged_key_list dbi) es" "set es = tagged_entries (key_num s) ?K"
    using d(5) ix by (auto simp: db_ok_def db_list_ok_def)
  have ms: "mset (map snd es) = mset_set {k \<in> ?K. sn_hastag (key_num s k)}"
    by (rule tagged_strings_mset [OF es(1) c es(2) fin])
  show ?thesis
    using run d(4) zsl_list_free [OF es(1)]
    by (simp add: free_db_def dropped_strings ms db_refs_def add.assoc del: mset_map)
qed

lemma Slots_Free_spec:
  assumes c: "cmp_ok cmp" and s: "slots_inv cmp s"
  shows "Slots_Free s = Some ((dropped s (index_refs s) (index_size s))\<lparr>db_slot_infos := None,
    slotsmgrt_cached_ctx_connects := False\<rparr>)"
proof -
  let ?P = "\<lambda>j s'. s' = dropped s (\<Sum>db<j. db_refs (key_num s) (index s (int db))) (\<Sum>db<j. card (index s (int db)))"
  have "\<exists>s'. for_range 0 (nat (num_dbs s)) free_db s = Some s' \<and> ?P (0 + nat (num_dbs s)) s'"
  proof (rule for_range_rule [where P = ?P])
    fix j s1 assume "j < 0 + nat (num_dbs s)" and P: "?P j s1"
    then have "int j < num_dbs s" by simp
    then show "\<exists>s2. free_db j s1 = Some s2 \<and> ?P (Suc j) s2"
      unfolding P using free_db_step [OF c s, of j] by (simp add: add.commute)
  qed simp
  then have run: "for_range 0 (nat (num_dbs s)) free_db s = Some (dropped s (index_refs s) (index_size s))"
    by (simp add: index_refs_def index_size_def)
  have flag: "s'\<lparr>slotsmgrt_cached_ctx_connects := slotsmgrt_cached_ctx_connects s'\<rparr> = s'" for s' :: slots_state by simp
  have "db_slot_infos s \<noteq> None" using s by (auto simp: slots_inv_def)
  then show ?thesis
    using run flag [of "(dropped s (index_refs s) (index_size s))\<lparr>db_slot_infos := None\<rparr>"]
    by (auto simp: Slots_Free_def)
qed

end
