(* ===== verification/SlotEvents.thy ===== *)
theory SlotEvents
  imports SlotCron
begin

text \<open>
  The server seen from the slot index: the events a server sends, each as the callbacks it
  makes, a specification of the keys that exist after them, and the proof that the index
  follows it over every sequence of events.
\<close>

section \<open>Events and what they mean\<close>

text \<open>A rename and a move between databases are announced by two notifications. \<open>KeyRestored\<close>
  and \<open>KeyCopied\<close> are a key that RESTORE or COPY made, a notification of the generic class like
  the deletions; \<open>OtherGeneric\<close> is one with another event name, of a command that makes and
  deletes no key (\<open>expire\<close>, \<open>persist\<close>). The notifications of the classes for evicted keys and
  for streams are events of the server too, but the module does not subscribe to these
  classes, so that none of its functions is called.\<close>

datatype server_event =
    KeyWritten int string "nat list"
  | KeyDeleted int string
  | KeyExpired int string
  | KeyRenamed int string string "nat list"
  | KeyMoved int int string "nat list"
  | KeyRestored int string
  | KeyCopied int string
  | KeyEvicted int string
  | StreamWritten int string
  | OtherGeneric int string string
  | DbFlushed int
  | AllFlushed
  | FlushEnded int
  | CronTick "nat \<Rightarrow> int" bool int

fun handle_event :: "(string \<Rightarrow> string \<Rightarrow> int) \<Rightarrow> server_event \<Rightarrow> slots_state \<Rightarrow> slots_state option" where
  "handle_event cmp (KeyWritten db key draws) s = NotifyTypeChangeCallback cmp draws s db key"
| "handle_event cmp (KeyDeleted db key) s = NotifyGenericCallback cmp [] s db ''del'' key"
| "handle_event cmp (KeyExpired db key) s = NotifyGenericCallback cmp [] s db ''expired'' key"
| "handle_event cmp (KeyRenamed db a b draws) s = do {
     s \<leftarrow> NotifyGenericCallback cmp [] s db ''rename_from'' a;
     NotifyGenericCallback cmp draws s db ''rename_to'' b
   }"
| "handle_event cmp (KeyMoved src dst key draws) s = do {
     s \<leftarrow> NotifyGenericCallback cmp [] s src ''move_from'' key;
     NotifyGenericCallback cmp draws s dst ''move_to'' key
   }"
| "handle_event cmp (KeyRestored db key) s = NotifyGenericCallback cmp [] s db ''restore'' key"
| "handle_event cmp (KeyCopied db key) s = NotifyGenericCallback cmp [] s db ''copy_to'' key"
| "handle_event cmp (KeyEvicted db key) s = Some s"
| "handle_event cmp (StreamWritten db key) s = Some s"
| "handle_event cmp (OtherGeneric db event key) s = NotifyGenericCallback cmp [] s db event key"
| "handle_event cmp (DbFlushed db) s = FlushdbCallback s True db"
| "handle_event cmp AllFlushed s = FlushdbCallback s True (- 1)"
| "handle_event cmp (FlushEnded db) s = FlushdbCallback s False db"
| "handle_event cmp (CronTick clock child hz) s = map_option snd (CronLoopCallback clock child hz s)"

fun run_events :: "(string \<Rightarrow> string \<Rightarrow> int) \<Rightarrow> server_event list \<Rightarrow> slots_state \<Rightarrow> slots_state option" where
  "run_events cmp [] s = Some s"
| "run_events cmp (e # es) s = do { s \<leftarrow> handle_event cmp e s; run_events cmp es s }"

text \<open>The keys of every database after an event.\<close>

fun keyspace :: "server_event \<Rightarrow> (int \<Rightarrow> string set) \<Rightarrow> int \<Rightarrow> string set" where
  "keyspace (KeyWritten db key draws) K = K(db := insert key (K db))"
| "keyspace (KeyDeleted db key) K = K(db := K db - {key})"
| "keyspace (KeyExpired db key) K = K(db := K db - {key})"
| "keyspace (KeyRenamed db a b draws) K = K(db := insert b (K db - {a}))"
| "keyspace (KeyMoved src dst key draws) K =
     (let K' = K(src := K src - {key}) in K'(dst := insert key (K' dst)))"
| "keyspace (KeyRestored db key) K = K(db := insert key (K db))"
| "keyspace (KeyCopied db key) K = K(db := insert key (K db))"
| "keyspace (KeyEvicted db key) K = K(db := K db - {key})"
| "keyspace (StreamWritten db key) K = K(db := insert key (K db))"
| "keyspace (DbFlushed db) K = K(db := {})"
| "keyspace AllFlushed K = (\<lambda>db. {})"
| "keyspace _ K = K"

text \<open>The events whose notifications the module acts on. A restored or copied key, an evicted one
  and a stream change the key space without the index being told.\<close>

fun announced :: "server_event \<Rightarrow> bool" where
  "announced (KeyRestored db key) \<longleftrightarrow> False"
| "announced (KeyCopied db key) \<longleftrightarrow> False"
| "announced (KeyEvicted db key) \<longleftrightarrow> False"
| "announced (StreamWritten db key) \<longleftrightarrow> False"
| "announced _ \<longleftrightarrow> True"

text \<open>The keys the index is told of.\<close>

definition told :: "server_event \<Rightarrow> (int \<Rightarrow> string set) \<Rightarrow> int \<Rightarrow> string set" where
  "told e K = (if announced e then keyspace e K else K)"

text \<open>The references an event leaves behind without an owner: a key that is written, renamed
  to or moved to although the index holds it already.\<close>

fun lost_refs :: "server_event \<Rightarrow> (int \<Rightarrow> string set) \<Rightarrow> string multiset" where
  "lost_refs (KeyWritten db key draws) K = (if key \<in> K db then {#key#} else {#})"
| "lost_refs (KeyRenamed db a b draws) K = (if b \<in> K db - {a} then {#b#} else {#})"
| "lost_refs (KeyMoved src dst key draws) K = (if src \<noteq> dst \<and> key \<in> K dst then {#key#} else {#})"
| "lost_refs _ K = {#}"

text \<open>What an event adds to the count of value strings over the strings in the tables: a write
  to a key that is there leaves its string behind, and the string of a rename or a move that
  enters the table has been given back with the context it was made in.\<close>

fun value_drift :: "server_event \<Rightarrow> (int \<Rightarrow> string set) \<Rightarrow> int" where
  "value_drift (KeyWritten db key draws) K = (if key \<in> K db then 1 else 0)"
| "value_drift (KeyRenamed db a b draws) K = (if b \<in> K db - {a} then 0 else - 1)"
| "value_drift (KeyMoved src dst key draws) K = (if src \<noteq> dst \<and> key \<in> K dst then 0 else - 1)"
| "value_drift _ K = 0"

fun keyspaces :: "server_event list \<Rightarrow> (int \<Rightarrow> string set) \<Rightarrow> int \<Rightarrow> string set" where
  "keyspaces [] K = K"
| "keyspaces (e # es) K = keyspaces es (keyspace e K)"

fun lost_all :: "server_event list \<Rightarrow> (int \<Rightarrow> string set) \<Rightarrow> string multiset" where
  "lost_all [] K = {#}"
| "lost_all (e # es) K = lost_refs e K + lost_all es (told e K)"

fun drift_all :: "server_event list \<Rightarrow> (int \<Rightarrow> string set) \<Rightarrow> int" where
  "drift_all [] K = 0"
| "drift_all (e # es) K = value_drift e K + drift_all es (told e K)"

definition told_all :: "server_event list \<Rightarrow> (int \<Rightarrow> string set) \<Rightarrow> int \<Rightarrow> string set" where
  "told_all es K = keyspaces (filter announced es) K"

lemma told_all_simps [simp]:
  "told_all [] K = K" "told_all (e # es) K = told_all es (told e K)"
  by (simp_all add: told_all_def told_def)

lemma told_all_announced: "\<forall>e\<in>set es. announced e \<Longrightarrow> told_all es K = keyspaces es K"
  by (simp add: told_all_def)

definition handled_generic :: "string list" where
  "handled_generic = [''del'', ''expired'', ''rename_from'', ''rename_to'', ''move_from'', ''move_to'']"

text \<open>The events a server of \<open>n\<close> databases sends.\<close>

fun legal_event :: "int \<Rightarrow> server_event \<Rightarrow> bool" where
  "legal_event n (KeyWritten db key draws) \<longleftrightarrow> 0 \<le> db \<and> db < n \<and> usable_draws draws"
| "legal_event n (KeyDeleted db key) \<longleftrightarrow> 0 \<le> db \<and> db < n"
| "legal_event n (KeyExpired db key) \<longleftrightarrow> 0 \<le> db \<and> db < n"
| "legal_event n (KeyRenamed db a b draws) \<longleftrightarrow> 0 \<le> db \<and> db < n \<and> usable_draws draws"
| "legal_event n (KeyMoved src dst key draws) \<longleftrightarrow>
     0 \<le> src \<and> src < n \<and> 0 \<le> dst \<and> dst < n \<and> usable_draws draws"
| "legal_event n (KeyRestored db key) \<longleftrightarrow> 0 \<le> db \<and> db < n"
| "legal_event n (KeyCopied db key) \<longleftrightarrow> 0 \<le> db \<and> db < n"
| "legal_event n (KeyEvicted db key) \<longleftrightarrow> 0 \<le> db \<and> db < n"
| "legal_event n (StreamWritten db key) \<longleftrightarrow> 0 \<le> db \<and> db < n"
| "legal_event n (OtherGeneric db event key) \<longleftrightarrow>
     event \<notin> set handled_generic \<and> event \<noteq> ''restore'' \<and> event \<noteq> ''copy_to''"
| "legal_event n (DbFlushed db) \<longleftrightarrow> 0 \<le> db \<and> db < n"
| "legal_event n AllFlushed \<longleftrightarrow> True"
| "legal_event n (FlushEnded db) \<longleftrightarrow> True"
| "legal_event n (CronTick clock child hz) \<longleftrightarrow> 1 \<le> hz \<and> hz \<le> 1000"

section \<open>Counting the references\<close>

lemma sum_fun_upd:
  fixes f :: "'a \<Rightarrow> 'b::comm_monoid_add"
  assumes "finite A" "a \<in> A"
  shows "(\<Sum>x\<in>A. (f(a := y)) x) + f a = (\<Sum>x\<in>A. f x) + y"
proof -
  have "(\<Sum>x\<in>A - {a}. (f(a := y)) x) = (\<Sum>x\<in>A - {a}. f x)" by (rule sum.cong) auto
  then show ?thesis using assms by (simp add: sum.remove [of A a] ac_simps)
qed

lemma index_refs_upd:
  assumes db: "0 \<le> db" "db < num_dbs s" and f: "same_frame s s'" and i: "index s' = (index s)(db := K)"
  shows "index_refs s' + db_refs (key_num s) (index s db) = index_refs s + db_refs (key_num s) K"
    and "index_size s' + card (index s db) = index_size s + card K"
proof -
  have n: "num_dbs s' = num_dbs s" "key_num s' = key_num s" using f by (simp_all add: same_frame_def)
  have e: "g (index s' (int d)) = ((\<lambda>d. g (index s (int d)))(nat db := g K)) d" for g :: "string set \<Rightarrow> 'a" and d
    using db i by auto
  have m: "nat db \<in> {..<nat (num_dbs s)}" using db by simp
  show "index_refs s' + db_refs (key_num s) (index s db) = index_refs s + db_refs (key_num s) K"
    unfolding index_refs_def n e [of "db_refs (key_num s)"]
    using sum_fun_upd [OF finite_lessThan m, of "\<lambda>d. db_refs (key_num s) (index s (int d))"] db(1) by simp
  show "index_size s' + card (index s db) = index_size s + card K"
    unfolding index_size_def n e [of card]
    using sum_fun_upd [OF finite_lessThan m, of "\<lambda>d. card (index s (int d))"] db(1) by simp
qed

definition key_refs :: "(string \<Rightarrow> slot_num) \<Rightarrow> string \<Rightarrow> string multiset" where
  "key_refs num key = (if sn_hastag (num key) then {#key, key#} else {#key#})"

lemma db_refs_insert:
  assumes "finite K" "key \<notin> K"
  shows "db_refs num (insert key K) = db_refs num K + key_refs num key"
proof -
  have "{k \<in> insert key K. sn_hastag (num k)} =
      (if sn_hastag (num key) then insert key {k \<in> K. sn_hastag (num k)} else {k \<in> K. sn_hastag (num k)})" by auto
  then show ?thesis using assms by (simp add: db_refs_def key_refs_def)
qed

lemma db_refs_empty [simp]: "db_refs num {} = {#}"
  by (simp add: db_refs_def)

section \<open>What every event keeps\<close>

text \<open>The state follows a key space \<open>K\<close>; the references held are those of the index and the
  lost ones, \<open>L\<close>. \<open>spare_vals\<close> counts the value strings beside those in the tables.\<close>

definition spare_vals :: "slots_state \<Rightarrow> int" where
  "spare_vals s = held_vals s - int (index_size s)"

definition tracks :: "(string \<Rightarrow> string \<Rightarrow> int) \<Rightarrow> int \<Rightarrow> (string \<Rightarrow> slot_num) \<Rightarrow> (int \<Rightarrow> string set) \<Rightarrow> string multiset
    \<Rightarrow> slots_state \<Rightarrow> bool" where
  "tracks cmp n num K L s \<longleftrightarrow> slots_inv cmp s \<and> num_dbs s = n \<and> key_num s = num \<and> index s = K \<and>
     held s = index_refs s + L"

lemma tracks_frame:
  assumes "same_frame s s'" "tracks cmp n num K L s"
  shows "num_dbs s' = n" "key_num s' = num" "num_dbs s = n" "key_num s = num" "index s = K" "slots_inv cmp s"
    "held s = index_refs s + L"
  using assms by (simp_all add: same_frame_def tracks_def)

lemma tracks_add:
  assumes c: "cmp_ok cmp" and t: "tracks cmp n num K L s" and db: "0 \<le> db" "db < n"
    and u: "usable_draws draws" and len: "card (K db) < 2 ^ 32 - 1"
  shows "\<exists>s'. Slots_Add cmp draws s db key = Some s' \<and> same_frame s s' \<and>
    tracks cmp n num (K(db := insert key (K db))) (L + (if key \<in> K db then {#key#} else {#})) s' \<and>
    spare_vals s' = spare_vals s + (if key \<in> K db then 1 else 0)"
proof -
  note t0 = tracks_frame [OF same_frame_refl t]
  obtain s' where s': "Slots_Add cmp draws s db key = Some s'" "slots_inv cmp s'" "same_frame s s'"
    "index s' = (index s)(db := insert key (index s db))"
    "held s' = held s + (if key \<notin> index s db \<and> sn_hastag (key_num s key) then {#key, key#} else {#key#})"
    "held_vals s' = held_vals s + 1"
    using Slots_Add_spec [OF c t0(6), of db draws key] db u len t0(1,5) by auto
  note r = index_refs_upd [OF _ _ s'(3,4), unfolded t0(1,4,5), OF db]
  have fin: "finite (K db)" using finite_index [of s db] t0(5) by simp
  have "held s' = index_refs s' + (L + (if key \<in> K db then {#key#} else {#})) \<and>
    spare_vals s' = spare_vals s + (if key \<in> K db then 1 else 0)"
  proof (cases "key \<in> K db")
    case True
    then have "insert key (K db) = K db" by auto
    then show ?thesis using r s'(5,6) t0(5,7) True by (simp add: spare_vals_def)
  next
    case False
    then have "index_refs s' = index_refs s + key_refs num key" "index_size s' = index_size s + 1"
      using r db_refs_insert [OF fin, of key num] fin by (simp_all add: ac_simps)
    then show ?thesis using s'(5,6) t0(4,5,7) False by (simp add: key_refs_def spare_vals_def)
  qed
  then show ?thesis using s' tracks_frame(1,2) [OF s'(3) t] t0(5) by (auto simp: tracks_def)
qed

lemma tracks_del:
  assumes c: "cmp_ok cmp" and t: "tracks cmp n num K L s" and db: "0 \<le> db" "db < n"
    and len: "card (K db) < 2 ^ 32 - 1"
  shows "\<exists>s'. Slots_Del cmp s db key = Some s' \<and> same_frame s s' \<and>
    tracks cmp n num (K(db := K db - {key})) L s' \<and> spare_vals s' = spare_vals s"
proof -
  note t0 = tracks_frame [OF same_frame_refl t]
  obtain s' where s': "Slots_Del cmp s db key = Some s'" "slots_inv cmp s'" "same_frame s s'"
    "index s' = (index s)(db := index s db - {key})"
    "held s' = held s - (if key \<notin> index s db then {#} else if sn_hastag (key_num s key) then {#key, key#} else {#key#})"
    "held_vals s' = held_vals s - (if key \<in> index s db then 1 else 0)"
    using Slots_Del_spec [OF c t0(6), of db key] db len t0(1,5) by auto
  note r = index_refs_upd [OF _ _ s'(3,4), unfolded t0(1,4,5), OF db]
  have fin: "finite (K db)" using finite_index [of s db] t0(5) by simp
  have "held s' = index_refs s' + L \<and> spare_vals s' = spare_vals s"
  proof (cases "key \<in> K db")
    case True
    then have "insert key (K db - {key}) = K db" by auto
    then have "db_refs num (K db) = db_refs num (K db - {key}) + key_refs num key"
      "card (K db) = Suc (card (K db - {key}))"
      using db_refs_insert [of "K db - {key}" key num] card_insert_disjoint [of "K db - {key}" key] fin by simp_all
    then have "index_refs s = index_refs s' + key_refs num key" "index_size s = index_size s' + 1"
      using r by (simp_all add: ac_simps)
    then show ?thesis using s'(5,6) t0(4,5,7) True by (simp add: key_refs_def spare_vals_def)
  next
    case False
    then have "K db - {key} = K db" by auto
    then show ?thesis using r s'(5,6) t0(5,7) False by (simp add: spare_vals_def)
  qed
  then show ?thesis using s' tracks_frame(1,2) [OF s'(3) t] t0(5) by (auto simp: tracks_def)
qed

lemma tracks_statics [simp]:
  "tracks cmp n num K L (s\<lparr>from_key := a\<rparr>) = tracks cmp n num K L s"
  "tracks cmp n num K L (s\<lparr>to_key := a\<rparr>) = tracks cmp n num K L s"
  "tracks cmp n num K L (s\<lparr>from_dbid := d\<rparr>) = tracks cmp n num K L s"
  "tracks cmp n num K L (s\<lparr>to_dbid := d\<rparr>) = tracks cmp n num K L s"
  "tracks cmp n num K L (s\<lparr>cmd_flag := f\<rparr>) = tracks cmp n num K L s"
  "tracks cmp n num K L (s\<lparr>held_vals := v\<rparr>) = tracks cmp n num K L s"
  by (simp_all add: tracks_def slots_inv_def index_def get_db_def index_refs_def index_size_def fun_eq_iff)

lemma spare_vals_statics [simp]:
  "spare_vals (s\<lparr>from_key := a\<rparr>) = spare_vals s" "spare_vals (s\<lparr>to_key := a\<rparr>) = spare_vals s"
  "spare_vals (s\<lparr>from_dbid := d\<rparr>) = spare_vals s" "spare_vals (s\<lparr>to_dbid := d\<rparr>) = spare_vals s"
  "spare_vals (s\<lparr>cmd_flag := f\<rparr>) = spare_vals s"
  "spare_vals (s\<lparr>held_vals := v\<rparr>) = spare_vals s + v - held_vals s"
  by (simp_all add: spare_vals_def index_def get_db_def index_size_def)

lemma auto_release_simps [simp]:
  "tracks cmp n num K L (auto_release m s) = tracks cmp n num K L s" "cmd_flag (auto_release m s) = cmd_flag s"
  "g_slots_meta_info (auto_release m s) = g_slots_meta_info s" "spare_vals (auto_release m s) = spare_vals s - int m"
  by (simp_all add: auto_release_def)

lemma tracks_flush:
  assumes c: "cmp_ok cmp" and t: "tracks cmp n num K L s" and db: "dbnum = - 1 \<or> 0 \<le> dbnum \<and> dbnum < n"
  shows "\<exists>s'. FlushdbCallback s True dbnum = Some s' \<and> same_frame s s' \<and>
    tracks cmp n num (if dbnum = - 1 then (\<lambda>db. {}) else K(dbnum := {})) L s' \<and> spare_vals s' = spare_vals s"
proof -
  note t0 = tracks_frame [OF same_frame_refl t]
  obtain s' where s': "FlushdbCallback s True dbnum = Some s'" "slots_inv cmp s'" "same_frame s s'"
    "index s' = (if dbnum = - 1 then (\<lambda>db. {}) else (index s)(dbnum := {}))"
    "held s' = held s - (if dbnum = - 1 then index_refs s else db_refs (key_num s) (index s dbnum))"
    "held_vals s' = held_vals s - int (if dbnum = - 1 then index_size s else card (index s dbnum))"
    using FlushdbCallback_spec [OF c t0(6), of dbnum True] db t0(1) by auto
  have "held s' = index_refs s' + L \<and> spare_vals s' = spare_vals s"
  proof (cases "dbnum = - 1")
    case True
    then have "index_refs s' = {#}" "index_size s' = 0" using s'(4) by (simp_all add: index_refs_def index_size_def)
    then show ?thesis using s'(5,6) t0(7) True by (simp add: spare_vals_def)
  next
    case False
    then have d: "0 \<le> dbnum" "dbnum < num_dbs s" "index s' = (index s)(dbnum := {})" using db t0(1) s'(4) by auto
    have "index_refs s = index_refs s' + db_refs num (K dbnum)" "index_size s = index_size s' + card (K dbnum)"
      using index_refs_upd [OF d(1,2) s'(3) d(3)] t0(4,5) by simp_all
    then show ?thesis using s'(5,6) t0(4,5,7) False by (simp add: spare_vals_def)
  qed
  then show ?thesis using s' tracks_frame(1,2) [OF s'(3) t] t0(5) by (auto simp: tracks_def)
qed

section \<open>The notifications\<close>

lemma generic_delete:
  "event = ''del'' \<or> event = ''expired'' \<Longrightarrow> NotifyGenericCallback cmp draws s db event key = Slots_Del cmp s db key"
  by (simp add: NotifyGenericCallback_def)

lemma generic_first:
  assumes "cmd_flag s = CMD_NONE"
  shows "NotifyGenericCallback cmp draws s db ''rename_from'' key = Some (s\<lparr>from_key := Some key\<rparr>)"
    and "NotifyGenericCallback cmp draws s db ''move_from'' key = Some (s\<lparr>from_dbid := db\<rparr>)"
  using assms by (simp_all add: NotifyGenericCallback_def save_event_def)

lemma generic_other:
  assumes "cmd_flag s = CMD_NONE" "event \<notin> set handled_generic"
  shows "NotifyGenericCallback cmp draws s db event key = Some s"
  using assms by (simp add: NotifyGenericCallback_def save_event_def handled_generic_def)

lemma generic_rename_to:
  assumes "from_key s = Some a"
  shows "NotifyGenericCallback cmp draws s db ''rename_to'' b = do {
     s \<leftarrow> Slots_Del cmp (s\<lparr>to_key := Some b, cmd_flag := CMD_RENAME\<rparr>) db a;
     s \<leftarrow> Slots_Add cmp draws s db b;
     let s = (if cmd_flag s = CMD_RENAME then s\<lparr>to_key := None, from_key := None\<rparr> else s);
     Some (auto_release 1 (s\<lparr>cmd_flag := CMD_NONE\<rparr>))
   }"
  using assms by (simp add: NotifyGenericCallback_def save_event_def)

lemma generic_move_to:
  "NotifyGenericCallback cmp draws s db ''move_to'' key = do {
     s \<leftarrow> Slots_Del cmp (s\<lparr>to_dbid := db, cmd_flag := CMD_MOVE\<rparr>) (from_dbid s) key;
     s \<leftarrow> Slots_Add cmp draws s db key;
     let s = (if cmd_flag s = CMD_RENAME then s\<lparr>to_key := None, from_key := None\<rparr> else s);
     Some (auto_release 1 (s\<lparr>cmd_flag := CMD_NONE\<rparr>))
   }"
  by (simp add: NotifyGenericCallback_def save_event_def)

lemma tracks_rename:
  assumes c: "cmp_ok cmp" and t: "tracks cmp n num K L s" and db: "0 \<le> db" "db < n"
    and u: "usable_draws draws" and len: "card (K db) < 2 ^ 32 - 1" and idle: "cmd_flag s = CMD_NONE"
  shows "\<exists>s'. handle_event cmp (KeyRenamed db a b draws) s = Some s' \<and> cmd_flag s' = CMD_NONE \<and>
    g_slots_meta_info s' = g_slots_meta_info s \<and>
    tracks cmp n num (K(db := insert b (K db - {a}))) (L + (if b \<in> K db - {a} then {#b#} else {#})) s' \<and>
    spare_vals s' = spare_vals s + value_drift (KeyRenamed db a b draws) K"
proof -
  let ?s1 = "s\<lparr>from_key := Some a, to_key := Some b, cmd_flag := CMD_RENAME\<rparr>"
  have t1: "tracks cmp n num K L ?s1" using t by simp
  obtain s2 where s2: "Slots_Del cmp ?s1 db a = Some s2" "same_frame ?s1 s2" "tracks cmp n num (K(db := K db - {a})) L s2"
    "spare_vals s2 = spare_vals s"
    using tracks_del [OF c t1 db len, of a] by auto
  have len2: "card ((K(db := K db - {a})) db) < 2 ^ 32 - 1"
    using len card_mono [of "K db" "K db - {a}"] finite_index [of s db] t by (force simp: tracks_def)
  obtain s3 where s3: "Slots_Add cmp draws s2 db b = Some s3" "same_frame s2 s3"
    "tracks cmp n num ((K(db := K db - {a}))(db := insert b ((K(db := K db - {a})) db)))
      (L + (if b \<in> (K(db := K db - {a})) db then {#b#} else {#})) s3"
    "spare_vals s3 = spare_vals s2 + (if b \<in> (K(db := K db - {a})) db then 1 else 0)"
    using tracks_add [OF c s2(3) db u len2] by blast
  let ?s4 = "auto_release 1 (s3\<lparr>to_key := None, from_key := None, cmd_flag := CMD_NONE\<rparr>)"
  have f: "cmd_flag s3 = CMD_RENAME" "g_slots_meta_info s3 = g_slots_meta_info s"
    using s2(2) s3(2) by (simp_all add: same_frame_def)
  have "handle_event cmp (KeyRenamed db a b draws) s = Some ?s4"
    using generic_first(1) [OF idle] generic_rename_to [of "s\<lparr>from_key := Some a\<rparr>" a] s2(1) s3(1) f(1) by simp
  then show ?thesis using s3(3,4) s2(4) f(2) by (intro exI [of _ ?s4]) simp
qed

lemma tracks_move:
  assumes c: "cmp_ok cmp" and t: "tracks cmp n num K L s" and src: "0 \<le> src" "src < n" and dst: "0 \<le> dst" "dst < n"
    and u: "usable_draws draws" and len: "card (K src) < 2 ^ 32 - 1" "card (K dst) < 2 ^ 32 - 1"
    and idle: "cmd_flag s = CMD_NONE"
  shows "\<exists>s'. handle_event cmp (KeyMoved src dst key draws) s = Some s' \<and> cmd_flag s' = CMD_NONE \<and>
    g_slots_meta_info s' = g_slots_meta_info s \<and>
    tracks cmp n num (keyspace (KeyMoved src dst key draws) K) (L + lost_refs (KeyMoved src dst key draws) K) s' \<and>
    spare_vals s' = spare_vals s + value_drift (KeyMoved src dst key draws) K"
proof -
  let ?s1 = "s\<lparr>from_dbid := src, to_dbid := dst, cmd_flag := CMD_MOVE\<rparr>"
  let ?K1 = "K(src := K src - {key})"
  have t1: "tracks cmp n num K L ?s1" using t by simp
  obtain s2 where s2: "Slots_Del cmp ?s1 src key = Some s2" "same_frame ?s1 s2" "tracks cmp n num ?K1 L s2"
    "spare_vals s2 = spare_vals s"
    using tracks_del [OF c t1 src len(1), of key] by auto
  have len2: "card (?K1 dst) < 2 ^ 32 - 1"
    using len card_mono [of "K src" "K src - {key}"] finite_index [of s src] t by (force simp: tracks_def)
  obtain s3 where s3: "Slots_Add cmp draws s2 dst key = Some s3" "same_frame s2 s3"
    "tracks cmp n num (?K1(dst := insert key (?K1 dst))) (L + (if key \<in> ?K1 dst then {#key#} else {#})) s3"
    "spare_vals s3 = spare_vals s2 + (if key \<in> ?K1 dst then 1 else 0)"
    using tracks_add [OF c s2(3) dst u len2] by blast
  let ?s4 = "auto_release 1 (s3\<lparr>cmd_flag := CMD_NONE\<rparr>)"
  have f: "cmd_flag s3 = CMD_MOVE" "g_slots_meta_info s3 = g_slots_meta_info s"
    using s2(2) s3(2) by (simp_all add: same_frame_def)
  have "handle_event cmp (KeyMoved src dst key draws) s = Some ?s4"
    using generic_first(2) [OF idle] generic_move_to [where s = "s\<lparr>from_dbid := src\<rparr>"] s2(1) s3(1) f(1) by simp
  moreover have "lost_refs (KeyMoved src dst key draws) K = (if key \<in> ?K1 dst then {#key#} else {#})" by auto
  moreover have "value_drift (KeyMoved src dst key draws) K = (if key \<in> ?K1 dst then 1 else 0) - 1" by auto
  ultimately show ?thesis using s3(3,4) s2(4) f(2) by (intro exI [of _ ?s4]) (simp add: Let_def)
qed

section \<open>Every event, and every sequence of events\<close>

lemma tracks_cron:
  assumes t: "tracks cmp n num K L s" and hz: "1 \<le> hz" "hz \<le> 1000" and idle: "cmd_flag s = CMD_NONE"
    and loops: "cronloops (g_slots_meta_info s) < INT_MAX"
  shows "\<exists>s'. handle_event cmp (CronTick clock child hz) s = Some s' \<and> cmd_flag s' = CMD_NONE \<and>
    cronloops (g_slots_meta_info s') = cronloops (g_slots_meta_info s) + 1 \<and> slots_size s' = slots_size s \<and> tracks cmp n num K L s' \<and>
    spare_vals s' = spare_vals s"
proof -
  note t0 = tracks_frame [OF same_frame_refl t]
  obtain close s' where s': "CronLoopCallback clock child hz s = Some (close, s')" "slots_inv cmp s'" "index s' = index s"
    "g_slots_meta_info s' = (g_slots_meta_info s)\<lparr>cronloops := cronloops (g_slots_meta_info s) + 1\<rparr>"
    "crc32tab s' = crc32tab s" "held s' = held s" "held_vals s' = held_vals s" "cmd_flag s' = cmd_flag s"
    using CronLoopCallback_spec [OF t0(6) hz loops, of clock child] by blast
  then have "tracks cmp n num K L s' \<and> spare_vals s' = spare_vals s"
    using t0 by (simp add: tracks_def spare_vals_def index_refs_def index_size_def)
  then show ?thesis using s' idle by simp
qed

definition event_ok :: "int \<Rightarrow> (int \<Rightarrow> string set) \<Rightarrow> slots_state \<Rightarrow> bool" where
  "event_ok n K s \<longleftrightarrow> cmd_flag s = CMD_NONE \<and> cronloops (g_slots_meta_info s) < INT_MAX \<and>
     (\<forall>db. card (K db) < 2 ^ 32 - 1)"

lemma tracks_event:
  assumes c: "cmp_ok cmp" and t: "tracks cmp n num K L s" and e: "legal_event n e" and ok: "event_ok n K s"
  shows "\<exists>s'. handle_event cmp e s = Some s' \<and> cmd_flag s' = CMD_NONE \<and>
    cronloops (g_slots_meta_info s') \<le> cronloops (g_slots_meta_info s) + 1 \<and> slots_size s' = slots_size s \<and>
    tracks cmp n num (told e K) (L + lost_refs e K) s' \<and> spare_vals s' = spare_vals s + value_drift e K"
proof -
  have idle: "cmd_flag s = CMD_NONE" and loops: "cronloops (g_slots_meta_info s) < INT_MAX"
    and len: "\<And>db. card (K db) < 2 ^ 32 - 1" using ok by (simp_all add: event_ok_def)
  have frame: "cmd_flag s' = CMD_NONE" "cronloops (g_slots_meta_info s') \<le> cronloops (g_slots_meta_info s) + 1"
    "slots_size s' = slots_size s"
    if "same_frame s s'" for s' using that idle by (simp_all add: same_frame_def)
  note told_def [simp]
  show ?thesis
  proof (cases e)
    case (KeyWritten db key draws)
    then have r: "0 \<le> db" "db < n" "usable_draws draws" using e by simp_all
    obtain s' where s': "Slots_Add cmp draws s db key = Some s'" "same_frame s s'"
      "tracks cmp n num (K(db := insert key (K db))) (L + (if key \<in> K db then {#key#} else {#})) s'"
      "spare_vals s' = spare_vals s + (if key \<in> K db then 1 else 0)"
      using tracks_add [OF c t r len] by blast
    then show ?thesis using frame [OF s'(2)] KeyWritten
      by (intro exI [of _ s']) (simp add: NotifyTypeChangeCallback_def)
  next
    case (KeyDeleted db key)
    then have r: "0 \<le> db" "db < n" using e by simp_all
    obtain s' where s': "Slots_Del cmp s db key = Some s'" "same_frame s s'"
      "tracks cmp n num (K(db := K db - {key})) L s'" "spare_vals s' = spare_vals s"
      using tracks_del [OF c t r len] by blast
    then show ?thesis using frame [OF s'(2)] KeyDeleted by (intro exI [of _ s']) (simp add: generic_delete)
  next
    case (KeyExpired db key)
    then have r: "0 \<le> db" "db < n" using e by simp_all
    obtain s' where s': "Slots_Del cmp s db key = Some s'" "same_frame s s'"
      "tracks cmp n num (K(db := K db - {key})) L s'" "spare_vals s' = spare_vals s"
      using tracks_del [OF c t r len] by blast
    then show ?thesis using frame [OF s'(2)] KeyExpired by (intro exI [of _ s']) (simp add: generic_delete)
  next
    case (KeyRenamed db a b draws)
    then have r: "0 \<le> db" "db < n" "usable_draws draws" using e by simp_all
    obtain s' where "handle_event cmp (KeyRenamed db a b draws) s = Some s'" "cmd_flag s' = CMD_NONE"
      "g_slots_meta_info s' = g_slots_meta_info s"
      "tracks cmp n num (K(db := insert b (K db - {a}))) (L + (if b \<in> K db - {a} then {#b#} else {#})) s'"
      "spare_vals s' = spare_vals s + value_drift (KeyRenamed db a b draws) K"
      using tracks_rename [OF c t r len idle] by blast
    then show ?thesis using KeyRenamed by (intro exI [of _ s']) simp
  next
    case (KeyMoved src dst key draws)
    then have r: "0 \<le> src" "src < n" "0 \<le> dst" "dst < n" "usable_draws draws" using e by simp_all
    obtain s' where "handle_event cmp e s = Some s'" "cmd_flag s' = CMD_NONE"
      "g_slots_meta_info s' = g_slots_meta_info s"
      "tracks cmp n num (keyspace e K) (L + lost_refs e K) s'" "spare_vals s' = spare_vals s + value_drift e K"
      using tracks_move [OF c t r len len idle] KeyMoved by blast
    then show ?thesis using KeyMoved by (intro exI [of _ s']) simp
  next
    case (OtherGeneric db event key)
    then show ?thesis using generic_other [OF idle, of event] t e idle by simp
  next
    case (KeyRestored db key)
    then show ?thesis using generic_other [OF idle, of "''restore''"] t idle by (simp add: handled_generic_def)
  next
    case (KeyCopied db key)
    then show ?thesis using generic_other [OF idle, of "''copy_to''"] t idle by (simp add: handled_generic_def)
  next
    case (KeyEvicted db key)
    then show ?thesis using t idle by simp
  next
    case (StreamWritten db key)
    then show ?thesis using t idle by simp
  next
    case (DbFlushed db)
    then have r: "db = - 1 \<or> 0 \<le> db \<and> db < n" "db \<noteq> - 1" using e by simp_all
    obtain s' where s': "FlushdbCallback s True db = Some s'" "same_frame s s'" "tracks cmp n num (K(db := {})) L s'"
      "spare_vals s' = spare_vals s" using tracks_flush [OF c t r(1)] r(2) by auto
    then show ?thesis using frame [OF s'(2)] DbFlushed by (intro exI [of _ s']) simp
  next
    case AllFlushed
    obtain s' where s': "FlushdbCallback s True (- 1) = Some s'" "same_frame s s'" "tracks cmp n num (\<lambda>db. {}) L s'"
      "spare_vals s' = spare_vals s" using tracks_flush [OF c t, of "- 1"] by auto
    then show ?thesis using frame [OF s'(2)] AllFlushed by (intro exI [of _ s']) simp
  next
    case (FlushEnded db)
    then show ?thesis using t idle by (simp add: FlushdbCallback_def)
  next
    case (CronTick clock child hz)
    then have hz: "1 \<le> hz" "hz \<le> 1000" using e by simp_all
    obtain s' where "handle_event cmp (CronTick clock child hz) s = Some s'" "cmd_flag s' = CMD_NONE"
      "cronloops (g_slots_meta_info s') = cronloops (g_slots_meta_info s) + 1" "slots_size s' = slots_size s" "tracks cmp n num K L s'"
      "spare_vals s' = spare_vals s" using tracks_cron [OF t hz idle loops] by blast
    then show ?thesis using CronTick by (intro exI [of _ s']) simp
  qed
qed

text \<open>An event adds at most one key to a database.\<close>

lemma told_growth:
  assumes "\<forall>db. finite (K db) \<and> card (K db) \<le> m"
  shows "finite (told e K db) \<and> card (told e K db) \<le> Suc m"
proof -
  have ins: "card (insert k (K d - X)) \<le> Suc m" for k d X
    using card_insert_le_m1 [of "Suc m" "K d - X" k] assms card_mono [of "K d" "K d - X"]
    by (metis Diff_subset card_insert_if finite_Diff le_SucI le_trans not_less_eq_eq)
  have del: "card (K d - X) \<le> Suc m" for d X
    using assms card_mono [of "K d" "K d - X"] by (metis Diff_subset le_SucI le_trans)
  have m: "card (K d) \<le> Suc m" for d using assms by (simp add: le_SucI)
  have ins0: "card (insert k (K d)) \<le> Suc m" for k d using ins [of k d "{}"] by simp
  have "finite (keyspace e K db) \<and> card (keyspace e K db) \<le> Suc m"
    using assms ins del m ins0 by (cases e) (auto simp: Let_def)
  then show ?thesis using assms m by (simp add: told_def)
qed

definition initial :: "u32 \<Rightarrow> int \<Rightarrow> int \<Rightarrow> bool \<Rightarrow> bool \<Rightarrow> string option \<Rightarrow> slots_state" where
  "initial sz dbs num_threads rehashing asynchronous cpulist =
     Slots_Init slots_boot sz dbs num_threads rehashing asynchronous cpulist"

lemma tracks_initial:
  assumes "sz \<noteq> 0" "0 \<le> dbs"
  shows "tracks cmp dbs (slots_num crc32_init sz) (\<lambda>db. {}) {#} (initial sz dbs nt rh as cl)"
    "cmd_flag (initial sz dbs nt rh as cl) = CMD_NONE" "cronloops (g_slots_meta_info (initial sz dbs nt rh as cl)) = 0"
    "spare_vals (initial sz dbs nt rh as cl) = 0" "slots_size (initial sz dbs nt rh as cl) = unat sz"
proof -
  let ?s = "initial sz dbs nt rh as cl"
  have i: "slots_inv cmp ?s \<and> index ?s = (\<lambda>db. {})"
    unfolding initial_def by (rule Slots_Init_spec [OF assms]) (simp_all add: slots_boot_def)
  moreover have f: "num_dbs ?s = dbs" "key_num ?s = slots_num crc32_init sz" "held ?s = {#}" "held_vals ?s = 0"
    by (simp_all add: initial_def Slots_Init_def slots_boot_def)
  moreover have "index_refs ?s = {#}" "index_size ?s = 0" using i by (simp_all add: index_refs_def index_size_def)
  ultimately show "tracks cmp dbs (slots_num crc32_init sz) (\<lambda>db. {}) {#} ?s" "spare_vals ?s = 0"
    by (simp_all add: tracks_def spare_vals_def)
  show "cmd_flag ?s = CMD_NONE" "cronloops (g_slots_meta_info ?s) = 0" "slots_size ?s = unat sz"
    by (simp_all add: initial_def Slots_Init_def slots_boot_def)
qed

lemma run_events_tracks:
  assumes "cmp_ok cmp" "tracks cmp n num K L s" "\<forall>e\<in>set es. legal_event n e" "cmd_flag s = CMD_NONE"
    and "\<forall>db. finite (K db) \<and> card (K db) \<le> m" "cronloops (g_slots_meta_info s) \<le> int m"
    and "m + length es < 2 ^ 31"
  shows "\<exists>s'. run_events cmp es s = Some s' \<and> cmd_flag s' = CMD_NONE \<and> slots_size s' = slots_size s \<and>
    tracks cmp n num (told_all es K) (L + lost_all es K) s' \<and> spare_vals s' = spare_vals s + drift_all es K"
  using assms
proof (induction es arbitrary: s K L m)
  case Nil
  then show ?case by simp
next
  case (Cons e es)
  have lt: "m < 2 ^ 31 - 1" using Cons.prems(7) by simp
  have "card (K db) < 2 ^ 32 - 1" for db using le_less_trans [OF _ lt, of "card (K db)"] Cons.prems(5) by simp
  then have ok: "event_ok n K s"
    using Cons.prems(4,6) lt by (simp add: event_ok_def INT_MAX_def)
  have le: "legal_event n e" using Cons.prems(3) by simp
  obtain s1 where s1: "handle_event cmp e s = Some s1" "cmd_flag s1 = CMD_NONE"
    "cronloops (g_slots_meta_info s1) \<le> cronloops (g_slots_meta_info s) + 1"
    "tracks cmp n num (told e K) (L + lost_refs e K) s1" "spare_vals s1 = spare_vals s + value_drift e K"
    "slots_size s1 = slots_size s"
    using tracks_event [OF Cons.prems(1,2) le ok] by blast
  have g: "\<forall>db. finite (told e K db) \<and> card (told e K db) \<le> Suc m"
    using told_growth [OF Cons.prems(5)] by blast
  obtain s2 where "run_events cmp es s1 = Some s2" "cmd_flag s2 = CMD_NONE" "slots_size s2 = slots_size s1"
    "tracks cmp n num (told_all es (told e K)) (L + lost_refs e K + lost_all es (told e K)) s2"
    "spare_vals s2 = spare_vals s1 + drift_all es (told e K)"
    using Cons.IH [OF Cons.prems(1) s1(4) _ s1(2) g] Cons.prems(3,6,7) s1(3) by auto
  then show ?case using s1(1,5,6) by (intro exI [of _ s2]) (simp add: add.assoc)
qed

end
