(* ===== verification/IndexProps.thy ===== *)
theory IndexProps
  imports SlotEvents
begin

text \<open>
  The properties of the slot index: what it holds after any sequence of events of the server,
  what it gives back when it is released, and what its handlers do one by one.
\<close>

section \<open>A comparison of strings\<close>

text \<open>The order \<open>RedisModule_StringCompare\<close> documents: bytes from the left, then the length.\<close>

fun bytes_cmp :: "string \<Rightarrow> string \<Rightarrow> int" where
  "bytes_cmp [] [] = 0"
| "bytes_cmp [] (y # ys) = - 1"
| "bytes_cmp (x # xs) [] = 1"
| "bytes_cmp (x # xs) (y # ys) = (if x = y then bytes_cmp xs ys else of_char x - of_char y)"

lemma char_diff: "(of_char x :: int) - of_char y = 0 \<longleftrightarrow> x = y"
  by simp

lemma bytes_cmp_eq: "bytes_cmp a b = 0 \<longleftrightarrow> a = b"
  by (induction a b rule: bytes_cmp.induct) auto

lemma bytes_cmp_swap: "bytes_cmp b a = - bytes_cmp a b"
  by (induction a b rule: bytes_cmp.induct) auto

lemma bytes_cmp_trans: "bytes_cmp a b < 0 \<Longrightarrow> bytes_cmp b c < 0 \<Longrightarrow> bytes_cmp a c < 0"
proof (induction a b arbitrary: c rule: bytes_cmp.induct)
  case (2 y ys)
  then show ?case by (cases c) auto
next
  case (4 x xs y ys)
  then show ?case by (cases c) (auto split: if_splits)
qed auto

lemma bytes_cmp_ok: "cmp_ok bytes_cmp"
  unfolding cmp_ok_def
proof (intro conjI allI impI)
  show "(bytes_cmp a b = 0) = (a = b)" for a b by (rule bytes_cmp_eq)
  show "(bytes_cmp a b < 0) = (0 < bytes_cmp b a)" for a b using bytes_cmp_swap [of a b] by linarith
  show "bytes_cmp a c < 0" if "bytes_cmp a b < 0" "bytes_cmp b c < 0" for a b c using that by (rule bytes_cmp_trans)
qed

section \<open>Reachable states\<close>

inductive server_run :: "(string \<Rightarrow> string \<Rightarrow> int) \<Rightarrow> int \<Rightarrow> slots_state \<Rightarrow> nat \<Rightarrow> slots_state \<Rightarrow> bool"
  for cmp :: "string \<Rightarrow> string \<Rightarrow> int" and n :: int and s0 :: slots_state where
  server_start: "server_run cmp n s0 0 s0"
| server_step: "server_run cmp n s0 k s \<Longrightarrow> legal_event n e \<Longrightarrow> handle_event cmp e s = Some s' \<Longrightarrow>
    server_run cmp n s0 (Suc k) s'"

inductive_cases server_run_SucE: "server_run cmp n s0 (Suc k) s"

lemma server_run_tracks:
  assumes "server_run cmp n s0 k s" "cmp_ok cmp" "tracks cmp n num (\<lambda>db. {}) {#} s0" "cmd_flag s0 = CMD_NONE"
    and "cronloops (g_slots_meta_info s0) = 0" "k < 2 ^ 31"
  shows "\<exists>K L. tracks cmp n num K L s \<and> cmd_flag s = CMD_NONE \<and> cronloops (g_slots_meta_info s) \<le> int k \<and>
    (\<forall>db. finite (K db) \<and> card (K db) \<le> k)"
  using assms
proof (induction rule: server_run.induct)
  case server_start
  then show ?case by (intro exI [of _ "\<lambda>db. {}"] exI [of _ "{#}"]) simp
next
  case (server_step k s e s')
  then obtain K L where s: "tracks cmp n num K L s" "cmd_flag s = CMD_NONE" "cronloops (g_slots_meta_info s) \<le> int k"
    "\<forall>db. finite (K db) \<and> card (K db) \<le> k" by auto
  have k: "k < 2 ^ 31 - 1" using server_step.prems(5) by simp
  have "card (K db) < 2 ^ 32 - 1" for db using le_less_trans [OF _ k, of "card (K db)"] s(4) by simp
  then have "event_ok n K s" using s(2,3) k by (simp add: event_ok_def INT_MAX_def)
  from tracks_event [OF server_step.prems(1) s(1) server_step.hyps(2) this]
  have t: "tracks cmp n num (told e K) (L + lost_refs e K) s'" "cmd_flag s' = CMD_NONE"
    "cronloops (g_slots_meta_info s') \<le> cronloops (g_slots_meta_info s) + 1"
    using server_step.hyps(3) by auto
  have "\<forall>db. finite (told e K db) \<and> card (told e K db) \<le> Suc k" using told_growth [OF s(4)] by blast
  then show ?case using t s(3) by (intro exI [of _ "told e K"] exI [of _ "L + lost_refs e K"]) simp
qed

section \<open>Properties of whole runs\<close>

lemma run_initial:
  assumes "cmp_ok cmp" "sz \<noteq> 0" "0 \<le> dbs" "\<forall>e\<in>set es. legal_event dbs e" "length es < 2 ^ 31"
  shows "\<exists>s. run_events cmp es (initial sz dbs nt rh as cl) = Some s \<and>
    tracks cmp dbs (slots_num crc32_init sz) (told_all es (\<lambda>db. {})) (lost_all es (\<lambda>db. {})) s \<and>
    spare_vals s = drift_all es (\<lambda>db. {}) \<and> slots_size s = unat sz"
proof -
  let ?s = "initial sz dbs nt rh as cl"
  have t: "tracks cmp dbs (slots_num crc32_init sz) (\<lambda>db. {}) {#} ?s" by (rule tracks_initial(1) [OF assms(2,3)])
  have i: "cmd_flag ?s = CMD_NONE" "cronloops (g_slots_meta_info ?s) \<le> int 0"
    using tracks_initial(2,3) [OF assms(2,3)] by simp_all
  from run_events_tracks [OF assms(1) t assms(4) i(1), of 0] i(2) assms(5) tracks_initial(4,5) [OF assms(2,3)]
  show ?thesis by auto
qed

text \<open>C1: After any sequence of fewer than \<open>2^31\<close> events of the server, none of the handlers
  having failed, the index of every database is the set of keys left in it by the events that
  are announced to the module, and its invariant holds: each key in the table of its slot with
  its checksum, the tagged keys in order in the skip list. When no key was restored, copied or
  evicted and no stream written, that set is the key space of the server; these four events
  change the key space and leave the index as it is.\<close>

theorem index_tracks_keyspace:
  assumes "cmp_ok cmp" and "sz \<noteq> 0" and "0 \<le> dbs" and "\<forall>e\<in>set es. legal_event dbs e" and "length es < 2 ^ 31"
  shows "\<exists>s. run_events cmp es (initial sz dbs nt rh as cl) = Some s \<and> slots_inv cmp s \<and>
    index s = keyspaces (filter announced es) (\<lambda>db. {}) \<and>
    ((\<forall>e\<in>set es. announced e) \<longrightarrow> index s = keyspaces es (\<lambda>db. {}))"
  using run_initial [OF assms, of nt rh as cl] told_all_announced [of es "\<lambda>db. {}"]
  by (auto simp: tracks_def told_all_def)

definition demo_events :: "server_event list" where
  "demo_events = [KeyWritten 0 ''a{t}'' [65535], KeyWritten 0 ''b'' [65535], KeyWritten 0 ''b'' [65535],
     KeyRenamed 0 ''b'' ''c{t}'' [0, 65535], OtherGeneric 0 ''expire'' ''a{t}'', KeyRestored 0 ''d'', CronTick int False 10,
     KeyMoved 0 1 ''a{t}'' [65535]]"

lemma draws_ok: "usable_draws [65535]" "usable_draws [0, 65535]"
  by (simp_all add: usable_draws_def draws_1 draws_2)

lemma demo_legal: "\<forall>e\<in>set demo_events. legal_event 2 e" "length demo_events < 2 ^ 31"
  by (simp_all add: demo_events_def draws_ok handled_generic_def)

lemma demo_keyspaces:
  "keyspaces (filter announced demo_events) (\<lambda>db. {}) 0 = {''c{t}''}"
  "keyspaces (filter announced demo_events) (\<lambda>db. {}) 1 = {''a{t}''}"
  "keyspaces demo_events (\<lambda>db. {}) 0 = {''c{t}'', ''d''}"
  "lost_all demo_events (\<lambda>db. {}) = {#''b''#}" "drift_all demo_events (\<lambda>db. {}) = - 1"
  by (auto simp: demo_events_def told_def)

lemma index_tracks_keyspace_witness:
  "\<exists>s. run_events bytes_cmp demo_events (initial 16 2 0 True False None) = Some s \<and>
    slots_inv bytes_cmp s \<and> index s 0 = {''c{t}''} \<and> index s 1 = {''a{t}''} \<and>
    keyspaces demo_events (\<lambda>db. {}) 0 = {''c{t}'', ''d''}"
proof -
  obtain s where "run_events bytes_cmp demo_events (initial 16 2 0 True False None) = Some s"
    "slots_inv bytes_cmp s" "index s = keyspaces (filter announced demo_events) (\<lambda>db. {})"
    using index_tracks_keyspace [OF bytes_cmp_ok _ _ demo_legal, of 16 0 True False None] by auto
  then show ?thesis using demo_keyspaces by simp
qed


lemma inv_initial: "slots_inv bytes_cmp (initial 16 2 0 True False None)"
  "num_dbs (initial 16 2 0 True False None) = 2" "slots_size (initial 16 2 0 True False None) = 16"
  using tracks_initial(1) [of 16 2 bytes_cmp 0 True False None] by (simp_all add: tracks_def initial_def Slots_Init_def)

text \<open>A state with a key whose tag is \<open>t\<close>.\<close>

definition demo_state :: slots_state where
  "demo_state = the (Slots_Add bytes_cmp [65535] (initial 16 2 0 True False None) 0 ''a{t}'')"

lemma demo_state:
  "Slots_Add bytes_cmp [65535] (initial 16 2 0 True False None) 0 ''a{t}'' = Some demo_state"
  "slots_inv bytes_cmp demo_state" "num_dbs demo_state = 2" "slots_size demo_state = 16" "cmd_flag demo_state = CMD_NONE"
  "key_num demo_state = slots_num crc32_init 16" "index demo_state = (\<lambda>db. if db = 0 then {''a{t}''} else {})"
  "cronloops (g_slots_meta_info demo_state) = 0" "from_key demo_state = None"
proof -
  let ?s = "initial 16 2 0 True False None"
  note i = tracks_initial(1) [of 16 2 bytes_cmp 0 True False None]
  obtain s' where s': "Slots_Add bytes_cmp [65535] ?s 0 ''a{t}'' = Some s'" "same_frame ?s s'"
    "tracks bytes_cmp 2 (slots_num crc32_init 16) ((\<lambda>db. {})(0 := insert ''a{t}'' {})) {#} s'"
    using tracks_add [OF bytes_cmp_ok i, of 0 "[65535]" "''a{t}''"] draws_ok by auto
  then have e: "demo_state = s'" by (simp add: demo_state_def)
  show "Slots_Add bytes_cmp [65535] ?s 0 ''a{t}'' = Some demo_state" using s'(1) e by simp
  show "slots_inv bytes_cmp demo_state" "num_dbs demo_state = 2" "key_num demo_state = slots_num crc32_init 16"
    "index demo_state = (\<lambda>db. if db = 0 then {''a{t}''} else {})"
    using s'(3) unfolding e by (auto simp: tracks_def fun_eq_iff)
  show "slots_size demo_state = 16" "cmd_flag demo_state = CMD_NONE" "cronloops (g_slots_meta_info demo_state) = 0"
    "from_key demo_state = None"
    using s'(2) inv_initial(3) unfolding e
    by (simp_all add: same_frame_def initial_def Slots_Init_def slots_boot_def)
qed





text \<open>C5: Releasing the index after any sequence of events gives back every reference to a key it
  took except one per write, rename or move to a key that was in the index already:
  \<open>Slots_Add\<close> keeps the reference \<open>m_dictAdd\<close> did not store. The value strings do not come out
  even either: one is left for every write to a key that is there, and one is given back twice
  for every rename or move that enters a key, by the automatic memory of the callback and by
  the table.\<close>

theorem release_after_run:
  assumes "cmp_ok cmp" and "sz \<noteq> 0" and "0 \<le> dbs" and "\<forall>e\<in>set es. legal_event dbs e" and "length es < 2 ^ 31"
  shows "\<exists>s s'. run_events cmp es (initial sz dbs nt rh as cl) = Some s \<and> ShutdownCallback s = Some s' \<and>
    db_slot_infos s' = None \<and> \<not> slotsmgrt_cached_ctx_connects s' \<and>
    held s' = lost_all es (\<lambda>db. {}) \<and> held_vals s' = drift_all es (\<lambda>db. {})"
proof -
  obtain s where s: "run_events cmp es (initial sz dbs nt rh as cl) = Some s"
    "tracks cmp dbs (slots_num crc32_init sz) (told_all es (\<lambda>db. {})) (lost_all es (\<lambda>db. {})) s"
    "spare_vals s = drift_all es (\<lambda>db. {})"
    using run_initial [OF assms] by blast
  then have inv: "slots_inv cmp s" by (simp add: tracks_def)
  show ?thesis
    using s Slots_Free_spec [OF assms(1) inv] by (simp add: ShutdownCallback_def dropped_def tracks_def spare_vals_def)
qed

text \<open>The value of \<open>b\<close> is left after its second write; those of the renamed and the moved key
  are freed twice.\<close>

lemma release_after_run_witness:
  "\<exists>s s'. run_events bytes_cmp demo_events (initial 16 2 0 True False None) = Some s \<and>
    ShutdownCallback s = Some s' \<and> held s' = {#''b''#} \<and> held_vals s' = 1 - 2"
proof -
  obtain s s' where "run_events bytes_cmp demo_events (initial 16 2 0 True False None) = Some s"
    "ShutdownCallback s = Some s'" "held s' = lost_all demo_events (\<lambda>db. {})"
    "held_vals s' = drift_all demo_events (\<lambda>db. {})"
    using release_after_run [OF bytes_cmp_ok _ _ demo_legal, of 16 0 True False None] by auto
  then show ?thesis using demo_keyspaces(4,5) by simp
qed

text \<open>C4: In every state that events of the server can reach, the invariant holds, no pair of
  notifications is half done, and every reference to a key the index will give back is held.\<close>

theorem reachable_safe:
  assumes "server_run cmp dbs (initial sz dbs nt rh as cl) k s"
    and "cmp_ok cmp" and "sz \<noteq> 0" and "0 \<le> dbs" and "k < 2 ^ 31"
  shows "slots_inv cmp s \<and> cmd_flag s = CMD_NONE \<and> index_refs s \<subseteq># held s"
proof -
  let ?s = "initial sz dbs nt rh as cl"
  have t: "tracks cmp dbs (slots_num crc32_init sz) (\<lambda>db. {}) {#} ?s" by (rule tracks_initial(1) [OF assms(3,4)])
  have i: "cmd_flag ?s = CMD_NONE" "cronloops (g_slots_meta_info ?s) = 0"
    using tracks_initial(2,3) [OF assms(3,4)] by simp_all
  show ?thesis using server_run_tracks [OF assms(1,2) t i assms(5)] by (auto simp: tracks_def)
qed

lemma demo_reachable: "server_run bytes_cmp 2 (initial 16 2 0 True False None) 1 demo_state"
proof -
  have "handle_event bytes_cmp (KeyWritten 0 ''a{t}'' [65535]) (initial 16 2 0 True False None) = Some demo_state"
    using demo_state(1) by (simp add: NotifyTypeChangeCallback_def)
  from server_step [OF server_start _ this, of 2] show ?thesis using draws_ok by simp
qed

lemma reachable_safe_witness:
  "slots_inv bytes_cmp demo_state \<and> cmd_flag demo_state = CMD_NONE \<and> index_refs demo_state \<subseteq># held demo_state"
  using reachable_safe [OF demo_reachable bytes_cmp_ok] by simp

text \<open>C2: In every reachable state every event of the server is handled: no handler leaves its
  tables, meets a null pointer, divides by zero or runs forever. An event the module is told of
  changes the index as it changes the key space, any other leaves it alone.\<close>

theorem every_event_handled:
  assumes "server_run cmp dbs (initial sz dbs nt rh as cl) k s"
    and "cmp_ok cmp" and "sz \<noteq> 0" and "0 \<le> dbs" and "k < 2 ^ 31 - 1" and "legal_event dbs e"
  shows "\<exists>s'. handle_event cmp e s = Some s' \<and>
    index s' = (if announced e then keyspace e (index s) else index s)"
proof -
  let ?s = "initial sz dbs nt rh as cl"
  have t: "tracks cmp dbs (slots_num crc32_init sz) (\<lambda>db. {}) {#} ?s" by (rule tracks_initial(1) [OF assms(3,4)])
  have i: "cmd_flag ?s = CMD_NONE" "cronloops (g_slots_meta_info ?s) = 0"
    using tracks_initial(2,3) [OF assms(3,4)] by simp_all
  have k: "k < 2 ^ 31" using assms(5) by simp
  obtain K L where s: "tracks cmp dbs (slots_num crc32_init sz) K L s" "cmd_flag s = CMD_NONE"
    "cronloops (g_slots_meta_info s) \<le> int k" "\<forall>db. card (K db) \<le> k"
    using server_run_tracks [OF assms(1,2) t i k] by blast
  have "card (K db) < 2 ^ 32 - 1" for db using le_less_trans [OF _ assms(5), of "card (K db)"] s(4) by simp
  then have "event_ok dbs K s" using s(2,3) assms(5) by (simp add: event_ok_def INT_MAX_def)
  from tracks_event [OF assms(2) s(1) assms(6) this] show ?thesis using s(1) by (auto simp: tracks_def told_def)
qed

lemma every_event_handled_witness:
  "\<exists>s'. handle_event bytes_cmp (KeyMoved 0 1 ''a{t}'' [65535]) demo_state = Some s' \<and> index s' 1 = {''a{t}''}"
  using every_event_handled [OF demo_reachable bytes_cmp_ok, of "KeyMoved 0 1 ''a{t}'' [65535]"] draws_ok demo_state(7)
  by auto

section \<open>Properties of the handlers\<close>

text \<open>C8: Adding a key puts it into the index of its database and changes no other; a key that
  is there already keeps the index as it is, but its reference and the value string stay held.\<close>

theorem Slots_Add_indexes:
  assumes "cmp_ok cmp" and "slots_inv cmp s" and "0 \<le> db" and "db < num_dbs s"
    and "usable_draws draws" and "card (index s db) < 2 ^ 32 - 1"
  shows "\<exists>s'. Slots_Add cmp draws s db key = Some s' \<and> slots_inv cmp s' \<and>
    index s' = (index s)(db := insert key (index s db)) \<and> held_vals s' = held_vals s + 1 \<and>
    (key \<in> index s db \<longrightarrow> index s' = index s \<and> held s' = held s + {#key#})"
proof -
  obtain s' where s': "Slots_Add cmp draws s db key = Some s'" "slots_inv cmp s'"
    "index s' = (index s)(db := insert key (index s db))" "held_vals s' = held_vals s + 1"
    "held s' = held s + (if key \<notin> index s db \<and> sn_hastag (key_num s key) then {#key, key#} else {#key#})"
    using Slots_Add_spec [OF assms, of key] by blast
  moreover have "index s' = index s" if "key \<in> index s db" using s'(3) that by (simp add: insert_absorb)
  ultimately show ?thesis by auto
qed

lemma Slots_Add_indexes_witness:
  "\<exists>s'. Slots_Add bytes_cmp [65535] demo_state 0 ''a{t}'' = Some s' \<and> index s' = index demo_state \<and>
    held s' = held demo_state + {#''a{t}''#}"
  using Slots_Add_indexes [OF bytes_cmp_ok demo_state(2), of 0 "[65535]" "''a{t}''"] demo_state draws_ok by auto

text \<open>C9: Deleting a key takes it out of the index of its database and gives back its
  references, two for a tagged key; an unknown key changes nothing.\<close>

theorem Slots_Del_removes:
  assumes "cmp_ok cmp" and "slots_inv cmp s" and "0 \<le> db" and "db < num_dbs s" and "card (index s db) < 2 ^ 32 - 1"
  shows "\<exists>s'. Slots_Del cmp s db key = Some s' \<and> slots_inv cmp s' \<and>
    index s' = (index s)(db := index s db - {key}) \<and>
    (if key \<in> index s db
     then held s' = held s - key_refs (key_num s) key \<and> held_vals s' = held_vals s - 1
     else held s' = held s \<and> held_vals s' = held_vals s)"
proof -
  obtain s' where s': "Slots_Del cmp s db key = Some s'" "slots_inv cmp s'"
    "index s' = (index s)(db := index s db - {key})"
    "held s' = held s - (if key \<notin> index s db then {#} else if sn_hastag (key_num s key) then {#key, key#} else {#key#})"
    "held_vals s' = held_vals s - (if key \<in> index s db then 1 else 0)"
    using Slots_Del_spec [OF assms, of key] by blast
  then show ?thesis by (auto simp: key_refs_def)
qed

lemma Slots_Del_removes_witness:
  "\<exists>s'. Slots_Del bytes_cmp demo_state 0 ''a{t}'' = Some s' \<and> index s' 0 = {}"
  using Slots_Del_removes [OF bytes_cmp_ok demo_state(2), of 0 "''a{t}''"] demo_state by auto

text \<open>A \<open>rename_to\<close> that no \<open>rename_from\<close> came before passes a null key to \<open>Slots_Del\<close>.\<close>

theorem rename_to_alone:
  assumes "from_key s = None"
  shows "NotifyGenericCallback cmp draws s db ''rename_to'' key = None"
  using assms by (simp add: NotifyGenericCallback_def save_event_def)

lemma rename_to_alone_witness:
  "NotifyGenericCallback bytes_cmp [65535] demo_state 0 ''rename_to'' ''b'' = None"
  by (rule rename_to_alone) (rule demo_state(9))

text \<open>The generic notifications other than the six the code tests for are ignored; a
  \<open>restore\<close> of a key does not enter it into the index.\<close>

theorem other_events_ignored:
  assumes "cmd_flag s = CMD_NONE" and "event \<notin> set handled_generic"
  shows "NotifyGenericCallback cmp draws s db event key = Some s"
  using assms by (rule generic_other)

lemma other_events_ignored_witness:
  "NotifyGenericCallback bytes_cmp [65535] demo_state 0 ''restore'' ''b'' = Some demo_state"
  using other_events_ignored [OF demo_state(5), of "''restore''"] by (simp add: handled_generic_def)

text \<open>C27: A flush empties the databases it names, at its start only, and gives back their
  references.\<close>

theorem FlushdbCallback_empties:
  assumes "cmp_ok cmp" and "slots_inv cmp s" and "dbnum = - 1 \<or> 0 \<le> dbnum \<and> dbnum < num_dbs s"
  shows "FlushdbCallback s False dbnum = Some s \<and>
    (\<exists>s'. FlushdbCallback s True dbnum = Some s' \<and> slots_inv cmp s' \<and>
      index s' = (if dbnum = - 1 then (\<lambda>db. {}) else (index s)(dbnum := {})) \<and>
      held s' = held s - (if dbnum = - 1 then index_refs s else db_refs (key_num s) (index s dbnum)))"
  using FlushdbCallback_spec [OF assms, of True] by (auto simp: FlushdbCallback_def)

lemma FlushdbCallback_empties_witness:
  "\<exists>s'. FlushdbCallback demo_state True (- 1) = Some s' \<and> slots_inv bytes_cmp s' \<and> index s' 0 = {}"
  using FlushdbCallback_empties [OF bytes_cmp_ok demo_state(2), of "- 1"] by auto

text \<open>C28: For every clock and every \<open>hz\<close> from 1 to 1000 the cron callback returns, keeps the index
  and its invariant, counts the loop, and closes the timed-out connections in one call out of
  \<open>1000 / (1000 / hz)\<close>.\<close>

theorem CronLoopCallback_returns:
  assumes "slots_inv cmp s" and "1 \<le> hz" and "hz \<le> 1000" and "cronloops (g_slots_meta_info s) < INT_MAX"
  shows "\<exists>s'. CronLoopCallback clock child hz s =
      Some (cronloops (g_slots_meta_info s) mod (1000 div (1000 div hz)) = 0, s') \<and> slots_inv cmp s' \<and>
    index s' = index s \<and> cronloops (g_slots_meta_info s') = cronloops (g_slots_meta_info s) + 1"
  using CronLoopCallback_spec [OF assms, of clock child] by auto

lemma CronLoopCallback_returns_witness:
  "\<exists>s'. CronLoopCallback int False 10 demo_state = Some (True, s') \<and> slots_inv bytes_cmp s' \<and> index s' = index demo_state"
  using CronLoopCallback_returns [OF demo_state(2), of 10 int False] demo_state(8) by (auto simp: INT_MAX_def)

text \<open>The rehashing loop of the cron job advances the database together with the slot.\<close>

lemma next_counter_mod: "x < n \<Longrightarrow> n < 2 ^ 31 \<Longrightarrow> next_counter x n = (x + 1) mod n"
  by (simp add: next_counter_def)

lemma rehash_db_simps [simp]:
  "get_table (s\<lparr>rehash_db := x\<rparr>) db i = get_table s db i"
  by (simp add: get_table_def get_db_def)

lemma rehash_slots_idle:
  assumes n: "num_dbs s = int n" "0 < n" "n < 2 ^ 31"
    and idle: "\<forall>j < i + k. i \<le> j \<longrightarrow> (\<exists>t. get_table s (int ((r + j) mod n)) (int j) = Some t \<and> \<not> dictIsRehashing t)"
  shows "for_until i k (rehash_slot_step clock) (s\<lparr>rehash_db := (r + i) mod n\<rparr>) =
    Some (False, s\<lparr>rehash_db := (r + i + k) mod n\<rparr>)"
  using idle
proof (induction k arbitrary: i)
  case 0
  then show ?case by simp
next
  case (Suc k)
  obtain t where t: "get_table s (int ((r + i) mod n)) (int i) = Some t" "\<not> dictIsRehashing t"
    using Suc.prems [rule_format, of i] by auto
  have "next_counter ((r + i) mod n) n = (r + Suc i) mod n"
    using next_counter_mod [of "(r + i) mod n" n] n by (simp add: mod_Suc_eq)
  then have "rehash_slot_step clock i (s\<lparr>rehash_db := (r + i) mod n\<rparr>) = Some (False, s\<lparr>rehash_db := (r + Suc i) mod n\<rparr>)"
    using t n by (simp add: rehash_slot_step_def incrementallyDbSlotRehash_def)
  moreover have "\<forall>j < Suc i + k. Suc i \<le> j \<longrightarrow>
      (\<exists>t. get_table s (int ((r + j) mod n)) (int j) = Some t \<and> \<not> dictIsRehashing t)"
    using Suc.prems by simp
  ultimately show ?case using Suc.IH [of "Suc i"] by simp
qed

text \<open>With a number of databases that divides the number of slots (16 and 1024 by default),
  one call of the cron job looks only at the table of slot \<open>j\<close> in database \<open>rehash_db + j\<close>:
  when none of these is being rehashed, it does nothing and keeps its counter, whatever the
  other tables need.\<close>

theorem rehash_visits_one_diagonal:
  assumes "num_dbs s = int n" and "0 < n" and "n < 2 ^ 31" and "n dvd slots_size s" and "rehash_db s < n"
    and "\<forall>j < slots_size s. \<exists>t. get_table s (int ((rehash_db s + j) mod n)) (int j) = Some t \<and> \<not> dictIsRehashing t"
  shows "for_until 0 (nat (num_dbs s)) (\<lambda>db. for_until 0 (slots_size s) (rehash_slot_step clock)) s = Some (False, s)"
proof -
  have s: "s\<lparr>rehash_db := rehash_db s\<rparr> = s" by simp
  have e: "(rehash_db s + slots_size s) mod n = rehash_db s"
    using assms(4,5) by (metis dvd_imp_mod_0 mod_add_right_eq Nat.add_0_right mod_less)
  have "for_until 0 (slots_size s) (rehash_slot_step clock) (s\<lparr>rehash_db := (rehash_db s + 0) mod n\<rparr>) =
      Some (False, s\<lparr>rehash_db := (rehash_db s + 0 + slots_size s) mod n\<rparr>)"
    by (rule rehash_slots_idle [OF assms(1-3)]) (use assms(6) in simp)
  then have once: "for_until 0 (slots_size s) (rehash_slot_step clock) s = Some (False, s)"
    using assms(5) e s by simp
  have "for_until i k (\<lambda>db. for_until 0 (slots_size s) (rehash_slot_step clock)) s = Some (False, s)" for i k
    by (induction k arbitrary: i) (simp_all add: once)
  then show ?thesis .
qed

text \<open>Two databases of two slots; the tables off the diagonal are being rehashed.\<close>

definition diagonal_state :: slots_state where
  "diagonal_state =
     (let busy = m_dictCreate\<lparr>rehashidx := 0\<rparr>; db = new_db 2 in
      (initial 2 2 0 True False None)\<lparr>db_slot_infos :=
        Some [db\<lparr>slotkey_tables := [m_dictCreate, busy]\<rparr>, db\<lparr>slotkey_tables := [busy, m_dictCreate]\<rparr>]\<rparr>)"

lemma rehash_visits_one_diagonal_witness:
  "(\<exists>t. get_table diagonal_state 0 1 = Some t \<and> dictIsRehashing t) \<and>
    for_until 0 2 (\<lambda>db. for_until 0 2 (rehash_slot_step int)) diagonal_state = Some (False, diagonal_state)"
proof -
  have b: "dictIsRehashing (m_dictCreate\<lparr>rehashidx := 0\<rparr>)" "\<not> dictIsRehashing m_dictCreate"
    by (simp_all add: dictIsRehashing_def m_dictCreate_def)
  have d: "num_dbs diagonal_state = 2" "slots_size diagonal_state = 2" "rehash_db diagonal_state = 0"
    by (simp_all add: diagonal_state_def initial_def Slots_Init_def slots_boot_def Let_def)
  have t: "get_table diagonal_state 0 0 = Some m_dictCreate" "get_table diagonal_state 1 1 = Some m_dictCreate"
    "get_table diagonal_state 0 1 = Some (m_dictCreate\<lparr>rehashidx := 0\<rparr>)"
    by (simp_all add: diagonal_state_def get_table_def get_db_def arr_get_int_def arr_get_def Let_def)
  have "\<forall>j < slots_size diagonal_state. \<exists>t. get_table diagonal_state (int ((rehash_db diagonal_state + j) mod 2)) (int j) =
      Some t \<and> \<not> dictIsRehashing t"
    using t b d by (auto simp: less_2_cases_iff)
  from rehash_visits_one_diagonal [OF _ _ _ _ _ this, of int] show ?thesis
    using d t(3) b(1) by simp
qed

end
