(* ===== verification/Adlist.thy ===== *)
theory Adlist
  imports Prelude
begin

text \<open>
  The doubly linked list of \<open>list.c\<close>: nodes in a heap with pointers to both neighbours, a list
  as its first and last node, its length and its three methods. The heap is shared by all
  lists, so that \<open>m_listJoin\<close> and \<open>m_listDup\<close> work on two lists at once. A pointer is an
  address or \<open>None\<close>; following a null or freed pointer is \<open>None\<close>. Allocation does not fail.
\<close>

section \<open>Nodes, lists and iterators\<close>

type_synonym ref = nat

record 'v lnode =
  l_prev :: "ref option"
  l_nxt :: "ref option"
  l_val :: 'v

record 'v lheap =
  cells :: "ref \<Rightarrow> 'v lnode option"
  fresh :: ref

text \<open>The methods: \<open>dup\<close> may fail, \<open>free\<close> shows in the values given back, \<open>match\<close> compares.\<close>

record 'v adlist =
  l_head :: "ref option"
  l_tail :: "ref option"
  l_dup :: "('v \<Rightarrow> 'v option) option"
  l_free :: bool
  l_match :: "('v \<Rightarrow> 'v \<Rightarrow> bool) option"
  l_len :: nat

datatype direction = AL_START_HEAD | AL_START_TAIL

record listIter =
  inext :: "ref option"
  direction :: direction

definition set_prev :: "'v lheap \<Rightarrow> ref \<Rightarrow> ref option \<Rightarrow> 'v lheap option" where
  "set_prev hp a p = do { n \<leftarrow> cells hp a; Some (hp\<lparr>cells := (cells hp)(a \<mapsto> n\<lparr>l_prev := p\<rparr>)\<rparr>) }"

definition set_nxt :: "'v lheap \<Rightarrow> ref \<Rightarrow> ref option \<Rightarrow> 'v lheap option" where
  "set_nxt hp a p = do { n \<leftarrow> cells hp a; Some (hp\<lparr>cells := (cells hp)(a \<mapsto> n\<lparr>l_nxt := p\<rparr>)\<rparr>) }"

text \<open>\<open>if (p) p->prev = q\<close> and \<open>if (p) p->next = q\<close>.\<close>

definition link_prev :: "'v lheap \<Rightarrow> ref option \<Rightarrow> ref option \<Rightarrow> 'v lheap option" where
  "link_prev hp p q = (case p of None \<Rightarrow> Some hp | Some a \<Rightarrow> set_prev hp a q)"

definition link_nxt :: "'v lheap \<Rightarrow> ref option \<Rightarrow> ref option \<Rightarrow> 'v lheap option" where
  "link_nxt hp p q = (case p of None \<Rightarrow> Some hp | Some a \<Rightarrow> set_nxt hp a q)"

definition new_node :: "'v lheap \<Rightarrow> 'v lnode \<Rightarrow> 'v lheap" where
  "new_node hp n = hp\<lparr>cells := (cells hp)(fresh hp \<mapsto> n), fresh := fresh hp + 1\<rparr>"

definition free_node :: "'v lheap \<Rightarrow> ref \<Rightarrow> 'v lheap" where
  "free_node hp a = hp\<lparr>cells := (cells hp)(a := None)\<rparr>"

section \<open>Creation and release\<close>

definition m_listCreate :: "'v adlist" where
  "m_listCreate = \<lparr>l_head = None, l_tail = None, l_dup = None, l_free = False, l_match = None, l_len = 0\<rparr>"

text \<open>The loop \<open>while (len--)\<close>; the result is the list of values given to the \<open>free\<close> method.\<close>

fun empty_loop :: "bool \<Rightarrow> nat \<Rightarrow> ref option \<Rightarrow> 'v lheap \<Rightarrow> ('v list \<times> 'v lheap) option" where
  "empty_loop fr 0 current hp = Some ([], hp)"
| "empty_loop fr (Suc n) current hp = do {
     a \<leftarrow> current;
     node \<leftarrow> cells hp a;
     (vs, hp) \<leftarrow> empty_loop fr n (l_nxt node) (free_node hp a);
     Some ((if fr then [l_val node] else []) @ vs, hp)
   }"

definition m_listEmpty :: "'v lheap \<Rightarrow> 'v adlist \<Rightarrow> ('v list \<times> 'v lheap \<times> 'v adlist) option" where
  "m_listEmpty hp l = do {
     (vs, hp) \<leftarrow> empty_loop (l_free l) (l_len l) (l_head l) hp;
     Some (vs, hp, l\<lparr>l_head := None, l_tail := None, l_len := 0\<rparr>)
   }"

definition m_listRelease :: "'v lheap \<Rightarrow> 'v adlist \<Rightarrow> ('v list \<times> 'v lheap) option" where
  "m_listRelease hp l = do { (vs, hp, l) \<leftarrow> m_listEmpty hp l; Some (vs, hp) }"

section \<open>Insertion and deletion\<close>

definition m_listAddNodeHead :: "'v lheap \<Rightarrow> 'v adlist \<Rightarrow> 'v \<Rightarrow> ('v lheap \<times> 'v adlist) option" where
  "m_listAddNodeHead hp l v =
     (let node = fresh hp in
      if l_len l = 0
      then Some (new_node hp \<lparr>l_prev = None, l_nxt = None, l_val = v\<rparr>,
        l\<lparr>l_head := Some node, l_tail := Some node, l_len := l_len l + 1\<rparr>)
      else do {
        h \<leftarrow> l_head l;
        hp \<leftarrow> set_prev (new_node hp \<lparr>l_prev = None, l_nxt = l_head l, l_val = v\<rparr>) h (Some node);
        Some (hp, l\<lparr>l_head := Some node, l_len := l_len l + 1\<rparr>)
      })"

definition m_listAddNodeTail :: "'v lheap \<Rightarrow> 'v adlist \<Rightarrow> 'v \<Rightarrow> ('v lheap \<times> 'v adlist) option" where
  "m_listAddNodeTail hp l v =
     (let node = fresh hp in
      if l_len l = 0
      then Some (new_node hp \<lparr>l_prev = None, l_nxt = None, l_val = v\<rparr>,
        l\<lparr>l_head := Some node, l_tail := Some node, l_len := l_len l + 1\<rparr>)
      else do {
        t \<leftarrow> l_tail l;
        hp \<leftarrow> set_nxt (new_node hp \<lparr>l_prev = l_tail l, l_nxt = None, l_val = v\<rparr>) t (Some node);
        Some (hp, l\<lparr>l_tail := Some node, l_len := l_len l + 1\<rparr>)
      })"

definition m_listInsertNode ::
  "'v lheap \<Rightarrow> 'v adlist \<Rightarrow> ref \<Rightarrow> 'v \<Rightarrow> bool \<Rightarrow> ('v lheap \<times> 'v adlist) option" where
  "m_listInsertNode hp l old v after = do {
     old_node \<leftarrow> cells hp old;
     let node = fresh hp;
     let n = (if after then \<lparr>l_prev = Some old, l_nxt = l_nxt old_node, l_val = v\<rparr>
              else \<lparr>l_prev = l_prev old_node, l_nxt = Some old, l_val = v\<rparr>);
     let l = (if after
              then (if l_tail l = Some old then l\<lparr>l_tail := Some node\<rparr> else l)
              else (if l_head l = Some old then l\<lparr>l_head := Some node\<rparr> else l));
     hp \<leftarrow> link_nxt (new_node hp n) (l_prev n) (Some node);
     hp \<leftarrow> link_prev hp (l_nxt n) (Some node);
     Some (hp, l\<lparr>l_len := l_len l + 1\<rparr>)
   }"

definition m_listDelNode :: "'v lheap \<Rightarrow> 'v adlist \<Rightarrow> ref \<Rightarrow> ('v list \<times> 'v lheap \<times> 'v adlist) option" where
  "m_listDelNode hp l node = do {
     n \<leftarrow> cells hp node;
     hp \<leftarrow> link_nxt hp (l_prev n) (l_nxt n);
     let l = (if l_prev n = None then l\<lparr>l_head := l_nxt n\<rparr> else l);
     hp \<leftarrow> link_prev hp (l_nxt n) (l_prev n);
     let l = (if l_nxt n = None then l\<lparr>l_tail := l_prev n\<rparr> else l);
     k \<leftarrow> count_dec (l_len l);
     Some (if l_free l then [l_val n] else [], free_node hp node, l\<lparr>l_len := k\<rparr>)
   }"

section \<open>Iterators\<close>

definition m_listGetIterator :: "'v adlist \<Rightarrow> direction \<Rightarrow> listIter" where
  "m_listGetIterator l d = \<lparr>inext = (if d = AL_START_HEAD then l_head l else l_tail l), direction = d\<rparr>"

definition m_listRewind :: "'v adlist \<Rightarrow> listIter" where
  "m_listRewind l = \<lparr>inext = l_head l, direction = AL_START_HEAD\<rparr>"

definition m_listRewindTail :: "'v adlist \<Rightarrow> listIter" where
  "m_listRewindTail l = \<lparr>inext = l_tail l, direction = AL_START_TAIL\<rparr>"

definition m_listNext :: "'v lheap \<Rightarrow> listIter \<Rightarrow> (ref option \<times> listIter) option" where
  "m_listNext hp it =
     (case inext it of
        None \<Rightarrow> Some (None, it)
      | Some a \<Rightarrow> do {
          n \<leftarrow> cells hp a;
          Some (Some a, it\<lparr>inext := (if direction it = AL_START_HEAD then l_nxt n else l_prev n)\<rparr>)
        })"

section \<open>Copying, searching and indexing\<close>

text \<open>The \<open>while\<close> loop of \<open>m_listDup\<close>; the result is \<open>None\<close> inside when a \<open>dup\<close> method has
  failed, with the values the release of the copy has freed.\<close>

partial_function (option) dup_loop ::
  "listIter \<Rightarrow> 'v lheap \<Rightarrow> 'v adlist \<Rightarrow> ('v adlist option \<times> 'v list \<times> 'v lheap) option" where
  "dup_loop it hp copy = do {
     (node, it) \<leftarrow> m_listNext hp it;
     case node of
       None \<Rightarrow> Some (Some copy, [], hp)
     | Some a \<Rightarrow> do {
         n \<leftarrow> cells hp a;
         case (case l_dup copy of None \<Rightarrow> Some (l_val n) | Some f \<Rightarrow> f (l_val n)) of
           None \<Rightarrow> do { (vs, hp) \<leftarrow> m_listRelease hp copy; Some (None, vs, hp) }
         | Some v \<Rightarrow> do { (hp, copy) \<leftarrow> m_listAddNodeTail hp copy v; dup_loop it hp copy }
       }
   }"

definition m_listDup :: "'v lheap \<Rightarrow> 'v adlist \<Rightarrow> ('v adlist option \<times> 'v list \<times> 'v lheap) option" where
  "m_listDup hp orig =
     dup_loop (m_listRewind orig) hp (m_listCreate\<lparr>l_dup := l_dup orig, l_free := l_free orig, l_match := l_match orig\<rparr>)"

definition value_matches :: "'v adlist \<Rightarrow> 'v \<Rightarrow> 'v \<Rightarrow> bool" where
  "value_matches l v key = (case l_match l of None \<Rightarrow> key = v | Some f \<Rightarrow> f v key)"

partial_function (option) search_loop ::
  "'v lheap \<Rightarrow> 'v adlist \<Rightarrow> 'v \<Rightarrow> listIter \<Rightarrow> ref option option" where
  "search_loop hp l key it = do {
     (node, it) \<leftarrow> m_listNext hp it;
     case node of
       None \<Rightarrow> Some None
     | Some a \<Rightarrow> do {
         n \<leftarrow> cells hp a;
         if value_matches l (l_val n) key then Some (Some a) else search_loop hp l key it
       }
   }"

definition m_listSearchKey :: "'v lheap \<Rightarrow> 'v adlist \<Rightarrow> 'v \<Rightarrow> ref option option" where
  "m_listSearchKey hp l key = search_loop hp l key (m_listRewind l)"

text \<open>\<open>while (index-- && n) n = n->next\<close>, for either direction.\<close>

fun index_walk :: "('v lnode \<Rightarrow> ref option) \<Rightarrow> 'v lheap \<Rightarrow> nat \<Rightarrow> ref option \<Rightarrow> ref option option" where
  "index_walk dir hp 0 n = Some n"
| "index_walk dir hp (Suc k) None = Some None"
| "index_walk dir hp (Suc k) (Some a) = do { n \<leftarrow> cells hp a; index_walk dir hp k (dir n) }"

text \<open>\<open>-index\<close> overflows for the least \<open>long\<close>.\<close>

definition m_listIndex :: "'v lheap \<Rightarrow> 'v adlist \<Rightarrow> int \<Rightarrow> ref option option" where
  "m_listIndex hp l index =
     (if index < 0 then do {
        c_assert (- (2 ^ 63) < index);
        index_walk l_prev hp (nat (- index - 1)) (l_tail l)
      }
      else index_walk l_nxt hp (nat index) (l_head l))"

section \<open>Rotation and concatenation\<close>

definition m_listRotate :: "'v lheap \<Rightarrow> 'v adlist \<Rightarrow> ('v lheap \<times> 'v adlist) option" where
  "m_listRotate hp l =
     (if l_len l \<le> 1 then Some (hp, l)
      else do {
        t \<leftarrow> l_tail l;
        n \<leftarrow> cells hp t;
        t' \<leftarrow> l_prev n;
        hp \<leftarrow> set_nxt hp t' None;
        h \<leftarrow> l_head l;
        hp \<leftarrow> set_prev hp h (Some t);
        hp \<leftarrow> set_prev hp t None;
        hp \<leftarrow> set_nxt hp t (l_head l);
        Some (hp, l\<lparr>l_tail := l_prev n, l_head := Some t\<rparr>)
      })"

text \<open>The second list is left empty.\<close>

definition m_listJoin :: "'v lheap \<Rightarrow> 'v adlist \<Rightarrow> 'v adlist \<Rightarrow> ('v lheap \<times> 'v adlist \<times> 'v adlist) option" where
  "m_listJoin hp l other = do {
     hp \<leftarrow> link_prev hp (l_head other) (l_tail l);
     hp \<leftarrow> link_nxt hp (l_tail l) (l_head other);
     let l = (if l_tail l = None then l\<lparr>l_head := l_head other\<rparr> else l);
     let l = (if l_tail other \<noteq> None then l\<lparr>l_tail := l_tail other\<rparr> else l);
     Some (hp, l\<lparr>l_len := l_len l + l_len other\<rparr>, other\<lparr>l_head := None, l_tail := None, l_len := 0\<rparr>)
   }"

end
