(* ===== verification/AdlistInv.thy ===== *)
theory AdlistInv
  imports Adlist Interfaces
begin

text \<open>
  What a heap and a list stand for: a doubly linked segment of nodes for a list of values. Every
  operation of \<open>list.c\<close> is an operation on that list of values and leaves the nodes of
  other lists alone.
\<close>

section \<open>Segments\<close>

definition first_ref :: "ref list \<Rightarrow> ref option \<Rightarrow> ref option" where
  "first_ref as n = (case as of [] \<Rightarrow> n | a # _ \<Rightarrow> Some a)"

definition last_ref :: "ref option \<Rightarrow> ref list \<Rightarrow> ref option" where
  "last_ref p as = (if as = [] then p else Some (last as))"

lemma ref_simps [simp]:
  "first_ref [] n = n" "first_ref (a # as) n = Some a" "last_ref p [] = p" "last_ref p (a # as) = last_ref (Some a) as"
  "last_ref p (as @ [a]) = Some a"
  "first_ref (as @ bs) n = first_ref as (first_ref bs n)" "last_ref p (as @ bs) = last_ref (last_ref p as) bs"
  by (simp_all add: first_ref_def last_ref_def split: list.splits)

fun dlseg :: "(ref \<Rightarrow> 'v lnode option) \<Rightarrow> ref option \<Rightarrow> ref list \<Rightarrow> 'v list \<Rightarrow> ref option \<Rightarrow> bool" where
  "dlseg c p [] vs n \<longleftrightarrow> vs = []"
| "dlseg c p (a # as) vs n \<longleftrightarrow> (\<exists>v vs'. vs = v # vs' \<and>
     c a = Some \<lparr>l_prev = p, l_nxt = first_ref as n, l_val = v\<rparr> \<and> dlseg c (Some a) as vs' n)"

lemma dlseg_append:
  "dlseg c p (as @ bs) vs n \<longleftrightarrow>
     (\<exists>us ws. vs = us @ ws \<and> dlseg c p as us (first_ref bs n) \<and> dlseg c (last_ref p as) bs ws n)"
proof (induction as arbitrary: p vs)
  case Nil
  then show ?case by auto
next
  case (Cons a as)
  show ?case
  proof
    assume "dlseg c p ((a # as) @ bs) vs n"
    then obtain v us ws where "vs = v # us @ ws"
      "c a = Some \<lparr>l_prev = p, l_nxt = first_ref as (first_ref bs n), l_val = v\<rparr>"
      "dlseg c (Some a) as us (first_ref bs n)" "dlseg c (last_ref (Some a) as) bs ws n"
      using Cons.IH by auto
    then show "\<exists>us ws. vs = us @ ws \<and> dlseg c p (a # as) us (first_ref bs n) \<and> dlseg c (last_ref p (a # as)) bs ws n"
      by (intro exI [of _ "v # us"] exI [of _ ws]) simp
  next
    assume "\<exists>us ws. vs = us @ ws \<and> dlseg c p (a # as) us (first_ref bs n) \<and> dlseg c (last_ref p (a # as)) bs ws n"
    then obtain v us ws where "vs = v # us @ ws"
      "c a = Some \<lparr>l_prev = p, l_nxt = first_ref as (first_ref bs n), l_val = v\<rparr>"
      and s: "dlseg c (Some a) as us (first_ref bs n)" "dlseg c (last_ref (Some a) as) bs ws n" by auto
    moreover have "dlseg c (Some a) (as @ bs) (us @ ws) n" unfolding Cons.IH using s by blast
    ultimately show "dlseg c p ((a # as) @ bs) vs n" by simp
  qed
qed

lemma dlseg_cong: "(\<And>a. a \<in> set as \<Longrightarrow> c' a = c a) \<Longrightarrow> dlseg c' p as vs n = dlseg c p as vs n"
  by (induction as arbitrary: p vs) auto

lemma dlseg_length: "dlseg c p as vs n \<Longrightarrow> length vs = length as"
  by (induction as arbitrary: p vs) auto

lemma dlseg_end: "dlseg c p [] vs n \<Longrightarrow> dlseg c p' [] vs n'"
  by simp

text \<open>Changing the pointers at the two ends of a segment.\<close>

definition only_changes :: "ref list \<Rightarrow> 'v lheap \<Rightarrow> 'v lheap \<Rightarrow> bool" where
  "only_changes as hp hp' \<longleftrightarrow> fresh hp' = fresh hp \<and> (\<forall>b. b \<notin> set as \<longrightarrow> cells hp' b = cells hp b)"

lemma seg_link_nxt:
  assumes "dlseg (cells hp) p as vs n" "distinct as"
  shows "\<exists>hp'. link_nxt hp (last_ref None as) x = Some hp' \<and> dlseg (cells hp') p as vs x \<and> only_changes as hp hp'"
proof (cases as rule: rev_cases)
  case Nil
  then show ?thesis using assms(1) by (simp add: link_nxt_def only_changes_def)
next
  case (snoc bs b)
  obtain us w where vs: "vs = us @ [w]" and s: "dlseg (cells hp) p bs us (Some b)"
    and b: "cells hp b = Some \<lparr>l_prev = last_ref p bs, l_nxt = n, l_val = w\<rparr>"
    using assms(1) unfolding snoc dlseg_append by auto
  let ?hp = "hp\<lparr>cells := (cells hp)(b \<mapsto> \<lparr>l_prev = last_ref p bs, l_nxt = x, l_val = w\<rparr>)\<rparr>"
  have "dlseg (cells ?hp) p bs us (Some b) = dlseg (cells hp) p bs us (Some b)"
    by (rule dlseg_cong) (use assms(2) snoc in auto)
  then have "dlseg (cells ?hp) p as vs x" using s unfolding snoc vs dlseg_append by simp
  moreover have "link_nxt hp (last_ref None as) x = Some ?hp" using b by (simp add: snoc link_nxt_def set_nxt_def)
  moreover have "only_changes as hp ?hp" by (simp add: snoc only_changes_def)
  ultimately show ?thesis by blast
qed

lemma seg_link_prev:
  assumes "dlseg (cells hp) p as vs n" "distinct as"
  shows "\<exists>hp'. link_prev hp (first_ref as None) x = Some hp' \<and> dlseg (cells hp') x as vs n \<and> only_changes as hp hp'"
proof (cases as)
  case Nil
  then show ?thesis using assms(1) by (simp add: link_prev_def only_changes_def)
next
  case (Cons b bs)
  obtain w us where vs: "vs = w # us" and s: "dlseg (cells hp) (Some b) bs us n"
    and b: "cells hp b = Some \<lparr>l_prev = p, l_nxt = first_ref bs n, l_val = w\<rparr>"
    using assms(1) unfolding Cons by auto
  let ?hp = "hp\<lparr>cells := (cells hp)(b \<mapsto> \<lparr>l_prev = x, l_nxt = first_ref bs n, l_val = w\<rparr>)\<rparr>"
  have "dlseg (cells ?hp) (Some b) bs us n = dlseg (cells hp) (Some b) bs us n"
    by (rule dlseg_cong) (use assms(2) Cons in auto)
  then have "dlseg (cells ?hp) x as vs n" using s unfolding Cons vs by simp
  moreover have "link_prev hp (first_ref as None) x = Some ?hp" using b by (simp add: Cons link_prev_def set_prev_def)
  moreover have "only_changes as hp ?hp" by (simp add: Cons only_changes_def)
  ultimately show ?thesis by blast
qed

lemma only_changes_seg:
  assumes "only_changes bs hp hp'" "set as \<inter> set bs = {}"
  shows "dlseg (cells hp') p as vs n = dlseg (cells hp) p as vs n"
  by (rule dlseg_cong) (use assms in \<open>auto simp: only_changes_def\<close>)

lemma only_changes_trans:
  assumes "only_changes as hp hp'" "only_changes bs hp' hp''"
  shows "only_changes (as @ bs) hp hp''"
  using assms by (simp add: only_changes_def)

text \<open>Joining two neighbouring segments, in the two orders the code has.\<close>

lemma seg_join:
  assumes s1: "dlseg (cells hp) p as us n1" and s2: "dlseg (cells hp) p2 bs ws n"
    and d: "distinct as" "distinct bs" "set as \<inter> set bs = {}"
  shows "\<exists>hp1 hp2. link_nxt hp (last_ref None as) (first_ref bs n) = Some hp1 \<and>
    link_prev hp1 (first_ref bs None) (last_ref p as) = Some hp2 \<and>
    dlseg (cells hp2) p (as @ bs) (us @ ws) n \<and> only_changes (as @ bs) hp hp2"
proof -
  obtain hp1 where 1: "link_nxt hp (last_ref None as) (first_ref bs n) = Some hp1"
    "dlseg (cells hp1) p as us (first_ref bs n)" "only_changes as hp hp1"
    using seg_link_nxt [OF s1 d(1)] by blast
  have "dlseg (cells hp1) p2 bs ws n" using only_changes_seg [OF 1(3), of bs] s2 d(3) by (simp add: Int_commute)
  then obtain hp2 where 2: "link_prev hp1 (first_ref bs None) (last_ref p as) = Some hp2"
    "dlseg (cells hp2) (last_ref p as) bs ws n" "only_changes bs hp1 hp2"
    using seg_link_prev [OF _ d(2)] by blast
  have "dlseg (cells hp2) p as us (first_ref bs n)" using only_changes_seg [OF 2(3) d(3)] 1(2) by simp
  then have "dlseg (cells hp2) p (as @ bs) (us @ ws) n" unfolding dlseg_append using 2(2) by blast
  then show ?thesis using 1(1) 2(1) only_changes_trans [OF 1(3) 2(3)] by blast
qed

lemma seg_join_rev:
  assumes s1: "dlseg (cells hp) p as us n1" and s2: "dlseg (cells hp) p2 bs ws n"
    and d: "distinct as" "distinct bs" "set as \<inter> set bs = {}"
  shows "\<exists>hp1 hp2. link_prev hp (first_ref bs None) (last_ref p as) = Some hp1 \<and>
    link_nxt hp1 (last_ref None as) (first_ref bs n) = Some hp2 \<and>
    dlseg (cells hp2) p (as @ bs) (us @ ws) n \<and> only_changes (as @ bs) hp hp2"
proof -
  obtain hp1 where 1: "link_prev hp (first_ref bs None) (last_ref p as) = Some hp1"
    "dlseg (cells hp1) (last_ref p as) bs ws n" "only_changes bs hp hp1"
    using seg_link_prev [OF s2 d(2)] by blast
  have "dlseg (cells hp1) p as us n1" using only_changes_seg [OF 1(3) d(3)] s1 by simp
  then obtain hp2 where 2: "link_nxt hp1 (last_ref None as) (first_ref bs n) = Some hp2"
    "dlseg (cells hp2) p as us (first_ref bs n)" "only_changes as hp1 hp2"
    using seg_link_nxt [OF _ d(1)] by blast
  have "dlseg (cells hp2) (last_ref p as) bs ws n" using only_changes_seg [OF 2(3), of bs] 1(2) d(3) by (simp add: Int_commute)
  then have "dlseg (cells hp2) p (as @ bs) (us @ ws) n" unfolding dlseg_append using 2(2) by blast
  moreover have "only_changes (as @ bs) hp hp2" using 1(3) 2(3) by (simp add: only_changes_def)
  ultimately show ?thesis using 1(1) 2(1) by blast
qed

section \<open>The list of values\<close>

definition holds :: "'v lheap \<Rightarrow> 'v adlist \<Rightarrow> ref list \<Rightarrow> 'v list \<Rightarrow> bool" where
  "holds hp l as vs \<longleftrightarrow> dlseg (cells hp) None as vs None \<and> distinct as \<and> (\<forall>a\<in>set as. a < fresh hp) \<and>
     l_head l = first_ref as None \<and> l_tail l = last_ref None as \<and> l_len l = length as"

text \<open>What an operation on a list with nodes \<open>as\<close> leaves alone.\<close>

definition lframe :: "ref list \<Rightarrow> 'v lheap \<Rightarrow> 'v lheap \<Rightarrow> bool" where
  "lframe as hp hp' \<longleftrightarrow> fresh hp \<le> fresh hp' \<and> (\<forall>b. b \<notin> set as \<longrightarrow> b < fresh hp \<longrightarrow> cells hp' b = cells hp b)"

definition same_methods :: "'v adlist \<Rightarrow> 'v adlist \<Rightarrow> bool" where
  "same_methods l l' \<longleftrightarrow> l_dup l' = l_dup l \<and> l_free l' = l_free l \<and> l_match l' = l_match l"

lemma holds_other:
  assumes "holds hp l as vs" "lframe bs hp hp'" "set as \<inter> set bs = {}"
  shows "holds hp' l as vs"
proof -
  have "dlseg (cells hp') None as vs None = dlseg (cells hp) None as vs None"
    by (rule dlseg_cong) (use assms in \<open>auto simp: holds_def lframe_def\<close>)
  then show ?thesis using assms by (auto simp: holds_def lframe_def)
qed

lemma holds_create: "holds hp m_listCreate [] []"
  by (simp add: holds_def m_listCreate_def)

lemma adlist_length: "holds hp l as vs \<Longrightarrow> l_len l = length vs"
  using dlseg_length by (fastforce simp: holds_def)

text \<open>A new node between two parts.\<close>

lemma seg_insert:
  assumes s: "dlseg (cells hp) None (as @ bs) (us @ ws) None" and len: "length us = length as"
    and d: "distinct (as @ bs)" "\<forall>a\<in>set (as @ bs). a < fresh hp"
  shows "\<exists>hp1 hp2. link_nxt (new_node hp \<lparr>l_prev = last_ref None as, l_nxt = first_ref bs None, l_val = v\<rparr>)
      (last_ref None as) (Some (fresh hp)) = Some hp1 \<and>
    link_prev hp1 (first_ref bs None) (Some (fresh hp)) = Some hp2 \<and>
    dlseg (cells hp2) None (as @ fresh hp # bs) (us @ v # ws) None \<and> fresh hp2 = fresh hp + 1 \<and>
    lframe (as @ bs) hp hp2"
proof -
  let ?x = "fresh hp"
  let ?n = "\<lparr>l_prev = last_ref None as, l_nxt = first_ref bs None, l_val = v\<rparr>"
  let ?hp = "new_node hp ?n"
  have x: "?x \<notin> set as" "?x \<notin> set bs" using d(2) by auto
  obtain us' ws' where uw: "us @ ws = us' @ ws'" "dlseg (cells hp) None as us' (first_ref bs None)"
    "dlseg (cells hp) (last_ref None as) bs ws' None" using s unfolding dlseg_append by blast
  then have "us' = us" "ws' = ws" using dlseg_length [OF uw(2)] len by auto
  note uw = uw(2,3) [unfolded this]
  have new: "dlseg (cells ?hp) p zs xs n = dlseg (cells hp) p zs xs n" if "?x \<notin> set zs" for p zs xs n
    by (rule dlseg_cong) (use that in \<open>auto simp: new_node_def\<close>)
  have s1: "dlseg (cells ?hp) None as us (first_ref bs None)"
    and s2: "dlseg (cells ?hp) (last_ref None as) bs ws None" using new x uw by simp_all
  obtain hp1 where 1: "link_nxt ?hp (last_ref None as) (Some ?x) = Some hp1"
    "dlseg (cells hp1) None as us (Some ?x)" "only_changes as ?hp hp1"
    using seg_link_nxt [OF s1, of "Some ?x"] d(1) by auto
  have disj: "set bs \<inter> set as = {}" "set as \<inter> set bs = {}" using d(1) by auto
  have "dlseg (cells hp1) (last_ref None as) bs ws None" using only_changes_seg [OF 1(3) disj(1)] s2 by simp
  then obtain hp2 where 2: "link_prev hp1 (first_ref bs None) (Some ?x) = Some hp2"
    "dlseg (cells hp2) (Some ?x) bs ws None" "only_changes bs hp1 hp2"
    using seg_link_prev [of hp1 "last_ref None as" bs ws None "Some ?x"] d(1) by auto
  have "dlseg (cells hp2) None as us (Some ?x)" using only_changes_seg [OF 2(3) disj(2)] 1(2) by simp
  moreover have "cells hp2 ?x = Some ?n" using 1(3) 2(3) x by (simp add: only_changes_def new_node_def)
  ultimately have "dlseg (cells hp2) None (as @ ?x # bs) (us @ v # ws) None"
    unfolding dlseg_append using 2(2) by fastforce
  moreover have "fresh hp2 = fresh hp + 1" "lframe (as @ bs) hp hp2"
    using 1(3) 2(3) by (auto simp: only_changes_def lframe_def new_node_def)
  ultimately show ?thesis using 1(1) 2(1) by blast
qed

lemma m_listInsertNode_holds:
  assumes h: "holds hp l (as1 @ a # as2) (us @ w # ws)" and len: "length us = length as1"
  shows "\<exists>hp' l'. m_listInsertNode hp l a v after = Some (hp', l') \<and>
    holds hp' l' (if after then as1 @ a # fresh hp # as2 else as1 @ fresh hp # a # as2)
      (if after then us @ w # v # ws else us @ v # w # ws) \<and>
    lframe (as1 @ a # as2) hp hp' \<and> same_methods l l'"
proof -
  have s: "dlseg (cells hp) None (as1 @ a # as2) (us @ w # ws) None" and d: "distinct (as1 @ a # as2)"
    "\<forall>a\<in>set (as1 @ a # as2). a < fresh hp" and l: "l_head l = first_ref (as1 @ a # as2) None"
    "l_tail l = last_ref None (as1 @ a # as2)" "l_len l = length (as1 @ a # as2)"
    using h unfolding holds_def by auto
  have n: "cells hp a = Some \<lparr>l_prev = last_ref None as1, l_nxt = first_ref as2 None, l_val = w\<rparr>"
    using s dlseg_length len unfolding dlseg_append by fastforce
  have hd: "first_ref (as1 @ a # as2) None = Some a \<longleftrightarrow> as1 = []"
    using d(1) by (cases as1) auto
  have tl: "last_ref None (as1 @ a # as2) = Some a \<longleftrightarrow> as2 = []"
    using d(1) by (cases as2 rule: rev_cases) auto
  show ?thesis
  proof (cases after)
    case True
    obtain hp1 hp2 where r: "link_nxt (new_node hp \<lparr>l_prev = Some a, l_nxt = first_ref as2 None, l_val = v\<rparr>)
        (Some a) (Some (fresh hp)) = Some hp1" "link_prev hp1 (first_ref as2 None) (Some (fresh hp)) = Some hp2"
      "dlseg (cells hp2) None (as1 @ a # fresh hp # as2) (us @ w # v # ws) None" "fresh hp2 = fresh hp + 1"
      "lframe (as1 @ a # as2) hp hp2"
      using seg_insert [of hp "as1 @ [a]" as2 "us @ [w]" ws v] s len d by auto
    let ?l = "if l_tail l = Some a then l\<lparr>l_tail := Some (fresh hp)\<rparr> else l"
    have "m_listInsertNode hp l a v after = Some (hp2, ?l\<lparr>l_len := l_len l + 1\<rparr>)"
      using n r(1,2) True by (simp add: m_listInsertNode_def)
    moreover have "holds hp2 (?l\<lparr>l_len := l_len l + 1\<rparr>) (as1 @ a # fresh hp # as2) (us @ w # v # ws)"
      using r(3,4) d l tl by (auto simp: holds_def last_ref_def intro: less_SucI)
    ultimately show ?thesis using r(5) True by (auto simp: same_methods_def)
  next
    case False
    obtain hp1 hp2 where r: "link_nxt (new_node hp \<lparr>l_prev = last_ref None as1, l_nxt = Some a, l_val = v\<rparr>)
        (last_ref None as1) (Some (fresh hp)) = Some hp1" "link_prev hp1 (Some a) (Some (fresh hp)) = Some hp2"
      "dlseg (cells hp2) None (as1 @ fresh hp # a # as2) (us @ v # w # ws) None" "fresh hp2 = fresh hp + 1"
      "lframe (as1 @ a # as2) hp hp2"
      using seg_insert [of hp as1 "a # as2" us "w # ws" v] s len d by auto
    let ?l = "if l_head l = Some a then l\<lparr>l_head := Some (fresh hp)\<rparr> else l"
    have "m_listInsertNode hp l a v after = Some (hp2, ?l\<lparr>l_len := l_len l + 1\<rparr>)"
      using n r(1,2) False by (simp add: m_listInsertNode_def)
    moreover have "holds hp2 (?l\<lparr>l_len := l_len l + 1\<rparr>) (as1 @ fresh hp # a # as2) (us @ v # w # ws)"
      using r(3,4) d l hd by (cases as1) (auto simp: holds_def intro: less_SucI)
    ultimately show ?thesis using r(5) False by (auto simp: same_methods_def)
  qed
qed

lemma m_listAddNodeHead_holds:
  assumes h: "holds hp l as vs"
  shows "\<exists>hp' l'. m_listAddNodeHead hp l v = Some (hp', l') \<and> holds hp' l' (fresh hp # as) (v # vs) \<and>
    lframe as hp hp' \<and> same_methods l l'"
proof -
  have s: "dlseg (cells hp) None ([] @ as) ([] @ vs) None" and d: "distinct ([] @ as)" "\<forall>a\<in>set ([] @ as). a < fresh hp"
    and l: "l_head l = first_ref as None" "l_tail l = last_ref None as" "l_len l = length as"
    using h unfolding holds_def by auto
  obtain hp1 hp2 where r: "link_nxt (new_node hp \<lparr>l_prev = None, l_nxt = first_ref as None, l_val = v\<rparr>) None
      (Some (fresh hp)) = Some hp1" "link_prev hp1 (first_ref as None) (Some (fresh hp)) = Some hp2"
    "dlseg (cells hp2) None (fresh hp # as) (v # vs) None" "fresh hp2 = fresh hp + 1" "lframe as hp hp2"
    using seg_insert [OF s _ d, of v] by auto
  let ?l = "if as = [] then l\<lparr>l_head := Some (fresh hp), l_tail := Some (fresh hp), l_len := l_len l + 1\<rparr>
    else l\<lparr>l_head := Some (fresh hp), l_len := l_len l + 1\<rparr>"
  have "m_listAddNodeHead hp l v = Some (hp2, ?l)"
    using r(1,2) l by (cases as) (simp_all add: m_listAddNodeHead_def link_nxt_def link_prev_def Let_def)
  moreover have "holds hp2 ?l (fresh hp # as) (v # vs)"
    using r(3,4) d l by (cases as) (auto simp: holds_def intro: less_SucI)
  ultimately show ?thesis using r(5) by (auto simp: same_methods_def)
qed

lemma m_listAddNodeTail_holds:
  assumes h: "holds hp l as vs"
  shows "\<exists>hp' l'. m_listAddNodeTail hp l v = Some (hp', l') \<and> holds hp' l' (as @ [fresh hp]) (vs @ [v]) \<and>
    lframe as hp hp' \<and> same_methods l l'"
proof -
  have s: "dlseg (cells hp) None (as @ []) (vs @ []) None" and d: "distinct (as @ [])" "\<forall>a\<in>set (as @ []). a < fresh hp"
    and l: "l_head l = first_ref as None" "l_tail l = last_ref None as" "l_len l = length as"
    and len: "length vs = length as"
    using h dlseg_length unfolding holds_def by auto
  obtain hp1 hp2 where r: "link_nxt (new_node hp \<lparr>l_prev = last_ref None as, l_nxt = None, l_val = v\<rparr>)
      (last_ref None as) (Some (fresh hp)) = Some hp1" "link_prev hp1 None (Some (fresh hp)) = Some hp2"
    "dlseg (cells hp2) None (as @ [fresh hp]) (vs @ [v]) None" "fresh hp2 = fresh hp + 1" "lframe as hp hp2"
    using seg_insert [OF s len d, of v] by auto
  let ?l = "if as = [] then l\<lparr>l_head := Some (fresh hp), l_tail := Some (fresh hp), l_len := l_len l + 1\<rparr>
    else l\<lparr>l_tail := Some (fresh hp), l_len := l_len l + 1\<rparr>"
  have "m_listAddNodeTail hp l v = Some (hp2, ?l)"
    using r(1,2) l by (cases as rule: rev_cases) (simp_all add: m_listAddNodeTail_def link_nxt_def link_prev_def Let_def)
  moreover have "holds hp2 ?l (as @ [fresh hp]) (vs @ [v])"
    using r(3,4) d l by (cases as) (auto simp: holds_def intro: less_SucI)
  ultimately show ?thesis using r(5) by (auto simp: same_methods_def)
qed

lemma m_listDelNode_holds:
  assumes h: "holds hp l (as1 @ a # as2) (us @ w # ws)" and len: "length us = length as1"
  shows "\<exists>hp' l'. m_listDelNode hp l a = Some (if l_free l then [w] else [], hp', l') \<and>
    holds hp' l' (as1 @ as2) (us @ ws) \<and> lframe (as1 @ a # as2) hp hp' \<and> same_methods l l'"
proof -
  have s: "dlseg (cells hp) None (as1 @ a # as2) (us @ w # ws) None" and d: "distinct (as1 @ a # as2)"
    "\<forall>a\<in>set (as1 @ a # as2). a < fresh hp" and l: "l_head l = first_ref (as1 @ a # as2) None"
    "l_tail l = last_ref None (as1 @ a # as2)" "l_len l = length (as1 @ a # as2)"
    using h unfolding holds_def by auto
  have n: "cells hp a = Some \<lparr>l_prev = last_ref None as1, l_nxt = first_ref as2 None, l_val = w\<rparr>"
    and s1: "dlseg (cells hp) None as1 us (Some a)" and s2: "dlseg (cells hp) (Some a) as2 ws None"
    using s dlseg_length len unfolding dlseg_append by fastforce+
  obtain hp1 hp2 where r: "link_nxt hp (last_ref None as1) (first_ref as2 None) = Some hp1"
    "link_prev hp1 (first_ref as2 None) (last_ref None as1) = Some hp2"
    "dlseg (cells hp2) None (as1 @ as2) (us @ ws) None" "only_changes (as1 @ as2) hp hp2"
    using seg_join [OF s1 s2] d(1) by auto
  have "dlseg (cells (free_node hp2 a)) None (as1 @ as2) (us @ ws) None = dlseg (cells hp2) None (as1 @ as2) (us @ ws) None"
    by (rule dlseg_cong) (use d(1) in \<open>auto simp: free_node_def\<close>)
  then have s': "dlseg (cells (free_node hp2 a)) None (as1 @ as2) (us @ ws) None" using r(3) by simp
  let ?l1 = "if as1 = [] then l\<lparr>l_head := first_ref as2 None\<rparr> else l"
  let ?l2 = "if as2 = [] then ?l1\<lparr>l_tail := last_ref None as1\<rparr> else ?l1"
  have e: "last_ref None as1 = None \<longleftrightarrow> as1 = []" "first_ref as2 None = None \<longleftrightarrow> as2 = []"
    by (simp_all add: last_ref_def first_ref_def split: list.split)
  have "m_listDelNode hp l a = Some (if l_free l then [w] else [], free_node hp2 a, ?l2\<lparr>l_len := length (as1 @ as2)\<rparr>)"
    using n r(1,2) l(3) by (simp add: m_listDelNode_def count_dec_def e)
  moreover have "holds (free_node hp2 a) (?l2\<lparr>l_len := length (as1 @ as2)\<rparr>) (as1 @ as2) (us @ ws)"
    using s' d l r(4) by (cases as1; cases as2 rule: rev_cases) (auto simp: holds_def free_node_def only_changes_def)
  moreover have "lframe (as1 @ a # as2) hp (free_node hp2 a)"
    using r(4) by (auto simp: lframe_def only_changes_def free_node_def)
  ultimately show ?thesis by (auto simp: same_methods_def)
qed

section \<open>Emptying\<close>

lemma empty_loop_holds:
  assumes "dlseg (cells hp) p as vs n" "distinct as"
  shows "\<exists>hp'. empty_loop fr (length as) (first_ref as n) hp = Some (if fr then vs else [], hp') \<and>
    only_changes as hp hp' \<and> (\<forall>a\<in>set as. cells hp' a = None)"
  using assms
proof (induction as arbitrary: hp p vs)
  case Nil
  then show ?case by (simp add: only_changes_def)
next
  case (Cons a as)
  obtain v vs' where v: "vs = v # vs'" "cells hp a = Some \<lparr>l_prev = p, l_nxt = first_ref as n, l_val = v\<rparr>"
    "dlseg (cells hp) (Some a) as vs' n" using Cons.prems(1) by auto
  have "dlseg (cells (free_node hp a)) (Some a) as vs' n = dlseg (cells hp) (Some a) as vs' n"
    by (rule dlseg_cong) (use Cons.prems(2) in \<open>auto simp: free_node_def\<close>)
  with v(3) have seg: "dlseg (cells (free_node hp a)) (Some a) as vs' n" by simp
  have "distinct as" using Cons.prems(2) by simp
  with Cons.IH [OF seg] obtain hp' where
    h: "empty_loop fr (length as) (first_ref as n) (free_node hp a) = Some (if fr then vs' else [], hp')"
    "only_changes as (free_node hp a) hp'" "\<forall>b\<in>set as. cells hp' b = None"
    by blast
  have "cells hp' a = None" using h(2) Cons.prems(2) by (simp add: only_changes_def free_node_def)
  moreover have "only_changes (a # as) hp hp'" using h(2) by (simp add: only_changes_def free_node_def)
  ultimately show ?case using v h(1,3) by simp
qed

lemma m_listEmpty_holds:
  assumes h: "holds hp l as vs"
  shows "\<exists>hp' l'. m_listEmpty hp l = Some (if l_free l then vs else [], hp', l') \<and> holds hp' l' [] [] \<and>
    lframe as hp hp' \<and> same_methods l l' \<and> (\<forall>a\<in>set as. cells hp' a = None)"
proof -
  obtain hp' where e: "empty_loop (l_free l) (length as) (first_ref as None) hp = Some (if l_free l then vs else [], hp')"
    "only_changes as hp hp'" "\<forall>a\<in>set as. cells hp' a = None"
    using empty_loop_holds [of hp None as vs None "l_free l"] h by (auto simp: holds_def)
  then show ?thesis using h
    by (auto simp: m_listEmpty_def holds_def lframe_def only_changes_def same_methods_def)
qed

section \<open>Rotating and joining\<close>

lemma m_listRotate_holds:
  assumes h: "holds hp l as vs"
  shows "\<exists>hp' l'. m_listRotate hp l = Some (hp', l') \<and> holds hp' l' (rotate (length as - 1) as) (rotate (length vs - 1) vs) \<and>
    lframe as hp hp' \<and> same_methods l l'"
proof (cases "length as \<le> 1")
  case True
  then have "rotate (length as - 1) as = as" "rotate (length vs - 1) vs = vs" "length vs = length as"
    using h dlseg_length [of "cells hp" None as vs None] by (simp_all add: holds_def)
  then show ?thesis using h True by (simp add: m_listRotate_def holds_def lframe_def same_methods_def)
next
  case False
  then obtain b bs t where as: "as = (b # bs) @ [t]" by (cases as rule: rev_cases) (auto simp: neq_Nil_conv)
  have s: "dlseg (cells hp) None ((b # bs) @ [t]) vs None" and d: "distinct as" "\<forall>a\<in>set as. a < fresh hp"
    and l: "l_head l = Some b" "l_tail l = Some t" "l_len l = length as"
    using h unfolding holds_def as by auto
  obtain us w where vs: "vs = us @ [w]" and s1: "dlseg (cells hp) None (b # bs) us (Some t)"
    and t: "cells hp t = Some \<lparr>l_prev = last_ref None (b # bs), l_nxt = None, l_val = w\<rparr>"
    using s unfolding dlseg_append by auto
  have len: "length us = length (b # bs)" by (rule dlseg_length [OF s1])
  obtain hp1 where 1: "link_nxt hp (last_ref None (b # bs)) None = Some hp1" "dlseg (cells hp1) None (b # bs) us None"
    "only_changes (b # bs) hp hp1" using seg_link_nxt [OF s1, of None] d(1) as by auto
  obtain hp2 where 2: "link_prev hp1 (first_ref (b # bs) None) (Some t) = Some hp2"
    "dlseg (cells hp2) (Some t) (b # bs) us None" "only_changes (b # bs) hp1 hp2"
    using seg_link_prev [OF 1(2), of "Some t"] d(1) as by auto
  have "cells hp2 t = Some \<lparr>l_prev = last_ref None (b # bs), l_nxt = None, l_val = w\<rparr>"
    using 1(3) 2(3) t d(1) as by (auto simp: only_changes_def)
  moreover define hp3 where "hp3 = hp2\<lparr>cells := (cells hp2)(t \<mapsto> \<lparr>l_prev = None, l_nxt = Some b, l_val = w\<rparr>)\<rparr>"
  ultimately obtain hp4 where 3: "set_prev hp2 t None = Some hp4" "set_nxt hp4 t (Some b) = Some hp3"
    by (simp add: set_prev_def set_nxt_def)
  have "dlseg (cells hp3) (Some t) (b # bs) us None = dlseg (cells hp2) (Some t) (b # bs) us None"
    by (rule dlseg_cong) (use d(1) as in \<open>auto simp: hp3_def\<close>)
  then have s3: "dlseg (cells hp3) None (t # b # bs) (w # us) None" using 2(2) by (simp add: hp3_def)
  obtain t' where t': "last_ref None (b # bs) = Some t'" by (simp add: last_ref_def)
  have r: "m_listRotate hp l = Some (hp3, l\<lparr>l_tail := last_ref None (b # bs), l_head := Some t\<rparr>)"
    using False t t' l 1(1) 2(1) 3 by (simp add: m_listRotate_def link_nxt_def link_prev_def)
  have rot: "rotate (length as - 1) as = t # b # bs" "rotate (length vs - 1) vs = w # us"
    using rotate_append [of "b # bs" "[t]"] rotate_append [of us "[w]"] by (simp_all add: as vs)
  have "holds hp3 (l\<lparr>l_tail := last_ref None (b # bs), l_head := Some t\<rparr>) (t # b # bs) (w # us)"
    using s3 d l(3) 1(3) 2(3) by (auto simp: holds_def hp3_def only_changes_def as last_ref_def)
  moreover have "lframe as hp hp3" using 1(3) 2(3) by (auto simp: lframe_def only_changes_def hp3_def as)
  ultimately show ?thesis using r unfolding rot by (auto simp: same_methods_def)
qed

lemma m_listJoin_holds:
  assumes h: "holds hp l as vs" and h': "holds hp other bs ws" and dis: "set as \<inter> set bs = {}"
  shows "\<exists>hp' l' other'. m_listJoin hp l other = Some (hp', l', other') \<and> holds hp' l' (as @ bs) (vs @ ws) \<and>
    holds hp' other' [] [] \<and> lframe (as @ bs) hp hp' \<and> same_methods l l' \<and> same_methods other other'"
proof -
  have s: "dlseg (cells hp) None as vs None" "dlseg (cells hp) None bs ws None" "distinct as" "distinct bs"
    and l: "l_head l = first_ref as None" "l_tail l = last_ref None as" "l_head other = first_ref bs None"
      "l_tail other = last_ref None bs" "l_len l = length as" "l_len other = length bs"
    and fr: "\<forall>a\<in>set (as @ bs). a < fresh hp"
    using h h' unfolding holds_def by auto
  obtain hp1 hp2 where r: "link_prev hp (first_ref bs None) (last_ref None as) = Some hp1"
    "link_nxt hp1 (last_ref None as) (first_ref bs None) = Some hp2"
    "dlseg (cells hp2) None (as @ bs) (vs @ ws) None" "only_changes (as @ bs) hp hp2"
    using seg_join_rev [OF s(1,2,3,4) dis] by blast
  let ?l1 = "if last_ref None as = None then l\<lparr>l_head := l_head other\<rparr> else l"
  let ?l2 = "if last_ref None bs \<noteq> None then ?l1\<lparr>l_tail := l_tail other\<rparr> else ?l1"
  have "m_listJoin hp l other = Some (hp2, ?l2\<lparr>l_len := l_len ?l2 + l_len other\<rparr>,
      other\<lparr>l_head := None, l_tail := None, l_len := 0\<rparr>)"
    using r(1,2) l by (simp add: m_listJoin_def)
  moreover have "holds hp2 (?l2\<lparr>l_len := l_len ?l2 + l_len other\<rparr>) (as @ bs) (vs @ ws)"
    using r(3,4) s(3,4) dis fr l by (cases as; cases bs) (auto simp: holds_def only_changes_def last_ref_def)
  moreover have "holds hp2 (other\<lparr>l_head := None, l_tail := None, l_len := 0\<rparr>) [] []" by (simp add: holds_def)
  moreover have "lframe (as @ bs) hp hp2" using r(4) by (simp add: lframe_def only_changes_def)
  ultimately show ?thesis by (auto simp: same_methods_def)
qed

end
