(* ===== verification/AdlistProps.thy ===== *)
theory AdlistProps
  imports AdlistInv
begin

text \<open>
  The linked list provides the contract of a queue; indexing, searching and copying, and the
  properties of the operations over the list of values.
\<close>

section \<open>The queue\<close>

text \<open>What the module does with a list: \<open>m_listAddNodeTail\<close>, and \<open>listFirst\<close> with
  \<open>m_listDelNode\<close> while the length is positive.\<close>

definition list_enq :: "'v \<Rightarrow> 'v lheap \<times> 'v adlist \<Rightarrow> ('v lheap \<times> 'v adlist) option" where
  "list_enq v s = m_listAddNodeTail (fst s) (snd s) v"

definition list_deq :: "'v lheap \<times> 'v adlist \<Rightarrow> ('v option \<times> 'v lheap \<times> 'v adlist) option" where
  "list_deq s =
     (if l_len (snd s) = 0 then Some (None, s)
      else do {
        a \<leftarrow> l_head (snd s);
        n \<leftarrow> cells (fst s) a;
        (freed, s) \<leftarrow> m_listDelNode (fst s) (snd s) a;
        Some (Some (l_val n), s)
      })"

definition list_contents :: "'v lheap \<times> 'v adlist \<Rightarrow> 'v list \<Rightarrow> bool" where
  "list_contents s vs \<longleftrightarrow> (\<exists>as. holds (fst s) (snd s) as vs)"

interpretation key_queue: fifo list_contents list_enq list_deq
proof
  fix s :: "'v lheap \<times> 'v adlist" and vs v
  show "list_contents s vs \<Longrightarrow> \<exists>s'. list_enq v s = Some s' \<and> list_contents s' (vs @ [v])"
    using m_listAddNodeTail_holds by (fastforce simp: list_contents_def list_enq_def)
  show "list_contents s [] \<Longrightarrow> list_deq s = Some (None, s)"
    using adlist_length by (fastforce simp: list_contents_def list_deq_def)
  assume "list_contents s (v # vs)"
  then obtain as0 where h0: "holds (fst s) (snd s) as0 (v # vs)" by (auto simp: list_contents_def)
  then obtain a as where as0: "as0 = a # as" by (cases as0) (auto simp: holds_def)
  note h = h0 [unfolded as0]
  then have n: "l_head (snd s) = Some a" "l_len (snd s) \<noteq> 0" "\<exists>n. cells (fst s) a = Some n \<and> l_val n = v"
    by (auto simp: holds_def)
  obtain hp' l' where "m_listDelNode (fst s) (snd s) a = Some (if l_free (snd s) then [v] else [], hp', l')"
    "holds hp' l' as vs"
    using m_listDelNode_holds [of "fst s" "snd s" "[]" a as "[]" v vs] h by auto
  then show "\<exists>s'. list_deq s = Some (Some v, s') \<and> list_contents s' vs"
    using n by (auto simp: list_deq_def list_contents_def)
qed

section \<open>Walking the list\<close>

lemma index_walk_nxt:
  assumes "dlseg (cells hp) p as vs None"
  shows "index_walk l_nxt hp k (first_ref as None) = Some (if k < length as then Some (as ! k) else None)"
  using assms
proof (induction as arbitrary: p vs k)
  case Nil
  then show ?case by (cases k) simp_all
next
  case (Cons a as)
  then show ?case by (cases k) auto
qed

lemma index_walk_prev:
  assumes "dlseg (cells hp) None as vs n"
  shows "index_walk l_prev hp k (last_ref None as) = Some (if k < length as then Some (rev as ! k) else None)"
  using assms
proof (induction as arbitrary: vs n k rule: rev_induct)
  case Nil
  then show ?case by (cases k) simp_all
next
  case (snoc a as)
  then show ?case by (cases k) (auto simp: dlseg_append)
qed

lemma search_loop_find:
  assumes "dlseg (cells hp) p as vs None"
  shows "search_loop hp l key \<lparr>inext = first_ref as None, direction = AL_START_HEAD\<rparr> =
    Some (map_option fst (find (\<lambda>(a, v). value_matches l v key) (zip as vs)))"
  using assms
proof (induction as arbitrary: p vs)
  case Nil
  then show ?case by (subst search_loop.simps) (simp add: m_listNext_def)
next
  case (Cons a as)
  then show ?case by (subst search_loop.simps) (auto simp: m_listNext_def)
qed

text \<open>Copying: the values the \<open>dup\<close> method yields, or \<open>None\<close> when it fails on one of them.\<close>

definition dup_value :: "'v adlist \<Rightarrow> 'v \<Rightarrow> 'v option" where
  "dup_value l v = (case l_dup l of None \<Rightarrow> Some v | Some f \<Rightarrow> f v)"

lemma lframe_refl: "lframe as hp hp"
  by (simp add: lframe_def)

lemma lframe_widen:
  assumes "lframe cs hp hp1" "lframe cs' hp1 hp2" "set cs' \<subseteq> set cs \<union> {fresh hp..}"
  shows "lframe cs hp hp2"
  unfolding lframe_def
proof (intro conjI allI impI)
  show "fresh hp \<le> fresh hp2" using assms(1,2) by (simp add: lframe_def)
  fix b assume b: "b \<notin> set cs" "b < fresh hp"
  then have "b \<notin> set cs'" using assms(3) by auto
  moreover have "b < fresh hp1" using b assms(1) by (simp add: lframe_def)
  ultimately show "cells hp2 b = cells hp b" using assms(1,2) b by (simp add: lframe_def)
qed

lemma dup_loop_copies:
  assumes "dlseg (cells hp) p as vs None" "\<forall>a\<in>set as. a < fresh hp" "holds hp copy cs ws" "set as \<inter> set cs = {}"
  shows "case those (map (dup_value copy) vs) of
      Some us \<Rightarrow> \<exists>hp' copy' cs'. dup_loop \<lparr>inext = first_ref as None, direction = AL_START_HEAD\<rparr> hp copy =
          Some (Some copy', [], hp') \<and> holds hp' copy' cs' (ws @ us) \<and> lframe cs hp hp' \<and> same_methods copy copy'
    | None \<Rightarrow> \<exists>hp' freed. dup_loop \<lparr>inext = first_ref as None, direction = AL_START_HEAD\<rparr> hp copy =
          Some (None, freed, hp') \<and> lframe cs hp hp'"
  using assms
proof (induction as arbitrary: p vs hp copy cs ws)
  case Nil
  then show ?case
    by (subst dup_loop.simps)
      (auto simp: m_listNext_def same_methods_def lframe_refl)
next
  case (Cons a as)
  obtain v vs' where v: "vs = v # vs'" "cells hp a = Some \<lparr>l_prev = p, l_nxt = first_ref as None, l_val = v\<rparr>"
    "dlseg (cells hp) (Some a) as vs' None" using Cons.prems(1) by auto
  have step: "dup_loop \<lparr>inext = first_ref (a # as) None, direction = AL_START_HEAD\<rparr> hp copy =
      (case dup_value copy v of
         None \<Rightarrow> do { (fr, hp) \<leftarrow> m_listRelease hp copy; Some (None, fr, hp) }
       | Some u \<Rightarrow> do { (hp, copy) \<leftarrow> m_listAddNodeTail hp copy u;
            dup_loop \<lparr>inext = first_ref as None, direction = AL_START_HEAD\<rparr> hp copy })"
    by (subst dup_loop.simps) (cases "l_dup copy"; simp add: m_listNext_def v(2) dup_value_def)
  show ?case
  proof (cases "dup_value copy v")
    case None
    then show ?thesis using step m_listEmpty_holds [OF Cons.prems(3)] by (auto simp: v(1) m_listRelease_def)
  next
    case (Some u)
    obtain hp1 copy1 where 1: "m_listAddNodeTail hp copy u = Some (hp1, copy1)"
      "holds hp1 copy1 (cs @ [fresh hp]) (ws @ [u])" "lframe cs hp hp1" "same_methods copy copy1"
      using m_listAddNodeTail_holds [OF Cons.prems(3), of u] by blast
    have "dlseg (cells hp1) (Some a) as vs' None = dlseg (cells hp) (Some a) as vs' None"
      by (rule dlseg_cong) (use 1(3) Cons.prems(2,4) in \<open>auto simp: lframe_def\<close>)
    with v(3) have s1: "dlseg (cells hp1) (Some a) as vs' None" by simp
    have s2: "\<forall>a\<in>set as. a < fresh hp1" "set as \<inter> set (cs @ [fresh hp]) = {}"
      using 1(3) Cons.prems(2,4) by (auto simp: lframe_def)
    have m: "dup_value copy1 = dup_value copy" using 1(4) by (simp add: dup_value_def same_methods_def fun_eq_iff)
    have fr: "lframe cs hp hp'" if "lframe (cs @ [fresh hp]) hp1 hp'" for hp'
      by (rule lframe_widen [OF 1(3) that]) simp
    have "same_methods copy copy'" if "same_methods copy1 copy'" for copy'
      using 1(4) that by (simp add: same_methods_def)
    then show ?thesis
      using Cons.IH [OF s1 s2(1) 1(2) s2(2)] step Some 1(1) fr unfolding m
      by (fastforce simp: v(1) split: option.splits)
  qed
qed

section \<open>A concrete list\<close>

definition demo_nodes :: "nat lheap" where
  "demo_nodes = \<lparr>cells = [0 \<mapsto> \<lparr>l_prev = None, l_nxt = Some 1, l_val = 5\<rparr>,
     1 \<mapsto> \<lparr>l_prev = Some 0, l_nxt = Some 2, l_val = 6\<rparr>, 2 \<mapsto> \<lparr>l_prev = Some 1, l_nxt = None, l_val = 7\<rparr>], fresh = 3\<rparr>"

definition demo_adlist :: "nat adlist" where
  "demo_adlist = m_listCreate\<lparr>l_head := Some 0, l_tail := Some 2, l_len := 3, l_free := True,
     l_dup := Some (\<lambda>v. if v < 7 then Some (v + 10) else None)\<rparr>"

lemma demo_adlist: "holds demo_nodes demo_adlist [0, 1, 2] [5, 6, 7]"
  by (simp add: holds_def demo_nodes_def demo_adlist_def m_listCreate_def)

section \<open>Properties\<close>

text \<open>C35: Every sequence of additions at the tail and removals at the head is answered in order:
  the list the commands fill and empty is a queue.\<close>

theorem adlist_refines_fifo:
  assumes "holds hp l as vs"
  shows "\<exists>hp' l' as'. run_fifo list_enq list_deq ops (hp, l) = Some (fst (spec_fifo ops vs), hp', l') \<and>
    holds hp' l' as' (snd (spec_fifo ops vs))"
  using key_queue.run_fifo_refines [of "(hp, l)" vs ops] assms by (auto simp: list_contents_def)

lemma adlist_refines_fifo_witness:
  "\<exists>hp' l' as'. run_fifo list_enq list_deq [Deq, Enq 9, Deq, Deq, Deq, Deq] (demo_nodes, demo_adlist) =
      Some ([Some 5, Some 6, Some 7, Some 9, None], hp', l') \<and> holds hp' l' as' []"
  using adlist_refines_fifo [OF demo_adlist, of "[Deq, Enq 9, Deq, Deq, Deq, Deq]"] by simp

text \<open>Deleting a node in any position keeps the other nodes and their values in order, gives the
  value to the \<open>free\<close> method exactly when there is one, and touches no node of another list.\<close>

theorem m_listDelNode_unlinks:
  assumes "holds hp l (as1 @ a # as2) (us @ w # ws)" and "length us = length as1"
  shows "\<exists>hp' l'. m_listDelNode hp l a = Some (if l_free l then [w] else [], hp', l') \<and>
    holds hp' l' (as1 @ as2) (us @ ws) \<and> lframe (as1 @ a # as2) hp hp'"
  using m_listDelNode_holds [OF assms] by blast

lemma m_listDelNode_unlinks_witness:
  "\<exists>hp' l'. m_listDelNode demo_nodes demo_adlist 1 = Some ([6], hp', l') \<and> holds hp' l' [0, 2] [5, 7]"
  using m_listDelNode_unlinks [of demo_nodes demo_adlist "[0]" 1 "[2]" "[5]" 6 "[7]"] demo_adlist
  by (auto simp: demo_adlist_def)

text \<open>Inserting next to a node places the new value after or before it.\<close>

theorem m_listInsertNode_places:
  assumes "holds hp l (as1 @ a # as2) (us @ w # ws)" and "length us = length as1"
  shows "\<exists>hp' l'. m_listInsertNode hp l a v after = Some (hp', l') \<and>
    holds hp' l' (if after then as1 @ a # fresh hp # as2 else as1 @ fresh hp # a # as2)
      (if after then us @ w # v # ws else us @ v # w # ws)"
  using m_listInsertNode_holds [OF assms, of v after] by blast

lemma m_listInsertNode_places_witness:
  "\<exists>hp' l'. m_listInsertNode demo_nodes demo_adlist 2 8 True = Some (hp', l') \<and> holds hp' l' [0, 1, 2, 3] [5, 6, 7, 8]"
  using m_listInsertNode_places [of demo_nodes demo_adlist "[0, 1]" 2 "[]" "[5, 6]" 7 "[]" 8 True] demo_adlist
  by (simp add: demo_nodes_def)

text \<open>\<open>m_listIndex\<close> counts from the head, or from the tail for negative indices, and returns null
  out of range; every index but the least \<open>long\<close> is safe.\<close>

theorem m_listIndex_nth:
  assumes "holds hp l as vs" and "- (2 ^ 63) < index"
  shows "m_listIndex hp l index = Some
    (if 0 \<le> index then (if index < int (length as) then Some (as ! nat index) else None)
     else if - index \<le> int (length as) then Some (as ! nat (int (length as) + index)) else None)"
proof (cases "0 \<le> index")
  case True
  then show ?thesis
    using index_walk_nxt [of hp None as vs "nat index"] assms(1)
    by (simp add: m_listIndex_def holds_def nat_less_iff)
next
  case False
  define k where "k = nat (- index - 1)"
  have k: "index = - int k - 1" using False by (simp add: k_def)
  have "m_listIndex hp l index = Some (if k < length as then Some (rev as ! k) else None)"
    using index_walk_prev [of hp as vs None k] assms False by (simp add: m_listIndex_def holds_def k_def)
  moreover have "rev as ! k = as ! nat (int (length as) + index)" if "k < length as"
  proof -
    have "nat (int (length as) + index) = length as - Suc k" using that k by simp
    then show ?thesis using that by (simp add: rev_nth)
  qed
  moreover have "k < length as \<longleftrightarrow> - index \<le> int (length as)" using k by linarith
  ultimately show ?thesis using False by simp
qed

lemma m_listIndex_nth_witness: "m_listIndex demo_nodes demo_adlist (- 3) = Some (Some 0)"
  using m_listIndex_nth [OF demo_adlist, of "- 3"] by simp

text \<open>A copy has the duplicated values in the same order and leaves the original as it is; when
  the \<open>dup\<close> method fails on a value, there is no copy.\<close>

theorem m_listDup_copies:
  assumes "holds hp l as vs"
  shows "case those (map (dup_value l) vs) of
      Some us \<Rightarrow> \<exists>hp' l' as'. m_listDup hp l = Some (Some l', [], hp') \<and> holds hp' l' as' us \<and> holds hp' l as vs
    | None \<Rightarrow> \<exists>freed hp'. m_listDup hp l = Some (None, freed, hp') \<and> holds hp' l as vs"
proof -
  let ?c = "m_listCreate\<lparr>l_dup := l_dup l, l_free := l_free l, l_match := l_match l\<rparr>"
  have c: "holds hp ?c [] []" by (simp add: holds_def m_listCreate_def)
  have s: "dlseg (cells hp) None as vs None" "\<forall>a\<in>set as. a < fresh hp"
    and it: "m_listRewind l = \<lparr>inext = first_ref as None, direction = AL_START_HEAD\<rparr>"
    using assms by (auto simp: holds_def m_listRewind_def)
  have d: "dup_value ?c = dup_value l" by (simp add: dup_value_def fun_eq_iff)
  have keep: "holds hp' l as vs" if "lframe [] hp hp'" for hp' by (rule holds_other [OF assms that]) simp
  show ?thesis
    using dup_loop_copies [OF s c] keep unfolding m_listDup_def it d by (fastforce split: option.splits)
qed

lemma m_listDup_copies_witness:
  "\<exists>freed hp'. m_listDup demo_nodes demo_adlist = Some (None, freed, hp') \<and> holds hp' demo_adlist [0, 1, 2] [5, 6, 7]"
proof -
  have "those (map (dup_value demo_adlist) [5, 6, 7]) = None" by (simp add: dup_value_def demo_adlist_def)
  then show ?thesis using m_listDup_copies [OF demo_adlist] by simp
qed

text \<open>Searching returns the first node whose value matches.\<close>

theorem m_listSearchKey_first:
  assumes "holds hp l as vs"
  shows "m_listSearchKey hp l key = Some (map_option fst (find (\<lambda>(a, v). value_matches l v key) (zip as vs)))"
  using search_loop_find [of hp None as vs l key] assms by (simp add: m_listSearchKey_def m_listRewind_def holds_def)

lemma m_listSearchKey_first_witness: "m_listSearchKey demo_nodes demo_adlist 6 = Some (Some 1)"
  using m_listSearchKey_first [OF demo_adlist, of 6]
  by (simp add: value_matches_def demo_adlist_def m_listCreate_def)

text \<open>Joining appends the second list and leaves it empty; rotating moves the tail to the head.\<close>

theorem m_listJoin_appends:
  assumes "holds hp l as vs" and "holds hp other bs ws" and "set as \<inter> set bs = {}"
  shows "\<exists>hp' l' other'. m_listJoin hp l other = Some (hp', l', other') \<and> holds hp' l' (as @ bs) (vs @ ws) \<and>
    holds hp' other' [] []"
  using m_listJoin_holds [OF assms] by blast

lemma m_listJoin_appends_witness:
  "\<exists>hp' l' other'. m_listJoin demo_nodes m_listCreate demo_adlist = Some (hp', l', other') \<and>
    holds hp' l' [0, 1, 2] [5, 6, 7] \<and> holds hp' other' [] []"
  using m_listJoin_appends [OF holds_create demo_adlist] by simp

theorem m_listRotate_moves_tail:
  assumes "holds hp l (as @ [a]) (vs @ [v])"
  shows "\<exists>hp' l'. m_listRotate hp l = Some (hp', l') \<and> holds hp' l' (a # as) (v # vs)"
proof -
  have "length vs = length as" using assms dlseg_length by (fastforce simp: holds_def)
  then have r: "rotate (length (as @ [a]) - 1) (as @ [a]) = a # as" "rotate (length (vs @ [v]) - 1) (vs @ [v]) = v # vs"
    using rotate_append [of as "[a]"] rotate_append [of vs "[v]"] by simp_all
  show ?thesis using m_listRotate_holds [OF assms] unfolding r by blast
qed

end
