(* ===== verification/DictScan.thy ===== *)
theory DictScan
  imports DictProps
begin

text \<open>
  The cursor scan of \<open>dict.c\<close>: \<open>rev\<close> and \<open>m_dictScan\<close>, which visits one bucket of the
  smaller table per call and the buckets of the larger table it expands to, and the proof that
  a scan from cursor 0 back to cursor 0 emits every entry exactly once.
\<close>

section \<open>The code\<close>

text \<open>The loop \<open>while ((s >>= 1) > 0)\<close> of \<open>rev\<close>.\<close>

function rev_loop :: "nat \<Rightarrow> u64 \<Rightarrow> u64 \<Rightarrow> u64" where
  "rev_loop s msk v =
     (let s = s div 2 in
      if s > 0
      then let msk = msk XOR push_bit s msk in
           rev_loop s msk ((drop_bit s v AND msk) OR (push_bit s v AND NOT msk))
      else v)"
  by pat_completeness auto
termination by (relation "measure (\<lambda>(s, msk, v). s)") auto
declare rev_loop.simps [simp del]

definition scan_rev :: "u64 \<Rightarrow> u64" where
  "scan_rev v = rev_loop 64 (- 1) v"

text \<open>\<open>v |= ~m; v = rev(v); v++; v = rev(v);\<close>\<close>

definition bump_cursor :: "u64 \<Rightarrow> u64 \<Rightarrow> u64" where
  "bump_cursor m v = scan_rev (scan_rev (v OR NOT m) + 1)"

definition emit_bucket :: "('k, 'v) dictht \<Rightarrow> u64 \<Rightarrow> ('k, 'v) dictEntry list option" where
  "emit_bucket t v = arr_get (ht_table t) (unat (v AND ht_sizemask t))"

text \<open>The \<open>do ... while (v & (m0 ^ m1))\<close> loop over the larger table.\<close>

partial_function (option) scan_larger ::
  "u64 \<Rightarrow> ('k, 'v) dictht \<Rightarrow> u64 \<Rightarrow> (('k, 'v) dictEntry list \<times> u64) option" where
  "scan_larger m0 t1 v = do {
     de \<leftarrow> emit_bucket t1 v;
     let v = bump_cursor (ht_sizemask t1) v;
     if v AND (m0 XOR ht_sizemask t1) \<noteq> 0
     then do { (es, v) \<leftarrow> scan_larger m0 t1 v; Some (de @ es, v) }
     else Some (de, v)
   }"

text \<open>The result is the list of entries \<open>fn\<close> is called with, and the next cursor.\<close>

definition m_dictScan :: "('k, 'v) dict \<Rightarrow> u64 \<Rightarrow> (('k, 'v) dictEntry list \<times> u64) option" where
  "m_dictScan d v =
     (if dictSize d = 0 then Some ([], 0)
      else if \<not> dictIsRehashing d then do {
        de \<leftarrow> emit_bucket (ht0 d) v;
        Some (de, bump_cursor (ht_sizemask (ht0 d)) v)
      }
      else do {
        let (t0, t1) = (if ht_size (ht0 d) > ht_size (ht1 d) then (ht1 d, ht0 d) else (ht0 d, ht1 d));
        de \<leftarrow> emit_bucket t0 v;
        (es, v) \<leftarrow> scan_larger (ht_sizemask t0) t1 v;
        Some (de @ es, v)
      })"

section \<open>Reversing the bits of a cursor\<close>

definition swap_bits :: "nat \<Rightarrow> u64 \<Rightarrow> u64 \<Rightarrow> u64" where
  "swap_bits s m v = (drop_bit s v AND m) OR (push_bit s v AND NOT m)"

lemma rev_loop_step:
  "m XOR push_bit s m = m' \<Longrightarrow> 0 < s \<Longrightarrow> s2 = 2 * s \<Longrightarrow> rev_loop s2 m v = rev_loop s m' (swap_bits s m' v)"
  by (subst rev_loop.simps) (simp add: swap_bits_def Let_def)

lemma rev_loop_end: "rev_loop 1 m v = v"
  by (subst rev_loop.simps) simp

lemma masks:
  "(- 1 :: u64) XOR push_bit 32 (- 1) = 0x00000000FFFFFFFF"
  "(0x00000000FFFFFFFF :: u64) XOR push_bit 16 0x00000000FFFFFFFF = 0x0000FFFF0000FFFF"
  "(0x0000FFFF0000FFFF :: u64) XOR push_bit 8 0x0000FFFF0000FFFF = 0x00FF00FF00FF00FF"
  "(0x00FF00FF00FF00FF :: u64) XOR push_bit 4 0x00FF00FF00FF00FF = 0x0F0F0F0F0F0F0F0F"
  "(0x0F0F0F0F0F0F0F0F :: u64) XOR push_bit 2 0x0F0F0F0F0F0F0F0F = 0x3333333333333333"
  "(0x3333333333333333 :: u64) XOR push_bit 1 0x3333333333333333 = 0x5555555555555555"
  by (simp_all add: mask_eq_exp_minus_1)

lemma scan_rev_eq: "scan_rev v = swap_bits 1 0x5555555555555555 (swap_bits 2 0x3333333333333333 (swap_bits 4 0x0F0F0F0F0F0F0F0F
  (swap_bits 8 0x00FF00FF00FF00FF (swap_bits 16 0x0000FFFF0000FFFF (swap_bits 32 0x00000000FFFFFFFF v)))))"
  unfolding scan_rev_def
  by (simp only: rev_loop_step [OF masks(1), of 64] rev_loop_step [OF masks(2), of 32] rev_loop_step [OF masks(3), of 16]
    rev_loop_step [OF masks(4), of 8] rev_loop_step [OF masks(5), of 4] rev_loop_step [OF masks(6), of 2] rev_loop_end
    zero_less_numeral zero_less_one numeral_times_numeral mult_1_right arith_simps)

lemma bit_swap: "n < 64 \<Longrightarrow> bit (swap_bits s m v) n \<longleftrightarrow> (if bit m n then bit v (n + s) else s \<le> n \<and> bit v (n - s))"
  by (auto simp: swap_bits_def bit_simps add.commute)

lemma upto64: "[0..<64] = ([0, 1, 2, 3, 4, 5, 6, 7, 8, 9, 10, 11, 12, 13, 14, 15, 16, 17, 18, 19, 20, 21, 22, 23, 24, 25, 26, 27, 28, 29, 30, 31, 32, 33, 34, 35, 36, 37, 38, 39, 40, 41, 42, 43, 44, 45, 46, 47, 48, 49, 50, 51, 52, 53, 54, 55, 56, 57, 58, 59, 60, 61, 62, 63] :: nat list)"
  by (simp add: upt_rec_numeral upt_conv_Cons)

definition mask_for :: "nat \<Rightarrow> u64 \<Rightarrow> bool" where
  "mask_for s m \<longleftrightarrow>
     list_all (\<lambda>n. (if bit m n then n XOR s = n + s else s \<le> n \<and> n XOR s = n - s) \<and> n XOR s < 64) [0..<64]"

lemma bit_swap_pos: "mask_for s m \<Longrightarrow> n < 64 \<Longrightarrow> bit (swap_bits s m v) n = bit v (n XOR s) \<and> n XOR s < 64"
  by (auto simp: mask_for_def list_all_iff bit_swap)

lemma mask_for_32: "mask_for 32 0x00000000FFFFFFFF"
  unfolding mask_for_def upto64 list.pred_inject by simp

lemma mask_for_16: "mask_for 16 0x0000FFFF0000FFFF"
  unfolding mask_for_def upto64 list.pred_inject by simp

lemma mask_for_8: "mask_for 8 0x00FF00FF00FF00FF"
  unfolding mask_for_def upto64 list.pred_inject by simp

lemma mask_for_4: "mask_for 4 0x0F0F0F0F0F0F0F0F"
  unfolding mask_for_def upto64 list.pred_inject by simp

lemma mask_for_2: "mask_for 2 0x3333333333333333"
  unfolding mask_for_def upto64 list.pred_inject by simp

lemma mask_for_1: "mask_for 1 0x5555555555555555"
  unfolding mask_for_def upto64 list.pred_inject by simp

lemma xor_63: "n < 64 \<Longrightarrow> n XOR 63 = 63 - n" for n :: nat
proof -
  have "list_all (\<lambda>n. n XOR 63 = 63 - n) ([0..<64] :: nat list)" unfolding upto64 list.pred_inject by simp
  then show "n < 64 \<Longrightarrow> n XOR 63 = 63 - n" by (simp add: list_all_iff)
qed

lemma scan_rev_reverse: "scan_rev v = word_reverse v"
proof (rule bit_word_eqI)
  fix n assume "n < LENGTH(64)"
  then have n: "n < 64" by simp
  have e: "(((((n XOR 1) XOR 2) XOR 4) XOR 8) XOR 16) XOR 32 = n XOR 63" by (simp add: xor.assoc)
  have "bit (scan_rev v) n = bit v (n XOR 63)"
    unfolding scan_rev_eq e [symmetric]
    using n by (simp only: bit_swap_pos [OF mask_for_1] bit_swap_pos [OF mask_for_2] bit_swap_pos [OF mask_for_4]
      bit_swap_pos [OF mask_for_8] bit_swap_pos [OF mask_for_16] bit_swap_pos [OF mask_for_32])
  then show "bit (scan_rev v) n = bit (word_reverse v) n" using n by (simp add: bit_word_reverse_iff xor_63)
qed

section \<open>Cursors as positions\<close>

text \<open>The cursor of position \<open>i\<close> in a table of \<open>2^k\<close> buckets: the \<open>k\<close> bits of \<open>i\<close> reversed.\<close>

definition cur :: "nat \<Rightarrow> nat \<Rightarrow> u64" where
  "cur k i = word_reverse (push_bit (64 - k) (of_nat i))"

lemma bit_cur: "k \<le> 64 \<Longrightarrow> bit (cur k i) n \<longleftrightarrow> n < k \<and> bit i (k - 1 - n)"
proof -
  assume k: "k \<le> 64"
  have "n < k \<Longrightarrow> 63 - n - (64 - k) = k - 1 - n" using k by simp
  then show ?thesis using k by (auto simp: cur_def bit_word_reverse_iff bit_push_bit_iff bit_of_nat_iff)
qed

lemma cur_zero: "cur k 0 = 0"
  by (rule bit_word_eqI) (simp add: cur_def bit_word_reverse_iff)

lemma bits_below: "i < 2 ^ k \<Longrightarrow> bit i n \<Longrightarrow> n < k" for i :: nat
  by (metis bit_take_bit_iff take_bit_nat_eq_self)

lemma cur_inj:
  assumes "k \<le> 64" "i < 2 ^ k" "j < 2 ^ k" "cur k i = cur k j"
  shows "i = j"
proof (rule bit_eqI)
  fix n
  have "bit x n = (n < k \<and> bit (cur k x) (k - 1 - n))" if "x < 2 ^ k" for x
    using bits_below [OF that, of n] bit_cur [OF assms(1), of x "k - 1 - n"] by auto
  then show "bit i n = bit j n" using assms by simp
qed

lemma cur_and: 
  assumes "k0 \<le> k1" "k1 \<le> 64"
  shows "cur k1 j AND mask k0 = cur k0 (j div 2 ^ (k1 - k0))"
proof (rule bit_word_eqI)
  fix n
  have "n < k0 \<Longrightarrow> k1 - k0 + (k0 - 1 - n) = k1 - 1 - n" using assms by simp
  then show "bit (cur k1 j AND mask k0) n = bit (cur k0 (j div 2 ^ (k1 - k0))) n"
    using assms by (auto simp: bit_and_iff bit_mask_iff bit_cur bit_drop_bit_eq simp flip: drop_bit_eq_div)
qed

lemma cur_self: "k \<le> 64 \<Longrightarrow> cur k i AND mask k = cur k i"
  using cur_and [of k k i] by simp

lemma cur_embed:
  assumes "k0 \<le> k1" "k1 \<le> 64"
  shows "cur k0 i = cur k1 (i * 2 ^ (k1 - k0))"
proof (rule bit_word_eqI)
  fix n
  have "bit (i * 2 ^ (k1 - k0)) (k1 - 1 - n) = (k1 - k0 \<le> k1 - 1 - n \<and> bit i (k1 - 1 - n - (k1 - k0)))"
    by (simp add: bit_push_bit_iff possible_bit_def flip: push_bit_eq_mult)
  moreover have "n < k1 \<Longrightarrow> (k1 - k0 \<le> k1 - 1 - n) = (n < k0)" "n < k0 \<Longrightarrow> k1 - 1 - n - (k1 - k0) = k0 - 1 - n"
    using assms by auto
  ultimately show "bit (cur k0 i) n = bit (cur k1 (i * 2 ^ (k1 - k0))) n" using assms by (auto simp: bit_cur)
qed

lemma cur_low:
  assumes "k0 \<le> k1" "k1 \<le> 64"
  shows "cur k1 j AND (mask k0 XOR mask k1) = 0 \<longleftrightarrow> 2 ^ (k1 - k0) dvd j"
proof -
  have "cur k1 j AND (mask k0 XOR mask k1) = 0 \<longleftrightarrow> (\<forall>n. \<not> (k0 \<le> n \<and> n < k1 \<and> bit j (k1 - 1 - n)))"
  proof -
    have "bit (cur k1 j AND (mask k0 XOR mask k1)) n \<longleftrightarrow> k0 \<le> n \<and> n < k1 \<and> bit j (k1 - 1 - n)" for n
      using assms by (auto simp: bit_and_iff bit_xor_iff bit_mask_iff bit_cur)
    then show ?thesis by (metis bit_0_eq bot_apply bot_bool_def bit_word_eqI)
  qed
  also have "\<dots> \<longleftrightarrow> (\<forall>m < k1 - k0. \<not> bit j m)"
  proof
    assume a: "\<forall>n. \<not> (k0 \<le> n \<and> n < k1 \<and> bit j (k1 - 1 - n))"
    show "\<forall>m < k1 - k0. \<not> bit j m"
    proof (intro allI impI)
      fix m assume "m < k1 - k0"
      then show "\<not> bit j m" using a [rule_format, of "k1 - 1 - m"] by auto
    qed
  qed auto
  also have "\<dots> \<longleftrightarrow> take_bit (k1 - k0) j = 0"
    by (auto simp: bit_eq_iff bit_take_bit_iff)
  finally show ?thesis by (simp add: take_bit_eq_0_iff)
qed

lemma push_of_nat_mod: "k \<le> 64 \<Longrightarrow> push_bit (64 - k) (of_nat x :: u64) = push_bit (64 - k) (of_nat (x mod 2 ^ k))"
  by (rule bit_word_eqI)
    (auto simp: bit_push_bit_iff bit_of_nat_iff bit_take_bit_iff simp flip: take_bit_eq_mod)

text \<open>Incrementing the reversed cursor goes to the next position.\<close>

lemma bump_cursor_next:
  assumes k: "k \<le> 60" and v: "v AND mask k = cur k i"
  shows "bump_cursor (mask k) v = cur k ((i + 1) mod 2 ^ k)"
proof -
  let ?w = "push_bit (64 - k) (of_nat i) :: u64"
  have "word_reverse (v OR NOT (mask k)) = ?w OR mask (64 - k)"
  proof (rule bit_word_eqI)
    fix n assume "n < LENGTH(64)"
    then have n: "n < 64" by simp
    have "bit v (63 - n) \<longleftrightarrow> bit i (n - (64 - k))" if "64 - k \<le> n"
    proof -
      have "63 - n < k" "k - 1 - (63 - n) = n - (64 - k)" using that n k by auto
      moreover have "bit (v AND mask k) (63 - n) = bit (cur k i) (63 - n)" using v by simp
      ultimately show ?thesis using k by (simp add: bit_and_iff bit_mask_iff bit_cur)
    qed
    then show "bit (word_reverse (v OR NOT (mask k))) n = bit (?w OR mask (64 - k)) n"
      using n k by (auto simp: bit_word_reverse_iff bit_or_iff bit_not_iff bit_mask_iff bit_push_bit_iff bit_of_nat_iff)
  qed
  also have "\<dots> = ?w + mask (64 - k)"
    by (rule disjunctive_add [symmetric]) (auto simp: bit_push_bit_iff bit_mask_iff)
  finally have "word_reverse (v OR NOT (mask k)) + 1 = ?w + 2 ^ (64 - k)" by (simp add: mask_eq_exp_minus_1)
  also have "\<dots> = push_bit (64 - k) (of_nat (i + 1))" by (simp add: push_bit_eq_mult algebra_simps)
  also have "\<dots> = push_bit (64 - k) (of_nat ((i + 1) mod 2 ^ k))"
    by (rule push_of_nat_mod) (use k in simp)
  finally show ?thesis by (simp add: bump_cursor_def scan_rev_reverse cur_def)
qed

section \<open>Every bucket once\<close>

lemma cur_index_less:
  assumes "k \<le> 60"
  shows "unat (cur k i) < 2 ^ k"
proof -
  have "unat (cur k i AND mask k) < 2 ^ k"
    by (simp add: unsigned_take_bit_eq take_bit_nat_less_exp flip: take_bit_eq_mask)
  then show ?thesis using cur_self [of k i] assms by simp
qed

lemma cur_index_bij:
  assumes "k \<le> 60"
  shows "bij_betw (\<lambda>i. unat (cur k i)) {..<2 ^ k} {..<2 ^ k}"
proof (rule bij_betw_imageI)
  show inj: "inj_on (\<lambda>i. unat (cur k i)) {..<2 ^ k}"
  proof (rule inj_onI)
    fix x y assume "x \<in> {..<2 ^ k}" "y \<in> {..<2 ^ k}" "unat (cur k x) = unat (cur k y)"
    then show "x = y" using cur_inj [of k x y] assms by (simp add: word_unat_eq_iff)
  qed
  have "(\<lambda>i. unat (cur k i)) ` {..<2 ^ k} \<subseteq> {..<2 ^ k}" using cur_index_less [OF assms] by auto
  then show "(\<lambda>i. unat (cur k i)) ` {..<2 ^ k} = {..<2 ^ k}"
    by (rule card_subset_eq [rotated]) (simp_all add: card_image [OF inj])
qed

text \<open>Taking the buckets in the order of the cursor is a permutation of the table.\<close>

lemma buckets_mset:
  assumes "k \<le> 60" "length t = 2 ^ k"
  shows "mset (concat (map (\<lambda>i. t ! unat (cur k i)) [0..<2 ^ k])) = mset (concat t)"
proof -
  have "mset (map (\<lambda>i. t ! unat (cur k i)) [0..<2 ^ k]) =
      image_mset ((!) t) (image_mset (\<lambda>i. unat (cur k i)) (mset_set {..<2 ^ k}))"
    by (simp add: image_mset.compositionality comp_def lessThan_atLeast0 flip: mset_upt)
  also have "image_mset (\<lambda>i. unat (cur k i)) (mset_set {..<2 ^ k}) = mset_set {..<2 ^ k}"
    using cur_index_bij [OF assms(1)] by (simp add: image_mset_mset_set bij_betw_def)
  also have "image_mset ((!) t) (mset_set {..<2 ^ k}) = mset (map ((!) t) [0..<length t])"
    by (simp add: assms(2) lessThan_atLeast0 flip: mset_upt)
  finally have "mset (map (\<lambda>i. t ! unat (cur k i)) [0..<2 ^ k]) = mset t" by (simp add: map_nth)
  then have "\<Sum>\<^sub># (image_mset mset (mset (map (\<lambda>i. t ! unat (cur k i)) [0..<2 ^ k]))) = \<Sum>\<^sub># (image_mset mset (mset t))"
    by (rule arg_cong)
  then show ?thesis by (simp only: mset_concat mset_map [symmetric] sum_mset_sum_list)
qed

definition table_ok :: "nat \<Rightarrow> ('k, 'v) dictht \<Rightarrow> bool" where
  "table_ok k t \<longleftrightarrow> k \<le> 60 \<and> length (ht_table t) = 2 ^ k \<and> ht_sizemask t = mask k"

lemma ht_valid_table_ok:
  assumes "ht_valid ty t" "ht_size t \<noteq> 0"
  obtains k where "table_ok k t" "ht_size t = 2 ^ k"
proof -
  from ht_validD(3) [OF assms] obtain k where k: "k \<le> 60" "ht_size t = 2 ^ k" by (rule table_sizeE)
  have "(of_nat (2 ^ k - 1) :: u64) = mask k" by (simp add: mask_eq_exp_minus_1 of_nat_diff)
  then show thesis using that [of k] assms k by (simp add: table_ok_def ht_valid_def)
qed

lemma emit_bucket_at:
  assumes "table_ok k t" "v AND mask k = cur k i"
  shows "emit_bucket t v = Some (ht_table t ! unat (cur k i))"
  using assms cur_index_less [of k i] by (simp add: emit_bucket_def table_ok_def arr_simps)

text \<open>The inner loop goes through the expansions of one bucket of the smaller table.\<close>

lemma scan_larger_run:
  assumes t: "table_ok k1 t" and k: "k0 \<le> k1" and j: "j < (q + 1) * 2 ^ (k1 - k0)" "q * 2 ^ (k1 - k0) \<le> j" "q < 2 ^ k0"
  shows "scan_larger (mask k0) t (cur k1 j) =
    Some (concat (map (\<lambda>i. ht_table t ! unat (cur k1 i)) [j..<(q + 1) * 2 ^ (k1 - k0)]), cur k0 ((q + 1) mod 2 ^ k0))"
  using j
proof (induction "(q + 1) * 2 ^ (k1 - k0) - j" arbitrary: j rule: less_induct)
  case less
  let ?D = "2 ^ (k1 - k0) :: nat"
  have k1: "k1 \<le> 60" "ht_sizemask t = mask k1" using t by (simp_all add: table_ok_def)
  have pow: "2 ^ k1 = 2 ^ k0 * ?D" using k by (simp flip: power_add)
  have e: "emit_bucket t (cur k1 j) = Some (ht_table t ! unat (cur k1 j))"
    by (rule emit_bucket_at [OF t cur_self]) (use k1 in simp)
  have b: "bump_cursor (mask k1) (cur k1 j) = cur k1 ((j + 1) mod 2 ^ k1)"
    by (rule bump_cursor_next [OF k1(1) cur_self]) (use k1 in simp)
  have up: "[j..<(q + 1) * ?D] = j # [j + 1..<(q + 1) * ?D]" using less.prems(1) by (simp add: upt_conv_Cons)
  have low: "cur k1 ((j + 1) mod 2 ^ k1) AND (mask k0 XOR mask k1) = 0 \<longleftrightarrow> ?D dvd j + 1"
    using cur_low [OF k, of "(j + 1) mod 2 ^ k1"] k1(1) pow by (simp add: dvd_mod_iff)
  show ?case
  proof (cases "j + 1 = (q + 1) * ?D")
    case True
    then have "(j + 1) mod 2 ^ k1 = ((q + 1) mod 2 ^ k0) * ?D" by (simp only: pow mod_mult_mult2)
    then have c: "cur k1 ((j + 1) mod 2 ^ k1) = cur k0 ((q + 1) mod 2 ^ k0)"
      using cur_embed [OF k, of "(q + 1) mod 2 ^ k0"] k1(1) by simp
    have "?D dvd j + 1" unfolding True by simp
    then show ?thesis using e b up low c k1(2) True by (subst scan_larger.simps) simp
  next
    case False
    then have lt: "j + 1 < (q + 1) * ?D" using less.prems(1) by simp
    have nd: "\<not> ?D dvd j + 1"
    proof
      assume "?D dvd j + 1"
      then obtain r where "j + 1 = r * ?D" by (metis dvd_def mult.commute)
      then have "q * ?D < r * ?D" "r * ?D < (q + 1) * ?D" using lt less.prems(2) by linarith+
      then show False by (simp only: mult_less_cancel2) linarith
    qed
    have "(q + 1) * ?D \<le> 2 ^ k0 * ?D" using less.prems(3) by (intro mult_right_mono) simp_all
    then have m: "(j + 1) mod 2 ^ k1 = j + 1" using lt pow by simp
    have "scan_larger (mask k0) t (cur k1 (j + 1)) =
        Some (concat (map (\<lambda>i. ht_table t ! unat (cur k1 i)) [j + 1..<(q + 1) * ?D]), cur k0 ((q + 1) mod 2 ^ k0))"
      by (rule less.hyps) (use lt less.prems in auto)
    then show ?thesis using e b up low nd k1(2) m by (subst scan_larger.simps) simp
  qed
qed

section \<open>Scans of the whole table\<close>

text \<open>The loop the callers make: from one cursor until 0 comes back, as in
  \<open>SlotsMGRT_DelSlotKeys\<close>.\<close>

partial_function (option) scan_until_zero :: "('k, 'v) dict \<Rightarrow> u64 \<Rightarrow> ('k, 'v) dictEntry list option" where
  "scan_until_zero d v = do {
     (es, v) \<leftarrow> m_dictScan d v;
     if v = 0 then Some es else do { rest \<leftarrow> scan_until_zero d v; Some (es @ rest) }
   }"

text \<open>A scan whose calls emit the parts \<open>f 0, f 1, ...\<close> at the positions of a table.\<close>

lemma scan_positions:
  assumes k: "k \<le> 60"
    and step: "\<And>i. i < 2 ^ k \<Longrightarrow> m_dictScan d (cur k i) = Some (f i, cur k ((i + 1) mod 2 ^ k))"
    and i: "i < 2 ^ k"
  shows "scan_until_zero d (cur k i) = Some (concat (map f [i..<2 ^ k]))"
  using i
proof (induction "2 ^ k - i" arbitrary: i rule: less_induct)
  case less
  have up: "[i..<2 ^ k] = i # [i + 1..<2 ^ k]" using less.prems by (simp add: upt_conv_Cons)
  show ?case
  proof (cases "i + 1 = 2 ^ k")
    case True
    then show ?thesis using step [OF less.prems] up by (subst scan_until_zero.simps) (simp add: cur_zero)
  next
    case False
    then have lt: "i + 1 < 2 ^ k" using less.prems by simp
    then have m: "(i + 1) mod 2 ^ k = i + 1" by simp
    have "cur k (i + 1) \<noteq> 0"
    proof
      assume "cur k (i + 1) = 0"
      then have "i + 1 = 0" using lt k by (intro cur_inj [of k]) (simp_all add: cur_zero)
      then show False by simp
    qed
    moreover have "scan_until_zero d (cur k (i + 1)) = Some (concat (map f [i + 1..<2 ^ k]))"
      by (rule less.hyps) (use lt in auto)
    ultimately show ?thesis using step [OF less.prems] up m by (subst scan_until_zero.simps) simp
  qed
qed

lemma scan_plain:
  assumes "table_ok k (ht0 d)" "\<not> dictIsRehashing d" "dictSize d \<noteq> 0"
  shows "m_dictScan d (cur k i) = Some (ht_table (ht0 d) ! unat (cur k i), cur k ((i + 1) mod 2 ^ k))"
proof -
  have k: "k \<le> 60" "ht_sizemask (ht0 d) = mask k" using assms(1) by (simp_all add: table_ok_def)
  have c: "cur k i AND mask k = cur k i" by (rule cur_self) (use k in simp)
  show ?thesis
    using assms(2,3) emit_bucket_at [OF assms(1) c] bump_cursor_next [OF k(1) c] k(2) by (simp add: m_dictScan_def)
qed

lemma scan_rehashing:
  assumes t0: "table_ok k0 t0" and t1: "table_ok k1 t1" and k: "k0 \<le> k1"
    and d: "dictIsRehashing d" "dictSize d \<noteq> 0"
      "(if ht_size (ht0 d) > ht_size (ht1 d) then (ht1 d, ht0 d) else (ht0 d, ht1 d)) = (t0, t1)"
    and i: "i < 2 ^ k0"
  shows "m_dictScan d (cur k0 i) = Some (ht_table t0 ! unat (cur k0 i) @
    concat (map (\<lambda>j. ht_table t1 ! unat (cur k1 j)) [i * 2 ^ (k1 - k0)..<(i + 1) * 2 ^ (k1 - k0)]),
    cur k0 ((i + 1) mod 2 ^ k0))"
proof -
  have k0: "k0 \<le> 60" "ht_sizemask t0 = mask k0" and k1: "k1 \<le> 64" using t0 t1 by (simp_all add: table_ok_def)
  have "cur k0 i AND mask k0 = cur k0 i" by (rule cur_self) (use k0 in simp)
  note e = emit_bucket_at [OF t0 this]
  have "scan_larger (mask k0) t1 (cur k1 (i * 2 ^ (k1 - k0))) = Some (
      concat (map (\<lambda>j. ht_table t1 ! unat (cur k1 j)) [i * 2 ^ (k1 - k0)..<(i + 1) * 2 ^ (k1 - k0)]),
      cur k0 ((i + 1) mod 2 ^ k0))"
    by (rule scan_larger_run [OF t1 k]) (use i in simp_all)
  then show ?thesis
    using d e k0(2) unfolding cur_embed [OF k k1, symmetric] by (simp add: m_dictScan_def)
qed

text \<open>The parts of a scan over two tables, put together.\<close>

lemma concat_blocks:
  "concat (map (\<lambda>i. concat (map g [i * D..<(i + 1) * D])) [0..<n]) = concat (map g [0..<n * D])"
proof (induction n)
  case (Suc n)
  have "[0..<Suc n * D] = [0..<n * D] @ [n * D..<(n + 1) * D]"
    by (metis add.commute le_add1 mult_Suc Suc_eq_plus1 upt_add_eq_append zero_le)
  then show ?case using Suc by simp
qed simp

lemma mset_concat_append: "mset (concat (map (\<lambda>i. f i @ g i) xs)) = mset (concat (map f xs)) + mset (concat (map g xs))"
  by (induction xs) simp_all

text \<open>The positions of a dictionary: what the call at each of them emits, all together its
  entries.\<close>

lemma scan_cycle:
  assumes inv: "dict_inv ty d"
  obtains k f where "k \<le> 60" "\<And>i. i < 2 ^ k \<Longrightarrow> m_dictScan d (cur k i) = Some (f i, cur k ((i + 1) mod 2 ^ k))"
    "mset (concat (map f [0..<2 ^ k])) = mset (dict_entries d)"
proof (cases "dictSize d = 0")
  case True
  then have "dict_entries d = []" using dict_size_entries [OF inv] by simp
  then show thesis using True that [of 0 "\<lambda>i. []"] by (simp add: m_dictScan_def cur_zero)
next
  case nonempty: False
  show thesis
  proof (cases "dictIsRehashing d")
    case False
    note p = dict_inv_plainD [OF inv False]
    have "ht_size (ht0 d) \<noteq> 0"
      using nonempty p(4) ht_validD(1,2) [OF p(1)] by (cases "ht_table (ht0 d)") (auto simp: ht_entries_def)
    then obtain k where t: "table_ok k (ht0 d)" "ht_size (ht0 d) = 2 ^ k" using ht_valid_table_ok [OF p(1)] by blast
    then have k: "k \<le> 60" "length (ht_table (ht0 d)) = 2 ^ k" by (simp_all add: table_ok_def)
    show thesis
      by (rule that [OF k(1) scan_plain [OF t(1) False nonempty]])
        (use buckets_mset [OF k] p(3) in \<open>simp add: ht_entries_def\<close>)
  next
    case True
    note r = dict_inv_rehashingD [OF inv True]
    obtain ka where a: "table_ok ka (ht0 d)" "ht_size (ht0 d) = 2 ^ ka" using ht_valid_table_ok [OF r(1,6)] by blast
    obtain kb where b: "table_ok kb (ht1 d)" "ht_size (ht1 d) = 2 ^ kb" using ht_valid_table_ok [OF r(2,7)] by blast
    obtain k0 k1 t0 t1 where
      t: "table_ok k0 t0" "table_ok k1 t1" "k0 \<le> k1"
        "(if ht_size (ht0 d) > ht_size (ht1 d) then (ht1 d, ht0 d) else (ht0 d, ht1 d)) = (t0, t1)"
      and m: "mset (concat (ht_table t0)) + mset (concat (ht_table t1)) = mset (dict_entries d)"
    proof (cases "ht_size (ht0 d) > ht_size (ht1 d)")
      case True
      then have "kb \<le> ka" using a(2) b(2) by simp
      then show thesis using that [OF b(1) a(1)] True by (simp add: dict_entries_def ht_entries_def add.commute)
    next
      case False
      then have "ka \<le> kb" using a(2) b(2) by simp
      then show thesis using that [OF a(1) b(1)] False by (simp add: dict_entries_def ht_entries_def)
    qed
    have k: "k0 \<le> 60" "length (ht_table t0) = 2 ^ k0" "k1 \<le> 60" "length (ht_table t1) = 2 ^ k1"
      using t by (simp_all add: table_ok_def)
    have "2 ^ k0 * 2 ^ (k1 - k0) = (2 ^ k1 :: nat)" using t(3) by (simp flip: power_add)
    then have all: "mset (concat (map (\<lambda>i. ht_table t0 ! unat (cur k0 i) @ concat (map (\<lambda>j. ht_table t1 ! unat (cur k1 j))
        [i * 2 ^ (k1 - k0)..<(i + 1) * 2 ^ (k1 - k0)])) [0..<2 ^ k0])) = mset (dict_entries d)"
      unfolding mset_concat_append concat_blocks using buckets_mset [OF k(1,2)] buckets_mset [OF k(3,4)] m by simp
    show thesis by (rule that [OF k(1) scan_rehashing [OF t(1-3) True nonempty t(4)] all])
  qed
qed

lemma full_scan_complete:
  assumes inv: "dict_inv ty d"
  shows "\<exists>es. scan_until_zero d 0 = Some es \<and> mset es = mset (dict_entries d)"
proof -
  obtain k f where k: "k \<le> 60" "\<And>i. i < 2 ^ k \<Longrightarrow> m_dictScan d (cur k i) = Some (f i, cur k ((i + 1) mod 2 ^ k))"
    "mset (concat (map f [0..<2 ^ k])) = mset (dict_entries d)" using scan_cycle [OF inv] by metis
  have "scan_until_zero d (cur k 0) = Some (concat (map f [0..<2 ^ k]))" by (rule scan_positions [OF k(1,2)]) simp_all
  then show ?thesis using k(3) by (simp add: cur_zero)
qed

section \<open>Properties\<close>

text \<open>C34: A scan of a dictionary that does not change, from cursor 0 until the cursor is 0 again, ends
  and emits every entry exactly once, with one table and in the middle of a rehashing.\<close>

theorem m_dictScan_complete:
  assumes "dict_inv ty d"
  shows "\<exists>es. scan_until_zero d 0 = Some es \<and> mset es = mset (dict_entries d)"
  using assms by (rule full_scan_complete)

lemma m_dictScan_complete_witness:
  "\<exists>es. scan_until_zero demo_dict 0 = Some es \<and> mset es = mset (dict_entries demo_dict) \<and> length es = 5"
proof -
  obtain es where "scan_until_zero demo_dict 0 = Some es" "mset es = mset (dict_entries demo_dict)"
    using m_dictScan_complete [OF demo_dict_inv] by blast
  moreover from this(2) have "length es = length (dict_entries demo_dict)" by (rule mset_eq_length)
  ultimately show ?thesis by (simp add: demo_dict_def dict_entries_def ht_entries_def)
qed

end
