(* ===== verification/ScanRange.thy ===== *)
theory ScanRange
  imports DictScan
begin

text \<open>
  One call of \<open>m_dictScan\<close> at any cursor: seen as positions, the reversed bits of hashes and
  cursors, it emits every entry from the position of the cursor up to that of the next one. So
  a loop over a table that loses entries and is rehashed between the calls misses none.
\<close>

definition pos :: "u64 \<Rightarrow> nat" where
  "pos v = unat (word_reverse v)"

lemma pos_zero [simp]: "pos 0 = 0"
proof -
  have "word_reverse (0 :: u64) = 0" by (rule bit_word_eqI) (simp add: bit_word_reverse_iff)
  then show ?thesis by (simp add: pos_def)
qed

lemma pos_less: "pos v < 2 ^ 64"
  using unsigned_less [of "word_reverse v", where ?'a = nat] by (simp add: pos_def)

lemma bit_pos: "bit (pos v) n \<longleftrightarrow> n < 64 \<and> bit v (63 - n)"
  by (auto simp: pos_def bit_unsigned_iff bit_word_reverse_iff)

lemma and_mask_cur:
  assumes "k \<le> 64"
  shows "v AND mask k = cur k (pos v div 2 ^ (64 - k))"
proof (rule bit_word_eqI)
  fix n
  have "n < k \<Longrightarrow> 64 - k + (k - 1 - n) = 63 - n" using assms by simp
  then show "bit (v AND mask k) n = bit (cur k (pos v div 2 ^ (64 - k))) n"
    using assms by (auto simp: bit_and_iff bit_mask_iff bit_cur bit_drop_bit_eq bit_pos simp flip: drop_bit_eq_div)
qed

lemma pos_cur: "k \<le> 64 \<Longrightarrow> i < 2 ^ k \<Longrightarrow> pos (cur k i) = i * 2 ^ (64 - k)"
proof (rule bit_eqI)
  fix n assume k: "k \<le> 64" and i: "i < 2 ^ k"
  have b: "bit (i * 2 ^ (64 - k)) n \<longleftrightarrow> 64 - k \<le> n \<and> bit i (n - (64 - k))"
    by (simp add: bit_push_bit_iff possible_bit_def flip: push_bit_eq_mult)
  have e: "64 - k \<le> n \<Longrightarrow> n < 64 \<Longrightarrow> k - 1 - (63 - n) = n - (64 - k)" using k by simp
  show "bit (pos (cur k i)) n = bit (i * 2 ^ (64 - k)) n"
    unfolding b bit_pos bit_cur [OF k] using e bits_below [OF i, of "n - (64 - k)"] k by auto
qed

lemma pos_index: "k \<le> 64 \<Longrightarrow> pos v div 2 ^ (64 - k) < 2 ^ k"
  using pos_less [of v] by (simp add: less_mult_imp_div_less flip: power_add)

text \<open>The loop over the larger table depends on the cursor's bits in its mask only.\<close>

lemma scan_larger_mask:
  assumes "ht_sizemask t = m"
  shows "scan_larger m0 t v = scan_larger m0 t (v AND m)"
proof -
  have "emit_bucket t v = emit_bucket t (v AND m)" using assms by (simp add: emit_bucket_def and.assoc)
  moreover have "v OR NOT m = (v AND m) OR NOT m" by (rule bit_word_eqI) (auto simp: bit_simps)
  then have "bump_cursor m v = bump_cursor m (v AND m)" by (simp add: bump_cursor_def)
  ultimately show ?thesis using assms by (subst (1 2) scan_larger.simps) simp
qed

lemma scan_plain_any:
  fixes v :: u64
  assumes t: "table_ok k (ht0 d)" and d: "\<not> dictIsRehashing d" "dictSize d \<noteq> 0"
  defines "i \<equiv> pos v div 2 ^ (64 - k)"
  shows "m_dictScan d v = Some (ht_table (ht0 d) ! unat (cur k i), cur k ((i + 1) mod 2 ^ k))"
proof -
  have k: "k \<le> 60" "ht_sizemask (ht0 d) = mask k" using t by (simp_all add: table_ok_def)
  have c: "v AND mask k = cur k i" unfolding i_def by (rule and_mask_cur) (use k in simp)
  show ?thesis
    using d emit_bucket_at [OF t c] bump_cursor_next [OF k(1) c] k(2) by (simp add: m_dictScan_def)
qed

lemma scan_rehashing_any:
  fixes v :: u64
  assumes t0: "table_ok k0 t0" and t1: "table_ok k1 t1" and k: "k0 \<le> k1"
    and d: "dictIsRehashing d" "dictSize d \<noteq> 0"
      "(if ht_size (ht0 d) > ht_size (ht1 d) then (ht1 d, ht0 d) else (ht0 d, ht1 d)) = (t0, t1)"
  defines "j \<equiv> pos v div 2 ^ (64 - k1)" and "q \<equiv> pos v div 2 ^ (64 - k0)"
  shows "m_dictScan d v = Some (ht_table t0 ! unat (cur k0 q) @
      concat (map (\<lambda>j. ht_table t1 ! unat (cur k1 j)) [j..<(q + 1) * 2 ^ (k1 - k0)]),
    cur k0 ((q + 1) mod 2 ^ k0))"
proof -
  have k0: "k0 \<le> 60" "ht_sizemask t0 = mask k0" and k1: "k1 \<le> 60" "ht_sizemask t1 = mask k1"
    using t0 t1 by (simp_all add: table_ok_def)
  have "v AND mask k0 = cur k0 q" unfolding q_def by (rule and_mask_cur) (use k0 in simp)
  note e = emit_bucket_at [OF t0 this]
  have c1: "v AND mask k1 = cur k1 j" unfolding j_def by (rule and_mask_cur) (use k1 in simp)
  have "q = j div 2 ^ (k1 - k0)" unfolding q_def j_def using k k1 by (simp add: div_mult2_eq [symmetric] flip: power_add)
  then have j: "j < (q + 1) * 2 ^ (k1 - k0)" "q * 2 ^ (k1 - k0) \<le> j"
    by (simp_all add: dividend_less_div_times)
  have q: "q < 2 ^ k0" unfolding q_def by (rule pos_index) (use k0 in simp)
  have "scan_larger (mask k0) t1 v = Some (
      concat (map (\<lambda>j. ht_table t1 ! unat (cur k1 j)) [j..<(q + 1) * 2 ^ (k1 - k0)]), cur k0 ((q + 1) mod 2 ^ k0))"
    using scan_larger_run [OF t1 k j q] scan_larger_mask [OF k1(2), of "mask k0" v] c1 by simp
  then show ?thesis using d e k0(2) by (simp add: m_dictScan_def)
qed

section \<open>What a call emits\<close>

lemma set_bucket: "i < length (ht_table t) \<Longrightarrow> set (ht_table t ! i) \<subseteq> set (ht_entries t)"
  by (force simp: ht_entries_def)

text \<open>An entry sits in the bucket of the position of its hash.\<close>

lemma entry_position:
  assumes "ht_valid ty t" "table_ok k t" "e \<in> set (ht_entries t)"
  shows "e \<in> set (ht_table t ! unat (cur k (pos (hashFunction ty (fst e)) div 2 ^ (64 - k))))"
proof -
  have k: "k \<le> 60" "length (ht_table t) = 2 ^ k" "ht_size t = 2 ^ k"
    using assms(2) ht_validD(1) [OF assms(1)] by (simp_all add: table_ok_def)
  obtain i where i: "i < 2 ^ k" "e \<in> set (ht_table t ! i)"
    using assms(3) k(2) by (auto simp: ht_entries_def in_set_conv_nth [of _ "ht_table t"])
  have "unat (hashFunction ty (fst e)) mod 2 ^ k = i" using ht_validD(4) [OF assms(1) _ i(2)] i(1) k(3) by simp
  then have "unat (hashFunction ty (fst e) AND mask k) = i"
    by (simp only: unsigned_take_bit_eq take_bit_eq_mod [where 'a = nat] flip: take_bit_eq_mask)
  moreover have "hashFunction ty (fst e) AND mask k = cur k (pos (hashFunction ty (fst e)) div 2 ^ (64 - k))"
    by (rule and_mask_cur) (use k in simp)
  ultimately show ?thesis using i(2) by simp
qed

text \<open>The cursor after position \<open>i\<close>, as a position; the entries up to it are those at \<open>i\<close>.\<close>

lemma next_position:
  assumes k: "k \<le> 60" and c: "c = cur k ((pos v div 2 ^ (64 - k) + 1) mod 2 ^ k)"
  shows "c = 0 \<or> pos v < pos c" and "c \<noteq> 0 \<Longrightarrow> pos c = (pos v div 2 ^ (64 - k) + 1) * 2 ^ (64 - k)"
proof -
  let ?i = "pos v div 2 ^ (64 - k)"
  have i: "?i < 2 ^ k" using pos_index [of k v] k by simp
  show p: "c \<noteq> 0 \<Longrightarrow> pos c = (?i + 1) * 2 ^ (64 - k)"
  proof -
    assume "c \<noteq> 0"
    then have "?i + 1 \<noteq> 2 ^ k" using c by (auto simp: cur_zero)
    then have "?i + 1 < 2 ^ k" using i by simp
    then show ?thesis using c pos_cur [of k "?i + 1"] k by simp
  qed
  show "c = 0 \<or> pos v < pos c"
  proof (cases "c = 0")
    case False
    have "pos v < (?i + 1) * 2 ^ (64 - k)" by (simp add: dividend_less_div_times)
    then show ?thesis using p [OF False] by simp
  qed simp
qed

lemma div_range:
  fixes x :: nat
  assumes "a \<le> x" "x < b * m" "0 < m"
  shows "a div m \<le> x div m \<and> x div m < b"
  using assms by (simp add: div_le_mono less_mult_imp_div_less)

text \<open>The entries a call emits are entries of the dictionary, among them all from the position
  of the cursor to that of the next cursor, which lies beyond it unless it is 0.\<close>

text \<open>A position scanned before the next cursor lies before the end of the cursor's block.\<close>

lemma scan_upto:
  assumes c: "c = 0 \<or> pos h < pos c" "c = cur k ((pos v div 2 ^ (64 - k) + 1) mod 2 ^ k)" and k: "k \<le> 60"
  shows "pos h < (pos v div 2 ^ (64 - k) + 1) * 2 ^ (64 - k)"
proof (cases "c = 0")
  case False
  then show ?thesis using c next_position(2) [OF k c(2)] by simp
next
  case True
  let ?i = "pos v div 2 ^ (64 - k)"
  have "?i < 2 ^ k" using pos_index [of k v] k by simp
  moreover have "(?i + 1) mod 2 ^ k = 0"
    using True c(2) k cur_inj [of k "(?i + 1) mod 2 ^ k" 0] by (simp add: cur_zero)
  ultimately have "?i + 1 = 2 ^ k" by (metis Suc_eq_plus1 Suc_leI le_neq_implies_less mod_less nat.simps(3))
  then have "(?i + 1) * 2 ^ (64 - k) = 2 ^ 64" using k by (simp flip: power_add)
  then show ?thesis using pos_less [of h] by simp
qed

text \<open>One call emits every entry between the cursor and the next one, and nothing but entries.\<close>

definition scans :: "'k dictType \<Rightarrow> ('k, 'v) dict \<Rightarrow> 64 word \<Rightarrow> bool" where
  "scans ty d v \<longleftrightarrow> (\<exists>es c. m_dictScan d v = Some (es, c) \<and> set es \<subseteq> set (dict_entries d) \<and> (c = 0 \<or> pos v < pos c) \<and>
    (\<forall>e \<in> set (dict_entries d). pos v \<le> pos (hashFunction ty (fst e)) \<and>
      (c = 0 \<or> pos (hashFunction ty (fst e)) < pos c) \<longrightarrow> e \<in> set es))"

lemma scans_plain:
  assumes inv: "dict_inv ty d" and nonempty: "dictSize d \<noteq> 0" and r: "\<not> dictIsRehashing d"
  shows "scans ty d v"
proof -
  let ?p = "\<lambda>e. pos (hashFunction ty (fst e))"
  note p = dict_inv_plainD [OF inv r]
  have "ht_size (ht0 d) \<noteq> 0"
    using nonempty p(4) ht_validD(1,2) [OF p(1)] by (cases "ht_table (ht0 d)") (auto simp: ht_entries_def)
  then obtain k where t: "table_ok k (ht0 d)" using ht_valid_table_ok [OF p(1)] by blast
  then have k: "k \<le> 60" "length (ht_table (ht0 d)) = 2 ^ k" by (simp_all add: table_ok_def)
  let ?i = "pos v div 2 ^ (64 - k)"
  let ?c = "cur k ((?i + 1) mod 2 ^ k)"
  let ?es = "ht_table (ht0 d) ! unat (cur k ?i)"
  have "set ?es \<subseteq> set (dict_entries d)"
    using set_bucket [of "unat (cur k ?i)" "ht0 d"] cur_index_less [OF k(1), of ?i] k(2) p(3) by simp
  moreover have "e \<in> set ?es" if e: "e \<in> set (dict_entries d)" "pos v \<le> ?p e" "?c = 0 \<or> ?p e < pos ?c" for e
  proof -
    have "?p e div 2 ^ (64 - k) = ?i"
      using div_range [OF e(2) scan_upto [OF e(3) refl k(1)]] by simp
    then show ?thesis using entry_position [OF p(1) t, of e] e(1) p(3) by simp
  qed
  ultimately show ?thesis
    unfolding scans_def using scan_plain_any [OF t r nonempty, of v] next_position(1) [OF k(1) refl, of v] by blast
qed

text \<open>While a rehash goes on, the smaller table leads.\<close>

lemma rehashing_tables:
  assumes inv: "dict_inv ty d" and r: "dictIsRehashing d"
  obtains k0 k1 t0 t1 where "table_ok k0 t0" "table_ok k1 t1" "k0 \<le> k1"
    "(if ht_size (ht0 d) > ht_size (ht1 d) then (ht1 d, ht0 d) else (ht0 d, ht1 d)) = (t0, t1)"
    "ht_valid ty t0" "ht_valid ty t1" "set (dict_entries d) = set (ht_entries t0) \<union> set (ht_entries t1)"
proof -
  note r = dict_inv_rehashingD [OF inv r]
  obtain ka where a: "table_ok ka (ht0 d)" "ht_size (ht0 d) = 2 ^ ka" using ht_valid_table_ok [OF r(1,6)] by blast
  obtain kb where b: "table_ok kb (ht1 d)" "ht_size (ht1 d) = 2 ^ kb" using ht_valid_table_ok [OF r(2,7)] by blast
  show thesis
  proof (cases "ht_size (ht0 d) > ht_size (ht1 d)")
    case True
    then have "kb \<le> ka" using a(2) b(2) by simp
    then show thesis using that [OF b(1) a(1)] True r(1,2) by (auto simp: dict_entries_def)
  next
    case False
    then have "ka \<le> kb" using a(2) b(2) by simp
    then show thesis using that [OF a(1) b(1)] False r(1,2) by (auto simp: dict_entries_def)
  qed
qed

lemma scans_rehashing:
  assumes inv: "dict_inv ty d" and nonempty: "dictSize d \<noteq> 0" and r: "dictIsRehashing d"
  shows "scans ty d v"
proof -
  let ?p = "\<lambda>e. pos (hashFunction ty (fst e))"
  obtain k0 k1 t0 t1 where
    t: "table_ok k0 t0" "table_ok k1 t1" "k0 \<le> k1"
      "(if ht_size (ht0 d) > ht_size (ht1 d) then (ht1 d, ht0 d) else (ht0 d, ht1 d)) = (t0, t1)"
    and v01: "ht_valid ty t0" "ht_valid ty t1"
    and m: "set (dict_entries d) = set (ht_entries t0) \<union> set (ht_entries t1)"
    by (rule rehashing_tables [OF inv r])
  have k: "k0 \<le> 60" "length (ht_table t0) = 2 ^ k0" "k1 \<le> 60" "length (ht_table t1) = 2 ^ k1"
    using t by (simp_all add: table_ok_def)
  let ?q = "pos v div 2 ^ (64 - k0)" and ?j = "pos v div 2 ^ (64 - k1)"
  let ?c = "cur k0 ((?q + 1) mod 2 ^ k0)"
  let ?e0 = "ht_table t0 ! unat (cur k0 ?q)"
  let ?e1 = "concat (map (\<lambda>j. ht_table t1 ! unat (cur k1 j)) [?j..<(?q + 1) * 2 ^ (k1 - k0)])"
  have "set ?e0 \<subseteq> set (ht_entries t0)" using set_bucket [of "unat (cur k0 ?q)" t0] cur_index_less [OF k(1), of ?q] k(2) by simp
  moreover have "set ?e1 \<subseteq> set (ht_entries t1)"
    using set_bucket [of _ t1] cur_index_less [OF k(3)] k(4) by fastforce
  ultimately have sub: "set (?e0 @ ?e1) \<subseteq> set (dict_entries d)" using m by auto
  have "e \<in> set (?e0 @ ?e1)" if e: "e \<in> set (dict_entries d)" "pos v \<le> ?p e" "?c = 0 \<or> ?p e < pos ?c" for e
  proof -
    note u = scan_upto [OF e(3) refl k(1)]
    show ?thesis
    proof (cases "e \<in> set (ht_entries t0)")
      case True
      have "?p e div 2 ^ (64 - k0) = ?q" using div_range [OF e(2) u] by simp
      then show ?thesis using entry_position [OF v01(1) t(1) True] by simp
    next
      case False
      then have e1: "e \<in> set (ht_entries t1)" using e(1) m by blast
      have "2 ^ (64 - k0) = (2 ^ (k1 - k0) * 2 ^ (64 - k1) :: nat)" using t(3) k(3) by (simp flip: power_add)
      then have "?p e < (?q + 1) * 2 ^ (k1 - k0) * 2 ^ (64 - k1)" using u by (simp only: mult.assoc)
      from div_range [OF e(2) this] have "?p e div 2 ^ (64 - k1) \<in> set [?j..<(?q + 1) * 2 ^ (k1 - k0)]" by simp
      then show ?thesis using entry_position [OF v01(2) t(2) e1] by (auto simp del: upt_Suc)
    qed
  qed
  then show ?thesis
    unfolding scans_def
    using sub scan_rehashing_any [OF t(1-3) r nonempty t(4), of v] next_position(1) [OF k(1) refl, of v] by blast
qed

lemma scan_step:
  assumes inv: "dict_inv ty d"
  shows "\<exists>es c. m_dictScan d v = Some (es, c) \<and> set es \<subseteq> set (dict_entries d) \<and> (c = 0 \<or> pos v < pos c) \<and>
    (\<forall>e \<in> set (dict_entries d). pos v \<le> pos (hashFunction ty (fst e)) \<and>
      (c = 0 \<or> pos (hashFunction ty (fst e)) < pos c) \<longrightarrow> e \<in> set es)"
proof (cases "dictSize d = 0")
  case True
  then have "dict_entries d = []" using dict_size_entries [OF inv] by simp
  then show ?thesis using True by (simp add: m_dictScan_def)
next
  case False
  then show ?thesis using scans_plain [OF inv] scans_rehashing [OF inv] unfolding scans_def by blast
qed

end
