(* ===== verification/SlotScan.thy ===== *)
theory SlotScan
  imports DictScan AdlistProps IndexProps
begin

text \<open>
  Paging through the keys of a slot: \<open>SlotsMGRT_Scan\<close> calls \<open>m_dictScan\<close> on the slot's table
  and collects the keys in a linked list, until the cursor is back at 0, the budget of calls is
  used up, or enough keys are there.
\<close>

section \<open>The code\<close>

text \<open>\<open>slotsScanRedisModuleKeyCallback\<close> on every entry of a call.\<close>

fun slotsScanRedisModuleKeyCallback ::
  "(string, int) dictEntry list \<Rightarrow> string lheap \<times> string adlist \<Rightarrow> (string lheap \<times> string adlist) option" where
  "slotsScanRedisModuleKeyCallback [] l = Some l"
| "slotsScanRedisModuleKeyCallback (de # es) l = do {
     l \<leftarrow> m_listAddNodeTail (fst l) (snd l) (fst de);
     slotsScanRedisModuleKeyCallback es l
   }"

text \<open>\<open>loops\<close> is a \<open>long\<close>; decrementing the least one overflows.\<close>

partial_function (option) scan_calls ::
  "(string, int) dict \<Rightarrow> nat \<Rightarrow> int \<Rightarrow> u64 \<Rightarrow> string lheap \<times> string adlist
    \<Rightarrow> (u64 \<times> string lheap \<times> string adlist) option" where
  "scan_calls d cnt loops cursor l = do {
     (es, cursor) \<leftarrow> m_dictScan d cursor;
     l \<leftarrow> slotsScanRedisModuleKeyCallback es l;
     c_assert (- (2 ^ 63) < loops);
     if cursor \<noteq> 0 \<and> loops - 1 > 0 \<and> l_len (snd l) < cnt
     then scan_calls d cnt (loops - 1) cursor l
     else Some (cursor, l)
   }"

definition SlotsMGRT_Scan ::
  "slots_state \<Rightarrow> int \<Rightarrow> int \<Rightarrow> u64 \<Rightarrow> u64 \<Rightarrow> string lheap \<times> string adlist
    \<Rightarrow> (u64 \<times> string lheap \<times> string adlist) option" where
  "SlotsMGRT_Scan s db slot cnt cursor l = do {
     d \<leftarrow> get_table s db slot;
     scan_calls d (unat cnt) (sint (cnt * 10)) cursor l
   }"

section \<open>One call\<close>

lemma callback_contents:
  assumes "list_contents l vs"
  shows "\<exists>l'. slotsScanRedisModuleKeyCallback es l = Some l' \<and> list_contents l' (vs @ map fst es)"
  using assms
proof (induction es arbitrary: l vs)
  case Nil
  then show ?case by simp
next
  case (Cons e es)
  obtain l1 where l1: "m_listAddNodeTail (fst l) (snd l) (fst e) = Some l1" "list_contents l1 (vs @ [fst e])"
    using key_queue.enq_law [OF Cons.prems, of "fst e"] by (auto simp: list_enq_def)
  then show ?case using Cons.IH [OF l1(2)] by auto
qed

text \<open>A call goes on from a position to a later one, or round to the start.\<close>

lemma scan_calls_advance:
  assumes k: "k \<le> 60" and step: "\<And>i. i < 2 ^ k \<Longrightarrow> m_dictScan d (cur k i) = Some (f i, cur k ((i + 1) mod 2 ^ k))"
    and i: "i < 2 ^ k" and l: "list_contents l vs" and loops: "- (2 ^ 63) < loops"
  shows "\<exists>j l'. i < j \<and> j \<le> 2 ^ k \<and> scan_calls d cnt loops (cur k i) l = Some (cur k (j mod 2 ^ k), l') \<and>
    list_contents l' (vs @ map fst (concat (map f [i..<j])))"
  using i l loops
proof (induction "2 ^ k - i" arbitrary: i l vs loops rule: less_induct)
  case less
  obtain l1 where l1: "slotsScanRedisModuleKeyCallback (f i) l = Some l1" "list_contents l1 (vs @ map fst (f i))"
    using callback_contents [OF less.prems(2)] by blast
  have c: "cur k ((i + 1) mod 2 ^ k) = 0 \<longleftrightarrow> i + 1 = 2 ^ k"
  proof
    assume "cur k ((i + 1) mod 2 ^ k) = 0"
    then have "(i + 1) mod 2 ^ k = 0" using k by (intro cur_inj [of k]) (simp_all add: cur_zero)
    then show "i + 1 = 2 ^ k" using less.prems(1) by (metis Suc_eq_plus1 Suc_leI le_neq_implies_less mod_less nat.simps(3))
  qed (simp add: cur_zero)
  show ?case
  proof (cases "cur k ((i + 1) mod 2 ^ k) \<noteq> 0 \<and> loops - 1 > 0 \<and> l_len (snd l1) < cnt")
    case False
    then have "scan_calls d cnt loops (cur k i) l = Some (cur k ((i + 1) mod 2 ^ k), l1)"
      using step [OF less.prems(1)] l1(1) less.prems(3) by (subst scan_calls.simps) auto
    then show ?thesis using l1(2) less.prems(1) by (intro exI [of _ "i + 1"] exI [of _ l1]) simp
  next
    case True
    then have lt: "i + 1 < 2 ^ k" using c less.prems(1) by simp
    have lp: "- (2 ^ 63) < loops - 1" using True by simp
    obtain j l' where j: "i + 1 < j" "j \<le> 2 ^ k" "scan_calls d cnt (loops - 1) (cur k (i + 1)) l1 = Some (cur k (j mod 2 ^ k), l')"
      "list_contents l' ((vs @ map fst (f i)) @ map fst (concat (map f [i + 1..<j])))"
      using less.hyps [OF _ lt l1(2) lp] lt by fastforce
    have "scan_calls d cnt loops (cur k i) l = Some (cur k (j mod 2 ^ k), l')"
      using step [OF less.prems(1)] l1(1) less.prems(3) True j(3) lt by (subst scan_calls.simps) simp
    moreover have "[i..<j] = i # [i + 1..<j]" using j(1) by (simp add: upt_conv_Cons)
    ultimately show ?thesis using j by (intro exI [of _ j] exI [of _ l']) simp
  qed
qed

section \<open>Paging\<close>

text \<open>A client that asks for pages until the cursor is 0; the counts may differ from page to page.\<close>

partial_function (option) scan_pages ::
  "(nat \<Rightarrow> u64) \<Rightarrow> nat \<Rightarrow> slots_state \<Rightarrow> int \<Rightarrow> int \<Rightarrow> u64 \<Rightarrow> string lheap \<times> string adlist
    \<Rightarrow> (string lheap \<times> string adlist) option" where
  "scan_pages counts n s db slot cursor l = do {
     (cursor, l) \<leftarrow> SlotsMGRT_Scan s db slot (counts n) cursor l;
     if cursor = 0 then Some l else scan_pages counts (n + 1) s db slot cursor l
   }"

definition page_count_ok :: "u64 \<Rightarrow> bool" where
  "page_count_ok cnt \<longleftrightarrow> cnt * 10 \<noteq> 2 ^ 63"

lemma page_count_loops: "page_count_ok cnt \<Longrightarrow> - (2 ^ 63) < sint (cnt * 10)"
proof -
  assume ok: "page_count_ok cnt"
  have "- (2 ^ 63) \<le> sint (cnt * 10)" using sint_ge [of "cnt * 10"] by simp
  moreover have "sint (cnt * 10) \<noteq> - (2 ^ 63)"
  proof
    assume "sint (cnt * 10) = - (2 ^ 63)"
    then have "(word_of_int (sint (cnt * 10)) :: u64) = word_of_int (- (2 ^ 63))" by (rule arg_cong)
    then have "cnt * 10 = 2 ^ 63" by (simp only: of_int_sint) simp
    then show False using ok by (simp add: page_count_ok_def)
  qed
  ultimately show ?thesis by simp
qed

lemma scan_pages_rest:
  assumes t: "get_table s db slot = Some d" and k: "k \<le> 60"
    and step: "\<And>i. i < 2 ^ k \<Longrightarrow> m_dictScan d (cur k i) = Some (f i, cur k ((i + 1) mod 2 ^ k))"
    and counts: "\<And>n. page_count_ok (counts n)" and i: "i < 2 ^ k" and l: "list_contents l vs"
  shows "\<exists>l'. scan_pages counts n s db slot (cur k i) l = Some l' \<and>
    list_contents l' (vs @ map fst (concat (map f [i..<2 ^ k])))"
  using i l
proof (induction "2 ^ k - i" arbitrary: i l vs n rule: less_induct)
  case less
  obtain j l1 where j: "i < j" "j \<le> 2 ^ k"
    "scan_calls d (unat (counts n)) (sint (counts n * 10)) (cur k i) l = Some (cur k (j mod 2 ^ k), l1)"
    "list_contents l1 (vs @ map fst (concat (map f [i..<j])))"
    using scan_calls_advance [OF k step less.prems page_count_loops [OF counts]] by blast
  then have r: "SlotsMGRT_Scan s db slot (counts n) (cur k i) l = Some (cur k (j mod 2 ^ k), l1)"
    using t by (simp add: SlotsMGRT_Scan_def)
  show ?case
  proof (cases "j = 2 ^ k")
    case True
    then show ?thesis using r j(4) by (subst scan_pages.simps) (simp add: cur_zero)
  next
    case False
    then have lt: "j < 2 ^ k" using j(2) by simp
    have nz: "cur k j \<noteq> 0"
    proof
      assume "cur k j = 0"
      then have "j = 0" using lt k by (intro cur_inj [of k]) (simp_all add: cur_zero)
      then show False using j(1) by simp
    qed
    obtain l' where l': "scan_pages counts (n + 1) s db slot (cur k j) l1 = Some l'"
      "list_contents l' ((vs @ map fst (concat (map f [i..<j]))) @ map fst (concat (map f [j..<2 ^ k])))"
      using less.hyps [OF diff_less_mono2 [OF j(1) less.prems(1)] lt j(4), of "n + 1"] by blast
    have "[i..<2 ^ k] = [i..<j] @ [j..<2 ^ k]" using j(1) lt by (metis le_add_diff_inverse less_imp_le upt_add_eq_append)
    then show ?thesis using r nz lt l' by (subst scan_pages.simps) simp
  qed
qed

section \<open>Properties\<close>

text \<open>Paging through a slot from cursor 0 until the cursor is 0 again lists every key of the slot
  exactly once, whatever counts the pages ask for, also while the table is being rehashed.\<close>

theorem scan_pages_complete:
  assumes "slots_inv cmp s" and "0 \<le> db" and "db < num_dbs s" and "slot < slots_size s"
    and "\<And>n. page_count_ok (counts n)" and "holds hp l as vs"
  shows "\<exists>hp' l' as' ks. scan_pages counts 0 s db (int slot) 0 (hp, l) = Some (hp', l') \<and> holds hp' l' as' (vs @ ks) \<and>
    mset ks = mset_set {k \<in> index s db. sn_slot (key_num s k) = int slot}"
proof -
  obtain d where d: "get_table s db (int slot) = Some d" "dict_inv hashSlotDictType d"
    using table_in_range [OF assms(1-4)] by metis
  obtain dbs dbi where b: "db_slot_infos s = Some dbs" "nat db < length dbs" "dbs ! nat db = dbi"
    "get_db s db = Some dbi" "db_ok cmp (key_num s) (slots_size s) dbi" by (rule db_range [OF assms(1-3)])
  have t: "db_tables_ok (key_num s) (slots_size s) dbi" using b(5) by (simp add: db_ok_def)
  have "d = slotkey_tables dbi ! slot"
    using d(1) get_table_eq [OF b(4), of slot] t assms(4) by (simp add: db_tables_ok_def)
  then have dom: "dom (dict_map d) = {k \<in> index s db. sn_slot (key_num s k) = int slot}"
    using table_keys [OF t assms(4)] b(4) by (simp add: index_def)
  obtain k f where k: "k \<le> 60" "\<And>i. i < 2 ^ k \<Longrightarrow> m_dictScan d (cur k i) = Some (f i, cur k ((i + 1) mod 2 ^ k))"
    "mset (concat (map f [0..<2 ^ k])) = mset (dict_entries d)" using scan_cycle [OF d(2)] by metis
  have "list_contents (hp, l) vs" using assms(6) by (auto simp: list_contents_def)
  from scan_pages_rest [where counts = counts and i = 0 and n = 0, OF d(1) k(1,2) assms(5) _ this] obtain l' where
    l': "scan_pages counts 0 s db (int slot) 0 (hp, l) = Some l'"
    "list_contents l' (vs @ map fst (concat (map f [0..<2 ^ k])))" by (auto simp: cur_zero)
  have "mset (map fst (concat (map f [0..<2 ^ k]))) = mset (map fst (dict_entries d))" using k(3) by simp
  then have "mset (map fst (concat (map f [0..<2 ^ k]))) = mset_set {k \<in> index s db. sn_slot (key_num s k) = int slot}"
    using entry_keys_mset [OF d(2)] dom by simp
  moreover obtain hp' ll as' where "l' = (hp', ll)" "holds hp' ll as' (vs @ map fst (concat (map f [0..<2 ^ k])))"
    using l'(2) by (cases l') (auto simp: list_contents_def)
  ultimately show ?thesis using l'(1) by blast
qed

lemma scan_pages_complete_witness:
  "\<exists>hp' l' as' ks. scan_pages (\<lambda>n. 1) 0 demo_state 0 3 0 (\<lparr>cells = Map.empty, fresh = 0\<rparr>, m_listCreate) = Some (hp', l') \<and>
    holds hp' l' as' ks \<and> mset ks = mset_set {k \<in> {''a{t}''}. sn_slot (slots_num crc32_init 16 k) = 3}"
  using scan_pages_complete [OF demo_state(2), of 0 3 "\<lambda>n. 1", OF _ _ _ _ holds_create] demo_state
  by (auto simp: page_count_ok_def)

lemma get_table_out_of_range:
  assumes "slots_inv cmp s" and "slot < 0 \<or> int (slots_size s) \<le> slot"
  shows "get_table s db slot = None"
proof (cases "get_db s db")
  case None
  then show ?thesis by (simp add: get_table_def)
next
  case (Some dbi)
  then have "0 \<le> db \<and> db < num_dbs s"
    using assms(1) by (auto simp: slots_inv_def get_db_def arr_get_int_def arr_get_def split: if_splits)
  then obtain dbi' where "get_db s db = Some dbi'" "db_ok cmp (key_num s) (slots_size s) dbi'"
    using db_range [OF assms(1)] by metis
  then have "length (slotkey_tables dbi) = slots_size s" using Some by (simp add: db_ok_def db_tables_ok_def)
  moreover have "\<not> nat slot < slots_size s" if "0 \<le> slot" using assms(2) that by linarith
  ultimately show ?thesis using Some by (simp add: get_table_def arr_get_int_def arr_get_def)
qed

text \<open>A slot outside the table is read out of bounds; the command does not check it.\<close>

theorem SlotsMGRT_Scan_out_of_range:
  assumes "slots_inv cmp s" and "slot < 0 \<or> int (slots_size s) \<le> slot"
  shows "SlotsMGRT_Scan s db slot cnt cursor l = None"
  by (simp add: SlotsMGRT_Scan_def get_table_out_of_range [OF assms])

lemma SlotsMGRT_Scan_out_of_range_witness:
  "SlotsMGRT_Scan demo_state 0 (- 1) 10 0 (\<lparr>cells = Map.empty, fresh = 0\<rparr>, m_listCreate) = None"
  by (rule SlotsMGRT_Scan_out_of_range [OF demo_state(2)]) simp

end
