(* ===== verification/Migrate.thy ===== *)
theory Migrate
  imports SlotScan Numconv "HOL-Library.Signed_Division"
begin

text \<open>
  The migration client of \<open>redisxslot.c\<close>: it dumps keys with commands of the own server, sends
  them in batches of \<open>SLOTSRESTORE\<close> commands to another server, and unlinks them; and the
  receiving side, which restores them.

  What the program calls and does not contain is a parameter: the server behind
  \<open>RedisModule_Call\<close>, the client library hiredis, the clock and the thread pool are the fields of
  the record \<open>env\<close>, each a function of a world that only they can look into. A call of the
  server also gives the keyspace notifications it raises, and the module handles them before
  the call returns. Every request made is logged in \<open>ms_trace\<close>, in order.
\<close>

section \<open>The surroundings\<close>

text \<open>The replies of the own server; a null pointer is \<open>None\<close>. Of a reply of the other server
  the program tests only whether it is an error.\<close>

datatype call_reply = RNull | RString string | RInteger int | RError | ROther

datatype redis_reply = REPLY_ERROR | REPLY_OK

datatype key_type = KEYTYPE_EMPTY | KEYTYPE_STRING | KEYTYPE_LIST | KEYTYPE_HASH | KEYTYPE_SET
  | KEYTYPE_ZSET | KEYTYPE_OTHER

datatype notify_class = NOTIFY_STRING | NOTIFY_LIST | NOTIFY_HASH | NOTIFY_SET | NOTIFY_ZSET

record 'w env =
  ex_cmp :: "string \<Rightarrow> string \<Rightarrow> int"
  ex_call :: "int \<Rightarrow> string list \<Rightarrow> 'w \<Rightarrow> call_reply option \<times> server_event list \<times> 'w"
  ex_key_type :: "int \<Rightarrow> string \<Rightarrow> 'w \<Rightarrow> key_type \<times> server_event list \<times> 'w"
  ex_notify :: "int \<Rightarrow> notify_class \<Rightarrow> string \<Rightarrow> string \<Rightarrow> 'w \<Rightarrow> server_event list \<times> 'w"
  ex_connect :: "string \<Rightarrow> int \<Rightarrow> 'w \<Rightarrow> bool \<times> nat \<times> 'w"
  ex_timeout :: "nat \<Rightarrow> int \<Rightarrow> int \<Rightarrow> 'w \<Rightarrow> 'w"
  ex_command :: "nat \<Rightarrow> string list \<Rightarrow> 'w \<Rightarrow> redis_reply option \<times> bool \<times> 'w"
  ex_append :: "nat \<Rightarrow> string list \<Rightarrow> 'w \<Rightarrow> 'w"
  ex_get_reply :: "nat \<Rightarrow> 'w \<Rightarrow> bool \<times> redis_reply option \<times> 'w"
  ex_disconnect :: "nat \<Rightarrow> 'w \<Rightarrow> 'w"
  ex_milliseconds :: "'w \<Rightarrow> int \<times> 'w"
  ex_pool :: "int \<Rightarrow> nat \<Rightarrow> 'w \<Rightarrow> (nat \<times> int) list \<times> 'w"
  ex_string2ll :: "string \<Rightarrow> int option"

text \<open>\<open>ex_connect\<close> and \<open>ex_command\<close> also say whether \<open>err\<close> of the connection is set.
  \<open>ex_pool\<close> is the order in which a thread pool runs its tasks, each with the number of its thread.\<close>

datatype request =
    Call int "string list"
  | Connect string int
  | Command nat "string list"
  | Append nat "string list"
  | Disconnect nat

record db_slot_mgrt_connect =
  last_time :: int
  conn_ctx :: nat

record slot_mgrt_connet_meta =
  meta_db :: int
  host :: string
  port :: string
  tv_sec :: int
  tv_usec :: int

record rdb_dump_obj =
  obj_key :: string
  obj_val :: string
  ttlms :: int

text \<open>\<open>ms_vals\<close> counts the values the dump objects own.\<close>

record 'w mstate =
  ms_slots :: slots_state
  ms_conns :: "string \<Rightarrow> db_slot_mgrt_connect option"
  ms_world :: 'w
  ms_vals :: "string multiset"
  ms_trace :: "request list"

definition SLOTS_MGRT_NOTHING :: int where "SLOTS_MGRT_NOTHING = 0"

definition SLOTS_MGRT_ERR :: int where "SLOTS_MGRT_ERR = - 1"

definition MGRT_CMD_PARAMS_SIZE :: nat where "MGRT_CMD_PARAMS_SIZE = 1024 * 1024"

definition LONGSTR_SIZE :: nat where "LONGSTR_SIZE = 42"

section \<open>Requests\<close>

definition log_request :: "request \<Rightarrow> 'w mstate \<Rightarrow> 'w mstate" where
  "log_request rq st = st\<lparr>ms_trace := ms_trace st @ [rq]\<rparr>"

text \<open>The notifications of a call reach the module's own callbacks.\<close>

definition notified :: "'w env \<Rightarrow> server_event list \<Rightarrow> 'w \<Rightarrow> 'w mstate \<Rightarrow> 'w mstate option" where
  "notified env evs w st = do {
     s \<leftarrow> run_events (ex_cmp env) evs (ms_slots st);
     Some (st\<lparr>ms_slots := s, ms_world := w\<rparr>)
   }"

definition server_call :: "'w env \<Rightarrow> int \<Rightarrow> string list \<Rightarrow> 'w mstate \<Rightarrow> (call_reply option \<times> 'w mstate) option" where
  "server_call env db cmd st =
     (case ex_call env db cmd (ms_world st) of (reply, evs, w) \<Rightarrow> do {
        st \<leftarrow> notified env evs w (log_request (Call db cmd) st);
        Some (reply, st)
      })"

definition send_command :: "'w env \<Rightarrow> nat \<Rightarrow> string list \<Rightarrow> 'w mstate \<Rightarrow> redis_reply option \<times> bool \<times> 'w mstate" where
  "send_command env c cmd st =
     (case ex_command env c cmd (ms_world st) of
        (reply, err, w) \<Rightarrow> (reply, err, log_request (Command c cmd) (st\<lparr>ms_world := w\<rparr>)))"

text \<open>The module is built for version 6.0.0: \<open>RedisModule_Milliseconds() / 1e3\<close>.\<close>

definition get_unixtime :: "'w env \<Rightarrow> 'w mstate \<Rightarrow> int \<times> 'w mstate" where
  "get_unixtime env st = (case ex_milliseconds env (ms_world st) of (ms, w) \<Rightarrow> (ms sdiv 1000, st\<lparr>ms_world := w\<rparr>))"

section \<open>Connections\<close>

text \<open>\<open>atoi\<close>: optional white space, an optional sign, digits up to the first other character;
  a value that is no \<open>int\<close> is undefined.\<close>

definition c_space :: "char \<Rightarrow> bool" where
  "c_space c \<longleftrightarrow> c = CHR '' '' \<or> 9 \<le> (of_char c :: nat) \<and> (of_char c :: nat) \<le> 13"

definition c_atoi :: "string \<Rightarrow> int option" where
  "c_atoi s =
     (let s = dropWhile c_space (cstr s);
          neg = (s \<noteq> [] \<and> hd s = CHR ''-'');
          s = (if s \<noteq> [] \<and> (hd s = CHR ''-'' \<or> hd s = CHR ''+'') then tl s else s);
          v = int (digits_val 0 (takeWhile is_digit s));
          v = (if neg then - v else v)
      in if - (INT_MAX + 1) \<le> v \<and> v \<le> INT_MAX then Some v else None)"

text \<open>The host, a colon, the port, an at sign and the number of the thread. The buffer's content before the conversion does not matter.\<close>

definition print_llong :: "int \<Rightarrow> string option" where
  "print_llong v = do {
     (buf, len) \<leftarrow> m_ll2string (replicate LONGSTR_SIZE (CHR 0x00)) v;
     Some (cstr buf)
   }"

definition getConnName :: "int \<Rightarrow> string \<Rightarrow> string \<Rightarrow> string option" where
  "getConnName tid h p = do { buf \<leftarrow> print_llong tid; Some (h @ '':'' @ p @ ''@'' @ buf) }"

text \<open>A pointer to a connection is the name it is cached under; the cache owns it.\<close>

definition SlotsMGRT_GetConnCtx ::
  "'w env \<Rightarrow> int \<Rightarrow> slot_mgrt_connet_meta \<Rightarrow> 'w mstate \<Rightarrow> (string option \<times> 'w mstate) option" where
  "SlotsMGRT_GetConnCtx env tid meta st = do {
     let (unixtime, st) = get_unixtime env st;
     name \<leftarrow> getConnName tid (host meta) (port meta);
     (case ms_conns st name of
        Some conn \<Rightarrow> Some (Some name, st\<lparr>ms_conns := (ms_conns st)(name \<mapsto> conn\<lparr>last_time := unixtime\<rparr>)\<rparr>)
      | None \<Rightarrow> do {
          p \<leftarrow> c_atoi (port meta);
          (case ex_connect env (cstr (host meta)) p (ms_world st) of (err, c, w) \<Rightarrow>
             let st = log_request (Connect (cstr (host meta)) p) (st\<lparr>ms_world := w\<rparr>) in
             if err then Some (None, st)
             else
               let w = ex_timeout env c (tv_sec meta) (tv_usec meta) (ms_world st);
                   conn = \<lparr>last_time = unixtime, conn_ctx = c\<rparr>
               in Some (Some name, st\<lparr>ms_world := w, ms_conns := (ms_conns st)(name \<mapsto> conn)\<rparr>))
        })
   }"

definition SlotsMGRT_CloseConn ::
  "'w env \<Rightarrow> int \<Rightarrow> slot_mgrt_connet_meta \<Rightarrow> 'w mstate \<Rightarrow> 'w mstate option" where
  "SlotsMGRT_CloseConn env tid meta st = do {
     name \<leftarrow> getConnName tid (host meta) (port meta);
     (case ms_conns st name of
        None \<Rightarrow> Some st
      | Some conn \<Rightarrow> Some (log_request (Disconnect (conn_ctx conn))
          (st\<lparr>ms_conns := (ms_conns st)(name := None), ms_world := ex_disconnect env (conn_ctx conn) (ms_world st)\<rparr>)))
   }"

definition conn_of :: "'w mstate \<Rightarrow> string \<Rightarrow> nat option" where
  "conn_of st name = map_option conn_ctx (ms_conns st name)"

text \<open>\<open>conn->last_time = get_unixtime()\<close>.\<close>

definition touch_conn :: "'w env \<Rightarrow> string \<Rightarrow> 'w mstate \<Rightarrow> 'w mstate option" where
  "touch_conn env name st = do {
     let (unixtime, st) = get_unixtime env st;
     conn \<leftarrow> ms_conns st name;
     Some (st\<lparr>ms_conns := (ms_conns st)(name \<mapsto> conn\<lparr>last_time := unixtime\<rparr>)\<rparr>)
   }"

section \<open>Sending\<close>

text \<open>\<open>argv\<close> is the part of the array that has been filled; three arguments belong to an object.
  The result is an error, nothing, or the number of objects.\<close>

definition doSplitRestoreCommand ::
  "'w env \<Rightarrow> string \<Rightarrow> string list \<Rightarrow> nat \<Rightarrow> nat \<Rightarrow> 'w mstate \<Rightarrow> (int \<times> 'w mstate) option" where
  "doSplitRestoreCommand env conn argv start_pos end_pos st = do {
     let obj_cn = int end_pos - int start_pos;
     if obj_cn \<le> 0 then Some (SLOTS_MGRT_NOTHING, st)
     else do {
       c_assert (3 * end_pos \<le> length argv);
       let sub_argv = ''SLOTSRESTORE'' # take (3 * (end_pos - start_pos)) (drop (3 * start_pos) argv);
       c \<leftarrow> conn_of st conn;
       (case send_command env c sub_argv st of (rr, err, st) \<Rightarrow>
          if err \<or> rr = None \<or> rr = Some REPLY_ERROR then Some (SLOTS_MGRT_ERR, st)
          else Some (obj_cn, st))
     }
   }"

text \<open>The three arguments of an object; the life time is that of the object when it is positive
  and 0 otherwise. The second one has the length \<open>m_ll2string\<close> returned.\<close>

definition restore_ttl :: "rdb_dump_obj \<Rightarrow> int" where
  "restore_ttl ob = (if ttlms ob > 0 then ttlms ob else 0)"

definition obj_args :: "rdb_dump_obj \<Rightarrow> string list option" where
  "obj_args ob = do {
     (buf, len) \<leftarrow> m_ll2string (replicate LONGSTR_SIZE (CHR 0x00)) (restore_ttl ob);
     c_assert (len \<le> strlen buf);
     Some [obj_key ob, take len (cstr buf), obj_val ob]
   }"

definition args_size :: "string list \<Rightarrow> nat" where
  "args_size as = sum_list (map length as)"

text \<open>The loop of \<open>BatchSend_SlotsRestore\<close> from object \<open>i\<close> on. It ends with an error, or with the
  arguments of all objects and the first object that is not sent.\<close>

fun batch_loop :: "'w env \<Rightarrow> string \<Rightarrow> nat \<Rightarrow> rdb_dump_obj option list \<Rightarrow> string list \<Rightarrow> nat \<Rightarrow> nat \<Rightarrow> 'w mstate
    \<Rightarrow> (bool \<times> string list \<times> nat \<times> 'w mstate) option" where
  "batch_loop env conn i [] argv cmd_size start_pos st = Some (True, argv, start_pos, st)"
| "batch_loop env conn i (slot # objs) argv cmd_size start_pos st = do {
     (ok, cmd_size, start_pos, st) \<leftarrow>
       (if cmd_size > MGRT_CMD_PARAMS_SIZE
        then do {
          (r, st) \<leftarrow> doSplitRestoreCommand env conn argv start_pos i st;
          Some (r \<noteq> SLOTS_MGRT_ERR, 0, i, st)
        }
        else Some (True, cmd_size, start_pos, st));
     if \<not> ok then Some (False, argv, start_pos, st)
     else do {
       ob \<leftarrow> slot;
       as \<leftarrow> obj_args ob;
       batch_loop env conn (Suc i) objs (argv @ as) (cmd_size + args_size as) start_pos st
     }
   }"

definition BatchSend_SlotsRestore ::
  "'w env \<Rightarrow> string \<Rightarrow> rdb_dump_obj option list \<Rightarrow> nat \<Rightarrow> 'w mstate \<Rightarrow> (int \<times> 'w mstate) option" where
  "BatchSend_SlotsRestore env conn objs n st = do {
     c_assert (n \<le> length objs);
     (ok, argv, start_pos, st) \<leftarrow> batch_loop env conn 0 (take n objs) [] 0 0 st;
     if \<not> ok then Some (SLOTS_MGRT_ERR, st)
     else do {
       (r, st) \<leftarrow> doSplitRestoreCommand env conn argv start_pos n st;
       if r = SLOTS_MGRT_ERR then Some (SLOTS_MGRT_ERR, st)
       else do {
         st \<leftarrow> touch_conn env conn st;
         Some (int n, st)
       }
     }
   }"

text \<open>Sending with a pipeline: the commands are appended one by one and the replies fetched at
  each split and at the end.\<close>

fun fetch_replies :: "'w env \<Rightarrow> nat \<Rightarrow> nat \<Rightarrow> 'w mstate \<Rightarrow> bool \<times> 'w mstate" where
  "fetch_replies env c 0 st = (True, st)"
| "fetch_replies env c (Suc n) st =
     (case ex_get_reply env c (ms_world st) of (ok, rr, w) \<Rightarrow>
        let st = st\<lparr>ms_world := w\<rparr> in
        if \<not> ok \<or> rr = None \<or> rr = Some REPLY_ERROR then (False, st) else fetch_replies env c n st)"

definition doSplitPipelineGetReply ::
  "'w env \<Rightarrow> string \<Rightarrow> nat \<Rightarrow> nat \<Rightarrow> 'w mstate \<Rightarrow> (int \<times> 'w mstate) option" where
  "doSplitPipelineGetReply env conn start_pos end_pos st = do {
     let n = int end_pos - int start_pos;
     if n \<le> 0 then Some (SLOTS_MGRT_NOTHING, st)
     else do {
       c \<leftarrow> conn_of st conn;
       (case fetch_replies env c (end_pos - start_pos) st of (ok, st) \<Rightarrow>
          Some (if ok then n else SLOTS_MGRT_ERR, st))
     }
   }"

text \<open>\<open>redisAppendCommand\<close> prints the life time with \<open>%ld\<close>.\<close>

definition append_restore :: "'w env \<Rightarrow> nat \<Rightarrow> rdb_dump_obj \<Rightarrow> 'w mstate \<Rightarrow> 'w mstate" where
  "append_restore env c ob st =
     (let cmd = [''SLOTSRESTORE'', obj_key ob, show_int (restore_ttl ob), obj_val ob] in
      log_request (Append c cmd) (st\<lparr>ms_world := ex_append env c cmd (ms_world st)\<rparr>))"

fun pipeline_loop :: "'w env \<Rightarrow> string \<Rightarrow> nat \<Rightarrow> rdb_dump_obj option list \<Rightarrow> nat \<Rightarrow> nat \<Rightarrow> 'w mstate
    \<Rightarrow> (bool \<times> nat \<times> 'w mstate) option" where
  "pipeline_loop env conn i [] cmd_size start_pos st = Some (True, start_pos, st)"
| "pipeline_loop env conn i (slot # objs) cmd_size start_pos st = do {
     (ok, cmd_size, start_pos, st) \<leftarrow>
       (if cmd_size > MGRT_CMD_PARAMS_SIZE
        then do {
          (r, st) \<leftarrow> doSplitPipelineGetReply env conn start_pos i st;
          Some (r \<noteq> SLOTS_MGRT_ERR, 0, i, st)
        }
        else Some (True, cmd_size, start_pos, st));
     if \<not> ok then Some (False, start_pos, st)
     else do {
       ob \<leftarrow> slot;
       as \<leftarrow> obj_args ob;
       c \<leftarrow> conn_of st conn;
       pipeline_loop env conn (Suc i) objs (cmd_size + args_size as) start_pos (append_restore env c ob st)
     }
   }"

definition Pipeline_SlotsRestore ::
  "'w env \<Rightarrow> string \<Rightarrow> rdb_dump_obj option list \<Rightarrow> nat \<Rightarrow> 'w mstate \<Rightarrow> (int \<times> 'w mstate) option" where
  "Pipeline_SlotsRestore env conn objs n st = do {
     c_assert (n \<le> length objs);
     (ok, start_pos, st) \<leftarrow> pipeline_loop env conn 0 (take n objs) 0 0 st;
     if \<not> ok then Some (SLOTS_MGRT_ERR, st)
     else do {
       (r, st) \<leftarrow> doSplitPipelineGetReply env conn start_pos n st;
       Some (if r = SLOTS_MGRT_ERR then SLOTS_MGRT_ERR else int n, st)
     }
   }"

text \<open>Sending with a thread pool: every batch is a task that has a connection of its own, named
  after the thread that runs it. A task is one step here; what the tasks share, the cache of
  connections, is locked at every access. The arguments of a batch are filled in before its
  task is added.\<close>

fun run_tasks :: "('p \<Rightarrow> int \<Rightarrow> 's \<Rightarrow> ('r \<times> 's) option) \<Rightarrow> 'p list \<Rightarrow> (nat \<times> int) list \<Rightarrow> 'r list \<Rightarrow> 's
    \<Rightarrow> ('r list \<times> 's) option" where
  "run_tasks task params [] results st = Some (results, st)"
| "run_tasks task params ((i, tid) # sched) results st = do {
     p \<leftarrow> arr_get params i;
     (r, st) \<leftarrow> task p tid st;
     results \<leftarrow> arr_set results i r;
     run_tasks task params sched results st
   }"

text \<open>\<open>thpool_init\<close>, \<open>thpool_add_work\<close> for every task, and \<open>thpool_wait\<close>.\<close>

definition run_pool :: "'w env \<Rightarrow> int \<Rightarrow> ('p \<Rightarrow> int \<Rightarrow> 'w mstate \<Rightarrow> ('r \<times> 'w mstate) option) \<Rightarrow> 'p list \<Rightarrow> 'r
    \<Rightarrow> 'w mstate \<Rightarrow> ('r list \<times> 'w mstate) option" where
  "run_pool env threads task params r0 st =
     (case ex_pool env threads (length params) (ms_world st) of (sched, w) \<Rightarrow>
        run_tasks task params sched (replicate (length params) r0) (st\<lparr>ms_world := w\<rparr>))"

definition select_db :: "'w env \<Rightarrow> string \<Rightarrow> int \<Rightarrow> 'w mstate \<Rightarrow> (bool \<times> 'w mstate) option" where
  "select_db env conn db st = do {
     c \<leftarrow> conn_of st conn;
     (case send_command env c [''SELECT'', show_int db] st of (rr, err, st) \<Rightarrow>
        Some (rr \<noteq> None \<and> rr \<noteq> Some REPLY_ERROR, st))
   }"

definition doSplitRestoreCmdTask ::
  "'w env \<Rightarrow> slot_mgrt_connet_meta \<Rightarrow> string list \<Rightarrow> nat \<times> nat \<Rightarrow> int \<Rightarrow> 'w mstate \<Rightarrow> (int \<times> 'w mstate) option" where
  "doSplitRestoreCmdTask env meta argv pos tid st = do {
     (conn, st) \<leftarrow> SlotsMGRT_GetConnCtx env tid meta st;
     (case conn of
        None \<Rightarrow> Some (SLOTS_MGRT_ERR, st)
      | Some conn \<Rightarrow> do {
          (ok, st) \<leftarrow> select_db env conn (meta_db meta) st;
          if \<not> ok then Some (SLOTS_MGRT_ERR, st)
          else do {
            (r, st) \<leftarrow> doSplitRestoreCommand env conn argv (fst pos) (snd pos) st;
            st \<leftarrow> touch_conn env conn st;
            st \<leftarrow> SlotsMGRT_CloseConn env tid meta st;
            Some (r, st)
          }
        })
   }"

fun pool_loop :: "nat \<Rightarrow> rdb_dump_obj option list \<Rightarrow> string list \<Rightarrow> nat \<Rightarrow> nat \<Rightarrow> (nat \<times> nat) list
    \<Rightarrow> (string list \<times> nat \<times> (nat \<times> nat) list) option" where
  "pool_loop i [] argv cmd_size start_pos params = Some (argv, start_pos, params)"
| "pool_loop i (slot # objs) argv cmd_size start_pos params = do {
     let (cmd_size, start_pos, params) =
       (if cmd_size > MGRT_CMD_PARAMS_SIZE then (0, i, params @ [(start_pos, i)])
        else (cmd_size, start_pos, params));
     ob \<leftarrow> slot;
     as \<leftarrow> obj_args ob;
     pool_loop (Suc i) objs (argv @ as) (cmd_size + args_size as) start_pos params
   }"

definition BatchSendWithThreadPool_SlotsRestore ::
  "'w env \<Rightarrow> slot_mgrt_connet_meta \<Rightarrow> rdb_dump_obj option list \<Rightarrow> nat \<Rightarrow> 'w mstate \<Rightarrow> (int \<times> 'w mstate) option" where
  "BatchSendWithThreadPool_SlotsRestore env meta objs n st = do {
     c_assert (n \<le> length objs);
     (argv, start_pos, params) \<leftarrow> pool_loop 0 (take n objs) [] 0 0 [];
     let params = params @ [(start_pos, n)];
     (results, st) \<leftarrow> run_pool env (slots_mgrt_threads (g_slots_meta_info (ms_slots st)))
       (doSplitRestoreCmdTask env meta argv) params 0 st;
     Some (if SLOTS_MGRT_ERR \<in> set results then SLOTS_MGRT_ERR else int n, st)
   }"

definition with_pipeline :: "string option \<Rightarrow> bool" where
  "with_pipeline mgrtType = (case mgrtType of None \<Rightarrow> False | Some t \<Rightarrow> strcasecmp_eq t ''withpipeline'')"

text \<open>\<open>MGRT\<close> in the database \<open>db\<close> and the thread \<open>tid\<close>; an absent \<open>mgrtType\<close> is \<open>None\<close>.\<close>

definition MGRT ::
  "'w env \<Rightarrow> int \<Rightarrow> int \<Rightarrow> string \<Rightarrow> string \<Rightarrow> int \<Rightarrow> rdb_dump_obj option list \<Rightarrow> nat \<Rightarrow> string option \<Rightarrow> 'w mstate
    \<Rightarrow> (int \<times> 'w mstate) option" where
  "MGRT env tid db h p timeoutMS objs n mgrtType st = do {
     let meta = \<lparr>meta_db = db, host = h, port = p, tv_sec = timeoutMS sdiv 1000, tv_usec = (timeoutMS smod 1000) * 1000\<rparr>;
     if slots_mgrt_threads (g_slots_meta_info (ms_slots st)) > 0
     then BatchSendWithThreadPool_SlotsRestore env meta objs n st
     else do {
       (conn, st) \<leftarrow> SlotsMGRT_GetConnCtx env tid meta st;
       (case conn of
          None \<Rightarrow> Some (SLOTS_MGRT_ERR, st)
        | Some conn \<Rightarrow> do {
            (ok, st) \<leftarrow> select_db env conn db st;
            if \<not> ok then do {
              st \<leftarrow> SlotsMGRT_CloseConn env tid meta st;
              Some (SLOTS_MGRT_ERR, st)
            }
            else do {
              (ret, st) \<leftarrow>
                (if with_pipeline mgrtType \<and> \<not> async (g_slots_meta_info (ms_slots st))
                 then Pipeline_SlotsRestore env conn objs n st
                 else BatchSend_SlotsRestore env conn objs n st);
              st \<leftarrow> SlotsMGRT_CloseConn env tid meta st;
              Some (ret, st)
            }
          })
     }
   }"

end
