(* ===== verification/MigrateKeys.thy ===== *)
theory MigrateKeys
  imports Migrate
begin

text \<open>
  Dumping, sending and unlinking of given keys, and the choice of the keys: a random key of a
  slot, the keys with the tag of a key, all keys of a slot.
\<close>

section \<open>Dumping\<close>

text \<open>The result code, and the object unless the slot in the array is left as it was.\<close>

definition dumpObj ::
  "'w env \<Rightarrow> int \<Rightarrow> string \<Rightarrow> 'w mstate \<Rightarrow> (int \<times> rdb_dump_obj option \<times> 'w mstate) option" where
  "dumpObj env db key st = do {
     (reply, st) \<leftarrow> server_call env db [''DUMP'', key] st;
     (case reply of
        None \<Rightarrow> Some (SLOTS_MGRT_NOTHING, None, st)
      | Some RNull \<Rightarrow> Some (SLOTS_MGRT_NOTHING, None, st)
      | Some (RString val) \<Rightarrow> do {
          let st = st\<lparr>ms_vals := ms_vals st + {#val#}\<rparr>;
          (reply, st) \<leftarrow> server_call env db [''PTTL'', key] st;
          (case reply of
             None \<Rightarrow> Some (SLOTS_MGRT_NOTHING, None, st)
           | Some RNull \<Rightarrow> Some (SLOTS_MGRT_NOTHING, None, st)
           | Some (RInteger ttl) \<Rightarrow> Some (1, Some \<lparr>obj_key = key, obj_val = val, ttlms = ttl\<rparr>, st)
           | Some _ \<Rightarrow> Some (SLOTS_MGRT_ERR, None, st))
        }
      | Some _ \<Rightarrow> Some (SLOTS_MGRT_ERR, None, st))
   }"

text \<open>A context that is detached from any client has database 0 selected.\<close>

definition dumpObjTask ::
  "'w env \<Rightarrow> string \<Rightarrow> int \<Rightarrow> 'w mstate \<Rightarrow> ((int \<times> rdb_dump_obj option) \<times> 'w mstate) option" where
  "dumpObjTask env key tid st = do { (r, ob, st) \<leftarrow> dumpObj env 0 key st; Some ((r, ob), st) }"

fun count_dumps :: "int list \<Rightarrow> int \<Rightarrow> int" where
  "count_dumps [] j = j"
| "count_dumps (r # rs) j =
     (if r = SLOTS_MGRT_NOTHING then count_dumps rs j
      else if r = SLOTS_MGRT_ERR then SLOTS_MGRT_ERR
      else count_dumps rs (j + 1))"

definition getRdbDumpObjsWithThreadPool ::
  "'w env \<Rightarrow> string list \<Rightarrow> 'w mstate \<Rightarrow> (int \<times> rdb_dump_obj option list \<times> 'w mstate) option" where
  "getRdbDumpObjsWithThreadPool env keys st =
     (if keys = [] then Some (0, [], st)
      else do {
        let threads = slots_dump_threads (g_slots_meta_info (ms_slots st));
        let num_threads = (if int (length keys) > threads then threads else int (length keys));
        (results, st) \<leftarrow> run_pool env num_threads (dumpObjTask env) keys (SLOTS_MGRT_NOTHING, None) st;
        Some (count_dumps (map fst results) 0, map snd results, st)
      })"

text \<open>The array of objects is not initialised: an entry that no dump has filled is \<open>None\<close>.\<close>

fun dump_loop :: "'w env \<Rightarrow> int \<Rightarrow> string list \<Rightarrow> int \<Rightarrow> 'w mstate
    \<Rightarrow> (int \<times> rdb_dump_obj option list \<times> 'w mstate) option" where
  "dump_loop env db [] j st = Some (j, [], st)"
| "dump_loop env db (key # keys) j st = do {
     (r, ob, st) \<leftarrow> dumpObj env db key st;
     if r = SLOTS_MGRT_ERR then Some (SLOTS_MGRT_ERR, ob # replicate (length keys) None, st)
     else do {
       (j, objs, st) \<leftarrow> dump_loop env db keys (if r = SLOTS_MGRT_NOTHING then j else j + 1) st;
       Some (j, ob # objs, st)
     }
   }"

definition getRdbDumpObjs ::
  "'w env \<Rightarrow> int \<Rightarrow> string list \<Rightarrow> 'w mstate \<Rightarrow> (int \<times> rdb_dump_obj option list \<times> 'w mstate) option" where
  "getRdbDumpObjs env db keys st =
     (if keys = [] then Some (SLOTS_MGRT_NOTHING, [], st)
      else if slots_dump_threads (g_slots_meta_info (ms_slots st)) > 0 then getRdbDumpObjsWithThreadPool env keys st
      else dump_loop env db keys 0 st)"

text \<open>\<open>n\<close> may be negative; then no object is freed.\<close>

fun free_objs :: "rdb_dump_obj option list \<Rightarrow> 'w mstate \<Rightarrow> 'w mstate option" where
  "free_objs [] st = Some st"
| "free_objs (slot # objs) st = do {
     ob \<leftarrow> slot;
     free_objs objs (st\<lparr>ms_vals := ms_vals st - {#obj_val ob#}\<rparr>)
   }"

definition FreeDumpObjs :: "rdb_dump_obj option list \<Rightarrow> int \<Rightarrow> 'w mstate \<Rightarrow> 'w mstate option" where
  "FreeDumpObjs objs n st = free_objs (take (nat n) objs) st"

section \<open>Unlinking\<close>

fun delKeys :: "'w env \<Rightarrow> int \<Rightarrow> string list \<Rightarrow> int \<Rightarrow> 'w mstate \<Rightarrow> (int \<times> 'w mstate) option" where
  "delKeys env db [] ret st = Some (ret, st)"
| "delKeys env db (key # keys) ret st = do {
     (reply, st) \<leftarrow> server_call env db [''UNLINK'', key] st;
     (case reply of
        None \<Rightarrow> delKeys env db keys ret st
      | Some RNull \<Rightarrow> delKeys env db keys ret st
      | Some (RInteger i) \<Rightarrow> delKeys env db keys (ret + 1) st
      | Some _ \<Rightarrow> Some (SLOTS_MGRT_ERR, st))
   }"

section \<open>Migrating given keys\<close>

definition migrateKeys ::
  "'w env \<Rightarrow> int \<Rightarrow> int \<Rightarrow> string \<Rightarrow> string \<Rightarrow> int \<Rightarrow> string list \<Rightarrow> string option \<Rightarrow> 'w mstate \<Rightarrow> (int \<times> 'w mstate) option" where
  "migrateKeys env tid db h p timeoutMS keys mgrtType st =
     (if keys = [] then Some (0, st)
      else do {
        (ret, objs, st) \<leftarrow> getRdbDumpObjs env db keys st;
        if ret = SLOTS_MGRT_NOTHING \<or> ret = SLOTS_MGRT_ERR
        then do { st \<leftarrow> FreeDumpObjs objs ret st; Some (ret, st) }
        else do {
          (m_ret, st) \<leftarrow> MGRT env tid db h p timeoutMS objs (nat ret) mgrtType st;
          st \<leftarrow> FreeDumpObjs objs ret st;
          if m_ret = SLOTS_MGRT_ERR \<or> m_ret = 0 then Some (m_ret, st)
          else delKeys env db keys 0 st
        }
      })"

definition SlotsMGRT_OneKey ::
  "'w env \<Rightarrow> int \<Rightarrow> int \<Rightarrow> string \<Rightarrow> string \<Rightarrow> int \<Rightarrow> string \<Rightarrow> string option \<Rightarrow> 'w mstate \<Rightarrow> (int \<times> 'w mstate) option" where
  "SlotsMGRT_OneKey env tid db h p timeout key mgrtType st = migrateKeys env tid db h p timeout [key] mgrtType st"

section \<open>Choosing the keys\<close>

text \<open>\<open>m_dictGetRandomKey\<close> on the table of a slot, which may rehash it by a step.\<close>

definition random_slot_key ::
  "nat list \<Rightarrow> int \<Rightarrow> int \<Rightarrow> 'w mstate \<Rightarrow> (string option \<times> 'w mstate) option" where
  "random_slot_key draws db slot st = do {
     d \<leftarrow> get_table (ms_slots st) db slot;
     (de, draws, d) \<leftarrow> m_dictGetRandomKey hashSlotDictType draws d;
     s \<leftarrow> set_table (ms_slots st) db slot d;
     key \<leftarrow> (case de of None \<Rightarrow> Some None
       | Some ref \<Rightarrow> do { e \<leftarrow> dictGetEntry d ref; Some (Some (fst e)) });
     Some (key, st\<lparr>ms_slots := s\<rparr>)
   }"

text \<open>The number of keys left in the slot, as an \<open>int\<close>.\<close>

definition slot_left :: "int \<Rightarrow> int \<Rightarrow> 'w mstate \<Rightarrow> int option" where
  "slot_left db slot st = do { d \<leftarrow> get_table (ms_slots st) db slot; Some (c_int (int (dictSize d))) }"

text \<open>\<open>left\<close> is what the caller's variable holds at the end; it is 0 at the start.\<close>

definition SlotsMGRT_SlotOneKey ::
  "'w env \<Rightarrow> nat list \<Rightarrow> int \<Rightarrow> int \<Rightarrow> string \<Rightarrow> string \<Rightarrow> int \<Rightarrow> int \<Rightarrow> string option \<Rightarrow> 'w mstate
    \<Rightarrow> (int \<times> int \<times> 'w mstate) option" where
  "SlotsMGRT_SlotOneKey env draws tid db h p timeout slot mgrtType st = do {
     (de, st) \<leftarrow> random_slot_key draws db slot st;
     (case de of
        None \<Rightarrow> Some (0, 0, st)
      | Some key \<Rightarrow> do {
          (ret, st) \<leftarrow> SlotsMGRT_OneKey env tid db h p timeout key mgrtType st;
          if ret = SLOTS_MGRT_ERR then Some (SLOTS_MGRT_ERR, 0, st)
          else do { left \<leftarrow> slot_left db slot st; Some (ret, left, st) }
        })
   }"

text \<open>The walk along the bottom level while the score is that of the tag; the members are put
  into a list.\<close>

partial_function (option) collect_tagged ::
  "string zskiplist \<Rightarrow> int \<Rightarrow> nat option \<Rightarrow> string lheap \<times> string adlist \<Rightarrow> (string lheap \<times> string adlist) option" where
  "collect_tagged z crc x l =
     (case x of
        None \<Rightarrow> Some l
      | Some a \<Rightarrow> do {
          n \<leftarrow> zs_heap z a;
          if score n \<noteq> crc then Some l
          else do {
            m \<leftarrow> member n;
            l \<leftarrow> m_listAddNodeTail (fst l) (snd l) m;
            l0 \<leftarrow> level_of (zs_heap z) a 0;
            collect_tagged z crc (forward l0) l
          }
        })"

text \<open>The list is emptied from its head into an array of its length.\<close>

fun drain :: "nat \<Rightarrow> string lheap \<times> string adlist \<Rightarrow> (string list \<times> string lheap \<times> string adlist) option" where
  "drain 0 l = Some ([], l)"
| "drain (Suc k) l = do {
     h \<leftarrow> l_head (snd l);
     n \<leftarrow> cells (fst l) h;
     (vs, hp, ad) \<leftarrow> m_listDelNode (fst l) (snd l) h;
     (keys, l) \<leftarrow> drain k (hp, ad);
     Some (l_val n # keys, l)
   }"

definition empty_list :: "string lheap \<times> string adlist" where
  "empty_list = (\<lparr>cells = Map.empty, fresh = 0\<rparr>, m_listCreate)"

definition SlotsMGRT_TagKeys ::
  "'w env \<Rightarrow> int \<Rightarrow> int \<Rightarrow> string \<Rightarrow> string \<Rightarrow> int \<Rightarrow> string \<Rightarrow> string option \<Rightarrow> 'w mstate
    \<Rightarrow> (int \<times> int \<times> 'w mstate) option" where
  "SlotsMGRT_TagKeys env tid db h p timeout key mgrtType st = do {
     let n = slots_num (crc32tab (ms_slots st)) (hash_slots_size (g_slots_meta_info (ms_slots st))) key;
     if \<not> sn_hastag n
     then do {
       (ret, st) \<leftarrow> SlotsMGRT_OneKey env tid db h p timeout key mgrtType st;
       Some (ret, 0, st)
     }
     else do {
       d \<leftarrow> get_table (ms_slots st) db (sn_slot n);
       if dictSize d = 0 then Some (0, 0, st)
       else do {
         let crc = uint (sn_crc n);
         dbi \<leftarrow> get_db (ms_slots st) db;
         node \<leftarrow> m_zslFirstInRange (tagged_key_list dbi) \<lparr>rmin = crc, rmax = crc, rminex = False, rmaxex = False\<rparr>;
         l \<leftarrow> collect_tagged (tagged_key_list dbi) crc node empty_list;
         let mx = c_int (int (l_len (snd l)));
         if mx = 0 then Some (0, 0, st)
         else do {
           c_assert (0 \<le> mx);
           (keys, l) \<leftarrow> drain (nat mx) l;
           l \<leftarrow> m_listRelease (fst l) (snd l);
           (ret, st) \<leftarrow> migrateKeys env tid db h p timeout keys mgrtType st;
           left \<leftarrow> slot_left db (sn_slot n) st;
           Some (ret, left, st)
         }
       }
     }
   }"

definition SlotsMGRT_TagSlotKeys ::
  "'w env \<Rightarrow> nat list \<Rightarrow> int \<Rightarrow> int \<Rightarrow> string \<Rightarrow> string \<Rightarrow> int \<Rightarrow> int \<Rightarrow> string option \<Rightarrow> 'w mstate
    \<Rightarrow> (int \<times> int \<times> 'w mstate) option" where
  "SlotsMGRT_TagSlotKeys env draws tid db h p timeout slot mgrtType st = do {
     (de, st) \<leftarrow> random_slot_key draws db slot st;
     (case de of
        None \<Rightarrow> Some (0, 0, st)
      | Some key \<Rightarrow> SlotsMGRT_TagKeys env tid db h p timeout key mgrtType st)
   }"

section \<open>Deleting the keys of slots\<close>

text \<open>The inner loop: the keys of one scan are unlinked one by one. It ends with an error or with
  the empty list.\<close>

partial_function (option) unlink_scanned ::
  "'w env \<Rightarrow> int \<Rightarrow> string lheap \<times> string adlist \<Rightarrow> 'w mstate
    \<Rightarrow> (bool \<times> (string lheap \<times> string adlist) \<times> 'w mstate) option" where
  "unlink_scanned env db l st =
     (case l_head (snd l) of
        None \<Rightarrow> Some (True, l, st)
      | Some h \<Rightarrow> do {
          n \<leftarrow> cells (fst l) h;
          (r, st) \<leftarrow> delKeys env db [l_val n] 0 st;
          if r = SLOTS_MGRT_ERR then Some (False, l, st)
          else do {
            (vs, hp, ad) \<leftarrow> m_listDelNode (fst l) (snd l) h;
            unlink_scanned env db (hp, ad) st
          }
        })"

text \<open>The table is read again in every round, since unlinking changes it.\<close>

partial_function (option) delete_scan ::
  "'w env \<Rightarrow> int \<Rightarrow> int \<Rightarrow> u64 \<Rightarrow> string lheap \<times> string adlist \<Rightarrow> 'w mstate
    \<Rightarrow> (bool \<times> (string lheap \<times> string adlist) \<times> 'w mstate) option" where
  "delete_scan env db slot cursor l st = do {
     d \<leftarrow> get_table (ms_slots st) db slot;
     (es, cursor) \<leftarrow> m_dictScan d cursor;
     l \<leftarrow> slotsScanRedisModuleKeyCallback es l;
     (ok, l, st) \<leftarrow> unlink_scanned env db l st;
     if \<not> ok then Some (False, l, st)
     else if cursor \<noteq> 0 then delete_scan env db slot cursor l st
     else Some (True, l, st)
   }"

text \<open>\<open>n\<close> is the number of slots, returned at the end. The test is on the size as an \<open>int\<close>.\<close>

fun SlotsMGRT_DelSlotKeys ::
  "'w env \<Rightarrow> int \<Rightarrow> int list \<Rightarrow> int \<Rightarrow> 'w mstate \<Rightarrow> (int \<times> 'w mstate) option" where
  "SlotsMGRT_DelSlotKeys env db [] n st = Some (n, st)"
| "SlotsMGRT_DelSlotKeys env db (slot # slots) n st = do {
     left \<leftarrow> slot_left db slot st;
     if left = 0 then SlotsMGRT_DelSlotKeys env db slots n st
     else do {
       (ok, l, st) \<leftarrow> delete_scan env db slot 0 empty_list st;
       if \<not> ok then Some (SLOTS_MGRT_ERR, st)
       else do {
         l \<leftarrow> m_listRelease (fst l) (snd l);
         SlotsMGRT_DelSlotKeys env db slots n st
       }
     }
   }"

end
