(* ===== verification/Restore.thy ===== *)
theory Restore
  imports MigrateKeys
begin

text \<open>
  The receiving side of a migration: \<open>slotsRestoreCmd\<close> of \<open>module.c\<close> parses the arguments of a
  \<open>SLOTSRESTORE\<close> command, and \<open>SlotsMGRT_Restore\<close> of \<open>redisxslot.c\<close> restores the objects one by
  one and announces each to the index by a notification of its own.
\<close>

section \<open>Restoring an object\<close>

text \<open>One test after the other; at most one of them holds.\<close>

definition notify_if :: "'w env \<Rightarrow> int \<Rightarrow> bool \<Rightarrow> notify_class \<Rightarrow> string \<Rightarrow> 'w mstate \<Rightarrow> 'w mstate option" where
  "notify_if env db cond cls key st =
     (if cond
      then (case ex_notify env db cls ''slotsmgrt-restore'' key (ms_world st) of (evs, w) \<Rightarrow> notified env evs w st)
      else Some st)"

definition notifyOne :: "'w env \<Rightarrow> int \<Rightarrow> string \<Rightarrow> 'w mstate \<Rightarrow> 'w mstate option" where
  "notifyOne env db key st =
     (case ex_key_type env db key (ms_world st) of (ty, evs, w) \<Rightarrow> do {
        st \<leftarrow> notified env evs w st;
        st \<leftarrow> notify_if env db (ty = KEYTYPE_STRING) NOTIFY_STRING key st;
        st \<leftarrow> notify_if env db (ty = KEYTYPE_HASH) NOTIFY_HASH key st;
        st \<leftarrow> notify_if env db (ty = KEYTYPE_LIST) NOTIFY_LIST key st;
        st \<leftarrow> notify_if env db (ty = KEYTYPE_SET) NOTIFY_SET key st;
        notify_if env db (ty = KEYTYPE_ZSET) NOTIFY_ZSET key st
      })"

text \<open>The key is handed over as a C string, the value as a buffer; the life time, a long long, is
  printed by the server.\<close>

definition restore_request :: "rdb_dump_obj \<Rightarrow> string list" where
  "restore_request ob =
     [''RESTORE'', cstr (obj_key ob), show_int (if ttlms ob < 0 then 0 else ttlms ob), obj_val ob, ''replace'']"

definition restoreOneWithReplace ::
  "'w env \<Rightarrow> int \<Rightarrow> rdb_dump_obj \<Rightarrow> 'w mstate \<Rightarrow> (int \<times> 'w mstate) option" where
  "restoreOneWithReplace env db ob st = do {
     (reply, st) \<leftarrow> server_call env db (restore_request ob) st;
     (case reply of
        None \<Rightarrow> Some (0, st)
      | Some RNull \<Rightarrow> Some (0, st)
      | Some RError \<Rightarrow> Some (SLOTS_MGRT_ERR, st)
      | Some _ \<Rightarrow> do { st \<leftarrow> notifyOne env db (obj_key ob) st; Some (1, st) })
   }"

fun restore_loop :: "'w env \<Rightarrow> int \<Rightarrow> rdb_dump_obj list \<Rightarrow> 'w mstate \<Rightarrow> (bool \<times> 'w mstate) option" where
  "restore_loop env db [] st = Some (True, st)"
| "restore_loop env db (ob # objs) st = do {
     (r, st) \<leftarrow> restoreOneWithReplace env db ob st;
     if r = SLOTS_MGRT_ERR then Some (False, st) else restore_loop env db objs st
   }"

definition restoreMutli ::
  "'w env \<Rightarrow> int \<Rightarrow> rdb_dump_obj list \<Rightarrow> 'w mstate \<Rightarrow> (int \<times> 'w mstate) option" where
  "restoreMutli env db objs st = do {
     (ok, st) \<leftarrow> restore_loop env db objs st;
     Some (if ok then int (length objs) else SLOTS_MGRT_ERR, st)
   }"

text \<open>The tasks of the pool run in a detached context, which has database 0 selected.\<close>

definition restoreOneTask :: "'w env \<Rightarrow> rdb_dump_obj \<Rightarrow> int \<Rightarrow> 'w mstate \<Rightarrow> (int \<times> 'w mstate) option" where
  "restoreOneTask env ob tid st = restoreOneWithReplace env 0 ob st"

definition restoreMutliWithThreadPool ::
  "'w env \<Rightarrow> rdb_dump_obj list \<Rightarrow> 'w mstate \<Rightarrow> (int \<times> 'w mstate) option" where
  "restoreMutliWithThreadPool env objs st = do {
     (results, st) \<leftarrow> run_pool env (slots_restore_threads (g_slots_meta_info (ms_slots st))) (restoreOneTask env) objs 0 st;
     Some (if SLOTS_MGRT_ERR \<in> set results then SLOTS_MGRT_ERR else int (length objs), st)
   }"

definition SlotsMGRT_Restore ::
  "'w env \<Rightarrow> int \<Rightarrow> rdb_dump_obj list \<Rightarrow> 'w mstate \<Rightarrow> (int \<times> 'w mstate) option" where
  "SlotsMGRT_Restore env db objs st =
     (if slots_restore_threads (g_slots_meta_info (ms_slots st)) > 0 then restoreMutliWithThreadPool env objs st
      else restoreMutli env db objs st)"

section \<open>Parsing the arguments\<close>

text \<open>The loop of \<open>slotsRestoreCmd\<close>: three arguments make an object; the flag says that every life
  time was a number. The value of an object is a reference taken from the argument.\<close>

fun parse_objs :: "string list \<Rightarrow> rdb_dump_obj list \<Rightarrow> 'w mstate \<Rightarrow> bool \<times> rdb_dump_obj list \<times> 'w mstate" where
  "parse_objs (key # ttl # val # args) objs st =
     (case m_string2ll ttl of
        None \<Rightarrow> (False, objs, st)
      | Some v \<Rightarrow> parse_objs args (objs @ [\<lparr>obj_key = key, obj_val = val, ttlms = v\<rparr>])
          (st\<lparr>ms_vals := ms_vals st + {#val#}\<rparr>))"
| "parse_objs args objs st = (True, objs, st)"

definition slotsRestoreCmd ::
  "'w env \<Rightarrow> int \<Rightarrow> string list \<Rightarrow> 'w mstate \<Rightarrow> (int \<times> 'w mstate) option" where
  "slotsRestoreCmd env db argv st =
     (case parse_objs (tl argv) [] st of (ok, objs, st) \<Rightarrow>
        if \<not> ok then do {
          st \<leftarrow> FreeDumpObjs (map Some objs) (int (length objs)) st;
          Some (SLOTS_MGRT_ERR, st)
        }
        else do {
          (ret, st) \<leftarrow> SlotsMGRT_Restore env db objs st;
          st \<leftarrow> FreeDumpObjs (map Some objs) (int (length objs)) st;
          Some (ret, st)
        })"

end
