(* ===== verification/SendProps.thy ===== *)
theory SendProps
  imports Restore
begin

text \<open>
  What the sender puts on the wire: the objects of a migration in order, in commands that are
  split after the first object that makes them too long; and what the receiver makes of them.
\<close>

section \<open>Arguments of an object\<close>

lemma show_nat_chars: "set (show_nat n) \<subseteq> digit_char ` {..<10}"
proof (induction n rule: show_nat.induct)
  case (1 n)
  then show ?case by (subst show_nat.simps) auto
qed

lemma digit_char_nul: "d < 10 \<Longrightarrow> digit_char d \<noteq> CHR 0x00"
  using is_digit_char [of d] by (auto simp: is_digit_def simp del: is_digit_char)

lemma show_int_nul: "CHR 0x00 \<notin> set (show_int v)"
proof
  assume "CHR 0x00 \<in> set (show_int v)"
  then have "CHR 0x00 \<in> set (show_nat (nat \<bar>v\<bar>))" by (auto simp: show_int_def split: if_splits)
  then obtain d where "d < 10" "CHR 0x00 = digit_char d" using show_nat_chars by blast
  then show False using digit_char_nul by metis
qed

lemma cstr_show_int: "cstr (show_int v @ CHR 0x00 # rest) = show_int v"
  unfolding cstr_def using show_int_nul [of v] by (subst takeWhile_append2) auto

lemma show_int_short: "is_llong v \<Longrightarrow> length (show_int v) < LONGSTR_SIZE"
proof -
  assume v: "is_llong v"
  have "length (show_nat (nat \<bar>v\<bar>)) \<le> 20"
    using length_show_nat_u64 [of "magnitude v"] by (simp only: unat_magnitude [OF v])
  moreover have "length (show_int v) \<le> 1 + length (show_nat (nat \<bar>v\<bar>))" unfolding length_show_int by simp
  ultimately show ?thesis by (simp add: LONGSTR_SIZE_def)
qed

lemma print_llong_eq: "is_llong v \<Longrightarrow> print_llong v = Some (show_int v)"
  using m_ll2string_spec [of v "replicate LONGSTR_SIZE (CHR 0x00)"] show_int_short [of v] 
  by (simp add: print_llong_def Let_def cstr_show_int)

definition args_of :: "rdb_dump_obj \<Rightarrow> string list" where
  "args_of ob = [obj_key ob, show_int (restore_ttl ob), obj_val ob]"

definition sendable :: "rdb_dump_obj \<Rightarrow> bool" where
  "sendable ob \<longleftrightarrow> is_llong (ttlms ob)"

lemma is_llong_ttl: "sendable ob \<Longrightarrow> is_llong (restore_ttl ob)"
  by (simp add: sendable_def restore_ttl_def is_llong_def LLONG_MIN_def LLONG_MAX_def)

lemma obj_args_eq: "sendable ob \<Longrightarrow> obj_args ob = Some (args_of ob)"
  using m_ll2string_spec [OF is_llong_ttl, of ob "replicate LONGSTR_SIZE (CHR 0x00)"] show_int_short [OF is_llong_ttl, of ob]
  by (simp add: obj_args_def Let_def cstr_show_int strlen_def args_of_def)

section \<open>Batches\<close>

text \<open>The specification of the split: an object goes into the batch before it unless that is
  longer than the limit already.\<close>

definition batch_size :: "rdb_dump_obj list \<Rightarrow> nat" where
  "batch_size obs = args_size (concat (map args_of obs))"

fun pieces :: "rdb_dump_obj list \<Rightarrow> rdb_dump_obj list \<Rightarrow> rdb_dump_obj list list" where
  "pieces acc [] = (if acc = [] then [] else [acc])"
| "pieces acc (ob # obs) =
     (if batch_size acc > MGRT_CMD_PARAMS_SIZE then acc # pieces [ob] obs else pieces (acc @ [ob]) obs)"

definition restore_cmd :: "rdb_dump_obj list \<Rightarrow> string list" where
  "restore_cmd obs = ''SLOTSRESTORE'' # concat (map args_of obs)"

lemma args_size_append [simp]: "args_size (a @ b) = args_size a + args_size b"
  by (simp add: args_size_def)

lemma batch_size_simps [simp]: "batch_size [] = 0" "batch_size (obs @ [ob]) = batch_size obs + args_size (args_of ob)"
  by (simp_all add: batch_size_def args_size_def)

lemma batch_size_one [simp]: "batch_size [ob] = args_size (args_of ob)"
  using batch_size_simps(2) [of "[]" ob] by simp

lemma length_args: "length (concat (map args_of obs)) = 3 * length obs"
  by (induction obs) (simp_all add: args_of_def)

lemma pieces_concat: "concat (pieces acc obs) = acc @ obs"
  by (induction acc obs rule: pieces.induct) auto

lemma pieces_nonempty: "[] \<notin> set (pieces acc obs)"
  by (induction acc obs rule: pieces.induct) auto

text \<open>A batch fits into the limit but for its last object, and a batch is only closed when it
  exceeds the limit.\<close>

lemma pieces_size:
  assumes "batch_size (butlast acc) \<le> MGRT_CMD_PARAMS_SIZE"
  shows "\<forall>p \<in> set (pieces acc obs). batch_size (butlast p) \<le> MGRT_CMD_PARAMS_SIZE"
  using assms by (induction acc obs rule: pieces.induct) auto

lemma pieces_eq_Nil [simp]: "pieces acc obs = [] \<longleftrightarrow> acc = [] \<and> obs = []"
  using pieces_concat [of acc obs] by (cases obs) (auto dest: arg_cong [of _ _ concat])

lemma pieces_full: "\<forall>p \<in> set (butlast (pieces acc obs)). MGRT_CMD_PARAMS_SIZE < batch_size p"
proof (induction acc obs rule: pieces.induct)
  case (2 acc ob obs)
  then show ?case by (cases "batch_size acc > MGRT_CMD_PARAMS_SIZE") simp_all
qed simp

text \<open>Sending batches one after the other, until one is not acknowledged.\<close>

fun send_batches :: "'w env \<Rightarrow> nat \<Rightarrow> rdb_dump_obj list list \<Rightarrow> 'w mstate \<Rightarrow> bool \<times> 'w mstate" where
  "send_batches env c [] st = (True, st)"
| "send_batches env c (p # ps) st =
     (case send_command env c (restore_cmd p) st of (rr, err, st) \<Rightarrow>
        if err \<or> rr = None \<or> rr = Some REPLY_ERROR then (False, st) else send_batches env c ps st)"

lemma conn_of_send: "conn_of (snd (snd (send_command env c cmd st))) name = conn_of st name"
  by (simp add: send_command_def log_request_def conn_of_def split: prod.splits)

lemma conn_of_batches: "conn_of (snd (send_batches env c ps st)) name = conn_of st name"
proof (induction ps arbitrary: st)
  case (Cons p ps)
  obtain rr err st' where s: "send_command env c (restore_cmd p) st = (rr, err, st')" by (metis prod_cases3)
  then have "conn_of st' name = conn_of st name" using conn_of_send [of env c "restore_cmd p" st name] by simp
  then show ?case using Cons.IH [of st'] s by auto
qed simp

text \<open>What a call returns for batches: the count \<open>k\<close>, or an error.\<close>

definition sent :: "int \<Rightarrow> bool \<times> 'w mstate \<Rightarrow> (int \<times> 'w mstate) option" where
  "sent k r = Some (if fst r then k else SLOTS_MGRT_ERR, snd r)"

lemma send_batches_Cons:
  "send_batches env c (p # ps) st =
     (let r = send_batches env c [p] st in if fst r then send_batches env c ps (snd r) else r)"
  by (simp add: Let_def split: prod.splits)

text \<open>One call sends one batch.\<close>

lemma send_batch:
  assumes c: "conn_of st conn = Some c" and argv: "argv = concat (map args_of (obs @ acc))" and acc: "acc \<noteq> []"
  shows "doSplitRestoreCommand env conn argv (length obs) (length obs + length acc) st =
    sent (int (length acc)) (send_batches env c [acc] st)"
proof -
  have "length argv = 3 * (length obs + length acc)" unfolding argv length_args by simp
  moreover have "drop (3 * length obs) argv = concat (map args_of acc)"
    unfolding argv by (simp add: length_args)
  moreover have "take (3 * length acc) (concat (map args_of acc)) = concat (map args_of acc)"
    by (simp add: length_args)
  ultimately show ?thesis
    using c acc by (auto simp: doSplitRestoreCommand_def restore_cmd_def sent_def split: prod.splits)
qed

text \<open>The loop followed by the call for the last batch, for \<open>n\<close> objects.\<close>

definition batch_end :: "'w env \<Rightarrow> string \<Rightarrow> nat \<Rightarrow> (bool \<times> string list \<times> nat \<times> 'w mstate) option \<Rightarrow> (int \<times> 'w mstate) option" where
  "batch_end env conn n r = do {
     (ok, argv, start_pos, st) \<leftarrow> r;
     if \<not> ok then Some (SLOTS_MGRT_ERR, st) else doSplitRestoreCommand env conn argv start_pos n st
   }"

definition last_count :: "rdb_dump_obj list list \<Rightarrow> int" where
  "last_count ps = (if ps = [] then 0 else int (length (last ps)))"

lemma count_not_err: "int k \<noteq> SLOTS_MGRT_ERR" "last_count ps \<noteq> SLOTS_MGRT_ERR"
  by (simp_all add: SLOTS_MGRT_ERR_def last_count_def)

lemma batch_loop_pieces:
  assumes "conn_of st conn = Some c" "\<forall>ob \<in> set obs. sendable ob"
    and "argv = concat (map args_of (prev @ acc))" "acc = [] \<longrightarrow> prev = []"
  shows "batch_end env conn (length prev + length acc + length obs)
      (batch_loop env conn (length prev + length acc) (map Some obs) argv (batch_size acc) (length prev) st) =
    sent (last_count (pieces acc obs)) (send_batches env c (pieces acc obs) st)"
  using assms
proof (induction obs arbitrary: prev acc argv st)
  case Nil
  show ?case
  proof (cases "acc = []")
    case True
    then show ?thesis using Nil.prems
      by (simp add: batch_end_def doSplitRestoreCommand_def sent_def last_count_def SLOTS_MGRT_NOTHING_def)
  next
    case False
    then show ?thesis using send_batch [OF Nil.prems(1,3) False, of env] by (simp add: batch_end_def last_count_def)
  qed
next
  case (Cons ob obs)
  have ob: "obj_args ob = Some (args_of ob)" "\<forall>ob \<in> set obs. sendable ob"
    using Cons.prems(2) obj_args_eq by auto
  show ?case
  proof (cases "batch_size acc > MGRT_CMD_PARAMS_SIZE")
    case False
    have a: "argv @ args_of ob = concat (map args_of (prev @ (acc @ [ob])))" using Cons.prems(3) by simp
    have "acc @ [ob] = [] \<longrightarrow> prev = []" by simp
    from Cons.IH [OF Cons.prems(1) ob(2) a this] show ?thesis using False ob(1) by simp
  next
    case True
    then have acc: "acc \<noteq> []" by auto
    let ?r = "send_batches env c [acc] st"
    note s = send_batch [OF Cons.prems(1,3) acc, of env, unfolded sent_def]
    have c': "conn_of (snd ?r) conn = Some c" using conn_of_batches [of env c "[acc]" st conn] Cons.prems(1) by simp
    have a: "argv @ args_of ob = concat (map args_of ((prev @ acc) @ [ob]))" using Cons.prems(3) by simp
    have "[ob] = [] \<longrightarrow> prev @ acc = []" by simp
    note IH = Cons.IH [OF c' ob(2) a this]
    have lc: "last_count (acc # pieces [ob] obs) = last_count (pieces [ob] obs)" by (simp add: last_count_def)
    show ?thesis
    proof (cases "fst ?r")
      case False
      then show ?thesis using True s
        by (simp add: send_batches_Cons [of env c acc "pieces [ob] obs"] batch_end_def sent_def del: send_batches.simps(2))
    next
      case ok: True
      then show ?thesis using IH True s ob(1) count_not_err(1) [of "length acc"] lc
        by (simp add: send_batches_Cons [of env c acc "pieces [ob] obs"] add.assoc del: send_batches.simps(2))
    qed
  qed
qed

section \<open>Receiving a batch\<close>

text \<open>The object the receiver makes of the arguments of an object.\<close>

definition received :: "rdb_dump_obj \<Rightarrow> rdb_dump_obj" where
  "received ob = ob\<lparr>ttlms := restore_ttl ob\<rparr>"

definition values_of :: "rdb_dump_obj list \<Rightarrow> string multiset" where
  "values_of obs = image_mset obj_val (mset obs)"

lemma values_of_simps [simp]: "values_of [] = {#}" "values_of (ob # obs) = add_mset (obj_val ob) (values_of obs)"
  by (simp_all add: values_of_def)

lemma values_of_received [simp]: "values_of (map received obs) = values_of obs"
  by (induction obs) (simp_all add: received_def)

lemma parse_batch:
  assumes "\<forall>ob \<in> set obs. sendable ob"
  shows "parse_objs (concat (map args_of obs)) acc st =
    (True, acc @ map received obs, st\<lparr>ms_vals := ms_vals st + values_of obs\<rparr>)"
  using assms
proof (induction obs arbitrary: acc st)
  case (Cons ob obs)
  have "m_string2ll (show_int (restore_ttl ob)) = Some (restore_ttl ob)"
    using is_llong_ttl [of ob] Cons.prems by (simp add: m_string2ll_iff)
  moreover have "\<lparr>obj_key = obj_key ob, obj_val = obj_val ob, ttlms = restore_ttl ob\<rparr> = received ob"
    by (simp add: received_def)
  ultimately show ?case using Cons.IH [of "acc @ [received ob]"] Cons.prems by (simp add: args_of_def)
qed simp

lemma free_objs_all: "free_objs (map Some obs) st = Some (st\<lparr>ms_vals := ms_vals st - values_of obs\<rparr>)"
  by (induction obs arbitrary: st) simp_all

lemma FreeDumpObjs_all: "FreeDumpObjs (map Some obs) (int (length obs)) st = Some (st\<lparr>ms_vals := ms_vals st - values_of obs\<rparr>)"
  by (simp add: FreeDumpObjs_def free_objs_all)

lemma notified_vals: "notified env evs w st = Some st' \<Longrightarrow> ms_vals st' = ms_vals st \<and> ms_trace st' = ms_trace st \<and> ms_conns st' = ms_conns st"
  by (auto simp: notified_def split: bind_splits)

lemma server_call_frame:
  "server_call env db cmd st = Some (r, st') \<Longrightarrow>
    ms_vals st' = ms_vals st \<and> ms_trace st' = ms_trace st @ [Call db cmd] \<and> ms_conns st' = ms_conns st"
  by (auto simp: server_call_def log_request_def split: prod.splits bind_splits dest!: notified_vals)

lemma notify_if_frame:
  "notify_if env db b cls key st = Some st' \<Longrightarrow>
    ms_vals st' = ms_vals st \<and> ms_trace st' = ms_trace st \<and> ms_conns st' = ms_conns st"
  by (auto simp: notify_if_def split: prod.splits if_splits dest!: notified_vals)

lemma notifyOne_frame:
  "notifyOne env db key st = Some st' \<Longrightarrow>
    ms_vals st' = ms_vals st \<and> ms_trace st' = ms_trace st \<and> ms_conns st' = ms_conns st"
  by (auto simp: notifyOne_def split: prod.splits bind_splits dest!: notified_vals notify_if_frame)

lemma restoreOne_frame:
  "restoreOneWithReplace env db ob st = Some (r, st') \<Longrightarrow>
    ms_vals st' = ms_vals st \<and> ms_trace st' = ms_trace st @ [Call db (restore_request ob)] \<and> r \<in> {0, 1, SLOTS_MGRT_ERR}"
  by (auto simp: restoreOneWithReplace_def split: bind_splits option.splits call_reply.splits
      dest!: server_call_frame notifyOne_frame)

lemma slotsRestoreCmd_batch:
  assumes "\<forall>ob \<in> set obs. sendable ob"
  shows "slotsRestoreCmd env db (restore_cmd obs) st = do {
    (ret, st') \<leftarrow> SlotsMGRT_Restore env db (map received obs) (st\<lparr>ms_vals := ms_vals st + values_of obs\<rparr>);
    Some (ret, st'\<lparr>ms_vals := ms_vals st' - values_of obs\<rparr>)
  }"
  using parse_batch [OF assms, of "[]" st]
  by (simp add: slotsRestoreCmd_def restore_cmd_def FreeDumpObjs_all [of "map received obs", simplified])

section \<open>A concrete server\<close>

text \<open>A server whose database 0 has the keys of a list, all with the same value and no life time,
  and which acknowledges whatever is sent.\<close>

fun demo_call :: "int \<Rightarrow> string list \<Rightarrow> string list \<Rightarrow> call_reply option \<times> server_event list \<times> string list" where
  "demo_call db [cmd, key] w =
     (if cmd = ''UNLINK'' \<and> db = 0 \<and> key \<in> set w
      then (Some (RInteger 1), [KeyDeleted 0 key], filter (\<lambda>k. k \<noteq> key) w)
      else if cmd = ''UNLINK'' then (Some (RInteger 0), [], w)
      else if cmd = ''DUMP'' then (if db = 0 \<and> key \<in> set w then Some (RString ''v'') else Some RNull, [], w)
      else (Some (RInteger (- 1)), [], w))"
| "demo_call db cmd w = (Some (RString ''OK''), [], w)"

definition demo_env :: "string list env" where
  "demo_env = \<lparr>ex_cmp = bytes_cmp, ex_call = demo_call, ex_key_type = (\<lambda>db key w. (KEYTYPE_STRING, [], w)),
     ex_notify = (\<lambda>db cls event key w. ([], w)), ex_connect = (\<lambda>h p w. (False, 1, w)),
     ex_timeout = (\<lambda>c s u w. w), ex_command = (\<lambda>c cmd w. (Some REPLY_OK, False, w)),
     ex_append = (\<lambda>c cmd w. w), ex_get_reply = (\<lambda>c w. (True, Some REPLY_OK, w)), ex_disconnect = (\<lambda>c w. w),
     ex_milliseconds = (\<lambda>w. (5000, w)), ex_pool = (\<lambda>t n w. (map (\<lambda>i. (i, int (i mod 4))) [0..<n], w)),
     ex_string2ll = m_string2ll\<rparr>"

definition demo_mstate :: "string list \<Rightarrow> string list mstate" where
  "demo_mstate ks = \<lparr>ms_slots = demo_state, ms_conns = [''c'' \<mapsto> \<lparr>last_time = 0, conn_ctx = 1\<rparr>], ms_world = ks,
     ms_vals = {#}, ms_trace = []\<rparr>"

definition demo_objs :: "rdb_dump_obj list" where
  "demo_objs = [\<lparr>obj_key = ''a{t}'', obj_val = ''v'', ttlms = - 1\<rparr>, \<lparr>obj_key = ''b'', obj_val = ''w'', ttlms = 700\<rparr>]"

lemma demo_sendable: "\<forall>ob \<in> set demo_objs. sendable ob"
  by (simp add: demo_objs_def sendable_def is_llong_def LLONG_MIN_def LLONG_MAX_def)

section \<open>Properties\<close>

lemma touch_conn_ok:
  assumes "conn_of st conn = Some c"
  shows "\<exists>st'. touch_conn env conn st = Some st' \<and> ms_slots st' = ms_slots st \<and> ms_trace st' = ms_trace st"
  using assms by (auto simp: touch_conn_def conn_of_def get_unixtime_def split: prod.splits)

lemma BatchSend_batches:
  assumes "conn_of st conn = Some c" "\<forall>ob \<in> set obs. sendable ob"
  shows "BatchSend_SlotsRestore env conn (map Some obs) (length obs) st =
    (let r = send_batches env c (pieces [] obs) st in
     if fst r then do { st' \<leftarrow> touch_conn env conn (snd r); Some (int (length obs), st') }
     else Some (SLOTS_MGRT_ERR, snd r))"
proof -
  have a: "[] = concat (map args_of ([] @ []))" by simp
  note b = batch_loop_pieces [OF assms a, of env, simplified, unfolded batch_end_def sent_def]
  show ?thesis
  proof (cases "batch_loop env conn 0 (map Some obs) [] 0 0 st")
    case None
    then show ?thesis using b by simp
  next
    case (Some x)
    obtain ok argv start st1 where x: "x = (ok, argv, start, st1)" by (cases x)
    have n: "last_count (pieces [] obs) \<noteq> SLOTS_MGRT_ERR" by (rule count_not_err)
    show ?thesis
    proof (cases ok)
      case True
      then show ?thesis using b n Some x by (auto simp: BatchSend_SlotsRestore_def Let_def split: if_splits)
    next
      case False
      then show ?thesis using b n Some x by (auto simp: BatchSend_SlotsRestore_def Let_def split: if_splits)
    qed
  qed
qed

text \<open>C12: \<open>BatchSend_SlotsRestore\<close> sends the objects in order, in commands with at least one object each.
  A command is closed by the object with which it exceeds the limit: without its last object it is
  within the limit, and every command but the last is larger. It stops with an error at the first
  command that is not acknowledged, and returns the number of objects when all are.\<close>

theorem BatchSend_sends_batches:
  assumes "conn_of st conn = Some c" and "\<forall>ob \<in> set obs. sendable ob"
  shows "\<exists>ps. concat ps = obs \<and> [] \<notin> set ps \<and>
    (\<forall>p \<in> set ps. batch_size (butlast p) \<le> MGRT_CMD_PARAMS_SIZE) \<and>
    (\<forall>p \<in> set (butlast ps). MGRT_CMD_PARAMS_SIZE < batch_size p) \<and>
    (case send_batches env c ps st of (ok, st1) \<Rightarrow>
       if ok then \<exists>st'. BatchSend_SlotsRestore env conn (map Some obs) (length obs) st = Some (int (length obs), st') \<and>
         ms_trace st' = ms_trace st1
       else BatchSend_SlotsRestore env conn (map Some obs) (length obs) st = Some (SLOTS_MGRT_ERR, st1))"
proof -
  let ?r = "send_batches env c (pieces [] obs) st"
  have "conn_of (snd ?r) conn = Some c" using conn_of_batches [of env c _ st conn] assms(1) by simp
  from touch_conn_ok [OF this, of env] obtain st' where
    "touch_conn env conn (snd ?r) = Some st'" "ms_trace st' = ms_trace (snd ?r)" by blast
  then have "case ?r of (ok, st1) \<Rightarrow>
       if ok then \<exists>st'. BatchSend_SlotsRestore env conn (map Some obs) (length obs) st = Some (int (length obs), st') \<and>
         ms_trace st' = ms_trace st1
       else BatchSend_SlotsRestore env conn (map Some obs) (length obs) st = Some (SLOTS_MGRT_ERR, st1)"
    using BatchSend_batches [OF assms, of env] by (simp add: Let_def split: prod.splits)
  moreover have "concat (pieces [] obs) = obs" "[] \<notin> set (pieces [] obs)" by (simp_all add: pieces_concat pieces_nonempty)
  moreover have "\<forall>p \<in> set (pieces [] obs). batch_size (butlast p) \<le> MGRT_CMD_PARAMS_SIZE" by (rule pieces_size) simp
  ultimately show ?thesis using pieces_full [of "[]" obs] by (intro exI [of _ "pieces [] obs"]) simp
qed

lemma BatchSend_sends_batches_witness:
  "\<exists>ps. concat ps = demo_objs \<and>
    (case send_batches demo_env 1 ps (demo_mstate []) of (ok, st1) \<Rightarrow>
       if ok then \<exists>st'. BatchSend_SlotsRestore demo_env ''c'' (map Some demo_objs) (length demo_objs) (demo_mstate []) =
         Some (int (length demo_objs), st') \<and> ms_trace st' = ms_trace st1
       else BatchSend_SlotsRestore demo_env ''c'' (map Some demo_objs) (length demo_objs) (demo_mstate []) =
         Some (SLOTS_MGRT_ERR, st1))"
  using BatchSend_sends_batches [of "demo_mstate []" "''c''" 1 demo_objs demo_env, OF _ demo_sendable]
  by (fastforce simp: conn_of_def demo_mstate_def)

lemma demo_threads: "slots_restore_threads (g_slots_meta_info demo_state) = 0" "slots_mgrt_threads (g_slots_meta_info demo_state) = 0"
  "slots_dump_threads (g_slots_meta_info demo_state) = 0" "async (g_slots_meta_info demo_state) = False"
proof -
  have "g_slots_meta_info demo_state = g_slots_meta_info (initial 16 2 0 True False None)"
  proof -
    let ?s = "initial 16 2 0 True False None"
    obtain s' where "Slots_Add bytes_cmp [65535] ?s 0 ''a{t}'' = Some s'" "same_frame ?s s'"
      using Slots_Add_spec [OF bytes_cmp_ok inv_initial(1), of 0 "[65535]" "''a{t}''"] inv_initial(2) draws_ok
        tracks_initial(1) [of 16 2 bytes_cmp 0 True False None] by (auto simp: tracks_def)
    then show ?thesis using demo_state(1) by (simp add: same_frame_def)
  qed
  then show "slots_restore_threads (g_slots_meta_info demo_state) = 0" "slots_mgrt_threads (g_slots_meta_info demo_state) = 0"
  "slots_dump_threads (g_slots_meta_info demo_state) = 0" "async (g_slots_meta_info demo_state) = False"
    by (simp_all add: initial_def Slots_Init_def slots_boot_def)
qed

end
