(* ===== verification/DeleteProps.thy ===== *)
theory DeleteProps
  imports SendProps ScanRange
begin

text \<open>
  Unlinking keys: what the index holds after the notifications of the server's answers, and
  the deletion of all keys of given slots by a scan that unlinks the keys it has found before
  it goes on.
\<close>

section \<open>The server's side\<close>

text \<open>\<open>UNLINK\<close>, as Redis documents it: it removes the key, announces it with \<open>del\<close>, and answers
  with the number of keys removed. \<open>K\<close> gives the keys of the databases in a world.\<close>

definition unlinks :: "'w env \<Rightarrow> ('w \<Rightarrow> int \<Rightarrow> string set) \<Rightarrow> bool" where
  "unlinks env K \<longleftrightarrow> (\<forall>db key w. case ex_call env db [''UNLINK'', key] w of (reply, evs, w') \<Rightarrow>
     reply = Some (RInteger (if key \<in> K w db then 1 else 0)) \<and>
     evs = (if key \<in> K w db then [KeyDeleted db key] else []) \<and>
     K w' = (K w)(db := K w db - {key}))"

text \<open>The index is in step with the databases.\<close>

definition follows :: "'w env \<Rightarrow> ('w \<Rightarrow> int \<Rightarrow> string set) \<Rightarrow> string multiset \<Rightarrow> 'w mstate \<Rightarrow> bool" where
  "follows env K L st \<longleftrightarrow>
     tracks (ex_cmp env) (num_dbs (ms_slots st)) (key_num (ms_slots st)) (K (ms_world st)) L (ms_slots st) \<and>
     (\<forall>db. card (K (ms_world st) db) < 2 ^ 32 - 1)"

text \<open>From \<open>st\<close> to \<open>st'\<close> the keys \<open>ks\<close> of a database are deleted, and the index follows.\<close>

definition deletes :: "'w env \<Rightarrow> ('w \<Rightarrow> int \<Rightarrow> string set) \<Rightarrow> string multiset \<Rightarrow> int \<Rightarrow> string set \<Rightarrow> 'w mstate \<Rightarrow> 'w mstate \<Rightarrow> bool" where
  "deletes env K L db ks st st' \<longleftrightarrow> follows env K L st' \<and> same_frame (ms_slots st) (ms_slots st') \<and>
     K (ms_world st') = (K (ms_world st))(db := K (ms_world st) db - ks) \<and>
     ms_vals st' = ms_vals st \<and> ms_conns st' = ms_conns st"

lemma followsD:
  assumes "follows env K L st"
  shows "slots_inv (ex_cmp env) (ms_slots st)" "index (ms_slots st) = K (ms_world st)"
    "\<And>db. card (K (ms_world st) db) < 2 ^ 32 - 1" "\<And>db. finite (K (ms_world st) db)"
  using assms finite_index [of "ms_slots st"] by (auto simp: follows_def tracks_def)

lemma deletes_refl: "follows env K L st \<Longrightarrow> deletes env K L db {} st st"
  by (simp add: deletes_def same_frame_refl)

lemma deletes_trans:
  "deletes env K L db ks st st1 \<Longrightarrow> deletes env K L db ks' st1 st2 \<Longrightarrow> deletes env K L db (ks \<union> ks') st st2"
  by (auto simp: deletes_def fun_eq_iff intro: same_frame_trans)

lemma same_frame_num: "same_frame s s' \<Longrightarrow> key_num s' = key_num s \<and> num_dbs s' = num_dbs s \<and> slots_size s' = slots_size s"
  by (simp add: same_frame_def)

lemma unlink_call:
  assumes c: "cmp_ok (ex_cmp env)" and u: "unlinks env K" and f: "follows env K L st"
    and db: "0 \<le> db" "db < num_dbs (ms_slots st)"
  shows "\<exists>i st'. server_call env db [''UNLINK'', key] st = Some (Some (RInteger i), st') \<and> deletes env K L db {key} st st'"
proof -
  let ?K = "K (ms_world st)"
  let ?evs = "if key \<in> ?K db then [KeyDeleted db key] else []"
  obtain i w' where call: "ex_call env db [''UNLINK'', key] (ms_world st) = (Some (RInteger i), ?evs, w')"
    "K w' = ?K(db := ?K db - {key})"
  proof -
    obtain reply evs w' where e: "ex_call env db [''UNLINK'', key] (ms_world st) = (reply, evs, w')"
      by (metis prod_cases3)
    show thesis
      using u [unfolded unlinks_def, THEN spec [of _ db], THEN spec [of _ key], THEN spec [of _ "ms_world st"]] e that [of "if key \<in> K (ms_world st) db then 1 else 0" w'] by simp
  qed
  have t: "tracks (ex_cmp env) (num_dbs (ms_slots st)) (key_num (ms_slots st)) ?K L (ms_slots st)"
    and len: "\<forall>db. card (?K db) < 2 ^ 32 - 1" using f by (simp_all add: follows_def)
  obtain s' where s': "run_events (ex_cmp env) ?evs (ms_slots st) = Some s'" "same_frame (ms_slots st) s'"
    "tracks (ex_cmp env) (num_dbs (ms_slots st)) (key_num (ms_slots st)) (?K(db := ?K db - {key})) L s'"
  proof (cases "key \<in> ?K db")
    case True
    then show thesis using tracks_del [OF c t db, of key] len that by (auto simp: generic_delete)
  next
    case False
    then have "?K(db := ?K db - {key}) = ?K" by auto
    then show thesis using False t that [of "ms_slots st"] by (simp add: same_frame_refl)
  qed
  have le: "card ((?K(db := ?K db - {key})) d) < 2 ^ 32 - 1" for d
    using len card_mono [OF followsD(4) [OF f], of "?K db - {key}" db] by (auto intro: le_less_trans)
  let ?st = "log_request (Call db [''UNLINK'', key]) st"
  have "server_call env db [''UNLINK'', key] st = Some (Some (RInteger i), ?st\<lparr>ms_slots := s', ms_world := w'\<rparr>)"
    using call(1) s'(1) by (simp add: server_call_def notified_def log_request_def)
  moreover have "deletes env K L db {key} st (?st\<lparr>ms_slots := s', ms_world := w'\<rparr>)"
    using s'(2,3) call(2) le same_frame_num [OF s'(2)] by (simp add: deletes_def follows_def log_request_def)
  ultimately show ?thesis by blast
qed

lemma deletes_db:
  "deletes env K L db ks st st' \<Longrightarrow> num_dbs (ms_slots st') = num_dbs (ms_slots st)"
  by (simp add: deletes_def same_frame_def)

lemma delKeys_deletes:
  assumes c: "cmp_ok (ex_cmp env)" and u: "unlinks env K" and f: "follows env K L st"
    and db: "0 \<le> db" "db < num_dbs (ms_slots st)"
  shows "\<exists>st'. delKeys env db keys ret st = Some (ret + int (length keys), st') \<and> deletes env K L db (set keys) st st'"
  using f db
proof (induction keys arbitrary: ret st)
  case Nil
  then show ?case by (simp add: deletes_refl)
next
  case (Cons key keys)
  obtain i st1 where s1: "server_call env db [''UNLINK'', key] st = Some (Some (RInteger i), st1)"
    "deletes env K L db {key} st st1" using unlink_call [OF c u Cons.prems] by blast
  have f1: "follows env K L st1" using s1(2) by (simp add: deletes_def)
  obtain st2 where s2: "delKeys env db keys (ret + 1) st1 = Some (ret + 1 + int (length keys), st2)"
    "deletes env K L db (set keys) st1 st2"
    using Cons.IH [OF f1, of "ret + 1"] Cons.prems(2,3) deletes_db [OF s1(2)] by auto
  show ?case using s1(1) s2(1) deletes_trans [OF s1(2) s2(2)] by (intro exI [of _ st2]) simp
qed

section \<open>One round of the deletion of a slot\<close>

lemma contents_head:
  assumes "list_contents l (v # vs)"
  obtains h n freed hp ad where "l_head (snd l) = Some h" "cells (fst l) h = Some n" "l_val n = v"
    "m_listDelNode (fst l) (snd l) h = Some (freed, hp, ad)" "list_contents (hp, ad) vs"
proof -
  obtain s' where d: "list_deq l = Some (Some v, s')" "list_contents s' vs" using key_queue.deq_law [OF assms] by blast
  then show thesis using that by (auto simp: list_deq_def split: if_splits bind_splits)
qed

lemma contents_empty:
  assumes "list_contents l []"
  shows "l_head (snd l) = None"
proof -
  obtain as where "holds (fst l) (snd l) as []" using assms by (auto simp: list_contents_def)
  then show ?thesis by (cases as) (auto simp: holds_def)
qed

lemma contents_empty_list: "list_contents empty_list []"
  unfolding list_contents_def empty_list_def using holds_create by fastforce

lemma release_contents:
  assumes "list_contents l vs"
  shows "\<exists>r. m_listRelease (fst l) (snd l) = Some r"
  using assms m_listEmpty_holds by (fastforce simp: list_contents_def m_listRelease_def)

lemma unlink_scanned_deletes:
  assumes c: "cmp_ok (ex_cmp env)" and u: "unlinks env K" and f: "follows env K L st"
    and db: "0 \<le> db" "db < num_dbs (ms_slots st)" and l: "list_contents l vs"
  shows "\<exists>l' st'. unlink_scanned env db l st = Some (True, l', st') \<and> list_contents l' [] \<and>
    deletes env K L db (set vs) st st'"
  using f db l
proof (induction vs arbitrary: l st)
  case Nil
  then show ?case using contents_empty [of l] deletes_refl by (subst unlink_scanned.simps) auto
next
  case (Cons v vs)
  obtain h n freed hp ad where h: "l_head (snd l) = Some h" "cells (fst l) h = Some n" "l_val n = v"
    "m_listDelNode (fst l) (snd l) h = Some (freed, hp, ad)" "list_contents (hp, ad) vs"
    by (rule contents_head [OF Cons.prems(4)])
  obtain st1 where s1: "delKeys env db [v] 0 st = Some (0 + int (length [v]), st1)" "deletes env K L db (set [v]) st st1"
    using delKeys_deletes [OF c u Cons.prems(1-3)] by blast
  have f1: "follows env K L st1" using s1(2) by (simp add: deletes_def)
  obtain l' st2 where s2: "unlink_scanned env db (hp, ad) st1 = Some (True, l', st2)" "list_contents l' []"
    "deletes env K L db (set vs) st1 st2"
    using Cons.IH [OF f1 _ _ h(5)] Cons.prems(2,3) deletes_db [OF s1(2)] by auto
  have "unlink_scanned env db l st = Some (True, l', st2)"
    using h s1(1) s2(1) by (subst unlink_scanned.simps) (simp add: SLOTS_MGRT_ERR_def del: delKeys.simps)
  then show ?case using s2(2) deletes_trans [OF s1(2) s2(3)] by auto
qed

section \<open>The loop over a slot\<close>

text \<open>The keys of a slot in the database, and the positions of their hashes.\<close>

definition slot_keys :: "(string \<Rightarrow> slot_num) \<Rightarrow> int \<Rightarrow> string set \<Rightarrow> string set" where
  "slot_keys num slot ks = {k \<in> ks. sn_slot (num k) = slot}"

lemma inv_table:
  assumes s: "slots_inv cmp s" and db: "0 \<le> db" "db < num_dbs s" and slot: "slot < slots_size s"
  obtains d where "get_table s db (int slot) = Some d" "dict_inv hashSlotDictType d"
    "dom (dict_map d) = slot_keys (key_num s) (int slot) (index s db)"
    "fst ` set (dict_entries d) = slot_keys (key_num s) (int slot) (index s db)"
    "dictSize d = card (slot_keys (key_num s) (int slot) (index s db))"
proof -
  obtain dbs dbi where b: "db_slot_infos s = Some dbs" "nat db < length dbs" "dbs ! nat db = dbi"
    "get_db s db = Some dbi" "db_ok cmp (key_num s) (slots_size s) dbi" by (rule db_range [OF s db])
  have t: "db_tables_ok (key_num s) (slots_size s) dbi" using b(5) by (simp add: db_ok_def)
  have len: "slot < length (slotkey_tables dbi)" using t slot by (simp add: db_tables_ok_def)
  have inv: "dict_inv hashSlotDictType (slotkey_tables dbi ! slot)"
    using t slot by (simp add: db_tables_ok_def table_content_ok_def)
  have ix: "db_keys dbi = index s db" using b(4) by (simp add: index_def)
  have d: "dom (dict_map (slotkey_tables dbi ! slot)) = slot_keys (key_num s) (int slot) (index s db)"
    using table_keys [OF t slot] ix by (simp add: slot_keys_def)
  moreover have "fst ` set (dict_entries (slotkey_tables dbi ! slot)) = dom (dict_map (slotkey_tables dbi ! slot))"
    by (simp add: dict_map_def dom_map_of_conv_image_fst)
  ultimately show thesis using that [OF get_table_eq [OF b(4) len] inv] dictSize_card [OF inv] by simp
qed

lemma follows_table:
  assumes f: "follows env K L st" and db: "0 \<le> db" "db < num_dbs (ms_slots st)" and slot: "slot < slots_size (ms_slots st)"
  obtains d where "get_table (ms_slots st) db (int slot) = Some d" "dict_inv hashSlotDictType d"
    "dom (dict_map d) = slot_keys (key_num (ms_slots st)) (int slot) (K (ms_world st) db)"
    "fst ` set (dict_entries d) = slot_keys (key_num (ms_slots st)) (int slot) (K (ms_world st) db)"
    "dictSize d = card (slot_keys (key_num (ms_slots st)) (int slot) (K (ms_world st) db))"
  using inv_table [OF followsD(1) [OF f] db slot] unfolding followsD(2) [OF f] .

text \<open>The position of a key's hash in the tables.\<close>

definition key_pos :: "string \<Rightarrow> nat" where
  "key_pos k = pos (hashFunction hashSlotDictType k)"

lemma delete_scan_deletes:
  assumes c: "cmp_ok (ex_cmp env)" and u: "unlinks env K" and f: "follows env K L st"
    and db: "0 \<le> db" "db < num_dbs (ms_slots st)" and slot: "slot < slots_size (ms_slots st)"
    and l: "list_contents l []"
    and ahead: "\<forall>k \<in> slot_keys (key_num (ms_slots st)) (int slot) (K (ms_world st) db). pos v \<le> key_pos k"
  shows "\<exists>l' st'. delete_scan env db (int slot) v l st = Some (True, l', st') \<and> list_contents l' [] \<and>
    deletes env K L db (slot_keys (key_num (ms_slots st)) (int slot) (K (ms_world st) db)) st st'"
  using f db slot l ahead
proof (induction "2 ^ 64 - pos v" arbitrary: v l st rule: less_induct)
  case less
  let ?num = "key_num (ms_slots st)"
  let ?ks = "slot_keys ?num (int slot) (K (ms_world st) db)"
  obtain d where d: "get_table (ms_slots st) db (int slot) = Some d" "dict_inv hashSlotDictType d"
    "fst ` set (dict_entries d) = ?ks" by (rule follows_table [OF less.prems(1-4)])
  obtain es v' where s: "m_dictScan d v = Some (es, v')" "set es \<subseteq> set (dict_entries d)" "v' = 0 \<or> pos v < pos v'"
    "\<forall>e \<in> set (dict_entries d). pos v \<le> key_pos (fst e) \<and> (v' = 0 \<or> key_pos (fst e) < pos v') \<longrightarrow> e \<in> set es"
    using scan_step [OF d(2), of v] unfolding key_pos_def by blast
  let ?vs = "map fst es"
  obtain l1 where l1: "slotsScanRedisModuleKeyCallback es l = Some l1" "list_contents l1 ?vs"
    using callback_contents [OF less.prems(5), of es] by auto
  obtain l2 st1 where st1: "unlink_scanned env db l1 st = Some (True, l2, st1)" "list_contents l2 []"
    "deletes env K L db (set ?vs) st st1" using unlink_scanned_deletes [OF c u less.prems(1-3) l1(2)] by blast
  have f1: "follows env K L st1" using st1(3) by (simp add: deletes_def)
  have fr: "key_num (ms_slots st1) = ?num" "num_dbs (ms_slots st1) = num_dbs (ms_slots st)"
    "slots_size (ms_slots st1) = slots_size (ms_slots st)"
    using st1(3) by (auto simp: deletes_def same_frame_def)
  have sub: "set ?vs \<subseteq> ?ks" using s(2) d(3) by auto
  have ks1: "slot_keys ?num (int slot) (K (ms_world st1) db) = ?ks - set ?vs"
    using st1(3) by (auto simp: deletes_def slot_keys_def)
  have found: "k \<in> set ?vs" if "k \<in> ?ks" "v' = 0 \<or> key_pos k < pos v'" for k
  proof -
    have "k \<in> fst ` set (dict_entries d)" using that(1) d(3) by simp
    then obtain e where e: "e \<in> set (dict_entries d)" "fst e = k" by blast
    have "pos v \<le> key_pos k" using less.prems(6) that(1) by blast
    then have "e \<in> set es" using s(4) e that(2) by blast
    then show ?thesis using e(2) by force
  qed
  show ?case
  proof (cases "v' = 0")
    case True
    then have "set ?vs = ?ks" using found sub by blast
    then show ?thesis using d(1) s(1) l1(1) st1 True by (subst delete_scan.simps) auto
  next
    case False
    have lt: "2 ^ 64 - pos v' < 2 ^ 64 - pos v" using s(3) False pos_less [of v'] by linarith
    have "\<forall>k \<in> slot_keys (key_num (ms_slots st1)) (int slot) (K (ms_world st1) db). pos v' \<le> key_pos k"
      unfolding fr ks1 using found by (meson DiffE not_le_imp_less)
    then obtain l3 st2 where st2: "delete_scan env db (int slot) v' l2 st1 = Some (True, l3, st2)" "list_contents l3 []"
      "deletes env K L db (?ks - set ?vs) st1 st2"
      using less.hyps [OF lt f1 _ _ _ st1(2)] less.prems(2-4) unfolding fr ks1 by blast
    have "delete_scan env db (int slot) v l st = Some (True, l3, st2)"
      using d(1) s(1) l1(1) st1(1) False st2(1) by (subst delete_scan.simps) simp
    moreover have "set ?vs \<union> (?ks - set ?vs) = ?ks" using sub by blast
    ultimately show ?thesis using st2(2) deletes_trans [OF st1(3) st2(3)] by auto
  qed
qed

lemma slot_left_eq:
  assumes f: "follows env K L st" and db: "0 \<le> db" "db < num_dbs (ms_slots st)" and slot: "slot < slots_size (ms_slots st)"
  shows "slot_left db (int slot) st = Some (c_int (int (card (slot_keys (key_num (ms_slots st)) (int slot) (K (ms_world st) db)))))"
  using follows_table [OF assms] by (metis bind.bind_lunit slot_left_def)

lemma c_int_zero:
  assumes "n < 2 ^ 32"
  shows "c_int (int n) = 0 \<longleftrightarrow> n = 0"
proof
  assume "c_int (int n) = 0"
  then have "sint (of_nat n :: 32 word) = sint (0 :: 32 word)" by (simp add: c_int_def)
  then have "(of_nat n :: 32 word) = 0" by (rule signed_word_eqI)
  then have "unat (of_nat n :: 32 word) = 0" by simp
  then have "n mod 2 ^ 32 = 0" by (simp add: unsigned_of_nat take_bit_eq_mod)
  then show "n = 0" using assms by simp
qed (simp add: c_int_def)

lemma deletes_cong:
  "deletes env K L db ks st st' \<Longrightarrow> K (ms_world st) db - ks = K (ms_world st) db - ks' \<Longrightarrow> deletes env K L db ks' st st'"
  by (simp add: deletes_def)

lemma DelSlotKeys_deletes:
  assumes c: "cmp_ok (ex_cmp env)" and u: "unlinks env K" and f: "follows env K L st"
    and db: "0 \<le> db" "db < num_dbs (ms_slots st)"
    and slots: "\<forall>slot \<in> set slots. 0 \<le> slot \<and> slot < int (slots_size (ms_slots st))"
  shows "\<exists>st'. SlotsMGRT_DelSlotKeys env db slots n st = Some (n, st') \<and>
    deletes env K L db {k. sn_slot (key_num (ms_slots st) k) \<in> set slots} st st'"
  using f db slots
proof (induction slots arbitrary: st)
  case Nil
  then show ?case by (simp add: deletes_refl)
next
  case (Cons sl slots)
  let ?num = "key_num (ms_slots st)"
  obtain slot where slot: "sl = int slot" "slot < slots_size (ms_slots st)"
    using Cons.prems(4) by (metis list.set_intros(1) nonneg_int_cases of_nat_less_iff)
  let ?ks = "slot_keys ?num (int slot) (K (ms_world st) db)"
  have fin: "finite ?ks" and "card ?ks \<le> card (K (ms_world st) db)"
    using followsD(4) [OF Cons.prems(1), of db] by (auto simp: slot_keys_def intro: card_mono)
  then have "card ?ks < 2 ^ 32" using followsD(3) [OF Cons.prems(1), of db] by simp
  note left = slot_left_eq [OF Cons.prems(1-3) slot(2)] c_int_zero [OF this]
  obtain st1 where st1: "SlotsMGRT_DelSlotKeys env db (sl # slots) n st = SlotsMGRT_DelSlotKeys env db slots n st1"
    "deletes env K L db ?ks st st1"
  proof (cases "?ks = {}")
    case True
    then show thesis using that [of st] left slot(1) deletes_refl [OF Cons.prems(1), of db] fin by simp
  next
    case False
    then have ne: "c_int (int (card ?ks)) \<noteq> 0" using left(2) fin by simp
    have "\<forall>k \<in> ?ks. pos 0 \<le> key_pos k" by simp
    from delete_scan_deletes [OF c u Cons.prems(1-3) slot(2) contents_empty_list this] obtain l' st1 where
      s: "delete_scan env db (int slot) 0 empty_list st = Some (True, l', st1)" "list_contents l' []"
        "deletes env K L db ?ks st st1" by blast
    obtain r where "m_listRelease (fst l') (snd l') = Some r" using release_contents [OF s(2)] by blast
    then show thesis using that [OF _ s(3)] s(1) left(1) ne slot(1) by simp
  qed
  have f1: "follows env K L st1" using st1(2) by (simp add: deletes_def)
  have fr: "key_num (ms_slots st1) = ?num" "num_dbs (ms_slots st1) = num_dbs (ms_slots st)"
    "slots_size (ms_slots st1) = slots_size (ms_slots st)"
    using st1(2) by (auto simp: deletes_def same_frame_def)
  obtain st2 where st2: "SlotsMGRT_DelSlotKeys env db slots n st1 = Some (n, st2)"
    "deletes env K L db {k. sn_slot (?num k) \<in> set slots} st1 st2"
    using Cons.IH [OF f1] Cons.prems(2-4) unfolding fr by auto
  have "deletes env K L db {k. sn_slot (?num k) \<in> set (sl # slots)} st st2"
    by (rule deletes_cong [OF deletes_trans [OF st1(2) st2(2)]]) (auto simp: slot_keys_def slot(1))
  then show ?case using st1(1) st2(1) by simp
qed

section \<open>Properties\<close>

text \<open>C11: Deleting the keys of slots, as \<open>SLOTSDEL\<close> does it, returns for every state the index can be in,
  also when the tables are being rehashed: afterwards exactly the keys of the given slots are
  gone from the database, the index is in step with it, and every other database is as before.\<close>

theorem DelSlotKeys_empties_slots:
  assumes "cmp_ok (ex_cmp env)" and "unlinks env K" and "follows env K L st"
    and "0 \<le> db" and "db < num_dbs (ms_slots st)"
    and "\<forall>slot \<in> set slots. 0 \<le> slot \<and> slot < int (slots_size (ms_slots st))"
  shows "\<exists>st'. SlotsMGRT_DelSlotKeys env db slots n st = Some (n, st') \<and> follows env K L st' \<and>
    index (ms_slots st') = (index (ms_slots st))(db :=
      {k \<in> index (ms_slots st) db. sn_slot (key_num (ms_slots st) k) \<notin> set slots})"
proof -
  obtain st' where s: "SlotsMGRT_DelSlotKeys env db slots n st = Some (n, st')"
    "deletes env K L db {k. sn_slot (key_num (ms_slots st) k) \<in> set slots} st st'"
    using DelSlotKeys_deletes [OF assms] by blast
  then have f: "follows env K L st'"
    "K (ms_world st') = (K (ms_world st))(db := K (ms_world st) db - {k. sn_slot (key_num (ms_slots st) k) \<in> set slots})"
    by (simp_all add: deletes_def)
  then have "index (ms_slots st') = (index (ms_slots st))(db :=
      {k \<in> index (ms_slots st) db. sn_slot (key_num (ms_slots st) k) \<notin> set slots})"
    using followsD(2) [OF assms(3)] followsD(2) [OF f(1)] by (auto simp: fun_eq_iff)
  then show ?thesis using s(1) f(1) by blast
qed

definition demo_keys :: "string list \<Rightarrow> int \<Rightarrow> string set" where
  "demo_keys w = (\<lambda>db. if db = 0 then set w else {})"

lemma demo_unlinks: "unlinks demo_env demo_keys" "cmp_ok (ex_cmp demo_env)"
  by (auto simp: unlinks_def demo_env_def demo_keys_def fun_eq_iff bytes_cmp_ok)

lemma demo_follows: "follows demo_env demo_keys {#} (demo_mstate [''a{t}''])"
proof -
  note t = tracks_initial(1) [of 16 2 bytes_cmp 0 True False None]
  obtain s' where s': "Slots_Add bytes_cmp [65535] (initial 16 2 0 True False None) 0 ''a{t}'' = Some s'"
    "tracks bytes_cmp 2 (slots_num crc32_init 16) ((\<lambda>db. {})(0 := insert ''a{t}'' {})) {#} s'"
    using tracks_add [OF bytes_cmp_ok t, of 0 "[65535]" "''a{t}''"] draws_ok by auto
  have k: "demo_keys [''a{t}''] = (\<lambda>db. {})(0 := {''a{t}''})" by (auto simp: demo_keys_def fun_eq_iff)
  have "s' = demo_state" using s'(1) demo_state(1) by simp
  then have "tracks bytes_cmp 2 (slots_num crc32_init 16) (demo_keys [''a{t}'']) {#} demo_state" using s'(2) k by simp
  then have "tracks (ex_cmp demo_env) (num_dbs demo_state) (key_num demo_state) (demo_keys [''a{t}'']) {#} demo_state"
    using demo_state by (simp add: demo_env_def)
  moreover have "card (demo_keys [''a{t}''] db) < 2 ^ 32 - 1" for db by (simp add: demo_keys_def)
  ultimately show ?thesis by (simp add: follows_def demo_mstate_def)
qed

lemma DelSlotKeys_empties_slots_witness:
  "\<exists>st'. SlotsMGRT_DelSlotKeys demo_env 0 [sn_slot (slots_num crc32_init 16 ''a{t}'')] 1 (demo_mstate [''a{t}'']) = Some (1, st') \<and>
    index (ms_slots st') 0 = {}"
proof -
  let ?st = "demo_mstate [''a{t}'']"
  have s: "ms_slots ?st = demo_state" by (simp add: demo_mstate_def)
  have r: "\<forall>slot \<in> set [sn_slot (slots_num crc32_init 16 ''a{t}'')]. 0 \<le> slot \<and> slot < int (slots_size (ms_slots ?st))"
  proof -
    have "0 \<le> sn_slot (slots_num crc32_init 16 ''a{t}'')" "nat (sn_slot (slots_num crc32_init 16 ''a{t}'')) < 16"
      using slot_in_range(1,2) [OF demo_state(2), of "''a{t}''"] unfolding demo_state(4,6) by simp_all
    then show ?thesis unfolding s demo_state(4) by simp
  qed
  from DelSlotKeys_empties_slots [OF demo_unlinks(2,1) demo_follows _ _ this, of 0 1] show ?thesis
    using demo_state s by fastforce
qed

text \<open>Unlinking given keys returns their number and takes them, and nothing else, out of the index;
  the references of the index go with them.\<close>

theorem delKeys_unlinks_keys:
  assumes "cmp_ok (ex_cmp env)" and "unlinks env K" and "follows env K L st"
    and "0 \<le> db" and "db < num_dbs (ms_slots st)"
  shows "\<exists>st'. delKeys env db keys 0 st = Some (int (length keys), st') \<and> slots_inv (ex_cmp env) (ms_slots st') \<and>
    index (ms_slots st') = (index (ms_slots st))(db := index (ms_slots st) db - set keys) \<and>
    held (ms_slots st') = index_refs (ms_slots st') + L"
proof -
  obtain st' where s: "delKeys env db keys 0 st = Some (0 + int (length keys), st')" "deletes env K L db (set keys) st st'"
    using delKeys_deletes [OF assms] by blast
  then have f: "follows env K L st'" "K (ms_world st') = (K (ms_world st))(db := K (ms_world st) db - set keys)"
    by (simp_all add: deletes_def)
  then have "held (ms_slots st') = index_refs (ms_slots st') + L" by (simp add: follows_def tracks_def)
  then show ?thesis using s(1) f followsD(1,2) [OF f(1)] followsD(2) [OF assms(3)] by auto
qed

lemma delKeys_unlinks_keys_witness:
  "\<exists>st'. delKeys demo_env 0 [''a{t}'', ''b''] 0 (demo_mstate [''a{t}'']) = Some (2, st') \<and> index (ms_slots st') 0 = {} \<and>
    held (ms_slots st') = index_refs (ms_slots st')"
proof -
  have s: "ms_slots (demo_mstate [''a{t}'']) = demo_state" by (simp add: demo_mstate_def)
  from delKeys_unlinks_keys [OF demo_unlinks(2,1) demo_follows, of 0 "[''a{t}'', ''b'']"] show ?thesis
    using demo_state s by fastforce
qed

end
