(* ===== verification/MigrateProps.thy ===== *)
theory MigrateProps
  imports DeleteProps
begin

text \<open>
  Migrating keys: the steps of \<open>migrateKeys\<close> in their order, what each of them leaves alone, and
  what has happened to the index and the other server when it returns.
\<close>

section \<open>What sending leaves alone\<close>

text \<open>Talking to the other server does not change the own one: \<open>K\<close> is any observation of it.\<close>

definition remote :: "'w env \<Rightarrow> ('w \<Rightarrow> 'k) \<Rightarrow> bool" where
  "remote env K \<longleftrightarrow>
     (\<forall>h p w. K (snd (snd (ex_connect env h p w))) = K w) \<and>
     (\<forall>c s u w. K (ex_timeout env c s u w) = K w) \<and>
     (\<forall>c cmd w. K (snd (snd (ex_command env c cmd w))) = K w) \<and>
     (\<forall>c cmd w. K (ex_append env c cmd w) = K w) \<and>
     (\<forall>c w. K (snd (snd (ex_get_reply env c w))) = K w) \<and>
     (\<forall>c w. K (ex_disconnect env c w) = K w) \<and>
     (\<forall>w. K (snd (ex_milliseconds env w)) = K w) \<and>
     (\<forall>t n w. K (snd (ex_pool env t n w)) = K w)"

text \<open>Nothing is asked of the own server on the way from \<open>st\<close> to \<open>st'\<close>.\<close>

definition is_call :: "request \<Rightarrow> bool" where
  "is_call rq \<longleftrightarrow> (\<exists>db cmd. rq = Call db cmd)"

definition sends :: "('w \<Rightarrow> 'k) \<Rightarrow> 'w mstate \<Rightarrow> 'w mstate \<Rightarrow> bool" where
  "sends K st st' \<longleftrightarrow> ms_slots st' = ms_slots st \<and> ms_vals st' = ms_vals st \<and> K (ms_world st') = K (ms_world st) \<and>
     (\<exists>rs. ms_trace st' = ms_trace st @ rs \<and> (\<forall>rq \<in> set rs. \<not> is_call rq))"

lemma sends_refl: "sends K st st"
  by (simp add: sends_def)

lemma sends_trans: "sends K st st1 \<Longrightarrow> sends K st1 st2 \<Longrightarrow> sends K st st2"
  unfolding sends_def by (metis (no_types, lifting) UnE append.assoc set_append)

lemma sends_conns [simp]:
  "sends K st (st'\<lparr>ms_conns := cs\<rparr>) = sends K st st'" 
  by (simp add: sends_def)

lemma sends_log:
  assumes "sends K st st'" "\<not> is_call rq"
  shows "sends K st (log_request rq st')"
proof (rule sends_trans [OF assms(1)])
  show "sends K st' (log_request rq st')" using assms(2) by (auto simp: sends_def log_request_def)
qed

lemma sends_world: "sends K st st' \<Longrightarrow> K w = K (ms_world st') \<Longrightarrow> sends K st (st'\<lparr>ms_world := w\<rparr>)"
  by (auto simp: sends_def)

lemma is_call_simps [simp]:
  "\<not> is_call (Command c cmd)" "\<not> is_call (Connect h p)" "\<not> is_call (Append c cmd)" "\<not> is_call (Disconnect c)"
  "is_call (Call db cmd)"
  by (simp_all add: is_call_def)

lemma sends_command:
  assumes "remote env K" "send_command env c cmd st = (rr, err, st')"
  shows "sends K st st'" "conn_of st' = conn_of st"
proof -
  obtain rr' err' w where w: "ex_command env c cmd (ms_world st) = (rr', err', w)" by (metis prod_cases3)
  then have "K w = K (ms_world st)" using assms(1) unfolding remote_def by (metis snd_conv)
  then show "sends K st st'" "conn_of st' = conn_of st"
    using assms(2) w by (auto simp: send_command_def log_request_def conn_of_def fun_eq_iff sends_def)
qed

lemma sends_time:
  assumes "remote env K" "get_unixtime env st = (t, st')"
  shows "sends K st st'" "ms_conns st' = ms_conns st"
proof -
  obtain ms w where w: "ex_milliseconds env (ms_world st) = (ms, w)" by fastforce
  then have "K w = K (ms_world st)" using assms(1) unfolding remote_def by (metis snd_conv)
  then show "sends K st st'" "ms_conns st' = ms_conns st"
    using assms(2) w by (auto simp: get_unixtime_def sends_def)
qed

section \<open>The connection\<close>

lemma getConnName_ok: "is_llong tid \<Longrightarrow> getConnName tid h p = Some (h @ '':'' @ p @ ''@'' @ show_int tid)"
  by (simp add: getConnName_def print_llong_eq)

lemma GetConnCtx_ok:
  assumes r: "remote env K" and tid: "is_llong tid" and p: "c_atoi (port meta) \<noteq> None"
  shows "\<exists>conn st'. SlotsMGRT_GetConnCtx env tid meta st = Some (conn, st') \<and> sends K st st' \<and>
    (\<forall>name. conn = Some name \<longrightarrow> getConnName tid (host meta) (port meta) = Some name \<and> conn_of st' name \<noteq> None)"
proof -
  obtain t st1 where t: "get_unixtime env st = (t, st1)" by fastforce
  note s1 = sends_time [OF r t]
  obtain name where name: "getConnName tid (host meta) (port meta) = Some name" using getConnName_ok [OF tid] by blast
  show ?thesis
  proof (cases "ms_conns st1 name")
    case (Some conn)
    let ?st = "st1\<lparr>ms_conns := (ms_conns st1)(name \<mapsto> conn\<lparr>last_time := t\<rparr>)\<rparr>"
    have "SlotsMGRT_GetConnCtx env tid meta st = Some (Some name, ?st)"
      using t name Some by (simp add: SlotsMGRT_GetConnCtx_def)
    moreover have "sends K st ?st" using s1(1) by simp
    ultimately show ?thesis using name by (auto simp: conn_of_def)
  next
    case None
    obtain v where v: "c_atoi (port meta) = Some v" using p by blast
    obtain err c w where c: "ex_connect env (cstr (host meta)) v (ms_world st1) = (err, c, w)" by (metis prod_cases3)
    let ?st2 = "log_request (Connect (cstr (host meta)) v) (st1\<lparr>ms_world := w\<rparr>)"
    have "K w = K (ms_world st1)" using r c unfolding remote_def by (metis snd_conv)
    then have s2: "sends K st ?st2" by (intro sends_log sends_world s1(1)) simp_all
    show ?thesis
    proof (cases err)
      case True
      then have "SlotsMGRT_GetConnCtx env tid meta st = Some (None, ?st2)"
        using t name None v c by (simp add: SlotsMGRT_GetConnCtx_def)
      then show ?thesis using s2 by blast
    next
      case False
      let ?w = "ex_timeout env c (tv_sec meta) (tv_usec meta) (ms_world ?st2)"
      let ?st3 = "?st2\<lparr>ms_world := ?w, ms_conns := (ms_conns ?st2)(name \<mapsto> \<lparr>last_time = t, conn_ctx = c\<rparr>)\<rparr>"
      have "SlotsMGRT_GetConnCtx env tid meta st = Some (Some name, ?st3)"
        using t name None v c False by (simp add: SlotsMGRT_GetConnCtx_def Let_def)
      moreover have "K ?w = K (ms_world ?st2)" using r by (simp add: remote_def)
      then have "sends K st ?st3" using sends_world [OF s2, where w = ?w] by simp
      ultimately show ?thesis using name by (auto simp: conn_of_def)
    qed
  qed
qed

lemma CloseConn_ok:
  assumes r: "remote env K" and tid: "is_llong tid"
  shows "\<exists>st'. SlotsMGRT_CloseConn env tid meta st = Some st' \<and> sends K st st'"
proof -
  obtain name where name: "getConnName tid (host meta) (port meta) = Some name" using getConnName_ok [OF tid] by blast
  show ?thesis
  proof (cases "ms_conns st name")
    case None
    then show ?thesis using name by (simp add: SlotsMGRT_CloseConn_def sends_refl)
  next
    case (Some conn)
    let ?w = "ex_disconnect env (conn_ctx conn) (ms_world st)"
    have "K ?w = K (ms_world st)" using r by (simp add: remote_def)
    then have "sends K st (st\<lparr>ms_world := ?w\<rparr>)" by (intro sends_world sends_refl) simp
    then have "sends K st (log_request (Disconnect (conn_ctx conn)) (st\<lparr>ms_conns := (ms_conns st)(name := None), ms_world := ?w\<rparr>))"
      by (intro sends_log) (simp_all add: sends_def)
    then show ?thesis using name Some by (simp add: SlotsMGRT_CloseConn_def)
  qed
qed

lemma select_db_ok:
  assumes "remote env K" "conn_of st conn \<noteq> None"
  shows "\<exists>ok st'. select_db env conn db st = Some (ok, st') \<and> sends K st st' \<and> conn_of st' = conn_of st"
proof -
  obtain c where c: "conn_of st conn = Some c" using assms(2) by blast
  obtain rr err st' where s: "send_command env c [''SELECT'', show_int db] st = (rr, err, st')" by (metis prod_cases3)
  show ?thesis using c s sends_command [OF assms(1) s] by (simp add: select_db_def)
qed

lemma touch_conn_sends:
  assumes "remote env K" "conn_of st conn \<noteq> None"
  shows "\<exists>st'. touch_conn env conn st = Some st' \<and> sends K st st'"
proof -
  obtain t st1 where t: "get_unixtime env st = (t, st1)" by fastforce
  note s1 = sends_time [OF assms(1) t]
  obtain cn where "ms_conns st conn = Some cn" using assms(2) by (auto simp: conn_of_def)
  then show ?thesis using t s1 by (simp add: touch_conn_def)
qed

section \<open>Sending all objects\<close>

lemma send_batches_sends:
  assumes "remote env K"
  shows "sends K st (snd (send_batches env c ps st))"
proof (induction ps arbitrary: st)
  case Nil
  then show ?case by (simp add: sends_refl)
next
  case (Cons p ps)
  obtain rr err st' where s: "send_command env c (restore_cmd p) st = (rr, err, st')" by (metis prod_cases3)
  then show ?case using sends_command(1) [OF assms s] Cons.IH [of st'] by (auto intro: sends_trans)
qed

lemma BatchSend_ok:
  assumes r: "remote env K" and c: "conn_of st conn \<noteq> None" and obs: "\<forall>ob \<in> set obs. sendable ob"
  shows "\<exists>ret st'. BatchSend_SlotsRestore env conn (map Some obs) (length obs) st = Some (ret, st') \<and> sends K st st' \<and>
    ret \<in> {SLOTS_MGRT_ERR, int (length obs)}"
proof -
  obtain c where c: "conn_of st conn = Some c" using c by blast
  let ?r = "send_batches env c (pieces [] obs) st"
  have s: "sends K st (snd ?r)" by (rule send_batches_sends [OF r])
  show ?thesis
  proof (cases "fst ?r")
    case False
    then show ?thesis using s BatchSend_batches [OF c obs, of env] by simp
  next
    case True
    have "conn_of (snd ?r) conn \<noteq> None" using conn_of_batches [of env c _ st conn] c by simp
    from touch_conn_sends [OF r this] obtain st' where t: "touch_conn env conn (snd ?r) = Some st'" "sends K (snd ?r) st'" by blast
    show ?thesis using True t(1) sends_trans [OF s t(2)] BatchSend_batches [OF c obs, of env] by simp
  qed
qed

lemma fetch_replies_sends:
  assumes "remote env K"
  shows "sends K st (snd (fetch_replies env c n st)) \<and> conn_of (snd (fetch_replies env c n st)) = conn_of st"
proof (induction n arbitrary: st)
  case 0
  then show ?case by (simp add: sends_refl)
next
  case (Suc n)
  obtain ok rr w where g: "ex_get_reply env c (ms_world st) = (ok, rr, w)" by (metis prod_cases3)
  then have "K w = K (ms_world st)" using assms(1) unfolding remote_def by (metis snd_conv)
  then have "sends K st (st\<lparr>ms_world := w\<rparr>)" by (intro sends_world sends_refl) simp
  moreover have "conn_of (st\<lparr>ms_world := w\<rparr>) = conn_of st" by (simp add: conn_of_def fun_eq_iff)
  ultimately show ?case using g Suc.IH [of "st\<lparr>ms_world := w\<rparr>"] by (auto simp: Let_def intro: sends_trans)
qed

lemma doSplitPipelineGetReply_ok:
  assumes "remote env K" "conn_of st conn \<noteq> None"
  shows "\<exists>ret st'. doSplitPipelineGetReply env conn a b st = Some (ret, st') \<and> sends K st st' \<and> conn_of st' = conn_of st"
proof -
  obtain c where c: "conn_of st conn = Some c" using assms(2) by blast
  obtain ok st' where f: "fetch_replies env c (b - a) st = (ok, st')" by fastforce
  then have s: "sends K st st'" "conn_of st' = conn_of st"
    using fetch_replies_sends [OF assms(1), of st c "b - a"] by simp_all
  show ?thesis
  proof (cases "b \<le> a")
    case True
    then show ?thesis by (simp add: doSplitPipelineGetReply_def sends_refl)
  next
    case False
    then show ?thesis using c f s by (simp add: doSplitPipelineGetReply_def)
  qed
qed

lemma append_restore_sends:
  assumes "remote env K"
  shows "sends K st (append_restore env c ob st)" "conn_of (append_restore env c ob st) = conn_of st"
proof -
  let ?cmd = "[''SLOTSRESTORE'', obj_key ob, show_int (restore_ttl ob), obj_val ob]"
  have "K (ex_append env c ?cmd (ms_world st)) = K (ms_world st)" using assms by (simp add: remote_def)
  then show "sends K st (append_restore env c ob st)"
    unfolding append_restore_def Let_def by (intro sends_log sends_world sends_refl) simp_all
  show "conn_of (append_restore env c ob st) = conn_of st"
    by (simp add: append_restore_def log_request_def conn_of_def fun_eq_iff Let_def)
qed

lemma pipeline_loop_ok:
  assumes r: "remote env K" and c: "conn_of st conn \<noteq> None" and obs: "\<forall>ob \<in> set obs. sendable ob"
  shows "\<exists>ok s st'. pipeline_loop env conn i (map Some obs) sz start st = Some (ok, s, st') \<and> sends K st st' \<and>
    conn_of st' = conn_of st"
  using c obs
proof (induction obs arbitrary: i sz start st)
  case Nil
  then show ?case by (auto simp: sends_refl)
next
  case (Cons ob obs)
  have a: "obj_args ob = Some (args_of ob)" using Cons.prems(2) obj_args_eq by simp
  obtain ok sz1 start1 st1 where h: "(if sz > MGRT_CMD_PARAMS_SIZE
        then do { (r, st) \<leftarrow> doSplitPipelineGetReply env conn start i st; Some (r \<noteq> SLOTS_MGRT_ERR, 0, i, st) }
        else Some (True, sz, start, st)) = Some (ok, sz1, start1, st1)" "sends K st st1" "conn_of st1 = conn_of st"
  proof (cases "sz > MGRT_CMD_PARAMS_SIZE")
    case True
    obtain ret st1 where "doSplitPipelineGetReply env conn start i st = Some (ret, st1)" "sends K st st1" "conn_of st1 = conn_of st"
      using doSplitPipelineGetReply_ok [OF r Cons.prems(1), of start i] by blast
    then show thesis using True that by simp
  next
    case False
    then show thesis using that [of True sz start st] by (simp add: sends_refl)
  qed
  show ?case
  proof (cases ok)
    case False
    then show ?thesis using h by auto
  next
    case True
    obtain c where c: "conn_of st1 conn = Some c" using Cons.prems(1) h(3) by auto
    let ?st = "append_restore env c ob st1"
    note s = append_restore_sends [OF r, where st = st1 and c = c and ob = ob]
    have cn: "conn_of ?st conn \<noteq> None" using c s(2) by simp
    obtain ok' s' st' where "pipeline_loop env conn (Suc i) (map Some obs) (sz1 + args_size (args_of ob)) start1 ?st =
        Some (ok', s', st')" "sends K ?st st'" "conn_of st' = conn_of ?st"
      using Cons.IH [OF cn, of "Suc i" "sz1 + args_size (args_of ob)" start1] Cons.prems(2) by auto
    then show ?thesis using h True a c s sends_trans [OF sends_trans [OF h(2) s(1)]] by simp
  qed
qed

lemma Pipeline_ok:
  assumes r: "remote env K" and c: "conn_of st conn \<noteq> None" and obs: "\<forall>ob \<in> set obs. sendable ob"
  shows "\<exists>ret st'. Pipeline_SlotsRestore env conn (map Some obs) (length obs) st = Some (ret, st') \<and> sends K st st' \<and>
    ret \<in> {SLOTS_MGRT_ERR, int (length obs)}"
proof -
  obtain ok s st1 where p: "pipeline_loop env conn 0 (map Some obs) 0 0 st = Some (ok, s, st1)" "sends K st st1"
    "conn_of st1 = conn_of st" using pipeline_loop_ok [OF assms, of 0 0 0] by blast
  obtain ret st2 where g: "doSplitPipelineGetReply env conn s (length obs) st1 = Some (ret, st2)" "sends K st1 st2"
    using doSplitPipelineGetReply_ok [OF r, of st1 conn s "length obs"] p(3) c by auto
  then show ?thesis using p sends_trans [OF p(2) g(2)] by (cases ok) (auto simp: Pipeline_SlotsRestore_def)
qed

lemma MGRT_ok:
  assumes r: "remote env K" and tid: "is_llong tid" and p: "c_atoi p \<noteq> None" and obs: "\<forall>ob \<in> set obs. sendable ob"
    and th: "slots_mgrt_threads (g_slots_meta_info (ms_slots st)) \<le> 0"
  shows "\<exists>ret st'. MGRT env tid db h p timeout (map Some obs) (length obs) ty st = Some (ret, st') \<and> sends K st st' \<and>
    ret \<in> {SLOTS_MGRT_ERR, int (length obs)}"
proof -
  let ?meta = "\<lparr>meta_db = db, host = h, port = p, tv_sec = timeout sdiv 1000, tv_usec = (timeout smod 1000) * 1000\<rparr>"
  obtain conn st1 where g: "SlotsMGRT_GetConnCtx env tid ?meta st = Some (conn, st1)" "sends K st st1"
    "\<forall>name. conn = Some name \<longrightarrow> conn_of st1 name \<noteq> None"
    using GetConnCtx_ok [OF r tid, of ?meta st] p by auto
  show ?thesis
  proof (cases conn)
    case None
    then show ?thesis using g th by (simp add: MGRT_def Let_def)
  next
    case (Some name)
    then have cn: "conn_of st1 name \<noteq> None" using g(3) by blast
    obtain ok st2 where s: "select_db env name db st1 = Some (ok, st2)" "sends K st1 st2" "conn_of st2 = conn_of st1"
      using select_db_ok [OF r cn] by blast
    have s2: "sends K st st2" by (rule sends_trans [OF g(2) s(2)])
    show ?thesis
    proof (cases ok)
      case False
      obtain st3 where "SlotsMGRT_CloseConn env tid ?meta st2 = Some st3" "sends K st2 st3"
        using CloseConn_ok [OF r tid] by blast
      then show ?thesis using g(1) s(1) Some False th sends_trans [OF s2] by (simp add: MGRT_def Let_def)
    next
      case True
      have cn2: "conn_of st2 name \<noteq> None" using cn s(3) by simp
      let ?w = "with_pipeline ty \<and> \<not> async (g_slots_meta_info (ms_slots st2))"
      obtain ret st3 where b: "(if ?w then Pipeline_SlotsRestore env name (map Some obs) (length obs) st2
          else BatchSend_SlotsRestore env name (map Some obs) (length obs) st2) = Some (ret, st3)" "sends K st2 st3"
          "ret \<in> {SLOTS_MGRT_ERR, int (length obs)}"
      proof (cases ?w)
        case True
        obtain ret st3 where "Pipeline_SlotsRestore env name (map Some obs) (length obs) st2 = Some (ret, st3)" "sends K st2 st3"
          "ret \<in> {SLOTS_MGRT_ERR, int (length obs)}" using Pipeline_ok [OF r cn2 obs] by blast
        then show thesis using True by (intro that [of ret st3]) auto
      next
        case False
        obtain ret st3 where "BatchSend_SlotsRestore env name (map Some obs) (length obs) st2 = Some (ret, st3)" "sends K st2 st3"
          "ret \<in> {SLOTS_MGRT_ERR, int (length obs)}" using BatchSend_ok [OF r cn2 obs] by blast
        then show thesis using False by (intro that [of ret st3]) auto
      qed
      obtain st4 where c: "SlotsMGRT_CloseConn env tid ?meta st3 = Some st4" "sends K st3 st4"
        using CloseConn_ok [OF r tid] by blast
      have "MGRT env tid db h p timeout (map Some obs) (length obs) ty st = Some (ret, st4)"
        using g(1) s(1) Some True th b(1) c(1) by (simp add: MGRT_def Let_def)
      then show ?thesis using b(3) sends_trans [OF s2 sends_trans [OF b(2) c(2)]] by blast
    qed
  qed
qed

section \<open>What the other server has acknowledged\<close>

text \<open>On connection \<open>c\<close>, from the first state to the second, the objects of the first list have
  been sent in order and each has been acknowledged by a reply that is there and no error,
  either the one of its batch or its own; the objects of the second list are in the pipeline
  and have no reply yet.\<close>

inductive acknowledged ::
  "'w env \<Rightarrow> nat \<Rightarrow> 'w mstate \<Rightarrow> rdb_dump_obj list \<Rightarrow> rdb_dump_obj list \<Rightarrow> 'w mstate \<Rightarrow> bool"
  for env :: "'w env" and c :: nat and st0 :: "'w mstate" where
  ack_start: "acknowledged env c st0 [] [] st0"
| ack_batch: "acknowledged env c st0 obs [] st \<Longrightarrow>
    send_command env c (restore_cmd p) st = (Some REPLY_OK, False, st') \<Longrightarrow> acknowledged env c st0 (obs @ p) [] st'"
| ack_append: "acknowledged env c st0 obs pend st \<Longrightarrow>
    acknowledged env c st0 obs (pend @ [ob]) (append_restore env c ob st)"
| ack_reply: "acknowledged env c st0 obs (ob # pend) st \<Longrightarrow>
    ex_get_reply env c (ms_world st) = (True, Some REPLY_OK, w) \<Longrightarrow>
    acknowledged env c st0 (obs @ [ob]) pend (st\<lparr>ms_world := w\<rparr>)"

text \<open>The objects go over one connection to the given server, after \<open>SELECT\<close> of the database, are
  all acknowledged, and nothing is requested after that but the end of the connection.\<close>

definition delivered :: "'w env \<Rightarrow> int \<Rightarrow> slot_mgrt_connet_meta \<Rightarrow> rdb_dump_obj list \<Rightarrow> 'w mstate \<Rightarrow> 'w mstate \<Rightarrow> bool" where
  "delivered env tid meta obs st st' \<longleftrightarrow> (\<exists>conn st1 st2 c st3.
     SlotsMGRT_GetConnCtx env tid meta st = Some (Some conn, st1) \<and>
     select_db env conn (meta_db meta) st1 = Some (True, st2) \<and> conn_of st2 conn = Some c \<and>
     acknowledged env c st2 obs [] st3 \<and> ms_trace st' = ms_trace st3 @ [Disconnect c])"

lemma reply_is_ok: "rr \<noteq> None \<Longrightarrow> rr \<noteq> Some REPLY_ERROR \<Longrightarrow> rr = Some REPLY_OK"
  by (metis option.exhaust redis_reply.exhaust)

lemma send_batches_acknowledged:
  assumes "acknowledged env c st0 obs [] st" "send_batches env c ps st = (True, st')"
  shows "acknowledged env c st0 (obs @ concat ps) [] st'"
  using assms
proof (induction ps arbitrary: obs st)
  case (Cons p ps)
  obtain rr err st1 where s: "send_command env c (restore_cmd p) st = (rr, err, st1)" by (metis prod_cases3)
  then have "\<not> err" "rr = Some REPLY_OK" "send_batches env c ps st1 = (True, st')"
    using Cons.prems(2) reply_is_ok [of rr] by (auto split: if_splits)
  then show ?case using Cons.IH [of "obs @ p" st1] ack_batch [OF Cons.prems(1)] s by simp
qed simp

lemma fetch_replies_acknowledged:
  assumes "acknowledged env c st0 obs (p @ pend) st" "fetch_replies env c (length p) st = (True, st')"
  shows "acknowledged env c st0 (obs @ p) pend st' \<and> ms_conns st' = ms_conns st"
  using assms
proof (induction p arbitrary: obs st)
  case (Cons ob p)
  obtain ok rr w where g: "ex_get_reply env c (ms_world st) = (ok, rr, w)" by (metis prod_cases3)
  then have r: "ok" "rr = Some REPLY_OK" "fetch_replies env c (length p) (st\<lparr>ms_world := w\<rparr>) = (True, st')"
    using Cons.prems(2) reply_is_ok [of rr] by (auto simp: Let_def split: if_splits)
  have "acknowledged env c st0 obs (ob # p @ pend) st" using Cons.prems(1) by simp
  from ack_reply [OF this] have "acknowledged env c st0 (obs @ [ob]) (p @ pend) (st\<lparr>ms_world := w\<rparr>)" using g r(1,2) by simp
  from Cons.IH [OF this r(3)] show ?case by simp
qed simp

lemma split_replies_acknowledged:
  assumes "acknowledged env c st0 (take a obs) (drop a obs) st" "conn_of st conn = Some c" "a \<le> length obs"
    and "doSplitPipelineGetReply env conn a (length obs) st = Some (ret, st')" "ret \<noteq> SLOTS_MGRT_ERR"
  shows "acknowledged env c st0 obs [] st' \<and> ms_conns st' = ms_conns st"
proof (cases "a = length obs")
  case True
  then show ?thesis using assms by (auto simp: doSplitPipelineGetReply_def)
next
  case False
  then have "fetch_replies env c (length (drop a obs)) st = (True, st')"
    using assms by (auto simp: doSplitPipelineGetReply_def split: prod.splits if_splits)
  from fetch_replies_acknowledged [where pend = "[]", OF _ this] assms(1) show ?thesis by fastforce
qed

lemma conn_of_append [simp]: "conn_of (append_restore env c ob st) = conn_of st"
  by (simp add: append_restore_def log_request_def conn_of_def fun_eq_iff Let_def)

lemma pipeline_loop_acknowledged:
  assumes "acknowledged env c st0 (take a obs) (drop a obs) st" "conn_of st conn = Some c" "a \<le> length obs"
    and "pipeline_loop env conn (length obs) (map Some obs') sz a st = Some (True, b, st')"
  shows "acknowledged env c st0 (take b (obs @ obs')) (drop b (obs @ obs')) st' \<and> b \<le> length (obs @ obs') \<and>
    conn_of st' conn = Some c"
  using assms
proof (induction obs' arbitrary: obs a sz st)
  case (Cons ob obs')
  obtain sz2 a1 st1 where s: "acknowledged env c st0 (take a1 obs) (drop a1 obs) st1" "conn_of st1 conn = Some c" "a1 \<le> length obs"
    and r: "pipeline_loop env conn (length (obs @ [ob])) (map Some obs') sz2 a1 (append_restore env c ob st1) = Some (True, b, st')"
  proof (cases "sz > MGRT_CMD_PARAMS_SIZE")
    case True
    then obtain ret st1 as c' where "doSplitPipelineGetReply env conn a (length obs) st = Some (ret, st1)" "ret \<noteq> SLOTS_MGRT_ERR"
      "conn_of st1 conn = Some c'"
      "pipeline_loop env conn (Suc (length obs)) (map Some obs') (args_size as) (length obs) (append_restore env c' ob st1) =
        Some (True, b, st')"
      using Cons.prems(4) by (auto split: bind_splits if_splits)
    moreover from this have "acknowledged env c st0 obs [] st1" "conn_of st1 conn = Some c"
      using split_replies_acknowledged [OF Cons.prems(1-3)] Cons.prems(2) by (auto simp: conn_of_def)
    ultimately show thesis using that [of "length obs" st1] by simp
  next
    case False
    then obtain as where "pipeline_loop env conn (Suc (length obs)) (map Some obs') (sz + args_size as) a (append_restore env c ob st) =
        Some (True, b, st')"
      using Cons.prems(2,4) by (auto split: bind_splits)
    then show thesis using that [of a st] Cons.prems(1-3) by simp
  qed
  have "acknowledged env c st0 (take a1 (obs @ [ob])) (drop a1 (obs @ [ob])) (append_restore env c ob st1)"
    using ack_append [of env c st0 "take a1 obs" "drop a1 obs" st1 ob] s by simp
  from Cons.IH [OF this _ _ r] s show ?case by simp
qed simp

lemma Pipeline_acknowledged:
  assumes "conn_of st conn = Some c" "obs \<noteq> []"
    and "Pipeline_SlotsRestore env conn (map Some obs) (length obs) st = Some (int (length obs), st')"
  shows "\<exists>st1. acknowledged env c st obs [] st1 \<and> ms_trace st' = ms_trace st1 \<and> conn_of st' conn = Some c"
proof -
  obtain b st1 r where l: "pipeline_loop env conn 0 (map Some obs) 0 0 st = Some (True, b, st1)"
    "doSplitPipelineGetReply env conn b (length obs) st1 = Some (r, st')" "r \<noteq> SLOTS_MGRT_ERR"
    using assms(2,3) by (auto simp: Pipeline_SlotsRestore_def SLOTS_MGRT_ERR_def split: bind_splits if_splits)
  have "acknowledged env c st (take 0 []) (drop 0 []) st" by (simp add: ack_start)
  from pipeline_loop_acknowledged [OF this assms(1), of obs 0 b st1] l(1)
  have p: "acknowledged env c st (take b obs) (drop b obs) st1" "b \<le> length obs" "conn_of st1 conn = Some c" by simp_all
  from split_replies_acknowledged [OF p(1,3,2) l(2,3)] show ?thesis using p(3) by (auto simp: conn_of_def)
qed

lemma Batch_acknowledged:
  assumes "conn_of st conn = Some c" "\<forall>ob \<in> set obs. sendable ob"
    and "BatchSend_SlotsRestore env conn (map Some obs) (length obs) st = Some (int (length obs), st')"
  shows "\<exists>st1. acknowledged env c st obs [] st1 \<and> ms_trace st' = ms_trace st1 \<and> conn_of st' conn = Some c"
proof -
  let ?r = "send_batches env c (pieces [] obs) st"
  have ok: "fst ?r" and t: "touch_conn env conn (snd ?r) = Some st'"
    using assms(3) unfolding BatchSend_batches [OF assms(1,2)]
    by (auto simp: Let_def SLOTS_MGRT_ERR_def split: if_splits bind_splits)
  have "acknowledged env c st ([] @ concat (pieces [] obs)) [] (snd ?r)"
    by (rule send_batches_acknowledged [OF ack_start]) (use ok in \<open>simp add: prod_eq_iff\<close>)
  moreover have "ms_trace st' = ms_trace (snd ?r)" "conn_of st' conn = conn_of (snd ?r) conn"
    using t by (auto simp: touch_conn_def conn_of_def get_unixtime_def split: prod.splits bind_splits)
  ultimately show ?thesis using conn_of_batches [of env c "pieces [] obs" st conn] assms(1) by (auto simp: pieces_concat)
qed

lemma CloseConn_trace:
  assumes "getConnName tid (host meta) (port meta) = Some name" "conn_of st name = Some c"
    and "SlotsMGRT_CloseConn env tid meta st = Some st'"
  shows "ms_trace st' = ms_trace st @ [Disconnect c]"
  using assms by (auto simp: SlotsMGRT_CloseConn_def conn_of_def log_request_def)

lemma GetConnCtx_name:
  "SlotsMGRT_GetConnCtx env tid meta st = Some (Some name, st') \<Longrightarrow> getConnName tid (host meta) (port meta) = Some name"
  by (auto simp: SlotsMGRT_GetConnCtx_def Let_def split: bind_splits prod.splits option.splits if_splits)

abbreviation mgrt_meta :: "int \<Rightarrow> string \<Rightarrow> string \<Rightarrow> int \<Rightarrow> slot_mgrt_connet_meta" where
  "mgrt_meta db h p timeout \<equiv>
     \<lparr>meta_db = db, host = h, port = p, tv_sec = timeout sdiv 1000, tv_usec = (timeout smod 1000) * 1000\<rparr>"

lemma MGRT_delivers:
  assumes "MGRT env tid db h p timeout (map Some obs) (length obs) ty st = Some (int (length obs), st')"
    and "\<forall>ob \<in> set obs. sendable ob" "obs \<noteq> []" "slots_mgrt_threads (g_slots_meta_info (ms_slots st)) \<le> 0"
  shows "delivered env tid (mgrt_meta db h p timeout) obs st st'"
proof -
  let ?meta = "mgrt_meta db h p timeout"
  have ne: "int (length obs) \<noteq> SLOTS_MGRT_ERR" by (simp add: SLOTS_MGRT_ERR_def)
  obtain name st1 ok st2 where g: "SlotsMGRT_GetConnCtx env tid ?meta st = Some (Some name, st1)"
    "select_db env name db st1 = Some (ok, st2)"
    using assms(1,4) ne by (auto simp: MGRT_def Let_def split: bind_splits option.splits if_splits)
  then have ok: "ok" using assms(1,4) ne by (auto simp: MGRT_def Let_def split: bind_splits if_splits)
  let ?w = "with_pipeline ty \<and> \<not> async (g_slots_meta_info (ms_slots st2))"
  obtain st3 where s: "(if ?w then Pipeline_SlotsRestore env name (map Some obs) (length obs) st2
      else BatchSend_SlotsRestore env name (map Some obs) (length obs) st2) = Some (int (length obs), st3)"
    "SlotsMGRT_CloseConn env tid ?meta st3 = Some st'"
    using assms(1,4) g ok by (auto simp: MGRT_def Let_def split: bind_splits)
  obtain c where "conn_of st1 name = Some c" using g(2) by (auto simp: select_db_def split: bind_splits)
  then have c: "conn_of st2 name = Some c"
    using g(2) conn_of_send [of env c "[''SELECT'', show_int db]" st1 name] by (auto simp: select_db_def split: prod.splits)
  have "\<exists>st4. acknowledged env c st2 obs [] st4 \<and> ms_trace st3 = ms_trace st4 \<and> conn_of st3 name = Some c"
  proof (cases ?w)
    case True
    then have "Pipeline_SlotsRestore env name (map Some obs) (length obs) st2 = Some (int (length obs), st3)"
      using s(1) by (metis (no_types, lifting))
    from Pipeline_acknowledged [OF c assms(3) this] show ?thesis .
  next
    case False
    then have "BatchSend_SlotsRestore env name (map Some obs) (length obs) st2 = Some (int (length obs), st3)"
      using s(1) by (metis (no_types, lifting))
    from Batch_acknowledged [OF c assms(2) this] show ?thesis .
  qed
  then obtain st4 where a: "acknowledged env c st2 obs [] st4" "ms_trace st3 = ms_trace st4" "conn_of st3 name = Some c" by blast
  have "ms_trace st' = ms_trace st4 @ [Disconnect c]"
    using CloseConn_trace [OF _ a(3) s(2)] GetConnCtx_name [OF g(1)] a(2) by simp
  then show ?thesis using g ok c a(1) unfolding delivered_def
    by (intro exI [of _ name] exI [of _ st1] exI [of _ st2] exI [of _ c] exI [of _ st4]) simp
qed

section \<open>Dumping all keys\<close>

text \<open>\<open>DUMP\<close> and \<open>PTTL\<close> of a key that exists, as Redis documents them.\<close>

definition dumps :: "'w env \<Rightarrow> ('w \<Rightarrow> int \<Rightarrow> string set) \<Rightarrow> bool" where
  "dumps env K \<longleftrightarrow> (\<forall>db key w. key \<in> K w db \<longrightarrow>
     (\<exists>v w1. ex_call env db [''DUMP'', key] w = (Some (RString v), [], w1) \<and> K w1 = K w) \<and>
     (\<exists>ttl w2. ex_call env db [''PTTL'', key] w = (Some (RInteger ttl), [], w2) \<and> is_llong ttl \<and> K w2 = K w))"

definition is_unlink :: "request \<Rightarrow> bool" where
  "is_unlink rq \<longleftrightarrow> (\<exists>db key. rq = Call db [''UNLINK'', key])"

text \<open>Nothing of the index and the databases changes, and no key is unlinked.\<close>

definition keeps :: "('w \<Rightarrow> 'k) \<Rightarrow> 'w mstate \<Rightarrow> 'w mstate \<Rightarrow> bool" where
  "keeps K st st' \<longleftrightarrow> ms_slots st' = ms_slots st \<and> K (ms_world st') = K (ms_world st) \<and>
     (\<exists>rs. ms_trace st' = ms_trace st @ rs \<and> (\<forall>rq \<in> set rs. \<not> is_unlink rq))"

lemma keeps_refl: "keeps K st st"
  by (simp add: keeps_def)

lemma keeps_trans: "keeps K st st1 \<Longrightarrow> keeps K st1 st2 \<Longrightarrow> keeps K st st2"
  unfolding keeps_def by (metis (no_types, lifting) UnE append.assoc set_append)

lemma sends_keeps: "sends K st st' \<Longrightarrow> keeps K st st'"
  by (auto simp: sends_def keeps_def is_call_def is_unlink_def)

lemma keeps_vals [simp]: "keeps K st (st'\<lparr>ms_vals := v\<rparr>) = keeps K st st'"
  by (simp add: keeps_def)

lemma quiet_call:
  assumes "ex_call env db cmd (ms_world st) = (r, [], w)" "K w = K (ms_world st)" "\<not> is_unlink (Call db cmd)"
  shows "\<exists>st'. server_call env db cmd st = Some (r, st') \<and> keeps K st st' \<and> ms_vals st' = ms_vals st"
proof -
  let ?st = "(log_request (Call db cmd) st)\<lparr>ms_slots := ms_slots st, ms_world := w\<rparr>"
  have "server_call env db cmd st = Some (r, ?st)"
    using assms(1) by (simp add: server_call_def notified_def log_request_def)
  moreover have "keeps K st ?st" using assms(2,3) by (auto simp: keeps_def log_request_def)
  ultimately show ?thesis by (auto simp: log_request_def)
qed

lemma dumpObj_ok:
  assumes d: "dumps env K" and key: "key \<in> K (ms_world st) db"
  shows "\<exists>ob st'. dumpObj env db key st = Some (1, Some ob, st') \<and> keeps K st st' \<and> obj_key ob = key \<and> sendable ob \<and>
    ms_vals st' = ms_vals st + {#obj_val ob#}"
proof -
  obtain v w1 where "ex_call env db [''DUMP'', key] (ms_world st) = (Some (RString v), [], w1)" "K w1 = K (ms_world st)"
    using d key unfolding dumps_def by blast
  from quiet_call [where K = K, OF this] obtain st1 where st1: "server_call env db [''DUMP'', key] st = Some (Some (RString v), st1)"
    "keeps K st st1" "ms_vals st1 = ms_vals st" by (auto simp: is_unlink_def)
  let ?st = "st1\<lparr>ms_vals := ms_vals st1 + {#v#}\<rparr>"
  have "key \<in> K (ms_world ?st) db" using st1(2) key by (simp add: keeps_def)
  then obtain ttl w2 where t: "ex_call env db [''PTTL'', key] (ms_world ?st) = (Some (RInteger ttl), [], w2)" "is_llong ttl"
    "K w2 = K (ms_world ?st)" using d unfolding dumps_def by blast
  from quiet_call [where K = K, OF t(1,3)] obtain st2 where st2: "server_call env db [''PTTL'', key] ?st = Some (Some (RInteger ttl), st2)"
    "keeps K ?st st2" "ms_vals st2 = ms_vals ?st" by (auto simp: is_unlink_def)
  have "keeps K st ?st" using st1(2) by simp
  from keeps_trans [OF this st2(2)] show ?thesis using st1 st2(1,3) t(2) by (simp add: dumpObj_def sendable_def)
qed

lemma dump_loop_ok:
  assumes d: "dumps env K" and keys: "set keys \<subseteq> K (ms_world st) db"
  shows "\<exists>obs st'. dump_loop env db keys j st = Some (j + int (length keys), map Some obs, st') \<and> keeps K st st' \<and>
    map obj_key obs = keys \<and> (\<forall>ob \<in> set obs. sendable ob) \<and> ms_vals st' = ms_vals st + values_of obs"
  using keys
proof (induction keys arbitrary: j st)
  case Nil
  then show ?case by (simp add: keeps_refl)
next
  case (Cons key keys)
  obtain ob st1 where o: "dumpObj env db key st = Some (1, Some ob, st1)" "keeps K st st1" "obj_key ob = key" "sendable ob"
    "ms_vals st1 = ms_vals st + {#obj_val ob#}" using dumpObj_ok [OF d, of key st db] Cons.prems by auto
  have "set keys \<subseteq> K (ms_world st1) db" using Cons.prems o(2) by (simp add: keeps_def)
  from Cons.IH [OF this, of "j + 1"] obtain obs st2 where
    r: "dump_loop env db keys (j + 1) st1 = Some (j + 1 + int (length keys), map Some obs, st2)" "keeps K st1 st2"
      "map obj_key obs = keys" "\<forall>ob \<in> set obs. sendable ob" "ms_vals st2 = ms_vals st1 + values_of obs" by blast
  show ?case
    by (rule exI [of _ "ob # obs"], rule exI [of _ st2])
      (use o r keeps_trans [OF o(2) r(2)] in \<open>auto simp: SLOTS_MGRT_ERR_def SLOTS_MGRT_NOTHING_def\<close>)
qed

section \<open>The whole migration\<close>

lemma delKeys_trace:
  assumes "delKeys env db keys ret st = Some (r, st')" "r \<noteq> SLOTS_MGRT_ERR"
  shows "ms_trace st' = ms_trace st @ map (\<lambda>key. Call db [''UNLINK'', key]) keys \<and> ms_vals st' = ms_vals st"
  using assms
proof (induction keys arbitrary: ret st)
  case (Cons key keys)
  obtain rep st1 where c: "server_call env db [''UNLINK'', key] st = Some (rep, st1)"
    using Cons.prems(1) by (auto split: bind_splits)
  note f = server_call_frame [OF c]
  have "\<exists>ret'. delKeys env db keys ret' st1 = Some (r, st')"
    using Cons.prems c by (auto split: option.splits call_reply.splits)
  then show ?case using Cons.IH Cons.prems(2) f by fastforce
qed simp

lemma follows_keeps: "follows env K L st \<Longrightarrow> keeps K st st' \<Longrightarrow> follows env K L st'"
  by (simp add: follows_def keeps_def)

lemma follows_vals [simp]: "follows env K L (st\<lparr>ms_vals := v\<rparr>) = follows env K L st"
  by (simp add: follows_def)

lemma migrateKeys_outcome:
  assumes c: "cmp_ok (ex_cmp env)" and s: "unlinks env K" "dumps env K" "remote env K"
    and f: "follows env K L st" and db: "0 \<le> db" "db < num_dbs (ms_slots st)"
    and keys: "keys \<noteq> []" "set keys \<subseteq> K (ms_world st) db"
    and th: "slots_mgrt_threads (g_slots_meta_info (ms_slots st)) \<le> 0" "slots_dump_threads (g_slots_meta_info (ms_slots st)) \<le> 0"
    and tid: "is_llong tid" and p: "c_atoi p \<noteq> None"
  obtains r st' obs st1 st2 ret where "migrateKeys env tid db h p timeout keys ty st = Some (r, st')"
    "dump_loop env db keys 0 st = Some (int (length keys), map Some obs, st1)" "map obj_key obs = keys"
    "\<forall>ob \<in> set obs. sendable ob"
    "MGRT env tid db h p timeout (map Some obs) (length obs) ty st1 = Some (ret, st2)"
    "keeps K st (st2\<lparr>ms_vals := ms_vals st\<rparr>)"
    "ret = SLOTS_MGRT_ERR \<and> r = SLOTS_MGRT_ERR \<and> st' = st2\<lparr>ms_vals := ms_vals st\<rparr> \<or>
     ret = int (length keys) \<and> r = int (length keys) \<and> deletes env K L db (set keys) (st2\<lparr>ms_vals := ms_vals st\<rparr>) st' \<and>
       ms_trace st' = ms_trace st2 @ map (\<lambda>key. Call db [''UNLINK'', key]) keys"
    "ret \<noteq> SLOTS_MGRT_ERR \<longrightarrow> delKeys env db keys 0 (st2\<lparr>ms_vals := ms_vals st\<rparr>) = Some (r, st')"
    "keeps K st st1"
proof -
  obtain obs st1 where d: "dump_loop env db keys 0 st = Some (0 + int (length keys), map Some obs, st1)" "keeps K st st1"
    "map obj_key obs = keys" "\<forall>ob \<in> set obs. sendable ob" "ms_vals st1 = ms_vals st + values_of obs"
    using dump_loop_ok [OF s(2) keys(2)] by blast
  have n: "length obs = length keys" using d(3) by (metis length_map)
  have th1: "slots_mgrt_threads (g_slots_meta_info (ms_slots st1)) \<le> 0" using th(1) d(2) by (simp add: keeps_def)
  obtain ret st2 where m: "MGRT env tid db h p timeout (map Some obs) (length obs) ty st1 = Some (ret, st2)" "sends K st1 st2"
    "ret \<in> {SLOTS_MGRT_ERR, int (length obs)}" using MGRT_ok [OF s(3) tid p d(4) th1] by blast
  let ?st = "st2\<lparr>ms_vals := ms_vals st\<rparr>"
  have fr: "FreeDumpObjs (map Some obs) (int (length keys)) st2 = Some ?st"
    using FreeDumpObjs_all [of obs st2] m(2) d(5) n by (simp add: sends_def)
  have k: "keeps K st ?st" using keeps_trans [OF d(2) sends_keeps [OF m(2)]] by simp
  have ne: "int (length keys) \<noteq> 0" "int (length keys) \<noteq> - 1" using keys(1) by simp_all
  have eq: "migrateKeys env tid db h p timeout keys ty st =
      (if ret = SLOTS_MGRT_ERR then Some (ret, ?st) else delKeys env db keys 0 ?st)"
    using keys(1) th(2) d(1) m(1,3) fr n ne
    by (auto simp: migrateKeys_def getRdbDumpObjs_def SLOTS_MGRT_ERR_def SLOTS_MGRT_NOTHING_def)
  show thesis
  proof (cases "ret = SLOTS_MGRT_ERR")
    case True
    then show thesis using that [of ret ?st obs st1 ret st2] eq d m k by simp
  next
    case False
    have f2: "follows env K L ?st" "num_dbs (ms_slots ?st) = num_dbs (ms_slots st)"
      using follows_keeps [OF f k] k by (simp_all add: keeps_def)
    obtain st' where st': "delKeys env db keys 0 ?st = Some (0 + int (length keys), st')" "deletes env K L db (set keys) ?st st'"
      using delKeys_deletes [OF c s(1) f2(1) db(1)] db(2) f2(2) by metis
    have "0 + int (length keys) \<noteq> SLOTS_MGRT_ERR" by (simp add: SLOTS_MGRT_ERR_def)
    from delKeys_trace [OF st'(1) this] have "ms_trace st' = ms_trace st2 @ map (\<lambda>key. Call db [''UNLINK'', key]) keys" by simp
    then show thesis using that [of "int (length keys)" st' obs st1 ret st2] False eq d m k st' n by simp
  qed
qed

section \<open>Properties\<close>

text \<open>C10: A migration of keys that exist is all or nothing. All keys are dumped. When sending
  ends with an error, the answer is an error, no key has been unlinked and the index is as before.
  Otherwise the dumps of all keys have been sent in order over one connection after \<open>SELECT\<close> of
  the database, in batches or through the pipeline, and each has been acknowledged by a reply
  that is there and no error; only then, with the connection closed, is every key unlinked, the
  answer is their number, and exactly these keys are gone from the index. The values of the
  dumps are freed in both cases.\<close>

theorem migrateKeys_all_or_nothing:
  assumes "cmp_ok (ex_cmp env)" and "unlinks env K" and "dumps env K" and "remote env K"
    and "follows env K L st" and "0 \<le> db" and "db < num_dbs (ms_slots st)"
    and "keys \<noteq> []" and "set keys \<subseteq> K (ms_world st) db"
    and "slots_mgrt_threads (g_slots_meta_info (ms_slots st)) \<le> 0" and "slots_dump_threads (g_slots_meta_info (ms_slots st)) \<le> 0"
    and "is_llong tid" and "c_atoi p \<noteq> None"
  shows "\<exists>obs st1 ret st2 r st' rs. getRdbDumpObjs env db keys st = Some (int (length keys), map Some obs, st1) \<and>
    map obj_key obs = keys \<and> MGRT env tid db h p timeout (map Some obs) (length obs) ty st1 = Some (ret, st2) \<and>
    migrateKeys env tid db h p timeout keys ty st = Some (r, st') \<and> follows env K L st' \<and>
    ms_vals st' = ms_vals st \<and> (\<forall>rq \<in> set rs. \<not> is_unlink rq) \<and> ms_trace st2 = ms_trace st @ rs \<and>
    (ret = SLOTS_MGRT_ERR \<and> r = SLOTS_MGRT_ERR \<and> ms_trace st' = ms_trace st2 \<and> index (ms_slots st') = index (ms_slots st) \<or>
     ret = int (length keys) \<and> r = int (length keys) \<and> delivered env tid (mgrt_meta db h p timeout) obs st1 st2 \<and>
       ms_trace st' = ms_trace st2 @ map (\<lambda>key. Call db [''UNLINK'', key]) keys \<and>
       index (ms_slots st') = (index (ms_slots st))(db := index (ms_slots st) db - set keys))"
proof -
  obtain r st' obs st1 st2 ret where o: "migrateKeys env tid db h p timeout keys ty st = Some (r, st')"
    "dump_loop env db keys 0 st = Some (int (length keys), map Some obs, st1)" "map obj_key obs = keys"
    "MGRT env tid db h p timeout (map Some obs) (length obs) ty st1 = Some (ret, st2)"
    "keeps K st (st2\<lparr>ms_vals := ms_vals st\<rparr>)"
    "ret = SLOTS_MGRT_ERR \<and> r = SLOTS_MGRT_ERR \<and> st' = st2\<lparr>ms_vals := ms_vals st\<rparr> \<or>
     ret = int (length keys) \<and> r = int (length keys) \<and> deletes env K L db (set keys) (st2\<lparr>ms_vals := ms_vals st\<rparr>) st' \<and>
       ms_trace st' = ms_trace st2 @ map (\<lambda>key. Call db [''UNLINK'', key]) keys"
    "\<forall>ob \<in> set obs. sendable ob" "keeps K st st1"
    by (rule migrateKeys_outcome [OF assms, of h timeout ty])
  have n: "length obs = length keys" "obs \<noteq> []" using o(3) assms(8) by auto
  have "slots_mgrt_threads (g_slots_meta_info (ms_slots st1)) \<le> 0" using o(8) assms(10) by (simp add: keeps_def)
  then have del: "ret = int (length keys) \<longrightarrow> delivered env tid (mgrt_meta db h p timeout) obs st1 st2"
    using MGRT_delivers [of env tid db h p timeout obs ty st1 st2] o(4,7) n by simp
  have g: "getRdbDumpObjs env db keys st = Some (int (length keys), map Some obs, st1)"
    using o(2) assms(8,11) by (simp add: getRdbDumpObjs_def)
  obtain rs where rs: "ms_trace st2 = ms_trace st @ rs" "\<forall>rq \<in> set rs. \<not> is_unlink rq" and
    same: "ms_slots st2 = ms_slots st" "K (ms_world st2) = K (ms_world st)" using o(5) by (auto simp: keeps_def)
  have "follows env K L st' \<and> ms_vals st' = ms_vals st \<and>
    (ret = SLOTS_MGRT_ERR \<and> r = SLOTS_MGRT_ERR \<and> ms_trace st' = ms_trace st2 \<and> index (ms_slots st') = index (ms_slots st) \<or>
     ret = int (length keys) \<and> r = int (length keys) \<and>
       ms_trace st' = ms_trace st2 @ map (\<lambda>key. Call db [''UNLINK'', key]) keys \<and>
       index (ms_slots st') = (index (ms_slots st))(db := index (ms_slots st) db - set keys))"
    using o(6)
  proof (elim disjE conjE)
    assume "ret = SLOTS_MGRT_ERR" "r = SLOTS_MGRT_ERR" "st' = st2\<lparr>ms_vals := ms_vals st\<rparr>"
    then show ?thesis using same follows_keeps [OF assms(5) o(5)] by simp
  next
    assume r: "ret = int (length keys)" "r = int (length keys)" "deletes env K L db (set keys) (st2\<lparr>ms_vals := ms_vals st\<rparr>) st'"
      "ms_trace st' = ms_trace st2 @ map (\<lambda>key. Call db [''UNLINK'', key]) keys"
    then have f: "follows env K L st'" "K (ms_world st') = (K (ms_world st))(db := K (ms_world st) db - set keys)"
      "ms_vals st' = ms_vals st" using same by (simp_all add: deletes_def)
    then show ?thesis using r followsD(2) [OF f(1)] followsD(2) [OF assms(5)] by simp
  qed
  then show ?thesis using g o(1,3,4) rs del by blast
qed

lemma demo_contract: "dumps demo_env demo_keys" "remote demo_env demo_keys"
  by (auto simp: dumps_def remote_def demo_env_def demo_keys_def is_llong_def LLONG_MIN_def LLONG_MAX_def split: if_splits)

lemma atoi_6379: "c_atoi ''6379'' = Some 6379"
  by (simp add: c_atoi_def cstr_def c_space_def is_digit_def digit_val_def INT_MAX_def Let_def)

text \<open>The concrete server acknowledges every command.\<close>

lemma demo_batches: "fst (send_batches demo_env c ps st)"
  by (induction ps arbitrary: st) (simp_all add: send_command_def demo_env_def)

lemma demo_MGRT:
  assumes "MGRT demo_env tid db h p timeout (map Some obs) (length obs) None st = Some (ret, st')"
    and "\<forall>ob \<in> set obs. sendable ob" "slots_mgrt_threads (g_slots_meta_info (ms_slots st)) \<le> 0"
  shows "ret = int (length obs)"
proof -
  let ?meta = "mgrt_meta db h p timeout"
  obtain conn st1 where g: "SlotsMGRT_GetConnCtx demo_env tid ?meta st = Some (conn, st1)"
    using assms(1,3) by (auto simp: MGRT_def Let_def split: bind_splits)
  have "ex_connect demo_env h' p' w = (False, 1, w)" for h' p' w by (simp add: demo_env_def)
  then have "conn \<noteq> None"
    using g by (auto simp: SlotsMGRT_GetConnCtx_def Let_def split: bind_splits prod.splits option.splits dest: sym)
  then obtain name where name: "conn = Some name" by blast
  obtain ok st2 where s: "select_db demo_env name db st1 = Some (ok, st2)"
    using assms(1,3) g name by (auto simp: MGRT_def Let_def split: bind_splits)
  then obtain c where c: "conn_of st1 name = Some c" "ok" "conn_of st2 name = Some c"
    using conn_of_send [of demo_env _ "[''SELECT'', show_int db]" st1 name]
    by (auto simp: select_db_def send_command_def demo_env_def split: bind_splits prod.splits)
  obtain st3 where "BatchSend_SlotsRestore demo_env name (map Some obs) (length obs) st2 = Some (ret, st3)"
    using assms(1,3) g name s c(2) by (auto simp: MGRT_def with_pipeline_def Let_def split: bind_splits)
  then show ?thesis
    using demo_batches [of c "pieces [] obs" st2] unfolding BatchSend_batches [OF c(3) assms(2)]
    by (auto simp: Let_def split: bind_splits)
qed

lemma migrateKeys_all_or_nothing_witness:
  "\<exists>st' st1 st2 obs. migrateKeys demo_env 7 0 ''h'' ''6379'' 1000 [''a{t}''] None (demo_mstate [''a{t}'']) = Some (1, st') \<and>
    ms_vals st' = {#} \<and> index (ms_slots st') 0 = {} \<and> map obj_key obs = [''a{t}''] \<and>
    delivered demo_env 7 (mgrt_meta 0 ''h'' ''6379'' 1000) obs st1 st2 \<and>
    ms_trace st' = ms_trace st2 @ [Call 0 [''UNLINK'', ''a{t}'']]"
proof -
  let ?st = "demo_mstate [''a{t}'']"
  have s: "ms_slots ?st = demo_state" "ms_world ?st = [''a{t}'']" "ms_vals ?st = {#}" by (simp_all add: demo_mstate_def)
  have pre: "(0 :: int) \<le> 0" "0 < num_dbs (ms_slots ?st)" "[''a{t}''] \<noteq> []" "set [''a{t}''] \<subseteq> demo_keys (ms_world ?st) 0"
    "slots_mgrt_threads (g_slots_meta_info (ms_slots ?st)) \<le> 0" "slots_dump_threads (g_slots_meta_info (ms_slots ?st)) \<le> 0"
    "is_llong 7" "c_atoi ''6379'' \<noteq> None"
    by (simp_all add: s demo_state demo_threads demo_keys_def is_llong_def LLONG_MIN_def LLONG_MAX_def atoi_6379)
  obtain r st' obs st1 st2 ret where o: "migrateKeys demo_env 7 0 ''h'' ''6379'' 1000 [''a{t}''] None ?st = Some (r, st')"
    "dump_loop demo_env 0 [''a{t}''] 0 ?st = Some (int (length [''a{t}'']), map Some obs, st1)"
    "MGRT demo_env 7 0 ''h'' ''6379'' 1000 (map Some obs) (length obs) None st1 = Some (ret, st2)"
    "\<forall>ob \<in> set obs. sendable ob" "keeps demo_keys ?st st1" "map obj_key obs = [''a{t}'']"
    "ret \<noteq> SLOTS_MGRT_ERR \<longrightarrow> r \<noteq> SLOTS_MGRT_ERR"
  proof (rule migrateKeys_outcome [OF demo_unlinks(2,1) demo_contract demo_follows pre, of "''h''" 1000 None], goal_cases)
    case (1 r st' obs st1 st2 ret)
    then show ?case by (intro 1(1) [of r st' obs st1 ret st2]) (auto simp: SLOTS_MGRT_ERR_def)
  qed
  have "ret = 1"
    using demo_MGRT [OF o(3,4)] o(5,6) pre(5) by (simp add: keeps_def) (metis length_map length_Cons list.size(3) of_nat_1)
  then have r: "r \<noteq> SLOTS_MGRT_ERR" using o(7) by (simp add: SLOTS_MGRT_ERR_def)
  have "r' = r" if "migrateKeys demo_env 7 0 ''h'' ''6379'' 1000 [''a{t}''] None ?st = Some (r', st'')" for r' st''
    using that o(1) by simp
  then obtain st' st1' st2' obs' where
    "migrateKeys demo_env 7 0 ''h'' ''6379'' 1000 [''a{t}''] None ?st = Some (int (length [''a{t}'']), st')"
    "map obj_key obs' = [''a{t}'']" "ms_vals st' = ms_vals ?st"
    "delivered demo_env 7 (mgrt_meta 0 ''h'' ''6379'' 1000) obs' st1' st2'"
    "ms_trace st' = ms_trace st2' @ map (\<lambda>key. Call 0 [''UNLINK'', key]) [''a{t}'']"
    "index (ms_slots st') = (index (ms_slots ?st))(0 := index (ms_slots ?st) 0 - set [''a{t}''])"
    using migrateKeys_all_or_nothing [OF demo_unlinks(2,1) demo_contract demo_follows pre, of "''h''" 1000 None] r by metis
  then show ?thesis
    by (intro exI [of _ st'] exI [of _ st1'] exI [of _ st2'] exI [of _ obs']) (simp add: s demo_state(7))
qed

end
