(* ===== verification/PoolProps.thy ===== *)
theory PoolProps
  imports MigrateProps
begin

text \<open>
  Sending with a thread pool: whatever the order in which the tasks run, and whatever threads run
  them, every batch is sent once, on a connection with the right database selected.
\<close>

section \<open>Intervals of the batches\<close>

fun intervals :: "nat \<Rightarrow> rdb_dump_obj list list \<Rightarrow> (nat \<times> nat) list" where
  "intervals k [] = []"
| "intervals k (p # ps) = (k, k + length p) # intervals (k + length p) ps"

lemma length_intervals [simp]: "length (intervals k ps) = length ps"
  by (induction k ps rule: intervals.induct) auto

lemma pool_loop_pieces:
  assumes "\<forall>ob \<in> set obs. sendable ob" and "argv = concat (map args_of (prev @ acc))" and "acc = [] \<longrightarrow> prev = [] "
    and "acc @ obs \<noteq> []"
  shows "\<exists>start out. pool_loop (length prev + length acc) (map Some obs) argv (batch_size acc) (length prev) ps =
      Some (concat (map args_of (prev @ acc @ obs)), start, out) \<and>
    out @ [(start, length prev + length acc + length obs)] = ps @ intervals (length prev) (pieces acc obs)"
  using assms
proof (induction obs arbitrary: prev acc argv ps)
  case Nil
  then show ?case by simp
next
  case (Cons ob obs)
  have ob: "obj_args ob = Some (args_of ob)" "\<forall>ob \<in> set obs. sendable ob"
    using Cons.prems(1) obj_args_eq by auto
  show ?case
  proof (cases "batch_size acc > MGRT_CMD_PARAMS_SIZE")
    case False
    have a: "argv @ args_of ob = concat (map args_of (prev @ (acc @ [ob])))" using Cons.prems(2) by simp
    from Cons.IH [OF ob(2) a, of ps] show ?thesis using False ob(1) by simp
  next
    case True
    have a: "argv @ args_of ob = concat (map args_of ((prev @ acc) @ [ob]))" using Cons.prems(2) by simp
    from Cons.IH [OF ob(2) a, of "ps @ [(length prev, length prev + length acc)]"] show ?thesis using True ob(1)
      by (simp add: add.assoc)
  qed
qed

section \<open>One task\<close>

text \<open>The commands among the requests, each with its connection.\<close>

definition commands_of :: "request list \<Rightarrow> (nat \<times> string list) list" where
  "commands_of tr = concat (map (\<lambda>rq. case rq of Command c cmd \<Rightarrow> [(c, cmd)] | _ \<Rightarrow> []) tr)"

lemma commands_of_append [simp]: "commands_of (tr @ tr') = commands_of tr @ commands_of tr'"
  by (simp add: commands_of_def)

lemma commands_of_simps [simp]:
  "commands_of [] = []" "commands_of [Connect h p] = []" "commands_of [Disconnect c] = []"
  "commands_of [Command c cmd] = [(c, cmd)]"
  by (simp_all add: commands_of_def)

lemma GetConnCtx_commands:
  "SlotsMGRT_GetConnCtx env tid meta st = Some (conn, st') \<Longrightarrow> commands_of (ms_trace st') = commands_of (ms_trace st)"
  by (auto simp: SlotsMGRT_GetConnCtx_def get_unixtime_def log_request_def Let_def
    split: bind_splits option.splits prod.splits if_splits)

lemma CloseConn_commands:
  "SlotsMGRT_CloseConn env tid meta st = Some st' \<Longrightarrow> commands_of (ms_trace st') = commands_of (ms_trace st)"
  by (auto simp: SlotsMGRT_CloseConn_def log_request_def split: bind_splits option.splits)

lemma select_db_commands:
  "conn_of st conn = Some c \<Longrightarrow> select_db env conn db st = Some (ok, st') \<Longrightarrow>
    commands_of (ms_trace st') = commands_of (ms_trace st) @ [(c, [''SELECT'', show_int db])]"
  by (auto simp: select_db_def send_command_def log_request_def split: bind_splits prod.splits)

lemma touch_conn_commands:
  "touch_conn env conn st = Some st' \<Longrightarrow> commands_of (ms_trace st') = commands_of (ms_trace st)"
  by (auto simp: touch_conn_def get_unixtime_def split: bind_splits prod.splits)

lemma send_batches_commands:
  "commands_of (ms_trace (snd (send_batches env c [p] st))) = commands_of (ms_trace st) @ [(c, restore_cmd p)]"
  by (auto simp: send_command_def log_request_def split: prod.splits)

text \<open>What a task that succeeds sends for a batch.\<close>

definition batch_commands :: "int \<Rightarrow> nat \<Rightarrow> rdb_dump_obj list \<Rightarrow> (nat \<times> string list) list" where
  "batch_commands db c p = [(c, [''SELECT'', show_int db]), (c, restore_cmd p)]"

lemma doSplitRestoreCommand_middle:
  assumes c: "conn_of st conn = Some c" and argv: "argv = concat (map args_of (pre @ p @ post))" and p: "p \<noteq> []"
  shows "doSplitRestoreCommand env conn argv (length pre) (length pre + length p) st =
    sent (int (length p)) (send_batches env c [p] st)"
proof -
  have "3 * (length pre + length p) \<le> length argv" unfolding argv length_args by simp
  moreover have "drop (3 * length pre) argv = concat (map args_of p) @ concat (map args_of post)"
    unfolding argv by (simp add: length_args)
  moreover have "take (3 * length p) (concat (map args_of p) @ concat (map args_of post)) = concat (map args_of p)"
    by (simp add: length_args)
  ultimately show ?thesis using c p by (auto simp: doSplitRestoreCommand_def restore_cmd_def sent_def split: prod.splits)
qed

lemma task_ok:
  assumes r: "remote env K" and tid: "is_llong tid" and port: "c_atoi (port meta) \<noteq> None"
    and argv: "argv = concat (map args_of (pre @ p @ post))" and p: "p \<noteq> []"
  shows "\<exists>ret st'. doSplitRestoreCmdTask env meta argv (length pre, length pre + length p) tid st = Some (ret, st') \<and>
    sends K st st' \<and> (ret \<noteq> SLOTS_MGRT_ERR \<longrightarrow>
      (\<exists>c. commands_of (ms_trace st') = commands_of (ms_trace st) @ batch_commands (meta_db meta) c p))"
proof -
  obtain conn st1 where g: "SlotsMGRT_GetConnCtx env tid meta st = Some (conn, st1)" "sends K st st1"
    "\<forall>name. conn = Some name \<longrightarrow> conn_of st1 name \<noteq> None" using GetConnCtx_ok [OF r tid port, of st] by blast
  show ?thesis
  proof (cases conn)
    case None
    then show ?thesis using g by (simp add: doSplitRestoreCmdTask_def)
  next
    case (Some name)
    then obtain c where c: "conn_of st1 name = Some c" using g(3) by blast
    obtain ok st2 where s: "select_db env name (meta_db meta) st1 = Some (ok, st2)" "sends K st1 st2" "conn_of st2 = conn_of st1"
      using select_db_ok [OF r, of st1 name "meta_db meta"] c by auto
    show ?thesis
    proof (cases ok)
      case False
      then show ?thesis using g(1) Some s(1) sends_trans [OF g(2) s(2)] by (simp add: doSplitRestoreCmdTask_def)
    next
      case True
      let ?r = "send_batches env c [p] st2"
      have c2: "conn_of st2 name = Some c" using c s(3) by simp
      note d = doSplitRestoreCommand_middle [OF c2 argv p, of env]
      have "conn_of (snd ?r) name \<noteq> None" using conn_of_batches [of env c "[p]" st2 name] c2 by simp
      from touch_conn_sends [OF r this] obtain st3 where t: "touch_conn env name (snd ?r) = Some st3" "sends K (snd ?r) st3" by blast
      obtain st4 where cl: "SlotsMGRT_CloseConn env tid meta st3 = Some st4" "sends K st3 st4" using CloseConn_ok [OF r tid] by blast
      have "doSplitRestoreCmdTask env meta argv (length pre, length pre + length p) tid st =
          Some (if fst ?r then int (length p) else SLOTS_MGRT_ERR, st4)"
        using g(1) Some s(1) True d t(1) cl(1) by (simp add: doSplitRestoreCmdTask_def sent_def del: send_batches.simps)
      moreover have "sends K st st4"
        using sends_trans [OF g(2) sends_trans [OF s(2) sends_trans [OF send_batches_sends [OF r] sends_trans [OF t(2) cl(2)]]]] .
      moreover have "commands_of (ms_trace st4) = commands_of (ms_trace st) @ batch_commands (meta_db meta) c p"
        using GetConnCtx_commands [OF g(1)] select_db_commands [OF c s(1)] send_batches_commands [of env c p st2]
          touch_conn_commands [OF t(1)] CloseConn_commands [OF cl(1)] by (simp add: batch_commands_def)
      ultimately show ?thesis by blast
    qed
  qed
qed


section \<open>All tasks\<close>

lemma intervals_nth:
  "i < length ps \<Longrightarrow> intervals k ps ! i = (k + length (concat (take i ps)), k + length (concat (take i ps)) + length (ps ! i))"
proof (induction ps arbitrary: k i)
  case (Cons p ps)
  then show ?case by (cases i) auto
qed simp

lemma concat_split: "i < length ps \<Longrightarrow> concat ps = concat (take i ps) @ ps ! i @ concat (drop (Suc i) ps)"
  by (metis append_assoc concat.simps(2) concat_append id_take_nth_drop)

text \<open>The tasks run one after the other in the order of the schedule, each once; when none of their
  results is an error, the commands of each have been sent.\<close>

lemma run_tasks_ok:
  fixes task :: "'p \<Rightarrow> int \<Rightarrow> 'w mstate \<Rightarrow> (int \<times> 'w mstate) option"
  assumes task: "\<And>i tid st. i < length params \<Longrightarrow> is_llong tid \<Longrightarrow> \<exists>ret st'. task (params ! i) tid st = Some (ret, st') \<and>
      sends K st st' \<and> (ret \<noteq> SLOTS_MGRT_ERR \<longrightarrow> (\<exists>c. commands_of (ms_trace st') = commands_of (ms_trace st) @ f c i))"
    and "\<forall>(i, tid) \<in> set sched. i < length params \<and> is_llong tid" and "distinct (map fst sched)" and "length results = length params"
  shows "\<exists>results' st'. run_tasks task params sched results st = Some (results', st') \<and> length results' = length params \<and>
    sends K st st' \<and> (\<forall>i. i \<notin> fst ` set sched \<longrightarrow> results' ! i = results ! i) \<and>
    ((\<forall>i \<in> fst ` set sched. results' ! i \<noteq> SLOTS_MGRT_ERR) \<longrightarrow> (\<exists>cs. length cs = length sched \<and>
      commands_of (ms_trace st') = commands_of (ms_trace st) @ concat (map2 (\<lambda>c (i, tid). f c i) cs sched)))"
  using assms(2-)
proof (induction sched arbitrary: results st)
  case Nil
  then show ?case by (simp add: sends_refl)
next
  case (Cons x sched)
  obtain i tid where x: "x = (i, tid)" by fastforce
  then have i: "i < length params" "is_llong tid" "i \<notin> fst ` set sched" using Cons.prems by auto
  obtain ret st1 where t: "task (params ! i) tid st = Some (ret, st1)" "sends K st st1"
    "ret \<noteq> SLOTS_MGRT_ERR \<longrightarrow> (\<exists>c. commands_of (ms_trace st1) = commands_of (ms_trace st) @ f c i)"
    using task [OF i(1,2)] by blast
  have "\<forall>(i, tid) \<in> set sched. i < length params \<and> is_llong tid" "distinct (map fst sched)"
    "length (results[i := ret]) = length params" using Cons.prems by auto
  from Cons.IH [OF this, of st1] obtain results' st' where
    r: "run_tasks task params sched (results[i := ret]) st1 = Some (results', st')" "length results' = length params"
      "sends K st1 st'" "\<forall>j. j \<notin> fst ` set sched \<longrightarrow> results' ! j = results[i := ret] ! j"
    and cs: "(\<forall>j \<in> fst ` set sched. results' ! j \<noteq> SLOTS_MGRT_ERR) \<longrightarrow> (\<exists>cs. length cs = length sched \<and>
      commands_of (ms_trace st') = commands_of (ms_trace st1) @ concat (map2 (\<lambda>c (i, tid). f c i) cs sched))" by blast
  have run: "run_tasks task params (x # sched) results st = Some (results', st')"
    using x i(1) t(1) r(1) Cons.prems(3) by (simp add: arr_get_def arr_set_def)
  have ret: "results' ! i = ret" using r(4) i Cons.prems(3) by simp
  have "(\<forall>j \<in> fst ` set (x # sched). results' ! j \<noteq> SLOTS_MGRT_ERR) \<longrightarrow> (\<exists>cs. length cs = length (x # sched) \<and>
      commands_of (ms_trace st') = commands_of (ms_trace st) @ concat (map2 (\<lambda>c (i, tid). f c i) cs (x # sched)))"
  proof
    assume "\<forall>j \<in> fst ` set (x # sched). results' ! j \<noteq> SLOTS_MGRT_ERR"
    then have ok: "ret \<noteq> SLOTS_MGRT_ERR" "\<forall>j \<in> fst ` set sched. results' ! j \<noteq> SLOTS_MGRT_ERR" using x ret by auto
    from ok(1) t(3) obtain c where "commands_of (ms_trace st1) = commands_of (ms_trace st) @ f c i" by blast
    moreover from ok(2) cs obtain cs where "length cs = length sched"
      "commands_of (ms_trace st') = commands_of (ms_trace st1) @ concat (map2 (\<lambda>c (i, tid). f c i) cs sched)" by blast
    ultimately show "\<exists>cs. length cs = length (x # sched) \<and>
      commands_of (ms_trace st') = commands_of (ms_trace st) @ concat (map2 (\<lambda>c (i, tid). f c i) cs (x # sched))"
      using x by (intro exI [of _ "c # cs"]) simp
  qed
  then show ?case using run r x sends_trans [OF t(2) r(3)] by auto
qed

text \<open>A pool runs every task it was given once, whatever the order and the threads.\<close>

definition pool_runs_all :: "'w env \<Rightarrow> bool" where
  "pool_runs_all env \<longleftrightarrow> (\<forall>t n w. mset (map fst (fst (ex_pool env t n w))) = mset [0..<n] \<and>
     (\<forall>(i, tid) \<in> set (fst (ex_pool env t n w)). is_llong tid))"

lemma pool_order:
  assumes "pool_runs_all env" "ex_pool env t n w = (order, w')"
  shows "mset (map fst order) = mset [0..<n]" "distinct (map fst order)" "fst ` set order = {0..<n}"
    "\<forall>(i, tid) \<in> set order. i < n \<and> is_llong tid"
proof -
  show perm: "mset (map fst order) = mset [0..<n]" using assms unfolding pool_runs_all_def by (metis fst_conv)
  have tids: "\<forall>(i, tid) \<in> set order. is_llong tid" using assms unfolding pool_runs_all_def by (metis fst_conv)
  show "distinct (map fst order)" using perm by (metis mset_eq_imp_distinct_iff distinct_upt)
  show ids: "fst ` set order = {0..<n}" by (metis perm mset_eq_setD set_map set_upt)
  show "\<forall>(i, tid) \<in> set order. i < n \<and> is_llong tid"
  proof clarify
    fix i tid assume m: "(i, tid) \<in> set order"
    then have "i \<in> fst ` set order" by force
    then show "i < n \<and> is_llong tid" using ids tids m by auto
  qed
qed

lemma pool_task:
  assumes r: "remote env K" and port: "c_atoi (port meta) \<noteq> None" and ps: "[] \<notin> set ps"
    and i: "i < length (intervals 0 ps)" and tid: "is_llong tid"
  shows "\<exists>ret st'. doSplitRestoreCmdTask env meta (concat (map args_of (concat ps))) (intervals 0 ps ! i) tid st = Some (ret, st') \<and>
      sends K st st' \<and> (ret \<noteq> SLOTS_MGRT_ERR \<longrightarrow>
        (\<exists>c. commands_of (ms_trace st') = commands_of (ms_trace st) @ batch_commands (meta_db meta) c (ps ! i)))"
proof -
  have i: "i < length ps" using i by simp
  have "concat (map args_of (concat ps)) = concat (map args_of (concat (take i ps) @ ps ! i @ concat (drop (Suc i) ps)))"
    by (simp only: concat_split [OF i, symmetric])
  from task_ok [OF r tid port this] show ?thesis using ps i by (metis add_0 intervals_nth nth_mem)
qed

text \<open>The pool on the intervals of batches.\<close>

lemma run_pool_ok:
  assumes r: "remote env K" and p: "pool_runs_all env" and port: "c_atoi (port meta) \<noteq> None" and ps: "[] \<notin> set ps"
  shows "\<exists>results order st'. run_pool env t (doSplitRestoreCmdTask env meta (concat (map args_of (concat ps)))) (intervals 0 ps) 0 st =
      Some (results, st') \<and> sends K st st' \<and> mset order = mset ps \<and>
    (SLOTS_MGRT_ERR \<notin> set results \<longrightarrow> (\<exists>cs. length cs = length order \<and>
      commands_of (ms_trace st') = commands_of (ms_trace st) @ concat (map2 (batch_commands (meta_db meta)) cs order)))"
proof -
  obtain order w where pool: "ex_pool env t (length ps) (ms_world st) = (order, w)" by fastforce
  note order = pool_order [OF p pool]
  have "K w = K (ms_world st)" using r pool unfolding remote_def by (metis snd_conv)
  then have s0: "sends K st (st\<lparr>ms_world := w\<rparr>)" by (intro sends_world sends_refl) simp
  from run_tasks_ok [where task = "doSplitRestoreCmdTask env meta (concat (map args_of (concat ps)))" and params = "intervals 0 ps"
      and f = "\<lambda>c i. batch_commands (meta_db meta) c (ps ! i)" and results = "replicate (length ps) 0"
      and st = "st\<lparr>ms_world := w\<rparr>", OF pool_task [OF r port ps], of order]
  obtain results st' where run: "run_tasks (doSplitRestoreCmdTask env meta (concat (map args_of (concat ps)))) (intervals 0 ps) order
        (replicate (length ps) 0) (st\<lparr>ms_world := w\<rparr>) = Some (results, st')" "length results = length ps"
      "sends K (st\<lparr>ms_world := w\<rparr>) st'"
    and cs: "(\<forall>i \<in> fst ` set order. results ! i \<noteq> SLOTS_MGRT_ERR) \<longrightarrow> (\<exists>cs. length cs = length order \<and>
      commands_of (ms_trace st') = commands_of (ms_trace st) @
        concat (map2 (\<lambda>c (i, tid). batch_commands (meta_db meta) c (ps ! i)) cs order))" using order by auto
  let ?sched = "map (\<lambda>(i, tid). ps ! i) order"
  have "?sched = map ((!) ps) (map fst order)" by (simp add: case_prod_unfold)
  then have sched: "mset ?sched = mset ps" using order(1) by (metis map_nth mset_map)
  have "\<exists>cs. length cs = length ?sched \<and>
      commands_of (ms_trace st') = commands_of (ms_trace st) @ concat (map2 (batch_commands (meta_db meta)) cs ?sched)"
    if "SLOTS_MGRT_ERR \<notin> set results"
  proof -
    have "\<forall>i \<in> fst ` set order. results ! i \<noteq> SLOTS_MGRT_ERR"
      using order(3) run(2) that by (metis atLeastLessThan_iff nth_mem)
    with cs obtain cs where "length cs = length order" "commands_of (ms_trace st') = commands_of (ms_trace st) @
        concat (map2 (\<lambda>c (i, tid). batch_commands (meta_db meta) c (ps ! i)) cs order)" by blast
    then show ?thesis by (auto simp: zip_map2 case_prod_unfold comp_def)
  qed
  moreover have "run_pool env t (doSplitRestoreCmdTask env meta (concat (map args_of (concat ps)))) (intervals 0 ps) 0 st =
      Some (results, st')" using pool run(1) by (simp add: run_pool_def)
  ultimately show ?thesis using sched sends_trans [OF s0 run(3)] by blast
qed

section \<open>Properties\<close>

text \<open>C13: Sending with a thread pool returns whatever the pool's order: either every batch has been sent
  once, each by a command right after one that selects the database on the same connection, and the
  answer is the number of objects; or the answer is an error. The index, the dumped values and the
  own server are left alone.\<close>

theorem pool_sends_batches:
  assumes "remote env K" and "pool_runs_all env" and "c_atoi (port meta) \<noteq> None"
    and "obs \<noteq> []" and "\<forall>ob \<in> set obs. sendable ob"
  shows "\<exists>ps sched r st'. concat ps = obs \<and> (\<forall>p \<in> set ps. p \<noteq> [] \<and> batch_size (butlast p) \<le> MGRT_CMD_PARAMS_SIZE) \<and>
    mset sched = mset ps \<and>
    BatchSendWithThreadPool_SlotsRestore env meta (map Some obs) (length obs) st = Some (r, st') \<and> sends K st st' \<and>
    (r = SLOTS_MGRT_ERR \<or> r = int (length obs) \<and> (\<exists>cs. length cs = length sched \<and>
      commands_of (ms_trace st') = commands_of (ms_trace st) @
        concat (map2 (\<lambda>c p. [(c, [''SELECT'', show_int (meta_db meta)]), (c, ''SLOTSRESTORE'' # concat (map args_of p))]) cs sched)))"
proof -
  let ?ps = "pieces [] obs"
  have ps: "concat ?ps = obs" "[] \<notin> set ?ps" "\<forall>p \<in> set ?ps. batch_size (butlast p) \<le> MGRT_CMD_PARAMS_SIZE"
    using pieces_size [of "[]" obs] by (simp_all add: pieces_concat pieces_nonempty)
  obtain start out where l: "pool_loop 0 (map Some obs) [] 0 0 [] = Some (concat (map args_of obs), start, out)"
    "out @ [(start, length obs)] = intervals 0 ?ps"
    using pool_loop_pieces [OF assms(5), of "[]" "[]" "[]" "[]"] assms(4) by auto
  from run_pool_ok [OF assms(1-3) ps(2), of "slots_mgrt_threads (g_slots_meta_info (ms_slots st))" st, unfolded ps(1) l(2) [symmetric]]
  obtain results order st' where
    run: "run_pool env (slots_mgrt_threads (g_slots_meta_info (ms_slots st)))
      (doSplitRestoreCmdTask env meta (concat (map args_of obs))) (out @ [(start, length obs)]) 0 st = Some (results, st')"
    and s: "sends K st st'" "mset order = mset ?ps" "SLOTS_MGRT_ERR \<notin> set results \<longrightarrow> (\<exists>cs. length cs = length order \<and>
      commands_of (ms_trace st') = commands_of (ms_trace st) @ concat (map2 (batch_commands (meta_db meta)) cs order))" by blast
  have "BatchSendWithThreadPool_SlotsRestore env meta (map Some obs) (length obs) st =
      Some (if SLOTS_MGRT_ERR \<in> set results then SLOTS_MGRT_ERR else int (length obs), st')"
    using l(1) run by (simp add: BatchSendWithThreadPool_SlotsRestore_def)
  then show ?thesis using ps s unfolding batch_commands_def restore_cmd_def
    by (intro exI [of _ ?ps] exI [of _ order] exI [of _ "if SLOTS_MGRT_ERR \<in> set results then SLOTS_MGRT_ERR else int (length obs)"]
      exI [of _ st']) auto
qed

lemma demo_pool: "pool_runs_all demo_env"
proof -
  have "is_llong (int (i mod 4))" for i
  proof -
    have "i mod 4 < 4" by simp
    then show ?thesis unfolding is_llong_def LLONG_MIN_def LLONG_MAX_def by linarith
  qed
  then show ?thesis by (auto simp: pool_runs_all_def demo_env_def comp_def)
qed

lemma pool_sends_batches_witness:
  "\<exists>r st'. BatchSendWithThreadPool_SlotsRestore demo_env \<lparr>meta_db = 0, host = ''h'', port = ''6379'', tv_sec = 1, tv_usec = 0\<rparr>
      (map Some demo_objs) 2 (demo_mstate []) = Some (r, st') \<and> (r = - 1 \<or> r = 2) \<and> ms_vals st' = {#}"
proof -
  let ?meta = "\<lparr>meta_db = 0, host = ''h'', port = ''6379'', tv_sec = 1, tv_usec = 0\<rparr>"
  have obs: "demo_objs \<noteq> []" "length demo_objs = 2" by (simp_all add: demo_objs_def)
  have p: "c_atoi (port ?meta) \<noteq> None" by (simp add: atoi_6379)
  from pool_sends_batches [OF demo_contract(2) demo_pool p obs(1) demo_sendable, of "demo_mstate []"] show ?thesis
    unfolding obs(2) sends_def by (auto simp: demo_mstate_def SLOTS_MGRT_ERR_def)
qed


end
