(* ===== verification/TagProps.thy ===== *)
theory TagProps
  imports MigrateProps
begin

text \<open>
  The keys that have a tag in common: which keys \<open>SLOTSMGRTTAGONE\<close> and \<open>SLOTSMGRTTAGSLOT\<close> migrate, and
  what they answer.
\<close>

section \<open>Walking the skip list\<close>

text \<open>From a node on, the members with the score are collected until another score comes.\<close>

lemma collect_from:
  assumes "holds_at z (as1 @ as2) (es1 @ es2)" and "length as1 = length es1" and "list_contents l vs"
  shows "\<exists>l'. collect_tagged z crc (if as2 = [] then None else Some (hd as2)) l = Some l' \<and>
    list_contents l' (vs @ map snd (takeWhile (\<lambda>e. fst e = crc) es2))"
  using assms
proof (induction es2 arbitrary: as1 as2 es1 l vs)
  case Nil
  have "as2 = []" using holds_at_length [OF Nil.prems(1)] Nil.prems(2) by simp
  then show ?case using Nil.prems(3) by (subst collect_tagged.simps) simp
next
  case (Cons e es2)
  have len: "length (as1 @ as2) = length (es1 @ e # es2)" by (rule holds_at_length [OF Cons.prems(1)])
  then obtain x R where x: "as2 = x # R" using Cons.prems(2) by (cases as2) auto
  have rep: "zsl_rep z ((as1 @ [x]) @ R)" and mp: "map (zentry (zs_heap z)) (as1 @ x # R) = map node_entry (es1 @ e # es2)"
    using Cons.prems(1) x by (simp_all add: holds_at_def)
  have "zentry (zs_heap z) x = node_entry e" using mp Cons.prems(2) by simp
  then obtain n where n: "zs_heap z x = Some n" "member n = Some (snd e)" "score n = fst e" by (rule zentry_node)
  have fw: "level_of (zs_heap z) x 0 = Some (lvl (hgt (zs_heap z)) 0 R)"
    "forward (lvl (hgt (zs_heap z)) 0 R) = (if R = [] then None else Some (hd R))"
    using head_forward [OF rep] by simp_all
  show ?case
  proof (cases "fst e = crc")
    case False
    then show ?thesis using n x Cons.prems(3) by (subst collect_tagged.simps) simp
  next
    case True
    obtain l1 where l1: "m_listAddNodeTail (fst l) (snd l) (snd e) = Some l1" "list_contents l1 (vs @ [snd e])"
      using key_queue.enq_law [OF Cons.prems(3), of "snd e"] by (auto simp: list_enq_def)
    have h: "holds_at z ((as1 @ [x]) @ R) ((es1 @ [e]) @ es2)" using Cons.prems(1) x by simp
    have "length (as1 @ [x]) = length (es1 @ [e])" using Cons.prems(2) by simp
    from Cons.IH [OF h this l1(2)] obtain l' where
      l': "collect_tagged z crc (if R = [] then None else Some (hd R)) l1 = Some l'"
        "list_contents l' ((vs @ [snd e]) @ map snd (takeWhile (\<lambda>e. fst e = crc) es2))" by blast
    have "collect_tagged z crc (Some x) l = Some l'"
      using n True l1(1) fw l'(1) by (subst collect_tagged.simps) simp
    then show ?thesis using l'(2) True x by simp
  qed
qed

lemma run_filter:
  assumes "sorted_wrt (\<lambda>e f. fst e \<le> fst f) es" and "\<forall>e \<in> set es. c \<le> fst e"
  shows "takeWhile (\<lambda>e. fst e = c) es = filter (\<lambda>e. fst e = (c :: int)) es"
  using assms
proof (induction es)
  case (Cons e es)
  then have "fst e \<noteq> c \<Longrightarrow> filter (\<lambda>e. fst e = c) es = []" by (fastforce simp: filter_empty_conv)
  then show ?case using Cons by auto
qed simp

abbreviation tag_range :: "int \<Rightarrow> zrangespec" where
  "tag_range c \<equiv> \<lparr>rmin = c, rmax = c, rminex = False, rmaxex = False\<rparr>"

lemma score_in_tag: "score_in (tag_range c) s \<longleftrightarrow> s = c"
  by (auto simp: score_in_def m_zslValueGteMin_def m_zslValueLteMax_def)

text \<open>The search for the first node and the walk from it collect the entries with the score.\<close>

lemma collect_tag:
  assumes z: "zsl_list cmp z es" and len: "length es < 2 ^ 64 - 1" and l: "list_contents l vs"
  shows "\<exists>node l'. m_zslFirstInRange z (tag_range crc) = Some node \<and> collect_tagged z crc node l = Some l' \<and>
    list_contents l' (vs @ map snd (filter (\<lambda>e. fst e = crc) es))"
proof (cases rule: m_zslFirstInRange_at [OF z len, of "tag_range crc", case_names none some])
  case none
  then have "filter (\<lambda>e. fst e = crc) es = []" by (simp add: filter_empty_conv score_in_tag)
  then show ?thesis using none(1) l by (intro exI [of _ None] exI [of _ l]) (subst collect_tagged.simps, simp)
next
  case (some es1 e es2 as1 x as2)
  obtain l' where l': "collect_tagged z crc (Some x) l = Some l'"
    "list_contents l' (vs @ map snd (takeWhile (\<lambda>e. fst e = crc) (e # es2)))"
    using collect_from [OF some(5,6) l, of crc] by auto
  have "sorted_wrt (\<lambda>e f. fst e \<le> fst f) es" using z by (auto simp: zsl_list_def intro: sorted_wrt_scores)
  then have "takeWhile (\<lambda>e. fst e = crc) (e # es2) = filter (\<lambda>e. fst e = crc) (e # es2)"
    using some(2,4) by (intro run_filter) (auto simp: sorted_wrt_append score_in_tag)
  moreover have "filter (\<lambda>e. fst e = crc) es = filter (\<lambda>e. fst e = crc) (e # es2)"
    using some(2,3) by (simp add: score_in_tag filter_empty_conv)
  ultimately have "list_contents l' (vs @ map snd (filter (\<lambda>e. fst e = crc) es))" using l'(2) by presburger
  then show ?thesis using some(1) l'(1) by blast
qed

lemma drain_contents:
  assumes "list_contents l vs"
  shows "\<exists>l'. drain (length vs) l = Some (vs, l') \<and> list_contents l' []"
  using assms
proof (induction vs arbitrary: l)
  case (Cons v vs)
  obtain h n freed hp ad where h: "l_head (snd l) = Some h" "cells (fst l) h = Some n" "l_val n = v"
    "m_listDelNode (fst l) (snd l) h = Some (freed, hp, ad)" "list_contents (hp, ad) vs"
    by (rule contents_head [OF Cons.prems])
  then show ?case using Cons.IH [OF h(5)] by auto
qed simp

section \<open>The keys of a tag\<close>

definition tag_keys :: "(string \<Rightarrow> slot_num) \<Rightarrow> string \<Rightarrow> string set \<Rightarrow> string set" where
  "tag_keys num key ks = {k \<in> ks. sn_hastag (num k) \<and> sn_crc (num k) = sn_crc (num key)}"

lemma same_crc_slot: "sn_crc (slots_num tab sz k) = sn_crc (slots_num tab sz key) \<Longrightarrow>
    sn_slot (slots_num tab sz k) = sn_slot (slots_num tab sz key)"
  by (simp add: slots_num_eq)

lemma tag_keys_slot: "tag_keys (slots_num tab sz) key ks \<subseteq> slot_keys (slots_num tab sz) (sn_slot (slots_num tab sz key)) ks"
  by (auto simp: tag_keys_def slot_keys_def intro: same_crc_slot)

lemma tagged_filter:
  assumes "set es = tagged_entries num ks"
  shows "snd ` set (filter (\<lambda>e. fst e = uint (sn_crc (num key))) es) = tag_keys num key ks"
proof -
  have "k \<in> snd ` {e \<in> set es. fst e = uint (sn_crc (num key))} \<longleftrightarrow> k \<in> tag_keys num key ks" for k
  proof -
    have "k \<in> snd ` {e \<in> set es. fst e = uint (sn_crc (num key))} \<longleftrightarrow> (uint (sn_crc (num key)), k) \<in> set es"
      by force
    also have "\<dots> \<longleftrightarrow> k \<in> tag_keys num key ks"
      unfolding assms tagged_entries_def tag_entry_def tag_keys_def by (auto simp: image_iff word_uint_eq_iff)
    finally show ?thesis .
  qed
  then show ?thesis by auto
qed

lemma c_int_small: "n < 2 ^ 31 \<Longrightarrow> c_int (int n) = int n"
  unfolding c_int_def by (subst signed_of_int) (simp add: signed_take_bit_int_eq_self)

text \<open>The keys that are migrated for a tagged key: all that have its checksum.\<close>

lemma TagKeys_choice:
  assumes c: "cmp_ok (ex_cmp env)" and f: "follows env K L st" and db: "0 \<le> db" "db < num_dbs (ms_slots st)"
    and tag: "sn_hastag (key_num (ms_slots st) key)" and card: "card (K (ms_world st) db) < 2 ^ 31"
    and key: "key \<in> K (ms_world st) db"
  obtains keys where "keys \<noteq> []" "distinct keys" "set keys = tag_keys (key_num (ms_slots st)) key (K (ms_world st) db)"
    "SlotsMGRT_TagKeys env tid db h p timeout key ty st = do {
       (ret, st') \<leftarrow> migrateKeys env tid db h p timeout keys ty st;
       left \<leftarrow> slot_left db (sn_slot (key_num (ms_slots st) key)) st';
       Some (ret, left, st') }"
proof -
  let ?num = "key_num (ms_slots st)"
  let ?crc = "uint (sn_crc (?num key))"
  note i = followsD [OF f]
  note sl = slot_in_range [OF i(1), of key]
  obtain d where d: "get_table (ms_slots st) db (sn_slot (?num key)) = Some d"
    "dictSize d = card (slot_keys ?num (sn_slot (?num key)) (K (ms_world st) db))"
    using follows_table [OF f db sl(2)] sl(3) by metis
  have "finite (slot_keys ?num (sn_slot (?num key)) (K (ms_world st) db))" using i(4) by (simp add: slot_keys_def)
  then have ne: "dictSize d \<noteq> 0" using d(2) key by (auto simp: slot_keys_def)
  obtain dbs dbi where b: "db_slot_infos (ms_slots st) = Some dbs" "nat db < length dbs" "dbs ! nat db = dbi"
    "get_db (ms_slots st) db = Some dbi" "db_ok (ex_cmp env) ?num (slots_size (ms_slots st)) dbi"
    by (rule db_range [OF i(1) db])
  have ix: "db_keys dbi = K (ms_world st) db" using b(4) i(2) by (metis index_def option.simps(5))
  obtain es where es: "zsl_list (ex_cmp env) (tagged_key_list dbi) es" "set es = tagged_entries ?num (K (ms_world st) db)"
    using b(5) ix by (auto simp: db_ok_def db_list_ok_def)
  have dist: "distinct es" using es(1) sorted_distinct [OF c] by (auto simp: zsl_list_def)
  have inj: "inj_on snd (set es)" unfolding es(2) by (auto simp: inj_on_def tagged_entries_def tag_entry_def)
  have "card (set es) \<le> card (K (ms_world st) db)"
    using es(2) i(4) inj by (intro card_inj_on_le [where f = snd]) (auto simp: tagged_entries_def tag_entry_def)
  then have len: "length es < 2 ^ 31" using card distinct_card [OF dist] by simp
  obtain keys where keys: "map snd (filter (\<lambda>e. fst e = ?crc) es) = keys" by blast
  have "length es < 2 ^ 64 - 1" using len by simp
  from collect_tag [OF es(1) this contents_empty_list, of ?crc] obtain node l where
    l: "m_zslFirstInRange (tagged_key_list dbi) (tag_range ?crc) = Some node"
      "collect_tagged (tagged_key_list dbi) ?crc node empty_list = Some l" "list_contents l keys" unfolding append_Nil keys by blast
  have set_keys: "set keys = tag_keys ?num key (K (ms_world st) db)" using tagged_filter [OF es(2), of key] keys by auto
  have "key \<in> set keys" unfolding set_keys using key tag by (simp add: tag_keys_def)
  then have ne_keys: "keys \<noteq> []" by auto
  have "l_len (snd l) = length keys" using l(3) adlist_length by (auto simp: list_contents_def)
  moreover have "length keys < 2 ^ 31" by (metis keys len length_filter_le length_map le_less_trans)
  ultimately have mx: "c_int (int (l_len (snd l))) = int (length keys)" using c_int_small by simp
  obtain l' where l': "drain (length keys) l = Some (keys, l')" "list_contents l' []" using drain_contents [OF l(3)] by blast
  obtain r where r: "m_listRelease (fst l') (snd l') = Some r" using release_contents [OF l'(2)] by blast
  have "SlotsMGRT_TagKeys env tid db h p timeout key ty st = do {
       (ret, st') \<leftarrow> migrateKeys env tid db h p timeout keys ty st;
       left \<leftarrow> slot_left db (sn_slot (?num key)) st';
       Some (ret, left, st') }"
    using tag d(1) ne b(4) l(1,2) mx ne_keys l'(1) r
    by (simp add: SlotsMGRT_TagKeys_def Let_def c_assert_def)
  moreover have "distinct keys" unfolding keys [symmetric] using dist inj by (auto simp: distinct_map intro: inj_on_subset)
  ultimately show thesis using that ne_keys set_keys by blast
qed

lemma finite_slot_keys: "follows env K L st \<Longrightarrow> finite (slot_keys num slot (K (ms_world st) db))"
  using followsD(4) [of env K L st db] by (simp add: slot_keys_def)

text \<open>What a migration of existing keys leaves in the slot.\<close>

lemma migrateKeys_left:
  assumes c: "cmp_ok (ex_cmp env)" and s: "unlinks env K" "dumps env K" "remote env K"
    and f: "follows env K L st" and db: "0 \<le> db" "db < num_dbs (ms_slots st)"
    and keys: "keys \<noteq> []" "set keys \<subseteq> K (ms_world st) db"
    and th: "slots_mgrt_threads (g_slots_meta_info (ms_slots st)) \<le> 0" "slots_dump_threads (g_slots_meta_info (ms_slots st)) \<le> 0"
    and tid: "is_llong tid" and p: "c_atoi p \<noteq> None"
    and card: "card (K (ms_world st) db) < 2 ^ 31"
  shows "\<exists>r st'. migrateKeys env tid db h p timeout keys ty st = Some (r, st') \<and> follows env K L st' \<and>
    key_num (ms_slots st') = key_num (ms_slots st) \<and>
    slot_left db (sn_slot (key_num (ms_slots st) key)) st' =
      Some (int (card (slot_keys (key_num (ms_slots st)) (sn_slot (key_num (ms_slots st) key)) (index (ms_slots st') db)))) \<and>
    (r = SLOTS_MGRT_ERR \<and> index (ms_slots st') = index (ms_slots st) \<or>
     r = int (length keys) \<and> index (ms_slots st') = (index (ms_slots st))(db := index (ms_slots st) db - set keys))"
proof -
  let ?sl = "sn_slot (key_num (ms_slots st) key)"
  obtain r st' obs st1 st2 ret where o: "migrateKeys env tid db h p timeout keys ty st = Some (r, st')"
    "keeps K st (st2\<lparr>ms_vals := ms_vals st\<rparr>)"
    "ret = SLOTS_MGRT_ERR \<and> r = SLOTS_MGRT_ERR \<and> st' = st2\<lparr>ms_vals := ms_vals st\<rparr> \<or>
     ret = int (length keys) \<and> r = int (length keys) \<and> deletes env K L db (set keys) (st2\<lparr>ms_vals := ms_vals st\<rparr>) st' \<and>
       ms_trace st' = ms_trace st2 @ map (\<lambda>key. Call db [''UNLINK'', key]) keys"
    by (rule migrateKeys_outcome [OF c s f db keys th tid p, of h timeout ty])
  have f2: "follows env K L (st2\<lparr>ms_vals := ms_vals st\<rparr>)" "ms_slots st2 = ms_slots st" "K (ms_world st2) = K (ms_world st)"
    using follows_keeps [OF f o(2)] o(2) by (simp_all add: keeps_def)
  have r: "follows env K L st' \<and> same_frame (ms_slots st) (ms_slots st') \<and>
     (r = SLOTS_MGRT_ERR \<and> K (ms_world st') = K (ms_world st) \<or>
      r = int (length keys) \<and> K (ms_world st') = (K (ms_world st))(db := K (ms_world st) db - set keys))"
    using o(3) f2 by (auto simp: deletes_def same_frame_refl)
  then have f': "follows env K L st'" and num: "key_num (ms_slots st') = key_num (ms_slots st)"
    and sz: "num_dbs (ms_slots st') = num_dbs (ms_slots st)" "slots_size (ms_slots st') = slots_size (ms_slots st)"
    using same_frame_num by blast+
  note ix = followsD(2) [OF f] followsD(2) [OF f']
  have sl: "nat ?sl < slots_size (ms_slots st')" "?sl = int (nat ?sl)"
    using slot_in_range [OF followsD(1) [OF f], of key] sz(2) by simp_all
  have "slot_left db (int (nat ?sl)) st' =
      Some (c_int (int (card (slot_keys (key_num (ms_slots st')) (int (nat ?sl)) (K (ms_world st') db)))))"
    by (rule slot_left_eq [OF f' db(1) _ sl(1)]) (simp add: sz db)
  then have left: "slot_left db ?sl st' = Some (c_int (int (card (slot_keys (key_num (ms_slots st)) ?sl (K (ms_world st') db)))))"
    by (simp only: num sl(2) [symmetric])
  have "slot_keys (key_num (ms_slots st)) ?sl (K (ms_world st') db) \<subseteq> K (ms_world st) db"
    using r by (auto simp: slot_keys_def)
  then have "card (slot_keys (key_num (ms_slots st)) ?sl (K (ms_world st') db)) \<le> card (K (ms_world st) db)"
    by (rule card_mono [OF followsD(4) [OF f]])
  then have "slot_left db ?sl st' = Some (int (card (slot_keys (key_num (ms_slots st)) ?sl (K (ms_world st') db))))"
    using left card c_int_small [of "card (slot_keys (key_num (ms_slots st)) ?sl (K (ms_world st') db))"] by simp
  then show ?thesis using o(1) r ix num by auto
qed

section \<open>Drawing a key of a slot\<close>

lemma draw_table:
  assumes f: "follows env K L st" and db: "0 \<le> db" "db < num_dbs (ms_slots st)" and slot: "slot < slots_size (ms_slots st)"
  obtains d where "get_table (ms_slots st) db (int slot) = Some d" "dict_inv hashSlotDictType d"
    "dom (dict_map d) = slot_keys (key_num (ms_slots st)) (int slot) (K (ms_world st) db)"
    "\<And>d'. dict_inv hashSlotDictType d' \<Longrightarrow> dict_map d' = dict_map d \<Longrightarrow>
      \<exists>s'. set_table (ms_slots st) db (int slot) d' = Some s' \<and> follows env K L (st\<lparr>ms_slots := s'\<rparr>) \<and>
        same_frame (ms_slots st) s'"
proof -
  obtain d where d: "get_table (ms_slots st) db (int slot) = Some d" "dict_inv hashSlotDictType d"
    "dom (dict_map d) = slot_keys (key_num (ms_slots st)) (int slot) (K (ms_world st) db)"
    by (rule follows_table [OF assms])
  show thesis
  proof (rule that [OF d])
    fix d' :: "(string, int) dict"
    assume d': "dict_inv hashSlotDictType d'" "dict_map d' = dict_map d"
    obtain dd where dd: "get_table (ms_slots st) db (int slot) = Some dd"
      "\<And>t'. dict_inv hashSlotDictType t' \<Longrightarrow> dict_map t' = dict_map dd \<Longrightarrow>
        \<exists>dbs'. set_table (ms_slots st) db (int slot) t' = Some ((ms_slots st)\<lparr>db_slot_infos := Some dbs'\<rparr>) \<and>
          slots_inv (ex_cmp env) ((ms_slots st)\<lparr>db_slot_infos := Some dbs'\<rparr>) \<and>
          cron_frame (ms_slots st) ((ms_slots st)\<lparr>db_slot_infos := Some dbs'\<rparr>)"
      using table_in_range [OF followsD(1) [OF f] db slot] by metis
    have "dict_map d' = dict_map dd" using d(1) dd(1) d'(2) by simp
    from dd(2) [OF d'(1) this] obtain dbs' where s: "set_table (ms_slots st) db (int slot) d' = Some ((ms_slots st)\<lparr>db_slot_infos := Some dbs'\<rparr>)"
      "slots_inv (ex_cmp env) ((ms_slots st)\<lparr>db_slot_infos := Some dbs'\<rparr>)"
      "index ((ms_slots st)\<lparr>db_slot_infos := Some dbs'\<rparr>) = index (ms_slots st)"
      unfolding cron_frame_def by blast
    have "follows env K L (st\<lparr>ms_slots := (ms_slots st)\<lparr>db_slot_infos := Some dbs'\<rparr>\<rparr>)"
      using f s(2,3) by (simp add: follows_def tracks_def index_refs_def index_size_def)
    then show "\<exists>s'. set_table (ms_slots st) db (int slot) d' = Some s' \<and> follows env K L (st\<lparr>ms_slots := s'\<rparr>) \<and>
        same_frame (ms_slots st) s'" using s(1) by (auto simp: same_frame_def)
  qed
qed

lemma random_slot_key_sound:
  assumes f: "follows env K L st" and db: "0 \<le> db" "db < num_dbs (ms_slots st)" and slot: "slot < slots_size (ms_slots st)"
    and r: "random_slot_key draws db (int slot) st = Some (key, st')"
  shows "follows env K L st' \<and> same_frame (ms_slots st) (ms_slots st') \<and> st' = st\<lparr>ms_slots := ms_slots st'\<rparr> \<and>
    (case key of None \<Rightarrow> slot_keys (key_num (ms_slots st)) (int slot) (K (ms_world st) db) = {}
     | Some k \<Rightarrow> k \<in> slot_keys (key_num (ms_slots st)) (int slot) (K (ms_world st) db))"
proof -
  obtain d where d: "get_table (ms_slots st) db (int slot) = Some d" "dict_inv hashSlotDictType d"
    "dom (dict_map d) = slot_keys (key_num (ms_slots st)) (int slot) (K (ms_world st) db)"
    "\<And>d'. dict_inv hashSlotDictType d' \<Longrightarrow> dict_map d' = dict_map d \<Longrightarrow>
      \<exists>s'. set_table (ms_slots st) db (int slot) d' = Some s' \<and> follows env K L (st\<lparr>ms_slots := s'\<rparr>) \<and>
        same_frame (ms_slots st) s'" using draw_table [OF f db slot] by metis
  obtain de rest d' where g: "m_dictGetRandomKey hashSlotDictType draws d = Some (de, rest, d')"
    using r d(1) by (auto simp: random_slot_key_def split: bind_splits)
  note snd = m_dictGetRandomKey_sound [OF d(2) g]
  then obtain s' where s': "set_table (ms_slots st) db (int slot) d' = Some s'" "follows env K L (st\<lparr>ms_slots := s'\<rparr>)"
    "same_frame (ms_slots st) s'" using d(4) by blast
  show ?thesis
  proof (cases de)
    case None
    then have "dict_map d = Map.empty" using snd by (auto split: if_splits)
    then show ?thesis using r d(1,3) g None s' by (auto simp: random_slot_key_def)
  next
    case (Some ref)
    then obtain k v where e: "dictGetEntry d' ref = Some (k, v)" using snd by (auto split: if_splits)
    then have "k \<in> dom (dict_map d)" using dictGetEntry_map [of hashSlotDictType d' ref k v] snd by auto
    then show ?thesis using r d(1,3) g Some s' e by (auto simp: random_slot_key_def)
  qed
qed

lemma random_slot_key_complete:
  assumes f: "follows env K L st" and db: "0 \<le> db" "db < num_dbs (ms_slots st)" and slot: "slot < slots_size (ms_slots st)"
    and key: "key \<in> slot_keys (key_num (ms_slots st)) (int slot) (K (ms_world st) db)"
  shows "\<exists>draws st'. random_slot_key draws db (int slot) st = Some (Some key, st')"
proof -
  obtain d where d: "get_table (ms_slots st) db (int slot) = Some d" "dict_inv hashSlotDictType d"
    "dom (dict_map d) = slot_keys (key_num (ms_slots st)) (int slot) (K (ms_world st) db)"
    "\<And>d'. dict_inv hashSlotDictType d' \<Longrightarrow> dict_map d' = dict_map d \<Longrightarrow>
      \<exists>s'. set_table (ms_slots st) db (int slot) d' = Some s' \<and> follows env K L (st\<lparr>ms_slots := s'\<rparr>) \<and>
        same_frame (ms_slots st) s'" using draw_table [OF f db slot] by metis
  have "key \<in> dom (dict_map d)" using key d(3) by simp
  then obtain draws ref v d' where g: "m_dictGetRandomKey hashSlotDictType draws d = Some (Some ref, [], d')"
    "dictGetEntry d' ref = Some (key, v)" using m_dictGetRandomKey_complete [OF d(2)] by metis
  note snd = m_dictGetRandomKey_sound [OF d(2) g(1)]
  then obtain s' where "set_table (ms_slots st) db (int slot) d' = Some s'" using d(4) by blast
  then have "random_slot_key draws db (int slot) st = Some (Some key, st\<lparr>ms_slots := s'\<rparr>)"
    using d(1) g by (simp add: random_slot_key_def)
  then show ?thesis by blast
qed

text \<open>However the draws begin, with some more of them a key is drawn; an empty table needs none.\<close>

lemma random_slot_key_returns:
  assumes f: "follows env K L st" and db: "0 \<le> db" "db < num_dbs (ms_slots st)" and slot: "slot < slots_size (ms_slots st)"
  shows "\<exists>ds. random_slot_key (draws @ ds) db (int slot) st \<noteq> None"
    and "slot_keys (key_num (ms_slots st)) (int slot) (K (ms_world st) db) = {} \<Longrightarrow> random_slot_key draws db (int slot) st \<noteq> None"
proof -
  obtain d where d: "get_table (ms_slots st) db (int slot) = Some d" "dict_inv hashSlotDictType d"
    "dom (dict_map d) = slot_keys (key_num (ms_slots st)) (int slot) (K (ms_world st) db)"
    "\<And>d'. dict_inv hashSlotDictType d' \<Longrightarrow> dict_map d' = dict_map d \<Longrightarrow>
      \<exists>s'. set_table (ms_slots st) db (int slot) d' = Some s' \<and> follows env K L (st\<lparr>ms_slots := s'\<rparr>) \<and>
        same_frame (ms_slots st) s'" using draw_table [OF f db slot] by metis
  have ret: "random_slot_key ds db (int slot) st \<noteq> None" if g: "m_dictGetRandomKey hashSlotDictType ds d = Some (de, rest, d')"
    for ds de rest d'
  proof -
    note snd = m_dictGetRandomKey_sound [OF d(2) g]
    then obtain s' where "set_table (ms_slots st) db (int slot) d' = Some s'" using d(4) by blast
    then show ?thesis using d(1) g snd by (cases de) (auto simp: random_slot_key_def split: if_splits)
  qed
  obtain ds where "m_dictGetRandomKey hashSlotDictType (draws @ ds) d \<noteq> None" using m_dictGetRandomKey_returns [OF d(2)] by blast
  then show "\<exists>ds. random_slot_key (draws @ ds) db (int slot) st \<noteq> None" using ret by (metis not_None_eq prod_cases3)
  assume "slot_keys (key_num (ms_slots st)) (int slot) (K (ms_world st) db) = {}"
  then have "dictSize d = 0" using d(3) dictSize_card [OF d(2)] by simp
  then show "random_slot_key draws db (int slot) st \<noteq> None" using ret [of draws] by (simp add: m_dictGetRandomKey_def)
qed

section \<open>Migrating a drawn key\<close>

text \<open>What the theorems about the commands suppose: the servers behave as documented, the index is
  in step, the database exists, no thread pools, a numeric port.\<close>

definition ready :: "'w env \<Rightarrow> ('w \<Rightarrow> int \<Rightarrow> string set) \<Rightarrow> string multiset \<Rightarrow> int \<Rightarrow> int \<Rightarrow> string \<Rightarrow> 'w mstate \<Rightarrow> bool" where
  "ready env K L tid db p st \<longleftrightarrow> cmp_ok (ex_cmp env) \<and> unlinks env K \<and> dumps env K \<and> remote env K \<and>
     follows env K L st \<and> 0 \<le> db \<and> db < num_dbs (ms_slots st) \<and>
     slots_mgrt_threads (g_slots_meta_info (ms_slots st)) \<le> 0 \<and> slots_dump_threads (g_slots_meta_info (ms_slots st)) \<le> 0 \<and>
     is_llong tid \<and> c_atoi p \<noteq> None \<and> card (K (ms_world st) db) < 2 ^ 31"

text \<open>The keys of a slot in the index.\<close>

abbreviation keys_in :: "'w mstate \<Rightarrow> int \<Rightarrow> int \<Rightarrow> string set" where
  "keys_in st db slot \<equiv> slot_keys (key_num (ms_slots st)) slot (index (ms_slots st) db)"

lemma readyD:
  assumes "ready env K L tid db p st"
  shows "follows env K L st" "0 \<le> db" "db < num_dbs (ms_slots st)" "index (ms_slots st) = K (ms_world st)"
  using assms followsD(2) by (auto simp: ready_def)

text \<open>The migration of one key after it has been drawn.\<close>

lemma drawn_key_moves:
  assumes rd: "ready env K L tid db p st" and slot: "slot < slots_size (ms_slots st)"
    and r: "random_slot_key draws db (int slot) st = Some (Some key, st1)"
  shows "key \<in> keys_in st db (int slot) \<and> key_num (ms_slots st1) = key_num (ms_slots st) \<and>
     (\<exists>r st'. migrateKeys env tid db h p timeout [key] ty st1 = Some (r, st') \<and> follows env K L st' \<and>
      key_num (ms_slots st') = key_num (ms_slots st) \<and>
      slot_left db (int slot) st' = Some (int (card (keys_in st' db (int slot)))) \<and>
      (r = SLOTS_MGRT_ERR \<and> index (ms_slots st') = index (ms_slots st) \<or>
       r = 1 \<and> index (ms_slots st') = (index (ms_slots st))(db := index (ms_slots st) db - {key})))"
proof -
  let ?num = "key_num (ms_slots st)"
  note d = readyD [OF rd]
  have s: "follows env K L st1" "same_frame (ms_slots st) (ms_slots st1)" "ms_world st1 = ms_world st"
    "key \<in> slot_keys ?num (int slot) (K (ms_world st) db)"
    using random_slot_key_sound [OF d(1-3) slot r] by (auto dest: arg_cong [of _ _ ms_world])
  have g: "g_slots_meta_info (ms_slots st1) = g_slots_meta_info (ms_slots st)" "key_num (ms_slots st1) = ?num"
    "num_dbs (ms_slots st1) = num_dbs (ms_slots st)" using s(2) by (simp_all add: same_frame_def)
  have ix1: "index (ms_slots st1) = index (ms_slots st)" using followsD(2) [OF s(1)] d(4) s(3) by simp
  have sl: "sn_slot (?num key) = int slot" and sub: "set [key] \<subseteq> K (ms_world st1) db"
    using s(3,4) by (simp_all add: slot_keys_def)
  have p: "cmp_ok (ex_cmp env)" "unlinks env K" "dumps env K" "remote env K" "0 \<le> db" "db < num_dbs (ms_slots st1)"
    "[key] \<noteq> []" "slots_mgrt_threads (g_slots_meta_info (ms_slots st1)) \<le> 0"
    "slots_dump_threads (g_slots_meta_info (ms_slots st1)) \<le> 0"
    "is_llong tid" "c_atoi p \<noteq> None" "card (K (ms_world st1) db) < 2 ^ 31"
    using rd g s(3) by (auto simp: ready_def)
  obtain r st' where m: "migrateKeys env tid db h p timeout [key] ty st1 = Some (r, st')" "follows env K L st'"
    "key_num (ms_slots st') = key_num (ms_slots st1)"
    "slot_left db (sn_slot (key_num (ms_slots st1) key)) st' =
      Some (int (card (slot_keys (key_num (ms_slots st1)) (sn_slot (key_num (ms_slots st1) key)) (index (ms_slots st') db))))"
    "r = SLOTS_MGRT_ERR \<and> index (ms_slots st') = index (ms_slots st1) \<or>
     r = int (length [key]) \<and> index (ms_slots st') = (index (ms_slots st1))(db := index (ms_slots st1) db - set [key])"
    using migrateKeys_left [OF p(1-4) s(1) p(5-7) sub p(8-12), of h timeout ty key] by blast
  then show ?thesis using s(4) d(4) ix1 sl g by auto
qed

section \<open>Properties\<close>

text \<open>C18: Migrating a key that has a hash tag takes along every key of the database with the checksum of
  the tag, wherever it is in the skip list, each of them once, and no other key: all of them are
  gone from the index afterwards, or none when the other server does not acknowledge them. The
  answer is their number, and the number of keys that are left in the slot.\<close>

theorem TagKeys_moves_tag:
  assumes "ready env K L tid db p st" and "key \<in> index (ms_slots st) db" and "sn_hastag (key_num (ms_slots st) key)"
  shows "\<exists>r left st'. SlotsMGRT_TagKeys env tid db h p timeout key ty st = Some (r, left, st') \<and> follows env K L st' \<and>
    left = int (card (keys_in st' db (sn_slot (key_num (ms_slots st) key)))) \<and>
    (r = SLOTS_MGRT_ERR \<and> index (ms_slots st') = index (ms_slots st) \<or>
     r = int (card (tag_keys (key_num (ms_slots st)) key (index (ms_slots st) db))) \<and>
       index (ms_slots st') = (index (ms_slots st))(db :=
         index (ms_slots st) db - tag_keys (key_num (ms_slots st)) key (index (ms_slots st) db)))"
proof -
  let ?num = "key_num (ms_slots st)"
  note d = readyD [OF assms(1)]
  have key: "key \<in> K (ms_world st) db" using assms(2) d(4) by simp
  have p: "cmp_ok (ex_cmp env)" "unlinks env K" "dumps env K" "remote env K"
    "slots_mgrt_threads (g_slots_meta_info (ms_slots st)) \<le> 0" "slots_dump_threads (g_slots_meta_info (ms_slots st)) \<le> 0"
    "is_llong tid" "c_atoi p \<noteq> None" "card (K (ms_world st) db) < 2 ^ 31" using assms(1) by (auto simp: ready_def)
  obtain keys where k: "keys \<noteq> []" "distinct keys" "set keys = tag_keys ?num key (K (ms_world st) db)"
    "SlotsMGRT_TagKeys env tid db h p timeout key ty st = do {
       (ret, st') \<leftarrow> migrateKeys env tid db h p timeout keys ty st;
       left \<leftarrow> slot_left db (sn_slot (?num key)) st';
       Some (ret, left, st') }"
    using TagKeys_choice [OF p(1) d(1-3) assms(3) p(9) key, of tid h p timeout ty] by blast
  have sub: "set keys \<subseteq> K (ms_world st) db" using k(3) by (auto simp: tag_keys_def)
  have n: "length keys = card (tag_keys ?num key (K (ms_world st) db))" using distinct_card [OF k(2)] k(3) by simp
  obtain r st' where m: "migrateKeys env tid db h p timeout keys ty st = Some (r, st')" "follows env K L st'"
    "key_num (ms_slots st') = ?num"
    "slot_left db (sn_slot (?num key)) st' = Some (int (card (slot_keys ?num (sn_slot (?num key)) (index (ms_slots st') db))))"
    "r = SLOTS_MGRT_ERR \<and> index (ms_slots st') = index (ms_slots st) \<or>
     r = int (length keys) \<and> index (ms_slots st') = (index (ms_slots st))(db := index (ms_slots st) db - set keys)"
    using migrateKeys_left [OF p(1-4) d(1-3) k(1) sub p(5-9), of h timeout ty key] by blast
  have "SlotsMGRT_TagKeys env tid db h p timeout key ty st =
      Some (r, int (card (keys_in st' db (sn_slot (?num key)))), st')" using k(4) m(1,3,4) by simp
  then show ?thesis using m(2,5) n k(3) d(4) by auto
qed

lemma demo_ready: "ready demo_env demo_keys {#} 7 0 ''6379'' (demo_mstate [''a{t}''])"
  using demo_unlinks demo_contract demo_follows
  by (simp add: ready_def demo_mstate_def demo_state demo_threads demo_keys_def is_llong_def LLONG_MIN_def LLONG_MAX_def
    atoi_6379)

lemma demo_tagged: "sn_hastag (key_num (ms_slots (demo_mstate ks)) ''a{t}'')"
proof -
  have "tag_of (cstr ''a{t}'') \<noteq> None" by code_simp
  then show ?thesis by (simp add: slots_num_eq)
qed

lemma TagKeys_moves_tag_witness:
  "\<exists>r left st'. SlotsMGRT_TagKeys demo_env 7 0 ''h'' ''6379'' 1000 ''a{t}'' None (demo_mstate [''a{t}'']) = Some (r, left, st')"
proof -
  have "''a{t}'' \<in> index (ms_slots (demo_mstate [''a{t}''])) 0" by (simp add: demo_mstate_def demo_state)
  from TagKeys_moves_tag [OF demo_ready this demo_tagged, of "''h''" 1000 None] show ?thesis by blast
qed

text \<open>C19: One call of \<open>SLOTSMGRTSLOT\<close> moves one key of the slot, whichever \<open>random()\<close> draws, and reports the
  number of keys that are left; with an unacknowledged migration it changes nothing, and it
  answers 0 only for an empty slot. It returns: at once for an empty slot, and otherwise however
  \<open>random()\<close> begins, with some more draws, so that it can only fail to return when \<open>random()\<close> never
  hits a bucket with an entry.\<close>

theorem SlotOneKey_moves_one:
  assumes "ready env K L tid db p st" and "slot < slots_size (ms_slots st)"
  shows "(\<exists>ds. SlotsMGRT_SlotOneKey env (draws @ ds) tid db h p timeout (int slot) ty st \<noteq> None) \<and>
    (keys_in st db (int slot) = {} \<longrightarrow> SlotsMGRT_SlotOneKey env draws tid db h p timeout (int slot) ty st \<noteq> None) \<and>
    (\<forall>r left st'. SlotsMGRT_SlotOneKey env draws tid db h p timeout (int slot) ty st = Some (r, left, st') \<longrightarrow>
      follows env K L st' \<and>
      (r = 0 \<and> left = 0 \<and> keys_in st db (int slot) = {} \<and> index (ms_slots st') = index (ms_slots st) \<or>
       r = SLOTS_MGRT_ERR \<and> left = 0 \<and> index (ms_slots st') = index (ms_slots st) \<or>
       r = 1 \<and> left = int (card (keys_in st' db (int slot))) \<and>
         (\<exists>key \<in> keys_in st db (int slot). index (ms_slots st') = (index (ms_slots st))(db := index (ms_slots st) db - {key}))))"
proof -
  note d = readyD [OF assms(1)]
  have ret: "SlotsMGRT_SlotOneKey env ds tid db h p timeout (int slot) ty st \<noteq> None"
    if "random_slot_key ds db (int slot) st = Some (de, st1)" for ds de st1
  proof (cases de)
    case None
    then show ?thesis using that by (simp add: SlotsMGRT_SlotOneKey_def)
  next
    case (Some key)
    then show ?thesis using that drawn_key_moves [OF assms(1,2), of ds key st1 h timeout ty]
      by (auto simp: SlotsMGRT_SlotOneKey_def SlotsMGRT_OneKey_def)
  qed
  have "\<exists>ds. SlotsMGRT_SlotOneKey env (draws @ ds) tid db h p timeout (int slot) ty st \<noteq> None"
    using random_slot_key_returns(1) [OF d(1-3) assms(2), of draws] ret by (metis not_None_eq surj_pair)
  moreover have "SlotsMGRT_SlotOneKey env draws tid db h p timeout (int slot) ty st \<noteq> None" if "keys_in st db (int slot) = {}"
    using random_slot_key_returns(2) [OF d(1-3) assms(2), of draws] ret that d(4) by (metis not_None_eq surj_pair)
  moreover have "follows env K L st' \<and>
      (r = 0 \<and> left = 0 \<and> keys_in st db (int slot) = {} \<and> index (ms_slots st') = index (ms_slots st) \<or>
       r = SLOTS_MGRT_ERR \<and> left = 0 \<and> index (ms_slots st') = index (ms_slots st) \<or>
       r = 1 \<and> left = int (card (keys_in st' db (int slot))) \<and>
         (\<exists>key \<in> keys_in st db (int slot). index (ms_slots st') = (index (ms_slots st))(db := index (ms_slots st) db - {key})))"
    if run: "SlotsMGRT_SlotOneKey env draws tid db h p timeout (int slot) ty st = Some (r, left, st')" for r left st'
  proof -
    obtain de st1 where r: "random_slot_key draws db (int slot) st = Some (de, st1)"
      using run by (auto simp: SlotsMGRT_SlotOneKey_def split: bind_splits)
    show ?thesis
    proof (cases de)
      case None
      then have s: "follows env K L st1" "ms_world st1 = ms_world st" "keys_in st db (int slot) = {}"
        using random_slot_key_sound [OF d(1-3) assms(2) r] d(4) by (auto dest: arg_cong [of _ _ ms_world])
      moreover have "r = 0" "left = 0" "st' = st1" using run r None by (simp_all add: SlotsMGRT_SlotOneKey_def)
      ultimately show ?thesis using followsD(2) [OF s(1)] d(4) by simp
    next
      case (Some key)
      then show ?thesis using run r drawn_key_moves [OF assms(1,2), of draws key st1 h timeout ty]
        by (auto simp: SlotsMGRT_SlotOneKey_def SlotsMGRT_OneKey_def SLOTS_MGRT_ERR_def)
    qed
  qed
  ultimately show ?thesis by blast
qed

lemma demo_draw:
  obtains draws st1 where "random_slot_key draws 0 (sn_slot (slots_num crc32_init 16 ''a{t}'')) (demo_mstate [''a{t}'']) =
    Some (Some ''a{t}'', st1)" "nat (sn_slot (slots_num crc32_init 16 ''a{t}'')) < slots_size (ms_slots (demo_mstate [''a{t}'']))"
    "int (nat (sn_slot (slots_num crc32_init 16 ''a{t}''))) = sn_slot (slots_num crc32_init 16 ''a{t}'')"
proof -
  let ?st = "demo_mstate [''a{t}'']" and ?sl = "sn_slot (slots_num crc32_init 16 ''a{t}'')"
  have s: "ms_slots ?st = demo_state" by (simp add: demo_mstate_def)
  have sl: "nat ?sl < slots_size (ms_slots ?st)" "int (nat ?sl) = ?sl"
    using slot_in_range [OF demo_state(2), of "''a{t}''"] unfolding demo_state(6) s by simp_all
  have "''a{t}'' \<in> slot_keys (key_num (ms_slots ?st)) (int (nat ?sl)) (demo_keys (ms_world ?st) 0)"
    unfolding sl s demo_state(6) by (simp add: slot_keys_def demo_keys_def demo_mstate_def)
  from random_slot_key_complete [OF readyD(1-3) [OF demo_ready] sl(1) this] show thesis using that sl by metis
qed

lemma SlotOneKey_moves_one_witness:
  "\<exists>draws r left st'. SlotsMGRT_SlotOneKey demo_env draws 7 0 ''h'' ''6379'' 1000 (sn_slot (slots_num crc32_init 16 ''a{t}'')) None
      (demo_mstate [''a{t}'']) = Some (r, left, st') \<and> (r = - 1 \<or> index (ms_slots st') 0 = {})"
proof -
  let ?st = "demo_mstate [''a{t}'']" and ?sl = "sn_slot (slots_num crc32_init 16 ''a{t}'')"
  obtain draws st1 where sl: "nat ?sl < slots_size (ms_slots ?st)" "int (nat ?sl) = ?sl" by (rule demo_draw)
  have ix: "index (ms_slots ?st) = (\<lambda>db. if db = 0 then {''a{t}''} else {})" by (simp add: demo_mstate_def demo_state)
  have ne: "keys_in ?st 0 ?sl \<noteq> {}" unfolding ix by (auto simp: slot_keys_def demo_mstate_def demo_state)
  note t = SlotOneKey_moves_one [OF demo_ready sl(1), of _ "''h''" 1000 None, unfolded sl(2)]
  obtain draws r left st' where run: "SlotsMGRT_SlotOneKey demo_env draws 7 0 ''h'' ''6379'' 1000 ?sl None ?st = Some (r, left, st')"
    using t [THEN conjunct1] by (metis not_None_eq prod_cases3)
  from t [THEN conjunct2, THEN conjunct2, rule_format, OF run] show ?thesis
    using run ne unfolding ix SLOTS_MGRT_ERR_def by (fastforce simp: slot_keys_def)
qed

text \<open>C20: When the key that \<open>SLOTSMGRTTAGSLOT\<close> draws has no hash tag, only this key is migrated and the
  command reports that no key is left, although every other key of the slot is still there: the
  early return of \<open>SlotsMGRT_TagKeys\<close> does not set \<open>left\<close>.\<close>

theorem TagSlotKeys_untagged_left:
  assumes "ready env K L tid db p st" and "slot < slots_size (ms_slots st)"
    and "random_slot_key draws db (int slot) st = Some (Some key, st1)" and "\<not> sn_hastag (key_num (ms_slots st) key)"
  shows "\<exists>r st'. SlotsMGRT_TagSlotKeys env draws tid db h p timeout (int slot) ty st = Some (r, 0, st') \<and>
    keys_in st db (int slot) - {key} \<subseteq> keys_in st' db (int slot)"
proof -
  obtain r st' where m: "migrateKeys env tid db h p timeout [key] ty st1 = Some (r, st')"
    "key_num (ms_slots st') = key_num (ms_slots st)" "key_num (ms_slots st1) = key_num (ms_slots st)"
    "index (ms_slots st) db - {key} \<subseteq> index (ms_slots st') db"
    using drawn_key_moves [OF assms(1,2,3), of h timeout ty] by auto
  have "SlotsMGRT_TagSlotKeys env draws tid db h p timeout (int slot) ty st = Some (r, 0, st')"
    using assms(3,4) m(1,3) by (simp add: SlotsMGRT_TagSlotKeys_def SlotsMGRT_TagKeys_def SlotsMGRT_OneKey_def Let_def)
  moreover have "keys_in st db (int slot) - {key} \<subseteq> keys_in st' db (int slot)"
    using m(2,4) by (auto simp: slot_keys_def)
  ultimately show ?thesis by blast
qed

text \<open>Two keys without a tag in the only slot.\<close>

lemma two_untagged:
  obtains st where "ready demo_env demo_keys {#} 7 0 ''6379'' st" "slots_size (ms_slots st) = 1"
    "key_num (ms_slots st) = slots_num crc32_init 1" "index (ms_slots st) 0 = {''a'', ''b''}"
proof -
  let ?s = "initial 1 2 0 True False None"
  note t = tracks_initial(1) [of 1 2 bytes_cmp 0 True False None]
  obtain s1 where s1: "same_frame ?s s1" "tracks bytes_cmp 2 (slots_num crc32_init 1) ((\<lambda>db. {})(0 := insert ''a'' {})) {#} s1"
    using tracks_add [OF bytes_cmp_ok t, of 0 "[65535]" "''a''"] draws_ok by auto
  obtain s2 where s2: "same_frame s1 s2"
    "tracks bytes_cmp 2 (slots_num crc32_init 1) ((\<lambda>db. {})(0 := insert ''b'' (insert ''a'' {}))) {#} s2"
    using tracks_add [OF bytes_cmp_ok s1(2), of 0 "[65535]" "''b''"] draws_ok by auto
  let ?st = "demo_mstate [''a'', ''b'']\<lparr>ms_slots := s2\<rparr>"
  have k: "demo_keys [''a'', ''b''] = (\<lambda>db. {})(0 := insert ''b'' (insert ''a'' {}))" by (auto simp: demo_keys_def fun_eq_iff)
  have g: "g_slots_meta_info s2 = g_slots_meta_info ?s" using s1(1) s2(1) by (simp add: same_frame_def)
  have th: "slots_mgrt_threads (g_slots_meta_info s2) = 0" "slots_dump_threads (g_slots_meta_info s2) = 0" "slots_size s2 = 1"
    unfolding g by (simp_all add: initial_def Slots_Init_def slots_boot_def)
  have n: "num_dbs s2 = 2" "key_num s2 = slots_num crc32_init 1" "index s2 0 = {''a'', ''b''}"
    using s2(2) by (auto simp: tracks_def)
  have "card (demo_keys [''a'', ''b''] db) < 2 ^ 32 - 1" for db by (simp add: demo_keys_def)
  then have "follows demo_env demo_keys {#} ?st"
    using s2(2) n unfolding follows_def by (simp add: demo_mstate_def demo_env_def k)
  then have "ready demo_env demo_keys {#} 7 0 ''6379'' ?st"
    using demo_unlinks demo_contract n th
    by (simp add: ready_def demo_mstate_def demo_keys_def is_llong_def LLONG_MIN_def LLONG_MAX_def atoi_6379)
  then show thesis using that [of ?st] n th by simp
qed

lemma TagSlotKeys_untagged_left_witness:
  "\<exists>st draws r st'. index (ms_slots st) 0 = {''a'', ''b''} \<and>
    SlotsMGRT_TagSlotKeys demo_env draws 7 0 ''h'' ''6379'' 1000 0 None st = Some (r, 0, st') \<and> ''b'' \<in> index (ms_slots st') 0"
proof -
  obtain st where st: "ready demo_env demo_keys {#} 7 0 ''6379'' st" "slots_size (ms_slots st) = 1"
    "key_num (ms_slots st) = slots_num crc32_init 1" "index (ms_slots st) 0 = {''a'', ''b''}" by (rule two_untagged)
  have slot: "sn_slot (slots_num crc32_init 1 k) = 0" for k by (simp add: slots_num_eq)
  have "''a'' \<in> slot_keys (key_num (ms_slots st)) (int 0) (demo_keys (ms_world st) 0)"
    using readyD(4) [OF st(1)] st(3,4) slot by (simp add: slot_keys_def)
  from random_slot_key_complete [OF readyD(1-3) [OF st(1)] _ this] obtain draws st1 where
    r: "random_slot_key draws 0 (int 0) st = Some (Some ''a'', st1)" using st(2) by auto
  have "tag_of (cstr ''a'') = None" by code_simp
  then have u: "\<not> sn_hastag (key_num (ms_slots st) ''a'')" unfolding st(3) by (simp add: slots_num_eq)
  have b: "''b'' \<in> keys_in st 0 (int 0)" using st(3,4) slot by (simp add: slot_keys_def)
  have "0 < slots_size (ms_slots st)" using st(2) by simp
  from TagSlotKeys_untagged_left [OF st(1) this r u, of "''h''" 1000 None] obtain r st' where
    "SlotsMGRT_TagSlotKeys demo_env draws 7 0 ''h'' ''6379'' 1000 0 None st = Some (r, 0, st')"
    "''b'' \<in> keys_in st' 0 (int 0)" using b by auto
  then show ?thesis using st(4) by (auto simp: slot_keys_def)
qed

text \<open>\<open>DUMP\<close> of a key that does not exist, as documented.\<close>

definition absent_dumps :: "'w env \<Rightarrow> ('w \<Rightarrow> int \<Rightarrow> string set) \<Rightarrow> bool" where
  "absent_dumps env K \<longleftrightarrow> (\<forall>db key w. key \<notin> K w db \<longrightarrow>
     (\<exists>w1. ex_call env db [''DUMP'', key] w = (Some RNull, [], w1) \<and> K w1 = K w))"

text \<open>C21: The index can list a key that the server no longer has, since the module does not hear of an
  eviction. When the keys of a tag start with such a key, the array of the dumps has an entry that
  nothing has filled, and the migration reads it: the behaviour is undefined.\<close>

theorem migrateKeys_missing_key:
  fixes st :: "'w mstate"
  assumes "dumps env K" and "absent_dumps env K" and "key \<notin> K (ms_world st) db" and "keys \<noteq> []"
    and "set keys \<subseteq> K (ms_world st) db" and "slots_dump_threads (g_slots_meta_info (ms_slots st)) \<le> 0"
  shows "migrateKeys env tid db h p timeout (key # keys) ty st = None"
proof -
  obtain w1 where "ex_call env db [''DUMP'', key] (ms_world st) = (Some RNull, [], w1)" "K w1 = K (ms_world st)"
    using assms(2,3) unfolding absent_dumps_def by blast
  from quiet_call [where K = K, OF this] obtain st1 where st1: "server_call env db [''DUMP'', key] st = Some (Some RNull, st1)"
    "keeps K st st1" by (auto simp: is_unlink_def)
  have "set keys \<subseteq> K (ms_world st1) db" using assms(5) st1(2) by (simp add: keeps_def)
  from dump_loop_ok [OF assms(1) this, of 0] obtain obs st2 where
    d: "dump_loop env db keys 0 st1 = Some (int (length keys), map Some obs, st2)" by auto
  have n: "int (length keys) \<noteq> 0" "int (length keys) \<noteq> - 1" "nat (int (length keys)) = Suc (length keys - 1)"
    using assms(4) by (cases keys; simp)+
  have "getRdbDumpObjs env db (key # keys) st = Some (int (length keys), None # map Some obs, st2)"
    using assms(6) st1(1) d by (simp add: getRdbDumpObjs_def dumpObj_def SLOTS_MGRT_ERR_def SLOTS_MGRT_NOTHING_def)
  moreover have "FreeDumpObjs (None # map Some obs) (int (length keys)) st3 = None" for st3 :: "'w mstate"
    unfolding FreeDumpObjs_def n(3) by simp
  ultimately show ?thesis using n(1,2)
    by (cases "MGRT env tid db h p timeout (None # map Some obs) (length keys) ty st2")
      (auto simp: migrateKeys_def SLOTS_MGRT_ERR_def SLOTS_MGRT_NOTHING_def)
qed

lemma migrateKeys_missing_key_witness:
  "migrateKeys demo_env 7 0 ''h'' ''6379'' 1000 [''gone{t}'', ''a{t}''] None (demo_mstate [''a{t}'']) = None"
proof -
  have "absent_dumps demo_env demo_keys" by (auto simp: absent_dumps_def demo_env_def demo_keys_def split: if_splits)
  from migrateKeys_missing_key [OF demo_contract(1) this, of "''gone{t}''" "demo_mstate [''a{t}'']" 0 "[''a{t}'']"]
  show ?thesis by (simp add: demo_mstate_def demo_keys_def demo_threads)
qed

end
