(* ===== verification/Commands.thy ===== *)
theory Commands
  imports Restore
begin

text \<open>
  The commands of \<open>module.c\<close>: their argument checks, what they call and what they reply; the
  start of the module and the commands it registers.

  A command answers by calls of the server's reply functions, whose sequence is part of the
  result. \<open>None\<close> is undefined behaviour, as everywhere. \<open>argv\<close> starts with the name of the
  command; the database, the number of the thread and the values of \<open>random()\<close> are arguments.
\<close>

section \<open>Replies\<close>

datatype status = REDISMODULE_OK | REDISMODULE_ERR

datatype reply_call =
    ReplyWithArray int
  | ReplyWithLongLong int
  | ReplyWithString string
  | ReplyWithError string
  | ReplyWithSimpleString string
  | ReplyWithNull
  | WrongArity

type_synonym 'w replied = "(status \<times> reply_call list \<times> 'w mstate) option"

definition REDISXSLOT_ERRORMSG_SYNTAX :: string where "REDISXSLOT_ERRORMSG_SYNTAX = ''ERR syntax error''"

definition REDISXSLOT_ERRORMSG_MGRT :: string where "REDISXSLOT_ERRORMSG_MGRT = ''ERR migrate error''"

definition REDISXSLOT_ERRORMSG_DEL :: string where "REDISXSLOT_ERRORMSG_DEL = ''ERR del error''"

text \<open>The two ways to refuse the arguments.\<close>

definition wrong_arity :: "'w mstate \<Rightarrow> 'w replied" where
  "wrong_arity st = Some (REDISMODULE_OK, [WrongArity], st)"

definition syntax_error :: "'w mstate \<Rightarrow> 'w replied" where
  "syntax_error st = Some (REDISMODULE_ERR, [ReplyWithError REDISXSLOT_ERRORMSG_SYNTAX], st)"

definition migrate_error :: "'w mstate \<Rightarrow> 'w replied" where
  "migrate_error st = Some (REDISMODULE_ERR, [ReplyWithError REDISXSLOT_ERRORMSG_MGRT], st)"

section \<open>Commands that read\<close>

definition SlotsHashKey_RedisCommand :: "string list \<Rightarrow> 'w mstate \<Rightarrow> 'w replied" where
  "SlotsHashKey_RedisCommand argv st =
     (if length argv < 2 then wrong_arity st
      else Some (REDISMODULE_OK, ReplyWithArray (int (length argv) - 1) #
        map (\<lambda>key. ReplyWithLongLong (sn_slot (slots_num (crc32tab (ms_slots st))
          (hash_slots_size (g_slots_meta_info (ms_slots st))) key))) (tl argv), st))"

text \<open>The loop of \<open>SlotsInfo_RedisCommand\<close>: the two arrays have \<open>hash_slots_size\<close> elements, \<open>found\<close> is
  what they hold.\<close>

function info_loop :: "slots_state \<Rightarrow> int \<Rightarrow> int \<Rightarrow> int \<Rightarrow> (int \<times> int) list \<Rightarrow> (int \<times> int) list option" where
  "info_loop s db stop i found =
     (if i < stop \<and> i < c_int (uint (hash_slots_size (g_slots_meta_info s)))
      then do {
        d \<leftarrow> get_table s db i;
        let k = c_int (int (dictSize d));
        if k = 0 then info_loop s db stop (i + 1) found
        else do {
          c_assert (length found < unat (hash_slots_size (g_slots_meta_info s)));
          info_loop s db stop (i + 1) (found @ [(i, k)])
        }
      }
      else Some found)"
  by pat_completeness auto
termination
  by (relation "measure (\<lambda>(s, db, stop, i, found). nat (c_int (uint (hash_slots_size (g_slots_meta_info s))) - i))")
    (auto simp: c_assert_def)

declare info_loop.simps [simp del]

text \<open>\<open>start\<close> is cut to an \<open>int\<close> where the loop starts, and not in its end.\<close>

definition SlotsInfo_RedisCommand :: "'w env \<Rightarrow> int \<Rightarrow> string list \<Rightarrow> 'w mstate \<Rightarrow> 'w replied" where
  "SlotsInfo_RedisCommand env db argv st =
     (if 4 \<le> length argv then wrong_arity st
      else case (if 2 \<le> length argv then ex_string2ll env (argv ! 1) else Some 0) of
        None \<Rightarrow> syntax_error st
      | Some start \<Rightarrow> (case (if 3 \<le> length argv then ex_string2ll env (argv ! 2) else Some 0) of
          None \<Rightarrow> syntax_error st
        | Some cnt \<Rightarrow> do {
            c_assert (is_llong (start + cnt));
            found \<leftarrow> info_loop (ms_slots st) db (start + cnt) (c_int start) [];
            Some (REDISMODULE_OK, ReplyWithArray (int (length found)) #
              concat (map (\<lambda>(slot, k). [ReplyWithArray 2, ReplyWithLongLong slot, ReplyWithLongLong k]) found), st)
          }))"

text \<open>The list of the keys is emptied from its head, key by key.\<close>

partial_function (option) reply_keys ::
  "string lheap \<times> string adlist \<Rightarrow> reply_call list \<Rightarrow> (reply_call list \<times> string lheap \<times> string adlist) option" where
  "reply_keys l out =
     (case l_head (snd l) of
        None \<Rightarrow> Some (out, l)
      | Some h \<Rightarrow> do {
          n \<leftarrow> cells (fst l) h;
          (vs, hp, ad) \<leftarrow> m_listDelNode (fst l) (snd l) h;
          reply_keys (hp, ad) (out @ [ReplyWithString (l_val n)])
        })"

text \<open>The command after its arguments have been read.\<close>

definition scan_reply :: "int \<Rightarrow> int \<Rightarrow> int \<Rightarrow> int \<Rightarrow> 'w mstate \<Rightarrow> 'w replied" where
  "scan_reply db slot cursor cnt st = do {
     (cursor, l) \<leftarrow> SlotsMGRT_Scan (ms_slots st) db (c_int slot) (word_of_int cnt) (word_of_int cursor) empty_list;
     (buf, blen) \<leftarrow> m_ll2string (replicate LONGSTR_SIZE (CHR 0x00)) (sint cursor);
     (keys, l') \<leftarrow> reply_keys l [];
     l' \<leftarrow> m_listRelease (fst l') (snd l');
     Some (REDISMODULE_OK, [ReplyWithArray 2, ReplyWithString (take blen buf), ReplyWithArray (int (l_len (snd l)))] @ keys, st)
   }"

definition SlotsScan_RedisCommand :: "'w env \<Rightarrow> int \<Rightarrow> string list \<Rightarrow> 'w mstate \<Rightarrow> 'w replied" where
  "SlotsScan_RedisCommand env db argv st =
     (if length argv \<noteq> 3 \<and> length argv \<noteq> 5 then wrong_arity st
      else case ex_string2ll env (argv ! 1) of
        None \<Rightarrow> syntax_error st
      | Some slot \<Rightarrow> (case ex_string2ll env (argv ! 2) of
          None \<Rightarrow> syntax_error st
        | Some cursor \<Rightarrow>
            if length argv = 5
            then
              if \<not> strcasecmp_eq (argv ! 3) ''count'' then syntax_error st
              else (case ex_string2ll env (argv ! 4) of
                None \<Rightarrow> syntax_error st
              | Some v \<Rightarrow> if v < 1 then syntax_error st else scan_reply db slot cursor v st)
            else scan_reply db slot cursor 10 st))"

section \<open>Commands that migrate\<close>

text \<open>The optional last argument.\<close>

definition mgrt_type :: "string list \<Rightarrow> string option" where
  "mgrt_type argv = (if length argv = 6 then Some (argv ! 5) else None)"

text \<open>The reply of the commands that migrate one key or the keys of a tag.\<close>

definition SlotsMGRTOne_RedisCommand ::
  "'w env \<Rightarrow> int \<Rightarrow> int \<Rightarrow> string list \<Rightarrow> 'w mstate \<Rightarrow> 'w replied" where
  "SlotsMGRTOne_RedisCommand env tid db argv st =
     (if length argv \<noteq> 5 \<and> length argv \<noteq> 6 then wrong_arity st
      else case ex_string2ll env (argv ! 3) of
        None \<Rightarrow> syntax_error st
      | Some timeout \<Rightarrow> do {
          (r, st) \<leftarrow> SlotsMGRT_OneKey env tid db (argv ! 1) (argv ! 2) timeout (argv ! 4) (mgrt_type argv) st;
          if r = SLOTS_MGRT_ERR then migrate_error st
          else Some (REDISMODULE_OK, [ReplyWithLongLong r], st)
        })"

definition SlotsMGRTSlot_RedisCommand ::
  "'w env \<Rightarrow> nat list \<Rightarrow> int \<Rightarrow> int \<Rightarrow> string list \<Rightarrow> 'w mstate \<Rightarrow> 'w replied" where
  "SlotsMGRTSlot_RedisCommand env draws tid db argv st =
     (if length argv \<noteq> 5 \<and> length argv \<noteq> 6 then wrong_arity st
      else case ex_string2ll env (argv ! 3) of
        None \<Rightarrow> syntax_error st
      | Some timeout \<Rightarrow> (case ex_string2ll env (argv ! 4) of
          None \<Rightarrow> syntax_error st
        | Some slot \<Rightarrow>
            if uint (hash_slots_size (g_slots_meta_info (ms_slots st))) \<le> slot then syntax_error st
            else do {
              (r, left, st) \<leftarrow> SlotsMGRT_SlotOneKey env draws tid db (argv ! 1) (argv ! 2) timeout (c_int slot) (mgrt_type argv) st;
              if r = SLOTS_MGRT_ERR then migrate_error st
              else Some (REDISMODULE_OK, [ReplyWithArray 2, ReplyWithLongLong r, ReplyWithLongLong left], st)
            }))"

definition SlotsMGRTTagOne_RedisCommand ::
  "'w env \<Rightarrow> int \<Rightarrow> int \<Rightarrow> string list \<Rightarrow> 'w mstate \<Rightarrow> 'w replied" where
  "SlotsMGRTTagOne_RedisCommand env tid db argv st =
     (if length argv \<noteq> 5 \<and> length argv \<noteq> 6 then wrong_arity st
      else case ex_string2ll env (argv ! 3) of
        None \<Rightarrow> syntax_error st
      | Some timeout \<Rightarrow> do {
          (r, _, st) \<leftarrow> SlotsMGRT_TagKeys env tid db (argv ! 1) (argv ! 2) timeout (argv ! 4) (mgrt_type argv) st;
          if r = SLOTS_MGRT_ERR then migrate_error st
          else Some (REDISMODULE_OK, [ReplyWithLongLong r], st)
        })"

definition SlotsMGRTTagSlot_RedisCommand ::
  "'w env \<Rightarrow> nat list \<Rightarrow> int \<Rightarrow> int \<Rightarrow> string list \<Rightarrow> 'w mstate \<Rightarrow> 'w replied" where
  "SlotsMGRTTagSlot_RedisCommand env draws tid db argv st =
     (if length argv \<noteq> 5 \<and> length argv \<noteq> 6 then wrong_arity st
      else case ex_string2ll env (argv ! 3) of
        None \<Rightarrow> syntax_error st
      | Some timeout \<Rightarrow> (case ex_string2ll env (argv ! 4) of
          None \<Rightarrow> syntax_error st
        | Some slot \<Rightarrow>
            if uint (hash_slots_size (g_slots_meta_info (ms_slots st))) \<le> slot then syntax_error st
            else do {
              (r, left, st) \<leftarrow> SlotsMGRT_TagSlotKeys env draws tid db (argv ! 1) (argv ! 2) timeout (c_int slot) (mgrt_type argv) st;
              if r = SLOTS_MGRT_ERR then migrate_error st
              else Some (REDISMODULE_OK, [ReplyWithArray 2, ReplyWithLongLong r, ReplyWithLongLong left], st)
            }))"

text \<open>It waits and replies null.\<close>

definition SlotsTest_RedisCommand :: "string list \<Rightarrow> 'w mstate \<Rightarrow> 'w replied" where
  "SlotsTest_RedisCommand argv st = Some (REDISMODULE_OK, [ReplyWithNull], st)"

section \<open>Deleting the keys of slots\<close>

fun parse_slots :: "'w env \<Rightarrow> string list \<Rightarrow> int list option" where
  "parse_slots env [] = Some []"
| "parse_slots env (a # argv) =
     (case ex_string2ll env a of
        None \<Rightarrow> None
      | Some slot \<Rightarrow> do { slots \<leftarrow> parse_slots env argv; Some (c_int slot # slots) })"

fun del_reply :: "slots_state \<Rightarrow> int \<Rightarrow> int list \<Rightarrow> reply_call list option" where
  "del_reply s db [] = Some []"
| "del_reply s db (slot # slots) = do {
     d \<leftarrow> get_table s db slot;
     out \<leftarrow> del_reply s db slots;
     Some ([ReplyWithArray 2, ReplyWithLongLong slot, ReplyWithLongLong (c_llong (int (dictSize d)))] @ out)
   }"

definition SlotsDel_RedisCommand :: "'w env \<Rightarrow> int \<Rightarrow> string list \<Rightarrow> 'w mstate \<Rightarrow> 'w replied" where
  "SlotsDel_RedisCommand env db argv st =
     (if length argv < 2 then wrong_arity st
      else case parse_slots env (tl argv) of
        None \<Rightarrow> syntax_error st
      | Some slots \<Rightarrow> do {
          (r, st) \<leftarrow> SlotsMGRT_DelSlotKeys env db slots (int (length slots)) st;
          if r = SLOTS_MGRT_ERR
          then Some (REDISMODULE_ERR, [ReplyWithError REDISXSLOT_ERRORMSG_DEL], st)
          else do {
            out \<leftarrow> del_reply (ms_slots st) db slots;
            Some (REDISMODULE_OK, ReplyWithArray (int (length slots)) # out, st)
          }
        })"

section \<open>Blocked clients\<close>

text \<open>With \<open>async\<close> a command copies its arguments, with a reference to each, and starts a thread;
  \<open>started\<close> is what \<open>pthread_create\<close> does. What a handler does at once is either a reply or
  a blocked client, whose reply comes from the thread.\<close>

datatype 'w handled =
    Replied status "reply_call list" "'w mstate"
  | Blocked "string list" "'w mstate"

definition reply_now :: "'w replied \<Rightarrow> 'w handled option" where
  "reply_now r = do { (s, out, st) \<leftarrow> r; Some (Replied s out st) }"

definition copy_args :: "string list \<Rightarrow> 'w mstate \<Rightarrow> 'w mstate" where
  "copy_args argv st = st\<lparr>ms_vals := ms_vals st + mset argv\<rparr>"

definition free_args :: "string list \<Rightarrow> 'w mstate \<Rightarrow> 'w mstate" where
  "free_args argv st = st\<lparr>ms_vals := ms_vals st - mset argv\<rparr>"

text \<open>When the thread cannot be started, \<open>arg\<close> is read after it has been freed.\<close>

definition SlotsMGRTAsyncBlock_RedisCommand :: "bool \<Rightarrow> string list \<Rightarrow> 'w mstate \<Rightarrow> 'w handled option" where
  "SlotsMGRTAsyncBlock_RedisCommand started argv st =
     (let st = copy_args argv st in if started then Some (Blocked argv st) else None)"

definition SlotsRestoreAsyncBlock_RedisCommand :: "bool \<Rightarrow> string list \<Rightarrow> 'w mstate \<Rightarrow> 'w handled option" where
  "SlotsRestoreAsyncBlock_RedisCommand started argv st =
     (if length argv < 4 \<or> (length argv - 1) mod 3 \<noteq> 0 then reply_now (wrong_arity st)
      else let st = copy_args argv st in
        if started then Some (Blocked argv st)
        else Some (Replied REDISMODULE_OK [ReplyWithError ''-ERR Can't start thread''] (free_args argv st)))"

text \<open>The reply to a client blocked for \<open>SLOTSRESTORE\<close>: the result of the thread as a number.\<close>

definition SlotsRestoreAsyncBlock_Reply :: "int \<Rightarrow> status \<times> reply_call list" where
  "SlotsRestoreAsyncBlock_Reply res = (REDISMODULE_OK, [ReplyWithLongLong res])"

definition SlotsRestoreAsyncBlock_ThreadMain ::
  "'w env \<Rightarrow> int \<Rightarrow> string list \<Rightarrow> 'w mstate \<Rightarrow> 'w replied" where
  "SlotsRestoreAsyncBlock_ThreadMain env db argv st = do {
     (r, st) \<leftarrow> slotsRestoreCmd env db argv st;
     let (s, out) = SlotsRestoreAsyncBlock_Reply r;
     Some (s, out, free_args argv st)
   }"

definition SlotsRestore_RedisCommand ::
  "'w env \<Rightarrow> bool \<Rightarrow> int \<Rightarrow> string list \<Rightarrow> 'w mstate \<Rightarrow> 'w handled option" where
  "SlotsRestore_RedisCommand env started db argv st =
     (if async (g_slots_meta_info (ms_slots st)) then SlotsRestoreAsyncBlock_RedisCommand started argv st
      else if length argv < 4 \<or> (length argv - 1) mod 3 \<noteq> 0 then reply_now (wrong_arity st)
      else reply_now (do {
        (ret, st) \<leftarrow> slotsRestoreCmd env db argv st;
        if ret = SLOTS_MGRT_ERR then migrate_error st
        else Some (REDISMODULE_OK, [ReplyWithLongLong ret], st)
      }))"

section \<open>Dispatch\<close>

text \<open>By the name in the first argument. An unknown name is logged, and nothing is replied.\<close>

definition dispatchCmd :: "'w env \<Rightarrow> nat list \<Rightarrow> int \<Rightarrow> int \<Rightarrow> string list \<Rightarrow> 'w mstate \<Rightarrow> 'w replied" where
  "dispatchCmd env draws tid db argv st =
     (let cmd = argv ! 0 in
      if strcasecmp_eq cmd ''slotsmgrttagslot'' then SlotsMGRTTagSlot_RedisCommand env draws tid db argv st
      else if strcasecmp_eq cmd ''slotsmgrttagone'' then SlotsMGRTTagOne_RedisCommand env tid db argv st
      else if strcasecmp_eq cmd ''slotsmgrtslot'' then SlotsMGRTSlot_RedisCommand env draws tid db argv st
      else if strcasecmp_eq cmd ''slotsmgrtone'' then SlotsMGRTOne_RedisCommand env tid db argv st
      else if strcasecmp_eq cmd ''slotsdel'' then SlotsDel_RedisCommand env db argv st
      else if strcasecmp_eq cmd ''slotstest'' then SlotsTest_RedisCommand argv st
      else Some (REDISMODULE_OK, [], st))"

definition SlotsMGRTAsyncBlock_ThreadMain ::
  "'w env \<Rightarrow> nat list \<Rightarrow> int \<Rightarrow> int \<Rightarrow> string list \<Rightarrow> 'w mstate \<Rightarrow> 'w replied" where
  "SlotsMGRTAsyncBlock_ThreadMain env draws tid db argv st = do {
     (s, out, st) \<leftarrow> dispatchCmd env draws tid db argv st;
     Some (s, out, free_args argv st)
   }"

definition SlotsDispatchRedisCommand ::
  "'w env \<Rightarrow> bool \<Rightarrow> nat list \<Rightarrow> int \<Rightarrow> int \<Rightarrow> string list \<Rightarrow> 'w mstate \<Rightarrow> 'w handled option" where
  "SlotsDispatchRedisCommand env started draws tid db argv st =
     (if async (g_slots_meta_info (ms_slots st)) then SlotsMGRTAsyncBlock_RedisCommand started argv st
      else reply_now (dispatchCmd env draws tid db argv st))"

section \<open>The start of the module\<close>

definition DEFAULT_HASH_SLOTS_SIZE :: int where "DEFAULT_HASH_SLOTS_SIZE = 0x3ff + 1"

definition MAX_HASH_SLOTS_SIZE :: int where "MAX_HASH_SLOTS_SIZE = 0xffff + 1"

definition MAX_NUM_THREADS :: int where "MAX_NUM_THREADS = 128"

text \<open>\<open>config\<close> gives the elements of the server's reply to \<open>CONFIG GET\<close>; \<open>None\<close> is the null pointer.\<close>

definition redisModule_GetConfigItem :: "(string \<Rightarrow> string list) \<Rightarrow> string \<Rightarrow> string option" where
  "redisModule_GetConfigItem config name =
     (let reply = config name in if length reply \<noteq> 2 then None else Some (reply ! 1))"

text \<open>The number of an optional argument; the outer \<open>None\<close> is a malformed one.\<close>

definition opt_number :: "(string \<Rightarrow> int option) \<Rightarrow> string list \<Rightarrow> nat \<Rightarrow> int \<Rightarrow> int option" where
  "opt_number s2ll argv i d = (if i < length argv then s2ll (argv ! i) else Some d)"

text \<open>An absent configuration item is freed as a null pointer.\<close>

definition redisModule_SlotsInit ::
  "(string \<Rightarrow> string list) \<Rightarrow> (string \<Rightarrow> int option) \<Rightarrow> string list \<Rightarrow> slots_state \<Rightarrow> (status \<times> slots_state) option" where
  "redisModule_SlotsInit config s2ll argv s = do {
     str \<leftarrow> redisModule_GetConfigItem config ''databases'';
     let dbs = (case s2ll str of None \<Rightarrow> 0 | Some v \<Rightarrow> v);
     str \<leftarrow> redisModule_GetConfigItem config ''activerehashing'';
     let rehashing = strcasecmp_eq str ''yes'';
     (case opt_number s2ll argv 0 DEFAULT_HASH_SLOTS_SIZE of
        None \<Rightarrow> Some (REDISMODULE_ERR, s)
      | Some sz \<Rightarrow>
          if sz \<le> 0 \<or> MAX_HASH_SLOTS_SIZE < sz then Some (REDISMODULE_ERR, s)
          else (case opt_number s2ll argv 1 0 of
            None \<Rightarrow> Some (REDISMODULE_ERR, s)
          | Some num_threads \<Rightarrow>
              if num_threads < 0 \<or> MAX_NUM_THREADS < num_threads then Some (REDISMODULE_ERR, s)
              else
                let asynchronous = (2 < length argv \<and> strcasecmp_eq (argv ! 2) ''async'');
                    cpulist = (if 3 < length argv then Some (argv ! 3) else None)
                in Some (REDISMODULE_OK,
                     Slots_Init s (word_of_int sz) (c_int dbs) (c_int num_threads) rehashing asynchronous cpulist)))
   }"

datatype handler = SlotsHashKey | SlotsInfo | SlotsScan | SlotsDispatch | SlotsRestore

text \<open>The commands in the order of their registration.\<close>

definition commands :: "(string \<times> string \<times> handler) list" where
  "commands =
     [(''slotshashkey'', ''readonly'', SlotsHashKey),
      (''slotsinfo'', ''readonly'', SlotsInfo),
      (''slotsscan'', ''readonly'', SlotsScan),
      (''slotsmgrtone'', ''write deny-oom'', SlotsDispatch),
      (''slotsmgrtslot'', ''write deny-oom'', SlotsDispatch),
      (''slotsmgrttagone'', ''write deny-oom'', SlotsDispatch),
      (''slotsmgrttagslot'', ''write deny-oom'', SlotsDispatch),
      (''slotsrestore'', ''write deny-oom'', SlotsRestore),
      (''slotsdel'', ''write deny-oom'', SlotsDispatch)]"

text \<open>\<open>init\<close> and \<open>create\<close> are what \<open>RedisModule_Init\<close> and \<open>RedisModule_CreateCommand\<close> answer; the
  version check and the subscriptions cannot fail.\<close>

definition RedisModule_OnLoad ::
  "bool \<Rightarrow> (string \<Rightarrow> bool) \<Rightarrow> (string \<Rightarrow> string list) \<Rightarrow> (string \<Rightarrow> int option) \<Rightarrow> string list \<Rightarrow> slots_state
    \<Rightarrow> (status \<times> slots_state) option" where
  "RedisModule_OnLoad init create config s2ll argv s =
     (if \<not> init then Some (REDISMODULE_ERR, s)
      else do {
        (r, s) \<leftarrow> redisModule_SlotsInit config s2ll argv s;
        if r \<noteq> REDISMODULE_OK then Some (REDISMODULE_ERR, s)
        else if list_all (\<lambda>(name, attr, h). create name) commands then Some (REDISMODULE_OK, s)
        else Some (REDISMODULE_ERR, s)
      })"

definition RedisModule_OnUnload :: "slots_state \<Rightarrow> (status \<times> slots_state) option" where
  "RedisModule_OnUnload s = do { s \<leftarrow> Slots_Free s; Some (REDISMODULE_OK, s) }"

text \<open>The server calls the handler that is registered under the name of a command.\<close>

definition run_handler ::
  "'w env \<Rightarrow> bool \<Rightarrow> nat list \<Rightarrow> int \<Rightarrow> int \<Rightarrow> handler \<Rightarrow> string list \<Rightarrow> 'w mstate \<Rightarrow> 'w handled option" where
  "run_handler env started draws tid db h argv st =
     (case h of
        SlotsHashKey \<Rightarrow> reply_now (SlotsHashKey_RedisCommand argv st)
      | SlotsInfo \<Rightarrow> reply_now (SlotsInfo_RedisCommand env db argv st)
      | SlotsScan \<Rightarrow> reply_now (SlotsScan_RedisCommand env db argv st)
      | SlotsDispatch \<Rightarrow> SlotsDispatchRedisCommand env started draws tid db argv st
      | SlotsRestore \<Rightarrow> SlotsRestore_RedisCommand env started db argv st)"

end
