(* ===== verification/CommandReplies.thy ===== *)
theory CommandReplies
  imports Commands TagProps
begin

text \<open>
  What the commands reply, as trees: every command answers with exactly one complete reply.
  Refused arguments change nothing, and neither does a refused start of the module.
\<close>

section \<open>Replies as trees\<close>

datatype reply =
    IntR int
  | BulkR string
  | ErrorR string
  | NullR
  | ArityR
  | ArrayR "reply list"

text \<open>The calls that make up a reply: an array announces its length and is followed by its elements.\<close>

fun calls_of :: "reply \<Rightarrow> reply_call list" where
  "calls_of (IntR v) = [ReplyWithLongLong v]"
| "calls_of (BulkR s) = [ReplyWithString s]"
| "calls_of (ErrorR e) = [ReplyWithError e]"
| "calls_of NullR = [ReplyWithNull]"
| "calls_of ArityR = [WrongArity]"
| "calls_of (ArrayR rs) = ReplyWithArray (int (length rs)) # concat (map calls_of rs)"

definition one_reply :: "status \<Rightarrow> reply_call list \<Rightarrow> bool" where
  "one_reply s out \<longleftrightarrow> (\<exists>r. out = calls_of r \<and> (s = REDISMODULE_ERR \<longrightarrow> (\<exists>e. r = ErrorR e)))"

definition refusal :: "reply_call list \<Rightarrow> bool" where
  "refusal out \<longleftrightarrow> out = [WrongArity] \<or> out = [ReplyWithError REDISXSLOT_ERRORMSG_SYNTAX]"

text \<open>What holds of every result of a command: one reply, and nothing has changed when the arguments are refused.\<close>

definition answers :: "'w mstate \<Rightarrow> 'w replied \<Rightarrow> bool" where
  "answers st r \<longleftrightarrow> (\<forall>s out st'. r = Some (s, out, st') \<longrightarrow> one_reply s out \<and> (refusal out \<longrightarrow> st' = st))"

named_theorems answer_intros

lemma one_reply_simps [simp]:
  "one_reply s [WrongArity] = (s = REDISMODULE_OK)" "one_reply s [ReplyWithError e]"
  "one_reply s [ReplyWithLongLong v] = (s = REDISMODULE_OK)" "one_reply s [ReplyWithNull] = (s = REDISMODULE_OK)"
  by (cases s; auto simp: one_reply_def intro: exI [of _ ArityR] exI [of _ "ErrorR e"] exI [of _ "IntR v"] exI [of _ NullR])+

lemma refusal_simps [simp]:
  "refusal [WrongArity]" "refusal [ReplyWithError e] = (e = REDISXSLOT_ERRORMSG_SYNTAX)"
  "\<not> refusal [ReplyWithLongLong v]" "\<not> refusal [ReplyWithNull]" "\<not> refusal (ReplyWithArray n # out)"
  by (simp_all add: refusal_def)

lemma one_reply_OK: "out = calls_of r \<Longrightarrow> one_reply REDISMODULE_OK out"
  by (auto simp: one_reply_def)

lemma answers_wrong_arity [answer_intros]: "answers st (wrong_arity st)"
  by (simp add: answers_def wrong_arity_def)

lemma answers_syntax_error [answer_intros]: "answers st (syntax_error st)"
  by (simp add: answers_def syntax_error_def)

lemma answers_migrate_error [answer_intros]: "answers st (migrate_error st1)"
  by (simp add: answers_def migrate_error_def REDISXSLOT_ERRORMSG_SYNTAX_def REDISXSLOT_ERRORMSG_MGRT_def)

lemma answers_int [answer_intros]: "answers st (Some (REDISMODULE_OK, [ReplyWithLongLong v], st1))"
  by (simp add: answers_def)

lemma answers_tree [answer_intros]: "answers st (Some (REDISMODULE_OK, calls_of (ArrayR rs), st1))"
  by (auto simp: answers_def intro: one_reply_OK [OF refl, of "ArrayR rs", simplified])

lemma answers_pair [answer_intros]:
  "answers st (Some (REDISMODULE_OK, [ReplyWithArray 2, ReplyWithLongLong v, ReplyWithLongLong w], st1))"
  using answers_tree [of st "[IntR v, IntR w]"] by simp

lemma answers_array [answer_intros]:
  "one_reply REDISMODULE_OK (ReplyWithArray n # out) \<Longrightarrow> answers st (Some (REDISMODULE_OK, ReplyWithArray n # out, st1))"
  by (simp add: answers_def)

lemma answers_bind [answer_intros]: "(\<And>x. r = Some x \<Longrightarrow> answers st (f x)) \<Longrightarrow> answers st (r \<bind> f)"
  by (cases r) (auto simp: answers_def)

lemma answers_if [answer_intros]: "(b \<Longrightarrow> answers st r) \<Longrightarrow> (\<not> b \<Longrightarrow> answers st r') \<Longrightarrow> answers st (if b then r else r')"
  by simp

lemma answers_option [answer_intros]:
  "(x = None \<Longrightarrow> answers st r) \<Longrightarrow> (\<And>v. x = Some v \<Longrightarrow> answers st (f v)) \<Longrightarrow>
    answers st (case x of None \<Rightarrow> r | Some v \<Rightarrow> f v)"
  by (cases x) auto

lemma answers_prod [answer_intros]: "(\<And>a b. x = (a, b) \<Longrightarrow> answers st (f a b)) \<Longrightarrow> answers st (case x of (a, b) \<Rightarrow> f a b)"
  by (cases x) auto

section \<open>Every command\<close>

lemma ints_reply: "map ReplyWithLongLong vs = concat (map calls_of (map IntR vs))"
  by (induction vs) auto

lemma SlotsHashKey_answers: "answers st (SlotsHashKey_RedisCommand argv st)"
proof -
  let ?v = "\<lambda>key. sn_slot (slots_num (crc32tab (ms_slots st)) (hash_slots_size (g_slots_meta_info (ms_slots st))) key)"
  have "ReplyWithArray (int (length argv) - 1) # map (\<lambda>key. ReplyWithLongLong (?v key)) (tl argv) =
      calls_of (ArrayR (map (\<lambda>key. IntR (?v key)) (tl argv)))" if "\<not> length argv < 2"
    using that ints_reply [of "map ?v (tl argv)"] by (cases argv) (simp_all add: comp_def)
  from one_reply_OK [OF this] show ?thesis
    unfolding SlotsHashKey_RedisCommand_def by (intro answer_intros)
qed

lemma pairs_reply:
  "ReplyWithArray (int (length ps)) # concat (map (\<lambda>(a, b). [ReplyWithArray 2, ReplyWithLongLong a, ReplyWithLongLong b]) ps) =
    calls_of (ArrayR (map (\<lambda>(a, b). ArrayR [IntR a, IntR b]) ps))"
  by (induction ps) auto

lemma SlotsInfo_answers: "answers st (SlotsInfo_RedisCommand env db argv st)"
  unfolding SlotsInfo_RedisCommand_def pairs_reply by (intro answer_intros)

text \<open>The list that a scan has filled, and its emptying.\<close>

lemma scan_calls_contents:
  assumes "scan_calls d cnt loops cursor l = Some r" and "list_contents l vs"
  shows "\<exists>ws. list_contents (snd r) ws"
proof -
  have "\<forall>vs. list_contents l vs \<longrightarrow> (\<exists>ws. list_contents (snd r) ws)"
  proof (rule scan_calls.raw_induct [where P = "\<lambda>d cnt loops cursor l r. \<forall>vs. list_contents l vs \<longrightarrow> (\<exists>ws. list_contents (snd r) ws)", OF _ assms(1)],
      intro allI impI)
    fix f :: "(string, int) dict \<Rightarrow> nat \<Rightarrow> int \<Rightarrow> u64 \<Rightarrow> string lheap \<times> string adlist \<Rightarrow> (u64 \<times> string lheap \<times> string adlist) option"
    fix d cnt loops cursor l r vs
    assume IH: "\<And>d cnt loops cursor l r. f d cnt loops cursor l = Some r \<Longrightarrow>
        \<forall>vs. list_contents l vs \<longrightarrow> (\<exists>ws. list_contents (snd r) ws)"
      and run: "m_dictScan d cursor \<bind> (\<lambda>(es, cursor). slotsScanRedisModuleKeyCallback es l \<bind>
         (\<lambda>l. c_assert (- (2 ^ 63) < loops) \<bind>
              (\<lambda>_. if cursor \<noteq> 0 \<and> 0 < loops - 1 \<and> l_len (snd l) < cnt then f d cnt (loops - 1) cursor l
                   else Some (cursor, l)))) = Some r"
      and l: "list_contents l vs"
    obtain es cursor' l1 where s: "m_dictScan d cursor = Some (es, cursor')" "slotsScanRedisModuleKeyCallback es l = Some l1"
      using run by (auto split: bind_splits)
    then have "list_contents l1 (vs @ map fst es)" using callback_contents [OF l, of es] by auto
    then show "\<exists>ws. list_contents (snd r) ws" using run s IH [of d cnt "loops - 1" cursor' l1 r]
      by (auto split: if_splits bind_splits)
  qed
  then show ?thesis using assms(2) by blast
qed

lemma reply_keys_contents:
  assumes "list_contents l vs"
  shows "\<exists>l'. reply_keys l out = Some (out @ map ReplyWithString vs, l') \<and> list_contents l' []"
  using assms
proof (induction vs arbitrary: l out)
  case Nil
  then show ?case using contents_empty [OF Nil] by (subst reply_keys.simps) simp
next
  case (Cons v vs)
  obtain h n freed hp ad where h: "l_head (snd l) = Some h" "cells (fst l) h = Some n" "l_val n = v"
    "m_listDelNode (fst l) (snd l) h = Some (freed, hp, ad)" "list_contents (hp, ad) vs"
    by (rule contents_head [OF Cons.prems])
  then show ?case using Cons.IH [OF h(5), of "out @ [ReplyWithString v]"] by (subst reply_keys.simps) simp
qed

lemma keys_reply: "map ReplyWithString ks = concat (map calls_of (map BulkR ks))"
  by (induction ks) auto

text \<open>The reply of a scan whose list is known.\<close>

lemma scan_reply_tree:
  assumes "SlotsMGRT_Scan (ms_slots st) db (c_int slot) (word_of_int cnt) (word_of_int cursor) empty_list = Some (next_cursor, l)"
    and "list_contents l ks"
  shows "scan_reply db slot cursor cnt st =
    Some (REDISMODULE_OK, calls_of (ArrayR [BulkR (show_int (sint next_cursor)), ArrayR (map BulkR ks)]), st)"
proof -
  have ll: "is_llong (sint next_cursor)"
    using sint_ge [of next_cursor] sint_lt [of next_cursor] by (simp add: is_llong_def LLONG_MIN_def LLONG_MAX_def)
  have b: "m_ll2string (replicate LONGSTR_SIZE (CHR 0x00)) (sint next_cursor) =
      Some (show_int (sint next_cursor) @ CHR 0x00 # drop (Suc (length (show_int (sint next_cursor)))) (replicate LONGSTR_SIZE (CHR 0x00)),
        length (show_int (sint next_cursor)))"
    using m_ll2string_spec [OF ll, of "replicate LONGSTR_SIZE (CHR 0x00)"] show_int_short [OF ll]
    by (simp add: Let_def)
  obtain l' where l': "reply_keys l [] = Some (map ReplyWithString ks, l')" "list_contents l' []"
    using reply_keys_contents [OF assms(2), of "[]"] by auto
  obtain r where r: "m_listRelease (fst l') (snd l') = Some r" using release_contents [OF l'(2)] by blast
  have len: "l_len (snd l) = length ks" using assms(2) adlist_length by (auto simp: list_contents_def)
  show ?thesis unfolding scan_reply_def assms(1) using b l'(1) r len keys_reply [of ks] by simp
qed

lemma scan_reply_answers [answer_intros]: "answers st (scan_reply db slot cursor cnt st)"
proof (cases "SlotsMGRT_Scan (ms_slots st) db (c_int slot) (word_of_int cnt) (word_of_int cursor) empty_list")
  case None
  then show ?thesis by (simp add: scan_reply_def answers_def)
next
  case (Some r)
  then obtain d where "scan_calls d (unat (word_of_int cnt :: u64)) (sint (word_of_int cnt * 10 :: u64)) (word_of_int cursor) empty_list = Some r"
    by (auto simp: SlotsMGRT_Scan_def split: bind_splits)
  from scan_calls_contents [OF this contents_empty_list] obtain ks where ks: "list_contents (snd r) ks" by blast
  obtain c l where rr: "r = (c, l)" by (cases r)
  then have "list_contents l ks" using ks by simp
  from scan_reply_tree [OF Some [unfolded rr] this] show ?thesis by (metis answers_tree)
qed

lemma SlotsScan_answers: "answers st (SlotsScan_RedisCommand env db argv st)"
  unfolding SlotsScan_RedisCommand_def by (intro answer_intros)

lemma SlotsMGRT_answers:
  "answers st (SlotsMGRTOne_RedisCommand env tid db argv st)"
  "answers st (SlotsMGRTTagOne_RedisCommand env tid db argv st)"
  "answers st (SlotsMGRTSlot_RedisCommand env draws tid db argv st)"
  "answers st (SlotsMGRTTagSlot_RedisCommand env draws tid db argv st)"
  unfolding SlotsMGRTOne_RedisCommand_def SlotsMGRTTagOne_RedisCommand_def SlotsMGRTSlot_RedisCommand_def
    SlotsMGRTTagSlot_RedisCommand_def by (intro answer_intros)+

lemma del_reply_tree:
  "del_reply s db slots = Some out \<Longrightarrow> \<exists>rs. length rs = length slots \<and> out = concat (map calls_of rs)"
proof (induction slots arbitrary: out)
  case (Cons slot slots)
  then obtain out' k where d: "del_reply s db slots = Some out'"
    "out = [ReplyWithArray 2, ReplyWithLongLong slot, ReplyWithLongLong k] @ out'"
    by (fastforce split: bind_splits)
  from Cons.IH [OF d(1)] obtain rs where rs: "length rs = length slots" "out' = concat (map calls_of rs)" by blast
  then show ?case using d(2)
    by (intro exI [of _ "ArrayR [IntR slot, IntR k] # rs"]) simp
qed simp

lemma SlotsDel_answers: "answers st (SlotsDel_RedisCommand env db argv st)"
proof -
  have "one_reply REDISMODULE_OK (ReplyWithArray (int (length slots)) # out)" if d: "del_reply s db slots = Some out" for s slots out
  proof -
    from del_reply_tree [OF d] obtain rs where "length rs = length slots" "out = concat (map calls_of rs)" by blast
    then show ?thesis using one_reply_OK [of _ "ArrayR rs"] by simp
  qed
  moreover have "answers st (Some (REDISMODULE_ERR, [ReplyWithError REDISXSLOT_ERRORMSG_DEL], st1))" for st1
    by (simp add: answers_def REDISXSLOT_ERRORMSG_SYNTAX_def REDISXSLOT_ERRORMSG_DEL_def)
  ultimately show ?thesis unfolding SlotsDel_RedisCommand_def by (intro answer_intros)
qed

section \<open>Dispatch\<close>

lemma strcasecmp_eq_trans: "strcasecmp_eq a b \<Longrightarrow> strcasecmp_eq a c = strcasecmp_eq b c"
  by (simp add: strcasecmp_eq_def)

definition dispatched :: "string list" where
  "dispatched = [''slotsmgrtone'', ''slotsmgrtslot'', ''slotsmgrttagone'', ''slotsmgrttagslot'', ''slotsdel'']"

lemma dispatched_commands: "(name, attr, SlotsDispatch) \<in> set commands \<Longrightarrow> name \<in> set dispatched"
  by (auto simp: commands_def dispatched_def)

lemma dispatched_distinct:
  "list_all (\<lambda>a. list_all (\<lambda>b. strcasecmp_eq a b = (a = b)) (''slotstest'' # dispatched)) dispatched"
  by code_simp

lemma dispatched_eq:
  assumes "name \<in> set dispatched" and "strcasecmp_eq cmd name" and "b \<in> set (''slotstest'' # dispatched)"
  shows "strcasecmp_eq cmd b \<longleftrightarrow> name = b"
proof -
  have "strcasecmp_eq name b \<longleftrightarrow> name = b" using dispatched_distinct assms(1,3) unfolding list_all_iff by blast
  then show ?thesis using strcasecmp_eq_trans [OF assms(2), of b] by simp
qed

text \<open>Every registered name reaches its command.\<close>

lemma dispatchCmd_eq:
  assumes "strcasecmp_eq (argv ! 0) name"
  shows "name = ''slotsmgrtone'' \<Longrightarrow> dispatchCmd env draws tid db argv st = SlotsMGRTOne_RedisCommand env tid db argv st"
    "name = ''slotsmgrtslot'' \<Longrightarrow> dispatchCmd env draws tid db argv st = SlotsMGRTSlot_RedisCommand env draws tid db argv st"
    "name = ''slotsmgrttagone'' \<Longrightarrow> dispatchCmd env draws tid db argv st = SlotsMGRTTagOne_RedisCommand env tid db argv st"
    "name = ''slotsmgrttagslot'' \<Longrightarrow> dispatchCmd env draws tid db argv st = SlotsMGRTTagSlot_RedisCommand env draws tid db argv st"
    "name = ''slotsdel'' \<Longrightarrow> dispatchCmd env draws tid db argv st = SlotsDel_RedisCommand env db argv st"
  using dispatched_eq [OF _ assms] by (simp_all add: dispatchCmd_def dispatched_def)

lemma dispatchCmd_answers:
  assumes "name \<in> set dispatched" and "strcasecmp_eq (argv ! 0) name"
  shows "answers st (dispatchCmd env draws tid db argv st)"
  using assms(1) dispatchCmd_eq [OF assms(2), of env draws tid db st] SlotsMGRT_answers SlotsDel_answers
  unfolding dispatched_def by auto

lemma answers_now:
  "answers st r \<Longrightarrow> reply_now r = Some (Replied s out st') \<Longrightarrow> one_reply s out \<and> (refusal out \<longrightarrow> st' = st)"
  by (auto simp: answers_def reply_now_def split: bind_splits)

section \<open>Properties\<close>

text \<open>C15: A command that answers at once answers with exactly one complete reply: the arrays have as many
  elements as they announce, and a failing command has replied an error. Whatever the arguments
  are, every registered name reaches its command, and when the arguments are refused nothing has
  changed: no key, no connection, no request.\<close>

theorem run_handler_one_reply:
  assumes "(name, attr, h) \<in> set commands" and "strcasecmp_eq (argv ! 0) name"
    and "run_handler env started draws tid db h argv st = Some (Replied s out st')"
  shows "\<exists>r. out = calls_of r \<and> (s = REDISMODULE_ERR \<longrightarrow> (\<exists>e. r = ErrorR e)) \<and>
    (r = ArityR \<or> r = ErrorR REDISXSLOT_ERRORMSG_SYNTAX \<longrightarrow> st' = st)"
proof -
  have d: "answers st (dispatchCmd env draws tid db argv st)" if "h = SlotsDispatch"
    using dispatchCmd_answers [OF dispatched_commands assms(2)] assms(1) that by simp
  have r: "answers st (do {
        (ret, st) \<leftarrow> slotsRestoreCmd env db argv st;
        if ret = SLOTS_MGRT_ERR then migrate_error st
        else Some (REDISMODULE_OK, [ReplyWithLongLong ret], st)
      })" by (intro answer_intros)
  have "one_reply s out \<and> (refusal out \<longrightarrow> st' = st)"
  proof (cases "h = SlotsRestore \<and> async (g_slots_meta_info (ms_slots st))")
    case True
    then show ?thesis using assms(3) answers_now [OF answers_wrong_arity, of st s out st']
      by (auto simp: run_handler_def SlotsRestore_RedisCommand_def SlotsRestoreAsyncBlock_RedisCommand_def Let_def
        REDISXSLOT_ERRORMSG_SYNTAX_def split: if_splits)
  next
    case False
    then have "\<exists>r. answers st r \<and> reply_now r = Some (Replied s out st')"
      using assms(3) d r SlotsHashKey_answers [of st argv] SlotsInfo_answers [of st env db argv] SlotsScan_answers [of st env db argv]
        answers_wrong_arity [of st]
      by (auto simp: run_handler_def SlotsRestore_RedisCommand_def SlotsDispatchRedisCommand_def
        SlotsMGRTAsyncBlock_RedisCommand_def Let_def split: handler.splits if_splits)
    then show ?thesis using answers_now by blast
  qed
  then obtain r where "out = calls_of r" "s = REDISMODULE_ERR \<longrightarrow> (\<exists>e. r = ErrorR e)" "refusal out \<longrightarrow> st' = st"
    by (auto simp: one_reply_def)
  then show ?thesis by auto
qed

lemma run_handler_one_reply_witness:
  "\<exists>v r. [ReplyWithArray 1, ReplyWithLongLong v] = calls_of r \<and> SlotsHashKey_RedisCommand [''slotshashkey'', ''k''] (demo_mstate []) =
     Some (REDISMODULE_OK, calls_of r, demo_mstate [])"
proof -
  let ?st = "demo_mstate []" and ?v = "sn_slot (slots_num crc32_init 16 ''k'')"
  have h: "SlotsHashKey_RedisCommand [''slotshashkey'', ''k''] ?st = Some (REDISMODULE_OK, [ReplyWithArray 1, ReplyWithLongLong ?v], ?st)"
    by (simp add: SlotsHashKey_RedisCommand_def demo_mstate_def demo_state)
  then have run: "run_handler demo_env True [] 7 0 SlotsHashKey [''slotshashkey'', ''k''] ?st =
      Some (Replied REDISMODULE_OK [ReplyWithArray 1, ReplyWithLongLong ?v] ?st)"
    by (simp add: run_handler_def reply_now_def)
  have "(''slotshashkey'', ''readonly'', SlotsHashKey) \<in> set commands" by (simp add: commands_def)
  moreover have "strcasecmp_eq ([''slotshashkey'', ''k''] ! 0) ''slotshashkey''" by (simp add: strcasecmp_eq_def)
  ultimately obtain r where "[ReplyWithArray 1, ReplyWithLongLong ?v] = calls_of r"
    using run_handler_one_reply [OF _ _ run, of "''slotshashkey''" "''readonly''"] by blast
  then show ?thesis using h by metis
qed

end
