(* ===== verification/CommandProps.thy ===== *)
theory CommandProps
  imports CommandReplies
begin

text \<open>
  The commands as a client sees them: what \<open>SLOTSINFO\<close> lists, paging with \<open>SLOTSSCAN\<close> by the
  texts of its cursors, \<open>SLOTSDEL\<close>, the checks at the start of the module, and the arguments
  and failures that the commands do not handle.
\<close>

section \<open>SLOTSINFO\<close>

abbreviation slot_set :: "slots_state \<Rightarrow> int \<Rightarrow> nat \<Rightarrow> string set" where
  "slot_set s db i \<equiv> slot_keys (key_num s) (int i) (index s db)"

text \<open>The slots from \<open>i\<close> up to \<open>stop\<close> that have keys, with their number.\<close>

definition used_slots :: "slots_state \<Rightarrow> int \<Rightarrow> nat \<Rightarrow> int \<Rightarrow> (int \<times> int) list" where
  "used_slots s db i stop =
     map (\<lambda>j. (int j, int (card (slot_set s db j))))
       (filter (\<lambda>j. slot_set s db j \<noteq> {}) [i..<min (nat stop) (slots_size s)])"

lemma used_slots_step:
  assumes "i < min (nat stop) (slots_size s)"
  shows "used_slots s db i stop =
    (if slot_set s db i = {} then used_slots s db (Suc i) stop
     else (int i, int (card (slot_set s db i))) # used_slots s db (Suc i) stop)"
  using assms by (simp add: used_slots_def upt_conv_Cons)

lemma finite_slot_set: "finite (slot_set s db i)"
  using finite_index [of s db] by (simp add: slot_keys_def)

lemma info_loop_lists:
  assumes s: "slots_inv cmp s" and db: "0 \<le> db" "db < num_dbs s" and sz: "slots_size s < 2 ^ 31"
    and card: "card (index s db) < 2 ^ 31" and len: "length found \<le> i"
  shows "info_loop s db stop (int i) found = Some (found @ used_slots s db i stop)"
  using len
proof (induction "slots_size s - i" arbitrary: i found)
  case 0
  have "c_int (uint (hash_slots_size (g_slots_meta_info s))) = int (slots_size s)"
    using c_int_small [OF sz] by simp
  moreover have le: "slots_size s \<le> i" using 0(1) by simp
  then have "int (slots_size s) \<le> int i" by (simp only: of_nat_le_iff)
  ultimately show ?case using le by (subst info_loop.simps) (simp add: used_slots_def)
next
  case (Suc n)
  have e: "c_int (uint (hash_slots_size (g_slots_meta_info s))) = int (slots_size s)"
    using c_int_small [OF sz] by simp
  show ?case
  proof (cases "int i < stop")
    case False
    then show ?thesis by (subst info_loop.simps) (simp add: used_slots_def)
  next
    case True
    have i: "i < slots_size s" using Suc(2) by simp
    then have "int i < int (slots_size s)" by (simp only: of_nat_less_iff)
    then have iu: "int i < uint (hash_slots_size (g_slots_meta_info s))" by simp
    obtain d where d: "get_table s db (int i) = Some d" "dictSize d = card (slot_set s db i)"
      by (rule inv_table [OF s db i])
    have "card (slot_set s db i) \<le> card (index s db)"
      using finite_index [of s db] by (intro card_mono) (auto simp: slot_keys_def)
    then have k: "c_int (int (dictSize d)) = int (card (slot_set s db i))" using d(2) card c_int_small by simp
    have z: "card (slot_set s db i) = 0 \<longleftrightarrow> slot_set s db i = {}" using finite_slot_set by simp
    have n: "n = slots_size s - Suc i" using Suc(2) by simp
    have st: "i < min (nat stop) (slots_size s)" using True i by simp
    have "info_loop s db stop (int (Suc i)) f = Some (f @ used_slots s db (Suc i) stop)" if "length f \<le> Suc i" for f
      using Suc(1) [OF n that] .
    then show ?thesis
      using True e i iu d(1) k z Suc.prems used_slots_step [OF st] 
      by (subst info_loop.simps) (simp add: c_assert_def add.commute)
  qed
qed

text \<open>What the command answers, from the \<open>int\<close> that the loop starts with.\<close>

definition info_reply :: "(int \<times> int) list \<Rightarrow> reply_call list" where
  "info_reply found = calls_of (ArrayR (map (\<lambda>(slot, n). ArrayR [IntR slot, IntR n]) found))"

lemma SlotsInfo_replies:
  assumes "slots_inv (ex_cmp env) (ms_slots st)" and "0 \<le> db" and "db < num_dbs (ms_slots st)"
    and "slots_size (ms_slots st) < 2 ^ 31" and "card (index (ms_slots st) db) < 2 ^ 31"
    and "ex_string2ll env a = Some start" and "ex_string2ll env b = Some cnt"
    and "is_llong (start + cnt)" and "c_int start = int i"
  shows "SlotsInfo_RedisCommand env db [cmd, a, b] st =
    Some (REDISMODULE_OK, info_reply (used_slots (ms_slots st) db i (start + cnt)), st)"
proof -
  have "info_loop (ms_slots st) db (start + cnt) (int i) [] = Some ([] @ used_slots (ms_slots st) db i (start + cnt))"
    by (rule info_loop_lists [OF assms(1-5)]) simp
  then show ?thesis using assms(6-9) pairs_reply [of "used_slots (ms_slots st) db i (start + cnt)"]
    by (simp add: SlotsInfo_RedisCommand_def info_reply_def c_assert_def)
qed

section \<open>Paging with SLOTSSCAN\<close>

text \<open>The server reads the decimal notation of a number, as documented.\<close>

definition reads_numbers :: "'w env \<Rightarrow> bool" where
  "reads_numbers env \<longleftrightarrow> (\<forall>v. is_llong v \<longrightarrow> ex_string2ll env (show_int v) = Some v)"

text \<open>A client that sends the cursor of the last reply until it is 0, and gathers the keys; the counts
  may change from call to call.\<close>

fun bulk_strings :: "reply_call list \<Rightarrow> string list" where
  "bulk_strings [] = []"
| "bulk_strings (ReplyWithString k # out) = k # bulk_strings out"
| "bulk_strings (c # out) = bulk_strings out"

partial_function (option) scan_client ::
  "'w env \<Rightarrow> int \<Rightarrow> int \<Rightarrow> (nat \<Rightarrow> int) \<Rightarrow> nat \<Rightarrow> string \<Rightarrow> 'w mstate \<Rightarrow> (string list \<times> 'w mstate) option" where
  "scan_client env db slot counts n cursor st = do {
     (s, out, st) \<leftarrow> SlotsScan_RedisCommand env db
       [''SLOTSSCAN'', show_int slot, cursor, ''COUNT'', show_int (counts n)] st;
     let cursor = hd (bulk_strings out);
     let keys = tl (bulk_strings out);
     if cursor = ''0'' then Some (keys, st)
     else do { (ks, st) \<leftarrow> scan_client env db slot counts (n + 1) cursor st; Some (keys @ ks, st) }
   }"

lemma bulk_strings_tree: "bulk_strings (calls_of (ArrayR [BulkR c, ArrayR (map BulkR ks)])) = c # ks"
proof -
  have "bulk_strings (concat (map (calls_of \<circ> BulkR) ks)) = ks" by (induction ks) auto
  then show ?thesis by simp
qed

lemma SlotsScan_page:
  assumes "reads_numbers env" and "is_llong slot" and "c_int slot = slot" and "1 \<le> cnt" and "is_llong cnt"
    and "SlotsMGRT_Scan (ms_slots st) db slot (word_of_int cnt) cursor empty_list = Some (next_cursor, l)"
    and "list_contents l ks"
  shows "SlotsScan_RedisCommand env db [''SLOTSSCAN'', show_int slot, show_int (sint cursor), ''COUNT'', show_int cnt] st =
    Some (REDISMODULE_OK, calls_of (ArrayR [BulkR (show_int (sint next_cursor)), ArrayR (map BulkR ks)]), st)"
proof -
  have ll: "is_llong (sint cursor)"
    using sint_ge [of cursor] sint_lt [of cursor] by (simp add: is_llong_def LLONG_MIN_def LLONG_MAX_def)
  have r: "ex_string2ll env (show_int v) = Some v" if "is_llong v" for v using assms(1) that by (simp add: reads_numbers_def)
  have c: "strcasecmp_eq ''COUNT'' ''count''" by code_simp
  have "scan_reply db slot (sint cursor) cnt st =
      Some (REDISMODULE_OK, calls_of (ArrayR [BulkR (show_int (sint next_cursor)), ArrayR (map BulkR ks)]), st)"
    by (rule scan_reply_tree [OF _ assms(7)]) (simp add: assms(3,6))
  then show ?thesis using r [OF assms(2)] r [OF assms(5)] r [OF ll] c assms(4)
    by (simp add: SlotsScan_RedisCommand_def del: calls_of.simps)
qed

lemma show_int_zero:
  assumes "is_llong v"
  shows "show_int v = ''0'' \<longleftrightarrow> v = 0"
proof
  assume e: "show_int v = ''0''"
  have z: "show_int 0 = ''0''" by code_simp
  have "is_llong 0" by (simp add: is_llong_def LLONG_MIN_def LLONG_MAX_def)
  then have "m_string2ll ''0'' = Some v" "m_string2ll ''0'' = Some 0" using assms e z m_string2ll_iff by metis+
  then show "v = 0" by simp
qed (simp, code_simp)

lemma sint_zero_iff: "sint (c :: u64) = 0 \<longleftrightarrow> c = 0"
  by (metis signed_0 signed_word_eqI)

lemma scan_client_rest:
  assumes env: "reads_numbers env" and slot: "is_llong slot" "c_int slot = slot"
    and counts: "\<And>n. 1 \<le> counts n" "\<And>n. is_llong (counts n)" "\<And>n. page_count_ok (word_of_int (counts n))"
    and t: "get_table (ms_slots st) db slot = Some d" and k: "k \<le> 60"
    and step: "\<And>i. i < 2 ^ k \<Longrightarrow> m_dictScan d (cur k i) = Some (f i, cur k ((i + 1) mod 2 ^ k))"
    and i: "i < 2 ^ k"
  shows "scan_client env db slot counts n (show_int (sint (cur k i))) st =
    Some (map fst (concat (map f [i..<2 ^ k])), st)"
  using i
proof (induction "2 ^ k - i" arbitrary: i n rule: less_induct)
  case less
  obtain j l where j: "i < j" "j \<le> 2 ^ k"
    "scan_calls d (unat (word_of_int (counts n) :: u64)) (sint (word_of_int (counts n) * 10 :: u64)) (cur k i) empty_list =
      Some (cur k (j mod 2 ^ k), l)" "list_contents l ([] @ map fst (concat (map f [i..<j])))"
    using scan_calls_advance [OF k step less.prems contents_empty_list page_count_loops [OF counts(3)]] by blast
  then have r: "SlotsMGRT_Scan (ms_slots st) db slot (word_of_int (counts n)) (cur k i) empty_list = Some (cur k (j mod 2 ^ k), l)"
    using t by (simp add: SlotsMGRT_Scan_def)
  let ?c = "cur k (j mod 2 ^ k)"
  obtain keys where keys: "map fst (concat (map f [i..<j])) = keys" by blast
  have page: "SlotsScan_RedisCommand env db [''SLOTSSCAN'', show_int slot, show_int (sint (cur k i)), ''COUNT'', show_int (counts n)] st =
      Some (REDISMODULE_OK, calls_of (ArrayR [BulkR (show_int (sint ?c)), ArrayR (map BulkR keys)]), st)"
    by (rule SlotsScan_page [OF env slot counts(1,2) r]) (use j(4) keys in simp)
  have ll: "is_llong (sint ?c)"
    using sint_ge [of ?c] sint_lt [of ?c] by (simp add: is_llong_def LLONG_MIN_def LLONG_MAX_def)
  have z: "show_int (sint ?c) = ''0'' \<longleftrightarrow> ?c = 0" using show_int_zero [OF ll] sint_zero_iff by simp
  have run: "scan_client env db slot counts n (show_int (sint (cur k i))) st =
      (if ?c = 0 then Some (keys, st)
       else do { (ks, st) \<leftarrow> scan_client env db slot counts (n + 1) (show_int (sint ?c)) st; Some (keys @ ks, st) })"
    using page z by (subst scan_client.simps) (simp add: bulk_strings_tree Let_def del: calls_of.simps)
  show ?case
  proof (cases "j = 2 ^ k")
    case True
    then show ?thesis using run keys by (simp add: cur_zero)
  next
    case False
    then have lt: "j < 2 ^ k" using j(2) by simp
    have nz: "cur k j \<noteq> 0"
    proof
      assume "cur k j = 0"
      then have "j = 0" using lt k by (intro cur_inj [of k]) (simp_all add: cur_zero)
      then show False using j(1) by simp
    qed
    have "scan_client env db slot counts (n + 1) (show_int (sint (cur k j))) st =
        Some (map fst (concat (map f [j..<2 ^ k])), st)"
      by (rule less.hyps [OF diff_less_mono2 [OF j(1) less.prems] lt])
    moreover have "[i..<2 ^ k] = [i..<j] @ [j..<2 ^ k]" using j(1) lt by (metis le_add_diff_inverse less_imp_le upt_add_eq_append)
    ultimately show ?thesis using run nz lt keys by simp
  qed
qed

lemma small_count: "1 \<le> v \<Longrightarrow> v < 2 ^ 59 \<Longrightarrow> is_llong v \<and> page_count_ok (word_of_int v)"
proof -
  assume v: "1 \<le> v" "v < 2 ^ 59"
  have "uint ((word_of_int v :: u64) * 10) = v * 10 mod 2 ^ 64"
    by (simp add: uint_word_ariths uint_word_of_int mod_mult_left_eq)
  also have "\<dots> = v * 10" using v by simp
  finally have "uint ((word_of_int v :: u64) * 10) = v * 10" .
  moreover have "uint (2 ^ 63 :: u64) = 2 ^ 63" by simp
  ultimately have "(word_of_int v :: u64) * 10 \<noteq> 2 ^ 63" using v by auto
  then show ?thesis using v by (simp add: page_count_ok_def is_llong_def LLONG_MIN_def LLONG_MAX_def)
qed

section \<open>SLOTSDEL\<close>

text \<open>Every slot with no key left.\<close>

lemma del_reply_empty:
  assumes s: "slots_inv cmp s" and db: "0 \<le> db" "db < num_dbs s"
    and slots: "\<forall>slot \<in> set slots. slot < slots_size s \<and> slot_set s db slot = {}"
  shows "del_reply s db (map int slots) =
    Some (concat (map calls_of (map (\<lambda>slot. ArrayR [IntR (int slot), IntR 0]) slots)))"
  using slots
proof (induction slots)
  case (Cons slot slots)
  obtain d where d: "get_table s db (int slot) = Some d" "dictSize d = card (slot_set s db slot)"
    by (rule inv_table [OF s db, of slot]) (use Cons.prems in auto)
  then have "dictSize d = 0" using Cons.prems by simp
  then show ?case using d(1) Cons by (simp add: c_llong_def)
qed simp

lemma parse_slots_eq:
  assumes "reads_numbers env" and "\<forall>slot \<in> set slots. slot < 2 ^ 31"
  shows "parse_slots env (map (\<lambda>slot. show_int (int slot)) slots) = Some (map int slots)"
  using assms(2)
proof (induction slots)
  case (Cons slot slots)
  have "is_llong (int slot)" using Cons.prems by (simp add: is_llong_def LLONG_MIN_def LLONG_MAX_def)
  then show ?case using Cons assms(1) c_int_small [of slot] by (simp add: reads_numbers_def)
qed simp

section \<open>Properties\<close>

text \<open>C24: \<open>SLOTSINFO start count\<close> lists the slots from \<open>start\<close> on, at most \<open>count\<close> of them that exist,
  without the empty ones, in order, each with the number of its keys.\<close>

theorem SlotsInfo_lists_slots:
  assumes "slots_inv (ex_cmp env) (ms_slots st)" and "0 \<le> db" and "db < num_dbs (ms_slots st)"
    and "slots_size (ms_slots st) < 2 ^ 31" and "card (index (ms_slots st) db) < 2 ^ 31"
    and "ex_string2ll env a = Some (int start)" and "ex_string2ll env b = Some (int cnt)"
    and "start < 2 ^ 31" and "cnt < 2 ^ 62"
  shows "SlotsInfo_RedisCommand env db [cmd, a, b] st =
    Some (REDISMODULE_OK, calls_of (ArrayR (map (\<lambda>i. ArrayR [IntR (int i), IntR (int (card (slot_set (ms_slots st) db i)))])
      (filter (\<lambda>i. slot_set (ms_slots st) db i \<noteq> {}) [start..<min (start + cnt) (slots_size (ms_slots st))]))), st)"
proof -
  have "is_llong (int start + int cnt)" using assms(8,9) by (simp add: is_llong_def LLONG_MIN_def LLONG_MAX_def)
  from SlotsInfo_replies [OF assms(1-7) this c_int_small [OF assms(8)], of cmd] show ?thesis
    by (simp add: info_reply_def used_slots_def nat_add_distrib comp_def)
qed

lemma demo_inv: "slots_inv (ex_cmp demo_env) (ms_slots (demo_mstate ks))" "num_dbs (ms_slots (demo_mstate ks)) = 2"
  "slots_size (ms_slots (demo_mstate ks)) = 16" "index (ms_slots (demo_mstate ks)) 0 = {''a{t}''}"
  "key_num (ms_slots (demo_mstate ks)) = slots_num crc32_init 16"
  using demo_state by (simp_all add: demo_mstate_def demo_env_def)

lemma demo_reads: "reads_numbers demo_env" "ex_string2ll demo_env = m_string2ll"
  using m_string2ll_iff by (auto simp: reads_numbers_def demo_env_def)

lemma SlotsInfo_lists_slots_witness:
  "SlotsInfo_RedisCommand demo_env 0 [''slotsinfo'', ''3'', ''2''] (demo_mstate []) =
    Some (REDISMODULE_OK, calls_of (ArrayR (map (\<lambda>i. ArrayR [IntR (int i), IntR (int (card (slot_set (ms_slots (demo_mstate [])) 0 i)))])
      (filter (\<lambda>i. slot_set (ms_slots (demo_mstate [])) 0 i \<noteq> {}) [3..<min (3 + 2) (slots_size (ms_slots (demo_mstate [])))]))), demo_mstate [])"
proof (rule SlotsInfo_lists_slots)
  show "ex_string2ll demo_env ''3'' = Some (int 3)" "ex_string2ll demo_env ''2'' = Some (int 2)"
    unfolding demo_reads(2) by code_simp+
qed (simp_all only: demo_inv, simp_all)

text \<open>C25: The start is cut to 32 bits for the loop, but not for its end: \<open>SLOTSINFO 4294967296 1\<close>, a
  slot that does not exist, lists all slots from 0 on.\<close>

theorem SlotsInfo_start_wraps:
  assumes "slots_inv (ex_cmp env) (ms_slots st)" and "0 \<le> db" and "db < num_dbs (ms_slots st)"
    and "slots_size (ms_slots st) < 2 ^ 31" and "card (index (ms_slots st) db) < 2 ^ 31"
    and "ex_string2ll env a = Some (2 ^ 32)" and "ex_string2ll env b = Some (int cnt)" and "cnt < 2 ^ 62"
  shows "SlotsInfo_RedisCommand env db [cmd, a, b] st =
    Some (REDISMODULE_OK, calls_of (ArrayR (map (\<lambda>i. ArrayR [IntR (int i), IntR (int (card (slot_set (ms_slots st) db i)))])
      (filter (\<lambda>i. slot_set (ms_slots st) db i \<noteq> {}) [0..<slots_size (ms_slots st)]))), st)"
proof -
  have ll: "is_llong (2 ^ 32 + int cnt)" using assms(8) by (simp add: is_llong_def LLONG_MIN_def LLONG_MAX_def)
  have c: "c_int (2 ^ 32) = int 0" by (simp add: c_int_def)
  have m: "min (nat (2 ^ 32 + int cnt)) (slots_size (ms_slots st)) = slots_size (ms_slots st)"
  proof -
    have "slots_size (ms_slots st) \<le> nat (2 ^ 32 + int cnt)" using assms(4) by (simp add: nat_add_distrib)
    then show ?thesis by simp
  qed
  from SlotsInfo_replies [OF assms(1-7) ll c, of cmd] show ?thesis
    unfolding info_reply_def used_slots_def m by (simp add: comp_def)
qed

lemma SlotsInfo_start_wraps_witness:
  "SlotsInfo_RedisCommand demo_env 0 [''slotsinfo'', ''4294967296'', ''1''] (demo_mstate []) =
    Some (REDISMODULE_OK, calls_of (ArrayR (map (\<lambda>i. ArrayR [IntR (int i), IntR (int (card (slot_set (ms_slots (demo_mstate [])) 0 i)))])
      (filter (\<lambda>i. slot_set (ms_slots (demo_mstate [])) 0 i \<noteq> {}) [0..<slots_size (ms_slots (demo_mstate []))]))), demo_mstate [])"
proof (rule SlotsInfo_start_wraps [where cnt = 1])
  show "ex_string2ll demo_env ''4294967296'' = Some (2 ^ 32)" "ex_string2ll demo_env ''1'' = Some (int 1)"
    unfolding demo_reads(2) by code_simp+
qed (simp_all only: demo_inv, simp_all)

text \<open>C16: A client that pages through a slot with \<open>SLOTSSCAN\<close>, sending back the text of the cursor it was
  given, ends, and has then been given every key of the slot exactly once, for every choice of
  counts, also when a cursor is so large that it is printed as a negative number.\<close>

theorem scan_client_complete:
  assumes "slots_inv cmp (ms_slots st)" and "0 \<le> db" and "db < num_dbs (ms_slots st)"
    and "slot < slots_size (ms_slots st)" and "slots_size (ms_slots st) < 2 ^ 31"
    and "reads_numbers env" and "\<And>n. 1 \<le> counts n" and "\<And>n. counts n < 2 ^ 59"
  shows "\<exists>ks. scan_client env db (int slot) counts 0 ''0'' st = Some (ks, st) \<and>
    mset ks = mset_set (slot_set (ms_slots st) db slot)"
proof -
  obtain d where d: "get_table (ms_slots st) db (int slot) = Some d" "dict_inv hashSlotDictType d"
    "dom (dict_map d) = slot_set (ms_slots st) db slot" by (rule inv_table [OF assms(1-4)])
  obtain k f where k: "k \<le> 60" "\<And>i. i < 2 ^ k \<Longrightarrow> m_dictScan d (cur k i) = Some (f i, cur k ((i + 1) mod 2 ^ k))"
    "mset (concat (map f [0..<2 ^ k])) = mset (dict_entries d)" using scan_cycle [OF d(2)] by metis
  have sl: "is_llong (int slot)" "c_int (int slot) = int slot"
    using assms(4,5) c_int_small [of slot] by (simp_all add: is_llong_def LLONG_MIN_def LLONG_MAX_def)
  have cnt: "1 \<le> counts n" "is_llong (counts n)" "page_count_ok (word_of_int (counts n))" for n
    using assms(7,8) small_count by blast+
  have "show_int (sint (cur k 0)) = ''0''" by (simp add: cur_zero) code_simp
  then have "scan_client env db (int slot) counts 0 ''0'' st = Some (map fst (concat (map f [0..<2 ^ k])), st)"
    using scan_client_rest [where i = 0 and n = 0, OF assms(6) sl cnt d(1) k(1,2)] by simp
  moreover have "mset (map fst (concat (map f [0..<2 ^ k]))) = mset (map fst (dict_entries d))" using k(3) by simp
  ultimately show ?thesis using entry_keys_mset [OF d(2)] d(3) by simp
qed

lemma scan_client_complete_witness:
  "\<exists>ks. scan_client demo_env 0 (int 3) (\<lambda>n. 1) 0 ''0'' (demo_mstate []) = Some (ks, demo_mstate []) \<and>
    mset ks = mset_set (slot_set (ms_slots (demo_mstate [])) 0 3)"
  by (rule scan_client_complete [OF demo_inv(1) _ _ _ _ demo_reads(1)]) (simp_all only: demo_inv, simp_all)

text \<open>C17: \<open>SLOTSDEL\<close> deletes the keys of the slots it is given and of no other, and answers for each of
  them, in order, that no key is left.\<close>

theorem SlotsDel_deletes_slots:
  assumes "cmp_ok (ex_cmp env)" and "unlinks env K" and "follows env K L st" and "0 \<le> db" and "db < num_dbs (ms_slots st)"
    and "reads_numbers env" and "slots_size (ms_slots st) < 2 ^ 31" and "slots \<noteq> []"
    and "\<forall>slot \<in> set slots. slot < slots_size (ms_slots st)"
  shows "\<exists>st'. SlotsDel_RedisCommand env db (cmd # map (\<lambda>slot. show_int (int slot)) slots) st =
      Some (REDISMODULE_OK, calls_of (ArrayR (map (\<lambda>slot. ArrayR [IntR (int slot), IntR 0]) slots)), st') \<and>
    follows env K L st' \<and> index (ms_slots st') = (index (ms_slots st))(db :=
      {k \<in> index (ms_slots st) db. sn_slot (key_num (ms_slots st) k) \<notin> int ` set slots})"
proof -
  have "\<forall>slot \<in> set (map int slots). 0 \<le> slot \<and> slot < int (slots_size (ms_slots st))"
    using assms(9) by (simp only: set_map ball_simps image_iff of_nat_less_iff of_nat_0_le_iff) simp
  from DelSlotKeys_deletes [OF assms(1-5) this, of "int (length slots)"] obtain st' where
    st': "SlotsMGRT_DelSlotKeys env db (map int slots) (int (length slots)) st = Some (int (length slots), st')"
      "deletes env K L db {k. sn_slot (key_num (ms_slots st) k) \<in> set (map int slots)} st st'" by blast
  have f: "follows env K L st'" "num_dbs (ms_slots st') = num_dbs (ms_slots st)" "key_num (ms_slots st') = key_num (ms_slots st)"
    "slots_size (ms_slots st') = slots_size (ms_slots st)"
    "K (ms_world st') = (K (ms_world st))(db := K (ms_world st) db - {k. sn_slot (key_num (ms_slots st) k) \<in> int ` set slots})"
    using st'(2) same_frame_num [of "ms_slots st" "ms_slots st'"] by (auto simp: deletes_def)
  have ix: "index (ms_slots st') = (index (ms_slots st))(db :=
      {k \<in> index (ms_slots st) db. sn_slot (key_num (ms_slots st) k) \<notin> int ` set slots})"
    using f(5) followsD(2) [OF assms(3)] followsD(2) [OF f(1)] by (auto simp: fun_eq_iff)
  have "del_reply (ms_slots st') db (map int slots) =
      Some (concat (map calls_of (map (\<lambda>slot. ArrayR [IntR (int slot), IntR 0]) slots)))"
    by (rule del_reply_empty [OF followsD(1) [OF f(1)]]) (use assms(4,5,9) f ix in \<open>auto simp: slot_keys_def\<close>)
  moreover have "parse_slots env (map (\<lambda>slot. show_int (int slot)) slots) = Some (map int slots)"
    by (rule parse_slots_eq [OF assms(6)]) (use assms(7,9) in auto)
  ultimately have "SlotsDel_RedisCommand env db (cmd # map (\<lambda>slot. show_int (int slot)) slots) st =
      Some (REDISMODULE_OK, calls_of (ArrayR (map (\<lambda>slot. ArrayR [IntR (int slot), IntR 0]) slots)), st')"
    using st'(1) assms(8) by (simp add: SlotsDel_RedisCommand_def SLOTS_MGRT_ERR_def)
  then show ?thesis using f(1) ix by blast
qed

lemma SlotsDel_deletes_slots_witness:
  "\<exists>st'. SlotsDel_RedisCommand demo_env 0 [''slotsdel'', ''0'', ''3''] (demo_mstate [''a{t}'']) =
      Some (REDISMODULE_OK, calls_of (ArrayR [ArrayR [IntR 0, IntR 0], ArrayR [IntR 3, IntR 0]]), st') \<and>
    index (ms_slots st') 0 = {k \<in> {''a{t}''}. sn_slot (slots_num crc32_init 16 k) \<notin> {0, 3}}"
proof -
  have t: "show_int 0 = ''0''" "show_int 3 = ''3''" by code_simp+
  have s: "\<forall>slot \<in> set [0, 3]. slot < slots_size (ms_slots (demo_mstate [''a{t}'']))" unfolding demo_inv by simp
  have n: "slots_size (ms_slots (demo_mstate [''a{t}''])) < 2 ^ 31" "(0 :: int) < num_dbs (ms_slots (demo_mstate [''a{t}'']))"
    unfolding demo_inv by simp_all
  from SlotsDel_deletes_slots [OF demo_unlinks(2,1) demo_follows _ n(2) demo_reads(1) n(1) _ s, of "''slotsdel''"]
  show ?thesis unfolding demo_inv by (auto simp: t demo_inv)
qed

text \<open>C23: The module starts exactly when the number of slots is in 1 to 65536 and the number of threads in
  0 to 128, or they are left out; otherwise nothing has been set up. Started, it has an empty
  index with the given number of slots that is in step with empty databases.\<close>

theorem SlotsInit_checks:
  assumes "config ''databases'' = [n1, d]" and "s2ll d = Some dbs" and "0 \<le> dbs" and "dbs \<le> INT_MAX"
    and "config ''activerehashing'' = [n2, r]"
  shows "\<exists>res s'. redisModule_SlotsInit config s2ll argv slots_boot = Some (res, s') \<and>
    (res = REDISMODULE_OK \<longleftrightarrow> (\<exists>n t. opt_number s2ll argv 0 1024 = Some n \<and> 1 \<le> n \<and> n \<le> 65536 \<and>
       opt_number s2ll argv 1 0 = Some t \<and> 0 \<le> t \<and> t \<le> 128)) \<and>
    (res = REDISMODULE_ERR \<longrightarrow> s' = slots_boot) \<and>
    (res = REDISMODULE_OK \<longrightarrow> opt_number s2ll argv 0 1024 = Some (int (slots_size s')) \<and>
       tracks cmp dbs (slots_num crc32_init (hash_slots_size (g_slots_meta_info s'))) (\<lambda>db. {}) {#} s')"
proof -
  let ?n = "opt_number s2ll argv 0 1024" and ?t = "opt_number s2ll argv 1 0"
  have c: "c_int dbs = dbs" using assms(3,4) c_int_small [of "nat dbs"] by (simp add: INT_MAX_def)
  have item: "redisModule_GetConfigItem config ''databases'' = Some d"
    "redisModule_GetConfigItem config ''activerehashing'' = Some r"
    using assms(1,5) by (simp_all add: redisModule_GetConfigItem_def)
  have sz: "DEFAULT_HASH_SLOTS_SIZE = 1024" "MAX_HASH_SLOTS_SIZE = 65536" "MAX_NUM_THREADS = 128"
    by (simp_all add: DEFAULT_HASH_SLOTS_SIZE_def MAX_HASH_SLOTS_SIZE_def MAX_NUM_THREADS_def)
  show ?thesis
  proof (cases "\<exists>n t. ?n = Some n \<and> 1 \<le> n \<and> n \<le> 65536 \<and> ?t = Some t \<and> 0 \<le> t \<and> t \<le> 128")
    case True
    then obtain n t where n: "?n = Some n" "1 \<le> n" "n \<le> 65536" and t: "?t = Some t" "0 \<le> t" "t \<le> 128" by blast
    let ?w = "word_of_int n :: u32"
    let ?s = "initial ?w dbs (c_int t) (strcasecmp_eq r ''yes'') (2 < length argv \<and> strcasecmp_eq (argv ! 2) ''async'')
      (if 3 < length argv then Some (argv ! 3) else None)"
    have run: "redisModule_SlotsInit config s2ll argv slots_boot = Some (REDISMODULE_OK, ?s)"
      using item n t assms(2) c sz by (simp add: redisModule_SlotsInit_def initial_def Let_def)
    have u: "uint ?w = n" unfolding uint_word_of_int using n by simp
    then have "?w \<noteq> 0" using n by auto
    from tracks_initial(1) [OF this assms(3)] have "tracks cmp dbs (slots_num crc32_init ?w) (\<lambda>db. {}) {#} ?s" .
    moreover have "hash_slots_size (g_slots_meta_info ?s) = ?w" by (simp add: initial_def Slots_Init_def)
    ultimately show ?thesis using run n t u by simp
  next
    case False
    then have "redisModule_SlotsInit config s2ll argv slots_boot = Some (REDISMODULE_ERR, slots_boot)"
      by (auto simp: redisModule_SlotsInit_def item assms(2) sz not_less not_le split: option.splits)
    then show ?thesis using False by simp
  qed
qed

definition demo_config :: "string \<Rightarrow> string list" where
  "demo_config name = [name, if name = ''databases'' then ''2'' else ''yes'']"

lemma SlotsInit_checks_witness:
  "(\<exists>s'. redisModule_SlotsInit demo_config m_string2ll [''16'', ''4''] slots_boot = Some (REDISMODULE_OK, s') \<and> slots_size s' = 16) \<and>
    redisModule_SlotsInit demo_config m_string2ll [''0''] slots_boot = Some (REDISMODULE_ERR, slots_boot)"
proof -
  have m: "m_string2ll ''2'' = Some 2" "m_string2ll ''16'' = Some 16" "m_string2ll ''4'' = Some 4" "m_string2ll ''0'' = Some 0"
    by code_simp+
  have c: "demo_config ''databases'' = [''databases'', ''2'']" "demo_config ''activerehashing'' = [''activerehashing'', ''yes'']"
    by (simp_all add: demo_config_def)
  have r: "(0 :: int) \<le> 2" "2 \<le> INT_MAX" by (simp_all add: INT_MAX_def)
  note i = SlotsInit_checks [where cmp = bytes_cmp and config = demo_config and s2ll = m_string2ll, OF c(1) m(1) r c(2)]
  have n: "opt_number m_string2ll [''16'', ''4''] 0 1024 = Some 16" "opt_number m_string2ll [''16'', ''4''] 1 0 = Some 4"
    "opt_number m_string2ll [''0''] 0 1024 = Some 0" by (simp_all add: opt_number_def m)
  obtain res s' where s': "redisModule_SlotsInit demo_config m_string2ll [''16'', ''4''] slots_boot = Some (res, s')"
    "res = REDISMODULE_OK" "opt_number m_string2ll [''16'', ''4''] 0 1024 = Some (int (slots_size s'))"
    using i [of "[''16'', ''4'']"] n(1,2) by auto
  have "int (slots_size s') = int 16" using s'(3) n(1) by (metis of_nat_numeral option.inject)
  then have "slots_size s' = 16" by (simp only: of_nat_eq_iff)
  moreover have "redisModule_SlotsInit demo_config m_string2ll [''0''] slots_boot = Some (REDISMODULE_ERR, slots_boot)"
  proof -
    obtain res s' where "redisModule_SlotsInit demo_config m_string2ll [''0''] slots_boot = Some (res, s')"
      "res \<noteq> REDISMODULE_OK" "res = REDISMODULE_ERR \<longrightarrow> s' = slots_boot"
      using i [of "[''0'']"] n(3) by auto
    then show ?thesis by (cases res) simp_all
  qed
  ultimately show ?thesis using s'(1,2) by blast
qed

text \<open>C26: The commands that migrate a key of a slot check the slot only from above: one that is too large
  is refused, a negative one is used as an index.\<close>

theorem migrate_slot_negative:
  assumes "slots_inv cmp (ms_slots st)" and "length argv = 5"
    and "ex_string2ll env (argv ! 3) = Some timeout" and "ex_string2ll env (argv ! 4) = Some slot"
    and "- (2 ^ 31) \<le> slot" and "slot < 0 \<or> int (slots_size (ms_slots st)) \<le> slot"
  shows "SlotsMGRTSlot_RedisCommand env draws tid db argv st = (if slot < 0 then None else syntax_error st) \<and>
    SlotsMGRTTagSlot_RedisCommand env draws tid db argv st = (if slot < 0 then None else syntax_error st)"
proof -
  have n: "get_table (ms_slots st) db (c_int slot) = None" if "slot < 0"
  proof -
    have "c_int slot = slot" unfolding c_int_def by (subst signed_of_int) (use that assms(5) in \<open>simp add: signed_take_bit_int_eq_self\<close>)
    then show ?thesis using get_table_out_of_range [OF assms(1), of slot] that by simp
  qed
  have u: "uint (hash_slots_size (g_slots_meta_info (ms_slots st))) \<le> slot \<longleftrightarrow> \<not> slot < 0"
  proof -
    have "slot < 0 \<or> uint (hash_slots_size (g_slots_meta_info (ms_slots st))) \<le> slot" using assms(6) by simp
    then show ?thesis using uint_ge_0 [of "hash_slots_size (g_slots_meta_info (ms_slots st))"] by linarith
  qed
  show ?thesis
    using assms(2-4) n u by (simp add: SlotsMGRTSlot_RedisCommand_def SlotsMGRT_SlotOneKey_def
      SlotsMGRTTagSlot_RedisCommand_def SlotsMGRT_TagSlotKeys_def random_slot_key_def)
qed

lemma migrate_slot_negative_witness:
  "SlotsMGRTSlot_RedisCommand demo_env [] 7 0 [''slotsmgrtslot'', ''h'', ''6379'', ''1000'', ''-1''] (demo_mstate []) = None \<and>
    SlotsMGRTTagSlot_RedisCommand demo_env [] 7 0 [''slotsmgrttagslot'', ''h'', ''6379'', ''1000'', ''16''] (demo_mstate []) =
      syntax_error (demo_mstate [])"
proof -
  have m: "m_string2ll ''1000'' = Some 1000" "m_string2ll ''-1'' = Some (- 1)" "m_string2ll ''16'' = Some 16" by code_simp+
  have a: "SlotsMGRTSlot_RedisCommand demo_env [] 7 0 [''slotsmgrtslot'', ''h'', ''6379'', ''1000'', ''-1''] (demo_mstate []) = None"
    using migrate_slot_negative [OF demo_inv(1), of "[''slotsmgrtslot'', ''h'', ''6379'', ''1000'', ''-1'']" demo_env 1000 "- 1" "[]" "[]" 7 0]
    by (simp add: demo_reads(2) m)
  have "(16 :: int) < 0 \<or> int (slots_size (ms_slots (demo_mstate []))) \<le> 16" unfolding demo_inv by simp
  then have "SlotsMGRTTagSlot_RedisCommand demo_env [] 7 0 [''slotsmgrttagslot'', ''h'', ''6379'', ''1000'', ''16''] (demo_mstate []) =
      syntax_error (demo_mstate [])"
    using migrate_slot_negative [OF demo_inv(1), of "[''slotsmgrttagslot'', ''h'', ''6379'', ''1000'', ''16'']" demo_env 1000 16 "[]" "[]" 7 0]
    by (simp add: demo_reads(2) m)
  then show ?thesis using a by simp
qed

section \<open>A restore that fails\<close>

text \<open>What hiredis makes of the replies the module writes for one command: an error reply has the type
  of errors, the other single replies have other types.\<close>

fun client_sees :: "reply_call list \<Rightarrow> redis_reply option" where
  "client_sees [ReplyWithError e] = Some REPLY_ERROR"
| "client_sees [WrongArity] = Some REPLY_ERROR"
| "client_sees [ReplyWithLongLong v] = Some REPLY_OK"
| "client_sees [ReplyWithString t] = Some REPLY_OK"
| "client_sees [ReplyWithSimpleString t] = Some REPLY_OK"
| "client_sees [ReplyWithNull] = Some REPLY_OK"
| "client_sees out = None"

text \<open>\<open>SLOTSRESTORE\<close> on a server up to the reply: at once, or by the thread the client is blocked for.\<close>

definition restore_handler :: "'b env \<Rightarrow> int \<Rightarrow> string list \<Rightarrow> 'b mstate \<Rightarrow> (reply_call list \<times> 'b mstate) option" where
  "restore_handler env db argv st =
     (case SlotsRestore_RedisCommand env True db argv st of
        None \<Rightarrow> None
      | Some (Replied s out st) \<Rightarrow> Some (out, st)
      | Some (Blocked argv st) \<Rightarrow> do {
          (s, out, st) \<leftarrow> SlotsRestoreAsyncBlock_ThreadMain env db argv st;
          Some (out, st)
        })"

text \<open>A sender whose commands are executed by the handler of the server \<open>B\<close> and whose replies all
  arrive.\<close>

definition runs :: "'w env \<Rightarrow> ('w \<Rightarrow> 'b mstate) \<Rightarrow> (string list \<Rightarrow> 'b mstate \<Rightarrow> (reply_call list \<times> 'b mstate) option) \<Rightarrow> bool" where
  "runs env B h \<longleftrightarrow> (\<forall>w. B (snd (ex_milliseconds env w)) = B w) \<and>
     (\<forall>c args w. case h (''SLOTSRESTORE'' # args) (B w) of
        None \<Rightarrow> True
      | Some (out, b) \<Rightarrow> (\<exists>w'. ex_command env c (''SLOTSRESTORE'' # args) w = (client_sees out, False, w') \<and> B w' = b))"

text \<open>A server that refuses every dump, for instance one of a newer version.\<close>

definition refuses :: "'b env \<Rightarrow> bool" where
  "refuses env \<longleftrightarrow> (\<forall>db args w. ex_call env db (''RESTORE'' # args) w = (Some RError, [], w))"

lemma refused_restore:
  assumes r: "refuses env" and obs: "obs \<noteq> []" "\<forall>ob \<in> set obs. sendable ob"
    and th: "slots_restore_threads (g_slots_meta_info (ms_slots st)) \<le> 0"
  shows "\<exists>st'. slotsRestoreCmd env db (restore_cmd obs) st = Some (SLOTS_MGRT_ERR, st') \<and> ms_slots st' = ms_slots st \<and>
    ms_world st' = ms_world st"
proof -
  let ?st = "st\<lparr>ms_vals := ms_vals st + values_of obs\<rparr>"
  obtain ob rest where ob: "obs = ob # rest" using obs(1) by (cases obs) auto
  have "ex_call env db (restore_request (received ob)) (ms_world ?st) = (Some RError, [], ms_world ?st)"
    using r by (simp add: refuses_def restore_request_def)
  then have "restoreOneWithReplace env db (received ob) ?st =
      Some (SLOTS_MGRT_ERR, log_request (Call db (restore_request (received ob))) ?st)"
    by (simp add: restoreOneWithReplace_def server_call_def notified_def log_request_def)
  then show ?thesis
    unfolding slotsRestoreCmd_batch [OF obs(2)]
    by (simp add: SlotsMGRT_Restore_def restoreMutli_def ob not_less [symmetric] th [unfolded not_less [symmetric]] log_request_def)
qed

definition failure_reply :: "bool \<Rightarrow> reply_call" where
  "failure_reply blocked = (if blocked then ReplyWithLongLong (- 1) else ReplyWithError REDISXSLOT_ERRORMSG_MGRT)"

lemma refused_handler:
  assumes "refuses env" "obs \<noteq> []" "\<forall>ob \<in> set obs. sendable ob"
    and "slots_restore_threads (g_slots_meta_info (ms_slots st)) \<le> 0"
  shows "\<exists>st'. restore_handler env db (restore_cmd obs) st = Some ([failure_reply (async (g_slots_meta_info (ms_slots st)))], st') \<and>
    ms_slots st' = ms_slots st \<and> ms_world st' = ms_world st"
proof -
  have len: "length (restore_cmd obs) = 1 + 3 * length obs" by (simp add: restore_cmd_def length_args del: length_concat)
  have n: "1 \<le> length obs" using assms(2) by (cases obs) simp_all
  let ?st = "copy_args (restore_cmd obs) st"
  have th: "slots_restore_threads (g_slots_meta_info (ms_slots ?st)) \<le> 0" using assms(4) by (simp add: copy_args_def)
  obtain st1 where st1: "slotsRestoreCmd env db (restore_cmd obs) st = Some (SLOTS_MGRT_ERR, st1)" "ms_slots st1 = ms_slots st"
    "ms_world st1 = ms_world st" using refused_restore [OF assms] by blast
  obtain st2 where st2: "slotsRestoreCmd env db (restore_cmd obs) ?st = Some (SLOTS_MGRT_ERR, st2)" "ms_slots st2 = ms_slots st"
    "ms_world st2 = ms_world st" using refused_restore [OF assms(1-3) th, of db] by (auto simp: copy_args_def)
  show ?thesis
  proof (cases "async (g_slots_meta_info (ms_slots st))")
    case True
    then have "SlotsRestore_RedisCommand env True db (restore_cmd obs) st = Some (Blocked (restore_cmd obs) ?st)"
      using len n assms(2) by (simp add: SlotsRestore_RedisCommand_def SlotsRestoreAsyncBlock_RedisCommand_def Let_def)
    then show ?thesis using st2 True
      by (simp add: restore_handler_def SlotsRestoreAsyncBlock_ThreadMain_def SlotsRestoreAsyncBlock_Reply_def failure_reply_def
        SLOTS_MGRT_ERR_def free_args_def)
  next
    case False
    then show ?thesis using st1 len n assms(2)
      by (simp add: restore_handler_def SlotsRestore_RedisCommand_def reply_now_def migrate_error_def failure_reply_def)
  qed
qed

lemma refused_batches:
  assumes "refuses envB" "runs env B (restore_handler envB db)"
    and "[] \<notin> set ps" "\<forall>ob \<in> set (concat ps). sendable ob"
    and "slots_restore_threads (g_slots_meta_info (ms_slots (B (ms_world st)))) \<le> 0"
  shows "(fst (send_batches env c ps st) \<longleftrightarrow> ps = [] \<or> async (g_slots_meta_info (ms_slots (B (ms_world st))))) \<and>
    ms_world (B (ms_world (snd (send_batches env c ps st)))) = ms_world (B (ms_world st))"
  using assms(3-5)
proof (induction ps arbitrary: st)
  case (Cons p ps)
  let ?b = "B (ms_world st)"
  obtain b' where b: "restore_handler envB db (restore_cmd p) ?b = Some ([failure_reply (async (g_slots_meta_info (ms_slots ?b)))], b')"
    "ms_slots b' = ms_slots ?b" "ms_world b' = ms_world ?b"
    using refused_handler [OF assms(1), of p ?b db] Cons.prems by auto
  have "case restore_handler envB db (restore_cmd p) ?b of None \<Rightarrow> True
      | Some (out, b) \<Rightarrow> (\<exists>w'. ex_command env c (restore_cmd p) (ms_world st) = (client_sees out, False, w') \<and> B w' = b)"
    using assms(2) unfolding runs_def restore_cmd_def by blast
  then obtain w' where w: "ex_command env c (restore_cmd p) (ms_world st) =
      (client_sees [failure_reply (async (g_slots_meta_info (ms_slots ?b)))], False, w')" "B w' = b'"
    using b(1) by auto
  let ?st = "log_request (Command c (restore_cmd p)) (st\<lparr>ms_world := w'\<rparr>)"
  have st: "ms_world ?st = w'" by (simp add: log_request_def)
  show ?case
  proof (cases "async (g_slots_meta_info (ms_slots ?b))")
    case True
    then have "send_batches env c (p # ps) st = send_batches env c ps ?st"
      using w(1) by (simp add: send_command_def failure_reply_def)
    then show ?thesis using Cons.IH [of ?st] Cons.prems b(2,3) True unfolding st w(2) by auto
  next
    case False
    then have "send_batches env c (p # ps) st = (False, ?st)"
      using w(1) by (simp add: send_command_def failure_reply_def)
    then show ?thesis using b(3) False unfolding st w(2) by (simp add: st w(2))
  qed
qed simp

text \<open>C22: Objects are sent to a server that refuses to restore any of them. Without \<open>async\<close> it answers with
  an error and sending ends with an error, so the sender keeps its keys. With \<open>async\<close> its reply is the
  number -1, which the sender takes for success: sending returns the number of objects, as it
  does when all are acknowledged, although the other server has stored nothing.\<close>

theorem restore_failure_reply:
  assumes "refuses envB" and "runs env B (restore_handler envB db)" and "conn_of st conn = Some c"
    and "obs \<noteq> []" and "\<forall>ob \<in> set obs. sendable ob"
    and "slots_restore_threads (g_slots_meta_info (ms_slots (B (ms_world st)))) \<le> 0"
  shows "\<exists>b st'. restore_handler envB db (restore_cmd obs) (B (ms_world st)) =
      Some ([if async (g_slots_meta_info (ms_slots (B (ms_world st)))) then ReplyWithLongLong (- 1)
        else ReplyWithError REDISXSLOT_ERRORMSG_MGRT], b) \<and>
    BatchSend_SlotsRestore env conn (map Some obs) (length obs) st =
      Some (if async (g_slots_meta_info (ms_slots (B (ms_world st)))) then int (length obs) else SLOTS_MGRT_ERR, st') \<and>
    ms_world (B (ms_world st')) = ms_world (B (ms_world st))"
proof -
  let ?a = "async (g_slots_meta_info (ms_slots (B (ms_world st))))" and ?r = "send_batches env c (pieces [] obs) st"
  have r: "fst ?r \<longleftrightarrow> ?a" "ms_world (B (ms_world (snd ?r))) = ms_world (B (ms_world st))"
    using refused_batches [OF assms(1,2), of "pieces [] obs" st c] assms(4-6) by (auto simp: pieces_nonempty pieces_concat)
  obtain b where b: "restore_handler envB db (restore_cmd obs) (B (ms_world st)) = Some ([failure_reply ?a], b)"
    using refused_handler [OF assms(1,4-6)] by blast
  have "conn_of (snd ?r) conn = Some c" using conn_of_batches [of env c _ st conn] assms(3) by simp
  then obtain st' where t: "touch_conn env conn (snd ?r) = Some st'" using touch_conn_ok by blast
  then have "B (ms_world st') = B (ms_world (snd ?r))"
    using assms(2) by (auto simp: touch_conn_def get_unixtime_def runs_def split: prod.splits bind_splits) (metis snd_conv)
  then show ?thesis
    using BatchSend_batches [OF assms(3,5), of env] t r b by (cases ?a) (simp_all add: Let_def failure_reply_def)
qed

text \<open>A sender connected to a receiver with \<open>async\<close> that refuses.\<close>

definition refusing_env :: "unit env" where
  "refusing_env = \<lparr>ex_cmp = bytes_cmp, ex_call = (\<lambda>db cmd w. (Some RError, [], w)), ex_key_type = (\<lambda>db key w. (KEYTYPE_STRING, [], w)),
     ex_notify = (\<lambda>db cls event key w. ([], w)), ex_connect = (\<lambda>h p w. (True, 0, w)),
     ex_timeout = (\<lambda>c s u w. w), ex_command = (\<lambda>c cmd w. (None, True, w)), ex_append = (\<lambda>c cmd w. w),
     ex_get_reply = (\<lambda>c w. (False, None, w)), ex_disconnect = (\<lambda>c w. w), ex_milliseconds = (\<lambda>w. (5000, w)),
     ex_pool = (\<lambda>t n w. ([], w)), ex_string2ll = m_string2ll\<rparr>"

definition linked_env :: "unit mstate env" where
  "linked_env = \<lparr>ex_cmp = bytes_cmp, ex_call = (\<lambda>db cmd w. (Some RError, [], w)), ex_key_type = (\<lambda>db key w. (KEYTYPE_STRING, [], w)),
     ex_notify = (\<lambda>db cls event key w. ([], w)), ex_connect = (\<lambda>h p w. (False, 1, w)), ex_timeout = (\<lambda>c s u w. w),
     ex_command = (\<lambda>c cmd w. case restore_handler refusing_env 0 cmd w of None \<Rightarrow> (None, True, w)
       | Some (out, w) \<Rightarrow> (client_sees out, False, w)),
     ex_append = (\<lambda>c cmd w. w), ex_get_reply = (\<lambda>c w. (False, None, w)), ex_disconnect = (\<lambda>c w. w),
     ex_milliseconds = (\<lambda>w. (5000, w)), ex_pool = (\<lambda>t n w. ([], w)), ex_string2ll = m_string2ll\<rparr>"

definition async_receiver :: "bool \<Rightarrow> unit mstate" where
  "async_receiver a = \<lparr>ms_slots = initial 16 2 0 True a None, ms_conns = Map.empty, ms_world = (), ms_vals = {#}, ms_trace = []\<rparr>"

lemma restore_failure_reply_witness:
  "\<exists>b st'. restore_handler refusing_env 0 (restore_cmd demo_objs) (async_receiver True) = Some ([ReplyWithLongLong (- 1)], b) \<and>
    BatchSend_SlotsRestore linked_env ''c'' (map Some demo_objs) (length demo_objs)
      \<lparr>ms_slots = demo_state, ms_conns = [''c'' \<mapsto> \<lparr>last_time = 0, conn_ctx = 1\<rparr>], ms_world = async_receiver True, ms_vals = {#},
        ms_trace = []\<rparr> = Some (2, st')"
proof -
  let ?st = "\<lparr>ms_slots = demo_state, ms_conns = [''c'' \<mapsto> \<lparr>last_time = 0, conn_ctx = 1\<rparr>], ms_world = async_receiver True,
    ms_vals = {#}, ms_trace = []\<rparr>"
  have e: "refuses refusing_env" "runs linked_env (\<lambda>w. w) (restore_handler refusing_env 0)"
    by (auto simp: refuses_def refusing_env_def runs_def linked_env_def split: option.splits)
  have st: "conn_of ?st ''c'' = Some 1" "demo_objs \<noteq> []" "async (g_slots_meta_info (ms_slots (async_receiver True)))"
    "slots_restore_threads (g_slots_meta_info (ms_slots (async_receiver True))) \<le> 0"
    by (simp_all add: conn_of_def demo_objs_def async_receiver_def initial_def Slots_Init_def slots_boot_def)
  have n: "length demo_objs = 2" by (simp add: demo_objs_def)
  show ?thesis
    using restore_failure_reply [OF e st(1,2) demo_sendable] st(3,4) unfolding n by auto
qed

end
