(* ===== verification/CpuAffinity.thy ===== *)
theory CpuAffinity
  imports Numconv
begin

text \<open>
  \<open>setcpuaffinity.c\<close>: the list of processors for the threads of blocked clients, such as
  \<open>0,2,3\<close>, \<open>0,2-3\<close> or \<open>0-20:2\<close>.

  A pointer into the list is the rest of the string from it, the null pointer \<open>None\<close>; of two
  pointers the one with the longer rest comes first. The result of a run is whether the affinity
  of the thread is set, and to which processors.
\<close>

section \<open>The code\<close>

text \<open>\<open>strchr\<close>, then one on.\<close>

definition next_token :: "string option \<Rightarrow> char \<Rightarrow> string option" where
  "next_token q sep =
     (case q of
        None \<Rightarrow> None
      | Some s \<Rightarrow> (case dropWhile (\<lambda>c. c \<noteq> sep) (cstr s) of [] \<Rightarrow> None | _ # r \<Rightarrow> Some r))"

text \<open>\<open>strtoul\<close> of digits is at most \<open>ULONG_MAX\<close>, and the result is cut to an \<open>int\<close>. The result is
  the number and the end; \<open>None\<close> is the error.\<close>

definition c_strtoul :: "string \<Rightarrow> int" where
  "c_strtoul ds = min (int (digits_val 0 ds)) (2 ^ 64 - 1)"

definition next_num :: "string option \<Rightarrow> (int \<times> string) option" where
  "next_num str =
     (case str of
        None \<Rightarrow> None
      | Some s \<Rightarrow>
          if cstr s = [] \<or> \<not> is_digit (hd (cstr s)) then None
          else Some (c_int (c_strtoul (takeWhile is_digit (cstr s))), dropWhile is_digit (cstr s)))"

text \<open>\<open>CPU_SET\<close> ignores what is not below \<open>CPU_SETSIZE\<close>; its argument is taken as an unsigned number.\<close>

definition CPU_SETSIZE :: int where "CPU_SETSIZE = 1024"

definition CPU_SET :: "int \<Rightarrow> int list \<Rightarrow> int list" where
  "CPU_SET a cpuset = (if 0 \<le> a \<and> a < CPU_SETSIZE then cpuset @ [a] else cpuset)"

text \<open>The inner loop. \<open>a\<close> and \<open>s\<close> are of type \<open>int\<close>, and their sum must be one.\<close>

partial_function (option) set_range :: "int \<Rightarrow> int \<Rightarrow> int \<Rightarrow> int list \<Rightarrow> int list option" where
  "set_range a b s cpuset =
     (if a \<le> b
      then do {
        c_assert (- (INT_MAX + 1) \<le> a + s \<and> a + s \<le> INT_MAX);
        set_range (a + s) b s (CPU_SET a cpuset)
      }
      else Some cpuset)"

text \<open>\<open>c1 != NULL && (c2 == NULL || c1 < c2)\<close>.\<close>

definition comes_first :: "string option \<Rightarrow> string option \<Rightarrow> bool" where
  "comes_first c1 c2 =
     (case c1 of None \<Rightarrow> False | Some r \<Rightarrow> (case c2 of None \<Rightarrow> True | Some r2 \<Rightarrow> length r2 < length r))"

text \<open>One item: the first and the last processor, the step and the end. An inner \<open>None\<close> is an early return.\<close>

definition cpu_item :: "string \<Rightarrow> (int \<times> int \<times> int \<times> string) option" where
  "cpu_item p = do {
     (a, end0) \<leftarrow> next_num (Some p);
     let c1 = next_token (Some end0) (CHR ''-'');
     let c2 = next_token (Some end0) (CHR '','');
     (b, s, end0) \<leftarrow>
       (if comes_first c1 c2
        then do {
          (b, end1) \<leftarrow> next_num c1;
          let c1 = (if end1 \<noteq> [] then next_token (Some end1) (CHR '':'') else None);
          if comes_first c1 c2
          then do { (s, end2) \<leftarrow> next_num c1; if s = 0 then None else Some (b, s, end2) }
          else Some (b, 1, end1)
        }
        else Some (a, 1, end0));
     if a > b then None else Some (a, b, s, end0)
   }"

text \<open>The loop over the items. The outer \<open>None\<close> is undefined behaviour or a loop without end, the inner
  one an early return; the string is the end of the last item.\<close>

partial_function (option) cpu_loop :: "string option \<Rightarrow> string option \<Rightarrow> int list \<Rightarrow> (string option \<times> int list) option option" where
  "cpu_loop q end0 cpuset =
     (case q of
        None \<Rightarrow> Some (Some (end0, cpuset))
      | Some p \<Rightarrow>
          (case cpu_item p of
             None \<Rightarrow> Some None
           | Some (a, b, s, end0) \<Rightarrow> do {
               cpuset \<leftarrow> set_range a b s cpuset;
               cpu_loop (next_token (Some p) (CHR '','')) (Some end0) cpuset
             }))"

text \<open>The processors handed to \<open>sched_setaffinity\<close>, if it is called.\<close>

definition setcpuaffinity :: "string option \<Rightarrow> int list option option" where
  "setcpuaffinity cpulist =
     (case cpulist of
        None \<Rightarrow> Some None
      | Some l \<Rightarrow> do {
          r \<leftarrow> cpu_loop (Some (cstr l)) None [];
          (case r of
             None \<Rightarrow> Some None
           | Some (end0, cpuset) \<Rightarrow>
               if end0 \<noteq> None \<and> the end0 \<noteq> [] then Some None else Some (Some cpuset))
        })"

section \<open>Lists as they are written\<close>

text \<open>One processor, a range, a range with a step.\<close>

datatype cpus = One nat | Range nat nat | Step nat nat nat

fun render_cpus :: "cpus \<Rightarrow> string" where
  "render_cpus (One a) = show_nat a"
| "render_cpus (Range a b) = show_nat a @ ''-'' @ show_nat b"
| "render_cpus (Step a b s) = show_nat a @ ''-'' @ show_nat b @ '':'' @ show_nat s"

fun render_list :: "cpus list \<Rightarrow> string" where
  "render_list [] = ''''"
| "render_list [c] = render_cpus c"
| "render_list (c # cs) = render_cpus c @ '','' @ render_list cs"

fun cpus_ok :: "cpus \<Rightarrow> bool" where
  "cpus_ok (One a) \<longleftrightarrow> a + 1 < 2 ^ 31"
| "cpus_ok (Range a b) \<longleftrightarrow> a \<le> b \<and> b + 1 < 2 ^ 31"
| "cpus_ok (Step a b s) \<longleftrightarrow> a \<le> b \<and> 1 \<le> s \<and> b + s < 2 ^ 31"

fun cpu_bounds :: "cpus \<Rightarrow> nat \<times> nat \<times> nat" where
  "cpu_bounds (One a) = (a, a, 1)"
| "cpu_bounds (Range a b) = (a, b, 1)"
| "cpu_bounds (Step a b s) = (a, b, s)"

text \<open>The processors of an item that exist for the system call.\<close>

definition cpus_of :: "cpus \<Rightarrow> int list" where
  "cpus_of c = (case cpu_bounds c of (a, b, s) \<Rightarrow>
     map int (filter (\<lambda>i. (i - a) mod s = 0 \<and> i < 1024) [a..<Suc b]))"

section \<open>Reading what is written\<close>

lemma digit_char_is_digit: "d < 10 \<Longrightarrow> is_digit (digit_char d)"
  by (simp add: is_digit_def digit_char_def)

lemma show_nat_digits: "list_all is_digit (show_nat n)"
  by (induction n rule: show_nat.induct)
    (subst show_nat.simps, simp add: digit_char_is_digit)

text \<open>A string that does not go on with a digit.\<close>

definition stops :: "string \<Rightarrow> bool" where
  "stops r \<longleftrightarrow> CHR 0x00 \<notin> set r \<and> (r = [] \<or> \<not> is_digit (hd r))"

lemma show_nat_no_nul: "CHR 0x00 \<notin> set (show_nat n)"
proof
  assume "CHR 0x00 \<in> set (show_nat n)"
  then have "is_digit (CHR 0x00)" using show_nat_digits by (auto simp: list_all_iff)
  then show False by (simp add: is_digit_def)
qed

lemma digits_val_show: "digits_val 0 (show_nat n) = n"
proof (induction n rule: show_nat.induct)
  case (1 n)
  then show ?case by (subst show_nat.simps) (auto simp: digit_val_def digit_char_def)
qed

lemma c_int_of_small: "n < 2 ^ 31 \<Longrightarrow> c_int (int n) = int n"
  unfolding c_int_def by (subst signed_of_int) (simp add: signed_take_bit_int_eq_self)

lemma next_num_show:
  assumes "n < 2 ^ 31" and "stops r"
  shows "next_num (Some (show_nat n @ r)) = Some (int n, r)"
proof -
  let ?s = "show_nat n @ r"
  have c: "cstr ?s = ?s" using assms(2) show_nat_no_nul by (intro cstr_no_nul) (simp add: stops_def)
  have ne: "show_nat n \<noteq> []" using length_show_nat_pos [of n] by simp
  have d: "\<forall>c \<in> set (show_nat n). is_digit c" using show_nat_digits by (simp add: list_all_iff)
  have hd: "is_digit (hd ?s)" using ne d by simp
  have "takeWhile is_digit ?s = show_nat n @ takeWhile is_digit r" "dropWhile is_digit ?s = dropWhile is_digit r"
    using d by (simp_all add: takeWhile_append2 dropWhile_append2)
  moreover have "takeWhile is_digit r = []" "dropWhile is_digit r = r" using assms(2) by (cases r; simp add: stops_def)+
  moreover have "c_int (c_strtoul (show_nat n)) = int n"
    using assms(1) c_int_of_small [of n] by (simp add: c_strtoul_def digits_val_show)
  ultimately show ?thesis using c ne hd by (simp add: next_num_def)
qed

text \<open>The separators after a prefix without them.\<close>

lemma next_token_found:
  assumes "CHR 0x00 \<notin> set (u @ sep # v)" and "sep \<notin> set u"
  shows "next_token (Some (u @ sep # v)) sep = Some v"
proof -
  have "dropWhile (\<lambda>c. c \<noteq> sep) (u @ sep # v) = sep # v" using assms(2) by (induction u) auto
  then show ?thesis using cstr_no_nul [OF assms(1)] by (simp add: next_token_def)
qed

lemma next_token_none:
  assumes "CHR 0x00 \<notin> set u" and "sep \<notin> set u"
  shows "next_token (Some u) sep = None"
proof -
  have d: "dropWhile (\<lambda>c. c \<noteq> sep) u = []" using assms(2) by (simp add: dropWhile_eq_Nil_conv) blast
  show ?thesis by (simp only: next_token_def option.case cstr_no_nul [OF assms(1)] d list.case)
qed

text \<open>A later token is shorter.\<close>

lemma next_token_less:
  assumes "next_token (Some u) sep = Some v"
  shows "length v < length u"
proof -
  obtain c where "dropWhile (\<lambda>c. c \<noteq> sep) (cstr u) = c # v"
    using assms by (auto simp: next_token_def split: list.splits)
  then have "length (c # v) \<le> length (cstr u)" by (metis length_dropWhile_le)
  also have "\<dots> \<le> length u" by (metis strlen_def strlen_le)
  finally show ?thesis by simp
qed

text \<open>What follows an item: nothing, or a comma and the other items.\<close>

definition item_end :: "string \<Rightarrow> string option \<Rightarrow> bool" where
  "item_end r more \<longleftrightarrow> CHR 0x00 \<notin> set r \<and> (case more of None \<Rightarrow> r = [] | Some m \<Rightarrow> r = CHR '','' # m)"

lemma item_endD:
  assumes "item_end r more"
  shows "stops r" "next_token (Some r) (CHR '','') = more"
    "sep \<noteq> CHR '','' \<Longrightarrow> \<not> comes_first (next_token (Some r) sep) more"
proof -
  show "stops r" using assms by (auto simp: item_end_def stops_def is_digit_def split: option.splits)
  show "next_token (Some r) (CHR '','') = more"
    using assms next_token_found [of "[]" "CHR '',''"] next_token_none [of "[]"]
    by (auto simp: item_end_def split: option.splits)
  assume sep: "sep \<noteq> CHR '',''"
  show "\<not> comes_first (next_token (Some r) sep) more"
  proof (cases more)
    case None
    then show ?thesis using assms next_token_none [of "[]"] by (simp add: item_end_def comes_first_def)
  next
    case (Some m)
    then have r: "r = CHR '','' # m" using assms by (simp add: item_end_def)
    have "next_token (Some r) sep = next_token (Some m) sep"
      using sep unfolding r by (simp add: next_token_def cstr_def)
    then show ?thesis using Some next_token_less [of m sep] by (auto simp: comes_first_def split: option.splits)
  qed
qed

lemma show_nat_no_sep: "\<not> is_digit sep \<Longrightarrow> sep \<notin> set (show_nat n)"
  using show_nat_digits [of n] by (auto simp: list_all_iff)

lemma sep_simps [simp]: "\<not> is_digit (CHR ''-'')" "\<not> is_digit (CHR '','')" "\<not> is_digit (CHR '':'')"
  by (simp_all add: is_digit_def)

lemma stops_sep: "CHR 0x00 \<notin> set r \<Longrightarrow> stops (CHR ''-'' # r)" "CHR 0x00 \<notin> set r \<Longrightarrow> stops (CHR '':'' # r)"
  by (simp_all add: stops_def is_digit_def)

lemma comes_first_after:
  assumes "item_end r more" and "u \<noteq> []"
  shows "comes_first (Some (u @ r)) more"
  using assms by (auto simp: item_end_def comes_first_def split: option.splits)

text \<open>A token in front of the end of the item.\<close>

lemma comma_after:
  assumes "item_end r more" and "CHR 0x00 \<notin> set u" and "CHR '','' \<notin> set u"
  shows "next_token (Some (u @ r)) (CHR '','') = more"
proof (cases more)
  case None
  then have "r = []" using assms(1) by (simp add: item_end_def)
  then show ?thesis using next_token_none [of u "CHR '',''"] assms(2,3) None by simp
next
  case (Some m)
  then have "r = CHR '','' # m" "CHR 0x00 \<notin> set r" using assms(1) by (auto simp: item_end_def)
  then show ?thesis using next_token_found [of u "CHR '',''" m] assms(2,3) Some by simp
qed

lemma render_cpus_clean: "CHR 0x00 \<notin> set (render_cpus c)" "CHR '','' \<notin> set (render_cpus c)" "render_cpus c \<noteq> []"
  using show_nat_no_nul show_nat_no_sep [of "CHR '',''"] length_show_nat_pos by (cases c; force)+

text \<open>An item is read as it is meant.\<close>

lemma cpu_item_render:
  assumes "cpus_ok c" and r: "item_end r more"
  shows "cpu_item (render_cpus c @ r) =
    (case cpu_bounds c of (a, b, s) \<Rightarrow> Some (int a, int b, int s, r))"
proof -
  note e = item_endD [OF r]
  have nul: "CHR 0x00 \<notin> set r" using e(1) by (simp add: stops_def)
  have n: "next_num (Some (show_nat i @ r)) = Some (int i, r)" if "i < 2 ^ 31" for i
    by (rule next_num_show [OF that e(1)])
  have sep: "\<not> comes_first (next_token (Some r) (CHR ''-'')) more" "\<not> comes_first (next_token (Some r) (CHR '':'')) more"
    using e(3) by simp_all
  have nl: "show_nat i \<noteq> []" for i using length_show_nat_pos [of i] by simp
  have c: "set (show_nat i) \<inter> {CHR 0x00, CHR '','', CHR ''-'', CHR '':''} = {}" for i
    using show_nat_no_nul [of i] show_nat_no_sep [of _ i] by auto
  show ?thesis
  proof (cases c)
    case (One a)
    then show ?thesis using assms(1) n [of a] sep(1) e(2) by (simp add: cpu_item_def Let_def)
  next
    case (Range a b)
    let ?u = "CHR ''-'' # show_nat b"
    have a: "next_num (Some (show_nat a @ ?u @ r)) = Some (int a, ?u @ r)"
      using assms(1) Range show_nat_no_nul nul by (intro next_num_show) (auto intro: stops_sep)
    have t: "next_token (Some (?u @ r)) (CHR ''-'') = Some (show_nat b @ r)" "next_token (Some (?u @ r)) (CHR '','') = more"
      using next_token_found [of "[]" "CHR ''-''" "show_nat b @ r"] comma_after [OF r, of ?u] nul c [of b] by auto
    have d: "\<not> comes_first (if r \<noteq> [] then next_token (Some r) (CHR '':'') else None) more"
      using sep(2) by (simp add: comes_first_def)
    show ?thesis using assms(1) Range a t n [of b] comes_first_after [OF r nl] d by (simp add: cpu_item_def Let_def)
  next
    case (Step a b s)
    let ?v = "CHR '':'' # show_nat s" and ?u = "CHR ''-'' # show_nat b @ CHR '':'' # show_nat s"
    have a: "next_num (Some (show_nat a @ ?u @ r)) = Some (int a, ?u @ r)"
      using assms(1) Step show_nat_no_nul nul by (intro next_num_show) (auto intro: stops_sep)
    have t: "next_token (Some (?u @ r)) (CHR ''-'') = Some (show_nat b @ ?v @ r)" "next_token (Some (?u @ r)) (CHR '','') = more"
      using next_token_found [of "[]" "CHR ''-''" "show_nat b @ ?v @ r"] comma_after [OF r, of ?u] nul c [of b] c [of s] by auto
    have b: "next_num (Some (show_nat b @ ?v @ r)) = Some (int b, ?v @ r)"
      using assms(1) Step show_nat_no_nul nul by (intro next_num_show) (auto intro: stops_sep)
    have t2: "next_token (Some (?v @ r)) (CHR '':'') = Some (show_nat s @ r)"
      using next_token_found [of "[]" "CHR '':''" "show_nat s @ r"] nul c [of s] by auto
    have f: "comes_first (Some (show_nat b @ ?v @ r)) more" "comes_first (Some (show_nat s @ r)) more"
      using comes_first_after [OF r, of "show_nat b @ ?v"] comes_first_after [OF r nl [of s]] by simp_all
    show ?thesis using assms(1) Step a t b t2 f n [of s] by (simp add: cpu_item_def Let_def)
  qed
qed

section \<open>The loops\<close>

definition progression :: "nat \<Rightarrow> nat \<Rightarrow> nat \<Rightarrow> nat list" where
  "progression a b s = filter (\<lambda>i. (i - a) mod s = 0 \<and> i < 1024) [a..<Suc b]"

lemma between_steps:
  assumes "\<forall>i \<in> set is. a < i \<and> i < a + (s :: nat)"
  shows "filter (\<lambda>i. (i - a) mod s = 0 \<and> i < 1024) is = []"
proof -
  have "(i - a) mod s \<noteq> 0" if "i \<in> set is" for i
  proof -
    have "a < i" "i - a < s" using assms that by auto
    then show ?thesis by simp
  qed
  then show ?thesis by (auto simp: filter_empty_conv)
qed

lemma progression_step:
  assumes "a \<le> b" and "1 \<le> s"
  shows "progression a b s = (if a < 1024 then [a] else []) @ progression (a + s) b s"
proof -
  let ?P = "\<lambda>a i. (i - a) mod s = 0 \<and> i < 1024"
  have shift: "filter (?P a) [a + s..<Suc b] = filter (?P (a + s)) [a + s..<Suc b]"
  proof (rule filter_cong [OF refl])
    fix i assume "i \<in> set [a + s..<Suc b]"
    then have "i - a = (i - (a + s)) + s" by auto
    then have "(i - a) mod s = (i - (a + s)) mod s" by (metis mod_add_self2)
    then show "?P a i \<longleftrightarrow> ?P (a + s) i" by simp
  qed
  have head: "filter (?P a) (a # is) = (if a < 1024 then [a] else []) @ filter (?P a) is" for "is" by simp
  show ?thesis
  proof (cases "a + s \<le> Suc b")
    case True
    have "[a..<Suc b] = a # [Suc a..<a + s] @ [a + s..<Suc b]"
      using assms True by (metis Suc_leI add_Suc_right le_add_diff_inverse le_imp_less_Suc less_add_same_cancel1 less_eq_Suc_le
        One_nat_def upt_add_eq_append upt_conv_Cons)
    then have "progression a b s = (if a < 1024 then [a] else []) @ filter (?P a) [Suc a..<a + s] @ filter (?P a) [a + s..<Suc b]"
      unfolding progression_def by simp
    moreover have "filter (?P a) [Suc a..<a + s] = []" by (rule between_steps) auto
    ultimately show ?thesis unfolding progression_def shift by simp
  next
    case False
    have "[a..<Suc b] = a # [Suc a..<Suc b]" using assms(1) by (simp add: upt_conv_Cons)
    then have "progression a b s = (if a < 1024 then [a] else []) @ filter (?P a) [Suc a..<Suc b]"
      unfolding progression_def by (simp only: head)
    moreover have "filter (?P a) [Suc a..<Suc b] = []" by (rule between_steps) (use False in auto)
    moreover have "progression (a + s) b s = []" using False by (simp add: progression_def)
    ultimately show ?thesis by simp
  qed
qed

lemma set_range_progression:
  assumes "1 \<le> s" and "b + s < 2 ^ 31" and "a \<le> b + s"
  shows "set_range (int a) (int b) (int s) cs = Some (cs @ map int (progression a b s))"
  using assms(3)
proof (induction "Suc b - a" arbitrary: a cs rule: less_induct)
  case less
  show ?case
  proof (cases "a \<le> b")
    case False
    then show ?thesis by (subst set_range.simps) (simp add: progression_def)
  next
    case True
    have ok: "- (INT_MAX + 1) \<le> int a + int s \<and> int a + int s \<le> INT_MAX" using True assms(2) by (simp add: INT_MAX_def)
    have "set_range (int (a + s)) (int b) (int s) cs' = Some (cs' @ map int (progression (a + s) b s))" for cs'
      by (rule less.hyps) (use True assms(1) in auto)
    then show ?thesis using True ok progression_step [OF True assms(1)]
      by (subst set_range.simps) (simp add: c_assert_def CPU_SET_def CPU_SETSIZE_def)
  qed
qed

lemma cpus_of_progression: "cpu_bounds c = (a, b, s) \<Longrightarrow> cpus_of c = map int (progression a b s)"
  by (simp add: cpus_of_def progression_def)

lemma cpu_item_loop:
  assumes "cpus_ok c" and r: "item_end r more"
  shows "cpu_loop (Some (render_cpus c @ r)) end0 cs = cpu_loop more (Some r) (cs @ cpus_of c)"
proof -
  obtain a b s where b: "cpu_bounds c = (a, b, s)" by (cases "cpu_bounds c")
  then have "1 \<le> s" "b + s < 2 ^ 31" "a \<le> b + s" using assms(1) by (cases c; auto)+
  note range = set_range_progression [OF this, of cs]
  have "next_token (Some (render_cpus c @ r)) (CHR '','') = more"
    by (rule comma_after [OF r render_cpus_clean(1,2)])
  then show ?thesis using cpu_item_render [OF assms] b range cpus_of_progression [OF b]
    by (subst cpu_loop.simps) simp
qed

lemma render_list_no_nul: "CHR 0x00 \<notin> set (render_list cs)"
  using render_cpus_clean(1) by (induction cs rule: render_list.induct) auto

lemma cpu_loop_render:
  assumes "cs \<noteq> []" and "\<forall>c \<in> set cs. cpus_ok c"
  shows "cpu_loop (Some (render_list cs)) end0 cpuset = Some (Some (Some '''', cpuset @ concat (map cpus_of cs)))"
  using assms
proof (induction cs arbitrary: end0 cpuset rule: render_list.induct)
  case (2 c)
  have "item_end '''' None" by (simp add: item_end_def)
  from cpu_item_loop [OF _ this, of c] show ?case using 2 by (simp add: cpu_loop.simps [of None])
next
  case (3 c d cs)
  have "item_end (CHR '','' # render_list (d # cs)) (Some (render_list (d # cs)))"
    using render_list_no_nul [of "d # cs"] by (simp add: item_end_def)
  from cpu_item_loop [OF _ this, of c] show ?case using 3 by simp
qed simp

section \<open>Properties\<close>

text \<open>C40: A list of processors is understood as it is written: for items within the range of an \<open>int\<close> the
  parser returns, and the affinity of the thread is set to exactly the processors of the items,
  a range with a step in steps from its first one.\<close>

theorem setcpuaffinity_reads:
  assumes "cs \<noteq> []" and "\<forall>c \<in> set cs. cpus_ok c"
  shows "setcpuaffinity (Some (render_list cs)) = Some (Some (concat (map cpus_of cs)))"
  using cpu_loop_render [OF assms, of None "[]"] cstr_no_nul [OF render_list_no_nul, of cs]
  by (simp add: setcpuaffinity_def)

lemma setcpuaffinity_reads_witness:
  "setcpuaffinity (Some ''0,2-3,4-20:8'') = Some (Some [0, 2, 3, 4, 12, 20])"
proof -
  let ?cs = "[One 0, Range 2 3, Step 4 20 8]"
  have "?cs \<noteq> []" "\<forall>c \<in> set ?cs. cpus_ok c" by simp_all
  note r = setcpuaffinity_reads [OF this]
  have "render_list ?cs = ''0,2-3,4-20:8''" by code_simp
  moreover have "concat (map cpus_of ?cs) = [0, 2, 3, 4, 12, 20]" by code_simp
  ultimately show ?thesis using r by simp
qed

text \<open>What stands between a number and the next comma is skipped when it has no dash: only the end of
  the last item is checked.\<close>

theorem setcpuaffinity_skips_junk:
  assumes "a + 1 < 2 ^ 31" and "cs \<noteq> []" and "\<forall>c \<in> set cs. cpus_ok c"
    and "stops junk" and "CHR '','' \<notin> set junk" and "CHR ''-'' \<notin> set junk"
  shows "setcpuaffinity (Some (show_nat a @ junk @ '','' @ render_list cs)) =
    setcpuaffinity (Some (render_list (One a # cs)))"
proof -
  let ?u = "show_nat a @ junk" and ?r = "CHR '','' # render_list cs"
  have r: "item_end ?r (Some (render_list cs))" using render_list_no_nul [of cs] by (simp add: item_end_def)
  have nul: "CHR 0x00 \<notin> set ?u" "CHR 0x00 \<notin> set junk" using assms(4) show_nat_no_nul by (auto simp: stops_def)
  have comma: "CHR '','' \<notin> set ?u" using assms(5) show_nat_no_sep [of "CHR '',''" a] by simp
  have "stops (junk @ ?r)" using assms(4) r by (cases junk) (auto simp: stops_def item_end_def is_digit_def)
  then have n: "next_num (Some (show_nat a @ junk @ ?r)) = Some (int a, junk @ ?r)" using assms(1) by (intro next_num_show) auto
  have c2: "next_token (Some (junk @ ?r)) (CHR '','') = Some (render_list cs)"
    by (rule comma_after [OF r nul(2) assms(5)])
  have "next_token (Some (junk @ ?r)) (CHR ''-'') = next_token (Some ?r) (CHR ''-'')"
  proof -
    have "cstr (junk @ ?r) = junk @ ?r" "cstr ?r = ?r" using nul(2) r by (auto intro!: cstr_no_nul simp: item_end_def)
    moreover have "dropWhile (\<lambda>c. c \<noteq> CHR ''-'') (junk @ ?r) = dropWhile (\<lambda>c. c \<noteq> CHR ''-'') ?r"
      using assms(6) by (induction junk) auto
    ultimately show ?thesis by (simp only: next_token_def option.case)
  qed
  then have c1: "\<not> comes_first (next_token (Some (junk @ ?r)) (CHR ''-'')) (Some (render_list cs))"
    using item_endD(3) [OF r, of "CHR ''-''"] by simp
  have item: "cpu_item (show_nat a @ junk @ ?r) = Some (int a, int a, 1, junk @ ?r)"
    using n c2 c1 by (simp add: cpu_item_def Let_def)
  have next_item: "next_token (Some (show_nat a @ junk @ ?r)) (CHR '','') = Some (render_list cs)"
    using comma_after [OF r nul(1) comma] by simp
  have "cpu_loop (Some (show_nat a @ junk @ ?r)) None [] =
      cpu_loop (Some (render_list cs)) (Some (junk @ ?r)) (map int (progression a a 1))"
    using item next_item set_range_progression [of 1 a a "[]"] assms(1) by (subst cpu_loop.simps) simp
  then have "cpu_loop (Some (show_nat a @ junk @ ?r)) None [] = Some (Some (Some '''', cpus_of (One a) @ concat (map cpus_of cs)))"
    using cpu_loop_render [OF assms(2,3)] by (simp add: cpus_of_progression)
  moreover have "cpu_loop (Some (render_list (One a # cs))) None [] = Some (Some (Some '''', cpus_of (One a) @ concat (map cpus_of cs)))"
    using cpu_loop_render [of "One a # cs"] assms(1,3) by simp
  moreover have "cstr (show_nat a @ junk @ ?r) = show_nat a @ junk @ ?r"
    using nul(1) r by (intro cstr_no_nul) (auto simp: item_end_def)
  ultimately show ?thesis using cstr_no_nul [OF render_list_no_nul, of "One a # cs"]
    by (simp add: setcpuaffinity_def)
qed

lemma setcpuaffinity_skips_junk_witness:
  "setcpuaffinity (Some ''1x,3'') = setcpuaffinity (Some ''1,3'')"
proof -
  have "show_nat 1 @ ''x'' @ '','' @ render_list [One 3] = ''1x,3''" "render_list [One 1, One 3] = ''1,3''" by code_simp+
  then show ?thesis using setcpuaffinity_skips_junk [of 1 "[One 3]" "''x''"] by (simp add: stops_def is_digit_def)
qed

end
