(* ===== verification/TwoServers.thy ===== *)
theory TwoServers
  imports TagProps Commands CpuAffinity
begin

text \<open>
  Two servers that both run the module: the commands the client of the one sends are executed
  by the handler of the other. A database is the map from its keys to their dumps, and what
  \<open>migrateKeys\<close> does is seen in the databases of both.
\<close>

section \<open>The receiving server\<close>

text \<open>\<open>RESTORE\<close> with \<open>replace\<close>, as Redis documents it: the key gets the value of the dump, announced by
  \<open>restore\<close>, or the dump is refused. \<open>V\<close> gives the databases of a world.\<close>

definition restores_values :: "'b env \<Rightarrow> ('b \<Rightarrow> int \<Rightarrow> string \<Rightarrow> string option) \<Rightarrow> bool" where
  "restores_values env V \<longleftrightarrow> (\<forall>db key ttl val w.
     case ex_call env db [''RESTORE'', key, ttl, val, ''replace''] w of (reply, evs, w') \<Rightarrow>
       reply = Some (RString ''OK'') \<and> evs = [KeyRestored db key] \<and> V w' = (V w)(db := (V w db)(key \<mapsto> val)) \<or>
       reply = Some RError \<and> evs = [] \<and> V w' = V w)"

text \<open>A key that exists has one of the five types of the keys the module knows, and a notification reaches the
  module's own callback.\<close>

definition announces :: "'b env \<Rightarrow> ('b \<Rightarrow> int \<Rightarrow> string \<Rightarrow> string option) \<Rightarrow> bool" where
  "announces env V \<longleftrightarrow>
     (\<forall>db key w. V w db key \<noteq> None \<longrightarrow> (case ex_key_type env db key w of (ty, evs, w') \<Rightarrow>
        ty \<in> {KEYTYPE_STRING, KEYTYPE_LIST, KEYTYPE_HASH, KEYTYPE_SET, KEYTYPE_ZSET} \<and> evs = [] \<and> V w' = V w)) \<and>
     (\<forall>db cls event key w. case ex_notify env db cls event key w of (evs, w') \<Rightarrow>
        (\<exists>draws. evs = [KeyWritten db key draws] \<and> usable_draws draws) \<and> V w' = V w)"

definition keys_of :: "('b \<Rightarrow> int \<Rightarrow> string \<Rightarrow> string option) \<Rightarrow> 'b \<Rightarrow> int \<Rightarrow> string set" where
  "keys_of V w = (\<lambda>db. dom (V w db))"

text \<open>A server whose index is in step with its databases, and no rename is under way.\<close>

definition in_step :: "'b env \<Rightarrow> ('b \<Rightarrow> int \<Rightarrow> string \<Rightarrow> string option) \<Rightarrow> 'b mstate \<Rightarrow> bool" where
  "in_step env V st \<longleftrightarrow> (\<exists>L. follows env (keys_of V) L st) \<and> cmd_flag (ms_slots st) = CMD_NONE"

text \<open>From \<open>st\<close> to \<open>st'\<close> a database receives the keys and values \<open>m\<close>, and the index follows.\<close>

definition receives :: "'b env \<Rightarrow> ('b \<Rightarrow> int \<Rightarrow> string \<Rightarrow> string option) \<Rightarrow> int \<Rightarrow> (string \<Rightarrow> string option) \<Rightarrow> 'b mstate \<Rightarrow> 'b mstate \<Rightarrow> bool" where
  "receives env V db m st st' \<longleftrightarrow> in_step env V st' \<and> same_frame (ms_slots st) (ms_slots st') \<and>
     V (ms_world st') = (V (ms_world st))(db := V (ms_world st) db ++ m)"

lemma receives_refl: "in_step env V st \<Longrightarrow> receives env V db Map.empty st st"
  by (simp add: receives_def same_frame_refl)

lemma receives_trans:
  "receives env V db m st st1 \<Longrightarrow> receives env V db m' st1 st2 \<Longrightarrow> receives env V db (m ++ m') st st2"
  unfolding receives_def by (auto intro: same_frame_trans)

lemma receives_vals [simp]:
  "receives env V db m (st\<lparr>ms_vals := v\<rparr>) st' = receives env V db m st st'"
  "receives env V db m st (st'\<lparr>ms_vals := v\<rparr>) = receives env V db m st st'"
  by (simp_all add: receives_def in_step_def follows_def)

lemma in_step_vals [simp]: "in_step env V (st\<lparr>ms_vals := v\<rparr>) = in_step env V st"
  by (simp add: in_step_def follows_def)

text \<open>Announcing a key that has just been written: exactly one notification.\<close>

lemma notifyOne_adds:
  assumes c: "cmp_ok (ex_cmp env)" and a: "announces env V"
    and t: "tracks (ex_cmp env) (num_dbs (ms_slots st)) (key_num (ms_slots st)) K L (ms_slots st)"
    and db: "0 \<le> db" "db < num_dbs (ms_slots st)" and len: "card (K db) < 2 ^ 32 - 1"
    and key: "V (ms_world st) db key \<noteq> None"
  shows "\<exists>s' w' L'. notifyOne env db key st = Some (st\<lparr>ms_slots := s', ms_world := w'\<rparr>) \<and> same_frame (ms_slots st) s' \<and>
    V w' = V (ms_world st) \<and>
    tracks (ex_cmp env) (num_dbs (ms_slots st)) (key_num (ms_slots st)) (K(db := insert key (K db))) L' s'"
proof -
  obtain ty w1 where ty: "ex_key_type env db key (ms_world st) = (ty, [], w1)"
    "ty \<in> {KEYTYPE_STRING, KEYTYPE_LIST, KEYTYPE_HASH, KEYTYPE_SET, KEYTYPE_ZSET}" "V w1 = V (ms_world st)"
  proof -
    obtain ty evs w1 where k: "ex_key_type env db key (ms_world st) = (ty, evs, w1)" by (metis prod_cases3)
    have "case ex_key_type env db key (ms_world st) of (ty, evs, w') \<Rightarrow>
        ty \<in> {KEYTYPE_STRING, KEYTYPE_LIST, KEYTYPE_HASH, KEYTYPE_SET, KEYTYPE_ZSET} \<and> evs = [] \<and> V w' = V (ms_world st)"
      by (rule mp [OF a [unfolded announces_def, THEN conjunct1, THEN spec [of _ db], THEN spec [of _ key],
        THEN spec [of _ "ms_world st"]] key])
    then show thesis using that [of ty w1] k by simp
  qed
  define cls where "cls = (if ty = KEYTYPE_STRING then NOTIFY_STRING else if ty = KEYTYPE_HASH then NOTIFY_HASH
    else if ty = KEYTYPE_LIST then NOTIFY_LIST else if ty = KEYTYPE_SET then NOTIFY_SET else NOTIFY_ZSET)"
  obtain draws w2 where n: "ex_notify env db cls ''slotsmgrt-restore'' key w1 = ([KeyWritten db key draws], w2)"
    "usable_draws draws" "V w2 = V w1"
  proof -
    obtain evs w2 where k: "ex_notify env db cls ''slotsmgrt-restore'' key w1 = (evs, w2)" by fastforce
    have "case ex_notify env db cls ''slotsmgrt-restore'' key w1 of (evs, w') \<Rightarrow>
        (\<exists>draws. evs = [KeyWritten db key draws] \<and> usable_draws draws) \<and> V w' = V w1"
      by (rule a [unfolded announces_def, THEN conjunct2, THEN spec [of _ db], THEN spec [of _ cls],
        THEN spec [of _ "''slotsmgrt-restore''"], THEN spec [of _ key], THEN spec [of _ w1]])
    then show thesis using that k by auto
  qed
  obtain s' where s': "Slots_Add (ex_cmp env) draws (ms_slots st) db key = Some s'" "same_frame (ms_slots st) s'"
    "tracks (ex_cmp env) (num_dbs (ms_slots st)) (key_num (ms_slots st)) (K(db := insert key (K db)))
      (L + (if key \<in> K db then {#key#} else {#})) s'" using tracks_add [OF c t db n(2) len] by blast
  have "notifyOne env db key st = Some (st\<lparr>ms_slots := s', ms_world := w2\<rparr>)"
    using ty(1,2) n(1) s'(1)
    by (auto simp: notifyOne_def notified_def notify_if_def cls_def NotifyTypeChangeCallback_def)
  then show ?thesis using s'(2,3) ty(3) n(3) by auto
qed

lemma restore_one_receives:
  assumes c: "cmp_ok (ex_cmp env)" and r: "restores_values env V" and a: "announces env V" and i: "in_step env V st"
    and db: "0 \<le> db" "db < num_dbs (ms_slots st)" and nul: "cstr (obj_key ob) = obj_key ob"
    and room: "card (insert (obj_key ob) (dom (V (ms_world st) db))) < 2 ^ 32 - 1"
  shows "\<exists>ret st'. restoreOneWithReplace env db ob st = Some (ret, st') \<and>
    (ret = 1 \<and> receives env V db [obj_key ob \<mapsto> obj_val ob] st st' \<or>
     ret = SLOTS_MGRT_ERR \<and> receives env V db Map.empty st st' \<and>
       ex_call env db (restore_request ob) (ms_world st) = (Some RError, [], ms_world st'))"
proof -
  let ?key = "obj_key ob" and ?K = "keys_of V (ms_world st)"
  obtain L where f: "follows env (keys_of V) L st" and idle: "cmd_flag (ms_slots st) = CMD_NONE"
    using i by (auto simp: in_step_def)
  obtain reply evs w where e: "ex_call env db (restore_request ob) (ms_world st) = (reply, evs, w)" by (metis prod_cases3)
  have "case ex_call env db (restore_request ob) (ms_world st) of (reply, evs, w') \<Rightarrow>
       reply = Some (RString ''OK'') \<and> evs = [KeyRestored db ?key] \<and>
         V w' = (V (ms_world st))(db := (V (ms_world st) db)(?key \<mapsto> obj_val ob)) \<or>
       reply = Some RError \<and> evs = [] \<and> V w' = V (ms_world st)"
    unfolding restore_request_def nul
    by (rule r [unfolded restores_values_def, THEN spec [of _ db], THEN spec [of _ ?key],
      THEN spec [of _ "show_int (if ttlms ob < 0 then 0 else ttlms ob)"], THEN spec [of _ "obj_val ob"], THEN spec [of _ "ms_world st"]])
  then consider (ok) "reply = Some (RString ''OK'')" "evs = [KeyRestored db ?key]"
      "V w = (V (ms_world st))(db := (V (ms_world st) db)(?key \<mapsto> obj_val ob))"
    | (refused) "reply = Some RError" "evs = []" "V w = V (ms_world st)" using e by auto
  then show ?thesis
  proof cases
    case refused
    let ?st = "(log_request (Call db (restore_request ob)) st)\<lparr>ms_slots := ms_slots st, ms_world := w\<rparr>"
    have "restoreOneWithReplace env db ob st = Some (SLOTS_MGRT_ERR, ?st)"
      using e refused by (simp add: restoreOneWithReplace_def server_call_def notified_def log_request_def)
    moreover have "keys_of V w = ?K" using refused(3) by (simp add: keys_of_def)
    then have "receives env V db Map.empty st ?st"
      using i refused(3) by (simp add: receives_def in_step_def follows_def log_request_def same_frame_refl)
    moreover have "ex_call env db (restore_request ob) (ms_world st) = (Some RError, [], ms_world ?st)"
      using e refused(1,2) by simp
    ultimately show ?thesis by blast
  next
    case ok
    let ?st = "(log_request (Call db (restore_request ob)) st)\<lparr>ms_slots := ms_slots st, ms_world := w\<rparr>"
    have call: "server_call env db (restore_request ob) st = Some (reply, ?st)"
      using e ok(2) generic_other [OF idle, of "''restore''"]
      by (simp add: server_call_def notified_def log_request_def handled_generic_def)
    have st: "ms_slots ?st = ms_slots st" "ms_world ?st = w" by simp_all
    have t: "tracks (ex_cmp env) (num_dbs (ms_slots ?st)) (key_num (ms_slots ?st)) ?K L (ms_slots ?st)"
      and len: "\<forall>db. card (?K db) < 2 ^ 32 - 1" using f by (simp_all add: follows_def)
    have key: "V (ms_world ?st) db ?key \<noteq> None" using ok(3) by simp
    have db': "db < num_dbs (ms_slots ?st)" using db(2) by simp
    obtain s' w' L' where n: "notifyOne env db ?key ?st = Some (?st\<lparr>ms_slots := s', ms_world := w'\<rparr>)"
      "same_frame (ms_slots st) s'" "V w' = V w"
      "tracks (ex_cmp env) (num_dbs (ms_slots st)) (key_num (ms_slots st)) (?K(db := insert ?key (?K db))) L' s'"
      using notifyOne_adds [OF c a t db(1) db' _ key] len unfolding st by blast
    let ?st' = "?st\<lparr>ms_slots := s', ms_world := w'\<rparr>"
    have K: "keys_of V w' = ?K(db := insert ?key (?K db))" using ok(3) n(3) by (auto simp: keys_of_def fun_eq_iff)
    then have "card (keys_of V w' d) < 2 ^ 32 - 1" for d using len room by (auto simp: keys_of_def)
    then have "in_step env V ?st'" using n(2,4) K idle by (auto simp: in_step_def follows_def same_frame_def)
    then have "receives env V db [?key \<mapsto> obj_val ob] st ?st'" using n(2,3) ok(3) by (simp add: receives_def)
    moreover have "restoreOneWithReplace env db ob st = Some (1, ?st')"
      using call n(1) ok(1) by (simp add: restoreOneWithReplace_def)
    ultimately show ?thesis by blast
  qed
qed

text \<open>The keys and values of objects; of two with the same key the last counts.\<close>

definition payload :: "rdb_dump_obj list \<Rightarrow> string \<Rightarrow> string option" where
  "payload obs = map_of (rev (map (\<lambda>ob. (obj_key ob, obj_val ob)) obs))"

lemma payload_simps [simp]: "payload [] = Map.empty" "payload (a @ b) = payload a ++ payload b"
  by (simp_all add: payload_def)

lemma payload_Cons: "payload (ob # obs) = [obj_key ob \<mapsto> obj_val ob] ++ payload obs"
  by (simp add: payload_def)

lemma dom_payload: "dom (payload obs) = obj_key ` set obs"
  by (simp add: payload_def dom_map_of_conv_image_fst image_image)

text \<open>What a database can receive: room in the skip list, keys that are C strings.\<close>

definition fits :: "(string \<Rightarrow> string option) \<Rightarrow> string set \<Rightarrow> bool" where
  "fits m ks \<longleftrightarrow> card (dom m \<union> ks) < 2 ^ 32 - 1 \<and> finite (dom m) \<and> (\<forall>key \<in> ks. CHR 0x00 \<notin> set key)"

lemma fits_add: "fits m (ks \<union> dom m') \<Longrightarrow> finite ks \<Longrightarrow> finite (dom m') \<Longrightarrow> fits (m ++ m') ks"
  by (simp add: fits_def ac_simps)

lemma fits_mono: "fits m ks' \<Longrightarrow> ks \<subseteq> ks' \<Longrightarrow> finite ks' \<Longrightarrow> fits m ks"
proof -
  assume f: "fits m ks'" and sub: "ks \<subseteq> ks'" and fin: "finite ks'"
  have "card (dom m \<union> ks) \<le> card (dom m \<union> ks')" by (rule card_mono) (use f sub fin in \<open>auto simp: fits_def\<close>)
  then show "fits m ks" using f sub by (auto simp: fits_def intro: le_less_trans)
qed

text \<open>Either every object is restored, or the first that is not is one whose \<open>RESTORE\<close> the server
  refuses.\<close>

lemma restore_loop_receives:
  assumes c: "cmp_ok (ex_cmp env)" and r: "restores_values env V" and a: "announces env V" and i: "in_step env V st"
    and db: "0 \<le> db" "db < num_dbs (ms_slots st)" and fit: "fits (V (ms_world st) db) (obj_key ` set obs)"
  shows "\<exists>ok st' k. restore_loop env db obs st = Some (ok, st') \<and> receives env V db (payload (take k obs)) st st' \<and>
    (if ok then k = length obs else k < length obs \<and>
      (\<exists>w. ex_call env db (restore_request (obs ! k)) w = (Some RError, [], ms_world st'))) \<and>
    ms_vals st' = ms_vals st \<and>
    ms_trace st' = ms_trace st @ map (\<lambda>ob. Call db (restore_request ob)) (if ok then obs else take (Suc k) obs)"
  using i db fit
proof (induction obs arbitrary: st)
  case Nil
  then show ?case by (intro exI [of _ True]) (simp add: receives_refl)
next
  case (Cons ob obs)
  let ?m = "V (ms_world st) db"
  have "fits ?m {obj_key ob}" by (rule fits_mono [OF Cons.prems(4)]) auto
  then have room: "card (insert (obj_key ob) (dom ?m)) < 2 ^ 32 - 1" by (simp add: fits_def)
  have nul: "cstr (obj_key ob) = obj_key ob" using Cons.prems(4) by (simp add: fits_def cstr_no_nul)
  obtain ret st1 where one: "restoreOneWithReplace env db ob st = Some (ret, st1)"
    "ret = 1 \<and> receives env V db [obj_key ob \<mapsto> obj_val ob] st st1 \<or>
     ret = SLOTS_MGRT_ERR \<and> receives env V db Map.empty st st1 \<and>
       ex_call env db (restore_request ob) (ms_world st) = (Some RError, [], ms_world st1)"
    using restore_one_receives [OF c r a Cons.prems(1-3) nul room] by blast
  note frame = restoreOne_frame [OF one(1)]
  show ?case
  proof (cases "ret = SLOTS_MGRT_ERR")
    case True
    then have w: "receives env V db Map.empty st st1"
      "ex_call env db (restore_request ob) (ms_world st) = (Some RError, [], ms_world st1)"
      using one(2) by (simp_all add: SLOTS_MGRT_ERR_def)
    then show ?thesis using one(1) True frame
      by (intro exI [of _ False] exI [of _ st1] exI [of _ 0]) (auto intro: exI [of _ "ms_world st"])
  next
    case False
    then have s1: "receives env V db [obj_key ob \<mapsto> obj_val ob] st st1" using one(2) by blast
    then have st1: "in_step env V st1" "num_dbs (ms_slots st1) = num_dbs (ms_slots st)"
      "V (ms_world st1) db = ?m ++ [obj_key ob \<mapsto> obj_val ob]" by (simp_all add: receives_def same_frame_def)
    have "fits (V (ms_world st1) db) (obj_key ` set obs)" unfolding st1(3)
      by (rule fits_add) (use Cons.prems(4) in \<open>simp_all add: insert_commute\<close>)
    then obtain ok st' k where l: "restore_loop env db obs st1 = Some (ok, st')"
      "receives env V db (payload (take k obs)) st1 st'"
      "if ok then k = length obs else k < length obs \<and>
        (\<exists>w. ex_call env db (restore_request (obs ! k)) w = (Some RError, [], ms_world st'))"
      "ms_vals st' = ms_vals st1"
      "ms_trace st' = ms_trace st1 @ map (\<lambda>ob. Call db (restore_request ob)) (if ok then obs else take (Suc k) obs)"
      using Cons.IH [OF st1(1)] Cons.prems(2,3) st1(2) by auto
    have "receives env V db (payload (take (Suc k) (ob # obs))) st st'"
      using receives_trans [OF s1 l(2)] by (simp add: payload_Cons)
    then show ?thesis using one(1) False l(1,3-5) frame
      by (intro exI [of _ ok] exI [of _ st'] exI [of _ "Suc k"]) (cases ok; simp)
  qed
qed

text \<open>A server that is ready to receive into a database, without threads of its own.\<close>

definition receiver :: "'b env \<Rightarrow> ('b \<Rightarrow> int \<Rightarrow> string \<Rightarrow> string option) \<Rightarrow> int \<Rightarrow> 'b mstate \<Rightarrow> bool" where
  "receiver env V db st \<longleftrightarrow> in_step env V st \<and> 0 \<le> db \<and> db < num_dbs (ms_slots st) \<and>
     \<not> async (g_slots_meta_info (ms_slots st)) \<and> slots_restore_threads (g_slots_meta_info (ms_slots st)) \<le> 0"

lemma receiver_receives: "receiver env V db st \<Longrightarrow> receives env V db m st st' \<Longrightarrow> receiver env V db st'"
  by (simp add: receiver_def receives_def same_frame_def)

text \<open>The command on the receiving server: an error, or all objects.\<close>

lemma restore_command_receives:
  assumes c: "cmp_ok (ex_cmp env)" and r: "restores_values env V" and a: "announces env V" and i: "receiver env V db st"
    and fit: "fits (V (ms_world st) db) (obj_key ` set obs)" and obs: "obs \<noteq> []" "\<forall>ob \<in> set obs. sendable ob"
  shows "\<exists>s out st' k. SlotsRestore_RedisCommand env started db (restore_cmd obs) st = Some (Replied s out st') \<and>
    k \<le> length obs \<and> receives env V db (payload (take k obs)) st st' \<and>
    (k < length obs \<longrightarrow> out = [ReplyWithError REDISXSLOT_ERRORMSG_MGRT])"
proof -
  let ?st = "st\<lparr>ms_vals := ms_vals st + values_of obs\<rparr>"
  have st: "in_step env V ?st" "0 \<le> db" "db < num_dbs (ms_slots ?st)" "fits (V (ms_world ?st) db) (obj_key ` set (map received obs))"
    using i fit by (simp_all add: receiver_def received_def image_image)
  have len: "length (restore_cmd obs) = 1 + 3 * length obs" by (simp add: restore_cmd_def length_args del: length_concat)
  have n: "1 \<le> length obs" using obs(1) by (cases obs) simp_all
  obtain ok st1 k where "restore_loop env db (map received obs) ?st = Some (ok, st1)"
    "if ok then k = length (map received obs) else k < length (map received obs) \<and>
      (\<exists>w. ex_call env db (restore_request (map received obs ! k)) w = (Some RError, [], ms_world st1))"
    "receives env V db (payload (take k (map received obs))) ?st st1"
    using restore_loop_receives [OF c r a st] by blast
  then have l: "restore_loop env db (map received obs) ?st = Some (ok, st1)" "k \<le> length obs" "ok \<longrightarrow> k = length obs"
    "receives env V db (payload (take k (map received obs))) ?st st1" by (auto split: if_splits)
  have p: "payload (take k (map received obs)) = payload (take k obs)"
    by (simp add: payload_def take_map received_def comp_def)
  let ?ret = "if ok then int (length obs) else SLOTS_MGRT_ERR"
  let ?st' = "st1\<lparr>ms_vals := ms_vals st1 - values_of obs\<rparr>"
  have "slotsRestoreCmd env db (restore_cmd obs) st = Some (?ret, ?st')"
    using slotsRestoreCmd_batch [OF obs(2), of env db st] l(1) i
    by (simp add: SlotsMGRT_Restore_def restoreMutli_def receiver_def)
  moreover have "receives env V db (payload (take k obs)) st ?st'" using l(4) p by simp
  ultimately show ?thesis using i len n l(2,3) count_not_err(1) [of "length obs"]
    by (cases ok) (auto simp: SlotsRestore_RedisCommand_def receiver_def reply_now_def migrate_error_def)
qed

section \<open>The link\<close>

definition error_reply :: "reply_call list \<Rightarrow> bool" where
  "error_reply out \<longleftrightarrow> (case out of [ReplyWithError e] \<Rightarrow> True | [WrongArity] \<Rightarrow> True | _ \<Rightarrow> False)"

text \<open>In every world of the sender, \<open>B\<close> is the state of the other server and \<open>sel\<close> the database each
  connection has selected. A command may be lost, or its reply; when it reaches the other server the
  handler of the module executes it, and the sender only sees a success when the handler has
  not answered with an error.\<close>

definition connected :: "'w env \<Rightarrow> 'b env \<Rightarrow> ('w \<Rightarrow> 'b mstate) \<Rightarrow> ('w \<Rightarrow> nat \<Rightarrow> int) \<Rightarrow> bool" where
  "connected env envB B sel \<longleftrightarrow>
     (\<forall>c i w. case ex_command env c [''SELECT'', show_int i] w of (rr, err, w') \<Rightarrow>
        B w' = B w \<and> (rr = Some REPLY_OK \<longrightarrow> sel w' c = i)) \<and>
     (\<forall>c args w. case ex_command env c (''SLOTSRESTORE'' # args) w of (rr, err, w') \<Rightarrow>
        sel w' = sel w \<and>
        (B w' = B w \<and> rr \<noteq> Some REPLY_OK \<or>
         (\<exists>s out. SlotsRestore_RedisCommand envB True (sel w c) (''SLOTSRESTORE'' # args) (B w) = Some (Replied s out (B w')) \<and>
            (rr = Some REPLY_OK \<longrightarrow> \<not> error_reply out))))"

text \<open>Nothing else the sender does reaches the other server.\<close>

definition apart :: "'w env \<Rightarrow> ('w \<Rightarrow> 'k) \<Rightarrow> bool" where
  "apart env B \<longleftrightarrow>
     (\<forall>db cmd w. B (snd (snd (ex_call env db cmd w))) = B w) \<and>
     (\<forall>h p w. B (snd (snd (ex_connect env h p w))) = B w) \<and>
     (\<forall>c s u w. B (ex_timeout env c s u w) = B w) \<and>
     (\<forall>c w. B (ex_disconnect env c w) = B w) \<and>
     (\<forall>w. B (snd (ex_milliseconds env w)) = B w)"

lemma send_batches_received:
  assumes l: "connected env envB B sel" and c: "cmp_ok (ex_cmp envB)" "restores_values envB VB" "announces envB VB"
    and i: "receiver envB VB db (B (ms_world st))" and s: "sel (ms_world st) cn = db"
    and fit: "fits (VB (ms_world (B (ms_world st))) db) (obj_key ` set (concat ps))"
    and ps: "[] \<notin> set ps" "\<forall>ob \<in> set (concat ps). sendable ob"
  shows "\<exists>k \<le> length (concat ps). (fst (send_batches env cn ps st) \<longrightarrow> k = length (concat ps)) \<and>
    receives envB VB db (payload (take k (concat ps))) (B (ms_world st)) (B (ms_world (snd (send_batches env cn ps st))))"
  using i s fit ps
proof (induction ps arbitrary: st)
  case Nil
  then show ?case by (simp add: receives_refl receiver_def)
next
  case (Cons p ps)
  let ?b = "B (ms_world st)"
  obtain rr err st1 where snd: "send_command env cn (restore_cmd p) st = (rr, err, st1)" by (metis prod_cases3)
  then obtain w1 where w: "ex_command env cn (restore_cmd p) (ms_world st) = (rr, err, w1)" "ms_world st1 = w1"
    by (auto simp: send_command_def log_request_def split: prod.splits)
  have "case ex_command env cn (restore_cmd p) (ms_world st) of (rr, err, w') \<Rightarrow>
        sel w' = sel (ms_world st) \<and>
        (B w' = ?b \<and> rr \<noteq> Some REPLY_OK \<or>
         (\<exists>s out. SlotsRestore_RedisCommand envB True (sel (ms_world st) cn) (restore_cmd p) ?b = Some (Replied s out (B w')) \<and>
            (rr = Some REPLY_OK \<longrightarrow> \<not> error_reply out)))"
    unfolding restore_cmd_def
    by (rule l [unfolded connected_def, THEN conjunct2, THEN spec [of _ cn], THEN spec [of _ "concat (map args_of p)"],
      THEN spec [of _ "ms_world st"]])
  then have sel: "sel w1 cn = db" and d: "B w1 = ?b \<and> rr \<noteq> Some REPLY_OK \<or>
      (\<exists>s out. SlotsRestore_RedisCommand envB True db (restore_cmd p) ?b = Some (Replied s out (B w1)) \<and>
        (rr = Some REPLY_OK \<longrightarrow> \<not> error_reply out))" using w Cons.prems(2) by auto
  let ?ok = "\<not> (err \<or> rr = None \<or> rr = Some REPLY_ERROR)"
  have ok: "?ok \<Longrightarrow> rr = Some REPLY_OK" using redis_reply.exhaust by auto
  have fitp: "fits (VB (ms_world ?b) db) (obj_key ` set p \<union> obj_key ` set (concat ps))"
    using Cons.prems(3) by (simp add: image_Un)
  have fit0: "fits (VB (ms_world ?b) db) (obj_key ` set p)" by (rule fits_mono [OF fitp]) auto
  obtain k where k: "k \<le> length p" "receives envB VB db (payload (take k p)) ?b (B w1)" "?ok \<longrightarrow> k = length p"
  proof (cases "B w1 = ?b \<and> rr \<noteq> Some REPLY_OK")
    case True
    then show thesis using that [of 0] ok Cons.prems(1) by (auto simp: receives_refl receiver_def)
  next
    case False
    then obtain s out where e: "SlotsRestore_RedisCommand envB True db (restore_cmd p) ?b = Some (Replied s out (B w1))"
      "rr = Some REPLY_OK \<longrightarrow> \<not> error_reply out" using d by blast
    have "p \<noteq> []" "\<forall>ob \<in> set p. sendable ob" using Cons.prems(4,5) by auto
    from restore_command_receives [OF c Cons.prems(1) fit0 this, of True] e(1) obtain k where
      k: "k \<le> length p" "receives envB VB db (payload (take k p)) ?b (B w1)"
        "k < length p \<longrightarrow> out = [ReplyWithError REDISXSLOT_ERRORMSG_MGRT]" by auto
    then show thesis using that [of k] ok e(2) by (auto simp: error_reply_def)
  qed
  show ?case
  proof (cases ?ok)
    case False
    have "\<not> fst (send_batches env cn (p # ps) st)" "snd (send_batches env cn (p # ps) st) = st1" using False snd by auto
    then show ?thesis using k(1,2) w(2) by (intro exI [of _ k]) simp
  next
    case True
    then have kp: "k = length p" using k(3) by blast
    have eq: "send_batches env cn (p # ps) st = send_batches env cn ps st1" using True snd by auto
    have v: "VB (ms_world (B w1)) db = VB (ms_world ?b) db ++ payload p" using k(2) kp by (simp add: receives_def)
    have fit1: "fits (VB (ms_world (B (ms_world st1))) db) (obj_key ` set (concat ps))" unfolding w(2) v
      by (rule fits_add) (use fitp in \<open>simp_all add: dom_payload Un_commute\<close>)
    have "receiver envB VB db (B (ms_world st1))" "sel (ms_world st1) cn = db"
      using receiver_receives [OF Cons.prems(1) k(2)] sel w(2) by simp_all
    from Cons.IH [OF this fit1] obtain k' where k': "k' \<le> length (concat ps)"
      "fst (send_batches env cn ps st1) \<longrightarrow> k' = length (concat ps)"
      "receives envB VB db (payload (take k' (concat ps))) (B w1) (B (ms_world (snd (send_batches env cn ps st1))))"
      using Cons.prems(4,5) w(2) by auto
    have "payload (take (length p + k') (concat (p # ps))) = payload p ++ payload (take k' (concat ps))" by simp
    then show ?thesis using receives_trans [OF k(2) k'(3)] k'(1,2) kp eq
      by (intro exI [of _ "length p + k'"]) simp
  qed
qed


section \<open>Sending to it\<close>

text \<open>The functions that do not send a command do not reach the other server.\<close>

definition silent :: "'w env \<Rightarrow> 'w env" where
  "silent env = env\<lparr>ex_command := \<lambda>c cmd w. (None, False, w), ex_append := \<lambda>c cmd w. w,
     ex_get_reply := \<lambda>c w. (False, None, w), ex_pool := \<lambda>t n w. ([], w)\<rparr>"

lemma remote_silent: "apart env B \<Longrightarrow> remote (silent env) B"
  by (simp add: apart_def remote_def silent_def)

lemma silent_same [simp]:
  "SlotsMGRT_GetConnCtx (silent env) tid meta st = SlotsMGRT_GetConnCtx env tid meta st"
  "SlotsMGRT_CloseConn (silent env) tid meta st = SlotsMGRT_CloseConn env tid meta st"
  "touch_conn (silent env) conn st = touch_conn env conn st"
  by (simp_all add: silent_def SlotsMGRT_GetConnCtx_def SlotsMGRT_CloseConn_def touch_conn_def get_unixtime_def
    Let_def cong del: option.case_cong_weak prod.case_cong_weak if_weak_cong)

lemma sends_apart: "sends B st st' \<Longrightarrow> B (ms_world st') = B (ms_world st)"
  by (simp add: sends_def)

lemma reply_ok: "rr \<noteq> None \<Longrightarrow> rr \<noteq> Some REPLY_ERROR \<Longrightarrow> rr = Some REPLY_OK"
  by (metis not_None_eq redis_reply.exhaust)

lemma select_db_connected:
  assumes l: "connected env envB B sel" and c: "conn_of st conn = Some c" and s: "select_db env conn db st = Some (ok, st')"
  shows "B (ms_world st') = B (ms_world st) \<and> (ok \<longrightarrow> sel (ms_world st') c = db)"
proof -
  obtain rr err w where w: "ex_command env c [''SELECT'', show_int db] (ms_world st) = (rr, err, w)" by (metis prod_cases3)
  have "case ex_command env c [''SELECT'', show_int db] (ms_world st) of (rr, err, w') \<Rightarrow>
      B w' = B (ms_world st) \<and> (rr = Some REPLY_OK \<longrightarrow> sel w' c = db)"
    by (rule l [unfolded connected_def, THEN conjunct1, THEN spec [of _ c], THEN spec [of _ db], THEN spec [of _ "ms_world st"]])
  moreover have "ms_world st' = w" "ok \<longrightarrow> rr = Some REPLY_OK"
    using c s w reply_ok [of rr] by (auto simp: select_db_def send_command_def log_request_def)
  ultimately show ?thesis using w by auto
qed

lemma MGRT_received:
  assumes r: "remote env K" "apart env B" "connected env envB B sel" and c: "cmp_ok (ex_cmp envB)" "restores_values envB VB" "announces envB VB"
    and i: "receiver envB VB db (B (ms_world st))" and fit: "fits (VB (ms_world (B (ms_world st))) db) (obj_key ` set obs)"
    and tid: "is_llong tid" and p: "c_atoi p \<noteq> None" and obs: "\<forall>ob \<in> set obs. sendable ob"
    and th: "slots_mgrt_threads (g_slots_meta_info (ms_slots st)) \<le> 0"
    and ty: "with_pipeline ty \<longrightarrow> async (g_slots_meta_info (ms_slots st))"
    and m: "MGRT env tid db h p timeout (map Some obs) (length obs) ty st = Some (ret, st')"
  shows "\<exists>k \<le> length obs. (ret \<noteq> SLOTS_MGRT_ERR \<longrightarrow> k = length obs) \<and>
    receives envB VB db (payload (take k obs)) (B (ms_world st)) (B (ms_world st'))"
proof -
  let ?meta = "\<lparr>meta_db = db, host = h, port = p, tv_sec = timeout sdiv 1000, tv_usec = (timeout smod 1000) * 1000\<rparr>"
  have p': "c_atoi (port ?meta) \<noteq> None" using p by simp
  note rB = remote_silent [OF r(2)]
  have unchanged: "\<exists>k \<le> length obs. (SLOTS_MGRT_ERR \<noteq> SLOTS_MGRT_ERR \<longrightarrow> k = length obs) \<and>
    receives envB VB db (payload (take k obs)) (B (ms_world st)) (B (ms_world st))"
    by (rule exI [of _ "0 :: nat"]) (use i in \<open>simp add: receives_refl receiver_def\<close>)
  obtain conn st1 where g: "SlotsMGRT_GetConnCtx env tid ?meta st = Some (conn, st1)" "sends K st st1"
    "\<forall>name. conn = Some name \<longrightarrow> conn_of st1 name \<noteq> None" using GetConnCtx_ok [OF r(1) tid p', of st] by blast
  have B1: "B (ms_world st1) = B (ms_world st)" using GetConnCtx_ok [OF rB tid p', of st] g(1) by (auto dest: sends_apart)
  show ?thesis
  proof (cases conn)
    case None
    then have e: "ret = SLOTS_MGRT_ERR" "st' = st1" using m g(1) th by (simp_all add: MGRT_def Let_def)
    from unchanged show ?thesis unfolding e B1 .
  next
    case (Some name)
    then obtain cn where cn: "conn_of st1 name = Some cn" using g(3) by blast
    obtain ok st2 where s: "select_db env name db st1 = Some (ok, st2)" "sends K st1 st2" "conn_of st2 = conn_of st1"
      using select_db_ok [OF r(1), of st1 name db] cn by auto
    have B2: "B (ms_world st2) = B (ms_world st)" "ok \<longrightarrow> sel (ms_world st2) cn = db"
      using select_db_connected [OF r(3) cn s(1)] B1 by simp_all
    have close: "B (ms_world s') = B (ms_world s)" if "SlotsMGRT_CloseConn env tid ?meta s = Some s'" for s s'
      using CloseConn_ok [OF rB tid, of ?meta s] that by (auto dest: sends_apart)
    show ?thesis
    proof (cases ok)
      case False
      then have e: "SlotsMGRT_CloseConn env tid ?meta st2 = Some st'" "ret = SLOTS_MGRT_ERR"
        using m g(1) s(1) Some th by (auto simp: MGRT_def Let_def split: bind_splits)
      show ?thesis unfolding e(2) close [OF e(1)] B2(1) by (rule unchanged)
    next
      case True
      let ?r = "send_batches env cn (pieces [] obs) st2"
      have as: "async (g_slots_meta_info (ms_slots st2)) = async (g_slots_meta_info (ms_slots st))"
        using g(2) s(2) by (simp add: sends_def)
      obtain st3 where b: "BatchSend_SlotsRestore env name (map Some obs) (length obs) st2 = Some (ret, st3)"
        "SlotsMGRT_CloseConn env tid ?meta st3 = Some st'"
        using m g(1) s(1) Some True th ty as by (auto simp: MGRT_def Let_def split: bind_splits)
      have cn2: "conn_of st2 name = Some cn" using cn s(3) by simp
      have "fst ?r \<or> ret = SLOTS_MGRT_ERR" "B (ms_world st3) = B (ms_world (snd ?r))"
      proof -
        have "conn_of (snd ?r) name \<noteq> None" using conn_of_batches [of env cn _ st2 name] cn2 by simp
        from touch_conn_sends [OF rB this] obtain st4 where "touch_conn env name (snd ?r) = Some st4"
          "B (ms_world st4) = B (ms_world (snd ?r))" by (auto dest: sends_apart)
        then show "fst ?r \<or> ret = SLOTS_MGRT_ERR" "B (ms_world st3) = B (ms_world (snd ?r))"
          using BatchSend_batches [OF cn2 obs, of env] b(1) by (auto simp: Let_def split: if_splits)
      qed
      moreover have "\<exists>k \<le> length (concat (pieces [] obs)). (fst ?r \<longrightarrow> k = length (concat (pieces [] obs))) \<and>
          receives envB VB db (payload (take k (concat (pieces [] obs)))) (B (ms_world st2)) (B (ms_world (snd ?r)))"
        by (rule send_batches_received [OF r(3) c])
          (use i fit B2 True obs in \<open>simp_all add: pieces_concat pieces_nonempty del: length_concat set_concat\<close>)
      ultimately show ?thesis using close [OF b(2)] B2(1) by (auto simp: pieces_concat)
    qed
  qed
qed


section \<open>The sending server\<close>

text \<open>\<open>UNLINK\<close>, \<open>DUMP\<close> and \<open>PTTL\<close>, as Redis documents them.\<close>

definition unlinks_values :: "'w env \<Rightarrow> ('w \<Rightarrow> int \<Rightarrow> string \<Rightarrow> string option) \<Rightarrow> bool" where
  "unlinks_values env V \<longleftrightarrow> (\<forall>db key w. case ex_call env db [''UNLINK'', key] w of (reply, evs, w') \<Rightarrow>
     reply = Some (RInteger (if V w db key = None then 0 else 1)) \<and>
     evs = (if V w db key = None then [] else [KeyDeleted db key]) \<and>
     V w' = (V w)(db := (V w db)(key := None)))"

definition dumps_values :: "'w env \<Rightarrow> ('w \<Rightarrow> int \<Rightarrow> string \<Rightarrow> string option) \<Rightarrow> bool" where
  "dumps_values env V \<longleftrightarrow> (\<forall>db key w v. V w db key = Some v \<longrightarrow>
     (\<exists>w1. ex_call env db [''DUMP'', key] w = (Some (RString v), [], w1) \<and> V w1 = V w) \<and>
     (\<exists>ttl w2. ex_call env db [''PTTL'', key] w = (Some (RInteger ttl), [], w2) \<and> is_llong ttl \<and> V w2 = V w))"

lemma unlinks_keys:
  assumes "unlinks_values env V"
  shows "unlinks env (keys_of V)"
  unfolding unlinks_def
proof (intro allI)
  fix db key w
  have "case ex_call env db [''UNLINK'', key] w of (reply, evs, w') \<Rightarrow>
     reply = Some (RInteger (if V w db key = None then 0 else 1)) \<and>
     evs = (if V w db key = None then [] else [KeyDeleted db key]) \<and>
     V w' = (V w)(db := (V w db)(key := None))"
    by (rule assms [unfolded unlinks_values_def, THEN spec [of _ db], THEN spec [of _ key], THEN spec [of _ w]])
  then show "case ex_call env db [''UNLINK'', key] w of (reply, evs, w') \<Rightarrow>
     reply = Some (RInteger (if key \<in> keys_of V w db then 1 else 0)) \<and>
     evs = (if key \<in> keys_of V w db then [KeyDeleted db key] else []) \<and>
     keys_of V w' = (keys_of V w)(db := keys_of V w db - {key})"
    by (cases "V w db key") (auto simp: keys_of_def fun_eq_iff dom_def split: prod.splits)
qed

lemma dumps_keys:
  assumes "dumps_values env V"
  shows "dumps env (keys_of V)"
  unfolding dumps_def
proof (intro allI impI)
  fix db key w assume "key \<in> keys_of V w db"
  then obtain v where "V w db key = Some v" by (auto simp: keys_of_def)
  then show "(\<exists>v w1. ex_call env db [''DUMP'', key] w = (Some (RString v), [], w1) \<and> keys_of V w1 = keys_of V w) \<and>
     (\<exists>ttl w2. ex_call env db [''PTTL'', key] w = (Some (RInteger ttl), [], w2) \<and> is_llong ttl \<and> keys_of V w2 = keys_of V w)"
    using assms unfolding dumps_values_def keys_of_def by metis
qed

lemma remote_keys: "remote env V \<Longrightarrow> remote env (keys_of V)"
  by (simp add: remote_def keys_of_def)

lemma call_apart:
  assumes "apart env B" "server_call env db cmd st = Some (r, st')"
  shows "B (ms_world st') = B (ms_world st)" "\<exists>evs. ex_call env db cmd (ms_world st) = (r, evs, ms_world st')"
proof -
  obtain r' evs w where w: "ex_call env db cmd (ms_world st) = (r', evs, w)" by (metis prod_cases3)
  then have "B w = B (ms_world st)" using assms(1) unfolding apart_def by (metis snd_conv)
  moreover have "r' = r" "ms_world st' = w" using assms(2) w by (auto simp: server_call_def notified_def split: bind_splits)
  ultimately show "B (ms_world st') = B (ms_world st)" "\<exists>evs. ex_call env db cmd (ms_world st) = (r, evs, ms_world st')"
    using w by simp_all
qed

text \<open>What a dump has is the value in the database.\<close>

lemma dumpObj_value:
  assumes d: "dumps_values env V" and a: "apart env B" and key: "V (ms_world st) db key \<noteq> None"
    and o: "dumpObj env db key st = Some (r, ob, st')"
  shows "V (ms_world st') = V (ms_world st) \<and> B (ms_world st') = B (ms_world st) \<and>
    (\<exists>v. V (ms_world st) db key = Some v \<and> map_option obj_val ob = Some v)"
proof -
  obtain v where v: "V (ms_world st) db key = Some v" using key by blast
  obtain rep st1 where c1: "server_call env db [''DUMP'', key] st = Some (rep, st1)"
    using o by (auto simp: dumpObj_def split: bind_splits)
  note b1 = call_apart [OF a c1]
  have w1: "rep = Some (RString v)" "V (ms_world st1) = V (ms_world st)"
    using d [unfolded dumps_values_def, rule_format, OF v] b1(2) by auto
  let ?st1 = "st1\<lparr>ms_vals := ms_vals st1 + {#v#}\<rparr>"
  obtain rep2 st2 where c2: "server_call env db [''PTTL'', key] ?st1 = Some (rep2, st2)"
    using o c1 w1(1) by (auto simp: dumpObj_def split: bind_splits)
  note b2 = call_apart [OF a c2]
  have "V (ms_world ?st1) db key = Some v" using w1(2) v by simp
  from d [unfolded dumps_values_def, rule_format, OF this] b2(2) obtain ttl where
    w2: "rep2 = Some (RInteger ttl)" "V (ms_world st2) = V (ms_world st)" using w1(2) by auto
  have "st' = st2" "ob = Some \<lparr>obj_key = key, obj_val = v, ttlms = ttl\<rparr>"
    using o c1 c2 w1(1) w2(1) by (simp_all add: dumpObj_def)
  then show ?thesis using v w2(2) b1(1) b2(1) by simp
qed

lemma dump_loop_values:
  assumes d: "dumps_values env V" and a: "apart env B"
    and keys: "\<forall>key \<in> set keys. V (ms_world st) db key \<noteq> None"
    and l: "dump_loop env db keys j st = Some (n, map Some obs, st')" "map obj_key obs = keys"
  shows "V (ms_world st') = V (ms_world st) \<and> B (ms_world st') = B (ms_world st) \<and>
    (\<forall>ob \<in> set obs. V (ms_world st) db (obj_key ob) = Some (obj_val ob))"
  using keys l
proof (induction keys arbitrary: j n st obs)
  case Nil
  then show ?case by simp
next
  case (Cons key keys)
  obtain ob obs' where obs: "obs = ob # obs'" "obj_key ob = key" "map obj_key obs' = keys" using Cons.prems(3) by auto
  obtain r slot st1 where o: "dumpObj env db key st = Some (r, slot, st1)" using Cons.prems(2) by (auto split: bind_splits)
  have key: "V (ms_world st) db key \<noteq> None" using Cons.prems(1) by simp
  note v = dumpObj_value [OF d a key o]
  show ?case
  proof (cases "r = SLOTS_MGRT_ERR")
    case True
    then have "slot = Some ob" "replicate (length keys) None = map Some obs'" "st' = st1" using Cons.prems(2) o obs(1) by auto
    moreover from this(2) have "obs' = []" by (cases keys; cases obs') auto
    ultimately show ?thesis using v obs(1,2) by auto
  next
    case False
    then obtain j' where r: "slot = Some ob" "dump_loop env db keys j' st1 = Some (n, map Some obs', st')"
      using Cons.prems(2) o obs(1) by (auto split: bind_splits)
    have "\<forall>key \<in> set keys. V (ms_world st1) db key \<noteq> None" using Cons.prems(1) v by simp
    from Cons.IH [OF this r(2) obs(3)] show ?thesis using v r(1) obs(1,2) by auto
  qed
qed

lemma payload_values:
  "\<forall>ob \<in> set obs. m (obj_key ob) = Some (obj_val ob) \<Longrightarrow> payload obs = m |` set (map obj_key obs)"
proof (induction obs)
  case (Cons ob obs)
  then have "payload (ob # obs) = [obj_key ob \<mapsto> obj_val ob] ++ (m |` set (map obj_key obs))" by (simp add: payload_Cons)
  then show ?case using Cons.prems by (auto simp: fun_eq_iff restrict_map_def map_add_def)
qed (simp add: fun_eq_iff)

lemma delKeys_values:
  assumes u: "unlinks_values env V" and a: "apart env B" and d: "delKeys env db keys ret st = Some (r, st')"
  shows "V (ms_world st') = (V (ms_world st))(db := V (ms_world st) db |` (- set keys)) \<and> B (ms_world st') = B (ms_world st)"
  using d
proof (induction keys arbitrary: ret st)
  case (Cons key keys)
  obtain rep st1 where c: "server_call env db [''UNLINK'', key] st = Some (rep, st1)"
    using Cons.prems by (auto split: bind_splits)
  note b = call_apart [OF a c]
  have "case ex_call env db [''UNLINK'', key] (ms_world st) of (reply, evs, w') \<Rightarrow>
     reply = Some (RInteger (if V (ms_world st) db key = None then 0 else 1)) \<and>
     evs = (if V (ms_world st) db key = None then [] else [KeyDeleted db key]) \<and>
     V w' = (V (ms_world st))(db := (V (ms_world st) db)(key := None))"
    by (rule u [unfolded unlinks_values_def, THEN spec [of _ db], THEN spec [of _ key], THEN spec [of _ "ms_world st"]])
  then obtain i where w: "rep = Some (RInteger i)" "V (ms_world st1) = (V (ms_world st))(db := (V (ms_world st) db)(key := None))"
    using b(2) by auto
  have "delKeys env db keys (ret + 1) st1 = Some (r, st')" using Cons.prems c w(1) by simp
  from Cons.IH [OF this] show ?case using w(2) b(1) by (auto simp: fun_eq_iff restrict_map_def)
qed (simp add: restrict_map_def)


section \<open>Two concrete servers\<close>

type_synonym store = "int \<Rightarrow> string \<Rightarrow> string option"

fun duo_restore :: "int \<Rightarrow> string list \<Rightarrow> store \<Rightarrow> call_reply option \<times> server_event list \<times> store" where
  "duo_restore db [cmd, key, ttl, val, opt] w =
     (if cmd = ''RESTORE'' then (Some (RString ''OK''), [KeyRestored db key], w(db := (w db)(key \<mapsto> val)))
      else (Some RError, [], w))"
| "duo_restore db cmd w = (Some RError, [], w)"

definition duo_receiver :: "store env" where
  "duo_receiver = \<lparr>ex_cmp = bytes_cmp, ex_call = duo_restore, ex_key_type = (\<lambda>db key w. (KEYTYPE_STRING, [], w)),
     ex_notify = (\<lambda>db cls event key w. ([KeyWritten db key [65535]], w)), ex_connect = (\<lambda>h p w. (True, 0, w)),
     ex_timeout = (\<lambda>c s u w. w), ex_command = (\<lambda>c cmd w. (None, True, w)), ex_append = (\<lambda>c cmd w. w),
     ex_get_reply = (\<lambda>c w. (False, None, w)), ex_disconnect = (\<lambda>c w. w), ex_milliseconds = (\<lambda>w. (5000, w)),
     ex_pool = (\<lambda>t n w. ([], w)), ex_string2ll = m_string2ll\<rparr>"

text \<open>The world of the sender: its databases, the other server, the database each connection has selected.\<close>

type_synonym duo = "store \<times> store mstate \<times> (nat \<Rightarrow> int)"

fun duo_call :: "int \<Rightarrow> string list \<Rightarrow> duo \<Rightarrow> call_reply option \<times> server_event list \<times> duo" where
  "duo_call db [cmd, key] (w, b, s) =
     (if cmd = ''UNLINK''
      then (Some (RInteger (if w db key = None then 0 else 1)), if w db key = None then [] else [KeyDeleted db key],
        w(db := (w db)(key := None)), b, s)
      else if cmd = ''DUMP'' then (case w db key of None \<Rightarrow> Some RNull | Some v \<Rightarrow> Some (RString v), [], w, b, s)
      else (Some (RInteger (- 1)), [], w, b, s))"
| "duo_call db cmd w = (Some RError, [], w)"

definition duo_command :: "nat \<Rightarrow> string list \<Rightarrow> duo \<Rightarrow> redis_reply option \<times> bool \<times> duo" where
  "duo_command c cmd w = (case w of (w, b, s) \<Rightarrow>
     if cmd \<noteq> [] \<and> hd cmd = ''SELECT''
     then (case m_string2ll (hd (tl cmd)) of None \<Rightarrow> (Some REPLY_ERROR, False, w, b, s)
       | Some i \<Rightarrow> (Some REPLY_OK, False, w, b, s(c := i)))
     else (case SlotsRestore_RedisCommand duo_receiver True (s c) cmd b of
         Some (Replied st out b') \<Rightarrow> (Some (if error_reply out then REPLY_ERROR else REPLY_OK), False, w, b', s)
       | _ \<Rightarrow> (None, True, w, b, s)))"

definition duo_sender :: "duo env" where
  "duo_sender = \<lparr>ex_cmp = bytes_cmp, ex_call = duo_call, ex_key_type = (\<lambda>db key w. (KEYTYPE_STRING, [], w)),
     ex_notify = (\<lambda>db cls event key w. ([], w)), ex_connect = (\<lambda>h p w. (False, 1, w)), ex_timeout = (\<lambda>c s u w. w),
     ex_command = duo_command, ex_append = (\<lambda>c cmd w. w), ex_get_reply = (\<lambda>c w. (False, None, w)),
     ex_disconnect = (\<lambda>c w. w), ex_milliseconds = (\<lambda>w. (5000, w)), ex_pool = (\<lambda>t n w. ([], w)),
     ex_string2ll = m_string2ll\<rparr>"

definition duo_empty :: "store mstate" where
  "duo_empty = \<lparr>ms_slots = initial 16 2 0 True False None, ms_conns = Map.empty, ms_world = (\<lambda>db. Map.empty), ms_vals = {#},
     ms_trace = []\<rparr>"

definition duo_state :: "duo mstate" where
  "duo_state = \<lparr>ms_slots = demo_state, ms_conns = Map.empty,
     ms_world = ((\<lambda>db. Map.empty)(0 := [''a{t}'' \<mapsto> ''v'']), duo_empty, \<lambda>c. 0), ms_vals = {#}, ms_trace = []\<rparr>"

lemma duo_receiver: "cmp_ok (ex_cmp duo_receiver)" "restores_values duo_receiver (\<lambda>w. w)" "announces duo_receiver (\<lambda>w. w)"
  by (auto simp: duo_receiver_def restores_values_def announces_def bytes_cmp_ok draws_ok)

lemma duo_sender: "cmp_ok (ex_cmp duo_sender)" "unlinks_values duo_sender fst" "dumps_values duo_sender fst"
  by (auto simp: duo_sender_def unlinks_values_def dumps_values_def bytes_cmp_ok is_llong_def LLONG_MIN_def LLONG_MAX_def)

lemma duo_command_fst: "fst (snd (snd (duo_command c cmd w))) = fst w"
  by (auto simp: duo_command_def split: prod.splits option.splits handled.splits)

lemma duo_call_snd: "fst (snd (snd (snd (duo_call db cmd w)))) = fst (snd w)"
  by (induction db cmd w rule: duo_call.induct) auto

lemma duo_apart: "remote duo_sender fst" "apart duo_sender (\<lambda>w. fst (snd w))"
  by (simp_all add: remote_def apart_def duo_sender_def duo_command_fst duo_call_snd)

text \<open>Different numbers have different texts.\<close>

lemma show_int_inj: "show_int a = show_int b \<Longrightarrow> a = b"
proof -
  assume e: "show_int a = show_int b"
  have n: "show_nat n \<noteq> [] \<and> hd (show_nat n) \<noteq> CHR ''-''" for n
  proof -
    have "show_nat n \<noteq> []" using length_show_nat_pos [of n] by auto
    moreover have "is_digit (hd (show_nat n))" using calculation show_nat_digits [of n] by (cases "show_nat n") auto
    moreover have "\<not> is_digit (CHR ''-'')" by (simp add: is_digit_def)
    ultimately show ?thesis by metis
  qed
  have neg: "(hd (show_int v) = CHR ''-'') = (v < 0)" for v using n by (simp add: show_int_def)
  then have "(a < 0) = (b < 0)" using e by metis
  then have "show_nat (nat \<bar>a\<bar>) = show_nat (nat \<bar>b\<bar>)" using e by (auto simp: show_int_def split: if_splits)
  then have "nat \<bar>a\<bar> = nat \<bar>b\<bar>" by (metis digits_val_show)
  then show "a = b" using \<open>(a < 0) = (b < 0)\<close> by linarith
qed

lemma duo_connected: "connected duo_sender duo_receiver (\<lambda>w. fst (snd w)) (\<lambda>w. snd (snd w))"
  unfolding connected_def
proof (intro conjI allI)
  fix c i and w :: duo
  show "case ex_command duo_sender c [''SELECT'', show_int i] w of (rr, err, w') \<Rightarrow>
      fst (snd w') = fst (snd w) \<and> (rr = Some REPLY_OK \<longrightarrow> snd (snd w') c = i)"
  proof (cases "is_llong i")
    case True
    then have "m_string2ll (show_int i) = Some i" by (simp add: m_string2ll_iff)
    then show ?thesis by (auto simp: duo_sender_def duo_command_def split: prod.splits)
  next
    case False
    then have "m_string2ll (show_int i) = None" 
      by (cases "m_string2ll (show_int i)") (auto simp: m_string2ll_iff dest: show_int_inj)
    then show ?thesis by (auto simp: duo_sender_def duo_command_def split: prod.splits)
  qed
next
  fix c args and w :: duo
  show "case ex_command duo_sender c (''SLOTSRESTORE'' # args) w of (rr, err, w') \<Rightarrow>
        snd (snd w') = snd (snd w) \<and>
        (fst (snd w') = fst (snd w) \<and> rr \<noteq> Some REPLY_OK \<or>
         (\<exists>s out. SlotsRestore_RedisCommand duo_receiver True (snd (snd w) c) (''SLOTSRESTORE'' # args) (fst (snd w)) =
              Some (Replied s out (fst (snd w'))) \<and> (rr = Some REPLY_OK \<longrightarrow> \<not> error_reply out)))"
    by (auto simp: duo_sender_def duo_command_def split: prod.splits option.splits handled.splits)
qed

lemma duo_ready: "receiver duo_receiver (\<lambda>w. w) 0 duo_empty"
proof -
  have "keys_of (\<lambda>w. w) (ms_world duo_empty) = (\<lambda>db. {})" by (simp add: keys_of_def duo_empty_def)
  then have "follows duo_receiver (keys_of (\<lambda>w. w)) {#} duo_empty"
    using tracks_initial(1) [of 16 2 bytes_cmp 0 True False None]
    by (simp add: follows_def duo_empty_def duo_receiver_def initial_def Slots_Init_def slots_boot_def tracks_def)
  moreover have "cmd_flag (ms_slots duo_empty) = CMD_NONE" "num_dbs (ms_slots duo_empty) = 2"
    "\<not> async (g_slots_meta_info (ms_slots duo_empty))" "slots_restore_threads (g_slots_meta_info (ms_slots duo_empty)) = 0"
    by (simp_all add: duo_empty_def initial_def Slots_Init_def slots_boot_def)
  ultimately show ?thesis by (auto simp: receiver_def in_step_def)
qed

lemma duo_follows: "follows duo_sender (keys_of fst) {#} duo_state"
proof -
  have "keys_of fst (ms_world duo_state) = demo_keys [''a{t}'']"
    by (auto simp: keys_of_def duo_state_def demo_keys_def fun_eq_iff split: if_splits)
  then show ?thesis using demo_follows
    by (simp add: follows_def duo_state_def demo_mstate_def duo_sender_def demo_env_def)
qed

section \<open>Properties\<close>

text \<open>C3: A migration between two servers that run the module, on the databases of both. It returns; on
  success the keys are gone from the database of the sender and the receiver has them with the
  values they had, and nothing else has changed in any database; on an error the sender has all it had and
  the receiver has at most copies of some of the keys. The index of each server is in step with its
  databases after it in either case. Commands and replies may be lost on the way.\<close>

theorem migration_between_servers:
  fixes V :: "'w \<Rightarrow> int \<Rightarrow> string \<Rightarrow> string option" and VB :: "'b \<Rightarrow> int \<Rightarrow> string \<Rightarrow> string option"
  assumes "cmp_ok (ex_cmp env)" and "unlinks_values env V" and "dumps_values env V" and "remote env V"
    and "cmp_ok (ex_cmp envB)" and "restores_values envB VB" and "announces envB VB"
    and "connected env envB B sel" and "apart env B"
    and "follows env (keys_of V) L st" and "0 \<le> db" and "db < num_dbs (ms_slots st)"
    and "keys \<noteq> []" and "set keys \<subseteq> dom (V (ms_world st) db)"
    and "slots_mgrt_threads (g_slots_meta_info (ms_slots st)) \<le> 0" and "slots_dump_threads (g_slots_meta_info (ms_slots st)) \<le> 0"
    and "is_llong tid" and "c_atoi p \<noteq> None" and "with_pipeline ty \<longrightarrow> async (g_slots_meta_info (ms_slots st))"
    and "receiver envB VB db (B (ms_world st))" and "fits (VB (ms_world (B (ms_world st))) db) (set keys)"
  shows "\<exists>r st'. migrateKeys env tid db h p timeout keys ty st = Some (r, st') \<and>
    follows env (keys_of V) L st' \<and> receiver envB VB db (B (ms_world st')) \<and>
    (r = int (length keys) \<and>
       V (ms_world st') = (V (ms_world st))(db := V (ms_world st) db |` (- set keys)) \<and>
       VB (ms_world (B (ms_world st'))) = (VB (ms_world (B (ms_world st))))(db :=
         VB (ms_world (B (ms_world st))) db ++ V (ms_world st) db |` set keys) \<or>
     r = SLOTS_MGRT_ERR \<and> V (ms_world st') = V (ms_world st) \<and>
       (\<exists>ks \<subseteq> set keys. VB (ms_world (B (ms_world st'))) = (VB (ms_world (B (ms_world st))))(db :=
         VB (ms_world (B (ms_world st))) db ++ V (ms_world st) db |` ks)))"
proof -
  have sub: "set keys \<subseteq> keys_of V (ms_world st) db" using assms(14) by (simp add: keys_of_def)
  obtain r st' obs st1 st2 ret where o: "migrateKeys env tid db h p timeout keys ty st = Some (r, st')"
    "dump_loop env db keys 0 st = Some (int (length keys), map Some obs, st1)" "map obj_key obs = keys"
    "\<forall>ob \<in> set obs. sendable ob"
    "MGRT env tid db h p timeout (map Some obs) (length obs) ty st1 = Some (ret, st2)"
    "keeps (keys_of V) st (st2\<lparr>ms_vals := ms_vals st\<rparr>)"
    "ret = SLOTS_MGRT_ERR \<and> r = SLOTS_MGRT_ERR \<and> st' = st2\<lparr>ms_vals := ms_vals st\<rparr> \<or>
     ret = int (length keys) \<and> r = int (length keys) \<and> deletes env (keys_of V) L db (set keys) (st2\<lparr>ms_vals := ms_vals st\<rparr>) st' \<and>
       ms_trace st' = ms_trace st2 @ map (\<lambda>key. Call db [''UNLINK'', key]) keys"
    "ret \<noteq> SLOTS_MGRT_ERR \<longrightarrow> delKeys env db keys 0 (st2\<lparr>ms_vals := ms_vals st\<rparr>) = Some (r, st')"
    by (rule migrateKeys_outcome [OF assms(1) unlinks_keys [OF assms(2)] dumps_keys [OF assms(3)] remote_keys [OF assms(4)]
      assms(10-13) sub assms(15-18), of h timeout ty])
  have "\<forall>key \<in> set keys. V (ms_world st) db key \<noteq> None" using assms(14) by blast
  from dump_loop_values [OF assms(3,9) this o(2,3)]
  have d: "V (ms_world st1) = V (ms_world st)" "B (ms_world st1) = B (ms_world st)"
    "\<forall>ob \<in> set obs. V (ms_world st) db (obj_key ob) = Some (obj_val ob)" by blast+
  have pay: "payload (take k obs) = V (ms_world st) db |` set (take k keys)" for k
  proof -
    have "\<forall>ob \<in> set (take k obs). V (ms_world st) db (obj_key ob) = Some (obj_val ob)" using d(3) by (meson in_set_takeD)
    from payload_values [OF this] show ?thesis by (simp only: o(3) [symmetric] take_map)
  qed
  have slots: "ms_slots st1 = ms_slots st"
    using dump_loop_ok [OF dumps_keys [OF assms(3)] sub, of 0] o(2) by (auto simp: keeps_def)
  have "V (ms_world st2) = V (ms_world st1)"
    using MGRT_ok [OF assms(4,17,18) o(4), of st1 db h timeout ty] o(5) assms(15) slots by (auto simp: sends_def)
  then have V2: "V (ms_world st2) = V (ms_world st)" using d(1) by simp
  have rb: "receiver envB VB db (B (ms_world st1))"
    "fits (VB (ms_world (B (ms_world st1))) db) (obj_key ` set obs)"
    using assms(20,21) d(2) o(3) by (simp_all flip: set_map)
  obtain k where k: "k \<le> length obs" "ret \<noteq> SLOTS_MGRT_ERR \<longrightarrow> k = length obs"
    "receives envB VB db (payload (take k obs)) (B (ms_world st1)) (B (ms_world st2))"
    using MGRT_received [OF assms(4,9,8,5-7) rb assms(17,18) o(4) _ _ o(5)] assms(15,19) slots by auto
  show ?thesis
  proof (cases "ret = SLOTS_MGRT_ERR")
    case True
    then have r: "r = SLOTS_MGRT_ERR" "st' = st2\<lparr>ms_vals := ms_vals st\<rparr>" using o(7) by (auto simp: SLOTS_MGRT_ERR_def)
    have "follows env (keys_of V) L st'" using follows_keeps [OF assms(10) o(6)] r(2) by simp
    moreover have "set (take k keys) \<subseteq> set keys" by (rule set_take_subset)
    ultimately show ?thesis using o(1) r V2 k(3) pay d(2) receiver_receives [OF rb(1) k(3)] by (auto simp: receives_def)
  next
    case False
    then have r: "r = int (length keys)" "follows env (keys_of V) L st'" "delKeys env db keys 0 (st2\<lparr>ms_vals := ms_vals st\<rparr>) = Some (r, st')"
      using o(7,8) by (auto simp: deletes_def)
    note del = delKeys_values [OF assms(2,9) r(3)]
    have "take k keys = keys" using k(2) False o(3) by auto
    then show ?thesis using o(1) r(1,2) V2 del k(3) pay [of k] d(2) receiver_receives [OF rb(1) k(3)] by (auto simp: receives_def)
  qed
qed


lemma migration_between_servers_witness:
  "\<exists>r st'. migrateKeys duo_sender 7 0 ''h'' ''6379'' 1000 [''a{t}''] None duo_state = Some (r, st') \<and>
    (r = 1 \<and> fst (ms_world st') 0 ''a{t}'' = None \<and> ms_world (fst (snd (ms_world st'))) 0 ''a{t}'' = Some ''v'' \<or>
     r = - 1 \<and> fst (ms_world st') 0 ''a{t}'' = Some ''v'')"
proof -
  have s: "ms_slots duo_state = demo_state" "fst (ms_world duo_state) 0 = [''a{t}'' \<mapsto> ''v'']"
    "fst (snd (ms_world duo_state)) = duo_empty" by (simp_all add: duo_state_def)
  have pre: "(0 :: int) \<le> 0" "0 < num_dbs (ms_slots duo_state)" "[''a{t}''] \<noteq> []" "set [''a{t}''] \<subseteq> dom (fst (ms_world duo_state) 0)"
    "slots_mgrt_threads (g_slots_meta_info (ms_slots duo_state)) \<le> 0" "slots_dump_threads (g_slots_meta_info (ms_slots duo_state)) \<le> 0"
    "is_llong 7" "c_atoi ''6379'' \<noteq> None" "with_pipeline None \<longrightarrow> async (g_slots_meta_info (ms_slots duo_state))"
    "receiver duo_receiver (\<lambda>w. w) 0 (fst (snd (ms_world duo_state)))"
    "fits (ms_world (fst (snd (ms_world duo_state))) 0) (set [''a{t}''])"
    by (simp_all add: s demo_state demo_threads is_llong_def LLONG_MIN_def LLONG_MAX_def atoi_6379 with_pipeline_def duo_ready
      fits_def) (simp_all add: duo_empty_def)
  from migration_between_servers [where V = fst and VB = "\<lambda>w. w" and B = "\<lambda>w. fst (snd w)" and sel = "\<lambda>w. snd (snd w)",
      OF duo_sender(1,2,3) duo_apart(1) duo_receiver duo_connected duo_apart(2) duo_follows pre,
      of "''h''" 1000]
  show ?thesis unfolding s(2,3) SLOTS_MGRT_ERR_def by (auto simp: s(2))
qed

text \<open>C14: What was sent is what is restored. The receiver executes every command made from objects:
  it answers with their number after one \<open>RESTORE ... REPLACE\<close> for each in order, with its key, its
  value and its life time, 0 when it has none, and all keys have the values sent. It answers with an
  error exactly when the server refuses one of these calls; then the objects before it are restored
  and those after it are not asked for. Every value taken from the arguments is freed.\<close>

theorem slotsRestoreCmd_restores_batch:
  assumes "cmp_ok (ex_cmp env)" and "restores_values env V" and "announces env V" and "receiver env V db st"
    and "fits (V (ms_world st) db) (obj_key ` set obs)" and "\<forall>ob \<in> set obs. sendable ob"
  shows "\<exists>r st' k. slotsRestoreCmd env db (restore_cmd obs) st = Some (r, st') \<and> ms_vals st' = ms_vals st \<and>
    receives env V db (payload (take k obs)) st st' \<and>
    ms_trace st' = ms_trace st @ map (\<lambda>ob. Call db [''RESTORE'', obj_key ob,
      show_int (if ttlms ob > 0 then ttlms ob else 0), obj_val ob, ''replace'']) (take (Suc k) obs) \<and>
    (k = length obs \<and> r = int (length obs) \<or>
     k < length obs \<and> r = SLOTS_MGRT_ERR \<and> (\<exists>w. ex_call env db [''RESTORE'', obj_key (obs ! k),
       show_int (if ttlms (obs ! k) > 0 then ttlms (obs ! k) else 0), obj_val (obs ! k), ''replace''] w =
       (Some RError, [], ms_world st')))"
proof -
  let ?st = "st\<lparr>ms_vals := ms_vals st + values_of obs\<rparr>"
  have st: "in_step env V ?st" "0 \<le> db" "db < num_dbs (ms_slots ?st)" "fits (V (ms_world ?st) db) (obj_key ` set (map received obs))"
    using assms(4,5) by (simp_all add: receiver_def received_def image_image)
  have req: "restore_request (received ob) = [''RESTORE'', obj_key ob, show_int (if ttlms ob > 0 then ttlms ob else 0),
      obj_val ob, ''replace'']" if "ob \<in> set obs" for ob
    using that assms(5) by (auto simp: restore_request_def received_def restore_ttl_def fits_def cstr_no_nul)
  obtain ok st1 k where l: "restore_loop env db (map received obs) ?st = Some (ok, st1)"
    "receives env V db (payload (take k (map received obs))) ?st st1"
    "if ok then k = length (map received obs) else k < length (map received obs) \<and>
      (\<exists>w. ex_call env db (restore_request (map received obs ! k)) w = (Some RError, [], ms_world st1))"
    "ms_vals st1 = ms_vals ?st"
    "ms_trace st1 = ms_trace ?st @
      map (\<lambda>ob. Call db (restore_request ob)) (if ok then map received obs else take (Suc k) (map received obs))"
    using restore_loop_receives [OF assms(1-3) st] by blast
  let ?r = "if ok then int (length obs) else SLOTS_MGRT_ERR"
  let ?st' = "st1\<lparr>ms_vals := ms_vals st1 - values_of obs\<rparr>"
  have "slotsRestoreCmd env db (restore_cmd obs) st = Some (?r, ?st')"
    using slotsRestoreCmd_batch [OF assms(6), of env db st] l(1) assms(4)
    by (simp add: SlotsMGRT_Restore_def restoreMutli_def receiver_def)
  moreover have "payload (take k (map received obs)) = payload (take k obs)"
    by (simp add: payload_def take_map received_def comp_def)
  then have "receives env V db (payload (take k obs)) st ?st'" using l(2) by simp
  moreover have "ms_vals ?st' = ms_vals st" using l(4) by simp
  moreover have all: "(if ok then map received obs else take (Suc k) (map received obs)) = map received (take (Suc k) obs)"
    using l(3) by (auto simp: take_map)
  have "map (\<lambda>ob. Call db (restore_request ob)) (map received (take (Suc k) obs)) =
      map (\<lambda>ob. Call db [''RESTORE'', obj_key ob, show_int (if ttlms ob > 0 then ttlms ob else 0), obj_val ob, ''replace''])
        (take (Suc k) obs)"
    unfolding map_map comp_def
  proof (rule map_cong [OF refl])
    fix ob assume "ob \<in> set (take (Suc k) obs)"
    then have "ob \<in> set obs" by (rule in_set_takeD)
    then show "Call db (restore_request (received ob)) = Call db [''RESTORE'', obj_key ob,
        show_int (if ttlms ob > 0 then ttlms ob else 0), obj_val ob, ''replace'']" by (simp only: req)
  qed
  then have "ms_trace ?st' = ms_trace st @ map (\<lambda>ob. Call db [''RESTORE'', obj_key ob,
      show_int (if ttlms ob > 0 then ttlms ob else 0), obj_val ob, ''replace'']) (take (Suc k) obs)"
    using l(5) unfolding all by simp
  moreover have "k = length obs \<and> ?r = int (length obs) \<or> k < length obs \<and> ?r = SLOTS_MGRT_ERR \<and>
      (\<exists>w. ex_call env db [''RESTORE'', obj_key (obs ! k), show_int (if ttlms (obs ! k) > 0 then ttlms (obs ! k) else 0),
        obj_val (obs ! k), ''replace''] w = (Some RError, [], ms_world ?st'))"
  proof (cases ok)
    case True
    then show ?thesis using l(3) by simp
  next
    case False
    then have k: "k < length obs" using l(3) by simp
    then have "map received obs ! k = received (obs ! k)" "obs ! k \<in> set obs" by simp_all
    then show ?thesis using l(3) k False by (simp only: req) auto
  qed
  ultimately show ?thesis by blast
qed

definition duo_objs :: "rdb_dump_obj list" where
  "duo_objs = [\<lparr>obj_key = ''a{t}'', obj_val = ''v'', ttlms = - 1\<rparr>, \<lparr>obj_key = ''b'', obj_val = ''w'', ttlms = 700\<rparr>]"

lemma slotsRestoreCmd_restores_batch_witness:
  "\<exists>st'. slotsRestoreCmd duo_receiver 0 (restore_cmd duo_objs) duo_empty = Some (2, st') \<and>
    ms_vals st' = ms_vals duo_empty \<and> index (ms_slots st') 0 = {''a{t}'', ''b''} \<and>
    ms_trace st' = ms_trace duo_empty @ [Call 0 [''RESTORE'', ''a{t}'', ''0'', ''v'', ''replace''],
      Call 0 [''RESTORE'', ''b'', ''700'', ''w'', ''replace'']]"
proof -
  have d: "ms_world duo_empty = (\<lambda>db. Map.empty)" "index (ms_slots duo_empty) = (\<lambda>db. {})"
    using tracks_initial(1) [of 16 2 bytes_cmp 0 True False None] by (simp_all add: duo_empty_def tracks_def)
  have "fits (ms_world duo_empty 0) (obj_key ` set duo_objs)" "\<forall>ob \<in> set duo_objs. sendable ob"
    by (simp_all add: d duo_objs_def fits_def sendable_def is_llong_def LLONG_MIN_def LLONG_MAX_def)
  from slotsRestoreCmd_restores_batch [where V = "\<lambda>w. w" and db = 0, OF duo_receiver duo_ready this] show ?thesis
  proof (elim exE conjE)
    fix r st' k
    assume o: "slotsRestoreCmd duo_receiver 0 (restore_cmd duo_objs) duo_empty = Some (r, st')" "ms_vals st' = ms_vals duo_empty"
      "receives duo_receiver (\<lambda>w. w) 0 (payload (take k duo_objs)) duo_empty st'"
      "ms_trace st' = ms_trace duo_empty @ map (\<lambda>ob. Call 0 [''RESTORE'', obj_key ob,
        show_int (if ttlms ob > 0 then ttlms ob else 0), obj_val ob, ''replace'']) (take (Suc k) duo_objs)"
      "k = length duo_objs \<and> r = int (length duo_objs) \<or> k < length duo_objs \<and> r = SLOTS_MGRT_ERR \<and>
        (\<exists>w. ex_call duo_receiver 0 [''RESTORE'', obj_key (duo_objs ! k),
          show_int (if ttlms (duo_objs ! k) > 0 then ttlms (duo_objs ! k) else 0), obj_val (duo_objs ! k), ''replace''] w =
          (Some RError, [], ms_world st'))"
    have "ex_call duo_receiver 0 [''RESTORE'', key, ttl, val, ''replace''] w \<noteq> (Some RError, [], w')" for key ttl val w w'
      by (simp add: duo_receiver_def)
    then have "k = length duo_objs" "r = int (length duo_objs)" using o(5) by auto
    moreover have "index (ms_slots st') = keys_of (\<lambda>w. w) (ms_world st')"
      using o(3) followsD(2) by (fastforce simp: receives_def in_step_def)
    then have "index (ms_slots st') 0 = dom (payload (take k duo_objs))"
      using o(3) by (simp add: receives_def keys_of_def d)
    moreover have "dom (payload duo_objs) = {''a{t}'', ''b''}" "length duo_objs = 2" by (auto simp: duo_objs_def payload_def)
    ultimately have "index (ms_slots st') 0 = {''a{t}'', ''b''}" "take (Suc k) duo_objs = duo_objs" "r = 2" by simp_all
    moreover have "show_int 0 = ''0''" "show_int 700 = ''700''" by code_simp+
    ultimately show ?thesis using o(1,2,4) by (simp add: duo_objs_def)
  qed
qed

end
