(* ===== verification/DictIter.thy ===== *)
theory DictIter
  imports DictProps
begin

text \<open>
  The rest of \<open>dep/dict.c\<close>: the fingerprint, the iterators, the sampling of several keys and the
  lookup by pointer. A loop with a safe iterator may delete the entry it has just been given;
  it visits every entry once all the same.
\<close>

section \<open>The fingerprint\<close>

text \<open>\<open>long long\<close>, taken to wrap around as the compilers do; \<open>>>\<close> keeps the sign. The addresses of the two
  tables are arguments.\<close>

definition fingerprint_step :: "u64 \<Rightarrow> u64 \<Rightarrow> u64" where
  "fingerprint_step hash i =
     (let hash = hash + i;
          hash = NOT hash + push_bit 21 hash;
          hash = hash XOR signed_drop_bit 24 hash;
          hash = (hash + push_bit 3 hash) + push_bit 8 hash;
          hash = hash XOR signed_drop_bit 14 hash;
          hash = (hash + push_bit 2 hash) + push_bit 4 hash;
          hash = hash XOR signed_drop_bit 28 hash
      in hash + push_bit 31 hash)"

definition dictFingerprint :: "u64 \<times> u64 \<Rightarrow> ('k, 'v) dict \<Rightarrow> u64" where
  "dictFingerprint addr d =
     foldl fingerprint_step 0
       [fst addr, of_nat (ht_size (ht0 d)), of_nat (ht_used (ht0 d)),
        snd addr, of_nat (ht_size (ht1 d)), of_nat (ht_used (ht1 d))]"

section \<open>Iterators\<close>

text \<open>A pointer to an entry is the key of the entry; following it is undefined once the entry has been freed.
  The fingerprint of a fresh iterator, which \<open>zmalloc\<close> leaves undefined, is set before it is read.\<close>

record 'k m_dictIterator =
  it_index :: int
  it_table :: nat
  it_safe :: bool
  it_entry :: "'k option"
  it_nextEntry :: "'k option"
  it_fingerprint :: u64

definition m_dictGetIterator :: "'k m_dictIterator" where
  "m_dictGetIterator = \<lparr>it_index = - 1, it_table = 0, it_safe = False, it_entry = None, it_nextEntry = None, it_fingerprint = 0\<rparr>"

definition m_dictGetSafeIterator :: "'k m_dictIterator" where
  "m_dictGetSafeIterator = m_dictGetIterator\<lparr>it_safe := True\<rparr>"

definition first_key :: "('k, 'v) chain \<Rightarrow> 'k option" where
  "first_key c = (case c of [] \<Rightarrow> None | e # es \<Rightarrow> Some (fst e))"

text \<open>\<open>entry->next\<close>.\<close>

fun after_key :: "'k \<Rightarrow> ('k, 'v) chain \<Rightarrow> 'k option option" where
  "after_key k [] = None"
| "after_key k (e # es) = (if fst e = k then Some (first_key es) else after_key k es)"

fun find_next :: "'k \<Rightarrow> ('k, 'v) chain list \<Rightarrow> 'k option option" where
  "find_next k [] = None"
| "find_next k (c # cs) = (case after_key k c of None \<Rightarrow> find_next k cs | Some r \<Rightarrow> Some r)"

definition entry_next :: "('k, 'v) dict \<Rightarrow> 'k \<Rightarrow> 'k option option" where
  "entry_next d k = find_next k (ht_table (ht0 d) @ ht_table (ht1 d))"

text \<open>The start of a loop over the entries.\<close>

definition begin_iteration :: "u64 \<times> u64 \<Rightarrow> ('k, 'v) dict \<Rightarrow> 'k m_dictIterator \<Rightarrow> ('k, 'v) dict \<times> 'k m_dictIterator" where
  "begin_iteration addr d it =
     (if it_index it = - 1 \<and> it_table it = 0
      then if it_safe it then (d\<lparr>iterators := iterators d + 1\<rparr>, it)
           else (d, it\<lparr>it_fingerprint := dictFingerprint addr d\<rparr>)
      else (d, it))"

text \<open>The next bucket: the flag says that there is one.\<close>

definition next_bucket :: "('k, 'v) dict \<Rightarrow> 'k m_dictIterator \<Rightarrow> bool \<times> 'k m_dictIterator" where
  "next_bucket d it =
     (let it = it\<lparr>it_index := it_index it + 1\<rparr> in
      if it_index it \<ge> int (ht_size (get_ht d (it_table it)))
      then if dictIsRehashing d \<and> it_table it = 0 then (True, it\<lparr>it_table := 1, it_index := 0\<rparr>)
           else (False, it)
      else (True, it))"

definition buckets_left :: "('k, 'v) dict \<Rightarrow> 'k m_dictIterator \<Rightarrow> nat" where
  "buckets_left d it =
     (if it_table it = 0 then nat (int (ht_size (ht0 d)) - it_index it) + ht_size (ht1 d) + 2
      else nat (int (ht_size (ht1 d)) - it_index it))"

lemma begin_iteration_left:
  "begin_iteration addr d it = (d', it') \<Longrightarrow> buckets_left d' it' = buckets_left d it"
  by (auto simp: begin_iteration_def buckets_left_def split: if_splits)

lemma next_bucket_left:
  "next_bucket d it = (True, it') \<Longrightarrow> buckets_left d it' < buckets_left d it"
  by (auto simp: next_bucket_def buckets_left_def get_ht_def Let_def split: if_splits)

text \<open>The rounds of the loop in which \<open>iter->entry\<close> is \<open>NULL\<close>.\<close>

function next_in_buckets ::
  "u64 \<times> u64 \<Rightarrow> ('k, 'v) dict \<Rightarrow> 'k m_dictIterator \<Rightarrow> ('k option \<times> ('k, 'v) dict \<times> 'k m_dictIterator) option" where
  "next_in_buckets addr d it =
     (case begin_iteration addr d it of (d', it') \<Rightarrow>
        case next_bucket d' it' of (found, it') \<Rightarrow>
          if \<not> found then Some (None, d', it')
          else case arr_get_int (ht_table (get_ht d' (it_table it'))) (it_index it') of
            None \<Rightarrow> None
          | Some [] \<Rightarrow> next_in_buckets addr d' it'
          | Some (e # es) \<Rightarrow> Some (Some (fst e), d', it'\<lparr>it_entry := Some (fst e), it_nextEntry := first_key es\<rparr>))"
  by pat_completeness auto
termination
  by (relation "measure (\<lambda>(addr, d, it). buckets_left d it)")
    (auto dest!: begin_iteration_left [OF sym] next_bucket_left [OF sym])

declare next_in_buckets.simps [simp del]

definition m_dictNext ::
  "u64 \<times> u64 \<Rightarrow> ('k, 'v) dict \<Rightarrow> 'k m_dictIterator \<Rightarrow> ('k option \<times> ('k, 'v) dict \<times> 'k m_dictIterator) option" where
  "m_dictNext addr d it =
     (case it_entry it of
        None \<Rightarrow> next_in_buckets addr d it
      | Some k \<Rightarrow> (case it_nextEntry it of
          None \<Rightarrow> next_in_buckets addr d (it\<lparr>it_entry := None\<rparr>)
        | Some k' \<Rightarrow> do {
            nextEntry \<leftarrow> entry_next d k';
            Some (Some k', d, it\<lparr>it_entry := Some k', it_nextEntry := nextEntry\<rparr>)
          }))"

definition m_dictReleaseIterator :: "u64 \<times> u64 \<Rightarrow> ('k, 'v) dict \<Rightarrow> 'k m_dictIterator \<Rightarrow> ('k, 'v) dict option" where
  "m_dictReleaseIterator addr d it =
     (if \<not> (it_index it = - 1 \<and> it_table it = 0)
      then if it_safe it then do { n \<leftarrow> count_dec (iterators d); Some (d\<lparr>iterators := n\<rparr>) }
           else do { c_assert (it_fingerprint it = dictFingerprint addr d); Some d }
      else Some d)"

section \<open>Deleting while iterating\<close>

text \<open>All buckets, in the order of an iteration.\<close>

definition buckets :: "('k, 'v) dict \<Rightarrow> ('k, 'v) chain list" where
  "buckets d = ht_table (ht0 d) @ ht_table (ht1 d)"

lemma concat_buckets: "concat (buckets d) = dict_entries d"
  by (simp add: buckets_def dict_entries_def ht_entries_def)

lemma inv_lengths:
  assumes "dict_inv ty d"
  shows "length (ht_table (ht0 d)) = ht_size (ht0 d)" "length (ht_table (ht1 d)) = ht_size (ht1 d)"
    "\<not> dictIsRehashing d \<Longrightarrow> ht_size (ht1 d) = 0" "distinct (map fst (concat (buckets d)))"
  using assms unfolding concat_buckets by (auto simp: dict_inv_def ht_valid_def dictReset_def)

text \<open>With an iterator at work no rehashing step is made, and a deletion just drops the entry from its bucket.\<close>

lemma remove_is_filter:
  assumes d: "distinct (map fst (concat bs))" and i: "i < length bs" "p < length (bs ! i)" "fst (bs ! i ! p) = k"
  shows "bs[i := take p (bs ! i) @ drop (Suc p) (bs ! i)] = map (filter (\<lambda>e. fst e \<noteq> k)) bs"
proof -
  let ?c = "bs ! i"
  have bs: "bs = take i bs @ ?c # drop (Suc i) bs" using i(1) by (rule id_take_nth_drop)
  have c: "?c = take p ?c @ ?c ! p # drop (Suc p) ?c" using i(2) by (rule id_take_nth_drop)
  have "map fst (concat bs) = map fst (concat (take i bs) @ (take p ?c @ ?c ! p # drop (Suc p) ?c) @ concat (drop (Suc i) bs))"
    by (subst bs, subst c) simp
  then have dist: "distinct (map fst (concat (take i bs) @ (take p ?c @ ?c ! p # drop (Suc p) ?c) @ concat (drop (Suc i) bs)))"
    using d by simp
  have rest: "map (filter (\<lambda>e. fst e \<noteq> k)) cs = cs" if "k \<notin> fst ` set (concat cs)" for cs :: "('a \<times> 'b) list list"
    by (rule map_idI, rule filter_True) (use that in force)
  have "k \<notin> fst ` set (concat (take i bs))" "k \<notin> fst ` set (concat (drop (Suc i) bs))"
    using dist i(3) by auto
  note r = rest [OF this(1)] rest [OF this(2)]
  have "k \<notin> fst ` set (take p ?c)" "k \<notin> fst ` set (drop (Suc p) ?c)" using dist i(3) by auto
  then have "filter (\<lambda>e. fst e \<noteq> k) (take p ?c) = take p ?c" "filter (\<lambda>e. fst e \<noteq> k) (drop (Suc p) ?c) = drop (Suc p) ?c"
    by (force intro: filter_True)+
  then have f: "filter (\<lambda>e. fst e \<noteq> k) ?c = take p ?c @ drop (Suc p) ?c"
    using i(3) by (subst c) simp
  have "map (filter (\<lambda>e. fst e \<noteq> k)) bs =
      map (filter (\<lambda>e. fst e \<noteq> k)) (take i bs) @ filter (\<lambda>e. fst e \<noteq> k) ?c # map (filter (\<lambda>e. fst e \<noteq> k)) (drop (Suc i) bs)"
    by (subst bs) simp
  also have "\<dots> = take i bs @ (take p ?c @ drop (Suc p) ?c) # drop (Suc i) bs" unfolding r f ..
  finally show ?thesis using i(1) by (simp add: upd_conv_take_nth_drop)
qed

lemma filter_buckets_id: "k \<notin> fst ` set (concat bs) \<Longrightarrow> map (filter (\<lambda>e. fst e \<noteq> k)) bs = bs"
  by (rule map_idI, rule filter_True) force

definition shape_kept :: "('k, 'v) dict \<Rightarrow> ('k, 'v) dict \<Rightarrow> bool" where
  "shape_kept d d' \<longleftrightarrow> ht_size (ht0 d') = ht_size (ht0 d) \<and> ht_size (ht1 d') = ht_size (ht1 d) \<and>
     rehashidx d' = rehashidx d \<and> iterators d' = iterators d"

lemma unlink_entry_filter:
  assumes inv: "dict_inv ty d" and u: "unlink_entry d t i p = Some (e, d')"
    and p: "i < length (ht_table (get_ht d t))" "p < length (ht_table (get_ht d t) ! i)" "fst (ht_table (get_ht d t) ! i ! p) = k"
  shows "buckets d' = map (filter (\<lambda>e. fst e \<noteq> k)) (buckets d) \<and> shape_kept d d'"
proof -
  let ?t0 = "ht_table (ht0 d)" and ?t1 = "ht_table (ht1 d)"
  let ?c = "ht_table (get_ht d t) ! i"
  have dist: "distinct (map fst (concat ?t0 @ concat ?t1))" using inv_lengths(4) [OF inv] by (simp add: buckets_def)
  obtain u' where d': "d' = set_ht d t ((get_ht d t)\<lparr>ht_table := (ht_table (get_ht d t))[i := take p ?c @ drop (Suc p) ?c], ht_used := u'\<rparr>)"
    using u p(1,2) by (auto simp: unlink_entry_def arr_get_def arr_set_def split: bind_splits)
  have "distinct (map fst (concat (ht_table (get_ht d t))))" using dist by (auto simp: get_ht_def)
  note f = remove_is_filter [OF this p]
  have "?c ! p \<in> set (concat (ht_table (get_ht d t)))" using p(1,2) by (auto intro!: bexI [of _ ?c])
  then have kin: "k \<in> fst ` set (concat (ht_table (get_ht d t)))" using p(3) by force
  show ?thesis
  proof (cases "t = 0")
    case True
    then have "k \<notin> fst ` set (concat ?t1)" using kin dist by (auto simp: get_ht_def)
    from filter_buckets_id [OF this] show ?thesis
      using d' True f by (simp add: buckets_def set_ht_def get_ht_def shape_kept_def)
  next
    case False
    then have "k \<notin> fst ` set (concat ?t0)" using kin dist by (auto simp: get_ht_def)
    from filter_buckets_id [OF this] show ?thesis
      using d' False f by (simp add: buckets_def set_ht_def get_ht_def shape_kept_def)
  qed
qed

lemma delete_while_iterating:
  assumes inv: "dict_inv ty d" and ty: "type_ok ty" and it: "iterators d \<noteq> 0" and k: "k \<in> fst ` set (dict_entries d)"
  shows "\<exists>freed d'. m_dictDelete ty d k = Some (DICT_OK, freed, d') \<and> dict_inv ty d' \<and> shape_kept d d' \<and>
    buckets d' = map (filter (\<lambda>e. fst e \<noteq> k)) (buckets d) \<and> dict_map d' = (dict_map d)(k := None)"
proof -
  obtain he freed d' where g: "dictGenericDelete ty d k False = Some (he, freed, d')" "dict_inv ty d'"
    "dict_map d' = (dict_map d)(k := None)" "he = map_option (\<lambda>v. (k, v)) (dict_map d k)"
    using dictGenericDelete_spec [OF inv ty, of k False] by blast
  have some: "dict_map d k \<noteq> None" using k dict_map_dom [of k d] by (simp add: domIff)
  have step: "(if dictIsRehashing d then dictRehashStep ty d else Some d) = Some d" using it by (simp add: dictRehashStep_def)
  have ne: "\<not> (ht_used (ht0 d) = 0 \<and> ht_used (ht1 d) = 0)"
    using k dict_size_entries [OF inv] by (auto simp: dictSize_def)
  obtain t i p e where u: "unlink_entry d t i p = Some (e, d')" "i < length (ht_table (get_ht d t))"
    "p < length (ht_table (get_ht d t) ! i)" "fst (ht_table (get_ht d t) ! i ! p) = k"
  proof -
    have pos: "find_in_table ty d t k = Some (i, Some p) \<Longrightarrow> i < length (ht_table (get_ht d t)) \<and>
      p < length (ht_table (get_ht d t) ! i) \<and> fst (ht_table (get_ht d t) ! i ! p) = k" for t i p
      using chain_pos_SomeD [OF ty, of k] by (auto simp: find_in_table_def arr_get_def Let_def split: bind_splits if_splits)
    have "he \<noteq> None" using g(4) some by simp
    then show thesis using g(1) ne step pos that
      by (fastforce simp: dictGenericDelete_def split: bind_splits option.splits if_splits)
  qed
  have "m_dictDelete ty d k = Some (DICT_OK, freed, d')" using g(1,4) some by (auto simp: m_dictDelete_def)
  then show ?thesis using g(2,3) unlink_entry_filter [OF inv u] by blast
qed


section \<open>The order of an iteration\<close>

text \<open>The iterator stands at bucket \<open>g\<close>; it has passed \<open>m\<close> buckets.\<close>

definition reached :: "('k, 'v) dict \<Rightarrow> 'k m_dictIterator \<Rightarrow> nat \<Rightarrow> bool" where
  "reached d it g \<longleftrightarrow> it_safe it \<and>
     (it_table it = 0 \<and> it_index it = int g \<and> g < ht_size (ht0 d) \<or>
      it_table it = 1 \<and> dictIsRehashing d \<and> ht_size (ht0 d) \<le> g \<and> g < length (buckets d) \<and>
        it_index it = int (g - ht_size (ht0 d)))"

definition passed :: "('k, 'v) dict \<Rightarrow> 'k m_dictIterator \<Rightarrow> nat \<Rightarrow> bool" where
  "passed d it m \<longleftrightarrow> (if m = 0 then it_safe it \<and> it_table it = 0 \<and> it_index it = - 1 else reached d it (m - 1))"

lemma reached_started: "reached d it g \<Longrightarrow> it_safe it \<and> it_index it \<noteq> - 1"
  by (auto simp: reached_def)

lemma reached_fields [simp]:
  "reached d (it\<lparr>it_entry := e\<rparr>) g = reached d it g" "reached d (it\<lparr>it_nextEntry := e\<rparr>) g = reached d it g"
  "reached (d\<lparr>iterators := n\<rparr>) it g = reached d it g" "buckets (d\<lparr>iterators := n\<rparr>) = buckets d"
  by (simp_all add: reached_def buckets_def dictIsRehashing_def)

lemma reached_shape:
  assumes "shape_kept d d'" "length (buckets d') = length (buckets d)"
  shows "reached d' it g = reached d it g"
  using assms by (simp add: reached_def shape_kept_def dictIsRehashing_def)

lemma next_bucket_spec:
  assumes inv: "dict_inv ty d" and m: "passed d it m" and n: "next_bucket d it = (found, it')"
  shows "if m < length (buckets d) then found \<and> reached d it' m \<and>
      arr_get_int (ht_table (get_ht d (it_table it'))) (it_index it') = Some (buckets d ! m)
    else \<not> found \<and> it_safe it' \<and> it_index it' \<noteq> - 1"
proof -
  note l = inv_lengths [OF inv]
  have len: "length (buckets d) = ht_size (ht0 d) + ht_size (ht1 d)" using l(1,2) by (simp add: buckets_def)
  have s1: "dictIsRehashing d \<Longrightarrow> 0 < ht_size (ht1 d)" using dict_inv_rehashingD(7) [OF inv] by simp
  consider (low) "it_table it = 0" "it_safe it" "it_index it + 1 = int m" "m \<le> ht_size (ht0 d)"
    | (high) "it_table it = 1" "it_safe it" "dictIsRehashing d" "it_index it + 1 = int (m - ht_size (ht0 d))"
      "ht_size (ht0 d) < m" "m \<le> length (buckets d)"
    using m by (cases m) (auto simp: passed_def reached_def split: if_splits)
  then show ?thesis
  proof cases
    case low
    consider "m < ht_size (ht0 d)" | "m = ht_size (ht0 d)" "dictIsRehashing d" | "m = ht_size (ht0 d)" "\<not> dictIsRehashing d"
      using low(4) by linarith
    then show ?thesis
    proof cases
      case 1
      then show ?thesis using low n l len
        by (auto simp: next_bucket_def Let_def get_ht_def reached_def arr_get_int_def arr_get_def buckets_def nth_append)
    next
      case 2
      then show ?thesis using low n l len s1
        by (auto simp: next_bucket_def Let_def get_ht_def reached_def arr_get_int_def arr_get_def buckets_def nth_append)
    next
      case 3
      then show ?thesis using low n l len by (auto simp: next_bucket_def Let_def get_ht_def)
    qed
  next
    case high
    define j where "j = m - ht_size (ht0 d)"
    have j: "m = ht_size (ht0 d) + j" "it_index it + 1 = int j" "j \<le> ht_size (ht1 d)" "0 < j"
      using high(4-6) len by (auto simp: j_def)
    show ?thesis
    proof (cases "j < ht_size (ht1 d)")
      case True
      then show ?thesis using high(1-3) n l len j
        by (auto simp: next_bucket_def Let_def get_ht_def reached_def arr_get_int_def arr_get_def buckets_def nth_append)
    next
      case False
      then show ?thesis using high(1-3) n len j by (auto simp: next_bucket_def Let_def get_ht_def)
    qed
  qed
qed

text \<open>After the start of the loop the dictionary has one iterator more.\<close>

definition started :: "('k, 'v) dict \<Rightarrow> nat \<Rightarrow> ('k, 'v) dict" where
  "started d m = (if m = 0 then d\<lparr>iterators := iterators d + 1\<rparr> else d)"

lemma dict_inv_iterators [simp]: "dict_inv ty (d\<lparr>iterators := n\<rparr>) = dict_inv ty d"
  by (simp add: dict_inv_def dictIsRehashing_def dict_entries_def)

lemma begin_iteration_passed:
  "passed d it m \<Longrightarrow> begin_iteration addr d it = (started d m, it) \<and> passed (started d m) it m"
  by (auto simp: passed_def begin_iteration_def started_def dest: reached_started)

lemma next_in_buckets_spec:
  assumes "dict_inv ty d" and "passed d it m"
  shows "(concat (drop m (buckets d)) = [] \<longrightarrow> (\<exists>it'. next_in_buckets addr d it = Some (None, started d m, it') \<and>
      it_safe it' \<and> it_index it' \<noteq> - 1)) \<and>
    (concat (drop m (buckets d)) \<noteq> [] \<longrightarrow> (\<exists>g e es it'. buckets d ! g = e # es \<and> g < length (buckets d) \<and>
      concat (drop m (buckets d)) = e # es @ concat (drop (Suc g) (buckets d)) \<and> reached d it' g \<and>
      next_in_buckets addr d it = Some (Some (fst e), started d m, it'\<lparr>it_entry := Some (fst e), it_nextEntry := first_key es\<rparr>)))"
  using assms
proof (induction "length (buckets d) - m" arbitrary: d m it rule: less_induct)
  case less
  let ?d = "started d m"
  have b: "buckets ?d = buckets d" "dict_inv ty ?d" "reached ?d = reached d"
    using less.prems(1) by (simp_all add: started_def fun_eq_iff)
  note start = begin_iteration_passed [OF less.prems(2), of addr]
  obtain found it1 where n: "next_bucket ?d it = (found, it1)" by fastforce
  note step = next_bucket_spec [OF b(2) conjunct2 [OF start] n, unfolded b]
  show ?case
  proof (cases "m < length (buckets d)")
    case False
    then show ?thesis using step start n by (subst (1 2) next_in_buckets.simps) simp
  next
    case True
    then have f: "found" "reached d it1 m" "arr_get_int (ht_table (get_ht ?d (it_table it1))) (it_index it1) = Some (buckets d ! m)"
      using step by auto
    have drop: "drop m (buckets d) = buckets d ! m # drop (Suc m) (buckets d)" using True by (simp add: Cons_nth_drop_Suc)
    show ?thesis
    proof (cases "buckets d ! m")
      case (Cons e es)
      then have "next_in_buckets addr d it = Some (Some (fst e), ?d, it1\<lparr>it_entry := Some (fst e), it_nextEntry := first_key es\<rparr>)"
        using start n f(1,3) by (subst next_in_buckets.simps) simp
      then have "\<exists>g e es it'. buckets d ! g = e # es \<and> g < length (buckets d) \<and>
          concat (drop m (buckets d)) = e # es @ concat (drop (Suc g) (buckets d)) \<and> reached d it' g \<and>
          next_in_buckets addr d it = Some (Some (fst e), ?d, it'\<lparr>it_entry := Some (fst e), it_nextEntry := first_key es\<rparr>)"
        by (intro exI [of _ m] exI [of _ e] exI [of _ es] exI [of _ it1]) (use Cons True drop f(2) in simp)
      moreover have "concat (drop m (buckets d)) \<noteq> []" using drop Cons by simp
      ultimately show ?thesis by blast
    next
      case Nil
      have eq: "next_in_buckets addr d it = next_in_buckets addr ?d it1"
        using start n f(1,3) Nil by (subst next_in_buckets.simps) simp
      have p: "passed ?d it1 (Suc m)" using f(2) b(3) by (simp add: passed_def)
      have lt: "length (buckets ?d) - Suc m < length (buckets d) - m" using True b(1) by simp
      have s: "started ?d (Suc m) = ?d" by (simp add: started_def)
      show ?thesis using less.hyps [OF lt b(2) p, unfolded b s] unfolding eq drop Nil by simp
    qed
  qed
qed

lemma after_key_found:
  assumes "distinct (map fst c)" "c = pre @ e # post"
  shows "after_key (fst e) c = Some (first_key post)"
  using assms by (induction pre arbitrary: c) auto

lemma after_key_absent: "k \<notin> fst ` set c \<Longrightarrow> after_key k c = None"
  by (induction c) auto

lemma find_next_found:
  assumes "distinct (map fst (concat cs))" "g < length cs" "cs ! g = pre @ e # post"
  shows "find_next (fst e) cs = Some (first_key post)"
  using assms
proof (induction cs arbitrary: g)
  case (Cons c cs)
  show ?case
  proof (cases g)
    case 0
    then have "c = pre @ e # post" using Cons.prems(3) by simp
    moreover have "distinct (map fst c)" using Cons.prems(1) by simp
    ultimately show ?thesis using after_key_found [of c pre e post] by simp
  next
    case (Suc g')
    then have "g' < length cs" "e \<in> set (cs ! g')" using Cons.prems(2,3) by auto
    then have "cs ! g' \<in> set cs" "e \<in> set (cs ! g')" by simp_all
    then have "fst e \<in> fst ` set (concat cs)" by auto
    then have "fst e \<notin> fst ` set c" using Cons.prems(1) by auto
    then show ?thesis using Cons.IH [of g'] Cons.prems Suc after_key_absent [of "fst e" c] by simp
  qed
qed simp

text \<open>The iterator has returned an entry of bucket \<open>g\<close>, which may have been deleted since; \<open>ks\<close> are
  the keys that are still to come.\<close>

definition visiting :: "('k, 'v) dict \<Rightarrow> 'k m_dictIterator \<Rightarrow> 'k list \<Rightarrow> bool" where
  "visiting d it ks \<longleftrightarrow> (\<exists>g pre post. reached d it g \<and> g < length (buckets d) \<and> it_entry it \<noteq> None \<and>
     it_nextEntry it = first_key post \<and> buckets d ! g = pre @ post \<and>
     ks = map fst (post @ concat (drop (Suc g) (buckets d))))"

lemma m_dictNext_visiting:
  assumes inv: "dict_inv ty d" and v: "visiting d it ks"
  shows "\<exists>it'. (case ks of [] \<Rightarrow> m_dictNext addr d it = Some (None, d, it') \<and> it_safe it' \<and> it_index it' \<noteq> - 1
     | k # ks' \<Rightarrow> m_dictNext addr d it = Some (Some k, d, it') \<and> visiting d it' ks')"
proof -
  obtain g pre post where g: "reached d it g" "g < length (buckets d)" "it_entry it \<noteq> None" "it_nextEntry it = first_key post"
    "buckets d ! g = pre @ post" "ks = map fst (post @ concat (drop (Suc g) (buckets d)))" using v by (auto simp: visiting_def)
  show ?thesis
  proof (cases post)
    case (Cons e es)
    have "entry_next d (fst e) = Some (first_key es)"
      using find_next_found [OF inv_lengths(4) [OF inv] g(2), of pre e es] g(5) Cons by (simp add: entry_next_def buckets_def)
    then have "m_dictNext addr d it = Some (Some (fst e), d, it\<lparr>it_entry := Some (fst e), it_nextEntry := first_key es\<rparr>)"
      using g(3,4) Cons by (auto simp: m_dictNext_def first_key_def)
    moreover have "visiting d (it\<lparr>it_entry := Some (fst e), it_nextEntry := first_key es\<rparr>)
        (map fst (es @ concat (drop (Suc g) (buckets d))))"
      unfolding visiting_def using g Cons by (intro exI [of _ g] exI [of _ "pre @ [e]"] exI [of _ es]) simp
    ultimately show ?thesis using g(6) Cons by auto
  next
    case Nil
    have next_eq: "m_dictNext addr d it = next_in_buckets addr d (it\<lparr>it_entry := None\<rparr>)"
      using g(3,4) Nil by (auto simp: m_dictNext_def first_key_def)
    have p: "passed d (it\<lparr>it_entry := None\<rparr>) (Suc g)" using g(1) by (simp add: passed_def)
    have s: "started d (Suc g) = d" by (simp add: started_def)
    note n = next_in_buckets_spec [OF inv p, of addr, unfolded s]
    show ?thesis
    proof (cases "concat (drop (Suc g) (buckets d)) = []")
      case True
      then have "ks = []" using g(6) Nil by simp
      then show ?thesis using n True next_eq by auto
    next
      case False
      then obtain g' e es it' where r: "buckets d ! g' = e # es" "g' < length (buckets d)"
        "concat (drop (Suc g) (buckets d)) = e # es @ concat (drop (Suc g') (buckets d))" "reached d it' g'"
        "next_in_buckets addr d (it\<lparr>it_entry := None\<rparr>) = Some (Some (fst e), d, it'\<lparr>it_entry := Some (fst e), it_nextEntry := first_key es\<rparr>)"
        using n by blast
      have "visiting d (it'\<lparr>it_entry := Some (fst e), it_nextEntry := first_key es\<rparr>)
          (map fst (es @ concat (drop (Suc g') (buckets d))))"
        unfolding visiting_def using r by (intro exI [of _ g'] exI [of _ "[e]"] exI [of _ es]) simp
      then show ?thesis using r(3,5) g(6) Nil next_eq by auto
    qed
  qed
qed


section \<open>A loop that deletes\<close>

text \<open>The loop a client writes: \<open>while ((de = m_dictNext(di)) != NULL) if (...) m_dictDelete(d, key)\<close>, of at
  most \<open>n\<close> rounds, and the release of the iterator.\<close>

fun delete_loop :: "nat \<Rightarrow> u64 \<times> u64 \<Rightarrow> 'k dictType \<Rightarrow> ('k \<Rightarrow> bool) \<Rightarrow> ('k, 'v) dict \<Rightarrow> 'k m_dictIterator
    \<Rightarrow> ('k list \<times> ('k, 'v) dict) option" where
  "delete_loop 0 addr ty P d it = None"
| "delete_loop (Suc n) addr ty P d it = do {
     (de, d, it) \<leftarrow> m_dictNext addr d it;
     (case de of
        None \<Rightarrow> do { d \<leftarrow> m_dictReleaseIterator addr d it; Some ([], d) }
      | Some k \<Rightarrow> do {
          d \<leftarrow> (if P k then do { (st, freed, d) \<leftarrow> m_dictDelete ty d k; Some d } else Some d);
          (ks, d) \<leftarrow> delete_loop n addr ty P d it;
          Some (k # ks, d)
        })
   }"

lemma visiting_delete:
  assumes v: "visiting d it ks" and k: "k \<notin> set ks" and b: "buckets d' = map (filter (\<lambda>e. fst e \<noteq> k)) (buckets d)"
    and s: "shape_kept d d'"
  shows "visiting d' it ks"
proof -
  obtain g pre post where g: "reached d it g" "g < length (buckets d)" "it_entry it \<noteq> None" "it_nextEntry it = first_key post"
    "buckets d ! g = pre @ post" "ks = map fst (post @ concat (drop (Suc g) (buckets d)))" using v by (auto simp: visiting_def)
  have "filter (\<lambda>e. fst e \<noteq> k) post = post" by (rule filter_True) (use k g(6) in force)
  then have bg: "buckets d' ! g = filter (\<lambda>e. fst e \<noteq> k) pre @ post" using b g(2,5) by simp
  have "drop (Suc g) (buckets d') = drop (Suc g) (buckets d)"
    unfolding b drop_map by (rule filter_buckets_id) (use k g(6) in force)
  then show ?thesis unfolding visiting_def
    by (intro exI [of _ g] exI [of _ "filter (\<lambda>e. fst e \<noteq> k) pre"] exI [of _ post])
      (use g bg b reached_shape [OF s] in simp)
qed

lemma visiting_keys:
  assumes "dict_inv ty d" "visiting d it ks"
  shows "distinct ks \<and> set ks \<subseteq> fst ` set (dict_entries d)"
proof -
  obtain g pre post where g: "g < length (buckets d)" "buckets d ! g = pre @ post"
    "ks = map fst (post @ concat (drop (Suc g) (buckets d)))" using assms(2) by (auto simp: visiting_def)
  have "buckets d = take g (buckets d) @ (pre @ post) # drop (Suc g) (buckets d)" using id_take_nth_drop [OF g(1)] g(2) by simp
  then have c: "concat (buckets d) = concat (take g (buckets d)) @ pre @ post @ concat (drop (Suc g) (buckets d))"
    by (metis append.assoc concat.simps(2) concat_append)
  have "distinct (map fst (concat (buckets d)))" by (rule inv_lengths(4) [OF assms(1)])
  then show ?thesis unfolding concat_buckets [symmetric] c g(3) by auto
qed

text \<open>The rest of the loop: the keys still to come are visited, and those that satisfy \<open>P\<close> deleted.\<close>

lemma delete_loop_rest:
  assumes ty: "type_ok ty" and "dict_inv ty d" and "visiting d it ks" and "iterators d = Suc m"
  shows "\<exists>d'. delete_loop (Suc (length ks)) addr ty P d it = Some (ks, d') \<and> dict_inv ty d' \<and> iterators d' = m \<and>
    dict_map d' = dict_map d |` (- {k \<in> set ks. P k})"
  using assms(2-)
proof (induction ks arbitrary: d it)
  case Nil
  from m_dictNext_visiting [OF Nil.prems(1,2), of addr] obtain it' where
    it': "m_dictNext addr d it = Some (None, d, it')" "it_safe it'" "it_index it' \<noteq> - 1" by auto
  have "m_dictReleaseIterator addr d it' = Some (d\<lparr>iterators := m\<rparr>)"
    using it'(2,3) Nil.prems(3) by (simp add: m_dictReleaseIterator_def count_dec_def)
  moreover have "dict_map (d\<lparr>iterators := m\<rparr>) = dict_map d" by (simp add: dict_map_def dict_entries_def)
  ultimately show ?case using it'(1) Nil.prems(1) by simp
next
  case (Cons k ks)
  from m_dictNext_visiting [OF Cons.prems(1,2), of addr] obtain it' where
    it': "m_dictNext addr d it = Some (Some k, d, it')" "visiting d it' ks" by auto
  have keys: "k \<notin> set ks" "k \<in> fst ` set (dict_entries d)" using visiting_keys [OF Cons.prems(1,2)] by auto
  show ?case
  proof (cases "P k")
    case False
    from Cons.IH [OF Cons.prems(1) it'(2) Cons.prems(3)] obtain d' where
      d': "delete_loop (Suc (length ks)) addr ty P d it' = Some (ks, d')" "dict_inv ty d'" "iterators d' = m"
        "dict_map d' = dict_map d |` (- {k \<in> set ks. P k})" by blast
    have "{j \<in> set (k # ks). P j} = {j \<in> set ks. P j}" using False by auto
    then show ?thesis using it'(1) False d' by (simp del: delete_loop.simps add: delete_loop.simps(2) [of "Suc (length ks)"])
  next
    case True
    have "iterators d \<noteq> 0" using Cons.prems(3) by simp
    from delete_while_iterating [OF Cons.prems(1) ty this keys(2)] obtain freed d1 where
      d1: "m_dictDelete ty d k = Some (DICT_OK, freed, d1)" "dict_inv ty d1" "shape_kept d d1"
        "buckets d1 = map (filter (\<lambda>e. fst e \<noteq> k)) (buckets d)" "dict_map d1 = (dict_map d)(k := None)" by blast
    have it1: "iterators d1 = Suc m" using d1(3) Cons.prems(3) by (simp add: shape_kept_def)
    from Cons.IH [OF d1(2) visiting_delete [OF it'(2) keys(1) d1(4,3)] it1] obtain d' where
      d': "delete_loop (Suc (length ks)) addr ty P d1 it' = Some (ks, d')" "dict_inv ty d'" "iterators d' = m"
        "dict_map d' = dict_map d1 |` (- {k \<in> set ks. P k})" by blast
    have "dict_map d' = dict_map d |` (- {j \<in> set (k # ks). P j})"
      unfolding d'(4) d1(5) using True by (auto simp: restrict_map_def fun_eq_iff)
    then show ?thesis using it'(1) True d1(1) d'
      by (simp del: delete_loop.simps add: delete_loop.simps(2) [of "Suc (length ks)"])
  qed
qed

text \<open>The first call of \<open>m_dictNext\<close> counts the iterator in.\<close>

lemma delete_loop_all:
  assumes "dict_inv ty d" and "type_ok ty"
  shows "\<exists>d'. delete_loop (Suc (dictSize d)) addr ty P d m_dictGetSafeIterator = Some (map fst (dict_entries d), d') \<and>
    dict_inv ty d' \<and> iterators d' = iterators d \<and> dict_map d' = dict_map d |` (- {k \<in> fst ` set (dict_entries d). P k})"
proof -
  let ?it = "m_dictGetSafeIterator :: 'a m_dictIterator" and ?d = "d\<lparr>iterators := iterators d + 1\<rparr>"
  have p: "passed d ?it 0" by (simp add: passed_def m_dictGetSafeIterator_def m_dictGetIterator_def)
  have s: "started d 0 = ?d" by (simp add: started_def)
  have e: "m_dictNext addr d ?it = next_in_buckets addr d ?it"
    by (simp add: m_dictNext_def m_dictGetSafeIterator_def m_dictGetIterator_def)
  note n = next_in_buckets_spec [OF assms(1) p, of addr, unfolded s drop_0 concat_buckets]
  have m: "dict_map ?d = dict_map d" by (simp add: dict_map_def dict_entries_def)
  show ?thesis
  proof (cases "dict_entries d = []")
    case True
    then obtain it' where it': "next_in_buckets addr d ?it = Some (None, ?d, it')" "it_safe it'" "it_index it' \<noteq> - 1" using n by blast
    then have "m_dictReleaseIterator addr ?d it' = Some d" by (simp add: m_dictReleaseIterator_def count_dec_def)
    moreover have "dict_map d = Map.empty" using True by (simp add: dict_map_def)
    ultimately show ?thesis using e it'(1) True assms(1) dict_size_entries [OF assms(1)] by simp
  next
    case False
    then obtain g e0 es it' where r: "buckets d ! g = e0 # es" "g < length (buckets d)"
      "dict_entries d = e0 # es @ concat (drop (Suc g) (buckets d))" "reached d it' g"
      "next_in_buckets addr d ?it = Some (Some (fst e0), ?d, it'\<lparr>it_entry := Some (fst e0), it_nextEntry := first_key es\<rparr>)"
      using n by blast
    let ?ks = "map fst (es @ concat (drop (Suc g) (buckets d)))"
    \<comment> \<open>the first call, written as a call of an iterator that stands just before the first entry\<close>
    have v: "visiting ?d (it'\<lparr>it_entry := Some (fst e0), it_nextEntry := first_key (e0 # es)\<rparr>) (fst e0 # ?ks)"
      unfolding visiting_def using r(1,2,4) by (intro exI [of _ g] exI [of _ "[]"] exI [of _ "e0 # es"]) simp
    have "entry_next ?d (fst e0) = Some (first_key es)"
      using find_next_found [OF inv_lengths(4) [OF assms(1)] r(2), of "[]" e0 es] r(1) by (simp add: entry_next_def buckets_def)
    then have "m_dictNext addr ?d (it'\<lparr>it_entry := Some (fst e0), it_nextEntry := first_key (e0 # es)\<rparr>) = m_dictNext addr d ?it"
      using e r(5) by (simp add: m_dictNext_def first_key_def)
    then have loop: "delete_loop (Suc n) addr ty P ?d (it'\<lparr>it_entry := Some (fst e0), it_nextEntry := first_key (e0 # es)\<rparr>) =
        delete_loop (Suc n) addr ty P d ?it" for n by simp
    have len: "dictSize d = length (fst e0 # ?ks)" using dict_size_entries [OF assms(1)] r(3) by simp
    have all: "fst e0 # ?ks = map fst (dict_entries d)" using r(3) by simp
    have inv: "dict_inv ty ?d" "iterators ?d = Suc (iterators d)" using assms(1) by simp_all
    obtain d' where d': "delete_loop (Suc (length (fst e0 # ?ks))) addr ty P ?d
        (it'\<lparr>it_entry := Some (fst e0), it_nextEntry := first_key (e0 # es)\<rparr>) = Some (fst e0 # ?ks, d')"
      "dict_inv ty d'" "iterators d' = iterators d" "dict_map d' = dict_map ?d |` (- {k \<in> set (fst e0 # ?ks). P k})"
      using delete_loop_rest [OF assms(2) inv(1) v inv(2)] by blast
    have D: "delete_loop (Suc (dictSize d)) addr ty P d ?it = Some (map fst (dict_entries d), d')"
      using d'(1) unfolding loop all length_map dict_size_entries [OF assms(1)] .
    have "dict_map d' = dict_map d |` (- {k \<in> fst ` set (dict_entries d). P k})" using d'(4) unfolding all m by simp
    then show ?thesis using D d'(2,3) by blast
  qed
qed

section \<open>Sampling several keys\<close>

text \<open>As many rehashing steps as keys are asked for.\<close>

fun rehash_some :: "'k dictType \<Rightarrow> nat \<Rightarrow> ('k, 'v) dict \<Rightarrow> ('k, 'v) dict option" where
  "rehash_some ty 0 d = Some d"
| "rehash_some ty (Suc n) d = (if dictIsRehashing d then do { d \<leftarrow> dictRehashStep ty d; rehash_some ty n d } else Some d)"

text \<open>The position, the number of empty buckets in a row, the entries stored in \<open>des\<close>, the values of
  \<open>random()\<close> to come.\<close>

type_synonym ('k, 'v) sample = "nat \<times> nat \<times> ('k, 'v) dictEntry list \<times> nat list"

text \<open>The body of the loop for table \<open>j\<close>; the flag says that the function has returned.\<close>

definition sample_bucket :: "nat \<Rightarrow> u64 \<Rightarrow> bool \<Rightarrow> ('k, 'v) dict \<Rightarrow> nat \<Rightarrow> ('k, 'v) sample \<Rightarrow> (bool \<times> ('k, 'v) sample) option" where
  "sample_bucket cnt maxsizemask two d j st = (case st of (i, emptylen, des, draws) \<Rightarrow>
     let below = (two \<and> j = 0 \<and> i < nat (rehashidx d));
         jump = (below \<and> i \<ge> ht_size (ht1 d));
         i = (if jump then nat (rehashidx d) else i)
     in if below \<and> \<not> jump then Some (False, i, emptylen, des, draws)
        else if i \<ge> ht_size (get_ht d j) then Some (False, i, emptylen, des, draws)
        else do {
          he \<leftarrow> arr_get (ht_table (get_ht d j)) i;
          if he = [] then
            (let emptylen = emptylen + 1 in
             if emptylen \<ge> 5 \<and> emptylen > cnt
             then (case draws of [] \<Rightarrow> None
               | r # draws \<Rightarrow> Some (False, unat (of_nat r AND maxsizemask), 0, des, draws))
             else Some (False, i, emptylen, des, draws))
          else
            (let des = des @ take (cnt - length des) he in Some (length des = cnt, i, 0, des, draws))
        })"

text \<open>\<open>while (stored < cnt && maxsteps--)\<close>.\<close>

fun sample_loop :: "nat \<Rightarrow> nat \<Rightarrow> u64 \<Rightarrow> bool \<Rightarrow> ('k, 'v) dict \<Rightarrow> ('k, 'v) sample \<Rightarrow> ('k, 'v) sample option" where
  "sample_loop 0 cnt maxsizemask two d st = Some st"
| "sample_loop (Suc maxsteps) cnt maxsizemask two d st =
     (if \<not> length (fst (snd (snd st))) < cnt then Some st
      else do {
        (fin, st) \<leftarrow> sample_bucket cnt maxsizemask two d 0 st;
        if fin then Some st
        else do {
          (fin, st) \<leftarrow> (if two then sample_bucket cnt maxsizemask two d 1 st else Some (False, st));
          if fin then Some st
          else (case st of (i, rest) \<Rightarrow>
            sample_loop maxsteps cnt maxsizemask two d (unat (of_nat (i + 1) AND maxsizemask), rest))
        }
      })"

definition m_dictGetSomeKeys ::
  "'k dictType \<Rightarrow> nat list \<Rightarrow> ('k, 'v) dict \<Rightarrow> nat \<Rightarrow> (('k, 'v) dictEntry list \<times> nat list \<times> ('k, 'v) dict) option" where
  "m_dictGetSomeKeys ty draws d cnt = do {
     let cnt = (if dictSize d < cnt then dictSize d else cnt);
     let maxsteps = cnt * 10 mod 2 ^ 32;
     d \<leftarrow> rehash_some ty cnt d;
     let two = dictIsRehashing d;
     let m0 = ht_sizemask (ht0 d);
     let maxsizemask = (if two \<and> m0 < ht_sizemask (ht1 d) then ht_sizemask (ht1 d) else m0);
     (case draws of [] \<Rightarrow> None
      | r # draws \<Rightarrow> do {
          (i, emptylen, des, draws) \<leftarrow> sample_loop maxsteps cnt maxsizemask two d (unat (of_nat r AND maxsizemask), 0, [], draws);
          Some (des, draws, d)
        })
   }"

lemma rehash_some_spec:
  assumes "dict_inv ty d"
  shows "\<exists>d'. rehash_some ty n d = Some d' \<and> dict_inv ty d' \<and> mset (dict_entries d') = mset (dict_entries d)"
  using assms
proof (induction n arbitrary: d)
  case (Suc n)
  obtain d1 where "dictRehashStep ty d = Some d1" "dict_inv ty d1" "mset (dict_entries d1) = mset (dict_entries d)"
    using dictRehashStep_spec [OF Suc.prems] by blast
  then show ?case using Suc.IH [of d1] Suc.prems by auto
qed simp

text \<open>A round keeps the entries within those of the dictionary and the count, and draws at most once.\<close>

lemma sample_bucket_spec:
  assumes inv: "dict_inv ty d" and "j = 0 \<or> j = 1" and "two \<longrightarrow> dictIsRehashing d"
    and "set des \<subseteq> set (dict_entries d)" "length des \<le> cnt" "draws \<noteq> []"
  shows "\<exists>fin i' el' des' draws'. sample_bucket cnt msk two d j (i, el, des, draws) = Some (fin, i', el', des', draws') \<and>
    set des' \<subseteq> set (dict_entries d) \<and> length des' \<le> cnt \<and> length draws \<le> length draws' + 1"
proof -
  let ?below = "two \<and> j = 0 \<and> i < nat (rehashidx d)"
  define k where "k = (if ?below \<and> i \<ge> ht_size (ht1 d) then nat (rehashidx d) else i)"
  show ?thesis
  proof (cases "?below \<and> \<not> i \<ge> ht_size (ht1 d) \<or> k \<ge> ht_size (get_ht d j)")
    case True
    then show ?thesis using assms(4-6) by (auto simp: sample_bucket_def Let_def k_def)
  next
    case False
    have len: "length (ht_table (get_ht d j)) = ht_size (get_ht d j)" by (rule get_ht_length [OF inv])
    then have get: "arr_get (ht_table (get_ht d j)) k = Some (ht_table (get_ht d j) ! k)" using False by (simp add: arr_get_def)
    let ?he = "ht_table (get_ht d j) ! k"
    have "set ?he \<subseteq> set (ht_entries (get_ht d j))" using False len by (auto simp: ht_entries_def intro!: bexI [of _ ?he])
    also have "\<dots> \<subseteq> set (dict_entries d)" by (auto simp: get_ht_def dict_entries_def)
    finally have sub: "set (take n ?he) \<subseteq> set (dict_entries d)" for n using set_take_subset by fastforce
    obtain r ds where draws: "draws = r # ds" using assms(6) by (cases draws) auto
    have eq: "sample_bucket cnt msk two d j (i, el, des, draws) =
        (if ?he = [] then if el + 1 \<ge> 5 \<and> el + 1 > cnt then Some (False, unat (of_nat r AND msk), 0, des, ds)
           else Some (False, k, el + 1, des, draws)
         else Some (length (des @ take (cnt - length des) ?he) = cnt, k, 0, des @ take (cnt - length des) ?he, draws))"
      using False get draws by (auto simp: sample_bucket_def Let_def k_def)
    show ?thesis
    proof (cases "?he = []")
      case True
      then show ?thesis using eq assms(4,5) draws by auto
    next
      case he: False
      have "set (des @ take (cnt - length des) ?he) \<subseteq> set (dict_entries d)" using assms(4) sub by auto
      then show ?thesis using eq he assms(5) by auto
    qed
  qed
qed

lemma sample_loop_spec:
  assumes inv: "dict_inv ty d" and two: "two \<longrightarrow> dictIsRehashing d"
    and "set des \<subseteq> set (dict_entries d)" "length des \<le> cnt" "2 * n < length draws"
  shows "\<exists>i' el' des' draws'. sample_loop n cnt msk two d (i, el, des, draws) = Some (i', el', des', draws') \<and>
    set des' \<subseteq> set (dict_entries d) \<and> length des' \<le> cnt"
  using assms(3-)
proof (induction n arbitrary: i el des draws)
  case (Suc n)
  show ?case
  proof (cases "length des < cnt")
    case False
    then show ?thesis using Suc.prems by simp
  next
    case True
    have ne: "draws \<noteq> []" using Suc.prems(3) by auto
    obtain f1 i1 e1 s1 r1 where a: "sample_bucket cnt msk two d 0 (i, el, des, draws) = Some (f1, i1, e1, s1, r1)"
      "set s1 \<subseteq> set (dict_entries d)" "length s1 \<le> cnt" "length draws \<le> length r1 + 1"
      using sample_bucket_spec [OF inv _ two Suc.prems(1,2) ne, of 0 msk i el] by auto
    show ?thesis
    proof (cases f1)
      case True
      then show ?thesis using a \<open>length des < cnt\<close> by simp
    next
      case False
      have ne1: "r1 \<noteq> []" using a(4) Suc.prems(3) by auto
      obtain f2 i2 e2 s2 r2 where b: "(if two then sample_bucket cnt msk two d 1 (i1, e1, s1, r1) else Some (False, i1, e1, s1, r1)) =
          Some (f2, i2, e2, s2, r2)" "set s2 \<subseteq> set (dict_entries d)" "length s2 \<le> cnt" "length r1 \<le> length r2 + 1"
      proof (cases two)
        case True
        then show thesis using sample_bucket_spec [OF inv _ two a(2,3) ne1, of 1 msk i1 e1] that by auto
      next
        case False
        then show thesis using that [of False i1 e1 s1 r1] a by simp
      qed
      have more: "2 * n < length r2" using a(4) b(4) Suc.prems(3) by simp
      show ?thesis
      proof (cases f2)
        case True
        then show ?thesis using a(1) b \<open>\<not> f1\<close> \<open>length des < cnt\<close> by simp
      next
        case f2: False
        show ?thesis using Suc.IH [OF b(2,3) more, of "unat (of_nat (i2 + 1) AND msk)" e2] a(1) b(1) f2 \<open>\<not> f1\<close> \<open>length des < cnt\<close>
          by simp
      qed
    qed
  qed
qed simp

section \<open>Lookup by pointer\<close>

text \<open>\<open>same k\<close> says that \<open>k\<close> is the key in the table that \<open>oldptr\<close> points to.\<close>

fun ptr_pos :: "('k \<Rightarrow> bool) \<Rightarrow> ('k, 'v) chain \<Rightarrow> nat option" where
  "ptr_pos same [] = None"
| "ptr_pos same (he # rest) = (if same (fst he) then Some 0 else map_option Suc (ptr_pos same rest))"

definition m_dictGetHash :: "'k dictType \<Rightarrow> 'k \<Rightarrow> u64" where
  "m_dictGetHash ty key = hashFunction ty key"

definition ptr_in_table :: "('k, 'v) dict \<Rightarrow> nat \<Rightarrow> ('k \<Rightarrow> bool) \<Rightarrow> u64 \<Rightarrow> entry_ref option option" where
  "ptr_in_table d t same hash = do {
     let idx = unat (hash AND ht_sizemask (get_ht d t));
     he \<leftarrow> arr_get (ht_table (get_ht d t)) idx;
     Some (map_option (\<lambda>p. (t, idx, p)) (ptr_pos same he))
   }"

definition m_dictFindEntryRefByPtrAndHash :: "('k, 'v) dict \<Rightarrow> ('k \<Rightarrow> bool) \<Rightarrow> u64 \<Rightarrow> entry_ref option option" where
  "m_dictFindEntryRefByPtrAndHash d same hash =
     (if ht_used (ht0 d) + ht_used (ht1 d) = 0 then Some None
      else do {
        r \<leftarrow> ptr_in_table d 0 same hash;
        if r \<noteq> None \<or> \<not> dictIsRehashing d then Some r
        else ptr_in_table d 1 same hash
      })"

lemma ptr_pos_chain: "type_ok ty \<Longrightarrow> ptr_pos (\<lambda>k. k = key) c = chain_pos ty key c"
  by (induction c) (auto simp: dictCompareKeys_eq)

lemma ptr_in_table_find:
  "type_ok ty \<Longrightarrow> ptr_in_table d t (\<lambda>k. k = key) (m_dictGetHash ty key) =
    map_option (\<lambda>(idx, pos). map_option (\<lambda>p. (t, idx, p)) pos) (find_in_table ty d t key)"
  by (simp add: ptr_in_table_def find_in_table_def bucket_index_def m_dictGetHash_def ptr_pos_chain Let_def arr_get_def)

section \<open>Properties\<close>

text \<open>C30: A loop with a safe iterator that deletes some of the entries it is given: it ends after as many
  rounds as there are entries, every entry is visited once, also when the dictionary is being
  rehashed, exactly the chosen ones are deleted, and the iterator count is as before.\<close>

theorem safe_iterator_deletes:
  assumes "dict_inv ty d" and "type_ok ty"
  shows "\<exists>d'. delete_loop (Suc (dictSize d)) addr ty P d m_dictGetSafeIterator = Some (map fst (dict_entries d), d') \<and>
    dict_inv ty d' \<and> iterators d' = iterators d \<and> dict_map d' = dict_map d |` {k. \<not> P k}"
proof -
  have "dict_map d x = None" if "x \<notin> fst ` set (dict_entries d)" for x using that dict_map_dom [of x d] by blast
  then have "dict_map d |` (- {k \<in> fst ` set (dict_entries d). P k}) = dict_map d |` {k. \<not> P k}"
    by (auto simp: restrict_map_def fun_eq_iff)
  then show ?thesis using delete_loop_all [OF assms, of addr P] by simp
qed

lemma safe_iterator_deletes_witness:
  "\<exists>d'. delete_loop (Suc (dictSize demo_dict)) (0, 0) demo_type even demo_dict m_dictGetSafeIterator =
      Some (map fst (dict_entries demo_dict), d') \<and> dict_map d' 4 = None \<and> dict_map d' 5 = Some (Some 50)"
  using safe_iterator_deletes [OF demo_dict_inv demo_type_ok, of "(0, 0)" even] demo_dict_map by (auto simp: restrict_map_def)

text \<open>Sampling returns whatever the random numbers are, when there are enough of them, and never
  leaves the tables: at most as many entries as asked for and as there are, each of them in the
  dictionary. An entry may come more than once.\<close>

theorem m_dictGetSomeKeys_sound:
  assumes "dict_inv ty d" and "cnt < 2 ^ 28" and "20 * cnt + 1 < length draws"
  shows "\<exists>des rest d'. m_dictGetSomeKeys ty draws d cnt = Some (des, rest, d') \<and> dict_inv ty d' \<and>
    mset (dict_entries d') = mset (dict_entries d) \<and> length des \<le> cnt \<and> length des \<le> dictSize d \<and>
    set des \<subseteq> set (dict_entries d)"
proof -
  let ?n = "if dictSize d < cnt then dictSize d else cnt"
  obtain d1 where d1: "rehash_some ty ?n d = Some d1" "dict_inv ty d1" "mset (dict_entries d1) = mset (dict_entries d)"
    using rehash_some_spec [OF assms(1)] by blast
  obtain r ds where draws: "draws = r # ds" using assms(3) by (cases draws) auto
  have steps: "?n * 10 mod 2 ^ 32 = ?n * 10" "2 * (?n * 10) < length ds" using assms(2,3) draws by auto
  let ?two = "dictIsRehashing d1"
  let ?msk = "if ?two \<and> ht_sizemask (ht0 d1) < ht_sizemask (ht1 d1) then ht_sizemask (ht1 d1) else ht_sizemask (ht0 d1)"
  obtain i' el' des' ds' where l: "sample_loop (?n * 10) ?n ?msk ?two d1 (unat (of_nat r AND ?msk), 0, [], ds) =
      Some (i', el', des', ds')" "set des' \<subseteq> set (dict_entries d1)" "length des' \<le> ?n"
    using sample_loop_spec [OF d1(2), of ?two "[]" ?n "?n * 10" ds ?msk "unat (of_nat r AND ?msk)" 0] steps(2) by auto
  have "m_dictGetSomeKeys ty draws d cnt = Some (des', ds', d1)"
    unfolding m_dictGetSomeKeys_def Let_def d1(1) steps(1) draws using l(1) by simp
  moreover have "set (dict_entries d1) = set (dict_entries d)" using d1(3) by (metis set_mset_mset)
  moreover have "length des' \<le> cnt" "length des' \<le> dictSize d" using l(3) by (auto split: if_splits)
  ultimately show ?thesis using l(2) d1(2,3) by auto
qed

lemma m_dictGetSomeKeys_sound_witness:
  "\<exists>des rest d'. m_dictGetSomeKeys demo_type (replicate 50 3) demo_dict 2 = Some (des, rest, d') \<and> length des \<le> 2"
  using m_dictGetSomeKeys_sound [OF demo_dict_inv, of 2 "replicate 50 3"] by force

text \<open>The lookup by pointer and hash finds the entry of the key the pointer points to, without a
  rehashing step, and nothing when the key is not in the dictionary.\<close>

theorem FindEntryRef_finds:
  assumes "dict_inv ty d" and "type_ok ty"
  shows "\<exists>r. m_dictFindEntryRefByPtrAndHash d (\<lambda>k. k = key) (m_dictGetHash ty key) = Some r \<and>
    (case dict_map d key of None \<Rightarrow> r = None | Some v \<Rightarrow> \<exists>ref. r = Some ref \<and> dictGetEntry d ref = Some (key, v))"
proof (cases "ht_used (ht0 d) + ht_used (ht1 d) = 0")
  case True
  then have "dict_entries d = []" using dict_size_entries [OF assms(1)] by (simp add: dictSize_def)
  then show ?thesis using True by (simp add: m_dictFindEntryRefByPtrAndHash_def dict_map_def)
next
  case False
  then have ne: "dict_entries d \<noteq> []" using dict_size_entries [OF assms(1)] by (auto simp: dictSize_def)
  note p = ptr_in_table_find [OF assms(2), of d _ key]
  have hit: ?thesis
    if r: "m_dictFindEntryRefByPtrAndHash d (\<lambda>k. k = key) (m_dictGetHash ty key) = Some (Some r)" "\<exists>v. dictGetEntry d r = Some (key, v)" for r
    using r dictGetEntry_map [OF assms(1)] by (cases r) fastforce
  have absent: ?thesis
    if "m_dictFindEntryRefByPtrAndHash d (\<lambda>k. k = key) (m_dictGetHash ty key) = Some None" "key \<notin> dom (dict_map d)"
    using that by (simp add: domIff)
  show ?thesis
    using assms(1) ne assms(2)
  proof (cases rule: search_tables [of ty d key])
    case (first q)
    have e: "\<exists>v. dictGetEntry d (0, bucket_index ty (get_ht d 0) key, q) = Some (key, v)"
      by (rule found_entry [OF assms(1) _ first(3,4)]) (use first(2) in simp)
    show ?thesis by (rule hit [OF _ e]) (use first p [of 0] False in \<open>simp add: m_dictFindEntryRefByPtrAndHash_def\<close>)
  next
    case (second q)
    have e: "\<exists>v. dictGetEntry d (1, bucket_index ty (get_ht d 1) key, q) = Some (key, v)"
      by (rule found_entry [OF assms(1) _ second(5,6)]) (use second(4) in simp)
    show ?thesis
      by (rule hit [OF _ e]) (use second p [of 0] p [of 1] False in \<open>simp add: m_dictFindEntryRefByPtrAndHash_def\<close>)
  next
    case miss_plain
    show ?thesis
      by (rule absent [OF _ miss_plain(3)]) (use miss_plain p [of 0] False in \<open>simp add: m_dictFindEntryRefByPtrAndHash_def\<close>)
  next
    case miss
    show ?thesis
      by (rule absent [OF _ miss(4)]) (use miss p [of 0] p [of 1] False in \<open>simp add: m_dictFindEntryRefByPtrAndHash_def\<close>)
  qed
qed

lemma FindEntryRef_finds_witness:
  "\<exists>ref. m_dictFindEntryRefByPtrAndHash demo_dict (\<lambda>k. k = 4) (m_dictGetHash demo_type 4) = Some (Some ref) \<and>
    dictGetEntry demo_dict ref = Some (4, Some 40)"
  using FindEntryRef_finds [OF demo_dict_inv demo_type_ok, of 4] demo_dict_map by auto

end
