(* ===== verification/ConnTimeout.thy ===== *)
theory ConnTimeout
  imports SendProps
begin

text \<open>
  \<open>SlotsMGRT_CloseTimedoutConns\<close> of \<open>redisxslot.c\<close>, which the cron callback calls once a second: it walks
  over the cached connections with an iterator of the server and closes those not used for 30 seconds.
\<close>

section \<open>The iterator of the server\<close>

text \<open>\<open>RedisModule_DictIteratorStartC\<close> and \<open>RedisModule_DictNextC\<close>, both functions of the dictionary as it is
  when they are called. The second gives the bytes that are readable at the key, and the key's length.\<close>

type_synonym conns = "string \<Rightarrow> db_slot_mgrt_connect option"

record 'i dict_cursor =
  cursor_start :: "conns \<Rightarrow> 'i"
  cursor_next :: "conns \<Rightarrow> 'i \<Rightarrow> (string \<times> nat) option \<times> 'i"

section \<open>Closing\<close>

definition MGRT_BATCH_KEY_TIMEOUT :: int where "MGRT_BATCH_KEY_TIMEOUT = 30"

text \<open>The connection comes from the entry of \<open>keyLen\<close> bytes, but the deletion looks for a key that ends at
  the first NUL byte. When that is another key, the cache keeps a connection that has been freed:
  such a state is undefined here.\<close>

definition close_conn :: "'w env \<Rightarrow> string \<Rightarrow> db_slot_mgrt_connect \<Rightarrow> 'w mstate \<Rightarrow> 'w mstate" where
  "close_conn env key conn st =
     (let st = st\<lparr>ms_conns := (ms_conns st)(key := None)\<rparr>;
          st = st\<lparr>ms_world := ex_disconnect env (conn_ctx conn) (ms_world st)\<rparr>
      in log_request (Disconnect (conn_ctx conn)) st)"

partial_function (option) close_loop ::
  "'i dict_cursor \<Rightarrow> 'w env \<Rightarrow> int \<Rightarrow> 'i \<Rightarrow> 'w mstate \<Rightarrow> 'w mstate option" where
  "close_loop api env unixtime di st =
     (case cursor_next api (ms_conns st) di of (k, di) \<Rightarrow>
       (case k of
          None \<Rightarrow> Some st
        | Some (k, keyLen) \<Rightarrow> do {
            conn \<leftarrow> ms_conns st (take keyLen k);
            if unixtime - last_time conn > MGRT_BATCH_KEY_TIMEOUT
            then do {
              c_assert (cstr k = take keyLen k);
              close_loop api env unixtime di (close_conn env (cstr k) conn st)
            }
            else close_loop api env unixtime di st
          }))"

definition SlotsMGRT_CloseTimedoutConns :: "'i dict_cursor \<Rightarrow> 'w env \<Rightarrow> 'w mstate \<Rightarrow> 'w mstate option" where
  "SlotsMGRT_CloseTimedoutConns api env st = do {
     let (unixtime, st) = get_unixtime env st;
     let di = cursor_start api (ms_conns st);
     close_loop api env unixtime di st
   }"

text \<open>The cron callback with the connections: \<open>CronLoopCallback\<close> of the index says when they are looked at.\<close>

definition cron_with_connections ::
  "'i dict_cursor \<Rightarrow> 'w env \<Rightarrow> (nat \<Rightarrow> int) \<Rightarrow> bool \<Rightarrow> int \<Rightarrow> 'w mstate \<Rightarrow> 'w mstate option" where
  "cron_with_connections api env clock active_child hz st = do {
     (close, s) \<leftarrow> CronLoopCallback clock active_child hz (ms_slots st);
     let st = st\<lparr>ms_slots := s\<rparr>;
     if close then SlotsMGRT_CloseTimedoutConns api env st else Some st
   }"

section \<open>Walks\<close>

text \<open>From \<open>di\<close> on, the iterator of a dictionary that does not change returns the keys \<open>ks\<close>.\<close>

fun walks :: "'i dict_cursor \<Rightarrow> conns \<Rightarrow> 'i \<Rightarrow> string list \<Rightarrow> bool" where
  "walks api m di [] \<longleftrightarrow> fst (cursor_next api m di) = None"
| "walks api m di (k # ks) \<longleftrightarrow>
     (\<exists>after di'. cursor_next api m di = (Some (k @ after, length k), di') \<and> walks api m di' ks)"

text \<open>The same when the key just returned may be deleted before the next call, and a NUL byte follows every
  key. The server does not promise either.\<close>

fun walks_deleting :: "'i dict_cursor \<Rightarrow> conns \<Rightarrow> 'i \<Rightarrow> string list \<Rightarrow> bool" where
  "walks_deleting api m di [] \<longleftrightarrow> fst (cursor_next api m di) = None"
| "walks_deleting api m di (k # ks) \<longleftrightarrow>
     (\<exists>after di'. cursor_next api m di = (Some (k @ CHR 0x00 # after, length k), di') \<and>
        walks_deleting api m di' ks \<and> walks_deleting api (m(k := None)) di' ks)"

definition stale :: "int \<Rightarrow> db_slot_mgrt_connect \<Rightarrow> bool" where
  "stale t conn \<longleftrightarrow> t - last_time conn > MGRT_BATCH_KEY_TIMEOUT"

definition stale_in :: "int \<Rightarrow> conns \<Rightarrow> string \<Rightarrow> bool" where
  "stale_in t m k \<longleftrightarrow> (case m k of None \<Rightarrow> False | Some conn \<Rightarrow> stale t conn)"

lemma close_loop_fresh:
  assumes "walks api (ms_conns st) di ks" and "set ks \<subseteq> dom (ms_conns st)" and "\<forall>k\<in>set ks. \<not> stale_in t (ms_conns st) k"
  shows "close_loop api env t di st = Some st"
  using assms
proof (induction ks arbitrary: di)
  case Nil
  then show ?case by (subst close_loop.simps) (auto split: prod.splits)
next
  case (Cons k ks)
  from Cons.prems(1) obtain after di' where
    n: "cursor_next api (ms_conns st) di = (Some (k @ after, length k), di')" "walks api (ms_conns st) di' ks" by auto
  obtain conn where c: "ms_conns st k = Some conn" using Cons.prems(2) by auto
  then have "\<not> unixtime - last_time conn > MGRT_BATCH_KEY_TIMEOUT" if "unixtime = t" for unixtime
    using Cons.prems(3) that by (simp add: stale_in_def stale_def)
  then show ?case using n(1) c Cons.IH [OF n(2)] Cons.prems(2,3) by (subst close_loop.simps) simp
qed

text \<open>What is left, and what has been closed in the order of the keys.\<close>

definition close_stale :: "'w env \<Rightarrow> int \<Rightarrow> string list \<Rightarrow> 'w mstate \<Rightarrow> 'w mstate" where
  "close_stale env t ks st = foldl (\<lambda>st k. case ms_conns st k of None \<Rightarrow> st
     | Some conn \<Rightarrow> if stale t conn then close_conn env k conn st else st) st ks"

lemma close_conn_simps [simp]:
  "ms_conns (close_conn env k conn st) = (ms_conns st)(k := None)"
  "ms_trace (close_conn env k conn st) = ms_trace st @ [Disconnect (conn_ctx conn)]"
  "ms_slots (close_conn env k conn st) = ms_slots st"
  by (simp_all add: close_conn_def Let_def log_request_def)

lemma close_loop_deleting:
  assumes "walks_deleting api (ms_conns st) di ks" and "set ks \<subseteq> dom (ms_conns st)" and "distinct ks"
    and "\<forall>k\<in>set ks. CHR 0x00 \<notin> set k"
  shows "close_loop api env t di st = Some (close_stale env t ks st)"
  using assms
proof (induction ks arbitrary: di st)
  case Nil
  then show ?case by (subst close_loop.simps) (auto simp: close_stale_def split: prod.splits)
next
  case (Cons k ks)
  from Cons.prems(1) obtain after di' where
    n: "cursor_next api (ms_conns st) di = (Some (k @ CHR 0x00 # after, length k), di')"
      "walks_deleting api (ms_conns st) di' ks" "walks_deleting api ((ms_conns st)(k := None)) di' ks" by auto
  obtain conn where c: "ms_conns st k = Some conn" using Cons.prems(2) by auto
  have k: "cstr (k @ CHR 0x00 # after) = k" using Cons.prems(4) by (auto simp: cstr_def takeWhile_append)
  show ?case
  proof (cases "stale t conn")
    case False
    then show ?thesis using n(1) c Cons.IH [OF n(2)] Cons.prems(2-4)
      by (subst close_loop.simps) (simp add: close_stale_def stale_def)
  next
    case True
    let ?st = "close_conn env k conn st"
    have "close_loop api env t di' ?st = Some (close_stale env t ks ?st)"
      using Cons.IH [of ?st di'] n(3) Cons.prems(2-4) by (simp del: fun_upd_apply) auto
    then show ?thesis using n(1) c k True by (subst close_loop.simps) (simp add: close_stale_def stale_def)
  qed
qed
text \<open>The connections that are left, and the requests.\<close>

lemma close_stale_spec:
  assumes "distinct ks"
  shows "ms_conns (close_stale env t ks st) = (\<lambda>n. if n \<in> set ks \<and> stale_in t (ms_conns st) n then None else ms_conns st n)
    \<and> ms_trace (close_stale env t ks st) =
        ms_trace st @ map (\<lambda>k. Disconnect (conn_ctx (the (ms_conns st k)))) (filter (stale_in t (ms_conns st)) ks)
    \<and> ms_slots (close_stale env t ks st) = ms_slots st"
  using assms
proof (induction ks arbitrary: st)
  case Nil
  then show ?case by (simp add: close_stale_def)
next
  case (Cons k ks)
  show ?case
  proof (cases "stale_in t (ms_conns st) k")
    case False
    then have "close_stale env t (k # ks) st = close_stale env t ks st"
      by (auto simp: close_stale_def stale_in_def split: option.splits)
    then show ?thesis using Cons False by (auto simp: fun_eq_iff)
  next
    case True
    then obtain conn where c: "ms_conns st k = Some conn" "stale t conn" by (auto simp: stale_in_def split: option.splits)
    let ?st = "close_conn env k conn st"
    have e: "close_stale env t (k # ks) st = close_stale env t ks ?st" using c by (simp add: close_stale_def)
    have s: "stale_in t ((ms_conns st)(k := None)) n = (n \<noteq> k \<and> stale_in t (ms_conns st) n)" for n by (simp add: stale_in_def)
    have f: "filter (stale_in t ((ms_conns st)(k := None))) ks = filter (stale_in t (ms_conns st)) ks"
      using Cons.prems by (intro filter_cong refl) (auto simp: s)
    have g: "map (\<lambda>n. Disconnect (conn_ctx (the (((ms_conns st)(k := None)) n)))) (filter (stale_in t (ms_conns st)) ks) =
        map (\<lambda>n. Disconnect (conn_ctx (the (ms_conns st n)))) (filter (stale_in t (ms_conns st)) ks)"
      using Cons.prems by (intro map_cong refl) auto
    have "distinct ks" using Cons.prems by simp
    note IH = Cons.IH [OF this, of ?st, unfolded close_conn_simps f g]
    have "ms_conns (close_stale env t ks ?st) = (\<lambda>n. if n \<in> set (k # ks) \<and> stale_in t (ms_conns st) n then None else ms_conns st n)"
      using IH True by (auto simp: s [unfolded fun_upd_def] fun_eq_iff)
    moreover have "ms_trace (close_stale env t ks ?st) = ms_trace st @ Disconnect (conn_ctx conn) #
        map (\<lambda>n. Disconnect (conn_ctx (the (ms_conns st n)))) (filter (stale_in t (ms_conns st)) ks)"
      using conjunct1 [OF conjunct2 [OF IH]] by simp
    moreover have "ms_slots (close_stale env t ks ?st) = ms_slots st" using IH by simp
    ultimately show ?thesis using True c unfolding e by simp
  qed
qed

section \<open>Properties\<close>

text \<open>While no connection is too old nothing is closed: the callback walks over all of them, for every
  iterator that goes through a dictionary that does not change.\<close>

theorem CloseTimedoutConns_keeps_fresh:
  assumes "get_unixtime env st = (t, st1)"
    and "walks api (ms_conns st) (cursor_start api (ms_conns st)) ks" and "set ks = dom (ms_conns st)"
    and "\<forall>k\<in>dom (ms_conns st). \<not> stale_in t (ms_conns st) k"
  shows "SlotsMGRT_CloseTimedoutConns api env st = Some st1"
proof -
  have "ms_conns st1 = ms_conns st" using assms(1) by (auto simp: get_unixtime_def split: prod.splits)
  then show ?thesis using assms(2-4) close_loop_fresh [of api st1 _ ks t env]
    by (simp add: SlotsMGRT_CloseTimedoutConns_def assms(1))
qed

text \<open>With an iterator that survives the deletion of the key it has just returned, and puts a NUL byte
  after it, exactly the connections not used for more than 30 seconds are closed, each once.\<close>

theorem CloseTimedoutConns_closes_stale:
  assumes "get_unixtime env st = (t, st1)"
    and "walks_deleting api (ms_conns st) (cursor_start api (ms_conns st)) ks" and "set ks = dom (ms_conns st)"
    and "distinct ks" and "\<forall>k\<in>dom (ms_conns st). CHR 0x00 \<notin> set k"
  shows "\<exists>st'. SlotsMGRT_CloseTimedoutConns api env st = Some st' \<and> ms_slots st' = ms_slots st \<and>
    ms_conns st' = (\<lambda>n. if stale_in t (ms_conns st) n then None else ms_conns st n) \<and>
    ms_trace st' = ms_trace st @
      map (\<lambda>k. Disconnect (conn_ctx (the (ms_conns st k)))) (filter (stale_in t (ms_conns st)) ks)"
proof -
  have s1: "ms_conns st1 = ms_conns st" "ms_trace st1 = ms_trace st" "ms_slots st1 = ms_slots st"
    using assms(1) by (auto simp: get_unixtime_def split: prod.splits)
  have "SlotsMGRT_CloseTimedoutConns api env st = Some (close_stale env t ks st1)"
    using close_loop_deleting [of api st1 _ ks env t] assms(2-5) s1
    by (simp add: SlotsMGRT_CloseTimedoutConns_def assms(1))
  moreover have "stale_in t (ms_conns st) n \<Longrightarrow> n \<in> set ks" for n
    using assms(3) by (auto simp: stale_in_def split: option.splits)
  ultimately show ?thesis using close_stale_spec [OF assms(4), of env t st1] s1 by (auto simp: fun_eq_iff)
qed

text \<open>The server does not write a NUL byte after the key. When another byte follows, the connection is
  freed and stays in the cache.\<close>

theorem close_loop_key_not_terminated:
  assumes "cursor_next api (ms_conns st) di = (Some (k @ c # after, length k), di')" and "c \<noteq> CHR 0x00"
    and "CHR 0x00 \<notin> set k" and "stale_in t (ms_conns st) k"
  shows "close_loop api env t di st = None"
proof -
  have "cstr (k @ c # after) \<noteq> k" using assms(2,3)
    by (auto simp: cstr_def takeWhile_append split: if_splits)
  then show ?thesis using assms(1,4) by (subst close_loop.simps) (auto simp: stale_in_def stale_def split: option.splits)
qed

text \<open>An iterator over two names, and a cache with one connection that has just been used and one that has not.\<close>

definition demo_cursor :: "string list dict_cursor" where
  "demo_cursor = \<lparr>cursor_start = (\<lambda>m. filter (\<lambda>k. m k \<noteq> None) [''h:1@0'', ''h:2@0'']),
     cursor_next = (\<lambda>m ks. case ks of [] \<Rightarrow> (None, []) | k # ks \<Rightarrow> (Some (k @ [CHR 0x00], length k), ks))\<rparr>"

definition demo_cache :: "string list mstate" where
  "demo_cache = (demo_mstate [])\<lparr>ms_conns :=
     [''h:1@0'' \<mapsto> \<lparr>last_time = - 100, conn_ctx = 1\<rparr>, ''h:2@0'' \<mapsto> \<lparr>last_time = - 5, conn_ctx = 2\<rparr>]\<rparr>"

lemma CloseTimedoutConns_closes_stale_witness:
  "\<exists>st'. SlotsMGRT_CloseTimedoutConns demo_cursor demo_env demo_cache = Some st' \<and>
    dom (ms_conns st') = {''h:2@0''} \<and> ms_trace st' = [Disconnect 1]"
proof -
  have t: "get_unixtime demo_env demo_cache = (5, demo_cache)"
    by (simp add: get_unixtime_def demo_env_def demo_cache_def demo_mstate_def)
  have m: "ms_conns demo_cache = [''h:1@0'' \<mapsto> \<lparr>last_time = - 100, conn_ctx = 1\<rparr>, ''h:2@0'' \<mapsto> \<lparr>last_time = - 5, conn_ctx = 2\<rparr>]"
    by (simp add: demo_cache_def)
  have w: "walks_deleting demo_cursor (ms_conns demo_cache) (cursor_start demo_cursor (ms_conns demo_cache)) [''h:1@0'', ''h:2@0'']"
    by (simp add: demo_cursor_def m)
  have d: "set [''h:1@0'', ''h:2@0''] = dom (ms_conns demo_cache)" "distinct [''h:1@0'', ''h:2@0'']"
    "\<forall>k\<in>dom (ms_conns demo_cache). CHR 0x00 \<notin> set k"
    by (auto simp: m)
  have s: "stale_in 5 (ms_conns demo_cache) n \<longleftrightarrow> n = ''h:1@0''" for n
    by (simp add: m stale_in_def stale_def MGRT_BATCH_KEY_TIMEOUT_def)
  have "ms_trace demo_cache = []" by (simp add: demo_cache_def demo_mstate_def)
  then show ?thesis using CloseTimedoutConns_closes_stale [OF t w d] unfolding s by (auto simp: m dom_def split: if_splits)
qed

lemma CloseTimedoutConns_keeps_fresh_witness:
  "SlotsMGRT_CloseTimedoutConns demo_cursor demo_env (demo_cache\<lparr>ms_conns := [''h:2@0'' \<mapsto> \<lparr>last_time = - 5, conn_ctx = 2\<rparr>]\<rparr>) =
    Some (demo_cache\<lparr>ms_conns := [''h:2@0'' \<mapsto> \<lparr>last_time = - 5, conn_ctx = 2\<rparr>]\<rparr>)"
proof -
  let ?st = "demo_cache\<lparr>ms_conns := [''h:2@0'' \<mapsto> \<lparr>last_time = - 5, conn_ctx = 2\<rparr>]\<rparr>"
  have "get_unixtime demo_env ?st = (5, ?st)"
    by (simp add: get_unixtime_def demo_env_def demo_cache_def demo_mstate_def)
  then show ?thesis
    using CloseTimedoutConns_keeps_fresh [of demo_env ?st 5 ?st demo_cursor "[''h:2@0'']"]
    by (auto simp: demo_cursor_def stale_in_def stale_def MGRT_BATCH_KEY_TIMEOUT_def split: if_splits)
qed

lemma close_loop_key_not_terminated_witness:
  "close_loop \<lparr>cursor_start = \<lambda>m. (), cursor_next = \<lambda>m di. (Some (''h:1@07'', 5), di)\<rparr> demo_env 0 () demo_cache = None"
  by (rule close_loop_key_not_terminated [where k = "''h:1@0''" and c = "CHR ''7''" and after = "[]"])
    (simp_all add: demo_cache_def stale_in_def stale_def MGRT_BATCH_KEY_TIMEOUT_def)

text \<open>The whole cron callback returns, keeps the index and its keys, and counts its calls.\<close>

theorem cron_with_connections_returns:
  assumes "slots_inv cmp (ms_slots st)" and "1 \<le> hz" and "hz \<le> 1000"
    and "cronloops (g_slots_meta_info (ms_slots st)) < INT_MAX"
    and "walks_deleting api (ms_conns st) (cursor_start api (ms_conns st)) ks" and "set ks = dom (ms_conns st)"
    and "distinct ks" and "\<forall>k\<in>dom (ms_conns st). CHR 0x00 \<notin> set k"
  shows "\<exists>st'. cron_with_connections api env clock child hz st = Some st' \<and> slots_inv cmp (ms_slots st') \<and>
    index (ms_slots st') = index (ms_slots st) \<and>
    cronloops (g_slots_meta_info (ms_slots st')) = cronloops (g_slots_meta_info (ms_slots st)) + 1"
proof -
  obtain close s where s: "CronLoopCallback clock child hz (ms_slots st) = Some (close, s)" "slots_inv cmp s"
    "index s = index (ms_slots st)"
    "g_slots_meta_info s = (g_slots_meta_info (ms_slots st))\<lparr>cronloops := cronloops (g_slots_meta_info (ms_slots st)) + 1\<rparr>"
    using CronLoopCallback_spec [OF assms(1-4), of clock child] by blast
  let ?st = "st\<lparr>ms_slots := s\<rparr>"
  obtain t st1 where t: "get_unixtime env ?st = (t, st1)" by fastforce
  have "\<exists>st'. (if close then SlotsMGRT_CloseTimedoutConns api env ?st else Some ?st) = Some st' \<and> ms_slots st' = s"
    using CloseTimedoutConns_closes_stale [OF t, of api ks] assms(5-8) by auto
  then show ?thesis using s by (auto simp: cron_with_connections_def)
qed

lemma cron_with_connections_returns_witness:
  "\<exists>st'. cron_with_connections demo_cursor demo_env (\<lambda>n. 0) False 10 (demo_mstate []\<lparr>ms_conns := Map.empty\<rparr>) = Some st' \<and>
    index (ms_slots st') = index demo_state"
proof -
  let ?st = "demo_mstate []\<lparr>ms_conns := Map.empty\<rparr>"
  have i: "slots_inv (ex_cmp demo_env) (ms_slots ?st)" using demo_state by (simp add: demo_mstate_def demo_env_def)
  have "cronloops (g_slots_meta_info (ms_slots ?st)) < INT_MAX" by (simp add: demo_mstate_def demo_state INT_MAX_def)
  from cron_with_connections_returns [OF i _ _ this, of 10 demo_cursor "[]" demo_env "\<lambda>n. 0" False]
  show ?thesis by (auto simp: demo_mstate_def demo_cursor_def)
qed

end
