(* ===== verification/GlobMatch.thy ===== *)
theory GlobMatch
  imports Prelude
begin

text \<open>
  The glob matcher of \<open>dep/util.c\<close>. Pointers into the pattern and the string are positions in their arrays,
  which hold the terminating NUL byte; every read is checked against the bounds. The reference is a
  pattern read as a list of tests and stars.
\<close>

section \<open>The code\<close>

text \<open>\<open>char\<close> is signed; \<open>tolower\<close> changes the letters from A to Z only.\<close>

definition schar :: "char \<Rightarrow> int" where
  "schar c = sint (of_char c :: u8)"

text \<open>\<open>while (pattern[i] == '*')\<close>.\<close>

function skip_stars :: "string \<Rightarrow> nat \<Rightarrow> int \<Rightarrow> (nat \<times> int) option" where
  "skip_stars p i patternLen = do {
     c \<leftarrow> arr_get p i;
     if c = CHR ''*'' then skip_stars p (Suc i) (patternLen - 1) else Some (i, patternLen)
   }"
  by pat_completeness auto
termination
  by (relation "measure (\<lambda>(p, i, n). length p - i)") (auto dest: arr_get_SomeD)

text \<open>\<open>c >= start && c <= end\<close>, with the ends swapped before they are made small.\<close>

definition class_range :: "bool \<Rightarrow> char \<Rightarrow> char \<Rightarrow> char \<Rightarrow> bool" where
  "class_range nocase a b c =
     (let (start, endc) = (if schar a > schar b then (b, a) else (a, b));
          (start, endc, c) = (if nocase then (c_tolower start, c_tolower endc, c_tolower c) else (start, endc, c))
      in schar c \<ge> schar start \<and> schar c \<le> schar endc)"

definition same_char :: "bool \<Rightarrow> char \<Rightarrow> char \<Rightarrow> bool" where
  "same_char nocase a c = (if nocase then c_tolower a = c_tolower c else a = c)"

text \<open>The loop over the items of a class; \<open>s0\<close> is what reading \<open>string[0]\<close> gives.\<close>

function class_loop :: "bool \<Rightarrow> string \<Rightarrow> char option \<Rightarrow> nat \<Rightarrow> int \<Rightarrow> bool \<Rightarrow> (nat \<times> int \<times> bool) option" where
  "class_loop nocase p s0 i patternLen matched = do {
     a \<leftarrow> arr_get p i;
     if a = CHR 0x5C \<and> patternLen \<ge> 2 then do {
       b \<leftarrow> arr_get p (Suc i);
       c \<leftarrow> s0;
       class_loop nocase p s0 (i + 2) (patternLen - 2) (matched \<or> b = c)
     }
     else if a = CHR '']'' then Some (i, patternLen, matched)
     else if patternLen = 0 then Some (i - 1, patternLen + 1, matched)
     else do {
       b \<leftarrow> arr_get p (Suc i);
       if b = CHR ''-'' \<and> patternLen \<ge> 3 then do {
         b \<leftarrow> arr_get p (i + 2);
         c \<leftarrow> s0;
         class_loop nocase p s0 (i + 3) (patternLen - 3) (matched \<or> class_range nocase a b c)
       }
       else do {
         c \<leftarrow> s0;
         class_loop nocase p s0 (Suc i) (patternLen - 1) (matched \<or> same_char nocase a c)
       }
     }
   }"
  by pat_completeness auto
termination
  by (relation "measure (\<lambda>(nocase, p, s0, i, n, m). length p - i)") (auto dest: arr_get_SomeD)

declare skip_stars.simps [simp del] class_loop.simps [simp del]

text \<open>The cases of the \<open>switch\<close> but the star: \<open>None\<close> inside is \<open>no match\<close>, otherwise the string
  has been advanced by one, and the position in the pattern is that of the last character used.\<close>

definition glob_case :: "bool \<Rightarrow> string \<Rightarrow> char option \<Rightarrow> nat \<Rightarrow> int \<Rightarrow> nat \<Rightarrow> (nat \<times> int) option option" where
  "glob_case nocase p s0 i patternLen stringLen = do {
     a \<leftarrow> arr_get p i;
     if a = CHR ''?'' then Some (if stringLen = 0 then None else Some (i, patternLen))
     else if a = CHR ''['' then do {
       let (i, patternLen) = (Suc i, patternLen - 1);
       b \<leftarrow> arr_get p i;
       let negated = (b = CHR ''^'');
       let (i, patternLen) = (if negated then (Suc i, patternLen - 1) else (i, patternLen));
       (i, patternLen, matched) \<leftarrow> class_loop nocase p s0 i patternLen False;
       Some (if matched = negated then None else Some (i, patternLen))
     }
     else do {
       let (i, patternLen) = (if a = CHR 0x5C \<and> patternLen \<ge> 2 then (Suc i, patternLen - 1) else (i, patternLen));
       a \<leftarrow> arr_get p i;
       c \<leftarrow> s0;
       Some (if same_char nocase a c then Some (i, patternLen) else None)
     }
   }"

lemma skip_stars_later: "skip_stars p i n = Some (j, m) \<Longrightarrow> i \<le> j"
proof (induction p i n rule: skip_stars.induct)
  case (1 p i n)
  from 1(2) show ?case by (subst (asm) skip_stars.simps) (fastforce split: bind_splits if_splits dest: 1(1))
qed

lemma class_loop_later: "class_loop nocase p s0 i n m = Some (j, n', m') \<Longrightarrow> i \<le> Suc j"
proof (induction nocase p s0 i n m rule: class_loop.induct)
  case (1 nocase p s0 i n m)
  from 1(4) show ?case
    by (subst (asm) class_loop.simps) (auto split: bind_splits if_splits dest: 1(1-3))
qed

lemma glob_case_later: "glob_case nocase p s0 i n k = Some (Some (j, m)) \<Longrightarrow> i \<le> j"
  by (auto simp: glob_case_def Let_def split: bind_splits if_splits dest!: class_loop_later)

text \<open>\<open>star_loop\<close> is the inner loop of a star, which tries the rest of the pattern at every position of
  the string. \<open>stringLen\<close> never goes below 0, since both loops end there.\<close>

function m_stringmatchlen :: "string \<Rightarrow> nat \<Rightarrow> int \<Rightarrow> string \<Rightarrow> nat \<Rightarrow> nat \<Rightarrow> bool \<Rightarrow> bool option"
  and star_loop :: "string \<Rightarrow> nat \<Rightarrow> int \<Rightarrow> string \<Rightarrow> nat \<Rightarrow> nat \<Rightarrow> bool \<Rightarrow> bool option" where
  "m_stringmatchlen pattern i patternLen string j stringLen nocase =
     (if patternLen = 0 \<or> stringLen = 0 then Some (patternLen = 0 \<and> stringLen = 0)
      else do {
        a \<leftarrow> arr_get pattern i;
        if a = CHR ''*'' then do {
          (i', patternLen) \<leftarrow> skip_stars pattern (Suc i) patternLen;
          if patternLen = 1 then Some True
          else star_loop pattern i' (patternLen - 1) string j stringLen nocase
        }
        else do {
          r \<leftarrow> glob_case nocase pattern (arr_get string j) i patternLen stringLen;
          (case r of
             None \<Rightarrow> Some False
           | Some (i', patternLen) \<Rightarrow>
               if stringLen - 1 = 0 then do {
                 (i', patternLen) \<leftarrow> skip_stars pattern (Suc i') (patternLen - 1);
                 Some (patternLen = 0)
               }
               else m_stringmatchlen pattern (Suc i') (patternLen - 1) string (Suc j) (stringLen - 1) nocase)
        }
      })"
| "star_loop pattern i patternLen string j stringLen nocase =
     (if stringLen = 0 then Some False
      else do {
        r \<leftarrow> m_stringmatchlen pattern i patternLen string j stringLen nocase;
        if r then Some True
        else star_loop pattern i patternLen string (Suc j) (stringLen - 1) nocase
      })"
  by pat_completeness auto
termination
  by (relation "measures [\<lambda>x. case x of Inl (p, i, n, s, j, k, nc) \<Rightarrow> 2 * (length p - i) | Inr (p, i, n, s, j, k, nc) \<Rightarrow> Suc (2 * (length p - i)),
      \<lambda>x. case x of Inl (p, i, n, s, j, k, nc) \<Rightarrow> k | Inr (p, i, n, s, j, k, nc) \<Rightarrow> k]")
    (auto dest!: arr_get_SomeD glob_case_later skip_stars_later)

declare m_stringmatchlen.simps [simp del] star_loop.simps [simp del]

text \<open>A length that does not fit into an \<open>int\<close> is left undefined.\<close>

definition m_stringmatch :: "string \<Rightarrow> string \<Rightarrow> bool \<Rightarrow> bool option" where
  "m_stringmatch pattern string nocase = do {
     c_assert (int (strlen pattern) \<le> INT_MAX \<and> int (strlen string) \<le> INT_MAX);
     m_stringmatchlen pattern 0 (int (strlen pattern)) string 0 (strlen string) nocase
   }"

section \<open>The reference\<close>

text \<open>A pattern is a list of stars and of tests of one character. The items of a class are read up to the
  closing bracket or the end of the pattern.\<close>

datatype glob = Star | Test "char \<Rightarrow> bool"

fun class_items :: "bool \<Rightarrow> string \<Rightarrow> (char \<Rightarrow> bool) \<times> string" where
  "class_items nocase [] = ((\<lambda>c. False), [])"
| "class_items nocase (a # rest) =
     (if a = CHR '']'' then ((\<lambda>c. False), rest)
      else case rest of
        b # more \<Rightarrow>
          if a = CHR 0x5C then (case class_items nocase more of (f, r) \<Rightarrow> ((\<lambda>c. b = c \<or> f c), r))
          else (case more of
              d # more' \<Rightarrow>
                if b = CHR ''-'' then (case class_items nocase more' of (f, r) \<Rightarrow> ((\<lambda>c. class_range nocase a d c \<or> f c), r))
                else (case class_items nocase rest of (f, r) \<Rightarrow> ((\<lambda>c. same_char nocase a c \<or> f c), r))
            | [] \<Rightarrow> (case class_items nocase rest of (f, r) \<Rightarrow> ((\<lambda>c. same_char nocase a c \<or> f c), r)))
      | [] \<Rightarrow> ((\<lambda>c. same_char nocase a c), []))"

fun glob_matches :: "glob list \<Rightarrow> string \<Rightarrow> bool" where
  "glob_matches [] s \<longleftrightarrow> s = []"
| "glob_matches (Test f # g) s \<longleftrightarrow> (case s of [] \<Rightarrow> False | c # s \<Rightarrow> f c \<and> glob_matches g s)"
| "glob_matches (Star # g) s \<longleftrightarrow> (\<exists>k\<le>length s. glob_matches g (drop k s))"

lemma class_items_shorter: "length (snd (class_items nocase r)) \<le> length r"
proof (induction nocase r rule: class_items.induct)
  case (2 nocase a rest)
  show ?case
  proof (cases "a = CHR '']''")
    case False
    note ih = 2 [OF False]
    show ?thesis
    proof (cases rest)
      case (Cons b more)
      show ?thesis
      proof (cases more)
        case Nil
        then show ?thesis using False Cons ih by (auto split: prod.splits)
      next
        case (Cons d more')
        note c = \<open>rest = b # more\<close> Cons
        show ?thesis using False c ih(1) [OF c(1)] ih(3) [OF c(1) _ c(2)] ih(4) [OF c(1) _ c(2)]
          by (subst class_items.simps(2), cases "a = CHR 0x5C"; cases "b = CHR ''-''")
            (auto simp del: class_items.simps simp: case_prod_unfold le_SucI)
      qed
    qed (simp add: False)
  qed simp
qed simp

fun negated_class :: "string \<Rightarrow> bool \<times> string" where
  "negated_class [] = (False, [])"
| "negated_class (b # r) = (if b = CHR ''^'' then (True, r) else (False, b # r))"

lemma class_rest_shorter: "length (snd (class_items nocase (snd (negated_class r)))) \<le> length r"
  by (rule order_trans [OF class_items_shorter]) (cases r; simp)

function glob_of :: "bool \<Rightarrow> string \<Rightarrow> glob list" where
  "glob_of nocase [] = []"
| "glob_of nocase (a # r) =
     (if a = CHR ''*'' then Star # glob_of nocase r
      else if a = CHR ''?'' then Test (\<lambda>c. True) # glob_of nocase r
      else if a = CHR ''['' then
        Test (\<lambda>c. fst (class_items nocase (snd (negated_class r))) c \<noteq> fst (negated_class r))
          # glob_of nocase (snd (class_items nocase (snd (negated_class r))))
      else if a = CHR 0x5C \<and> r \<noteq> [] then Test (same_char nocase (hd r)) # glob_of nocase (tl r)
      else Test (same_char nocase a) # glob_of nocase r)"
  by pat_completeness auto
termination
  by (relation "measure (\<lambda>(nocase, r). length r)") (auto simp: less_Suc_eq_le class_rest_shorter)

lemma glob_of_Nil_matches: "glob_matches (glob_of nocase r) [] \<longleftrightarrow> dropWhile (\<lambda>c. c = CHR ''*'') r = []"
  by (induction nocase r rule: glob_of.induct) (auto simp del: glob_of.simps(2) simp: glob_of.simps(2))

lemma star_star: "glob_matches (Star # Star # g) s = glob_matches (Star # g) s"
proof
  assume "glob_matches (Star # Star # g) s"
  then obtain k l where "k \<le> length s" "l \<le> length s - k" "glob_matches g (drop (k + l) s)" by (auto simp: add.commute)
  then show "glob_matches (Star # g) s" by (auto intro!: exI [of _ "k + l"])
next
  assume "glob_matches (Star # g) s"
  then show "glob_matches (Star # Star # g) s"
    by (subst glob_matches.simps(3) [of "Star # g"]) (rule exI [of _ 0], simp)
qed

lemma star_dropWhile:
  "glob_matches (Star # glob_of nocase r) s = glob_matches (Star # glob_of nocase (dropWhile (\<lambda>c. c = CHR ''*'') r)) s"
proof (induction r)
  case (Cons a r)
  then show ?case by (cases "a = CHR ''*''") (simp_all del: glob_matches.simps add: star_star)
qed simp

text \<open>A pattern that does not begin with a star begins with a test.\<close>

lemma glob_of_test: "a \<noteq> CHR ''*'' \<Longrightarrow> \<exists>f g. glob_of nocase (a # r) = Test f # g"
  by auto

section \<open>The loops in a terminated buffer\<close>

text \<open>The buffer of a pattern, and what reading it at a position gives.\<close>

abbreviation terminated :: "string \<Rightarrow> string" where
  "terminated s \<equiv> s @ [CHR 0x00]"

lemma get_terminated:
  "i \<le> length s \<Longrightarrow> arr_get (terminated s) i = Some (case drop i s of [] \<Rightarrow> CHR 0x00 | c # r \<Rightarrow> c)"
  by (cases "i = length s") (simp_all add: arr_get_def nth_append Cons_nth_drop_Suc [symmetric])

lemma drop_step: "drop i s = c # r \<Longrightarrow> i < length s \<and> drop (Suc i) s = r"
  by (metis drop_eq_Nil2 drop_Suc list.distinct(1) list.sel(3) not_le tl_drop)

lemma skip_stars_terminated:
  assumes "i \<le> length p"
  shows "\<exists>j. skip_stars (terminated p) i n = Some (j, n - int (j - i)) \<and> i \<le> j \<and> j \<le> length p \<and>
    drop j p = dropWhile (\<lambda>c. c = CHR ''*'') (drop i p)"
  using assms
proof (induction "drop i p" arbitrary: i n)
  case Nil
  then show ?case by (subst skip_stars.simps) (simp add: get_terminated)
next
  case (Cons a r)
  note d = drop_step [OF Cons.hyps(2) [symmetric]]
  show ?case
  proof (cases "a = CHR ''*''")
    case True
    obtain j where j: "skip_stars (terminated p) (Suc i) (n - 1) = Some (j, n - 1 - int (j - Suc i))" "Suc i \<le> j" "j \<le> length p"
      "drop j p = dropWhile (\<lambda>c. c = CHR ''*'') r" using Cons.hyps(1) [of "Suc i" "n - 1"] d by auto
    then have "n - 1 - int (j - Suc i) = n - int (j - i)" by simp
    then show ?thesis using j Cons.hyps(2) [symmetric] True Cons.prems
      by (subst skip_stars.simps) (auto simp: get_terminated)
  next
    case False
    then show ?thesis using Cons.hyps(2) [symmetric] Cons.prems by (subst skip_stars.simps) (simp add: get_terminated)
  qed
qed

lemma get_after:
  "drop i s = c # r \<Longrightarrow> arr_get (terminated s) (Suc i) = Some (case r of [] \<Rightarrow> CHR 0x00 | b # r \<Rightarrow> b)"
  using get_terminated [of "Suc i" s] drop_step [of i s c r] by simp

lemma left_after: "drop i s = c # r \<Longrightarrow> length s - i = Suc (length r)"
  by (metis length_drop length_Cons)

lemma class_loop_end:
  "p \<noteq> [] \<Longrightarrow> class_loop nocase (terminated p) s0 (length p) 0 m = Some (length p - 1, 1, m)"
  by (subst class_loop.simps) (simp add: get_terminated)

text \<open>One round, by the item that comes next.\<close>

lemma class_loop_steps:
  assumes "drop i p = a # rest" and "CHR 0x00 \<notin> set p" and "n = int (Suc (length rest))" and "a \<noteq> CHR '']''"
  shows "\<And>b more. a = CHR 0x5C \<Longrightarrow> rest = b # more \<Longrightarrow> class_loop nocase (terminated p) (Some c) i n m =
      class_loop nocase (terminated p) (Some c) (i + 2) (int (length more)) (m \<or> b = c)"
    "\<And>d more'. a \<noteq> CHR 0x5C \<Longrightarrow> rest = CHR ''-'' # d # more' \<Longrightarrow> class_loop nocase (terminated p) (Some c) i n m =
      class_loop nocase (terminated p) (Some c) (i + 3) (int (length more')) (m \<or> class_range nocase a d c)"
    "a \<noteq> CHR 0x5C \<or> rest = [] \<Longrightarrow> \<forall>d more'. rest \<noteq> CHR ''-'' # d # more' \<Longrightarrow> class_loop nocase (terminated p) (Some c) i n m =
      class_loop nocase (terminated p) (Some c) (Suc i) (int (length rest)) (m \<or> same_char nocase a c)"
proof -
  note d = drop_step [OF assms(1)] and getS = get_after [OF assms(1)]
  have get: "arr_get (terminated p) i = Some a" using get_terminated [of i p] d assms(1) by simp
  have getS2: "arr_get (terminated p) (i + 2) = Some (case more of [] \<Rightarrow> CHR 0x00 | d # r \<Rightarrow> d)" if "rest = b # more" for b more
    using get_after [OF trans [OF conjunct2 [OF d] that]] by simp
  note simps = get getS assms(3,4)
  show "class_loop nocase (terminated p) (Some c) i n m =
      class_loop nocase (terminated p) (Some c) (i + 2) (int (length more)) (m \<or> b = c)"
    if "a = CHR 0x5C" "rest = b # more" for b more
    by (subst class_loop.simps) (use simps that in simp)
  show "class_loop nocase (terminated p) (Some c) i n m =
      class_loop nocase (terminated p) (Some c) (i + 3) (int (length more')) (m \<or> class_range nocase a d c)"
    if "a \<noteq> CHR 0x5C" "rest = CHR ''-'' # d # more'" for d more'
    by (subst class_loop.simps) (use simps that getS2 [OF that(2)] in simp)
  show "class_loop nocase (terminated p) (Some c) i n m =
      class_loop nocase (terminated p) (Some c) (Suc i) (int (length rest)) (m \<or> same_char nocase a c)"
    if "a \<noteq> CHR 0x5C \<or> rest = []" "\<forall>d more'. rest \<noteq> CHR ''-'' # d # more'"
    by (subst class_loop.simps) (use simps that in \<open>cases rest; cases "tl rest"; auto\<close>)
qed

lemma class_items_single:
  assumes "a \<noteq> CHR '']''" and "a \<noteq> CHR 0x5C \<or> rest = []" and "\<forall>d more'. rest \<noteq> CHR ''-'' # d # more'"
  shows "class_items nocase (a # rest) = ((\<lambda>c. same_char nocase a c \<or> fst (class_items nocase rest) c), snd (class_items nocase rest))"
  using assms by (cases rest; cases "tl rest") (auto split: prod.splits)

lemma class_loop_terminated:
  assumes "drop i p = r" and "0 < i" and "i \<le> length p" and "CHR 0x00 \<notin> set p" and "n = int (length r)"
  shows "\<exists>j. class_loop nocase (terminated p) (Some c) i n m =
      Some (j, int (length p - j), m \<or> fst (class_items nocase r) c) \<and>
    j < length p \<and> drop (Suc j) p = snd (class_items nocase r)"
  using assms
proof (induction r arbitrary: i n m rule: length_induct)
  case (1 r)
  show ?case
  proof (cases r)
    case Nil
    then have "i = length p" "p \<noteq> []" "n = 0" using 1(2-6) by auto
    then show ?thesis using class_loop_end [of p nocase "Some c" m] Nil by (cases p) auto
  next
    case (Cons a rest)
    note drop = 1(2) [unfolded Cons] and d = drop_step [OF 1(2) [unfolded Cons]]
    have n: "n = int (Suc (length rest))" using 1(6) Cons by simp
    note IH = 1(1) [rule_format, OF _ _ _ _ 1(5) refl]
    note steps = class_loop_steps [OF drop 1(5) n]
    consider "a = CHR '']''" | b more where "a \<noteq> CHR '']''" "a = CHR 0x5C" "rest = b # more"
      | e more' where "a \<noteq> CHR '']''" "a \<noteq> CHR 0x5C" "rest = CHR ''-'' # e # more'"
      | "a \<noteq> CHR '']''" "a \<noteq> CHR 0x5C \<or> rest = []" "\<forall>d more'. rest \<noteq> CHR ''-'' # d # more'"
      by (cases rest) auto
    then show ?thesis
    proof cases
      case 1
      then show ?thesis using get_terminated [of i p] drop left_after [OF drop] d n Cons by (subst class_loop.simps) auto
    next
      case 2
      have "i + 2 \<le> length p" "drop (i + 2) p = more" using d drop_step [of "Suc i" p b more] 2(3) by auto
      then show ?thesis using IH [of more "i + 2" "m \<or> b = c"] steps(1) [OF 2] Cons 2 by (auto split: prod.splits)
    next
      case 3
      have "i + 3 \<le> length p" "drop (i + 3) p = more'"
        using d drop_step [of "Suc i" p "CHR ''-''" "e # more'"] drop_step [of "Suc (Suc i)" p e more'] 3(3)
        by (auto simp: numeral_3_eq_3)
      then show ?thesis using IH [of more' "i + 3" "m \<or> class_range nocase a e c"] steps(2) [OF 3] Cons 3
        by (auto split: prod.splits)
    next
      case 4
      obtain j where "class_loop nocase (terminated p) (Some c) (Suc i) (int (length rest)) (m \<or> same_char nocase a c) =
          Some (j, int (length p - j), (m \<or> same_char nocase a c) \<or> fst (class_items nocase rest) c)"
        "j < length p" "drop (Suc j) p = snd (class_items nocase rest)"
        using IH [of rest "Suc i" "m \<or> same_char nocase a c"] d Cons by auto
      then show ?thesis unfolding Cons steps(3) [OF 4] class_items_single [OF 4] by (simp add: disj_assoc)
    qed
  qed
qed

lemma glob_case_terminated:
  assumes i: "drop i p = a # r" and star: "a \<noteq> CHR ''*''" and nul: "CHR 0x00 \<notin> set p" and k: "0 < k"
  shows "\<exists>f j. glob_of nocase (a # r) = Test f # glob_of nocase (drop (Suc j) p) \<and> j < length p \<and>
    glob_case nocase (terminated p) (Some c) i (int (Suc (length r))) k =
      Some (if f c then Some (j, int (length p - j)) else None)"
proof -
  note d = drop_step [OF i] and getS = get_after [OF i]
  have get: "arr_get (terminated p) i = Some a" using get_terminated [of i p] d i by simp
  consider "a = CHR ''?''" | "a = CHR ''[''" | b r' where "a = CHR 0x5C" "r = b # r'"
    | "a \<noteq> CHR ''?''" "a \<noteq> CHR ''[''" "a \<noteq> CHR 0x5C \<or> r = []" by (cases r) auto
  then show ?thesis
  proof cases
    case 1
    then show ?thesis using get k d by (auto simp: glob_case_def intro!: exI [of _ "\<lambda>c. True"] exI [of _ i])
  next
    case 2
    define i' where "i' = (if fst (negated_class r) then Suc (Suc i) else Suc i)"
    have i': "drop i' p = snd (negated_class r)" "0 < i'" "i' \<le> length p"
      using d drop_step [of "Suc i" p] by (cases r; auto simp: i'_def)+
    obtain j where j: "class_loop nocase (terminated p) (Some c) i' (int (length (snd (negated_class r)))) False =
        Some (j, int (length p - j), fst (class_items nocase (snd (negated_class r))) c)" "j < length p"
      "drop (Suc j) p = snd (class_items nocase (snd (negated_class r)))"
      using class_loop_terminated [OF i' nul refl, of nocase c False] by auto
    have n: "(if fst (negated_class r) then int (Suc (length r)) - 1 - 1 else int (Suc (length r)) - 1) = int (length (snd (negated_class r)))"
      "(case r of [] \<Rightarrow> CHR 0x00 | b # r \<Rightarrow> b) = CHR ''^'' \<longleftrightarrow> fst (negated_class r)"
      by (cases r; simp)+
    have "glob_case nocase (terminated p) (Some c) i (int (Suc (length r))) k =
        Some (if fst (class_items nocase (snd (negated_class r))) c = fst (negated_class r) then None else Some (j, int (length p - j)))"
      using j(1) n(1) unfolding i'_def
      by (cases "fst (negated_class r)") (simp_all add: glob_case_def get getS 2 n(2))
    then show ?thesis using 2 j(2,3)
      by (intro exI [of _ "\<lambda>c. fst (class_items nocase (snd (negated_class r))) c \<noteq> fst (negated_class r)"] exI [of _ j]) auto
  next
    case 3
    have "arr_get (terminated p) (Suc i) = Some b" using getS 3 by simp
    then have "glob_case nocase (terminated p) (Some c) i (int (Suc (length r))) k =
        Some (if same_char nocase b c then Some (Suc i, int (length p - Suc i)) else None)"
      using get 3 drop_step [of "Suc i" p b r'] d left_after [of "Suc i" p b r'] by (simp add: glob_case_def)
    moreover have "drop (Suc (Suc i)) p = r'" "Suc i < length p" using drop_step [of "Suc i" p b r'] d 3 by auto
    ultimately show ?thesis using 3 by (auto intro!: exI [of _ "same_char nocase b"] exI [of _ "Suc i"])
  next
    case 4
    then have "glob_case nocase (terminated p) (Some c) i (int (Suc (length r))) k =
        Some (if same_char nocase a c then Some (i, int (length p - i)) else None)"
      using get left_after [OF i] by (auto simp: glob_case_def)
    then show ?thesis using 4 star d by (auto intro!: exI [of _ "same_char nocase a"] exI [of _ i])
  qed
qed

section \<open>Properties\<close>

text \<open>The inner loop of a star, when the rest of the pattern is matched as it should be.\<close>

lemma next_or_later: "j < n \<Longrightarrow> (\<exists>k\<ge>j. k < n \<and> Q k) \<longleftrightarrow> Q j \<or> (\<exists>k\<ge>Suc j. k < (n :: nat) \<and> Q k)"
  by (metis Suc_leD Suc_leI le_neq_implies_less order_refl)

lemma star_loop_terminated:
  assumes "\<And>j. j < length s \<Longrightarrow> m_stringmatchlen p i n (terminated s) j (length s - j) nocase = Some (glob_matches g (drop j s))"
    and "j \<le> length s"
  shows "star_loop p i n (terminated s) j (length s - j) nocase = Some (\<exists>k. j \<le> k \<and> k < length s \<and> glob_matches g (drop k s))"
  using assms(2)
proof (induction "length s - j" arbitrary: j)
  case 0
  then show ?case by (subst star_loop.simps) auto
next
  case (Suc m)
  then have j: "j < length s" by simp
  have n: "star_loop p i n (terminated s) (Suc j) (length s - j - 1) nocase =
      Some (\<exists>k. Suc j \<le> k \<and> k < length s \<and> glob_matches g (drop k s))"
    using Suc.hyps(1) [of "Suc j"] Suc.hyps(2) j by simp
  show ?case unfolding next_or_later [OF j] using assms(1) [OF j] n j by (subst star_loop.simps) simp
qed

lemma star_matches:
  assumes "g = Test f # g'" and "j < length s"
  shows "glob_matches (Star # g) (drop j s) \<longleftrightarrow> (\<exists>k\<ge>j. k < length s \<and> glob_matches g (drop k s))"
proof
  assume "glob_matches (Star # g) (drop j s)"
  then obtain k where k: "k \<le> length s - j" "glob_matches g (drop (k + j) s)" by auto
  moreover have "k + j < length s" using k assms by (cases "k + j = length s") auto
  ultimately show "\<exists>k\<ge>j. k < length s \<and> glob_matches g (drop k s)" by (intro exI [of _ "k + j"]) simp
next
  assume "\<exists>k\<ge>j. k < length s \<and> glob_matches g (drop k s)"
  then obtain k where "j \<le> k" "k < length s" "glob_matches g (drop k s)" by blast
  then show "glob_matches (Star # g) (drop j s)" by (auto intro!: exI [of _ "k - j"])
qed

text \<open>One round of the matcher.\<close>

lemma star_round:
  assumes "arr_get p i = Some (CHR ''*'')" and "n \<noteq> 0" and "k \<noteq> 0" and "skip_stars p (Suc i) n = Some (i', m)"
  shows "m_stringmatchlen p i n s j k nocase = (if m = 1 then Some True else star_loop p i' (m - 1) s j k nocase)"
  using assms by (subst m_stringmatchlen.simps) simp

lemma test_round:
  assumes "arr_get p i = Some a" and "a \<noteq> CHR ''*''" and "n \<noteq> 0" and "k \<noteq> 0"
    and "glob_case nocase p (arr_get s j) i n k = Some (if b then Some (i', m) else None)"
    and "skip_stars p (Suc i') (m - 1) = Some (l, rest)"
  shows "m_stringmatchlen p i n s j k nocase =
    (if \<not> b then Some False else if k - 1 = 0 then Some (rest = 0)
     else m_stringmatchlen p (Suc i') (m - 1) s (Suc j) (k - 1) nocase)"
  using assms by (subst m_stringmatchlen.simps) simp

text \<open>At the positions \<open>i\<close> and \<open>j\<close> the code decides as the reference does.\<close>

definition decides :: "string \<Rightarrow> string \<Rightarrow> bool \<Rightarrow> nat \<Rightarrow> nat \<Rightarrow> bool" where
  "decides p s nocase i j \<longleftrightarrow>
     m_stringmatchlen (terminated p) i (int (length p - i)) (terminated s) j (length s - j) nocase =
       Some (glob_matches (glob_of nocase (drop i p)) (drop j s))"

lemma decides_star:
  assumes i: "drop i p = CHR ''*'' # r" and j: "j < length s"
    and IH: "\<And>i' j. i < i' \<Longrightarrow> i' \<le> length p \<Longrightarrow> j < length s \<Longrightarrow> decides p s nocase i' j"
  shows "decides p s nocase i j"
proof -
  note d = drop_step [OF i] and len = left_after [OF i]
  have get: "arr_get (terminated p) i = Some (CHR ''*'')" using get_terminated [of i p] d i by simp
  obtain i' where i': "skip_stars (terminated p) (Suc i) (int (length p - i)) = Some (i', int (length p - i) - int (i' - Suc i))"
    "Suc i \<le> i'" "i' \<le> length p" "drop i' p = dropWhile (\<lambda>c. c = CHR ''*'') r"
    using skip_stars_terminated [of "Suc i" p "int (length p - i)"] d by auto
  have n: "int (length p - i) - int (i' - Suc i) = int (length p - i') + 1" using i'(2,3) by linarith
  have m: "glob_matches (glob_of nocase (drop i p)) (drop j s) = glob_matches (Star # glob_of nocase (drop i' p)) (drop j s)"
    unfolding i'(4) star_dropWhile [symmetric] by (simp add: i)
  have run: "m_stringmatchlen (terminated p) i (int (length p - i)) (terminated s) j (length s - j) nocase =
      (if i' = length p then Some True else star_loop (terminated p) i' (int (length p - i')) (terminated s) j (length s - j) nocase)"
    using star_round [OF get _ _ i'(1), of "length s - j" "terminated s" j nocase] i'(3) d j unfolding n by simp
  show ?thesis
  proof (cases "drop i' p")
    case Nil
    have "glob_matches [Star] (drop j s)" by (simp only: glob_matches.simps) (rule exI [of _ "length s - j"], simp)
    moreover have "i' = length p" using Nil i'(3) by simp
    ultimately show ?thesis unfolding decides_def run m Nil by (simp only: if_True simp_thms glob_of.simps)
  next
    case c: (Cons b r')
    have "dropWhile (\<lambda>c. c = CHR ''*'') r = b # r'" using i'(4) c by (rule subst)
    then have "b \<noteq> CHR ''*''" by (rule conjunct2 [OF iffD1 [OF dropWhile_eq_Cons_conv]])
    then obtain f g where g: "glob_of nocase (drop i' p) = Test f # g" using glob_of_test [of b nocase r'] c by auto
    have "star_loop (terminated p) i' (int (length p - i')) (terminated s) j (length s - j) nocase =
        Some (\<exists>k\<ge>j. k < length s \<and> glob_matches (glob_of nocase (drop i' p)) (drop k s))"
      by (rule star_loop_terminated) (use IH [of i'] i'(2,3) j in \<open>simp_all add: decides_def\<close>)
    then show ?thesis using drop_step [OF c] unfolding decides_def run m star_matches [OF g j] by simp
  qed
qed

lemma decides_test:
  assumes i: "drop i p = a # r" and star: "a \<noteq> CHR ''*''" and nul: "CHR 0x00 \<notin> set p" and j: "j < length s"
    and IH: "\<And>i' j. i < i' \<Longrightarrow> i' \<le> length p \<Longrightarrow> j < length s \<Longrightarrow> decides p s nocase i' j"
  shows "decides p s nocase i j"
proof -
  note d = drop_step [OF i] and len = left_after [OF i]
  have s0: "arr_get (terminated s) j = Some (s ! j)" "drop j s = s ! j # drop (Suc j) s"
    using j by (simp_all add: arr_get_def nth_append Cons_nth_drop_Suc)
  have get: "arr_get (terminated p) i = Some a" using get_terminated [of i p] d i by simp
  have ns: "0 < length s - j" using j by simp
  obtain f i' where c: "glob_of nocase (a # r) = Test f # glob_of nocase (drop (Suc i') p)" "i' < length p"
    "glob_case nocase (terminated p) (Some (s ! j)) i (int (Suc (length r))) (length s - j) =
      Some (if f (s ! j) then Some (i', int (length p - i')) else None)"
    using glob_case_terminated [OF i star nul ns, of nocase "s ! j"] by blast
  have later: "i \<le> i'" if "f (s ! j)" using c(3) that glob_case_later by fastforce
  obtain k where k: "skip_stars (terminated p) (Suc i') (int (length p - Suc i')) = Some (k, int (length p - Suc i') - int (k - Suc i'))"
    "Suc i' \<le> k" "k \<le> length p" "drop k p = dropWhile (\<lambda>c. c = CHR ''*'') (drop (Suc i') p)"
    using skip_stars_terminated [of "Suc i'" p "int (length p - Suc i')"] c(2) by auto
  have e: "int (length p - i') - 1 = int (length p - Suc i')"
    "(int (length p - Suc i') - int (k - Suc i') = 0) = (drop k p = [])" using c(2) k(2,3) by auto
  have run: "m_stringmatchlen (terminated p) i (int (length p - i)) (terminated s) j (length s - j) nocase =
      (if \<not> f (s ! j) then Some False
       else if length s - j - 1 = 0 then Some (drop k p = [])
       else m_stringmatchlen (terminated p) (Suc i') (int (length p - Suc i')) (terminated s) (Suc j) (length s - Suc j) nocase)"
    using test_round [OF get star _ _ c(3) [folded s0(1) len] k(1) [folded e(1)]] ns d unfolding e by simp
  have "decides p s nocase (Suc i') (Suc j)" if "f (s ! j)" "length s - j - 1 \<noteq> 0"
    using IH [of "Suc i'" "Suc j"] later c(2) that by auto
  then show ?thesis using glob_of_Nil_matches [of nocase "drop (Suc i') p"] k(4) ns
    unfolding decides_def run i c(1) s0(2) by (cases "length s - j - 1 = 0") auto
qed

lemma decides_all:
  assumes "CHR 0x00 \<notin> set p" and "i \<le> length p" and "j < length s"
  shows "decides p s nocase i j"
  using assms(2,3)
proof (induction "length p - i" arbitrary: i j rule: less_induct)
  case less
  have IH: "decides p s nocase i' j'" if "i < i'" "i' \<le> length p" "j' < length s" for i' j'
    using less.hyps [of i' j'] that by simp
  show ?case
  proof (cases "drop i p")
    case Nil
    then show ?thesis using less.prems unfolding decides_def by (subst m_stringmatchlen.simps) simp
  next
    case (Cons a r)
    then show ?thesis using decides_star [OF _ less.prems(2) IH] decides_test [OF Cons _ assms(1) less.prems(2) IH]
      by (cases "a = CHR ''*''") auto
  qed
qed

text \<open>The matcher reads neither buffer outside its bounds and ends, and decides as the reference does for every
  string but the empty one, which only the empty pattern matches.\<close>

theorem m_stringmatch_decides:
  assumes "CHR 0x00 \<notin> set p" and "CHR 0x00 \<notin> set s" and "int (length p) \<le> INT_MAX" and "int (length s) \<le> INT_MAX"
  shows "m_stringmatch (terminated p) (terminated s) nocase =
    Some (if s = [] then p = [] else glob_matches (glob_of nocase p) s)"
proof -
  have l: "strlen (terminated p) = length p" "strlen (terminated s) = length s"
    using assms(1,2) by (simp_all add: strlen_def cstr_def takeWhile_append)
  show ?thesis
  proof (cases "s = []")
    case True
    then show ?thesis using assms(3) l by (simp add: m_stringmatch_def m_stringmatchlen.simps)
  next
    case False
    then show ?thesis using decides_all [OF assms(1), of 0 0 s nocase] assms(3,4) l by (simp add: m_stringmatch_def decides_def)
  qed
qed

lemma m_stringmatch_decides_witness:
  "m_stringmatch (terminated ''h[a-c]*[^x]?'') (terminated ''Hbllo'') True = Some True"
proof -
  have t: "c_tolower CHR ''h'' = CHR ''h''" "c_tolower CHR ''H'' = CHR ''h''" "c_tolower CHR ''a'' = CHR ''a''"
    "c_tolower CHR ''b'' = CHR ''b''" "c_tolower CHR ''c'' = CHR ''c''" "c_tolower CHR ''x'' = CHR ''x''" "c_tolower CHR ''l'' = CHR ''l''"
    by code_simp+
  have c: "schar CHR ''a'' = 97" "schar CHR ''b'' = 98" "schar CHR ''c'' = 99" by code_simp+
  have "glob_matches (glob_of True ''h[a-c]*[^x]?'') ''Hbllo''"
    by (simp add: same_char_def class_range_def t c) (rule exI [of _ 1], simp add: t)
  then show ?thesis using m_stringmatch_decides [of "''h[a-c]*[^x]?''" "''Hbllo''" True] by (simp add: INT_MAX_def)
qed

text \<open>A star does not match the empty string.\<close>

lemma star_empty: "m_stringmatch (terminated ''*'') (terminated '''') False = Some False"
  by (simp add: m_stringmatch_def m_stringmatchlen.simps strlen_def cstr_def INT_MAX_def)

end
