(* ===== verification/Conversions.thy ===== *)
theory Conversions
  imports Complex_Main CpuAffinity SendProps
begin

text \<open>
  The conversions of \<open>dep/util.c\<close> that the module itself does not call: amounts of memory, and the texts
  of floating-point numbers. The functions of the C library that print and read such numbers
  are parameters.
\<close>

section \<open>Amounts of memory\<close>

definition memtoll_unit :: "string \<Rightarrow> int option" where
  "memtoll_unit u =
     (if u = [] \<or> strcasecmp_eq u ''b'' then Some 1
      else if strcasecmp_eq u ''k'' then Some 1000
      else if strcasecmp_eq u ''kb'' then Some 1024
      else if strcasecmp_eq u ''m'' then Some (1000 * 1000)
      else if strcasecmp_eq u ''mb'' then Some (1024 * 1024)
      else if strcasecmp_eq u ''g'' then Some (1000 * 1000 * 1000)
      else if strcasecmp_eq u ''gb'' then Some (1024 * 1024 * 1024)
      else None)"

text \<open>\<open>strtoll(s, &endptr, 10)\<close> of an optional minus sign and digits: the value is cut to a \<open>long long\<close>, and
  without a digit it is 0 and the end is the start. \<open>EINVAL\<close> is for an unknown base only.\<close>

definition c_strtoll :: "string \<Rightarrow> int \<times> string" where
  "c_strtoll s =
     (let negative = (s \<noteq> [] \<and> hd s = CHR ''-'');
          r = (if negative then tl s else s);
          v = int (digits_val 0 (takeWhile is_digit r));
          v = (if negative then - v else v)
      in if takeWhile is_digit r = [] then (0, s)
         else (max LLONG_MIN (min LLONG_MAX v), dropWhile is_digit r))"

text \<open>The result is \<open>*err\<close> and the value; a product that is no \<open>long long\<close> is undefined.\<close>

definition m_memtoll :: "string \<Rightarrow> (bool \<times> int) option" where
  "m_memtoll p =
     (let s = cstr p;
          sign = (if s \<noteq> [] \<and> hd s = CHR ''-'' then 1 else 0);
          digits = sign + length (takeWhile is_digit (drop sign s))
      in case memtoll_unit (drop digits s) of
           None \<Rightarrow> Some (True, 0)
         | Some mul \<Rightarrow>
             if digits \<ge> 128 then Some (True, 0)
             else (case c_strtoll (take digits s) of (val, endptr) \<Rightarrow>
               if endptr \<noteq> [] then Some (True, 0)
               else do { c_assert (is_llong (val * mul)); Some (False, val * mul) }))"

lemma tolower_digit: "is_digit (c_tolower c) \<longleftrightarrow> is_digit c"
  by (cases "is_upper c") (auto simp: c_tolower_def is_digit_def is_upper_def)

lemma strcasecmp_hd:
  assumes "strcasecmp_eq u (a # v)" and "CHR 0x00 \<notin> set u" and "a \<noteq> CHR 0x00" and "\<not> is_digit a"
  shows "u \<noteq> [] \<and> \<not> is_digit (hd u)"
proof (cases u)
  case Nil
  then show ?thesis using assms(1,3) by (simp add: strcasecmp_eq_def cstr_def)
next
  case (Cons c r)
  then have "c_tolower c = c_tolower a" using assms(1-3) by (auto simp: strcasecmp_eq_def cstr_def)
  then show ?thesis using tolower_digit [of c] tolower_digit [of a] assms(4) Cons by simp
qed

lemma memtoll_unit_no_digit:
  assumes "memtoll_unit u = Some mul" and "CHR 0x00 \<notin> set u"
  shows "takeWhile is_digit u = []"
proof (cases u)
  case (Cons c r)
  have "\<exists>a v. strcasecmp_eq u (a # v) \<and> a \<noteq> CHR 0x00 \<and> \<not> is_digit a"
    using assms(1) Cons by (auto simp: memtoll_unit_def is_digit_def split: if_splits)
  then show ?thesis using strcasecmp_hd [OF _ assms(2)] Cons by auto
qed simp

section \<open>Texts of floating-point numbers\<close>

text \<open>\<open>strtold\<close> gives the value, how many characters it has read and \<open>errno\<close>. \<open>extreme\<close> holds for zero and
  the two huge values.\<close>

datatype errno = E_NONE | E_RANGE | E_INVAL

definition MAX_LONG_DOUBLE_CHARS :: nat where "MAX_LONG_DOUBLE_CHARS = 5 * 1024"

definition m_string2ld ::
  "(string \<Rightarrow> 'r \<times> nat \<times> errno) \<Rightarrow> ('r \<Rightarrow> bool) \<Rightarrow> ('r \<Rightarrow> bool) \<Rightarrow> string \<Rightarrow> 'r option" where
  "m_string2ld strtold extreme isnan s =
     (if length s \<ge> MAX_LONG_DOUBLE_CHARS then None
      else
        let buf = cstr s in
        case strtold buf of (v, n, errno) \<Rightarrow>
          if buf \<noteq> [] \<and> c_space (hd buf) \<or> n < length buf \<or> errno = E_RANGE \<and> extreme v \<or> errno = E_INVAL \<or> isnan v
          then None
          else Some v)"

text \<open>\<open>snprintf\<close> writes what fits and a NUL byte; it returns the length of the whole text.\<close>

definition c_snprintf :: "string \<Rightarrow> nat \<Rightarrow> string \<Rightarrow> string option" where
  "c_snprintf buf len tx =
     (if len = 0 then Some buf
      else do {
        c_assert (len \<le> length buf);
        let w = take (len - 1) tx;
        Some (w @ CHR 0x00 # drop (Suc (length w)) buf)
      })"

definition c_memcpy :: "string \<Rightarrow> string \<Rightarrow> string option" where
  "c_memcpy buf src = do { c_assert (length src \<le> length buf); Some (src @ drop (length src) buf) }"

text \<open>A \<open>double\<close> is not a number, infinite, a zero with a sign (\<open>True\<close> is negative), or a number other than zero.\<close>

datatype double = NaN | Infinite bool | Zero bool | Finite rat

definition m_d2string :: "(rat \<Rightarrow> string) \<Rightarrow> string \<Rightarrow> double \<Rightarrow> (string \<times> nat) option" where
  "m_d2string fmt_17g buf v =
     (let print = (\<lambda>tx. do { buf' \<leftarrow> c_snprintf buf (length buf) tx; Some (buf', length tx) }) in
      case v of
        NaN \<Rightarrow> print ''nan''
      | Infinite negative \<Rightarrow> print (if negative then ''-inf'' else ''inf'')
      | Zero negative \<Rightarrow> print (if negative then ''-0'' else ''0'')
      | Finite r \<Rightarrow>
          if r > - 4503599627370495 \<and> r < 4503599627370496 \<and> r = of_int \<lfloor>r\<rfloor>
          then m_ll2string buf \<lfloor>r\<rfloor>
          else print (fmt_17g r))"

text \<open>\<open>p\<close> is the position before \<open>l\<close>.\<close>

fun trim_zeros :: "string \<Rightarrow> nat \<Rightarrow> nat option" where
  "trim_zeros buf 0 = None"
| "trim_zeros buf (Suc p) = do {
     c \<leftarrow> arr_get buf p;
     if c = CHR ''0'' then trim_zeros buf p else Some (if c = CHR ''.'' then p else Suc p)
   }"

text \<open>A \<open>long double\<close> is infinite (\<open>True\<close> is positive) or what the two formats can print.\<close>

datatype 'r longdouble = LInfinite bool | LNumber 'r

definition m_ld2string ::
  "('r \<Rightarrow> string) \<Rightarrow> ('r \<Rightarrow> string) \<Rightarrow> string \<Rightarrow> nat \<Rightarrow> 'r longdouble \<Rightarrow> bool \<Rightarrow> (string \<times> nat) option" where
  "m_ld2string fmt_17f fmt_17g buf len v humanfriendly =
     (case v of
        LInfinite positive \<Rightarrow>
          if len < 5 then Some (buf, 0)
          else do {
            let tx = (if positive then ''inf'' else ''-inf'');
            buf \<leftarrow> c_memcpy buf tx;
            buf \<leftarrow> arr_set buf (length tx) (CHR 0x00);
            Some (buf, length tx)
          }
      | LNumber r \<Rightarrow> do {
          let tx = (if humanfriendly then fmt_17f r else fmt_17g r);
          buf \<leftarrow> c_snprintf buf len tx;
          let l = length tx;
          if l + 1 > len then Some (buf, 0)
          else do {
            l \<leftarrow> (if humanfriendly \<and> CHR ''.'' \<in> set (cstr buf) then trim_zeros buf l else Some l);
            buf \<leftarrow> arr_set buf l (CHR 0x00);
            Some (buf, l)
          }
        })"

section \<open>Properties\<close>

lemma show_nat_only:
  "takeWhile is_digit (show_nat n) = show_nat n" "dropWhile is_digit (show_nat n) = []"
  "show_nat n \<noteq> []" "hd (show_nat n) \<noteq> CHR ''-''"
proof -
  have d: "\<forall>c\<in>set (show_nat n). is_digit c" using show_nat_digits by (simp add: list_all_iff)
  then show "takeWhile is_digit (show_nat n) = show_nat n" "dropWhile is_digit (show_nat n) = []" by simp_all
  show ne: "show_nat n \<noteq> []" using length_show_nat_pos [of n] by auto
  then have "is_digit (hd (show_nat n))" using d by simp
  then show "hd (show_nat n) \<noteq> CHR ''-''" by (auto simp: is_digit_def)
qed

lemma show_nat_then: "takeWhile is_digit u = [] \<Longrightarrow> takeWhile is_digit (show_nat n @ u) = show_nat n"
  using show_nat_digits [of n] by (simp add: list_all_iff)

lemma strtoll_show_int: "is_llong v \<Longrightarrow> c_strtoll (show_int v) = (v, [])"
  using show_nat_digits by (simp add: c_strtoll_def show_int_def Let_def digits_val_show is_llong_def show_nat_only list_all_iff)

text \<open>An amount with one of the units, in small or capital letters, is read as the number times the unit.\<close>

theorem m_memtoll_reads:
  assumes "memtoll_unit u = Some mul" and "CHR 0x00 \<notin> set u" and "is_llong v" and "is_llong (v * mul)"
  shows "m_memtoll (show_int v @ u @ CHR 0x00 # after) = Some (False, v * mul)"
proof -
  let ?s = "show_int v @ u" and ?sign = "if v < 0 then 1 else 0 :: nat"
  note u = memtoll_unit_no_digit [OF assms(1,2)]
  have s: "cstr (show_int v @ u @ CHR 0x00 # after) = ?s"
    using assms(2) show_int_nul [of v] by (auto simp: cstr_def takeWhile_append)
  have sign: "(if ?s \<noteq> [] \<and> hd ?s = CHR ''-'' then 1 else 0) = ?sign"
    by (auto simp: show_int_def show_nat_only)
  have digits: "?sign + length (takeWhile is_digit (drop ?sign ?s)) = length (show_int v)"
    using show_nat_then [OF u] by (simp add: show_int_def)
  have "length (show_int v) < 128" using show_int_short [OF assms(3)] by (simp add: LONGSTR_SIZE_def)
  then show ?thesis unfolding m_memtoll_def Let_def s sign digits using assms(1,4) by (simp add: strtoll_show_int [OF assms(3)])
qed

lemma m_memtoll_reads_witness: "m_memtoll (''-3'' @ ''Mb'' @ [CHR 0x00]) = Some (False, - 3145728)"
proof -
  have "memtoll_unit ''Mb'' = Some 1048576" "show_int (- 3) = ''-3''" by code_simp+
  then show ?thesis using m_memtoll_reads [of "''Mb''" 1048576 "- 3" "[]"]
    by (simp add: is_llong_def LLONG_MIN_def LLONG_MAX_def)
qed

text \<open>A unit alone is taken for 0, and a number that is too large for the largest \<open>long long\<close>, both without an error.\<close>

lemma m_memtoll_lenient:
  "m_memtoll (''kb'' @ [CHR 0x00]) = Some (False, 0)"
  "m_memtoll (''9223372036854775808'' @ [CHR 0x00]) = Some (False, LLONG_MAX)"
proof -
  show "m_memtoll (''kb'' @ [CHR 0x00]) = Some (False, 0)" by code_simp
  define s where "s = ''9223372036854775808''"
  have d: "takeWhile is_digit s = s" "dropWhile is_digit s = []" "cstr (s @ [CHR 0x00]) = s" "s \<noteq> []" "hd s \<noteq> CHR ''-''"
    "length s = 19" unfolding s_def by code_simp+
  have v: "digits_val 0 s = 9223372036854775808" by (simp add: s_def digit_val_def)
  have "c_strtoll s = (LLONG_MAX, [])" by (simp add: c_strtoll_def Let_def LLONG_MAX_def LLONG_MIN_def d v)
  then have "m_memtoll (s @ [CHR 0x00]) = Some (False, LLONG_MAX)"
    by (simp add: d m_memtoll_def Let_def memtoll_unit_def is_llong_def LLONG_MAX_def LLONG_MIN_def)
  then show "m_memtoll (''9223372036854775808'' @ [CHR 0x00]) = Some (False, LLONG_MAX)" unfolding s_def .
qed

text \<open>An integral \<open>double\<close> of less than 53 bits is printed as that integer.\<close>

theorem m_d2string_integral:
  assumes "v \<noteq> 0" and "- 4503599627370495 < v" and "v < 4503599627370496" and "length (show_int v) < length buf"
  shows "m_d2string fmt buf (Finite (of_int v)) =
    Some (show_int v @ CHR 0x00 # drop (Suc (length (show_int v))) buf, length (show_int v))"
proof -
  have "is_llong v" using assms(2,3) by (simp add: is_llong_def LLONG_MIN_def LLONG_MAX_def)
  moreover have "of_int (- 4503599627370495) < (of_int v :: rat)" "(of_int v :: rat) < of_int 4503599627370496"
    unfolding of_int_less_iff by (rule assms(2), rule assms(3))
  ultimately show ?thesis using assms(4) by (simp add: m_d2string_def m_ll2string_prints)
qed

lemma m_d2string_integral_witness:
  "m_d2string (\<lambda>r. '''') (replicate 4 (CHR ''x'')) (Finite 17) = Some (''17'' @ [CHR 0x00, CHR ''x''], 2)"
proof -
  have "show_int 17 = ''17''" by code_simp
  then show ?thesis using m_d2string_integral [of 17 "replicate 4 (CHR ''x'')" "\<lambda>r. ''''"] by simp
qed

lemma cstr_cut: "CHR 0x00 \<notin> set w \<Longrightarrow> cstr (w @ CHR 0x00 # r) = w"
  by (auto simp: cstr_def takeWhile_append)

lemma trim_zeros_spec:
  assumes "take l buf = tx" and "l \<le> length buf" and "CHR ''.'' \<in> set tx"
  shows "\<exists>r k. trim_zeros buf l = Some (length r) \<and>
    (tx = r @ replicate k (CHR ''0'') \<and> r \<noteq> [] \<and> last r \<notin> {CHR ''0'', CHR ''.''} \<or> tx = r @ CHR ''.'' # replicate k (CHR ''0''))"
  using assms
proof (induction l arbitrary: tx)
  case (Suc p)
  have p: "p < length buf" using Suc.prems(2) by simp
  then have t: "tx = take p buf @ [buf ! p]" using Suc.prems(1) by (simp add: take_Suc_conv_app_nth)
  have get: "arr_get buf p = Some (buf ! p)" using p by (simp add: arr_get_def)
  consider "buf ! p = CHR ''0''" | "buf ! p = CHR ''.''" | "buf ! p \<notin> {CHR ''0'', CHR ''.''}" by auto
  then show ?case
  proof cases
    case 1
    then have "CHR ''.'' \<in> set (take p buf)" using Suc.prems(3) t by auto
    then obtain r k where r: "trim_zeros buf p = Some (length r)"
      "take p buf = r @ replicate k (CHR ''0'') \<and> r \<noteq> [] \<and> last r \<notin> {CHR ''0'', CHR ''.''} \<or>
       take p buf = r @ CHR ''.'' # replicate k (CHR ''0'')"
      using Suc.IH [OF refl] p by (metis less_imp_le)
    moreover have "trim_zeros buf (Suc p) = trim_zeros buf p" using get 1 by simp
    ultimately show ?thesis using t 1
      by (intro exI [of _ r] exI [of _ "Suc k"]) (auto simp: replicate_append_same [symmetric])
  next
    case 2
    then show ?thesis using get t p by (intro exI [of _ "take p buf"] exI [of _ 0]) simp
  next
    case 3
    then show ?thesis using get t p by (intro exI [of _ tx] exI [of _ 0]) auto
  qed
qed simp

text \<open>The human-friendly text is the printed one without the zeros at its end, and without the point when only zeros follow it.\<close>

theorem m_ld2string_trims:
  assumes "CHR 0x00 \<notin> set (fmt r)" and "CHR ''.'' \<in> set (fmt r)" and "length (fmt r) < len" and "len \<le> length buf"
  shows "\<exists>tx k buf'. m_ld2string fmt fmt' buf len (LNumber r) True = Some (buf', length tx) \<and> cstr buf' = tx \<and>
    (fmt r = tx @ replicate k (CHR ''0'') \<and> last tx \<notin> {CHR ''0'', CHR ''.''} \<or> fmt r = tx @ CHR ''.'' # replicate k (CHR ''0''))"
proof -
  let ?t = "fmt r" and ?b = "fmt r @ CHR 0x00 # drop (Suc (length (fmt r))) buf"
  have snp: "c_snprintf buf len ?t = Some ?b" using assms(3,4) by (simp add: c_snprintf_def Let_def)
  have c: "cstr ?b = ?t" using assms(1) by (auto simp: cstr_def takeWhile_append)
  obtain tx k where t: "trim_zeros ?b (length ?t) = Some (length tx)"
    "?t = tx @ replicate k (CHR ''0'') \<and> tx \<noteq> [] \<and> last tx \<notin> {CHR ''0'', CHR ''.''} \<or> ?t = tx @ CHR ''.'' # replicate k (CHR ''0'')"
    using trim_zeros_spec [of "length ?t" ?b ?t] assms(2) by auto
  have pre: "length tx \<le> length ?t" "take (length tx) ?t = tx" "CHR 0x00 \<notin> set tx" using t(2) assms(1) by auto
  let ?b' = "?b[length tx := CHR 0x00]"
  have "take (length tx) ?b' = tx" "?b' ! length tx = CHR 0x00" "length tx < length ?b'" using pre by simp_all
  then have "?b' = tx @ CHR 0x00 # drop (Suc (length tx)) ?b'" by (metis id_take_nth_drop)
  then have "cstr ?b' = tx" using cstr_cut [OF pre(3), of "drop (Suc (length tx)) ?b'"] by (rule ssubst [where P = "\<lambda>b. cstr b = tx"])
  moreover have "m_ld2string fmt fmt' buf len (LNumber r) True = Some (?b', length tx)"
    using snp c t(1) assms(2,3) pre(1) by (simp add: m_ld2string_def arr_set_def Let_def)
  ultimately show ?thesis using t(2) by blast
qed

lemma m_ld2string_trims_witness:
  "\<exists>tx k buf'. m_ld2string (\<lambda>r. ''1.50'') (\<lambda>r. '''') (replicate 8 (CHR ''x'')) 8 (LNumber ()) True = Some (buf', length tx) \<and>
    cstr buf' = tx \<and> (''1.50'' = tx @ replicate k (CHR ''0'') \<and> last tx \<notin> {CHR ''0'', CHR ''.''} \<or>
      ''1.50'' = tx @ CHR ''.'' # replicate k (CHR ''0''))"
  by (rule m_ld2string_trims [where fmt = "\<lambda>r :: unit. ''1.50''" and r = "()"]) simp_all

text \<open>What follows a NUL byte of the argument is ignored.\<close>

lemma m_string2ld_ignores_after_nul:
  assumes "CHR 0x00 \<notin> set s" and "length s + length after + 1 < MAX_LONG_DOUBLE_CHARS"
  shows "m_string2ld strtold extreme isnan (s @ CHR 0x00 # after) = m_string2ld strtold extreme isnan s"
  using assms cstr_cut [OF assms(1), of after] cstr_no_nul [OF assms(1)] by (simp add: m_string2ld_def)

end
