(* ===== verification/DictStats.thy ===== *)
theory DictStats
  imports DictProps Conversions
begin

text \<open>
  What is left of \<open>dep/dict.c\<close>: the setters of its static variables, \<open>m_dictFreeUnlinkedEntry\<close>, and the
  statistics of a table with their text. How a quotient of two numbers is printed is a parameter.
\<close>

section \<open>Small functions\<close>

text \<open>The new value of \<open>dict_can_resize\<close>.\<close>

definition m_dictEnableResize :: bool where "m_dictEnableResize = True"

definition m_dictDisableResize :: bool where "m_dictDisableResize = False"

text \<open>The new value of \<open>dict_hash_function_seed\<close>, 16 bytes from \<open>seed\<close>.\<close>

definition m_dictSetHashFunctionSeed :: "u8 list \<Rightarrow> u8 list option" where
  "m_dictSetHashFunctionSeed seed = do { c_assert (16 \<le> length seed); Some (take 16 seed) }"

definition timeInMilliseconds :: "int \<Rightarrow> int \<Rightarrow> int" where
  "timeInMilliseconds sec usec = sec * 1000 + usec sdiv 1000"

text \<open>The entries whose key and value are freed.\<close>

definition m_dictFreeUnlinkedEntry :: "('k, 'v) dictEntry option \<Rightarrow> ('k, 'v) dictEntry list" where
  "m_dictFreeUnlinkedEntry he = (case he of None \<Rightarrow> [] | Some e \<Rightarrow> [e])"

section \<open>Statistics\<close>

definition DICT_STATS_VECTLEN :: nat where "DICT_STATS_VECTLEN = 50"

record ht_stats =
  st_slots :: nat
  st_maxchainlen :: nat
  st_totchainlen :: nat
  st_clvector :: "nat list"

definition count_bucket :: "('k, 'v) dictht \<Rightarrow> nat \<Rightarrow> ht_stats \<Rightarrow> ht_stats option" where
  "count_bucket ht i s = do {
     he \<leftarrow> arr_get (ht_table ht) i;
     if he = [] then Some (s\<lparr>st_clvector := (st_clvector s)[0 := st_clvector s ! 0 + 1]\<rparr>)
     else
       let s = s\<lparr>st_slots := st_slots s + 1\<rparr>;
           chainlen = length he;
           j = (if chainlen < DICT_STATS_VECTLEN then chainlen else DICT_STATS_VECTLEN - 1);
           s = s\<lparr>st_clvector := (st_clvector s)[j := st_clvector s ! j + 1]\<rparr>;
           s = (if chainlen > st_maxchainlen s then s\<lparr>st_maxchainlen := chainlen\<rparr> else s)
       in Some (s\<lparr>st_totchainlen := st_totchainlen s + chainlen\<rparr>)
   }"

definition ht_statistics :: "('k, 'v) dictht \<Rightarrow> ht_stats option" where
  "ht_statistics ht = for_range 0 (ht_size ht) (count_bucket ht)
     \<lparr>st_slots = 0, st_maxchainlen = 0, st_totchainlen = 0, st_clvector = replicate DICT_STATS_VECTLEN 0\<rparr>"

text \<open>\<open>%ld\<close>, and the two formats of a quotient: \<open>%.02f\<close> of the quotient and of its hundredfold.\<close>

definition print_ld :: "nat \<Rightarrow> string" where
  "print_ld n = show_int (c_llong (int n))"

record quotient_format =
  avg_text :: "nat \<Rightarrow> nat \<Rightarrow> string"
  percent_text :: "nat \<Rightarrow> nat \<Rightarrow> string"

definition stats_head :: "quotient_format \<Rightarrow> nat \<Rightarrow> ('k, 'v) dictht \<Rightarrow> ht_stats \<Rightarrow> string" where
  "stats_head fmt tableid ht s =
     ''Hash table '' @ print_ld tableid @ '' stats ('' @ (if tableid = 0 then ''main hash table'' else ''rehashing target'') @ ''):'' @ [CHR 0x0A] @
     '' table size: '' @ print_ld (ht_size ht) @ [CHR 0x0A] @
     '' number of elements: '' @ print_ld (ht_used ht) @ [CHR 0x0A] @
     '' different slots: '' @ print_ld (st_slots s) @ [CHR 0x0A] @
     '' max chain length: '' @ print_ld (st_maxchainlen s) @ [CHR 0x0A] @
     '' avg chain length (counted): '' @ avg_text fmt (st_totchainlen s) (st_slots s) @ [CHR 0x0A] @
     '' avg chain length (computed): '' @ avg_text fmt (ht_used ht) (st_slots s) @ [CHR 0x0A] @
     '' Chain length distribution:'' @ [CHR 0x0A]"

definition stats_row :: "quotient_format \<Rightarrow> ('k, 'v) dictht \<Rightarrow> ht_stats \<Rightarrow> nat \<Rightarrow> string" where
  "stats_row fmt ht s i =
     ''   '' @ (if i = DICT_STATS_VECTLEN - 1 then ''>= '' else '''') @ print_ld i @ '': '' @ print_ld (st_clvector s ! i) @ '' ('' @
     percent_text fmt (st_clvector s ! i) (ht_size ht) @ ''%)'' @ [CHR 0x0A]"

text \<open>\<open>l += snprintf(buf + l, bufsize - l, ...)\<close>.\<close>

definition append_text :: "nat \<Rightarrow> string \<Rightarrow> string \<times> nat \<Rightarrow> (string \<times> nat) option" where
  "append_text bufsize tx = (\<lambda>(buf, l). do {
     rest \<leftarrow> c_snprintf (drop l buf) (bufsize - l) tx;
     Some (take l buf @ rest, l + length tx)
   })"

definition no_stats :: string where
  "no_stats = ''No stats available for empty dictionaries'' @ [CHR 0x0A]"

text \<open>The result is the buffer and the length returned.\<close>

definition dictGetStatsHt ::
  "quotient_format \<Rightarrow> string \<Rightarrow> nat \<Rightarrow> ('k, 'v) dictht \<Rightarrow> nat \<Rightarrow> (string \<times> nat) option" where
  "dictGetStatsHt fmt buf bufsize ht tableid =
     (if ht_used ht = 0 then do { buf \<leftarrow> c_snprintf buf bufsize no_stats; Some (buf, length no_stats) }
      else do {
        s \<leftarrow> ht_statistics ht;
        (buf, l) \<leftarrow> append_text bufsize (stats_head fmt tableid ht s) (buf, 0);
        (leave, buf, l) \<leftarrow> for_until 0 (DICT_STATS_VECTLEN - 1) (\<lambda>i (buf, l).
          if st_clvector s ! i = 0 then Some (False, buf, l)
          else if l \<ge> bufsize then Some (True, buf, l)
          else do { r \<leftarrow> append_text bufsize (stats_row fmt ht s i) (buf, l); Some (False, r) }) (buf, l);
        buf \<leftarrow> (if bufsize \<noteq> 0 then arr_set buf (bufsize - 1) (CHR 0x00) else Some buf);
        c_assert (CHR 0x00 \<in> set buf);
        Some (buf, strlen buf)
      })"

text \<open>\<open>bufsize -= l\<close> wraps around when the text was longer than the buffer.\<close>

definition m_dictGetStats :: "quotient_format \<Rightarrow> string \<Rightarrow> nat \<Rightarrow> ('k, 'v) dict \<Rightarrow> string option" where
  "m_dictGetStats fmt buf orig_bufsize d = do {
     (buf, l) \<leftarrow> dictGetStatsHt fmt buf orig_bufsize (ht0 d) 0;
     let bufsize = nat (wrap64 (int orig_bufsize - int l));
     buf \<leftarrow>
       (if dictIsRehashing d \<and> bufsize > 0
        then do {
          (rest, l') \<leftarrow> dictGetStatsHt fmt (drop l buf) bufsize (ht1 d) 1;
          Some (take l buf @ rest)
        }
        else Some buf);
     if orig_bufsize \<noteq> 0 then arr_set buf (orig_bufsize - 1) (CHR 0x00) else Some buf
   }"

section \<open>Properties\<close>

text \<open>Unlinking an entry and freeing it afterwards is a deletion.\<close>

lemma generic_delete_nofree:
  "dictGenericDelete ty d key False = map_option (\<lambda>(he, freed, d). (he, m_dictFreeUnlinkedEntry he, d)) (dictGenericDelete ty d key True)"
  by (simp add: dictGenericDelete_def m_dictFreeUnlinkedEntry_def map_option_bind comp_def split: option.split bind_splits cong: if_cong)

theorem unlink_and_free_is_delete:
  "m_dictDelete ty d key =
     map_option (\<lambda>(he, d). (if he \<noteq> None then DICT_OK else DICT_ERR, m_dictFreeUnlinkedEntry he, d)) (m_dictUnlink ty d key)"
  by (cases "dictGenericDelete ty d key True") (auto simp: m_dictDelete_def m_dictUnlink_def generic_delete_nofree)

text \<open>The statistics count what their names say: non-empty buckets, the longest chain, the entries, and the
  buckets of every length, where the last class has all those of 49 entries and more.\<close>

definition longest :: "('k, 'v) chain list \<Rightarrow> nat" where
  "longest cs = foldr (\<lambda>c m. max (length c) m) cs 0"

definition counted :: "('k, 'v) chain list \<Rightarrow> ht_stats \<Rightarrow> bool" where
  "counted cs s \<longleftrightarrow> st_slots s = length (filter (\<lambda>c. c \<noteq> []) cs) \<and>
     st_maxchainlen s = longest cs \<and> st_totchainlen s = length (concat cs) \<and>
     length (st_clvector s) = DICT_STATS_VECTLEN \<and>
     (\<forall>j<DICT_STATS_VECTLEN. st_clvector s ! j = length (filter (\<lambda>c. min (length c) (DICT_STATS_VECTLEN - 1) = j) cs))"

lemma longest_simps: "longest [] = 0" "longest (cs @ [c]) = max (longest cs) (length c)"
  unfolding longest_def by (simp, induction cs) auto

lemma count_bucket_counts:
  assumes "counted cs s" and "i < length (ht_table ht)" and "ht_table ht ! i = c"
  shows "\<exists>s'. count_bucket ht i s = Some s' \<and> counted (cs @ [c]) s'"
proof (cases "c = []")
  case True
  then show ?thesis using assms
    by (auto simp: count_bucket_def arr_get_def counted_def longest_simps nth_list_update DICT_STATS_VECTLEN_def)
next
  case False
  then show ?thesis using assms
    by (auto simp: count_bucket_def arr_get_def counted_def longest_simps nth_list_update Let_def DICT_STATS_VECTLEN_def min_def max_def)
qed

theorem ht_statistics_counts:
  assumes "length (ht_table ht) = ht_size ht"
  shows "\<exists>s. ht_statistics ht = Some s \<and> counted (ht_table ht) s"
proof -
  let ?s = "\<lparr>st_slots = 0, st_maxchainlen = 0, st_totchainlen = 0, st_clvector = replicate DICT_STATS_VECTLEN 0\<rparr>"
  have "counted (take 0 (ht_table ht)) ?s" by (simp add: counted_def longest_simps)
  moreover have "\<exists>s'. count_bucket ht j s = Some s' \<and> counted (take (Suc j) (ht_table ht)) s'"
    if "j < 0 + ht_size ht" "counted (take j (ht_table ht)) s" for j s
    using count_bucket_counts [OF that(2), of j ht] that(1) assms by (simp add: take_Suc_conv_app_nth)
  ultimately have "\<exists>s. ht_statistics ht = Some s \<and> counted (take (0 + ht_size ht) (ht_table ht)) s"
    unfolding ht_statistics_def by (intro for_range_rule) auto
  then show ?thesis using assms by simp
qed

text \<open>The texts stay within the buffer.\<close>

lemma c_snprintf_length:
  assumes "0 < n" and "n = length buf"
  shows "\<exists>buf'. c_snprintf buf n tx = Some buf' \<and> length buf' = n"
proof -
  have "length (take (n - 1) tx) < n" using assms(1) by simp
  then show ?thesis using assms by (simp add: c_snprintf_def Let_def)
qed

lemma append_text_length:
  assumes "l < bufsize" and "bufsize = length buf"
  shows "\<exists>buf'. append_text bufsize tx (buf, l) = Some (buf', l + length tx) \<and> length buf' = length buf"
  using c_snprintf_length [of "bufsize - l" "drop l buf" tx] assms by (auto simp: append_text_def)

lemma strlen_less: "CHR 0x00 \<in> set s \<Longrightarrow> strlen s < length s"
  unfolding strlen_def cstr_def
  by (metis (mono_tags, lifting) length_takeWhile_le le_neq_implies_less takeWhile_eq_take take_all set_takeWhileD order_refl)

lemma dictGetStatsHt_ok:
  assumes "length (ht_table ht) = ht_size ht" and "bufsize = length buf" and "0 < bufsize"
  shows "\<exists>buf' l. dictGetStatsHt fmt buf bufsize ht tableid = Some (buf', l) \<and> length buf' = length buf \<and>
    (if ht_used ht = 0 then l = length no_stats else l < bufsize)"
proof (cases "ht_used ht = 0")
  case True
  then show ?thesis using c_snprintf_length [OF assms(3,2), of no_stats] assms(2) by (auto simp: dictGetStatsHt_def)
next
  case False
  obtain s where s: "ht_statistics ht = Some s" using ht_statistics_counts [OF assms(1)] by blast
  obtain b1 where b1: "append_text bufsize (stats_head fmt tableid ht s) (buf, 0) = Some (b1, length (stats_head fmt tableid ht s))"
    "length b1 = length buf" using append_text_length [OF assms(3,2)] by fastforce
  let ?body = "\<lambda>i (buf, l). if st_clvector s ! i = 0 then Some (False, buf, l)
    else if l \<ge> bufsize then Some (True, buf, l)
    else do { r \<leftarrow> append_text bufsize (stats_row fmt ht s i) (buf, l); Some (False, r) }"
  have "\<exists>b st. for_until 0 (DICT_STATS_VECTLEN - 1) ?body (b1, length (stats_head fmt tableid ht s)) = Some (b, st) \<and>
      (if b then length (fst st) = bufsize else length (fst st) = bufsize)"
  proof (rule for_until_rule)
    show "length (fst (b1, length (stats_head fmt tableid ht s))) = bufsize" using b1(2) assms(2) by simp
    fix j and st :: "string \<times> nat"
    assume "length (fst st) = bufsize"
    then show "\<exists>b s'. ?body j st = Some (b, s') \<and> (if b then length (fst s') = bufsize else length (fst s') = bufsize)"
      using append_text_length [of "snd st" bufsize "fst st" "stats_row fmt ht s j"] by (cases st) fastforce
  qed
  then obtain leave b2 l2 where b2: "for_until 0 (DICT_STATS_VECTLEN - 1) ?body (b1, length (stats_head fmt tableid ht s)) = Some (leave, b2, l2)"
    "length b2 = bufsize" by (metis fst_conv surj_pair)
  let ?b3 = "b2[bufsize - 1 := CHR 0x00]"
  have nul: "CHR 0x00 \<in> set ?b3" using b2(2) assms(3) by (intro set_update_memI) simp
  have "dictGetStatsHt fmt buf bufsize ht tableid = Some (?b3, strlen ?b3)"
    using False s b1(1) b2 assms(3) nul by (simp add: dictGetStatsHt_def arr_set_def)
  moreover have "strlen ?b3 < bufsize" using strlen_less [OF nul] b2(2) by simp
  ultimately show ?thesis using False b2(2) assms(2) by simp
qed

text \<open>The statistics of a dictionary are a terminated text in the buffer, when the buffer takes the short
  text for an empty table or there is no second table to describe.\<close>

theorem m_dictGetStats_terminated:
  assumes "dict_inv ty d" and "n = length buf" and "0 < n" and "n < 2 ^ 64"
    and "ht_used (ht0 d) \<noteq> 0 \<or> length no_stats \<le> n \<or> \<not> dictIsRehashing d"
  shows "\<exists>buf'. m_dictGetStats fmt buf n d = Some buf' \<and> length buf' = n \<and> last buf' = CHR 0x00"
proof -
  have t: "length (ht_table (ht0 d)) = ht_size (ht0 d)" "length (ht_table (ht1 d)) = ht_size (ht1 d)"
    using assms(1) by (auto simp: dict_inv_def ht_valid_def dictReset_def)
  obtain b1 l where b1: "dictGetStatsHt fmt buf n (ht0 d) 0 = Some (b1, l)" "length b1 = n"
    "if ht_used (ht0 d) = 0 then l = length no_stats else l < n"
    using dictGetStatsHt_ok [OF t(1) assms(2,3), of fmt 0] assms(2) by auto
  let ?m = "nat (wrap64 (int n - int l))"
  have "\<exists>b2. (if dictIsRehashing d \<and> ?m > 0
        then do { (rest, l') \<leftarrow> dictGetStatsHt fmt (drop l b1) ?m (ht1 d) 1; Some (take l b1 @ rest) }
        else Some b1) = Some b2 \<and> length b2 = n"
  proof (cases "dictIsRehashing d \<and> ?m > 0")
    case True
    then have "l \<le> n" using b1(3) assms(5) by (auto split: if_splits)
    then have m: "?m = n - l" using assms(4) by (simp add: wrap64_id)
    obtain rest l' where "dictGetStatsHt fmt (drop l b1) ?m (ht1 d) 1 = Some (rest, l')" "length rest = length (drop l b1)"
      using dictGetStatsHt_ok [OF t(2), of ?m "drop l b1" fmt 1] m b1(2) True by auto
    then show ?thesis using True b1(2) \<open>l \<le> n\<close> by simp
  qed (use b1(2) in auto)
  then obtain b2 where b2: "(if dictIsRehashing d \<and> ?m > 0
        then do { (rest, l') \<leftarrow> dictGetStatsHt fmt (drop l b1) ?m (ht1 d) 1; Some (take l b1 @ rest) }
        else Some b1) = Some b2" "length b2 = n" by blast
  have "m_dictGetStats fmt buf n d = Some (b2[n - 1 := CHR 0x00])"
    unfolding m_dictGetStats_def Let_def b1(1) bind.bind_lunit case_prod_conv b2(1) using b2(2) assms(3) by (simp add: arr_set_def)
  moreover have "last (b2[n - 1 := CHR 0x00]) = CHR 0x00" using b2(2) assms(3) by (subst last_list_update) auto
  ultimately show ?thesis using b2(2) by simp
qed

lemma wrap64_negative: "- (2 ^ 64) \<le> x \<Longrightarrow> x < 0 \<Longrightarrow> wrap64 x = x + 2 ^ 64"
proof -
  assume x: "- (2 ^ 64) \<le> x" "x < 0"
  have "x mod 2 ^ 64 = (x + 2 ^ 64) mod 2 ^ 64" by (rule mod_add_self2 [symmetric])
  also have "\<dots> = x + 2 ^ 64" by (rule mod_pos_pos_trivial) (use x in simp_all)
  finally show ?thesis unfolding wrap64_def .
qed

text \<open>While a dictionary whose first table is empty is being rehashed, a buffer shorter than the short text is
  overrun: the space left wraps around.\<close>

theorem m_dictGetStats_overruns:
  assumes "dictIsRehashing d" and "ht_used (ht0 d) = 0" and "n = length buf" and "0 < n" and "n < length no_stats"
  shows "m_dictGetStats fmt buf n d = None"
proof -
  let ?m = "nat (wrap64 (int n - int (length no_stats)))"
  have "int n - int (length no_stats) < 0" "- 42 \<le> int n - int (length no_stats)" using assms(5) by (simp_all add: no_stats_def)
  then have "wrap64 (int n - int (length no_stats)) = int n - int (length no_stats) + 2 ^ 64"
    using wrap64_negative [of "int n - int (length no_stats)"] by simp
  then have m: "0 < ?m" using \<open>- 42 \<le> int n - int (length no_stats)\<close> by simp
  obtain b1 where b1: "dictGetStatsHt fmt buf n (ht0 d) 0 = Some (b1, length no_stats)" "length b1 = n"
    using c_snprintf_length [OF assms(4,3), of no_stats] assms(2) by (auto simp: dictGetStatsHt_def)
  have "c_snprintf [] ?m tx = None" for tx using m by (simp add: c_snprintf_def)
  moreover have "drop (length no_stats) b1 = []" using b1(2) assms(5) by simp
  ultimately have "dictGetStatsHt fmt (drop (length no_stats) b1) ?m (ht1 d) 1 = None"
    by (auto simp: dictGetStatsHt_def append_text_def split: bind_splits)
  then show ?thesis using assms(1) m by (simp add: m_dictGetStats_def Let_def b1(1))
qed

definition demo_emptied :: "(nat, nat) dict option" where
  "demo_emptied = do {
     (st, freed, d) \<leftarrow> m_dictDelete demo_type (demo_dict\<lparr>iterators := 1\<rparr>) 5;
     (st, freed, d) \<leftarrow> m_dictDelete demo_type d 1;
     (st, freed, d) \<leftarrow> m_dictDelete demo_type d 3;
     Some d
   }"

lemma m_dictGetStats_overruns_witness:
  "\<exists>d. demo_emptied = Some d \<and> m_dictGetStats fmt (replicate 10 (CHR ''x'')) 10 d = None"
proof -
  have "\<exists>d. demo_emptied = Some d \<and> dictIsRehashing d \<and> ht_used (ht0 d) = 0"
    by (simp add: demo_emptied_def m_dictDelete_def dictGenericDelete_def dictIsRehashing_def demo_dict_def dictRehashStep_def
        find_in_table_def bucket_index_def get_ht_def set_ht_def arr_get_def arr_set_def demo_type_def dictCompareKeys_def
        unlink_entry_def count_dec_def Let_def)
  then show ?thesis using m_dictGetStats_overruns [of _ 10 "replicate 10 (CHR ''x'')" fmt] by (auto simp: no_stats_def)
qed

lemma m_dictGetStats_terminated_witness:
  "\<exists>buf'. m_dictGetStats fmt (replicate 10 (CHR ''x'')) 10 demo_dict = Some buf' \<and> length buf' = 10 \<and> last buf' = CHR 0x00"
  by (rule m_dictGetStats_terminated [OF demo_dict_inv]) (simp_all add: demo_dict_def)

lemma ht_statistics_counts_witness:
  "\<exists>s. ht_statistics (ht0 demo_dict) = Some s \<and> st_slots s = 2 \<and> st_maxchainlen s = 2 \<and> st_totchainlen s = 3"
  using ht_statistics_counts [of "ht0 demo_dict"] by (auto simp: demo_dict_def counted_def longest_def)

end
