(* ===== verification/Spec2Isabelle.thy ===== *)
theory Spec2Isabelle
  imports Prelude Crc32 SlotHash Numconv Siphash SiphashReference Interfaces Dict DictInv SlotTable DictProps
    Skiplist SkiplistInv SkiplistInsert SkiplistDel SkiplistList SkiplistRange SkiplistProps
    SlotIndex SlotIndexInv SlotCron SlotEvents IndexProps
    Adlist AdlistInv AdlistProps DictScan ScanRange SlotScan
    Migrate MigrateKeys Restore SendProps DeleteProps MigrateProps PoolProps TagProps
    Commands CommandReplies CommandProps CpuAffinity TwoServers DictIter
    ConnTimeout GlobMatch Conversions DictStats
begin

text \<open>
  RedisXSlot is a module for a Redis server. It gives every key a slot, keeps an index of the
  keys of every slot, and offers commands that list, delete and migrate the keys of a slot to
  another server. This library models it from its C source and proves it correct.

  The parts and how they interact.

  A key's slot is the CRC-32 of its hash tag, masked with the number of slots less one. The
  index (\<open>redisxslot.c\<close>) has, for every database, one dictionary per slot with the keys of the
  slot, and one skip list with the keys that have a tag, scored by the checksum of the tag.
  The dictionaries hash with SipHash and are rehashed incrementally. The server's notifications
  (\<open>module.c\<close>) drive the index: a write adds the key, a deletion or expiry deletes it, a rename
  or a move between databases comes as two notifications that the callback joins with static
  variables; a flush empties the tables, the cron callback resizes and rehashes some of them.
  The commands read the index: paging through a slot uses the cursor scan of the dictionary
  and collects keys in a linked list.

  The theories, in the order of their dependence.

  Prelude: machine types, the option type read as \<open>the call returns\<close>, array accesses with
  bounds, C strings, loops over a range, shared lemmas.

  Crc32: \<open>crc32.c\<close>. The static table is a parameter, the serial bitwise checksum is the
  reference. SlotHash: \<open>slots_tag\<close> and \<open>slots_num\<close> of \<open>redisxslot.c\<close>. Numconv: the decimal
  conversions of \<open>dep/util.c\<close>, with the decimal notation \<open>show_int\<close> as the specification.
  Siphash: \<open>dep/siphash.c\<close>. SiphashReference: SipHash on words as lists of bits, with any numbers of
  rounds; with 2-4 it gives the 64 test vectors of the file, with 1-2 it is what the code computes
  on every input.

  Interfaces: the contracts as locales. \<open>keyed_table\<close> is what a dictionary promises (every
  request is answered as the finite map answers it), \<open>ordered_entries\<close> what a skip list
  promises (a sorted list of distinct entries), \<open>fifo\<close> what the commands need of a linked list.
  DictProps, SkiplistProps and AdlistProps interpret them on the models of the code.

  Dict, DictInv, DictProps: \<open>dep/dict.c\<close>. A dictionary is two tables of chains with the rehash
  index and the iterator count; the invariant \<open>dict_inv\<close> says that the sizes are powers of two
  of at most \<open>2^60\<close>, every entry is in the bucket of its hash, the emptied part of the old
  table is empty, the counters are exact and the keys distinct. \<open>dict_map\<close> is the finite map a
  dictionary stands for. SlotTable: the key type of the slot tables. DictScan: \<open>m_dictScan\<close>; a
  cursor of \<open>k\<close> bits visits the buckets in the order of the reversed bits. DictIter: the
  iterators with the fingerprint, the sampling of several keys and the lookup by pointer, where a
  pointer to an entry is its key and the addresses of the tables are arguments; a loop with a safe
  iterator may delete what it visits.

  Skiplist, SkiplistInv, SkiplistInsert, SkiplistDel, SkiplistList, SkiplistRange, SkiplistProps:
  \<open>dep/skiplist.c\<close>, on a heap of nodes with forward pointers, spans and back links. The
  invariant says that every level is a sub-chain of the bottom one, that the spans are the
  distances in it, and that the bottom one is sorted by score and member.

  SlotIndex: the global state, \<open>Slots_Init\<close>, \<open>Slots_Free\<close>, \<open>Slots_Add\<close>, \<open>Slots_Del\<close> and the
  callbacks of \<open>module.c\<close>. SlotIndexInv: the invariant \<open>slots_inv\<close> of the index, the set
  \<open>index s db\<close> of the keys it holds and the references it owns; the effect of each operation.
  SlotCron: the cron callback. SlotEvents: the server as a source of events, the keys that
  exist after them (\<open>keyspaces\<close>), and the proof that the index follows the events the module is
  told of (\<open>announced\<close>). Restored and copied keys, evictions and stream writes are events as well;
  the callbacks ignore the first two and are not subscribed to the others. IndexProps: the
  properties of whole runs.

  Adlist, AdlistInv, AdlistProps: \<open>dep/list.c\<close>, on a heap of doubly linked nodes shared by the
  lists; \<open>holds\<close> says which values a list has. SlotScan: \<open>SlotsMGRT_Scan\<close>.

  Migrate, MigrateKeys: the migration client of \<open>redisxslot.c\<close>. Migrate has the surroundings as
  a record of functions (\<open>env\<close>): the own server behind \<open>RedisModule_Call\<close>, which also returns the
  notifications a call raises, hiredis, the clock and the thread pool; the cache of connections,
  and the three ways of sending. MigrateKeys has the dumps, the unlinking, \<open>migrateKeys\<close>, and the
  choice of keys. Restore: \<open>slotsRestoreCmd\<close> of \<open>module.c\<close> and
  \<open>SlotsMGRT_Restore\<close>. Every request
  is logged in \<open>ms_trace\<close>, and the notifications of a call go through the callbacks of SlotIndex,
  so the state after a call has the index the module would have. SendProps: what is sent, and
  in which commands. ScanRange: one call of the cursor scan at any cursor, so that a
  table may lose entries and be rehashed between the calls. DeleteProps: unlinking and the
  deletion of slots. MigrateProps: migrations as a whole; \<open>delivered\<close> says that all objects were sent and
  each command acknowledged. PoolProps: sending with a thread pool,
  in every order of the tasks. TagProps: the keys that have a tag in
  common, the drawing of a key of a slot, and what the callers are told is left.

  Commands: the commands of \<open>module.c\<close> with their argument checks. A command yields the sequence
  of its calls of the server's reply functions; with \<open>async\<close> it blocks the client, and the reply
  comes from the thread's function. The theory also has the dispatch, the checks at the start of
  the module and the table of the registered commands. CommandReplies: replies as trees; every
  sequence of reply calls is one complete reply, and refused arguments change nothing.
  CommandProps: the commands as a client sees them, the arguments they do not check, and what a
  sender makes of the reply to a failed restore.

  TwoServers: what a receiver makes of a command, and a sender and a receiver that both run the
  module, the receiver without \<open>async\<close> and without restore threads. The commands the client of the
  sender sends are executed by the handler of the receiver, unless they are lost; the databases
  of both, as maps from keys to dumps, are followed through a whole migration by single commands,
  the way of sending without threads and without a pipeline.

  ConnTimeout: \<open>SlotsMGRT_CloseTimedoutConns\<close> and the cron callback that calls it. The iterator of
  the server's dictionary is a parameter; what is proved says what it must do for the loop to work.

  GlobMatch: the glob matcher of \<open>dep/util.c\<close>, against patterns read as lists of tests and stars.
  Conversions: its amounts of memory and texts of floating-point numbers.

  CpuAffinity: \<open>setcpuaffinity.c\<close>. Pointers into the list are the rests of the string.

  How the C code corresponds to the definitions. Structures are records with the fields of the
  code, in the code's names where Isabelle allows them. A function that changes a structure
  takes and returns it. \<open>None\<close> is undefined behaviour or an abort: an access outside an array, a
  null or freed pointer that is followed, a failed assertion, an overflow of a signed counter,
  and a loop that does not end; a theorem that a call yields \<open>Some\<close> says that none of these
  happens. Loops are recursive functions, and \<open>partial_function\<close> where the code has no bound
  of its own. Memory that is given back shows as the list of the freed entries or members, and
  for the index as the references to keys in \<open>held\<close>, a multiset, and the balance of the value
  strings in \<open>held_vals\<close>: the strings made less the times one was given back. The balance counts
  on below zero, where in C a string is freed twice and the behaviour is undefined.

  Parameters. The values of \<open>rand()\<close> are a list of draws, and a list is usable when the level
  loop finds its end in it; the theorems hold for all usable lists. The clock is a function of
  the number of reads. The comparison of Redis strings is a parameter with the laws of a total
  order, discharged for the byte order. Every table function returns a definite result, so no
  fuel is needed anywhere.

  Bounds. The theorems on whole runs are about fewer than \<open>2^31\<close> events, since the cron counter
  is an \<open>int\<close> and overflows after that; then no database holds \<open>2^32 - 1\<close> keys, from which on
  the skip list's ranks, of type \<open>unsigned int\<close>, would wrap. Tables have at most \<open>2^60\<close> buckets.

  What the proofs showed. The value string of a renamed or moved key is freed twice: by the
  automatic memory of the callback that made it, and by the table. The index does not follow keys
  that are restored, copied or evicted, and streams. With a number of slots that is not a power of two some slots are
  never used. Every write to a key that is indexed already leaves a reference and a value
  string behind. One cron call looks only at one diagonal of the databases and slots when it
  rehashes. A notification \<open>rename_to\<close> without its \<open>rename_from\<close> follows a null pointer. The
  commands that take a slot number do not all check its range, and \<open>SLOTSINFO\<close> cuts its start
  to 32 bits. A migration that starts with a key the server no longer has reads an entry of the
  dumps that was never written. \<open>SLOTSMGRTTAGSLOT\<close> reports that nothing is left when it has
  drawn a key without a tag. From a blocked client a failed restore is the number -1 and not an
  error, so the sender deletes its keys. The key of a connection that has timed out is taken for a
  terminated string, which the server's iterator does not give. The text of the statistics can overrun
  a short buffer, and a star does not match the empty string.

  Not modelled. Locks and the threads that hold them: a step is one locked section or one
  callback, and the commands of several blocked clients are not interleaved. Logging. The
  automatic memory of the contexts other than that of the generic callback, in which no string is
  made that is kept. Failure of an allocation: the server's allocator
  aborts. The timeout and disconnect callbacks of blocked clients, which only reply a constant or
  log. The self-test of the hash function and the benchmarks.
\<close>

end

